(* ===== verification/Prelude.thy ===== *)
theory Prelude
  imports Main "HOL-Library.Word" "HOL-Library.Multiset"
begin

text \<open>
  Shared vocabulary of the development: the error values of the Go code
  (\<^verbatim>\<open>src/consensus/types/errors.go\<close> and the error variables of the state machines), the
  result type of fallible operations, the integer types of Go, and the generic
  lemmas on lists, finite sets and sums that several components use.

  A Go function that returns an \<^verbatim>\<open>error\<close> or may \<^verbatim>\<open>panic\<close> is modelled by a function into
  \<open>go_error + 'a\<close>: \<open>Inl\<close> carries the error (or \<open>Panic\<close> with the message of the call to
  \<^verbatim>\<open>panic\<close>), \<open>Inr\<close> the normal result.
\<close>

named_theorems go_simps \<open>equations that evaluate the result combinators\<close>

section \<open>Errors and results\<close>

datatype go_error =
    ErrInvalidHeader | ErrInvalidIndex | ErrNoValidSigs | ErrNoNewSigs | ErrInvalidSig
  | ErrNotMember | ErrNotEnoughSigs | ErrMsgNotFound | ErrInvalidBitID | ErrIntersectingBitIDs
  | ErrInvalidBitIDSub | ErrUnsortedBitID | ErrTooLargeBitID | ErrNoItems | ErrInvalidBitIDEncoding
  | ErrInvalidBuffSize | ErrInvalidVarint | ErrNotEnoughBytes | ErrNoProofs | ErrInvalidRound | ErrInvalidRoundCoord
  | EOF
  | ErrMustSignFirst | ErrTooManyParticipants | ErrTxTooLarge | ErrSendersNotSorted | ErrIntOverflow | ErrNotEnoughSend
  | ErrNoSend | ErrNoSender | ErrInvalidSenderCount | ErrInvalidReceiverCount | ErrNotEnoughBalance | ErrInvalidTxCounters
  | ErrInvalidTxCounter | ErrInvalidSignatureCount | ErrSignatureInvalid | ErrNonUniqueSenders | ErrNonUniqueReceivers
  | ErrTooManyTxInBlock | ErrInvalidTxMerkleRoot | ErrInvalidHash | ErrInvalidProposal
  | ErrNoSignature | ErrNonUniqueAssets | ErrInvalidAssetCount | ErrAssetTooLarge | ErrInvalidOutputAsset | ErrOverflow
  | ErrNotEnoughInputValue | ErrZeroOutput | ErrAssetNotFound | ErrTooManyAssets | ErrAssetNotUnique | ErrInvalidHashSize
  | Panic string

type_synonym 'a res = "go_error + 'a"

definition bind_res :: "'a res \<Rightarrow> ('a \<Rightarrow> 'b res) \<Rightarrow> 'b res" where
  "bind_res m f = (case m of Inl e \<Rightarrow> Inl e | Inr x \<Rightarrow> f x)"

definition is_ok :: "'a res \<Rightarrow> bool" where
  "is_ok m = (case m of Inl _ \<Rightarrow> False | Inr _ \<Rightarrow> True)"

definition panics :: "'a res \<Rightarrow> bool" where
  "panics m = (case m of Inl (Panic _) \<Rightarrow> True | _ \<Rightarrow> False)"

text \<open>A call that returns an error beside other results panics with the error \<open>Panic\<close>.\<close>

definition errPanics :: "go_error option \<Rightarrow> bool" where
  "errPanics err = (case err of Some e \<Rightarrow> panics (Inl e :: unit res) | None \<Rightarrow> False)"

lemma bind_res_simps [simp, go_simps]:
  "bind_res (Inl e) f = Inl e"
  "bind_res (Inr x) f = f x"
  by (simp_all add: bind_res_def)

lemma is_ok_simps [simp, go_simps]:
  "is_ok (Inl e) = False"
  "is_ok (Inr x) = True"
  by (simp_all add: is_ok_def)

lemma panics_simps [simp, go_simps]:
  "panics (Inr x) = False"
  "panics (Inl (Panic s)) = True"
  by (simp_all add: panics_def)

lemma panics_Inl: "panics (Inl e) \<longleftrightarrow> (\<exists>s. e = Panic s)"
  by (cases e) (simp_all add: panics_def)

lemma errPanics_iff: "errPanics err \<longleftrightarrow> (\<exists>s. err = Some (Panic s))"
  by (auto simp: errPanics_def panics_Inl split: option.splits)

lemma errPanics_simps [simp]: "errPanics None = False" "errPanics (Some (Panic s)) = True"
  by (simp_all add: errPanics_iff)

lemma panics_bind_res: "panics (bind_res m f) \<longleftrightarrow> panics m \<or> (\<exists>x. m = Inr x \<and> panics (f x))"
  by (cases m) (auto simp: panics_def)

lemma bind_res_Inr_iff:
  "bind_res m f = Inr y \<longleftrightarrow> (\<exists>x. m = Inr x \<and> f x = Inr y)"
  by (cases m) auto

lemma bind_res_cong [fundef_cong]:
  "m = m' \<Longrightarrow> (\<And>x. m' = Inr x \<Longrightarrow> f x = g x) \<Longrightarrow> bind_res m f = bind_res m' g"
  by (cases m') auto

lemma is_ok_iff: "is_ok m \<longleftrightarrow> (\<exists>x. m = Inr x)"
  by (cases m) auto

section \<open>Go integer types\<close>

type_synonym byte = "8 word"
type_synonym uint64 = "64 word"

section \<open>Finite sets\<close>

lemma card_inter_gt:
  assumes "finite M" "S \<subseteq> M" "T \<subseteq> M" "card M + k < card S + card T"
  shows "k < card (S \<inter> T)"
proof -
  have fin: "finite S" "finite T"
    using assms finite_subset by blast+
  then have "card S + card T = card (S \<union> T) + card (S \<inter> T)"
    by (rule card_Un_Int)
  moreover have "card (S \<union> T) \<le> card M"
    using assms by (intro card_mono) auto
  ultimately show ?thesis
    using assms(4) by linarith
qed

lemma exists_outside:
  assumes "finite B" "card B < card S"
  shows "\<exists>x \<in> S. x \<notin> B"
proof (rule ccontr)
  assume "\<not> (\<exists>x \<in> S. x \<notin> B)"
  then have "S \<subseteq> B" by blast
  then have "card S \<le> card B" using assms(1) card_mono by blast
  with assms(2) show False by simp
qed

section \<open>Lists of optional results\<close>

lemma those_map: "those (map f xs) = Some ys \<longleftrightarrow> (\<forall>x \<in> set xs. f x \<noteq> None) \<and> ys = map (\<lambda>x. the (f x)) xs"
  by (induction xs arbitrary: ys) (auto split: option.splits)

section \<open>Removing from a slice\<close>

lemma mset_butlast: "xs \<noteq> [] \<Longrightarrow> mset (butlast xs) = mset xs - {#last xs#}"
  by (induction xs rule: rev_induct) simp_all

text \<open>Overwriting an element with the last one and cutting the slice removes that element.\<close>

lemma mset_swap_last:
  assumes i: "i < length xs"
  shows "mset (butlast (xs[i := last xs])) = mset xs - {#xs ! i#}"
proof -
  have ne: "xs[i := last xs] \<noteq> []" using i by auto
  have "last (xs[i := last xs]) = last xs"
    using i by (subst last_list_update) auto
  then show ?thesis
    using mset_butlast [OF ne] mset_update [OF i, of "last xs"] by simp
qed

end
