(* ===== verification/Utils.thy ===== *)
theory Utils
  imports Prelude
begin

text \<open>
  Model of the helper functions of \<^verbatim>\<open>src/consensus/utils/utils.go\<close>.
  Go's \<^verbatim>\<open>int\<close> is \<^typ>\<open>int\<close> (the values here are counts and
  indices far below \<open>2 ^ 63\<close>), \<^verbatim>\<open>uint64\<close> is \<^typ>\<open>uint64\<close> with its
  wrap-around.
\<close>

section \<open>Fault threshold\<close>

text \<open>\<^verbatim>\<open>n % 3\<close> and \<^verbatim>\<open>n / 3\<close> of a non-negative member count agree with HOL's \<open>mod\<close> and \<open>div\<close>.\<close>

definition GetOneThirdBottom :: "int \<Rightarrow> int" where
  "GetOneThirdBottom n = (if n mod 3 = 0 then n div 3 - 1 else n div 3)"

text \<open>
  What the consensus algorithms need of the number of tolerated faults: more than two
  thirds of the members are correct.
\<close>

locale fault_threshold =
  fixes faults :: "int \<Rightarrow> int"
  assumes faults_nonneg: "0 < n \<Longrightarrow> 0 \<le> faults n"
    and faults_third: "0 < n \<Longrightarrow> 3 * faults n < n"
begin

lemma quorum_gt_faults: "0 < n \<Longrightarrow> faults n < n - faults n"
  using faults_third [of n] faults_nonneg [of n] by linarith

lemma quorum_minus_faults: "0 < n \<Longrightarrow> faults n < (n - faults n) - faults n"
  using faults_third [of n] by linarith

lemma quorum_intersect:
  assumes "finite M" "M \<noteq> {}" "S \<subseteq> M" "T \<subseteq> M" "finite B"
    and "int (card B) \<le> faults (int (card M))"
    and "int (card M) - faults (int (card M)) \<le> int (card S)"
    and "int (card M) - faults (int (card M)) \<le> int (card T)"
  shows "\<exists>p. p \<in> S \<and> p \<in> T \<and> p \<notin> B"
proof -
  have pos: "0 < int (card M)"
    using assms(1,2) by (simp add: card_gt_0_iff)
  have "card M + card B < card S + card T"
    using assms(6-8) faults_third [OF pos] by linarith
  then have "card B < card (S \<inter> T)"
    using assms by (intro card_inter_gt) auto
  from exists_outside [OF assms(5) this] show ?thesis by blast
qed

lemma quorum_has_correct:
  assumes "M \<noteq> {}" "finite M" "finite B" "int (card B) \<le> faults (int (card M))"
    and "faults (int (card M)) < int (card S)"
  shows "\<exists>p. p \<in> S \<and> p \<notin> B"
proof -
  have "card B < card S" using assms by linarith
  from exists_outside [OF assms(3) this] show ?thesis by blast
qed

end

interpretation one_third: fault_threshold GetOneThirdBottom
proof unfold_locales
  fix n :: int
  assume n: "0 < n"
  show "0 \<le> GetOneThirdBottom n"
    using n unfolding GetOneThirdBottom_def by presburger
  show "3 * GetOneThirdBottom n < n"
    using n unfolding GetOneThirdBottom_def by presburger
qed

section \<open>Maximum and minimum\<close>

fun max_loop :: "int \<Rightarrow> int list \<Rightarrow> int" where
  "max_loop m [] = m"
| "max_loop m (n # l) = max_loop (if n > m then n else m) l"

text \<open>\<^verbatim>\<open>MaxInt(l1 int, l ...int)\<close>.\<close>

definition MaxInt :: "int \<Rightarrow> int list \<Rightarrow> int" where
  "MaxInt l1 l = max_loop l1 l"

definition Min_int :: "int \<Rightarrow> int \<Rightarrow> int" where
  "Min_int a b = (if a < b then a else b)"

definition Max_int :: "int \<Rightarrow> int \<Rightarrow> int" where
  "Max_int a b = (if a > b then a else b)"

lemma max_loop_eq: "max_loop m l = fold max l m"
  by (induction l arbitrary: m) (auto simp: max_def)

lemma MaxInt_Nil [simp]: "MaxInt a [] = a"
  by (simp add: MaxInt_def)

lemma MaxInt_single [simp]: "MaxInt a [b] = max a b"
  by (simp add: MaxInt_def)

end
