(* ===== verification/Numbers.thy ===== *)
theory Numbers
  imports Utils
begin

text \<open>
  The functions of \<^verbatim>\<open>src/consensus/utils/utils.go\<close> on machine integers and on byte slices: overflow check and sums,
  minima and maxima, bits, fixed size encodings (\<^verbatim>\<open>config.Encoding\<close> is little endian), trimming and splitting.
  \<^verbatim>\<open>uint64\<close>, \<^verbatim>\<open>uint32\<close> and \<^verbatim>\<open>uint16\<close> are words of their width;
  \<^verbatim>\<open>types.ConsensusRound\<close> is a \<^verbatim>\<open>uint32\<close> and \<^verbatim>\<open>types.ConsensusInt\<close> a \<^verbatim>\<open>uint64\<close>. A
  reader is the list of bytes not yet read; a read returns as many bytes as there are, and \<open>EOF\<close> when there is none.
\<close>

unbundle bit_operations_syntax

type_synonym uint32 = "32 word"
type_synonym uint16 = "16 word"

section \<open>Arithmetic\<close>

definition GetBitAt :: "nat \<Rightarrow> uint64 \<Rightarrow> nat res" where
  "GetBitAt idx v =
     (if idx > 63 then Inl (Panic ''invalid index'') else Inr (if push_bit idx 1 AND v = 0 then 0 else 1))"

definition SubOrZero :: "uint64 \<Rightarrow> uint64 \<Rightarrow> uint64" where
  "SubOrZero a b = (if b > a then 0 else a - b)"

definition SubOrOne :: "uint64 \<Rightarrow> uint64 \<Rightarrow> uint64" where
  "SubOrOne a b = (if b \<ge> a then 1 else a - b)"

fun checkOverflowLoop :: "uint64 list \<Rightarrow> uint64 \<Rightarrow> bool" where
  "checkOverflowLoop [] tot = False"
| "checkOverflowLoop (nxt # items) tot =
     (if - 1 - nxt < tot then True else checkOverflowLoop items (tot + nxt))"

definition CheckOverflow :: "uint64 list \<Rightarrow> bool" where
  "CheckOverflow items = checkOverflowLoop items 0"

definition SumUint64 :: "uint64 list \<Rightarrow> uint64" where
  "SumUint64 l = fold (\<lambda>n sum. sum + n) l 0"

definition SumUint32 :: "uint32 list \<Rightarrow> uint32" where
  "SumUint32 l = fold (\<lambda>n sum. sum + n) l 0"

definition SumConsensusRound :: "uint32 list \<Rightarrow> uint32" where
  "SumConsensusRound l = fold (\<lambda>n sum. sum + n) l 0"

definition MaxU64 :: "uint64 \<Rightarrow> uint64 \<Rightarrow> uint64" where
  "MaxU64 a b = (if a > b then a else b)"

text \<open>The loops that keep the larger or the smaller of the current value and the next one.\<close>

definition keepMax :: "'a :: linorder list \<Rightarrow> 'a \<Rightarrow> 'a" where
  "keepMax l start = fold (\<lambda>n m. if n > m then n else m) l start"

definition keepMin :: "'a :: linorder list \<Rightarrow> 'a \<Rightarrow> 'a" where
  "keepMin l start = fold (\<lambda>n m. if n < m then n else m) l start"

definition MaxU64Slice :: "uint64 list \<Rightarrow> uint64" where
  "MaxU64Slice l = keepMax l 0"

definition MinU64Slice :: "uint64 list \<Rightarrow> uint64" where
  "MinU64Slice l = (if l = [] then 0 else keepMin l (hd l))"

definition MinIntSlice :: "int list \<Rightarrow> int" where
  "MinIntSlice l = (if l = [] then 0 else keepMin l (hd l))"

definition MaxIntSlice :: "int list \<Rightarrow> int" where
  "MaxIntSlice l = (if l = [] then 0 else MaxInt (hd l) l)"

definition MinDuration :: "int list \<Rightarrow> int res" where
  "MinDuration l = (if l = [] then Inl (Panic ''empty list input'') else Inr (keepMin l (2 ^ 63 - 1)))"

definition MaxDuration :: "int list \<Rightarrow> int res" where
  "MaxDuration l = (if l = [] then Inl (Panic ''empty list input'') else Inr (keepMax l 0))"

definition MaxUint32 :: "uint32 list \<Rightarrow> uint32 res" where
  "MaxUint32 l = (if l = [] then Inl (Panic ''empty list input'') else Inr (keepMax l 0))"

definition MinUint32 :: "uint32 list \<Rightarrow> uint32" where
  "MinUint32 l = keepMin l (- 1)"

definition MaxConsensusRound :: "uint32 list \<Rightarrow> uint32 res" where
  "MaxConsensusRound l = (if l = [] then Inl (Panic ''empty list input'') else Inr (keepMax l 0))"

definition MinConsensusRound :: "uint32 list \<Rightarrow> uint32" where
  "MinConsensusRound l = keepMin l (- 1)"

definition MinConsensusIndex :: "uint64 list \<Rightarrow> uint64" where
  "MinConsensusIndex l = keepMin l (- 1)"

definition MaxConsensusIndex :: "uint64 list \<Rightarrow> uint64" where
  "MaxConsensusIndex l = keepMax l 0"

text \<open>\<^verbatim>\<open>Exp\<close> multiplies in \<^verbatim>\<open>int\<close>, with wrap-around; a negative exponent gives 1.\<close>

definition Exp :: "64 word \<Rightarrow> int \<Rightarrow> 64 word" where
  "Exp x y = ((\<lambda>ret. ret * x) ^^ nat y) 1"

definition GenListUint64 :: "int \<Rightarrow> int \<Rightarrow> uint64 list res" where
  "GenListUint64 start stop =
     (if stop < start then Inl (Panic ''makeslice: len out of range'')
      else Inr (map (\<lambda>i. of_int (int i + start)) [0..<nat (stop - start)]))"

section \<open>Byte slices\<close>

definition leBytes :: "nat \<Rightarrow> 'a :: len word \<Rightarrow> byte list" where
  "leBytes n v = map (\<lambda>i. ucast (drop_bit (8 * i) v)) [0..<n]"

definition leVal :: "byte list \<Rightarrow> 'a :: len word" where
  "leVal bs = foldr (\<lambda>b acc. ucast b OR push_bit 8 acc) bs 0"

definition EncodeUint64 :: "uint64 \<Rightarrow> byte list" where
  "EncodeUint64 v = leBytes 8 v"

definition EncodeUint32 :: "uint32 \<Rightarrow> byte list" where
  "EncodeUint32 v = leBytes 4 v"

definition EncodeUint16 :: "uint16 \<Rightarrow> byte list" where
  "EncodeUint16 v = leBytes 2 v"

text \<open>\<^verbatim>\<open>reader.Read(arr[:])\<close> for an array of zeros: the array, the number of bytes read and the rest.\<close>

definition readArr :: "nat \<Rightarrow> byte list \<Rightarrow> (byte list \<times> nat \<times> byte list) res" where
  "readArr sz r =
     (if r = [] then Inl EOF
      else (let n = min sz (length r) in Inr (take n r @ replicate (sz - n) 0, n, drop n r)))"

definition ReadUint64 :: "byte list \<Rightarrow> (uint64 \<times> nat \<times> byte list) res" where
  "ReadUint64 r = bind_res (readArr 8 r) (\<lambda>(arr, n, r1). Inr (leVal arr, n, r1))"

definition ReadUint32 :: "byte list \<Rightarrow> (uint32 \<times> nat \<times> byte list) res" where
  "ReadUint32 r = bind_res (readArr 4 r) (\<lambda>(arr, n, r1). Inr (leVal arr, n, r1))"

definition ReadUint16 :: "byte list \<Rightarrow> (uint16 \<times> nat \<times> byte list) res" where
  "ReadUint16 r = bind_res (readArr 2 r) (\<lambda>(arr, n, r1). Inr (leVal arr, n, r1))"

text \<open>\<open>trimLoop buff minLen k\<close> is the loop of \<^verbatim>\<open>TrimZeros\<close> at \<open>i = k - 1\<close>.\<close>

fun trimLoop :: "byte list \<Rightarrow> nat \<Rightarrow> nat \<Rightarrow> nat" where
  "trimLoop buff minLen 0 = 0"
| "trimLoop buff minLen (Suc i) = (if i \<ge> minLen \<and> buff ! i = 0 then trimLoop buff minLen i else Suc i)"

definition TrimZeros :: "byte list \<Rightarrow> nat \<Rightarrow> byte list" where
  "TrimZeros buff minLen = take (trimLoop buff minLen (length buff)) buff"

text \<open>\<^verbatim>\<open>buff[lo:hi]\<close>.\<close>

definition slice :: "int \<Rightarrow> int \<Rightarrow> 'a list \<Rightarrow> 'a list res" where
  "slice lo hi buff =
     (if 0 \<le> lo \<and> lo \<le> hi \<and> hi \<le> int (length buff) then Inr (take (nat (hi - lo)) (drop (nat lo) buff))
      else Inl (Panic ''slice bounds out of range''))"

fun splitLoop :: "nat \<Rightarrow> byte list \<Rightarrow> int \<Rightarrow> int \<Rightarrow> byte list list \<Rightarrow> (int \<times> byte list list) res" where
  "splitLoop 0 buff sz pos ret = Inr (pos, ret)"
| "splitLoop (Suc k) buff sz pos ret =
     bind_res (slice pos (Min_int (int (length buff) - 1) (pos + sz)) buff) (\<lambda>piece.
       let ret1 = ret @ [piece]; pos1 = pos + sz
       in if pos1 \<ge> int (length buff) then Inr (pos1, ret1) else splitLoop k buff sz pos1 ret1)"

definition SplitBytes :: "byte list \<Rightarrow> nat \<Rightarrow> byte list list res" where
  "SplitBytes buff maxPieces =
     (if maxPieces = 0 then Inl (Panic ''integer divide by zero'')
      else bind_res (splitLoop (maxPieces - 1) buff (int (length buff) div int maxPieces) 0 []) (\<lambda>(pos, ret).
        if pos < int (length buff) - 1 then bind_res (slice pos (int (length buff)) buff) (\<lambda>piece. Inr (ret @ [piece]))
        else Inr ret))"

definition NonZeroCount :: "byte list list list \<Rightarrow> nat" where
  "NonZeroCount v = fold (\<lambda>a cnt. fold (\<lambda>b c. if length b > 0 then c + 1 else c) a cnt) v 0"

definition TrueCount :: "bool list \<Rightarrow> nat" where
  "TrueCount arr = fold (\<lambda>nxt ret. if nxt then ret + 1 else ret) arr 0"

section \<open>Sums and extrema\<close>

lemma checkOverflowLoop_spec:
  "checkOverflowLoop items tot \<longleftrightarrow> 2 ^ 64 \<le> unat tot + (\<Sum>n \<leftarrow> items. unat n)"
proof (induction items arbitrary: tot)
  case Nil
  then show ?case using unsigned_less [of tot, where 'a = nat] by simp
next
  case (Cons nxt items)
  have m: "unat (- 1 - nxt) = 2 ^ 64 - 1 - unat nxt"
    by (simp add: unat_sub [OF word_n1_ge] unsigned_minus_1_eq_mask mask_eq_exp_minus_1)
  have "- 1 - nxt < tot \<longleftrightarrow> 2 ^ 64 \<le> unat tot + unat nxt"
    using unsigned_less [of nxt, where 'a = nat] by (simp add: word_less_nat_alt m) linarith
  moreover have "unat (tot + nxt) = unat tot + unat nxt" if "\<not> 2 ^ 64 \<le> unat tot + unat nxt"
    using that by (simp add: unat_word_ariths)
  ultimately show ?case using Cons.IH [of "tot + nxt"] by (cases "2 ^ 64 \<le> unat tot + unat nxt") (simp_all add: add.assoc)
qed

lemma sum_fold: "fold (\<lambda>n sum. sum + n) l (a :: 'a :: len word) = of_nat (unat a + (\<Sum>n \<leftarrow> l. unat n))"
  by (induction l arbitrary: a) (simp_all add: unat_word_ariths add.assoc)

lemma keepMax_spec: "keepMax l s = Max (insert s (set l))"
proof -
  have "keepMax l s = fold max l s" unfolding keepMax_def by (rule fold_cong) (auto simp: max_def fun_eq_iff)
  then show ?thesis using Max.set_eq_fold [of s l] by simp
qed

lemma keepMin_spec: "keepMin l s = Min (insert s (set l))"
proof -
  have "keepMin l s = fold min l s" unfolding keepMin_def by (rule fold_cong) (auto simp: min_def fun_eq_iff)
  then show ?thesis using Min.set_eq_fold [of s l] by simp
qed

lemma Max_insert_least: "finite A \<Longrightarrow> A \<noteq> {} \<Longrightarrow> (\<And>x. x \<in> A \<Longrightarrow> s \<le> x) \<Longrightarrow> Max (insert s A) = Max A"
  by (simp add: max_absorb2 Max_ge_iff) (metis Max_in max.absorb2)

lemma Min_insert_greatest: "finite A \<Longrightarrow> A \<noteq> {} \<Longrightarrow> (\<And>x. x \<in> A \<Longrightarrow> x \<le> s) \<Longrightarrow> Min (insert s A) = Min A"
  by (simp add: min_absorb2)

section \<open>Little endian\<close>

lemma leBytes_Suc: "leBytes (Suc n) v = ucast v # leBytes n (drop_bit 8 v)"
  by (simp add: leBytes_def map_upt_Suc add.commute del: upt_Suc)

lemma length_leBytes [simp]: "length (leBytes n v) = n"
  by (simp add: leBytes_def)

lemma leVal_leBytes: "leVal (leBytes n v) = take_bit (8 * n) (v :: 'a :: len word)"
proof (induction n arbitrary: v)
  case 0
  then show ?case by (simp add: leBytes_def leVal_def)
next
  case (Suc n)
  have "leVal (leBytes (Suc n) v) = ucast (ucast v :: byte) OR push_bit 8 (take_bit (8 * n) (drop_bit 8 v))"
    using Suc.IH [of "drop_bit 8 v"] by (simp add: leBytes_Suc leVal_def)
  also have "\<dots> = take_bit (8 * Suc n) v"
    by (rule bit_eqI) (auto simp: bit_or_iff bit_ucast_iff bit_push_bit_iff bit_take_bit_iff bit_drop_bit_eq dest: bit_imp_le_length)
  finally show ?case .
qed

lemma readArr_full: "length xs = n \<Longrightarrow> 0 < n \<Longrightarrow> readArr n (xs @ rest) = Inr (xs, n, rest)"
  by (auto simp: readArr_def Let_def)

section \<open>Trimming and splitting\<close>

lemma trimLoop_spec:
  "k \<le> length buff \<Longrightarrow> trimLoop buff minLen k \<le> k \<and> min minLen k \<le> trimLoop buff minLen k \<and>
   (\<forall>i. trimLoop buff minLen k \<le> i \<and> i < k \<longrightarrow> buff ! i = 0) \<and>
   (minLen < trimLoop buff minLen k \<longrightarrow> buff ! (trimLoop buff minLen k - 1) \<noteq> 0)"
proof (induction k)
  case (Suc k)
  show ?case
  proof (cases "k \<ge> minLen \<and> buff ! k = 0")
    case True
    then show ?thesis using Suc by (auto simp: less_Suc_eq)
  next
    case False
    then have "trimLoop buff minLen (Suc k) = Suc k" by auto
    then show ?thesis using False by auto
  qed
qed simp

lemma splitLoop_spec:
  assumes "0 \<le> sz" "pos + int k * sz < int (length buff)" "0 \<le> pos"
  shows "\<exists>ret'. splitLoop k buff sz pos ret = Inr (pos + int k * sz, ret') \<and>
    concat ret' = concat ret @ take (nat (int k * sz)) (drop (nat pos) buff)"
  using assms
proof (induction k arbitrary: pos ret)
  case (Suc k)
  have "0 \<le> int k * sz" "pos + int (Suc k) * sz = pos + sz + int k * sz" using Suc.prems(1) by (simp_all add: algebra_simps)
  then have le: "pos + sz \<le> int (length buff) - 1" using Suc.prems(2) by linarith
  let ?piece = "take (nat sz) (drop (nat pos) buff)"
  have "slice pos (Min_int (int (length buff) - 1) (pos + sz)) buff = Inr ?piece"
    using le Suc.prems by (auto simp: slice_def Min_int_def)
  moreover obtain ret' where "splitLoop k buff sz (pos + sz) (ret @ [?piece]) = Inr (pos + sz + int k * sz, ret')"
    "concat ret' = concat (ret @ [?piece]) @ take (nat (int k * sz)) (drop (nat (pos + sz)) buff)"
    using Suc.IH [of "pos + sz" "ret @ [?piece]"] Suc.prems by (auto simp: algebra_simps)
  moreover have "take (nat sz) (drop (nat pos) buff) @ take (nat (int k * sz)) (drop (nat (pos + sz)) buff) =
      take (nat (int (Suc k) * sz)) (drop (nat pos) buff)"
  proof -
    have "nat (int (Suc k) * sz) = nat sz + nat (int k * sz)" using Suc.prems(1) by (simp add: nat_add_distrib distrib_right)
    moreover have "nat (pos + sz) = nat sz + nat pos" using Suc.prems by (simp add: nat_add_distrib)
    ultimately show ?thesis by (simp add: take_add)
  qed
  ultimately show ?case using le by (auto simp: Let_def algebra_simps)
qed simp

section \<open>Theorems\<close>

lemma CheckOverflow_iff: "CheckOverflow items \<longleftrightarrow> 2 ^ 64 \<le> (\<Sum>n \<leftarrow> items. unat n)"
  using checkOverflowLoop_spec [of items 0] by (simp add: CheckOverflow_def)

lemma unat_SumUint64: "unat (SumUint64 items) = (\<Sum>n \<leftarrow> items. unat n) mod 2 ^ 64"
  unfolding SumUint64_def sum_fold by (simp add: unat_of_nat)

text \<open>Reading the 8, 4 or 2 little endian bytes that were written gives back the value and leaves the rest unread.\<close>

lemma ReadUint_Encode [simp]:
  "ReadUint64 (EncodeUint64 v @ rest) = Inr (v, 8, rest)" "ReadUint32 (EncodeUint32 w @ rest) = Inr (w, 4, rest)"
  "ReadUint16 (EncodeUint16 x @ rest) = Inr (x, 2, rest)"
  by (simp_all add: ReadUint64_def EncodeUint64_def ReadUint32_def EncodeUint32_def ReadUint16_def EncodeUint16_def readArr_full
      leVal_leBytes take_bit_word_eq_self)

text \<open>
  C21 (overflow check). \<^verbatim>\<open>CheckOverflow\<close> answers true exactly when the sum of the items does not fit into 64 bits;
  when it answers false, \<^verbatim>\<open>SumUint64\<close> is the true sum.
\<close>

theorem CheckOverflow_spec:
  "(CheckOverflow items \<longleftrightarrow> 2 ^ 64 \<le> (\<Sum>n \<leftarrow> items. unat n)) \<and>
   unat (SumUint64 items) = (\<Sum>n \<leftarrow> items. unat n) mod 2 ^ 64 \<and>
   (CheckOverflow items \<or> unat (SumUint64 items) = (\<Sum>n \<leftarrow> items. unat n))"
  by (cases "CheckOverflow items") (simp_all add: CheckOverflow_iff unat_SumUint64 not_le)

lemma TrimZeros_split:
  "\<exists>k. buff = TrimZeros buff minLen @ replicate k 0 \<and> min minLen (length buff) \<le> length (TrimZeros buff minLen) \<and>
     (length (TrimZeros buff minLen) \<le> minLen \<or> last (TrimZeros buff minLen) \<noteq> 0)"
proof -
  let ?t = "trimLoop buff minLen (length buff)"
  have t: "?t \<le> length buff" "min minLen (length buff) \<le> ?t" "\<And>i. ?t \<le> i \<Longrightarrow> i < length buff \<Longrightarrow> buff ! i = 0"
    "minLen < ?t \<Longrightarrow> buff ! (?t - 1) \<noteq> 0"
    using trimLoop_spec [of "length buff" buff minLen] by auto
  have "drop ?t buff = replicate (length buff - ?t) 0" using t(1,3) by (intro nth_equalityI) simp_all
  then have "buff = TrimZeros buff minLen @ replicate (length buff - ?t) 0"
    unfolding TrimZeros_def by (metis append_take_drop_id)
  moreover have "?t \<le> minLen \<or> last (TrimZeros buff minLen) \<noteq> 0"
  proof (cases "minLen < ?t")
    case True
    then have "last (TrimZeros buff minLen) = buff ! (?t - 1)" using t(1) by (subst last_conv_nth) (auto simp: TrimZeros_def min_def)
    then show ?thesis using t(4) [OF True] by simp
  qed simp
  moreover have "length (TrimZeros buff minLen) = ?t" using t(1) by (simp add: TrimZeros_def)
  ultimately show ?thesis using t(2) by (metis (no_types))
qed

text \<open>
  The pieces that \<^verbatim>\<open>SplitBytes\<close> returns for a slice that is not empty are, in order, the whole
  slice, except that the last byte is lost when there are as many bytes as pieces or only one byte. On the empty slice it
  panics for two pieces or more.
\<close>

lemma SplitBytes_spec:
  assumes "0 < maxPieces"
  shows "if buff = [] then (maxPieces \<noteq> 1) = panics (SplitBytes buff maxPieces)
    else \<exists>ret. SplitBytes buff maxPieces = Inr ret \<and>
      concat ret = (if length buff = maxPieces \<or> length buff = 1 then butlast buff else buff)"
proof (cases "buff = []")
  case True
  then show ?thesis using assms by (cases "maxPieces - 1") (auto simp: SplitBytes_def slice_def Min_int_def)
next
  case False
  let ?n = "int (length buff)" and ?m = "int maxPieces"
  let ?sz = "?n div ?m" and ?k = "maxPieces - 1"
  let ?pos = "int ?k * ?sz"
  have k: "int ?k = ?m - 1" using assms by simp
  have m0: "0 < ?m" using assms by simp
  have pos: "0 \<le> ?sz" "?m * ?sz \<le> ?n" "?n < ?m * ?sz + ?m"
    using m0 mult_div_mod_eq [of ?m ?n] pos_mod_bound [OF m0, of ?n] pos_mod_sign [OF m0, of ?n]
    by (simp_all only: pos_imp_zdiv_nonneg_iff)
  have e: "?pos = ?m * ?sz - ?sz" using k by (simp add: algebra_simps)
  have lt: "?pos < ?n"
  proof (cases "?sz = 0")
    case True
    then show ?thesis using False by simp
  next
    case False
    then show ?thesis using pos e by linarith
  qed
  have sz: "?sz = 1" if "length buff = maxPieces" using that assms by simp
  have sz1: "?sz = (if maxPieces = 1 then 1 else 0)" if "length buff = 1" using that assms by (simp add: div_pos_pos_trivial)
  have one: "?pos = ?n - 1 \<longleftrightarrow> length buff = maxPieces \<or> length buff = 1"
  proof
    assume "?pos = ?n - 1"
    then have "?sz + (?n - ?m * ?sz) = 1" using e by linarith
    then have "?sz = 0 \<and> ?n - ?m * ?sz = 1 \<or> ?sz = 1 \<and> ?n - ?m * ?sz = 0" using pos by linarith
    then show "length buff = maxPieces \<or> length buff = 1" by auto
  next
    assume "length buff = maxPieces \<or> length buff = 1"
    then show "?pos = ?n - 1"
    proof
      assume l: "length buff = maxPieces"
      then show ?thesis using e sz [OF l] by simp
    next
      assume l: "length buff = 1"
      then show ?thesis using e sz1 [OF l] by (simp split: if_splits)
    qed
  qed
  obtain ret where ret: "splitLoop ?k buff ?sz 0 [] = Inr (?pos, ret)" "concat ret = take (nat ?pos) buff"
    using splitLoop_spec [of ?sz 0 ?k buff "[]"] pos(1) lt by auto
  have p0: "0 \<le> ?pos" using pos(1) by simp
  show ?thesis
  proof (cases "?pos = ?n - 1")
    case True
    then have "SplitBytes buff maxPieces = Inr ret" using ret(1) assms by (simp add: SplitBytes_def)
    moreover have "nat ?pos = length buff - 1" using True False by (simp only: nat_diff_distrib)
    then have "concat ret = butlast buff" using ret(2) by (simp add: butlast_conv_take)
    ultimately show ?thesis using one True False by auto
  next
    case no: False
    have "slice ?pos ?n buff = Inr (drop (nat ?pos) buff)" using lt p0 by (simp add: slice_def)
    then have "SplitBytes buff maxPieces = Inr (ret @ [drop (nat ?pos) buff])"
      using ret(1) assms lt no unfolding SplitBytes_def by simp
    moreover have "concat (ret @ [drop (nat ?pos) buff]) = buff" using ret(2) by simp
    ultimately show ?thesis using one no False by auto
  qed
qed

text \<open>
  The maximum and minimum functions of 64 bit and 32 bit values return the maximum and the minimum of their
  arguments; those that need a value for the empty slice return 0 or the largest value, or panic.
\<close>

lemma extrema_spec:
  "(if l = [] then MaxU64Slice l = 0 \<and> MinU64Slice l = 0 \<and> MinConsensusIndex l = - 1 \<and> MaxConsensusIndex l = 0
    else MaxU64Slice l = Max (set l) \<and> MinU64Slice l = Min (set l) \<and> MinConsensusIndex l = Min (set l) \<and> MaxConsensusIndex l = Max (set l)) \<and>
   (if r = [] then panics (MaxUint32 r) \<and> panics (MaxConsensusRound r) \<and> MinUint32 r = - 1 \<and> MinConsensusRound r = - 1
    else MaxUint32 r = Inr (Max (set r)) \<and> MaxConsensusRound r = Inr (Max (set r)) \<and> MinUint32 r = Min (set r) \<and> MinConsensusRound r = Min (set r))"
  by (auto simp: MaxU64Slice_def MinU64Slice_def MinConsensusIndex_def MaxConsensusIndex_def MaxUint32_def MaxConsensusRound_def
      MinUint32_def MinConsensusRound_def keepMax_spec keepMin_spec Max_insert_least Min_insert_greatest insert_absorb
      simp del: Max_insert Min_insert)

text \<open>
  \<^verbatim>\<open>MaxDuration\<close> starts from zero: on negative durations it returns zero and not the maximum. A short input is not
  an error for \<^verbatim>\<open>ReadUint64\<close>, which reads zeros for the missing bytes.
\<close>

theorem MaxDuration_negative: "MaxDuration [-5, -3] = Inr 0"
  by (simp add: MaxDuration_def keepMax_def)

theorem ReadUint64_short: "ReadUint64 [7] = Inr (7, 1, [])"
  by code_simp

end
