(* ===== verification/SortedSlices.thy ===== *)
theory SortedSlices
  imports Utils
begin

text \<open>
  The functions of \<^verbatim>\<open>src/consensus/utils/utils.go\<close> on slices of integers: search, merging, insertion, removal and
  the tests for duplicates. A slice is a list; an index that leaves a slice is a panic. The two index variables of a
  loop over two slices are the parts of the slices still to be visited.
\<close>

section \<open>Operations\<close>

text \<open>\<^verbatim>\<open>sort.IntSlice.Search\<close>: binary search for the first index whose item is not smaller than \<open>v\<close>.\<close>

function searchLoop :: "int list \<Rightarrow> int \<Rightarrow> nat \<Rightarrow> nat \<Rightarrow> nat" where
  "searchLoop l v i j =
     (if i < j then
        (let h = (i + j) div 2
         in if l ! h < v then searchLoop l v (h + 1) j else searchLoop l v i h)
      else i)"
  by pat_completeness auto
termination
  by (relation "measure (\<lambda>(l, v, i, j). j - i)") auto

declare searchLoop.simps [simp del]

definition SearchInts :: "int list \<Rightarrow> int \<Rightarrow> nat" where
  "SearchInts l v = searchLoop l v 0 (length l)"

definition ContainsInt :: "int list \<Rightarrow> int \<Rightarrow> bool" where
  "ContainsInt l v = (let i = SearchInts l v in if i < length l then l ! i = v else False)"

fun uniqueLoop :: "int list \<Rightarrow> int \<Rightarrow> int \<Rightarrow> int" where
  "uniqueLoop [] prev cnt = cnt"
| "uniqueLoop (nxt # l) prev cnt = (if nxt \<noteq> prev then uniqueLoop l nxt (cnt + 1) else uniqueLoop l prev cnt)"

definition GetUniqueCount :: "int list \<Rightarrow> int" where
  "GetUniqueCount s1 = (case s1 of [] \<Rightarrow> 0 | prev # l \<Rightarrow> uniqueLoop l prev 1)"

text \<open>The loop of \<^verbatim>\<open>GetDuplicates\<close>; the state is \<^verbatim>\<open>prv\<close> and the two results.\<close>

fun duplicatesLoop :: "int list \<Rightarrow> int \<Rightarrow> int list \<Rightarrow> int list \<Rightarrow> int list \<times> int list" where
  "duplicatesLoop [] prv nonDup dup = (nonDup, dup)"
| "duplicatesLoop (nxt # l) prv nonDup dup =
     (if nxt = prv then duplicatesLoop l nxt nonDup (dup @ [nxt]) else duplicatesLoop l nxt (nonDup @ [nxt]) dup)"

definition GetDuplicates :: "int list \<Rightarrow> (int list \<times> int list) res" where
  "GetDuplicates items =
     (case items of [] \<Rightarrow> Inl (Panic ''index out of range'') | prv # l \<Rightarrow> Inr (duplicatesLoop l prv [prv] []))"

fun nonDupCountLoop :: "int list \<Rightarrow> int list \<Rightarrow> int \<Rightarrow> int \<Rightarrow> int" where
  "nonDupCountLoop [] s2 cnt prv = cnt + int (length s2)"
| "nonDupCountLoop s1 [] cnt prv = cnt + int (length s1)"
| "nonDupCountLoop (a # s1) (b # s2) cnt prv =
     (if a < b then nonDupCountLoop s1 (b # s2) (if cnt = 0 \<or> prv \<noteq> a then cnt + 1 else cnt) a
      else nonDupCountLoop (a # s1) s2 (if cnt = 0 \<or> prv \<noteq> b then cnt + 1 else cnt) b)"

definition GetNonDuplicateCount :: "int list \<Rightarrow> int list \<Rightarrow> int" where
  "GetNonDuplicateCount s1 s2 = nonDupCountLoop s1 s2 0 0"

definition appendNew :: "int \<Rightarrow> int list \<Rightarrow> int list" where
  "appendNew v out = (if out = [] \<or> last out \<noteq> v then out @ [v] else out)"

fun sortNoDupLoop :: "int list \<Rightarrow> int list \<Rightarrow> int list \<Rightarrow> int list" where
  "sortNoDupLoop [] s2 out = fold appendNew s2 out"
| "sortNoDupLoop s1 [] out = fold appendNew s1 out"
| "sortNoDupLoop (a # s1) (b # s2) out =
     (if a < b then sortNoDupLoop s1 (b # s2) (appendNew a out) else sortNoDupLoop (a # s1) s2 (appendNew b out))"

definition SortSortedNoDuplicates :: "int list \<Rightarrow> int list \<Rightarrow> int list" where
  "SortSortedNoDuplicates s1 s2 = sortNoDupLoop s1 s2 []"

definition SortSortedList :: "int list list \<Rightarrow> int list" where
  "SortSortedList items = sort (concat items)"

fun SortSorted :: "int list \<Rightarrow> int list \<Rightarrow> int list" where
  "SortSorted [] s2 = s2"
| "SortSorted s1 [] = s1"
| "SortSorted (a # s1) (b # s2) = (if a < b then a # SortSorted s1 (b # s2) else b # SortSorted (a # s1) s2)"

text \<open>\<^verbatim>\<open>for i := len(arr) - 2; i >= pos; i-- { arr[i+1] = arr[i] }\<close>, called with \<open>n = len(arr) - 1 - pos\<close>.\<close>

fun shiftLoop :: "nat \<Rightarrow> nat \<Rightarrow> int list \<Rightarrow> int list" where
  "shiftLoop pos 0 arr = arr"
| "shiftLoop pos (Suc n) arr = shiftLoop pos n (arr[pos + n + 1 := arr ! (pos + n)])"

definition insertAt :: "nat \<Rightarrow> int \<Rightarrow> int list \<Rightarrow> int list" where
  "insertAt pos v arr = (let arr1 = arr @ [0] in (shiftLoop pos (length arr - pos) arr1)[pos := v])"

definition InsertIfNotFound :: "int list \<Rightarrow> int \<Rightarrow> nat \<Rightarrow> (int list \<times> nat \<times> bool) res" where
  "InsertIfNotFound arr toInsert startIndex =
     (if startIndex > length arr then Inl (Panic ''slice bounds out of range'')
      else
        (let pos = SearchInts (drop startIndex arr) toInsert + startIndex
         in if pos = length arr then Inr (arr @ [toInsert], pos, True)
            else if arr ! pos = toInsert then Inr (arr, pos, False)
            else Inr (insertAt pos toInsert arr, pos, True)))"

definition InsertInSortedSlice :: "int list \<Rightarrow> int \<Rightarrow> nat \<Rightarrow> (int list \<times> nat) res" where
  "InsertInSortedSlice arr toInsert startIndex =
     (if startIndex > length arr then Inl (Panic ''startIndex'')
      else
        (let pos = (if startIndex < length arr then SearchInts (drop startIndex arr) toInsert + startIndex else startIndex)
         in if pos = length arr then Inr (arr @ [toInsert], pos)
            else Inr (insertAt pos toInsert arr, pos)))"

text \<open>\<^verbatim>\<open>RemoveFromSlice\<close> and \<^verbatim>\<open>RemoveFromSliceString\<close>; the loop over the indices.\<close>

fun removeLoop :: "'a \<Rightarrow> 'a list \<Rightarrow> nat \<Rightarrow> 'a list \<Rightarrow> bool \<times> 'a list" where
  "removeLoop n [] i sli = (False, sli)"
| "removeLoop n (v # l) i sli =
     (if n = v then (True, butlast (sli[i := last sli])) else removeLoop n l (Suc i) sli)"

definition RemoveFromSlice :: "'a \<Rightarrow> 'a list \<Rightarrow> bool \<times> 'a list" where
  "RemoveFromSlice n sli = removeLoop n sli 0 sli"

definition SubSortedSlice :: "int list \<Rightarrow> int list \<Rightarrow> int list" where
  "SubSortedSlice s1 s2 = sort (fold (\<lambda>nxt ret. snd (RemoveFromSlice nxt ret)) s2 s1)"

definition ContainsSlice :: "int list \<Rightarrow> int list \<Rightarrow> bool" where
  "ContainsSlice s1 s2 = (length (SubSortedSlice s1 s2) + length s2 = length s1)"

fun CheckUniqueSorted :: "('a \<Rightarrow> 'a \<Rightarrow> bool) \<Rightarrow> 'a list \<Rightarrow> bool" where
  "CheckUniqueSorted equalFunc (a # b # l) = (if equalFunc a b then False else CheckUniqueSorted equalFunc (b # l))"
| "CheckUniqueSorted equalFunc l = True"

text \<open>The loops of \<^verbatim>\<open>checkUniqueInternal\<close>: all pairs for short lists, a map from items to indices for long ones.\<close>

fun findEqual :: "'a \<Rightarrow> 'a list \<Rightarrow> nat \<Rightarrow> nat option" where
  "findEqual a [] j = None"
| "findEqual a (b # l) j = (if a = b then Some j else findEqual a l (Suc j))"

fun allPairsLoop :: "'a list \<Rightarrow> nat \<Rightarrow> nat \<times> nat \<times> bool" where
  "allPairsLoop [] i = (0, 0, True)"
| "allPairsLoop (a # l) i =
     (case findEqual a l (Suc i) of Some j \<Rightarrow> (i, j, False) | None \<Rightarrow> allPairsLoop l (Suc i))"

fun hashLoop :: "'a list \<Rightarrow> nat \<Rightarrow> ('a \<rightharpoonup> nat) \<Rightarrow> nat \<times> nat \<times> bool" where
  "hashLoop [] i itemsMap = (0, 0, True)"
| "hashLoop (nxt # l) i itemsMap =
     (case itemsMap nxt of Some idx \<Rightarrow> (i, idx, False) | None \<Rightarrow> hashLoop l (Suc i) (itemsMap(nxt \<mapsto> i)))"

definition checkUniqueInternal :: "'a list \<Rightarrow> nat \<times> nat \<times> bool" where
  "checkUniqueInternal items =
     (if length items < 2 then (0, 0, True)
      else if length items < 10 then allPairsLoop items 0
      else hashLoop items 0 Map.empty)"

definition CheckUnique :: "'a list \<Rightarrow> bool" where
  "CheckUnique items = snd (snd (checkUniqueInternal items))"

section \<open>Search\<close>

lemma searchLoop_spec:
  assumes "sorted l" "i \<le> j" "j \<le> length l" "\<forall>k < i. l ! k < v" "\<forall>k. j \<le> k \<longrightarrow> k < length l \<longrightarrow> v \<le> l ! k"
  shows "searchLoop l v i j \<le> length l \<and> (\<forall>k < searchLoop l v i j. l ! k < v) \<and>
    (\<forall>k. searchLoop l v i j \<le> k \<longrightarrow> k < length l \<longrightarrow> v \<le> l ! k)"
  using assms
proof (induction l v i j rule: searchLoop.induct)
  case (1 l v i j)
  show ?case
  proof (cases "i < j")
    case True
    let ?h = "(i + j) div 2"
    have h: "i \<le> ?h" "?h < j" using True by auto
    show ?thesis
    proof (cases "l ! ?h < v")
      case True
      have "l ! k < v" if "k < ?h + 1" for k
        using sorted_nth_mono [OF "1.prems"(1), of k ?h] that True h(2) "1.prems"(3) by linarith
      then have "searchLoop l v (?h + 1) j \<le> length l \<and> (\<forall>k < searchLoop l v (?h + 1) j. l ! k < v) \<and>
          (\<forall>k. searchLoop l v (?h + 1) j \<le> k \<longrightarrow> k < length l \<longrightarrow> v \<le> l ! k)"
        using "1.prems" h by (intro "1.IH"(1) [OF \<open>i < j\<close> refl True]) auto
      then show ?thesis using searchLoop.simps [of l v i j] True \<open>i < j\<close> by (simp add: Let_def)
    next
      case False
      have "\<forall>k. ?h \<le> k \<longrightarrow> k < length l \<longrightarrow> v \<le> l ! k"
        using "1.prems"(1) False by (meson not_less order_trans sorted_nth_mono)
      then have "searchLoop l v i ?h \<le> length l \<and> (\<forall>k < searchLoop l v i ?h. l ! k < v) \<and>
          (\<forall>k. searchLoop l v i ?h \<le> k \<longrightarrow> k < length l \<longrightarrow> v \<le> l ! k)"
        using "1.prems" h by (intro "1.IH"(2) [OF \<open>i < j\<close> refl False]) auto
      then show ?thesis using searchLoop.simps [of l v i j] False \<open>i < j\<close> by (simp add: Let_def)
    qed
  next
    case False
    then show ?thesis using "1.prems" searchLoop.simps [of l v i j] by simp
  qed
qed

lemma SearchInts_spec:
  assumes "sorted l"
  shows "SearchInts l v \<le> length l" "k < SearchInts l v \<Longrightarrow> l ! k < v"
    "SearchInts l v \<le> k \<Longrightarrow> k < length l \<Longrightarrow> v \<le> l ! k"
  using searchLoop_spec [OF assms, of 0 "length l" v] by (simp_all add: SearchInts_def)

lemma SearchInts_found:
  assumes "sorted l"
  shows "SearchInts l v < length l \<and> l ! SearchInts l v = v \<longleftrightarrow> v \<in> set l"
proof
  assume "v \<in> set l"
  then obtain k where k: "k < length l" "l ! k = v" by (auto simp: in_set_conv_nth)
  then have "SearchInts l v \<le> k" using SearchInts_spec(2) [OF assms, of k v] by force
  then show "SearchInts l v < length l \<and> l ! SearchInts l v = v"
    using k SearchInts_spec(3) [OF assms, of v "SearchInts l v"] sorted_nth_mono [OF assms, of "SearchInts l v" k] by auto
qed (metis nth_mem)

lemma uniqueLoop_spec: "sorted (prev # l) \<Longrightarrow> uniqueLoop l prev cnt = cnt + int (card (set l - {prev}))"
proof (induction l arbitrary: prev cnt)
  case (Cons a l)
  show ?case
  proof (cases "a = prev")
    case False
    then have "set (a # l) - {prev} = insert a (set l)" using Cons.prems by auto
    then have "card (set (a # l) - {prev}) = Suc (card (set l - {a}))" by (simp add: card.insert_remove)
    then show ?thesis using Cons.IH [of a "cnt + 1"] Cons.prems False by simp
  qed (use Cons in simp)
qed simp

lemma GetUniqueCount_card: "sorted l \<Longrightarrow> GetUniqueCount l = int (card (set l))"
proof (cases l)
  case (Cons a l')
  have "card (set l) = Suc (card (set l' - {a}))"
    using card.insert_remove [of "set l'" a] Cons by simp
  then show "sorted l \<Longrightarrow> GetUniqueCount l = int (card (set l))" using Cons by (simp add: GetUniqueCount_def uniqueLoop_spec)
qed (simp add: GetUniqueCount_def)

section \<open>Merging\<close>

lemma set_appendNew [simp]: "set (appendNew v l) = insert v (set l)"
  by (cases l rule: rev_cases) (auto simp: appendNew_def)

lemma set_fold_appendNew: "set (fold appendNew xs l) = set l \<union> set xs"
  by (induction xs arbitrary: l) auto

lemma sorted_appendNew: "sorted_wrt (<) l \<Longrightarrow> (\<And>x. x \<in> set l \<Longrightarrow> x \<le> v) \<Longrightarrow> sorted_wrt (<) (appendNew v l)"
  by (cases l rule: rev_cases) (fastforce simp: appendNew_def sorted_wrt_append)+

lemma sorted_fold_appendNew:
  "sorted xs \<Longrightarrow> sorted_wrt (<) l \<Longrightarrow> (\<And>x y. x \<in> set l \<Longrightarrow> y \<in> set xs \<Longrightarrow> x \<le> y) \<Longrightarrow> sorted_wrt (<) (fold appendNew xs l)"
proof (induction xs arbitrary: l)
  case (Cons a xs)
  have "sorted_wrt (<) (appendNew a l)" using Cons.prems by (intro sorted_appendNew) auto
  then show ?case using Cons.prems by (auto intro!: Cons.IH)
qed simp

lemma sortNoDupLoop_spec:
  "sorted s1 \<Longrightarrow> sorted s2 \<Longrightarrow> sorted_wrt (<) out \<Longrightarrow> (\<And>x y. x \<in> set out \<Longrightarrow> y \<in> set s1 \<union> set s2 \<Longrightarrow> x \<le> y) \<Longrightarrow>
   sorted_wrt (<) (sortNoDupLoop s1 s2 out) \<and> set (sortNoDupLoop s1 s2 out) = set out \<union> set s1 \<union> set s2"
proof (induction s1 s2 out rule: sortNoDupLoop.induct)
  case (3 a s1 b s2 out)
  show ?case
  proof (cases "a < b")
    case True
    have "sorted_wrt (<) (appendNew a out)" using "3.prems" by (intro sorted_appendNew) auto
    then show ?thesis using "3.IH"(1) [OF True] "3.prems" True by fastforce
  next
    case False
    have "sorted_wrt (<) (appendNew b out)" using "3.prems" by (intro sorted_appendNew) auto
    then show ?thesis using "3.IH"(2) [OF False] "3.prems" False by fastforce
  qed
next
  case (2 v va out)
  then show ?case using sorted_fold_appendNew [of "v # va" out] set_fold_appendNew [of "v # va" out] by simp
qed (simp add: set_fold_appendNew sorted_fold_appendNew)

lemma SortSorted_mset: "mset (SortSorted s1 s2) = mset s1 + mset s2"
  by (induction s1 s2 rule: SortSorted.induct) auto

lemma SortSorted_sorted: "sorted s1 \<Longrightarrow> sorted s2 \<Longrightarrow> sorted (SortSorted s1 s2)"
proof (induction s1 s2 rule: SortSorted.induct)
  case (3 a s1 b s2)
  have set: "set (SortSorted xs ys) = set xs \<union> set ys" for xs ys
    using SortSorted_mset [of xs ys] by (metis set_mset_mset set_mset_union)
  show ?case using 3 by (cases "a < b") (force simp: set)+
qed simp_all

lemma duplicatesLoop_spec:
  assumes "sorted (prv # l)" "sorted_wrt (<) nonDup" "nonDup \<noteq> []" "last nonDup = prv"
    "sorted dup" "\<forall>x \<in> set dup. x \<le> prv"
  shows "sorted_wrt (<) (fst (duplicatesLoop l prv nonDup dup)) \<and> sorted (snd (duplicatesLoop l prv nonDup dup)) \<and>
    mset (fst (duplicatesLoop l prv nonDup dup)) + mset (snd (duplicatesLoop l prv nonDup dup)) = mset nonDup + mset dup + mset l"
  using assms
proof (induction l arbitrary: prv nonDup dup)
  case (Cons a l)
  show ?case
  proof (cases "a = prv")
    case True
    have "sorted (dup @ [a])" "\<forall>x \<in> set (dup @ [a]). x \<le> a" using Cons.prems True by (auto simp: sorted_append)
    then show ?thesis using Cons.IH [of a nonDup "dup @ [a]"] Cons.prems True by simp
  next
    case False
    obtain xs where "nonDup = xs @ [prv]" using Cons.prems by (metis append_butlast_last_id)
    then have "sorted_wrt (<) (nonDup @ [a])" using Cons.prems False by (fastforce simp: sorted_wrt_append)
    moreover have "\<forall>x \<in> set dup. x \<le> a" using Cons.prems by fastforce
    ultimately show ?thesis using Cons.IH [of a "nonDup @ [a]" dup] Cons.prems False by simp
  qed
qed simp

section \<open>Insertion and removal\<close>

lemma shiftLoop_spec:
  "pos + n < length arr \<Longrightarrow> length (shiftLoop pos n arr) = length arr \<and>
   (\<forall>k < length arr. shiftLoop pos n arr ! k = (if pos < k \<and> k \<le> pos + n then arr ! (k - 1) else arr ! k))"
proof (induction n arbitrary: arr)
  case (Suc n)
  let ?a = "arr[pos + n + 1 := arr ! (pos + n)]"
  have IH: "length (shiftLoop pos n ?a) = length arr"
    "\<forall>k < length arr. shiftLoop pos n ?a ! k = (if pos < k \<and> k \<le> pos + n then ?a ! (k - 1) else ?a ! k)"
    using Suc.IH [of ?a] Suc.prems by simp_all
  have "shiftLoop pos n ?a ! k = (if pos < k \<and> k \<le> pos + Suc n then arr ! (k - 1) else arr ! k)" if "k < length arr" for k
    using IH(2) that Suc.prems by (cases "k = pos + n + 1") (auto simp: nth_list_update)
  then show ?case using IH(1) by simp
qed simp

lemma insertAt_eq:
  assumes "pos \<le> length arr"
  shows "insertAt pos v arr = take pos arr @ v # drop pos arr"
proof (rule nth_equalityI)
  have s: "length (shiftLoop pos (length arr - pos) (arr @ [0])) = length arr + 1"
    "\<And>k. k < length arr + 1 \<Longrightarrow> shiftLoop pos (length arr - pos) (arr @ [0]) ! k =
      (if pos < k \<and> k \<le> length arr then (arr @ [0]) ! (k - 1) else (arr @ [0]) ! k)"
    using shiftLoop_spec [of pos "length arr - pos" "arr @ [0]"] assms by simp_all
  show len: "length (insertAt pos v arr) = length (take pos arr @ v # drop pos arr)"
    using s(1) assms by (simp add: insertAt_def Let_def)
  fix k
  assume "k < length (insertAt pos v arr)"
  then have k: "k < length arr + 1" using len assms by simp
  have "insertAt pos v arr ! k = (if k = pos then v else if pos < k then arr ! (k - 1) else arr ! k)"
    using s k assms by (cases "pos < k") (auto simp: insertAt_def Let_def nth_list_update nth_append)
  also have "\<dots> = (take pos arr @ v # drop pos arr) ! k"
    using k assms by (auto simp: nth_append nth_Cons' min_def)
  finally show "insertAt pos v arr ! k = (take pos arr @ v # drop pos arr) ! k" .
qed

lemma insertAt_search:
  assumes "sorted arr" "i \<le> length arr" "\<forall>x \<in> set (take i arr). x \<le> v"
  defines "pos \<equiv> SearchInts (drop i arr) v + i"
  shows "pos \<le> length arr" "sorted (insertAt pos v arr)" "mset (insertAt pos v arr) = add_mset v (mset arr)"
    "pos < length arr \<and> arr ! pos = v \<longleftrightarrow> v \<in> set (drop i arr)"
proof -
  have d: "sorted (drop i arr)" using assms(1) by simp
  show le: "pos \<le> length arr" using SearchInts_spec(1) [OF d, of v] assms(2) by (simp add: pos_def)
  then show "mset (insertAt pos v arr) = add_mset v (mset arr)"
    by (simp add: insertAt_eq) (metis append_take_drop_id mset_append)
  have lt: "x \<le> v" if m: "x \<in> set (take pos arr)" for x
  proof -
    obtain k where k: "k < pos" "k < length arr" "x = arr ! k" using m by (auto simp: in_set_conv_nth)
    show ?thesis
    proof (cases "k < i")
      case True
      then have "x \<in> set (take i arr)" using k by (auto simp: in_set_conv_nth)
      then show ?thesis using assms(3) by simp
    next
      case False
      then have "k - i < SearchInts (drop i arr) v" using k(1) by (simp add: pos_def)
      then show ?thesis using SearchInts_spec(2) [OF d, of "k - i" v] False k by simp
    qed
  qed
  have ge: "v \<le> x" if m: "x \<in> set (drop pos arr)" for x
  proof -
    obtain k where "k < length (drop pos arr)" "x = drop pos arr ! k" using m by (metis in_set_conv_nth)
    then have "pos + k < length arr" "x = arr ! (pos + k)" using le by simp_all
    then show ?thesis using SearchInts_spec(3) [OF d, of v "SearchInts (drop i arr) v + k"] by (simp add: pos_def algebra_simps)
  qed
  have "sorted (take pos arr)" "sorted (drop pos arr)" using assms(1) by simp_all
  moreover have "x \<le> y" if "x \<in> set (take pos arr)" "y \<in> set (drop pos arr)" for x y using lt [OF that(1)] ge [OF that(2)] by simp
  ultimately show "sorted (insertAt pos v arr)" using lt ge by (simp add: insertAt_eq le sorted_append)
  show "pos < length arr \<and> arr ! pos = v \<longleftrightarrow> v \<in> set (drop i arr)"
    using SearchInts_found [OF d, of v] assms(2) by (auto simp: pos_def algebra_simps)
qed

lemma Insert_eq:
  assumes "sorted arr" "i \<le> length arr" "\<forall>x \<in> set (take i arr). x \<le> v"
  defines "pos \<equiv> SearchInts (drop i arr) v + i"
  shows "InsertInSortedSlice arr v i = Inr (insertAt pos v arr, pos)"
    "InsertIfNotFound arr v i = Inr (if v \<in> set (drop i arr) then arr else insertAt pos v arr, pos, v \<notin> set (drop i arr))"
proof -
  note s = insertAt_search [OF assms(1-3), folded pos_def]
  have last: "insertAt (length arr) v arr = arr @ [v]" by (simp add: insertAt_eq)
  have "i = length arr \<Longrightarrow> pos = i" using s(1) by (simp add: pos_def)
  then show "InsertInSortedSlice arr v i = Inr (insertAt pos v arr, pos)"
    using assms(2) last by (auto simp: InsertInSortedSlice_def Let_def pos_def)
  show "InsertIfNotFound arr v i = Inr (if v \<in> set (drop i arr) then arr else insertAt pos v arr, pos, v \<notin> set (drop i arr))"
    using assms(2) last s(1,4) by (auto simp: InsertIfNotFound_def Let_def pos_def)
qed

lemma SearchInts_takeWhile:
  assumes "sorted l"
  shows "SearchInts l v = length (takeWhile (\<lambda>x. x < v) l)"
proof -
  let ?n = "SearchInts l v"
  have "takeWhile (\<lambda>x. x < v) l = take ?n l"
    using SearchInts_spec [OF assms, where v = v] by (intro takeWhile_eq_take_P_nth) (auto simp: not_less)
  then show ?thesis using SearchInts_spec(1) [OF assms, of v] by simp
qed

lemma drop_SearchInts: "sorted l \<Longrightarrow> drop (SearchInts l v) l = dropWhile (\<lambda>x. x < v) l"
  by (simp add: SearchInts_takeWhile dropWhile_eq_drop)

lemma removeLoop_spec:
  "\<forall>k < length l. sli ! (i + k) = l ! k \<Longrightarrow> length sli = i + length l \<Longrightarrow>
   fst (removeLoop n l i sli) = (n \<in> set l) \<and>
   mset (snd (removeLoop n l i sli)) = (if n \<in> set l then mset sli - {#n#} else mset sli)"
proof (induction l arbitrary: i)
  case (Cons v l)
  show ?case
  proof (cases "n = v")
    case True
    have "i < length sli" "sli ! i = n" using Cons.prems True by auto
    then show ?thesis using True mset_swap_last [of i sli] by simp
  next
    case False
    have "\<forall>k < length l. sli ! (Suc i + k) = l ! k" using Cons.prems(1) by (metis Suc_less_eq add_Suc_shift length_Cons nth_Cons_Suc)
    then show ?thesis using Cons.IH [of "Suc i"] Cons.prems(2) False by simp
  qed
qed simp

lemma RemoveFromSlice_spec:
  "fst (RemoveFromSlice n sli) \<longleftrightarrow> n \<in> set sli" "mset (snd (RemoveFromSlice n sli)) = mset sli - {#n#}"
  using removeLoop_spec [of sli sli 0 n] by (auto simp: RemoveFromSlice_def)

lemma fold_RemoveFromSlice: "mset (fold (\<lambda>nxt ret. snd (RemoveFromSlice nxt ret)) s2 s1) = mset s1 - mset s2"
  by (induction s2 arbitrary: s1) (simp_all add: RemoveFromSlice_spec)

section \<open>Duplicates\<close>

lemma findEqual_spec:
  "case findEqual a l j of None \<Rightarrow> a \<notin> set l | Some k \<Rightarrow> j \<le> k \<and> k < j + length l \<and> l ! (k - j) = a"
proof (induction l arbitrary: j)
  case (Cons b l)
  show ?case
  proof (cases "a = b")
    case False
    then show ?thesis using Cons.IH [of "Suc j"] by (cases "findEqual a l (Suc j)") (auto simp: nth_Cons')
  qed simp
qed simp

lemma allPairsLoop_spec:
  "case allPairsLoop l i of (x, y, u) \<Rightarrow> u = distinct l \<and>
     (\<not> u \<longrightarrow> i \<le> x \<and> x < y \<and> y < i + length l \<and> l ! (x - i) = l ! (y - i))"
proof (induction l arbitrary: i)
  case (Cons a l)
  show ?case
  proof (cases "findEqual a l (Suc i)")
    case None
    then show ?thesis using Cons.IH [of "Suc i"] findEqual_spec [of a l "Suc i"]
      by (auto simp: nth_Cons' split: prod.splits)
  next
    case (Some k)
    then have "k - i = Suc (k - Suc i)" "l ! (k - Suc i) = a" "Suc i \<le> k" "k < Suc i + length l"
      using findEqual_spec [of a l "Suc i"] by auto
    then show ?thesis using Some nth_mem [of "k - Suc i" l] by auto
  qed
qed simp

lemma hashLoop_spec:
  assumes "\<And>v k. m v = Some k \<longleftrightarrow> k < i \<and> items ! k = v" "items = xs @ l" "length xs = i" "distinct xs"
  shows "case hashLoop l i m of (x, y, u) \<Rightarrow> u = distinct items \<and>
     (\<not> u \<longrightarrow> y < x \<and> x < length items \<and> items ! x = items ! y)"
  using assms
proof (induction l arbitrary: i m xs)
  case (Cons a l)
  have at: "items ! i = a" using Cons.prems(2,3) by (metis nth_append_length)
  show ?case
  proof (cases "m a")
    case None
    have notin: "a \<notin> set xs"
    proof
      assume "a \<in> set xs"
      then obtain k where k: "k < length xs" "xs ! k = a" by (metis in_set_conv_nth)
      then have "k < i \<and> items ! k = a" using Cons.prems(2,3) by (simp add: nth_append)
      then show False using Cons.prems(1) [of a k] None by simp
    qed
    have "(m(a \<mapsto> i)) v = Some k \<longleftrightarrow> k < Suc i \<and> items ! k = v" for v k
    proof (cases "v = a")
      case True
      have "\<not> (k < i \<and> items ! k = a)" using Cons.prems(1) [of a k] None by simp
      then show ?thesis using True at by (auto simp: less_Suc_eq)
    next
      case False
      then show ?thesis using Cons.prems(1) [of v k] at by (auto simp: less_Suc_eq)
    qed
    then have "case hashLoop l (Suc i) (m(a \<mapsto> i)) of (x, y, u) \<Rightarrow> u = distinct items \<and>
       (\<not> u \<longrightarrow> y < x \<and> x < length items \<and> items ! x = items ! y)"
      by (rule Cons.IH [of "m(a \<mapsto> i)" "Suc i" "xs @ [a]"]) (use Cons.prems notin in simp_all)
    then show ?thesis using None by simp
  next
    case (Some k)
    then have k: "k < i" "items ! k = a" using Cons.prems(1) by blast+
    then have "a \<in> set xs" using Cons.prems(2,3) by (metis nth_append nth_mem)
    then show ?thesis using Some k at Cons.prems(2,3) by auto
  qed
qed simp

lemma nonDupCountLoop_le: "nonDupCountLoop s1 s2 cnt prv \<le> cnt + int (length s1) + int (length s2)"
proof (induction s1 s2 cnt prv rule: nonDupCountLoop.induct)
  case (3 a s1 b s2 cnt prv)
  let ?n = "\<lambda>v. if cnt = 0 \<or> prv \<noteq> v then cnt + 1 else cnt"
  show ?case
  proof (cases "a < b")
    case True
    obtain m where m: "m = ?n a" "m \<le> cnt + 1" by simp
    have "nonDupCountLoop (a # s1) (b # s2) cnt prv = nonDupCountLoop s1 (b # s2) m a" using True by (simp add: m(1))
    then show ?thesis using "3.IH"(1) [OF True, folded m(1)] m(2) by simp
  next
    case False
    obtain m where m: "m = ?n b" "m \<le> cnt + 1" by simp
    have "nonDupCountLoop (a # s1) (b # s2) cnt prv = nonDupCountLoop (a # s1) s2 m b" using False by (simp add: m(1))
    then show ?thesis using "3.IH"(2) [OF False, folded m(1)] m(2) by simp
  qed
qed simp_all

section \<open>Theorems\<close>

lemma SortSorted_sort: "sorted s1 \<Longrightarrow> sorted s2 \<Longrightarrow> SortSorted s1 s2 = sort (s1 @ s2)"
  by (rule sym, intro properties_for_sort) (simp_all add: SortSorted_mset SortSorted_sorted)

lemma sorted_list_of_set_eqI: "sorted_wrt (<) l \<Longrightarrow> set l = A \<Longrightarrow> l = sorted_list_of_set A"
  by (metis sorted_list_of_set.idem_if_sorted_distinct strict_sorted_iff)

lemma SortSortedNoDuplicates_set:
  "sorted s1 \<Longrightarrow> sorted s2 \<Longrightarrow> SortSortedNoDuplicates s1 s2 = sorted_list_of_set (set s1 \<union> set s2)"
  using sortNoDupLoop_spec [of s1 s2 "[]"] by (intro sorted_list_of_set_eqI) (simp_all add: SortSortedNoDuplicates_def)

lemma set_duplicatesLoop: "p \<in> set nd \<Longrightarrow> set (fst (duplicatesLoop l p nd d)) = set nd \<union> set l"
  by (induction l arbitrary: p nd d) auto

lemma GetDuplicates_split:
  assumes "sorted items" "items \<noteq> []"
  obtains dup where "GetDuplicates items = Inr (sorted_list_of_set (set items), dup)" "sorted dup"
    "mset (sorted_list_of_set (set items)) + mset dup = mset items"
proof -
  obtain prv l where Cons: "items = prv # l" using assms(2) by (cases items) auto
  obtain nonDup dup where r: "duplicatesLoop l prv [prv] [] = (nonDup, dup)" by (cases "duplicatesLoop l prv [prv] []")
  have s: "sorted_wrt (<) nonDup" "sorted dup" "mset nonDup + mset dup = mset items"
    using duplicatesLoop_spec [of prv l "[prv]" "[]"] assms Cons r by simp_all
  then have "nonDup = sorted_list_of_set (set items)"
    using set_duplicatesLoop [of prv "[prv]" l "[]"] r Cons by (intro sorted_list_of_set_eqI) simp_all
  then show thesis using that Cons r s by (simp add: GetDuplicates_def)
qed

text \<open>
  On sorted slices \<^verbatim>\<open>SortSorted\<close> returns what sorting the concatenation returns, as
  \<^verbatim>\<open>SortSortedList\<close> does for any slices, and \<^verbatim>\<open>SortSortedNoDuplicates\<close> returns the sorted union.
\<close>

lemma SortSorted_equiv:
  assumes "sorted s1" "sorted s2"
  shows "SortSorted s1 s2 = SortSortedList [s1, s2] \<and>
    SortSortedNoDuplicates s1 s2 = sorted_list_of_set (set s1 \<union> set s2)"
  using SortSorted_sort [OF assms] SortSortedNoDuplicates_set [OF assms] by (simp add: SortSortedList_def)

text \<open>
  \<^verbatim>\<open>GetDuplicates\<close> of a sorted slice that is not empty returns its distinct items
  and the rest, both sorted; it panics on the empty slice.
\<close>

lemma GetDuplicates_spec:
  assumes "sorted items"
  shows "if items = [] then panics (GetDuplicates items)
    else \<exists>dup. GetDuplicates items = Inr (sorted_list_of_set (set items), dup) \<and> sorted dup \<and>
           mset (sorted_list_of_set (set items)) + mset dup = mset items"
proof (cases "items = []")
  case False
  then show ?thesis using GetDuplicates_split [OF assms] by metis
qed (simp add: GetDuplicates_def)

text \<open>
  Both insertion functions keep a sorted slice sorted and add exactly the new item;
  \<^verbatim>\<open>InsertIfNotFound\<close> does so exactly when the item is not in the part that it searches. An index past the end panics.
\<close>

lemma Insert_spec:
  assumes "sorted arr" "\<forall>x \<in> set (take startIndex arr). x \<le> v"
  shows "if startIndex > length arr then panics (InsertInSortedSlice arr v startIndex) \<and> panics (InsertIfNotFound arr v startIndex)
    else (\<exists>arr' pos. InsertInSortedSlice arr v startIndex = Inr (arr', pos) \<and> sorted arr' \<and> mset arr' = add_mset v (mset arr)) \<and>
      (\<exists>arr' pos. InsertIfNotFound arr v startIndex = Inr (arr', pos, v \<notin> set (drop startIndex arr)) \<and> sorted arr' \<and>
         mset arr' = (if v \<in> set (drop startIndex arr) then mset arr else add_mset v (mset arr)))"
proof (cases "startIndex > length arr")
  case True
  then show ?thesis by (simp add: InsertInSortedSlice_def InsertIfNotFound_def)
next
  case False
  then have i: "startIndex \<le> length arr" by simp
  show ?thesis
    using False assms(1) Insert_eq [OF assms(1) i assms(2)] insertAt_search(2,3) [OF assms(1) i assms(2)] by auto
qed

text \<open>
  \<^verbatim>\<open>SubSortedSlice\<close> returns the sorted multiset difference of any two slices, and
  \<^verbatim>\<open>ContainsSlice\<close> decides the containment of multisets.
\<close>

lemma SubSortedSlice_spec:
  "sorted (SubSortedSlice s1 s2) \<and> mset (SubSortedSlice s1 s2) = mset s1 - mset s2 \<and>
   (ContainsSlice s1 s2 \<longleftrightarrow> mset s2 \<subseteq># mset s1)"
proof -
  have m: "mset (SubSortedSlice s1 s2) = mset s1 - mset s2" by (simp add: SubSortedSlice_def fold_RemoveFromSlice)
  have "length (SubSortedSlice s1 s2) + length s2 = length s1 \<longleftrightarrow> mset s2 \<subseteq># mset s1"
  proof
    assume "mset s2 \<subseteq># mset s1"
    then have "mset s1 = (mset s1 - mset s2) + mset s2" by simp
    then show "length (SubSortedSlice s1 s2) + length s2 = length s1" using m by (metis size_mset size_union)
  next
    assume len: "length (SubSortedSlice s1 s2) + length s2 = length s1"
    have "mset s1 - mset s2 + (mset s1 \<inter># mset s2) = mset s1"
      by (metis add.commute subset_mset.diff_add subset_mset.inf_le1 multiset_inter_commute diff_intersect_left_idem)
    then have "size (mset s1 - mset s2) + size (mset s1 \<inter># mset s2) = length s1" by (metis size_mset size_union)
    then have "size (mset s1 \<inter># mset s2) = size (mset s2)" using len m by (metis add_left_cancel size_mset)
    then show "mset s2 \<subseteq># mset s1"
      by (metis less_irrefl mset_subset_size subset_mset.inf.cobounded2 subset_mset.inf.orderI subset_mset.inf_commute subset_mset.less_le)
  qed
  then show ?thesis using m by (simp add: SubSortedSlice_def ContainsSlice_def)
qed

text \<open>
  \<^verbatim>\<open>checkUniqueInternal\<close> tells whether all items are distinct, with either of its two methods,
  and otherwise returns the positions of two equal items.
\<close>

lemma checkUniqueInternal_spec:
  "CheckUnique items = distinct items \<and>
   (case checkUniqueInternal items of (i, j, unique) \<Rightarrow>
      unique \<or> (i \<noteq> j \<and> i < length items \<and> j < length items \<and> items ! i = items ! j))"
proof (cases "length items < 2")
  case True
  then have "distinct items" by (cases items; cases "tl items") auto
  then show ?thesis using True by (simp add: checkUniqueInternal_def CheckUnique_def)
next
  case False
  show ?thesis
  proof (cases "length items < 10")
    case True
    then show ?thesis using False allPairsLoop_spec [of items 0]
      by (auto simp: checkUniqueInternal_def CheckUnique_def split: prod.splits)
  next
    case big: False
    have "case hashLoop items 0 Map.empty of (x, y, u) \<Rightarrow> u = distinct items \<and>
        (\<not> u \<longrightarrow> y < x \<and> x < length items \<and> items ! x = items ! y)"
      by (rule hashLoop_spec [of Map.empty 0 items "[]"]) simp_all
    then show ?thesis using False big by (auto simp: checkUniqueInternal_def CheckUnique_def split: prod.splits)
  qed
qed

text \<open>
  \<^verbatim>\<open>GetNonDuplicateCount\<close> counts the items that remain when one slice is exhausted without comparing them, so it may
  exceed the size of the union that its comment promises; as the capacity of a new slice it is never more than needed.
\<close>

theorem GetNonDuplicateCount_overcounts: "GetNonDuplicateCount [1] [1] = 2 \<and> card (set [1 :: int] \<union> set [1]) = 1"
  by (simp add: GetNonDuplicateCount_def)

lemma GetNonDuplicateCount_le: "GetNonDuplicateCount s1 s2 \<le> int (length s1) + int (length s2)"
  using nonDupCountLoop_le [of s1 s2 0 0] by (simp add: GetNonDuplicateCount_def)

end
