(* ===== verification/Currency.thy ===== *)
theory Currency
  imports Numbers SortedSlices
begin

text \<open>
  The currency of \<^verbatim>\<open>src/consensus/statemachine/currency\<close>: accounts, transfer transactions, and the account table with
  its operations. The definitions follow \<^verbatim>\<open>account.go\<close>, \<^verbatim>\<open>stats.go\<close>, \<^verbatim>\<open>transfer_tx.go\<close> and \<^verbatim>\<open>account_table.go\<close>.

  Keys and signatures are the interfaces \<^verbatim>\<open>sig.Pub\<close>, \<^verbatim>\<open>sig.Priv\<close> and \<^verbatim>\<open>sig.Sig\<close>, implemented by several packages; the
  operations the currency calls are the fields of \<open>keyOps\<close>. A public key string is an element of a linear order
  (Go compares strings bytewise). The table is reached through the two operations of \<^verbatim>\<open>copywritemap.CopyWriteMap\<close> that the
  account table calls, the fields of \<open>tableOps\<close>.

  An operation takes the state of the table and returns the new state with its result, since a failed validation still
  creates accounts and counts in the statistics.
\<close>

section \<open>Data\<close>

record 'p Account =
  acPub :: 'p
  TxCounter :: uint64
  Balance :: uint64

definition NewAccount :: "'p \<Rightarrow> 'p Account" where
  "NewAccount pub = \<lparr>acPub = pub, TxCounter = 0, Balance = 0\<rparr>"

text \<open>A nil signature is \<open>None\<close>, and so is a nil \<^verbatim>\<open>SignedBytes\<close>.\<close>

record ('p, 's) TransferTx =
  Senders :: "'p list"
  Signatures :: "'s option list"
  SenderTxCounters :: "uint64 list"
  Recipiants :: "'p list"
  SendAmounts :: "uint64 list"
  ReceiveAmounts :: "uint64 list"
  SignedBytes :: "byte list option"

abbreviation MaxParticipants :: nat where "MaxParticipants \<equiv> 100"
abbreviation MaxTxSize :: nat where "MaxTxSize \<equiv> 10000"

record AccountStats =
  MoneyTransfered :: uint64
  TxConsumedCount :: uint64
  FailedValidations :: uint64
  PassedValidations :: uint64
  GeneratedTxCount :: uint64
  FailedGenerationTxCount :: uint64

definition newStats :: AccountStats where
  "newStats = \<lparr>MoneyTransfered = 0, TxConsumedCount = 0, FailedValidations = 0, PassedValidations = 0,
     GeneratedTxCount = 0, FailedGenerationTxCount = 0\<rparr>"

definition statsReset :: "AccountStats \<Rightarrow> AccountStats" where
  "statsReset as = as\<lparr>GeneratedTxCount := 0, FailedGenerationTxCount := 0, PassedValidations := 0, FailedValidations := 0,
     MoneyTransfered := 0, TxConsumedCount := 0\<rparr>"

definition statsGenerateTx :: "AccountStats \<Rightarrow> AccountStats" where
  "statsGenerateTx as = as\<lparr>GeneratedTxCount := GeneratedTxCount as + 1\<rparr>"

definition statsFailedGenerateTx :: "AccountStats \<Rightarrow> AccountStats" where
  "statsFailedGenerateTx as = as\<lparr>FailedGenerationTxCount := FailedGenerationTxCount as + 1\<rparr>"

definition statsPassedValidation :: "AccountStats \<Rightarrow> AccountStats" where
  "statsPassedValidation as = as\<lparr>PassedValidations := PassedValidations as + 1\<rparr>"

definition statsFailedValidation :: "AccountStats \<Rightarrow> AccountStats" where
  "statsFailedValidation as = as\<lparr>FailedValidations := FailedValidations as + 1\<rparr>"

text \<open>The interfaces the currency calls. \<open>verifySig\<close> answers the boolean and the error of \<^verbatim>\<open>VerifySig\<close>, the error
  \<open>Panic\<close> when it panics.\<close>

record ('p, 'q, 's, 'k) keyOps =
  pubString :: "'p \<Rightarrow> 'k res"
  verifySig :: "'p \<Rightarrow> byte list \<Rightarrow> 's option \<Rightarrow> bool \<times> go_error option"
  privPub :: "'q \<Rightarrow> 'p"
  privSign :: "'q \<Rightarrow> byte list \<Rightarrow> 's res"
  pubEncode :: "'p \<Rightarrow> byte list res"
  pubDecode :: "byte list \<Rightarrow> ('p \<times> nat \<times> byte list) res"
  sigEncode :: "'s \<Rightarrow> byte list res"
  sigDecode :: "byte list \<Rightarrow> ('s \<times> nat \<times> byte list) res"

record ('k, 'v, 'h) tableOps =
  tRead :: "'k \<Rightarrow> 'h \<Rightarrow> ('v option \<times> bool) res"
  tWrite :: "'k \<Rightarrow> 'v \<Rightarrow> 'h \<Rightarrow> 'h res"

record 'h AccountTable =
  accTab :: 'h
  accStats :: AccountStats

definition setStats :: "(AccountStats \<Rightarrow> AccountStats) \<Rightarrow> 'h AccountTable \<Rightarrow> 'h AccountTable" where
  "setStats f at = at\<lparr>accStats := f (accStats at)\<rparr>"

text \<open>Sequencing of operations on the table that may fail; an early return keeps the state reached.\<close>

definition then_do :: "'s \<times> 'a res \<Rightarrow> ('a \<Rightarrow> 's \<Rightarrow> 's \<times> 'b res) \<Rightarrow> 's \<times> 'b res" where
  "then_do r f = (case r of (s, Inl e) \<Rightarrow> (s, Inl e) | (s, Inr x) \<Rightarrow> f x s)"

lemma then_do_simps [simp]:
  "then_do (s, Inl e) f = (s, Inl e)" "then_do (s, Inr x) f = f x s"
  by (simp_all add: then_do_def)

lemma then_do_Inr_iff: "then_do (s, m) f = (s', Inr y) \<longleftrightarrow> (\<exists>x. m = Inr x \<and> f x s = (s', Inr y))"
  by (cases m) simp_all

section \<open>Sorted keys\<close>

text \<open>The methods \<^verbatim>\<open>Less\<close> of \<^verbatim>\<open>SortPub\<close> and \<^verbatim>\<open>SortPriv\<close>, and \<^verbatim>\<open>sort.IsSorted\<close>.\<close>

definition pubLess :: "('p, 'q, 's, 'k :: linorder) keyOps \<Rightarrow> 'p \<Rightarrow> 'p \<Rightarrow> bool" where
  "pubLess K a b =
     (case pubString K a of
        Inl _ \<Rightarrow> True
      | Inr pub1 \<Rightarrow> (case pubString K b of Inl _ \<Rightarrow> False | Inr pub2 \<Rightarrow> pub1 < pub2))"

definition privLess :: "('p, 'q, 's, 'k :: linorder) keyOps \<Rightarrow> 'q \<Rightarrow> 'q \<Rightarrow> bool" where
  "privLess K a b =
     (case pubString K (privPub K a) of
        Inl _ \<Rightarrow> True
      | Inr pub1 \<Rightarrow> (case pubString K (privPub K b) of Inl _ \<Rightarrow> False | Inr pub2 \<Rightarrow> pub1 < pub2))"

fun IsSorted :: "('a \<Rightarrow> 'a \<Rightarrow> bool) \<Rightarrow> 'a list \<Rightarrow> bool" where
  "IsSorted lt (a # b # l) = (\<not> lt b a \<and> IsSorted lt (b # l))"
| "IsSorted lt l = True"

section \<open>The format of a transaction\<close>

fun pubStrings :: "('p, 'q, 's, 'k) keyOps \<Rightarrow> 'p list \<Rightarrow> 'k list res" where
  "pubStrings K [] = Inr []"
| "pubStrings K (nxt # ps) = bind_res (pubString K nxt) (\<lambda>s. bind_res (pubStrings K ps) (\<lambda>ss. Inr (s # ss)))"

definition ValidateTransferTxFormat :: "('p, 'q, 's, 'k :: linorder) keyOps \<Rightarrow> ('p, 's) TransferTx \<Rightarrow> unit res" where
  "ValidateTransferTxFormat K tx =
     (if length (Senders tx) = 0 then Inl ErrNoSender
      else if \<not> IsSorted (pubLess K) (Senders tx) then Inl ErrSendersNotSorted
      else if length (Senders tx) > MaxParticipants then Inl ErrTooManyParticipants
      else if length (Recipiants tx) > MaxParticipants then Inl ErrTooManyParticipants
      else if length (SenderTxCounters tx) \<noteq> length (Senders tx) then Inl ErrInvalidTxCounters
      else if length (Senders tx) \<noteq> length (SendAmounts tx) then Inl ErrInvalidSenderCount
      else if length (Senders tx) \<noteq> length (Signatures tx) then Inl ErrInvalidSignatureCount
      else if length (Recipiants tx) \<noteq> length (ReceiveAmounts tx) then Inl ErrInvalidReceiverCount
      else if CheckOverflow (SendAmounts tx) \<or> CheckOverflow (ReceiveAmounts tx) then Inl ErrIntOverflow
      else
        (let sendSum = SumUint64 (SendAmounts tx)
         in if sendSum = 0 then Inl ErrNoSend
            else if sendSum < SumUint64 (ReceiveAmounts tx) then Inl ErrNotEnoughSend
            else bind_res (pubStrings K (Senders tx)) (\<lambda>sndStrs.
                   if \<not> CheckUnique sndStrs then Inl ErrNonUniqueSenders
                   else bind_res (pubStrings K (Recipiants tx)) (\<lambda>rcvStrs.
                          if \<not> CheckUnique rcvStrs then Inl ErrNonUniqueReceivers else Inr ()))))"

definition GetConflictObjects :: "('p, 'q, 's, 'k) keyOps \<Rightarrow> ('p, 's) TransferTx \<Rightarrow> 'k list res" where
  "GetConflictObjects K tx =
     (case pubStrings K (Senders tx) of Inl _ \<Rightarrow> Inl (Panic ''should have handled this earlier'') | Inr strs \<Rightarrow> Inr strs)"

definition GetSignedMessage :: "('p, 's) TransferTx \<Rightarrow> byte list" where
  "GetSignedMessage tx = (case SignedBytes tx of None \<Rightarrow> [] | Some b \<Rightarrow> b)"

section \<open>Encoding of a transaction\<close>

text \<open>The body of the two loops of \<^verbatim>\<open>encodeSignedBytes\<close>; an index past the end of a slice is a panic.\<close>

fun encodeSenders :: "('p, 'q, 's, 'k) keyOps \<Rightarrow> 'p list \<Rightarrow> uint64 list \<Rightarrow> uint64 list \<Rightarrow> byte list res" where
  "encodeSenders K [] ctrs amounts = Inr []"
| "encodeSenders K (pub # ps) ctrs amounts =
     bind_res (pubEncode K pub) (\<lambda>pb.
       if ctrs = [] \<or> amounts = [] then Inl (Panic ''index out of range'')
       else bind_res (encodeSenders K ps (tl ctrs) (tl amounts)) (\<lambda>rest.
              Inr (pb @ EncodeUint64 (hd ctrs) @ EncodeUint64 (hd amounts) @ rest)))"

fun encodePubAmounts :: "('p, 'q, 's, 'k) keyOps \<Rightarrow> 'p list \<Rightarrow> uint64 list \<Rightarrow> byte list res" where
  "encodePubAmounts K [] amounts = Inr []"
| "encodePubAmounts K (pub # ps) amounts =
     bind_res (pubEncode K pub) (\<lambda>pb.
       if amounts = [] then Inl (Panic ''index out of range'')
       else bind_res (encodePubAmounts K ps (tl amounts)) (\<lambda>rest. Inr (pb @ EncodeUint64 (hd amounts) @ rest)))"

definition encodeSignedBytes :: "('p, 'q, 's, 'k) keyOps \<Rightarrow> ('p, 's) TransferTx \<Rightarrow> ('p, 's) TransferTx res" where
  "encodeSignedBytes K tx =
     bind_res (encodeSenders K (Senders tx) (SenderTxCounters tx) (SendAmounts tx)) (\<lambda>snd_bytes.
       bind_res (encodePubAmounts K (Recipiants tx) (ReceiveAmounts tx)) (\<lambda>rcv_bytes.
         Inr (tx\<lparr>SignedBytes := Some (EncodeUint16 (word_of_nat (length (Senders tx))) @ snd_bytes @
           EncodeUint16 (word_of_nat (length (Recipiants tx))) @ rcv_bytes)\<rparr>)))"

fun encodeSigs :: "('p, 'q, 's, 'k) keyOps \<Rightarrow> 's option list \<Rightarrow> byte list res" where
  "encodeSigs K [] = Inr []"
| "encodeSigs K (None # sigs) = Inl (Panic ''nil pointer'')"
| "encodeSigs K (Some sg # sigs) = bind_res (sigEncode K sg) (\<lambda>b. bind_res (encodeSigs K sigs) (\<lambda>rest. Inr (b @ rest)))"

definition txEncode :: "('p, 'q, 's, 'k) keyOps \<Rightarrow> ('p, 's) TransferTx \<Rightarrow> byte list res" where
  "txEncode K tx =
     (case SignedBytes tx of
        None \<Rightarrow> Inl ErrMustSignFirst
      | Some sb \<Rightarrow>
          if length sb > 65535 then Inl (Panic ''1'')
          else bind_res (encodeSigs K (Signatures tx)) (\<lambda>sigs. Inr (EncodeUint16 (word_of_nat (length sb)) @ sb @ sigs)))"

text \<open>
  \<^verbatim>\<open>Decode\<close> reads the signed bytes, then decodes them, then reads the signatures that follow them; it answers the
  transaction, the number of bytes read and the rest of the input.
\<close>

fun decodeSenders :: "('p, 'q, 's, 'k) keyOps \<Rightarrow> nat \<Rightarrow> byte list \<Rightarrow> ('p list \<times> uint64 list \<times> uint64 list \<times> byte list) res" where
  "decodeSenders K 0 buf = Inr ([], [], [], buf)"
| "decodeSenders K (Suc n) buf =
     bind_res (pubDecode K buf) (\<lambda>(pub, _, b1).
       bind_res (ReadUint64 b1) (\<lambda>(c, _, b2).
         bind_res (ReadUint64 b2) (\<lambda>(a, _, b3).
           bind_res (decodeSenders K n b3) (\<lambda>(ps, cs, as, b4). Inr (pub # ps, c # cs, a # as, b4)))))"

fun decodeRecipiants :: "('p, 'q, 's, 'k) keyOps \<Rightarrow> nat \<Rightarrow> byte list \<Rightarrow> ('p list \<times> uint64 list \<times> byte list) res" where
  "decodeRecipiants K 0 buf = Inr ([], [], buf)"
| "decodeRecipiants K (Suc n) buf =
     bind_res (pubDecode K buf) (\<lambda>(pub, _, b1).
       bind_res (ReadUint64 b1) (\<lambda>(a, _, b2).
         bind_res (decodeRecipiants K n b2) (\<lambda>(ps, as, b3). Inr (pub # ps, a # as, b3))))"

fun decodeSigs :: "('p, 'q, 's, 'k) keyOps \<Rightarrow> nat \<Rightarrow> byte list \<Rightarrow> ('s option list \<times> nat \<times> byte list) res" where
  "decodeSigs K 0 r = Inr ([], 0, r)"
| "decodeSigs K (Suc n) r =
     bind_res (sigDecode K r) (\<lambda>(sg, n1, r1).
       bind_res (decodeSigs K n r1) (\<lambda>(sigs, n2, r2). Inr (Some sg # sigs, n1 + n2, r2)))"

definition txDecode :: "('p, 'q, 's, 'k :: linorder) keyOps \<Rightarrow> byte list \<Rightarrow> (('p, 's) TransferTx \<times> nat \<times> byte list) res" where
  "txDecode K r =
     bind_res (ReadUint16 r) (\<lambda>(signedByteCount, n1, r1).
       if unat signedByteCount > MaxTxSize then Inl ErrTxTooLarge
       else bind_res (readArr (unat signedByteCount) r1) (\<lambda>(sb, n2, r2).
         bind_res (ReadUint16 sb) (\<lambda>(senderCount, _, b1).
           if unat senderCount > MaxParticipants then Inl ErrTooManyParticipants
           else bind_res (decodeSenders K (unat senderCount) b1) (\<lambda>(senders, ctrs, sendAmounts, b2).
             if \<not> IsSorted (pubLess K) senders then Inl ErrSendersNotSorted
             else bind_res (ReadUint16 b2) (\<lambda>(recipiantCount, _, b3).
               if unat recipiantCount > MaxParticipants then Inl ErrTooManyParticipants
               else bind_res (decodeRecipiants K (unat recipiantCount) b3) (\<lambda>(recipiants, receiveAmounts, _).
                 bind_res (decodeSigs K (unat senderCount) r2) (\<lambda>(sigs, n3, r3).
                   Inr (\<lparr>Senders = senders, Signatures = sigs, SenderTxCounters = ctrs, Recipiants = recipiants,
                          SendAmounts = sendAmounts, ReceiveAmounts = receiveAmounts, SignedBytes = Some sb\<rparr>,
                        n1 + n2 + n3, r3))))))))"

section \<open>Accounts of the table\<close>

definition GetAccount :: "('p, 'q, 's, 'k) keyOps \<Rightarrow> ('k, 'p Account, 'h) tableOps \<Rightarrow> 'p \<Rightarrow>
    'h AccountTable \<Rightarrow> 'h AccountTable \<times> 'p Account res" where
  "GetAccount K T pub at =
     (case pubString K pub of
        Inl e \<Rightarrow> (at, Inl e)
      | Inr str \<Rightarrow>
          (case tRead T str (accTab at) of
             Inl e \<Rightarrow> (at, Inl e)
           | Inr (v, ok) \<Rightarrow>
               if ok then (at, case v of None \<Rightarrow> Inl (Panic ''interface conversion'') | Some acc \<Rightarrow> Inr acc)
               else (case tWrite T str (NewAccount pub) (accTab at) of
                       Inl e \<Rightarrow> (at, Inl e)
                     | Inr h \<Rightarrow> (at\<lparr>accTab := h\<rparr>, Inr (NewAccount pub)))))"

definition GetAccountInfo :: "('p, 'q, 's, 'k) keyOps \<Rightarrow> ('k, 'p Account, 'h) tableOps \<Rightarrow> 'p \<Rightarrow>
    'h AccountTable \<Rightarrow> 'h AccountTable \<times> (uint64 \<times> uint64) res" where
  "GetAccountInfo K T pub at = then_do (GetAccount K T pub at) (\<lambda>acc at1. (at1, Inr (TxCounter acc, Balance acc)))"

definition UpdateAccount :: "('p, 'q, 's, 'k) keyOps \<Rightarrow> ('k, 'p Account, 'h) tableOps \<Rightarrow> 'p \<Rightarrow> 'p Account \<Rightarrow>
    'h AccountTable \<Rightarrow> 'h AccountTable \<times> unit res" where
  "UpdateAccount K T pub account at =
     (case pubString K pub of
        Inl _ \<Rightarrow> (at, Inl (Panic ''GetPubString''))
      | Inr str \<Rightarrow>
          (case tWrite T str account (accTab at) of
             Inl e \<Rightarrow> (at, Inl e)
           | Inr h \<Rightarrow> (at\<lparr>accTab := h\<rparr>, Inr ())))"

text \<open>The calls \<^verbatim>\<open>acc, err := at.GetAccount(pub); if err != nil { panic(err) }\<close>.\<close>

definition mustGetAccount :: "('p, 'q, 's, 'k) keyOps \<Rightarrow> ('k, 'p Account, 'h) tableOps \<Rightarrow> 'p \<Rightarrow>
    'h AccountTable \<Rightarrow> 'h AccountTable \<times> 'p Account res" where
  "mustGetAccount K T pub at =
     (case GetAccount K T pub at of (at1, Inl _) \<Rightarrow> (at1, Inl (Panic ''GetAccount'')) | r \<Rightarrow> r)"

section \<open>Consuming a transaction\<close>

fun sendLoop :: "('p, 'q, 's, 'k) keyOps \<Rightarrow> ('k, 'p Account, 'h) tableOps \<Rightarrow> 'p list \<Rightarrow> uint64 list \<Rightarrow> uint64 list \<Rightarrow>
    'h AccountTable \<Rightarrow> 'h AccountTable \<times> unit res" where
  "sendLoop K T [] ctrs amounts at = (at, Inr ())"
| "sendLoop K T (pub # ps) ctrs amounts at =
     then_do (mustGetAccount K T pub at) (\<lambda>acc at1.
       if ctrs = [] \<or> amounts = [] then (at1, Inl (Panic ''index out of range''))
       else if TxCounter acc + 1 \<noteq> hd ctrs then (at1, Inl (Panic ''tx counter''))
       else if Balance acc < hd amounts then (at1, Inl (Panic ''balance''))
       else then_do (UpdateAccount K T pub (acc\<lparr>TxCounter := TxCounter acc + 1, Balance := Balance acc - hd amounts\<rparr>)
                       (setStats (\<lambda>st. st\<lparr>MoneyTransfered := MoneyTransfered st + hd amounts\<rparr>) at1))
              (\<lambda>_ at2. sendLoop K T ps (tl ctrs) (tl amounts) at2))"

text \<open>The account is read, the sum is checked, and the account is written; also the body of the left-over branch.\<close>

definition credit :: "('p, 'q, 's, 'k) keyOps \<Rightarrow> ('k, 'p Account, 'h) tableOps \<Rightarrow> 'p \<Rightarrow> uint64 \<Rightarrow>
    'h AccountTable \<Rightarrow> 'h AccountTable \<times> unit res" where
  "credit K T pub amount at =
     then_do (mustGetAccount K T pub at) (\<lambda>acc at1.
       if CheckOverflow [Balance acc, amount] then (at1, Inl (Panic ''integer overflow''))
       else UpdateAccount K T pub (acc\<lparr>Balance := Balance acc + amount\<rparr>) at1)"

fun receiveLoop :: "('p, 'q, 's, 'k) keyOps \<Rightarrow> ('k, 'p Account, 'h) tableOps \<Rightarrow> 'p list \<Rightarrow> uint64 list \<Rightarrow>
    'h AccountTable \<Rightarrow> 'h AccountTable \<times> unit res" where
  "receiveLoop K T [] amounts at = (at, Inr ())"
| "receiveLoop K T (pub # ps) amounts at =
     (if amounts = [] then (at, Inl (Panic ''index out of range''))
      else then_do (credit K T pub (hd amounts) at) (\<lambda>_ at1. receiveLoop K T ps (tl amounts) at1))"

definition ConsumeTx :: "('p, 'q, 's, 'k) keyOps \<Rightarrow> ('k, 'p Account, 'h) tableOps \<Rightarrow> ('p, 's) TransferTx \<Rightarrow> 'p option \<Rightarrow>
    'h AccountTable \<Rightarrow> 'h AccountTable \<times> unit res" where
  "ConsumeTx K T tx leftOverPub at =
     then_do (sendLoop K T (Senders tx) (SenderTxCounters tx) (SendAmounts tx)
                (setStats (\<lambda>st. st\<lparr>TxConsumedCount := TxConsumedCount st + 1\<rparr>) at))
       (\<lambda>_ at1. then_do (receiveLoop K T (Recipiants tx) (ReceiveAmounts tx) at1) (\<lambda>_ at2.
          let totalSent = SumUint64 (SendAmounts tx);
              totalReceived = SumUint64 (ReceiveAmounts tx)
          in if totalSent < totalReceived then (at2, Inl (Panic ''receive amount exceeds send ammount''))
             else if totalSent - totalReceived > 0
             then (case leftOverPub of None \<Rightarrow> (at2, Inr ()) | Some pub \<Rightarrow> credit K T pub (totalSent - totalReceived) at2)
             else (at2, Inr ())))"

section \<open>Validating a transaction\<close>

fun checkSenders :: "('p, 'q, 's, 'k) keyOps \<Rightarrow> ('k, 'p Account, 'h) tableOps \<Rightarrow> 'p list \<Rightarrow> uint64 list \<Rightarrow> uint64 list \<Rightarrow>
    'h AccountTable \<Rightarrow> 'h AccountTable \<times> unit res" where
  "checkSenders K T [] ctrs amounts at = (at, Inr ())"
| "checkSenders K T (pub # ps) ctrs amounts at =
     then_do (GetAccount K T pub at) (\<lambda>acc at1.
       if ctrs = [] \<or> amounts = [] then (at1, Inl (Panic ''index out of range''))
       else if TxCounter acc + 1 \<noteq> hd ctrs then (at1, Inl ErrInvalidTxCounter)
       else if Balance acc < hd amounts then (at1, Inl ErrNotEnoughBalance)
       else checkSenders K T ps (tl ctrs) (tl amounts) at1)"

fun checkSigs :: "('p, 'q, 's, 'k) keyOps \<Rightarrow> byte list \<Rightarrow> 'p list \<Rightarrow> 's option list \<Rightarrow> unit res" where
  "checkSigs K msg [] sigs = Inr ()"
| "checkSigs K msg (pub # ps) sigs =
     (if sigs = [] then Inl (Panic ''index out of range'')
      else (case verifySig K pub msg (hd sigs) of (valid, err) \<Rightarrow>
              if errPanics err then Inl (the err)
              else if \<not> valid then Inl ErrSignatureInvalid
              else (case err of Some e \<Rightarrow> Inl e | None \<Rightarrow> checkSigs K msg ps (tl sigs))))"

text \<open>The end of \<^verbatim>\<open>ValidateTx\<close>, about the money that is sent and not received.\<close>

definition checkLeft :: "('p, 'q, 's, 'k) keyOps \<Rightarrow> ('k, 'p Account, 'h) tableOps \<Rightarrow> ('p, 's) TransferTx \<Rightarrow> 'p option \<Rightarrow>
    'h AccountTable \<Rightarrow> 'h AccountTable \<times> unit res" where
  "checkLeft K T tx leftOverPub at =
     (let totalSent = SumUint64 (SendAmounts tx);
          totalReceived = SumUint64 (ReceiveAmounts tx)
      in if totalSent < totalReceived then (at, Inl (Panic ''opps!!, shouldnt be here''))
         else if totalSent - totalReceived > 0
         then (case leftOverPub of
                 None \<Rightarrow> (at, Inr ())
               | Some pub \<Rightarrow> then_do (GetAccount K T pub at) (\<lambda>acc at1.
                   (at1, if CheckOverflow [Balance acc, totalSent - totalReceived] then Inl ErrIntOverflow else Inr ())))
         else (at, Inr ()))"

definition checkTx :: "('p, 'q, 's, 'k :: linorder) keyOps \<Rightarrow> ('k, 'p Account, 'h) tableOps \<Rightarrow> ('p, 's) TransferTx \<Rightarrow> bool \<Rightarrow> 'p option \<Rightarrow>
    'h AccountTable \<Rightarrow> 'h AccountTable \<times> unit res" where
  "checkTx K T tx validateSig leftOverPub at =
     then_do (at, ValidateTransferTxFormat K tx) (\<lambda>_ at0.
       then_do (checkSenders K T (Senders tx) (SenderTxCounters tx) (SendAmounts tx) at0) (\<lambda>_ at1.
         then_do (at1, if validateSig then checkSigs K (GetSignedMessage tx) (Senders tx) (Signatures tx) else Inr ())
           (\<lambda>_ at2. checkLeft K T tx leftOverPub at2)))"

text \<open>
  \<^verbatim>\<open>ValidateTx\<close> is the check with the deferred function that counts its result. When the check panics the function runs with
  \<^verbatim>\<open>err == nil\<close> and counts a passed validation; so does that of \<^verbatim>\<open>GenerateTx\<close>.
\<close>

definition ValidateTx :: "('p, 'q, 's, 'k :: linorder) keyOps \<Rightarrow> ('k, 'p Account, 'h) tableOps \<Rightarrow> ('p, 's) TransferTx \<Rightarrow> bool \<Rightarrow> 'p option \<Rightarrow>
    'h AccountTable \<Rightarrow> 'h AccountTable \<times> unit res" where
  "ValidateTx K T tx validateSig leftOverPub at =
     (case checkTx K T tx validateSig leftOverPub at of
        (at1, Inr _) \<Rightarrow> (setStats statsPassedValidation at1, Inr ())
      | (at1, Inl e) \<Rightarrow> (setStats (if panics (Inl e :: unit res) then statsPassedValidation else statsFailedValidation) at1, Inl e))"

section \<open>Generating a transaction\<close>

fun senderCounters :: "('p, 'q, 's, 'k) keyOps \<Rightarrow> ('k, 'p Account, 'h) tableOps \<Rightarrow> 'q list \<Rightarrow>
    'h AccountTable \<Rightarrow> 'h AccountTable \<times> uint64 list res" where
  "senderCounters K T [] at = (at, Inr [])"
| "senderCounters K T (sender # ss) at =
     then_do (GetAccount K T (privPub K sender) at) (\<lambda>acc at1.
       then_do (senderCounters K T ss at1) (\<lambda>cs at2. (at2, Inr ((TxCounter acc + 1) # cs))))"

fun signAll :: "('p, 'q, 's, 'k) keyOps \<Rightarrow> byte list \<Rightarrow> 'q list \<Rightarrow> 's option list res" where
  "signAll K msg [] = Inr []"
| "signAll K msg (priv # ps) = bind_res (privSign K priv msg) (\<lambda>sg. bind_res (signAll K msg ps) (\<lambda>sigs. Inr (Some sg # sigs)))"

text \<open>A transaction that is returned beside an error is not part of the result.\<close>

definition buildTx :: "('p, 'q, 's, 'k :: linorder) keyOps \<Rightarrow> ('k, 'p Account, 'h) tableOps \<Rightarrow> 'q list \<Rightarrow> uint64 list \<Rightarrow> 'p list \<Rightarrow>
    uint64 list \<Rightarrow> 'h AccountTable \<Rightarrow> 'h AccountTable \<times> ('p, 's) TransferTx res" where
  "buildTx K T senders amounts recipiants receiveAmounts at =
     (if \<not> IsSorted (privLess K) senders then (at, Inl ErrSendersNotSorted)
      else then_do (senderCounters K T senders at) (\<lambda>ctrs at1.
        let tx = \<lparr>Senders = map (privPub K) senders, Signatures = replicate (length senders) None, SenderTxCounters = ctrs,
                  Recipiants = recipiants, SendAmounts = amounts, ReceiveAmounts = receiveAmounts, SignedBytes = None\<rparr>
        in then_do (at1, bind_res (ValidateTransferTxFormat K tx) (\<lambda>_. bind_res (encodeSignedBytes K tx) (\<lambda>tx1.
                bind_res (signAll K (GetSignedMessage tx1) senders) (\<lambda>sigs. Inr (tx1\<lparr>Signatures := sigs\<rparr>))))) (\<lambda>tx2 at2.
             then_do (ValidateTx K T tx2 False None at2) (\<lambda>_ at3. (at3, Inr tx2)))))"

definition GenerateTx :: "('p, 'q, 's, 'k :: linorder) keyOps \<Rightarrow> ('k, 'p Account, 'h) tableOps \<Rightarrow> 'q list \<Rightarrow> uint64 list \<Rightarrow> 'p list \<Rightarrow>
    uint64 list \<Rightarrow> 'h AccountTable \<Rightarrow> 'h AccountTable \<times> ('p, 's) TransferTx res" where
  "GenerateTx K T senders amounts recipiants receiveAmounts at =
     (case buildTx K T senders amounts recipiants receiveAmounts at of
        (at1, Inr tx) \<Rightarrow> (setStats statsGenerateTx at1, Inr tx)
      | (at1, Inl e) \<Rightarrow> (setStats (if panics (Inl e :: unit res) then statsGenerateTx else statsFailedGenerateTx) at1, Inl e))"

section \<open>Blocks\<close>

text \<open>The loop of \<^verbatim>\<open>HasDecided\<close> over the transactions of a decided block: those that are not valid are skipped.\<close>

fun consumeBlock :: "('p, 'q, 's, 'k :: linorder) keyOps \<Rightarrow> ('k, 'p Account, 'h) tableOps \<Rightarrow> ('p, 's) TransferTx list \<Rightarrow>
    'h AccountTable \<Rightarrow> 'h AccountTable \<times> unit res" where
  "consumeBlock K T [] at = (at, Inr ())"
| "consumeBlock K T (nxtTx # txs) at =
     (case ValidateTx K T nxtTx True None at of
        (at1, Inr _) \<Rightarrow> then_do (ConsumeTx K T nxtTx None at1) (\<lambda>_ at2. consumeBlock K T txs at2)
      | (at1, Inl e) \<Rightarrow> if panics (Inl e :: unit res) then (at1, Inl e) else consumeBlock K T txs at1)"

text \<open>The loop of \<^verbatim>\<open>ValidateProposal\<close>: every transaction is validated on the same table, none is consumed.\<close>

fun validateBlock :: "('p, 'q, 's, 'k :: linorder) keyOps \<Rightarrow> ('k, 'p Account, 'h) tableOps \<Rightarrow> ('p, 's) TransferTx list \<Rightarrow>
    'h AccountTable \<Rightarrow> 'h AccountTable \<times> unit res" where
  "validateBlock K T [] at = (at, Inr ())"
| "validateBlock K T (nxtTx # txs) at = then_do (ValidateTx K T nxtTx True None at) (\<lambda>_ at1. validateBlock K T txs at1)"

text \<open>The loop of \<^verbatim>\<open>NewSimpleTxProposer\<close> that gives the keys of an initial block their balances.\<close>

fun initAccounts :: "('p, 'q, 's, 'k) keyOps \<Rightarrow> ('k, 'p Account, 'h) tableOps \<Rightarrow> 'p list \<Rightarrow> uint64 list \<Rightarrow>
    'h AccountTable \<Rightarrow> 'h AccountTable \<times> unit res" where
  "initAccounts K T [] balances at = (at, Inr ())"
| "initAccounts K T (pub # ps) balances at =
     then_do (mustGetAccount K T pub at) (\<lambda>acc at1.
       if balances = [] then (at1, Inl (Panic ''index out of range''))
       else then_do (UpdateAccount K T pub (acc\<lparr>Balance := hd balances\<rparr>) at1) (\<lambda>_ at2. initAccounts K T ps (tl balances) at2))"

end
