(* ===== verification/CopyWriteMap.thy ===== *)
theory CopyWriteMap
  imports Prelude "HOL-Library.AList"
begin

text \<open>
  The versioned map \<^verbatim>\<open>src/consensus/copywritemap/copywritemap.go\<close>, in which the state machines keep their tables. The
  maps made by \<^verbatim>\<open>Copy\<close> share one Go map from keys to linked lists of versions; each list item carries the identifier of
  the map that wrote it, and \<^verbatim>\<open>DoneKeep\<close> turns the items of a map into committed ones.

  The shared data and all the maps on it are one heap: maps are numbers, in the order of their creation, \<open>parent\<close> and
  \<open>dependents\<close> are such numbers, and \<open>None\<close> is nil. A linked list is a list; the empty list is the nil pointer, which can be the
  value of a key that is present. The Go map is an association list.
\<close>

section \<open>Data\<close>

datatype doneType = notDone | doneKeep | doneClearStart | doneClearFinish

abbreviation committed :: int where "committed \<equiv> - 1"

record 'v mapItem =
  mi_id :: int
  mi_item :: "'v option" \<comment> \<open>\<open>None\<close> is the nil of a deleted item\<close>
  mi_deleted :: bool

record 'k CopyWriteMap =
  cwDone :: doneType
  copied :: bool
  dependents :: "nat option list"
  cwParent :: "nat option"
  myItems :: "'k list"
  myIDs :: "int list"

record ('k, 'v) cwmHeap =
  nxtID :: int
  theMap :: "('k \<times> 'v mapItem list) list"
  cwms :: "nat \<Rightarrow> 'k CopyWriteMap"
  cwmCount :: nat \<comment> \<open>the number of maps made so far\<close>

definition emptyCwm :: "int list \<Rightarrow> 'k CopyWriteMap" where
  "emptyCwm ids = \<lparr>cwDone = notDone, copied = False, dependents = [], cwParent = None, myItems = [], myIDs = ids\<rparr>"

text \<open>The new map is number 0.\<close>

definition NewCopyWriteMap :: "('k, 'v) cwmHeap" where
  "NewCopyWriteMap = \<lparr>nxtID = 0, theMap = [], cwms = (\<lambda>_. emptyCwm [0]), cwmCount = 1\<rparr>"

definition versions :: "('k, 'v) cwmHeap \<Rightarrow> 'k \<Rightarrow> 'v mapItem list" where
  "versions h k = (case map_of (theMap h) k of None \<Rightarrow> [] | Some l \<Rightarrow> l)"

definition setVersions :: "'k \<Rightarrow> 'v mapItem list \<Rightarrow> ('k, 'v) cwmHeap \<Rightarrow> ('k, 'v) cwmHeap" where
  "setVersions k l h = h\<lparr>theMap := AList.update k l (theMap h)\<rparr>"

definition setCwm :: "nat \<Rightarrow> ('k CopyWriteMap \<Rightarrow> 'k CopyWriteMap) \<Rightarrow> ('k, 'v) cwmHeap \<Rightarrow> ('k, 'v) cwmHeap" where
  "setCwm i f h = h\<lparr>cwms := (cwms h)(i := f (cwms h i))\<rparr>"

section \<open>Reading\<close>

fun hasMyId :: "int list \<Rightarrow> int \<Rightarrow> bool" where
  "hasMyId [] x = False"
| "hasMyId (nxt # ids) x = (if nxt = x then True else hasMyId ids x)"

text \<open>The loop of \<^verbatim>\<open>checkItem\<close>; \<^verbatim>\<open>cwm.myIDs[0]\<close> is read only for an item that is newer than the newest so far.\<close>

fun checkLoop :: "int list \<Rightarrow> int \<Rightarrow> 'v option \<times> bool \<Rightarrow> 'v mapItem list \<Rightarrow> ('v option \<times> bool) res" where
  "checkLoop ids maxID r [] = Inr r"
| "checkLoop ids maxID r (item # l) =
     (if mi_id item > maxID then
        (if ids = [] then Inl (Panic ''index out of range'')
         else if mi_id item \<le> hd ids \<and> hasMyId ids (mi_id item)
         then checkLoop ids (mi_id item) (mi_item item, \<not> mi_deleted item) l
         else checkLoop ids maxID r l)
      else checkLoop ids maxID r l)"

definition checkItem :: "int list \<Rightarrow> 'v mapItem list \<Rightarrow> ('v option \<times> bool) res" where
  "checkItem ids l =
     (case l of
        [] \<Rightarrow> Inl (Panic ''nil pointer'')
      | item # _ \<Rightarrow>
          if mi_id item = committed
          then (if ids = [] then Inr (mi_item item, \<not> mi_deleted item)
                else checkLoop ids committed (mi_item item, \<not> mi_deleted item) l)
          else checkLoop ids committed (None, False) l)"

definition Read :: "nat \<Rightarrow> 'k \<Rightarrow> ('k, 'v) cwmHeap \<Rightarrow> ('v option \<times> bool) res" where
  "Read i key h =
     (if cwDone (cwms h i) \<noteq> notDone \<and> cwDone (cwms h i) \<noteq> doneKeep then Inl (Panic ''read after done'')
      else if versions h key = [] then Inr (None, False)
      else checkItem (myIDs (cwms h i)) (versions h key))"

text \<open>\<^verbatim>\<open>Range\<close> with a function that never stops it: the keys and values it is called with.\<close>

fun rangeLoop :: "int list \<Rightarrow> ('k \<times> 'v mapItem list) list \<Rightarrow> ('k \<times> 'v option) list res" where
  "rangeLoop ids [] = Inr []"
| "rangeLoop ids ((k, item) # m) =
     bind_res (checkItem ids item) (\<lambda>(v, ok).
       bind_res (rangeLoop ids m) (\<lambda>rest. Inr (if ok then (k, v) # rest else rest)))"

definition Range :: "nat \<Rightarrow> ('k, 'v) cwmHeap \<Rightarrow> ('k \<times> 'v option) list res" where
  "Range i h = rangeLoop (myIDs (cwms h i)) (theMap h)"

section \<open>Writing\<close>

text \<open>The loop that looks for the item of this map and overwrites it.\<close>

fun overwrite :: "int \<Rightarrow> 'v option \<Rightarrow> bool \<Rightarrow> 'v mapItem list \<Rightarrow> 'v mapItem list option" where
  "overwrite own v del [] = None"
| "overwrite own v del (nxt # l) =
     (if mi_id nxt = own then Some (nxt\<lparr>mi_item := v, mi_deleted := del\<rparr> # l)
      else map_option (\<lambda>l'. nxt # l') (overwrite own v del l))"

definition internalWrite :: "nat \<Rightarrow> 'k \<Rightarrow> 'v option \<Rightarrow> bool \<Rightarrow> ('k, 'v) cwmHeap \<Rightarrow> ('k, 'v) cwmHeap res" where
  "internalWrite i key v del h =
     (if myIDs (cwms h i) = [] then Inl (Panic ''index out of range'')
      else
        (let own = hd (myIDs (cwms h i))
         in case overwrite own v del (versions h key) of
              Some l \<Rightarrow> Inr (setVersions key l h)
            | None \<Rightarrow> Inr (setVersions key (versions h key @ [\<lparr>mi_id = own, mi_item = v, mi_deleted = del\<rparr>])
                            (setCwm i (\<lambda>c. c\<lparr>myItems := myItems c @ [key]\<rparr>) h))))"

definition Write :: "nat \<Rightarrow> 'k \<Rightarrow> 'v \<Rightarrow> ('k, 'v) cwmHeap \<Rightarrow> ('k, 'v) cwmHeap res" where
  "Write i key v h =
     (if copied (cwms h i) then Inl (Panic ''write after copy'')
      else if cwDone (cwms h i) \<noteq> notDone then Inl (Panic ''write after done'')
      else internalWrite i key (Some v) False h)"

definition Delete :: "nat \<Rightarrow> 'k \<Rightarrow> ('k, 'v) cwmHeap \<Rightarrow> ('k, 'v) cwmHeap res" where
  "Delete i key h =
     (if copied (cwms h i) then Inl (Panic ''delete after copy'')
      else if cwDone (cwms h i) \<noteq> notDone then Inl (Panic ''delete after done'')
      else internalWrite i key None True h)"

definition Copy :: "nat \<Rightarrow> ('k, 'v) cwmHeap \<Rightarrow> (nat \<times> ('k, 'v) cwmHeap) res" where
  "Copy i h =
     (let ret = cwmCount h;
          h1 = setCwm i (\<lambda>c. c\<lparr>copied := True\<rparr>) h
      in case cwDone (cwms h i) of
           notDone \<Rightarrow>
             (let h2 = setCwm i (\<lambda>c. c\<lparr>dependents := dependents c @ [Some ret]\<rparr>) h1;
                  new = (emptyCwm ((nxtID h + 1) # myIDs (cwms h i)))\<lparr>cwParent := Some i\<rparr>
              in Inr (ret, h2\<lparr>nxtID := nxtID h + 1, cwms := (cwms h2)(ret := new), cwmCount := ret + 1\<rparr>))
         | doneKeep \<Rightarrow>
             Inr (ret, h1\<lparr>nxtID := nxtID h + 1, cwms := (cwms h1)(ret := emptyCwm ((nxtID h + 1) # myIDs (cwms h i))), cwmCount := ret + 1\<rparr>)
         | _ \<Rightarrow> Inl (Panic ''copy after done clear''))"

section \<open>Unlinking versions\<close>

fun unlink :: "int \<Rightarrow> 'v mapItem list \<Rightarrow> ('v mapItem \<times> 'v mapItem list) res" where
  "unlink x [] = Inl (Panic ''nil pointer'')"
| "unlink x (nxt # l) =
     (if mi_id nxt = x then Inr (nxt, l) else bind_res (unlink x l) (\<lambda>(it, l'). Inr (it, nxt # l')))"

definition removeID :: "'k \<Rightarrow> int \<Rightarrow> ('k, 'v) cwmHeap \<Rightarrow> ('v mapItem \<times> ('k, 'v) cwmHeap) res" where
  "removeID k x h =
     (case versions h k of
        [] \<Rightarrow> Inl (Panic ''nil pointer'')
      | prev # rest \<Rightarrow>
          if mi_id prev = x
          then Inr (prev, if rest = [] then h\<lparr>theMap := AList.delete k (theMap h)\<rparr> else setVersions k rest h)
          else bind_res (unlink x rest) (\<lambda>(it, rest'). Inr (it, setVersions k (prev # rest') h)))"

text \<open>\<^verbatim>\<open>removeId\<close> on the identifiers of a map: the new slice is one shorter, so an identifier that is not there is a panic.\<close>

definition removeIdFrom :: "int \<Rightarrow> int list \<Rightarrow> int list res" where
  "removeIdFrom rem ids =
     (let newItems = filter (\<lambda>nxt. nxt \<noteq> rem) ids
      in if ids = [] \<or> length newItems \<noteq> length ids - 1 then Inl (Panic ''index out of range'') else Inr newItems)"

section \<open>Discarding a map\<close>

definition clearDependent :: "nat \<Rightarrow> ('k, 'v) cwmHeap \<Rightarrow> ('k, 'v) cwmHeap res" where
  "clearDependent i h =
     (case cwParent (cwms h i) of
        None \<Rightarrow> Inr h
      | Some p \<Rightarrow>
          if Some i \<in> set (dependents (cwms h p))
          then Inr (setCwm p (\<lambda>c. c\<lparr>dependents := map (\<lambda>d. if d = Some i then None else d) (dependents c)\<rparr>) h)
          else Inl (Panic ''was not a dependent of parent''))"

fun removeItems :: "int \<Rightarrow> 'k list \<Rightarrow> ('k, 'v) cwmHeap \<Rightarrow> ('k, 'v) cwmHeap res" where
  "removeItems x [] h = Inr h"
| "removeItems x (k # ks) h = bind_res (removeID k x h) (\<lambda>(_, h1). removeItems x ks h1)"

definition internalDoneClear :: "nat \<Rightarrow> ('k, 'v) cwmHeap \<Rightarrow> (bool \<times> ('k, 'v) cwmHeap) res" where
  "internalDoneClear i h =
     (case cwDone (cwms h i) of
        doneClearStart \<Rightarrow>
          bind_res (clearDependent i h) (\<lambda>h1.
            if \<exists>d \<in> set (dependents (cwms h1 i)). d \<noteq> None then Inl (Panic ''must call in reverse order of creation'')
            else if myItems (cwms h1 i) \<noteq> [] \<and> myIDs (cwms h1 i) = [] then Inl (Panic ''index out of range'')
            else bind_res (removeItems (hd (myIDs (cwms h1 i))) (myItems (cwms h1 i)) h1) (\<lambda>h2.
                   Inr (True, setCwm i (\<lambda>c. c\<lparr>cwDone := doneClearFinish\<rparr>) h2)))
      | notDone \<Rightarrow> Inr (False, h)
      | _ \<Rightarrow> Inl (Panic ''should only be doneClearStart''))"

text \<open>\<^verbatim>\<open>doneClearRec\<close>, with the position in the loop over the dependents as an argument.\<close>

partial_function (option) doneClearRec :: "nat \<Rightarrow> nat \<Rightarrow> ('k, 'v) cwmHeap \<Rightarrow> (bool \<times> ('k, 'v) cwmHeap) res option" where
  "doneClearRec i j h =
     (if j \<ge> length (dependents (cwms h i)) then Some (internalDoneClear i h)
      else
        (case dependents (cwms h i) ! j of
           None \<Rightarrow> doneClearRec i (j + 1) h
         | Some d \<Rightarrow> Option.bind (doneClearRec d 0 h) (\<lambda>r.
             case r of
               Inl e \<Rightarrow> Some (Inl e)
             | Inr (cleared, h1) \<Rightarrow> if \<not> cleared then Some (Inr (False, h1)) else doneClearRec i (j + 1) h1)))"

text \<open>The loop of \<^verbatim>\<open>DoneClear\<close> that climbs to the topmost ancestor that waits to be cleared.\<close>

partial_function (option) climb :: "nat \<Rightarrow> ('k, 'v) cwmHeap \<Rightarrow> nat option" where
  "climb i h =
     (case cwParent (cwms h i) of
        None \<Rightarrow> Some i
      | Some p \<Rightarrow> if cwDone (cwms h p) = doneClearStart then climb p h else Some i)"

definition DoneClear :: "nat \<Rightarrow> ('k, 'v) cwmHeap \<Rightarrow> ('k, 'v) cwmHeap res option" where
  "DoneClear i h =
     (let h1 = setCwm i (\<lambda>c. c\<lparr>cwDone := doneClearStart\<rparr>) h
      in Option.bind (climb i h1) (\<lambda>top. map_option (\<lambda>r. bind_res r (\<lambda>(_, h2). Inr h2)) (doneClearRec top 0 h1)))"

section \<open>Committing a map\<close>

definition commitItem :: "int \<Rightarrow> 'k \<Rightarrow> ('k, 'v) cwmHeap \<Rightarrow> ('k, 'v) cwmHeap res" where
  "commitItem x k h =
     (case versions h k of
        [] \<Rightarrow> Inl (Panic ''nil pointer'')
      | first # rest \<Rightarrow>
          if mi_id first = x
          then Inr (setVersions k (if mi_deleted first then rest else first\<lparr>mi_id := committed\<rparr> # rest) h)
          else bind_res (removeID k x h) (\<lambda>(myItem, h1).
            if mi_deleted myItem then Inr h1
            else
              (case versions h1 k of
                 [] \<Rightarrow> Inl (Panic ''nil pointer'')
               | first # rest \<Rightarrow>
                   Inr (setVersions k (myItem\<lparr>mi_id := committed\<rparr> # (if mi_id first = committed then rest else first # rest)) h1))))"

fun commitItems :: "int \<Rightarrow> 'k list \<Rightarrow> ('k, 'v) cwmHeap \<Rightarrow> ('k, 'v) cwmHeap res" where
  "commitItems x [] h = Inr h"
| "commitItems x (k # ks) h = bind_res (commitItem x k h) (\<lambda>h1. commitItems x ks h1)"

definition setIDs :: "nat \<Rightarrow> int list \<Rightarrow> ('k, 'v) cwmHeap \<Rightarrow> ('k, 'v) cwmHeap" where
  "setIDs i ids h = setCwm i (\<lambda>c. c\<lparr>myIDs := ids\<rparr>) h"

text \<open>\<^verbatim>\<open>recRemoveID\<close> on the dependents of \<open>i\<close> from position \<open>j\<close> on.\<close>

partial_function (option) recRemoveDeps :: "nat \<Rightarrow> nat \<Rightarrow> int \<Rightarrow> ('k, 'v) cwmHeap \<Rightarrow> ('k, 'v) cwmHeap res option" where
  "recRemoveDeps i j x h =
     (if j \<ge> length (dependents (cwms h i)) then Some (Inr h)
      else
        (case dependents (cwms h i) ! j of
           None \<Rightarrow> recRemoveDeps i (j + 1) x h
         | Some d \<Rightarrow>
             (case removeIdFrom x (myIDs (cwms h d)) of
                Inl e \<Rightarrow> Some (Inl e)
              | Inr ids \<Rightarrow> Option.bind (recRemoveDeps d 0 x (setIDs d ids h)) (\<lambda>r.
                  case r of Inl e \<Rightarrow> Some (Inl e) | Inr h1 \<Rightarrow> recRemoveDeps i (j + 1) x h1))))"

definition recRemoveID :: "nat \<Rightarrow> int \<Rightarrow> ('k, 'v) cwmHeap \<Rightarrow> ('k, 'v) cwmHeap res option" where
  "recRemoveID i x h =
     (case removeIdFrom x (myIDs (cwms h i)) of
        Inl e \<Rightarrow> Some (Inl e)
      | Inr ids \<Rightarrow> recRemoveDeps i 0 x (setIDs i ids h))"

fun detachAll :: "nat option list \<Rightarrow> ('k, 'v) cwmHeap \<Rightarrow> ('k, 'v) cwmHeap res" where
  "detachAll [] h = Inr h"
| "detachAll (None # ds) h = detachAll ds h"
| "detachAll (Some d # ds) h =
     (if cwDone (cwms h d) = doneKeep then Inl (Panic ''must call doneKeep in order of creation'')
      else detachAll ds (setCwm d (\<lambda>c. c\<lparr>cwParent := None\<rparr>) h))"

definition DoneKeep :: "nat \<Rightarrow> ('k, 'v) cwmHeap \<Rightarrow> ('k, 'v) cwmHeap res option" where
  "DoneKeep i h =
     (let h1 = setCwm i (\<lambda>c. c\<lparr>cwDone := doneKeep\<rparr>) h
      in if cwParent (cwms h1 i) \<noteq> None then Some (Inl (Panic ''should call DoneKeep on parent first''))
         else if myItems (cwms h1 i) \<noteq> [] \<and> myIDs (cwms h1 i) = [] then Some (Inl (Panic ''index out of range''))
         else
           (case commitItems (hd (myIDs (cwms h1 i))) (myItems (cwms h1 i)) h1 of
              Inl e \<Rightarrow> Some (Inl e)
            | Inr h2 \<Rightarrow>
                if length (myIDs (cwms h2 i)) \<noteq> 1 then Some (Inl (Panic ''should only have own id when calling done keep''))
                else
                  Option.bind (recRemoveID i (hd (myIDs (cwms h2 i))) h2) (\<lambda>r.
                    Some (bind_res r (\<lambda>h3.
                      bind_res (detachAll (dependents (cwms h3 i)) h3) (\<lambda>h4.
                        Inr (setCwm i (\<lambda>c. c\<lparr>dependents := map (\<lambda>_. None) (dependents c)\<rparr>) h4)))))))"

end
