(* ===== verification/CopyWriteMap_Views.thy ===== *)
theory CopyWriteMap_Views
  imports CopyWriteMap
begin

text \<open>
  What a holder of one of the maps of \<^verbatim>\<open>copywritemap.go\<close> sees: a partial function from keys to values. A map that can
  be written is isolated from all others, a copy starts as its original, and committing or discarding a map leaves
  the others as they are. The conditions under which committing does so are stated; a deletion of a committed key breaks it.
\<close>

section \<open>The view of a map\<close>

definition versionOf :: "'v mapItem list \<Rightarrow> int \<Rightarrow> 'v mapItem option" where
  "versionOf l x = find (\<lambda>it. mi_id it = x) l"

text \<open>The version a map sees: its own, or else that of its closest ancestor that has one, or else the committed one.\<close>

fun newestOf :: "int list \<Rightarrow> 'v mapItem list \<Rightarrow> 'v mapItem option" where
  "newestOf [] l = None"
| "newestOf (x # ids) l = (case versionOf l x of Some it \<Rightarrow> Some it | None \<Rightarrow> newestOf ids l)"

definition itemValue :: "'v mapItem option \<Rightarrow> 'v option" where
  "itemValue r = (case r of None \<Rightarrow> None | Some it \<Rightarrow> if mi_deleted it then None else mi_item it)"

definition viewOf :: "int list \<Rightarrow> 'v mapItem list \<Rightarrow> 'v option" where
  "viewOf ids l = itemValue (newestOf (ids @ [committed]) l)"

definition view :: "('k, 'v) cwmHeap \<Rightarrow> nat \<Rightarrow> 'k \<rightharpoonup> 'v" where
  "view h i k = viewOf (myIDs (cwms h i)) (versions h k)"

text \<open>Well-formed version lists: identifiers are not repeated, only the first item may be committed, and an item without a value is deleted.\<close>

definition wfVersions :: "int \<Rightarrow> 'v mapItem list \<Rightarrow> bool" where
  "wfVersions n l \<longleftrightarrow> distinct (map mi_id l) \<and> (\<forall>it \<in> set (tl l). mi_id it \<noteq> committed) \<and>
     (\<forall>it \<in> set l. committed \<le> mi_id it \<and> mi_id it \<le> n \<and> (mi_deleted it \<longleftrightarrow> mi_item it = None))"

lemma versionOf_simps [simp]:
  "versionOf [] x = None" "versionOf (it # l) x = (if mi_id it = x then Some it else versionOf l x)"
  by (simp_all add: versionOf_def)

lemma versionOf_eq_None: "versionOf l x = None \<longleftrightarrow> x \<notin> mi_id ` set l"
  by (induction l) auto

lemma versionOf_append: "versionOf (l @ l') x = (case versionOf l x of None \<Rightarrow> versionOf l' x | Some it \<Rightarrow> Some it)"
  by (induction l) auto

lemma versionOf_SomeD: "versionOf l x = Some it \<Longrightarrow> it \<in> set l \<and> mi_id it = x"
  by (induction l) (auto split: if_splits)

lemma newestOf_append: "newestOf (ids @ ids') l = (case newestOf ids l of None \<Rightarrow> newestOf ids' l | Some it \<Rightarrow> Some it)"
  by (induction ids) (auto split: option.splits)

lemma newestOf_cong: "(\<And>x. x \<in> set ids \<Longrightarrow> versionOf l x = versionOf l' x) \<Longrightarrow> newestOf ids l = newestOf ids l'"
  by (induction ids) (auto split: option.splits)

lemma newestOf_None: "newestOf ids l = None \<longleftrightarrow> (\<forall>x \<in> set ids. versionOf l x = None)"
  by (induction ids) (auto split: option.splits)

lemma newestOf_Nil [simp]: "newestOf ids [] = None"
  by (simp add: newestOf_None)

lemma viewOf_cong: "(\<And>x. x \<in> set ids \<or> x = committed \<Longrightarrow> versionOf l x = versionOf l' x) \<Longrightarrow> viewOf ids l = viewOf ids l'"
  unfolding viewOf_def by (rule arg_cong [of _ _ itemValue], rule newestOf_cong) auto

lemma hasMyId_iff [simp]: "hasMyId ids x \<longleftrightarrow> x \<in> set ids"
  by (induction ids) auto

section \<open>Reading computes the view\<close>

lemma newestOf_split:
  assumes "sorted_wrt (>) ids" "x \<in> set ids" "m < x"
  shows "newestOf (filter (\<lambda>y. m < y) ids) (it # l) =
    (if mi_id it = x then (case newestOf (filter (\<lambda>y. x < y) ids) l of None \<Rightarrow> Some it | Some i \<Rightarrow> Some i)
     else newestOf (filter (\<lambda>y. m < y) ids) (it # l))"
  using assms
proof (induction ids)
  case (Cons a ids)
  show ?case
  proof (cases "a = x")
    case True
    then have "filter (\<lambda>y. x < y) ids = []" using Cons.prems(1) by (auto simp: filter_empty_conv)
    then show ?thesis using True Cons.prems(3) by simp
  next
    case False
    then have "x \<in> set ids" "x < a" using Cons.prems by auto
    then show ?thesis using Cons.IH Cons.prems by (auto split: option.splits)
  qed
qed simp

lemma checkLoop_eq:
  assumes "ids \<noteq> []" "sorted_wrt (>) ids"
  shows "checkLoop ids m r l =
    Inr (case newestOf (filter (\<lambda>y. m < y) ids) l of None \<Rightarrow> r | Some it \<Rightarrow> (mi_item it, \<not> mi_deleted it))"
proof (induction l arbitrary: m r)
  case (Cons it l)
  have le: "mi_id it \<le> hd ids" if "mi_id it \<in> set ids" using assms that by (cases ids) auto
  show ?case
  proof (cases "m < mi_id it \<and> mi_id it \<in> set ids")
    case True
    then show ?thesis using Cons newestOf_split [OF assms(2), of "mi_id it" m it l] assms(1) le by (auto split: option.splits)
  next
    case False
    have "newestOf (filter (\<lambda>y. m < y) ids) (it # l) = newestOf (filter (\<lambda>y. m < y) ids) l"
      by (rule newestOf_cong) (use False in auto)
    with False show ?thesis using Cons assms(1) by auto
  qed
qed simp

text \<open>\<^verbatim>\<open>checkItem\<close> finds the version that is newest by the order of the identifiers.\<close>

lemma checkItem_eq:
  assumes wf: "wfVersions n l" and ids: "sorted_wrt (>) ids" "\<forall>x \<in> set ids. 0 \<le> x" and ne: "l \<noteq> []"
    and h: "ids \<noteq> [] \<or> mi_id (hd l) = committed"
  shows "checkItem ids l = Inr (viewOf ids l, viewOf ids l \<noteq> None)"
proof -
  obtain it l' where l: "l = it # l'" using ne by (cases l) auto
  have f: "filter (\<lambda>y. committed < y) ids = ids" using ids(2) by (auto simp: filter_id_conv)
  have nv: "(mi_item i, \<not> mi_deleted i) = (itemValue (Some i), itemValue (Some i) \<noteq> None)" if "i \<in> set l" for i
    using wf that by (auto simp: wfVersions_def itemValue_def)
  have mem: "i \<in> set l" if "newestOf xs l = Some i" for xs i
    using that by (induction xs) (auto dest: versionOf_SomeD split: option.splits)
  have c: "versionOf l committed = (if mi_id it = committed then Some it else None)"
    using wf l by (auto simp: wfVersions_def versionOf_eq_None)
  show ?thesis
  proof (cases "ids = []")
    case True
    then show ?thesis using h l nv [of it] by (simp add: checkItem_def viewOf_def)
  next
    case False
    have v: "viewOf ids l = itemValue (case newestOf ids l of Some i \<Rightarrow> Some i | None \<Rightarrow> versionOf l committed)"
      by (simp add: viewOf_def newestOf_append split: option.splits)
    have ci: "checkItem ids l = Inr (case newestOf ids l of None \<Rightarrow> (if mi_id it = committed then (mi_item it, \<not> mi_deleted it) else (None, False))
        | Some i \<Rightarrow> (mi_item i, \<not> mi_deleted i))"
      using False unfolding l by (simp add: checkItem_def checkLoop_eq [OF False ids(1)] f del: checkLoop.simps split: option.splits)
    show ?thesis
    proof (cases "newestOf ids l")
      case None
      then show ?thesis using ci v c nv [of it] l by (auto simp: itemValue_def)
    next
      case (Some i)
      then show ?thesis using ci v nv [OF mem [OF Some]] by simp
    qed
  qed
qed

section \<open>The invariant\<close>

definition active :: "('k, 'v) cwmHeap \<Rightarrow> nat \<Rightarrow> bool" where
  "active h p \<longleftrightarrow> p < cwmCount h \<and> cwDone (cwms h p) \<in> {notDone, doneClearStart}"

definition ownID :: "('k, 'v) cwmHeap \<Rightarrow> nat \<Rightarrow> int" where
  "ownID h p = hd (myIDs (cwms h p))"

text \<open>A map sees its own identifier and, when it has a parent, those of the parent. Parents and dependents agree.\<close>

definition parentOk :: "('k, 'v) cwmHeap \<Rightarrow> nat \<Rightarrow> bool" where
  "parentOk h q \<longleftrightarrow>
     (case cwParent (cwms h q) of
        None \<Rightarrow> tl (myIDs (cwms h q)) = []
      | Some p \<Rightarrow> active h p \<and> p < q \<and> copied (cwms h p) \<and> tl (myIDs (cwms h q)) = myIDs (cwms h p) \<and>
          ownID h p < ownID h q \<and> Some q \<in> set (dependents (cwms h p)))"

definition depsOk :: "('k, 'v) cwmHeap \<Rightarrow> nat \<Rightarrow> bool" where
  "depsOk h q \<longleftrightarrow> (\<forall>d. Some d \<in> set (dependents (cwms h q)) \<longrightarrow> active h d \<and> cwParent (cwms h d) = Some q) \<and>
     distinct (filter (\<lambda>d. d \<noteq> None) (dependents (cwms h q)))"

definition treeInv :: "('k, 'v) cwmHeap \<Rightarrow> bool" where
  "treeInv h \<longleftrightarrow> 0 \<le> nxtID h \<and>
     (\<forall>q. active h q \<longrightarrow> myIDs (cwms h q) \<noteq> [] \<and> 0 \<le> ownID h q \<and> ownID h q \<le> nxtID h \<and> parentOk h q \<and> depsOk h q) \<and>
     (\<forall>p q. active h p \<longrightarrow> active h q \<longrightarrow> ownID h p = ownID h q \<longrightarrow> p = q) \<and>
     (\<forall>p. p < cwmCount h \<longrightarrow> cwDone (cwms h p) = doneKeep \<longrightarrow> myIDs (cwms h p) = [])"

definition itemsInv :: "('k, 'v) cwmHeap \<Rightarrow> bool" where
  "itemsInv h \<longleftrightarrow> (\<forall>k. wfVersions (nxtID h) (versions h k)) \<and>
     (\<forall>p. active h p \<longrightarrow> distinct (myItems (cwms h p)) \<and>
        (\<forall>k. k \<in> set (myItems (cwms h p)) \<longleftrightarrow> ownID h p \<in> mi_id ` set (versions h k)))"

definition cwInv :: "('k, 'v) cwmHeap \<Rightarrow> bool" where
  "cwInv h \<longleftrightarrow> treeInv h \<and> itemsInv h"

lemma treeInvD:
  assumes "treeInv h" "active h q"
  shows "myIDs (cwms h q) \<noteq> []" "0 \<le> ownID h q" "ownID h q \<le> nxtID h" "parentOk h q" "depsOk h q"
    "myIDs (cwms h q) = ownID h q # tl (myIDs (cwms h q))"
  using assms by (auto simp: treeInv_def ownID_def)

lemma treeInv_unique: "treeInv h \<Longrightarrow> active h p \<Longrightarrow> active h q \<Longrightarrow> ownID h p = ownID h q \<Longrightarrow> p = q"
  by (simp add: treeInv_def)

text \<open>The identifiers of a map are those of its ancestors, newest first.\<close>

lemma ids_sorted:
  assumes inv: "treeInv h"
  shows "active h q \<Longrightarrow> sorted_wrt (>) (myIDs (cwms h q)) \<and> (\<forall>x \<in> set (myIDs (cwms h q)). 0 \<le> x)"
proof (induction q rule: less_induct)
  case (less q)
  note t = treeInvD [OF inv less.prems]
  show ?case
  proof (cases "cwParent (cwms h q)")
    case None
    then show ?thesis using t(2,4) by (subst (1 2) t(6)) (simp add: parentOk_def)
  next
    case (Some p)
    then have p: "active h p" "p < q" "tl (myIDs (cwms h q)) = myIDs (cwms h p)" "ownID h p < ownID h q"
      using t(4) by (simp_all add: parentOk_def)
    have s: "sorted_wrt (>) (myIDs (cwms h p))" "\<forall>x \<in> set (myIDs (cwms h p)). 0 \<le> x" using less.IH [OF p(2,1)] by blast+
    have "\<forall>x \<in> set (myIDs (cwms h p)). x \<le> ownID h p"
      using s(1) treeInvD(6) [OF inv p(1)] by (metis order.strict_implies_order order_refl set_ConsD sorted_wrt.simps(2))
    then show ?thesis using s t(2) p(3,4) by (subst (1 2) t(6)) auto
  qed
qed

lemma ids_owner:
  assumes inv: "treeInv h"
  shows "active h q \<Longrightarrow> x \<in> set (myIDs (cwms h q)) \<Longrightarrow>
    \<exists>p. active h p \<and> ownID h p = x \<and> (p = q \<or> (\<exists>d. active h d \<and> cwParent (cwms h d) = Some p \<and> ownID h d \<in> set (myIDs (cwms h q))))"
proof (induction q rule: less_induct)
  case (less q)
  note t = treeInvD [OF inv less.prems(1)]
  show ?case
  proof (cases "x = ownID h q")
    case False
    then have tl: "x \<in> set (tl (myIDs (cwms h q)))" using less.prems(2) t(6) by (metis set_ConsD)
    then obtain p where q: "cwParent (cwms h q) = Some p" using t(4) by (auto simp: parentOk_def split: option.splits)
    then have p: "active h p" "p < q" "tl (myIDs (cwms h q)) = myIDs (cwms h p)" using t(4) by (simp_all add: parentOk_def)
    have own: "ownID h q \<in> set (myIDs (cwms h q))" using t(6) by (metis list.set_intros(1))
    have up: "set (myIDs (cwms h p)) \<subseteq> set (myIDs (cwms h q))" using p(3) by (metis list.set_sel(2) subsetI t(1))
    from less.IH [OF p(2,1)] tl p(3) obtain p' where "active h p'" "ownID h p' = x"
      "p' = p \<or> (\<exists>d. active h d \<and> cwParent (cwms h d) = Some p' \<and> ownID h d \<in> set (myIDs (cwms h p)))" by auto
    then show ?thesis using q own up less.prems(1) by blast
  qed (use less.prems(1) in blast)
qed

lemma not_copied_id:
  assumes "treeInv h" "active h p" "\<not> copied (cwms h p)" "active h q" "q \<noteq> p"
  shows "ownID h p \<notin> set (myIDs (cwms h q))"
proof
  assume "ownID h p \<in> set (myIDs (cwms h q))"
  from ids_owner [OF assms(1,4) this] obtain p' where p': "active h p'" "ownID h p' = ownID h p"
    "p' = q \<or> (\<exists>d. active h d \<and> cwParent (cwms h d) = Some p')" by blast
  then have "p' = p" using treeInv_unique [OF assms(1) p'(1) assms(2)] by simp
  then obtain d where "active h d" "cwParent (cwms h d) = Some p" using p'(3) assms(5) by blast
  then have "copied (cwms h p)" using treeInvD(4) [OF assms(1), of d] by (simp add: parentOk_def)
  then show False using assms(3) by simp
qed

text \<open>A map that can be read, and what reading it gives.\<close>

definition readable :: "('k, 'v) cwmHeap \<Rightarrow> nat \<Rightarrow> bool" where
  "readable h p \<longleftrightarrow> p < cwmCount h \<and> cwDone (cwms h p) \<in> {notDone, doneKeep}"

lemma readable_cases:
  assumes "treeInv h" "readable h q"
  shows "active h q \<or> myIDs (cwms h q) = []"
  using assms by (auto simp: readable_def active_def treeInv_def)

lemma Read_eq:
  assumes "cwInv h" "readable h q" "cwDone (cwms h q) = notDone"
  shows "Read q k h = Inr (view h q k, view h q k \<noteq> None)"
proof -
  have a: "active h q" and t: "treeInv h" and i: "wfVersions (nxtID h) (versions h k)"
    using assms by (auto simp: cwInv_def itemsInv_def readable_def active_def)
  show ?thesis
  proof (cases "versions h k")
    case Nil
    then show ?thesis using assms(3) by (simp add: Read_def view_def viewOf_def itemValue_def)
  next
    case (Cons it l)
    then show ?thesis using assms(3) treeInvD(1) [OF t a] ids_sorted [OF t a] checkItem_eq [OF i, of "myIDs (cwms h q)"]
      by (simp add: Read_def view_def)
  qed
qed

section \<open>Writing\<close>

lemma versions_setVersions [simp]: "versions (setVersions k l h) k' = (if k' = k then l else versions h k')"
  by (simp add: versions_def setVersions_def update_conv')

lemma versions_setCwm [simp]: "versions (setCwm i f h) k = versions h k"
  by (simp add: versions_def setCwm_def)

lemma setVersions_fields [simp]:
  "cwms (setVersions k l h) = cwms h" "nxtID (setVersions k l h) = nxtID h" "cwmCount (setVersions k l h) = cwmCount h"
  by (simp_all add: setVersions_def)

lemma setCwm_fields [simp]:
  "cwms (setCwm i f h) = (cwms h)(i := f (cwms h i))" "nxtID (setCwm i f h) = nxtID h" "cwmCount (setCwm i f h) = cwmCount h"
  by (simp_all add: setCwm_def)

definition newVersions :: "int \<Rightarrow> 'v option \<Rightarrow> bool \<Rightarrow> 'v mapItem list \<Rightarrow> 'v mapItem list" where
  "newVersions own v del l =
     (case overwrite own v del l of Some l' \<Rightarrow> l' | None \<Rightarrow> l @ [\<lparr>mi_id = own, mi_item = v, mi_deleted = del\<rparr>])"

lemma overwrite_None: "overwrite own v del l = None \<longleftrightarrow> own \<notin> mi_id ` set l"
  by (induction l) auto

lemma overwrite_Some:
  assumes "overwrite own v del l = Some l'"
  shows "map mi_id l' = map mi_id l"
    "versionOf l' x = (if x = own then Some \<lparr>mi_id = own, mi_item = v, mi_deleted = del\<rparr> else versionOf l x)"
    "set l' \<subseteq> set l \<union> {\<lparr>mi_id = own, mi_item = v, mi_deleted = del\<rparr>}"
  using assms by (induction l arbitrary: l') (auto split: if_splits)

lemma newVersions_versionOf:
  "versionOf (newVersions own v del l) x = (if x = own then Some \<lparr>mi_id = own, mi_item = v, mi_deleted = del\<rparr> else versionOf l x)"
proof (cases "overwrite own v del l")
  case None
  then have "versionOf l own = None" by (simp add: overwrite_None versionOf_eq_None)
  then show ?thesis using None by (auto simp: newVersions_def versionOf_append split: option.splits)
qed (simp add: newVersions_def overwrite_Some)

lemma newVersions_ids: "mi_id ` set (newVersions own v del l) = insert own (mi_id ` set l)"
proof (cases "overwrite own v del l")
  case (Some l')
  then have "own \<in> mi_id ` set l" using overwrite_None [of own v del l] by auto
  moreover have "mi_id ` set l' = mi_id ` set l" using overwrite_Some(1) [OF Some] by (metis set_map)
  ultimately show ?thesis using Some by (auto simp: newVersions_def)
qed (auto simp: newVersions_def)

lemma newVersions_wf:
  assumes "wfVersions n l" "0 \<le> own" "own \<le> n" "del \<longleftrightarrow> v = None"
  shows "wfVersions n (newVersions own v del l)"
proof (cases "overwrite own v del l")
  case None
  then have "own \<notin> mi_id ` set l" by (simp add: overwrite_None)
  then show ?thesis using None assms by (cases l) (auto simp: newVersions_def wfVersions_def)
next
  case (Some l')
  have m: "map mi_id l' = map mi_id l" using overwrite_Some(1) [OF Some] .
  then have "map mi_id (tl l') = map mi_id (tl l)" by (metis map_tl)
  then have "mi_id ` set (tl l') = mi_id ` set (tl l)" by (metis set_map)
  moreover have "\<forall>it \<in> set (tl l). mi_id it \<noteq> committed" using assms(1) by (simp add: wfVersions_def)
  ultimately have "\<forall>it \<in> set (tl l'). mi_id it \<noteq> committed" by (metis imageE imageI)
  moreover have "\<forall>it \<in> set l'. committed \<le> mi_id it \<and> mi_id it \<le> n \<and> (mi_deleted it \<longleftrightarrow> mi_item it = None)"
    using overwrite_Some(3) [OF Some] assms by (force simp: wfVersions_def)
  ultimately show ?thesis using m assms(1) Some by (simp add: newVersions_def wfVersions_def)
qed

text \<open>The tree does not depend on the items.\<close>

lemma treeInv_cong:
  assumes "nxtID h' = nxtID h" "cwmCount h' = cwmCount h"
    and "\<And>p. cwDone (cwms h' p) = cwDone (cwms h p) \<and> copied (cwms h' p) = copied (cwms h p) \<and>
      dependents (cwms h' p) = dependents (cwms h p) \<and> cwParent (cwms h' p) = cwParent (cwms h p) \<and> myIDs (cwms h' p) = myIDs (cwms h p)"
  shows "active h' = active h" "ownID h' = ownID h" "treeInv h' = treeInv h"
proof -
  show a: "active h' = active h" and o: "ownID h' = ownID h" using assms by (auto simp: active_def ownID_def fun_eq_iff)
  have "parentOk h' q = parentOk h q" "depsOk h' q = depsOk h q" for q
    using assms a o by (simp_all add: parentOk_def depsOk_def split: option.splits)
  then show "treeInv h' = treeInv h" using assms a o by (simp add: treeInv_def)
qed

lemma internalWrite_spec:
  assumes inv: "cwInv h" and i: "active h i" "\<not> copied (cwms h i)" and del: "del \<longleftrightarrow> v = None"
  obtains h' where "internalWrite i key v del h = Inr h'" "cwInv h'" "view h' i = (view h i)(key := v)"
    "\<And>q. active h q \<or> myIDs (cwms h q) = [] \<Longrightarrow> q \<noteq> i \<Longrightarrow> view h' q = view h q"
    "\<And>p. cwDone (cwms h' p) = cwDone (cwms h p) \<and> copied (cwms h' p) = copied (cwms h p) \<and> cwParent (cwms h' p) = cwParent (cwms h p)"
    "cwmCount h' = cwmCount h"
proof -
  let ?own = "ownID h i" and ?l = "versions h key"
  have tr: "treeInv h" and it: "itemsInv h" using inv by (simp_all add: cwInv_def)
  note t = treeInvD [OF tr i(1)]
  define h' where "h' = (case overwrite ?own v del ?l of Some l \<Rightarrow> setVersions key l h
    | None \<Rightarrow> setVersions key (newVersions ?own v del ?l) (setCwm i (\<lambda>c. c\<lparr>myItems := myItems c @ [key]\<rparr>) h))"
  have w: "internalWrite i key v del h = Inr h'"
    using t(1) by (simp add: internalWrite_def h'_def ownID_def newVersions_def split: option.splits)
  have vs: "versions h' k = (if k = key then newVersions ?own v del ?l else versions h k)" for k
    by (simp add: h'_def newVersions_def split: option.splits)
  have fields: "cwDone (cwms h' p) = cwDone (cwms h p)" "copied (cwms h' p) = copied (cwms h p)" "dependents (cwms h' p) = dependents (cwms h p)"
    "cwParent (cwms h' p) = cwParent (cwms h p)" "myIDs (cwms h' p) = myIDs (cwms h p)" "nxtID h' = nxtID h" "cwmCount h' = cwmCount h" for p
    by (auto simp: h'_def split: option.splits)
  note same = treeInv_cong [of h' h, OF fields(6,7), simplified fields]
  have items: "myItems (cwms h' p) = (if p = i \<and> ?own \<notin> mi_id ` set ?l then myItems (cwms h i) @ [key] else myItems (cwms h p))" for p
    using overwrite_None [of ?own v del ?l] by (auto simp: h'_def split: option.splits)
  have "itemsInv h'"
    unfolding itemsInv_def
  proof (intro conjI allI impI)
    fix k
    show "wfVersions (nxtID h') (versions h' k)"
      using it newVersions_wf [of "nxtID h" ?l ?own del v] t(2,3) del by (auto simp: vs fields itemsInv_def)
  next
    fix p
    assume "active h' p"
    then have p: "active h p" by (simp add: same)
    show "distinct (myItems (cwms h' p))" using it p i(1) by (auto simp: items itemsInv_def)
    fix k
    have "ownID h p \<noteq> ?own" if "p \<noteq> i" using treeInv_unique [OF tr p i(1)] that by blast
    then show "k \<in> set (myItems (cwms h' p)) \<longleftrightarrow> ownID h' p \<in> mi_id ` set (versions h' k)"
      using it p i(1) by (auto simp: items itemsInv_def same vs newVersions_ids)
  qed
  moreover have "view h' i = (view h i)(key := v)"
  proof
    fix k
    have "myIDs (cwms h i) = ?own # tl (myIDs (cwms h i))" using t(6) .
    then have "newestOf (myIDs (cwms h i) @ [committed]) (newVersions ?own v del ?l) = Some \<lparr>mi_id = ?own, mi_item = v, mi_deleted = del\<rparr>"
      by (metis (no_types, lifting) append_Cons newestOf.simps(2) newVersions_versionOf option.simps(5))
    then show "view h' i k = ((view h i)(key := v)) k"
      using del by (auto simp: view_def vs fields viewOf_def itemValue_def)
  qed
  moreover have "view h' q = view h q" if q: "active h q \<or> myIDs (cwms h q) = []" "q \<noteq> i" for q
  proof
    fix k
    have "?own \<notin> set (myIDs (cwms h q))" using q not_copied_id [OF tr i] by auto
    then show "view h' q k = view h q k"
      using t(2) by (auto simp: view_def vs fields newVersions_versionOf intro!: viewOf_cong)
  qed
  ultimately show thesis using that [OF w] tr same(3) fields by (simp add: cwInv_def)
qed

section \<open>Copying\<close>

lemma cwInv_New [simp]: "cwInv NewCopyWriteMap" "view NewCopyWriteMap 0 = Map.empty"
  by (auto simp: cwInv_def treeInv_def itemsInv_def NewCopyWriteMap_def emptyCwm_def active_def ownID_def parentOk_def depsOk_def
      versions_def wfVersions_def view_def viewOf_def itemValue_def)

lemma itemsInv_new:
  assumes "itemsInv h" "\<And>k. versions h' k = versions h k" "nxtID h' = nxtID h + 1"
    and "\<And>q. active h' q \<longleftrightarrow> active h q \<or> q = r" "ownID h' r = nxtID h + 1" "myItems (cwms h' r) = []"
    and "\<And>q. active h q \<Longrightarrow> q \<noteq> r \<and> myItems (cwms h' q) = myItems (cwms h q) \<and> ownID h' q = ownID h q"
  shows "itemsInv h'"
proof -
  have w: "wfVersions (nxtID h) (versions h k)" for k using assms(1) by (simp add: itemsInv_def)
  then have "nxtID h + 1 \<notin> mi_id ` set (versions h k)" for k by (force simp: wfVersions_def)
  moreover have "wfVersions (nxtID h + 1) (versions h k)" for k using w [of k] by (auto simp: wfVersions_def)
  ultimately show ?thesis
    using assms unfolding itemsInv_def by (metis distinct.simps(1) empty_iff list.set(1))
qed

lemma Copy_spec:
  fixes h :: "('k, 'v) cwmHeap"
  assumes inv: "cwInv h" and i: "readable h i"
  obtains h' where "Copy i h = Inr (cwmCount h, h')" "cwInv h'" "view h' (cwmCount h) = view h i"
    "\<And>q. active h q \<or> readable h q \<Longrightarrow> view h' q = view h q \<and> cwDone (cwms h' q) = cwDone (cwms h q)"
    "cwDone (cwms h' (cwmCount h)) = notDone" "\<not> copied (cwms h' (cwmCount h))" "cwmCount h' = cwmCount h + 1"
    "\<And>q. q < cwmCount h \<Longrightarrow> q \<noteq> i \<Longrightarrow> copied (cwms h' q) = copied (cwms h q)"
proof -
  let ?r = "cwmCount h"
  define keep where "keep = (cwDone (cwms h i) = doneKeep)"
  have tr: "treeInv h" and it: "itemsInv h" using inv by (simp_all add: cwInv_def)
  have ir: "i < ?r" "cwDone (cwms h i) = (if keep then doneKeep else notDone)" using i by (auto simp: readable_def keep_def)
  define c' where "c' = (cwms h i)\<lparr>copied := True, dependents := dependents (cwms h i) @ (if keep then [] else [Some ?r])\<rparr>"
  define new :: "'k CopyWriteMap" where "new = (emptyCwm ((nxtID h + 1) # myIDs (cwms h i)))\<lparr>cwParent := (if keep then None else Some i)\<rparr>"
  define h' where "h' = h\<lparr>nxtID := nxtID h + 1, cwms := (cwms h)(i := c', ?r := new), cwmCount := ?r + 1\<rparr>"
  have c: "Copy i h = Inr (?r, h')"
    using ir by (auto simp: Copy_def h'_def c'_def new_def Let_def emptyCwm_def setCwm_def intro!: cwmHeap.equality CopyWriteMap.equality ext)
  have [simp]: "nxtID h' = nxtID h + 1" "cwmCount h' = ?r + 1" "versions h' k = versions h k" "cwms h' ?r = new" for k
    by (simp_all add: h'_def versions_def)
  have old [simp]: "cwms h' q = (if q = i then c' else cwms h q)" if "q < ?r" for q using that by (simp add: h'_def)
  have act: "active h' q \<longleftrightarrow> active h q \<or> q = ?r" for q
    by (cases "q < ?r") (auto simp: active_def c'_def new_def emptyCwm_def)
  have lt: "active h q \<Longrightarrow> q < ?r" for q by (simp add: active_def)
  have ids: "myIDs (cwms h' q) = myIDs (cwms h q)" "ownID h' q = ownID h q" "cwDone (cwms h' q) = cwDone (cwms h q)" if "q < ?r" for q
    using that by (auto simp: ownID_def c'_def)
  have own: "ownID h' ?r = nxtID h + 1" by (simp add: ownID_def new_def emptyCwm_def)
  have ui: "\<not> keep \<Longrightarrow> active h i" using ir by (simp add: active_def)
  have par: "parentOk h' q" if q: "active h' q" for q
  proof (cases "q = ?r")
    case True
    then show ?thesis using ui ir tr treeInvD(3) [OF tr, of i] ids(1,2) [OF ir(1)] own act
      by (auto simp: parentOk_def new_def emptyCwm_def c'_def treeInv_def split: option.splits)
  next
    case False
    then have a: "active h q" using q act by simp
    then have "parentOk h q" "cwParent (cwms h' q) = cwParent (cwms h q)" using treeInvD(4) [OF tr a] lt [OF a] by (simp_all add: c'_def)
    then show ?thesis using ids lt [OF a] act lt by (auto simp: parentOk_def c'_def split: option.splits)
  qed
  have dep: "depsOk h' q" if q: "active h' q" for q
  proof (cases "q = ?r")
    case False
    then have a: "active h q" using q act by simp
    then have d: "depsOk h q" using treeInvD(5) [OF tr] by blast
    then have "Some ?r \<notin> set (dependents (cwms h q))" using lt by (fastforce simp: depsOk_def)
    moreover have "cwParent (cwms h' p) = cwParent (cwms h p)" if "active h p" for p using lt [OF that] by (simp add: c'_def)
    ultimately show ?thesis using d lt [OF a] act by (auto simp: depsOk_def c'_def new_def emptyCwm_def)
  qed (simp add: depsOk_def new_def emptyCwm_def)
  have base: "myIDs (cwms h' q) \<noteq> [] \<and> 0 \<le> ownID h' q \<and> ownID h' q \<le> nxtID h'" if q: "active h' q" for q
  proof (cases "q = ?r")
    case True
    then show ?thesis using own tr by (simp add: new_def emptyCwm_def treeInv_def)
  next
    case False
    then have a: "active h q" using q act by simp
    then show ?thesis using treeInvD(1-3) [OF tr a] ids(1,2) [OF lt [OF a]] by simp
  qed
  have uniq: "p = q" if "active h' p" "active h' q" "ownID h' p = ownID h' q" for p q
  proof -
    have le: "ownID h' p < nxtID h + 1" if "active h p" for p using treeInvD(3) [OF tr that] ids(2) [OF lt [OF that]] by simp
    show ?thesis
      using that act own le [of p] le [of q] treeInv_unique [OF tr, of p q] ids(2) lt by (metis order_less_irrefl)
  qed
  have kept: "myIDs (cwms h' p) = []" if "p < cwmCount h'" "cwDone (cwms h' p) = doneKeep" for p
    using that tr ids by (cases "p = ?r") (auto simp: new_def emptyCwm_def treeInv_def)
  have "treeInv h'" using base uniq kept par dep tr by (simp add: treeInv_def)
  moreover have "itemsInv h'"
    by (rule itemsInv_new [OF it, where r = ?r]) (use act own ids lt in \<open>auto simp: new_def emptyCwm_def c'_def dest: lt\<close>)
  ultimately have "cwInv h'" by (simp add: cwInv_def)
  moreover have "view h' ?r = view h i"
  proof
    fix k
    have "wfVersions (nxtID h) (versions h k)" using it by (simp add: itemsInv_def)
    then have "versionOf (versions h k) (nxtID h + 1) = None" by (force simp: versionOf_eq_None wfVersions_def)
    then show "view h' ?r k = view h i k" by (simp add: view_def viewOf_def new_def emptyCwm_def)
  qed
  moreover have "view h' q = view h q \<and> cwDone (cwms h' q) = cwDone (cwms h q)" if "active h q \<or> readable h q" for q
    using that ids lt by (auto simp: view_def readable_def)
  moreover have "copied (cwms h' q) = copied (cwms h q)" if "q < ?r" "q \<noteq> i" for q using that by simp
  ultimately show thesis using that [OF c] by (simp add: new_def emptyCwm_def)
qed

section \<open>Unlinking versions\<close>

definition without :: "int \<Rightarrow> 'v mapItem list \<Rightarrow> 'v mapItem list" where
  "without x l = filter (\<lambda>it. mi_id it \<noteq> x) l"

lemma versionOf_without [simp]: "versionOf (without x l) y = (if y = x then None else versionOf l y)"
  by (induction l) (auto simp: without_def)

lemma ids_without [simp]: "mi_id ` set (without x l) = mi_id ` set l - {x}"
  by (auto simp: without_def)

lemma without_id [simp]: "x \<notin> mi_id ` set l \<Longrightarrow> without x l = l"
  by (auto simp: without_def filter_id_conv)

lemma wf_without: "wfVersions n l \<Longrightarrow> wfVersions n (without x l)"
proof -
  assume wf: "wfVersions n l"
  have "set (tl (without x l)) \<subseteq> set (tl l)"
  proof (cases l)
    case (Cons a l')
    have "set (tl (filter P l')) \<subseteq> set (filter P l')" for P by (cases "filter P l'") auto
    then have "set (tl (filter P l')) \<subseteq> set l'" for P by fastforce
    then show ?thesis using Cons by (auto simp: without_def)
  qed (simp add: without_def)
  then show ?thesis using wf by (auto simp: wfVersions_def without_def distinct_map_filter)
qed

lemma unlink_eq:
  assumes "distinct (map mi_id l)" "x \<in> mi_id ` set l"
  shows "\<exists>it. versionOf l x = Some it \<and> unlink x l = Inr (it, without x l)"
  using assms
proof (induction l)
  case (Cons a l)
  show ?case
  proof (cases "mi_id a = x")
    case True
    then have "without x l = l" using Cons.prems(1) by auto
    then show ?thesis using True by (simp add: without_def)
  next
    case False
    then show ?thesis using Cons by (auto simp: without_def)
  qed
qed simp

lemma removeID_eq:
  assumes "wfVersions n (versions h k)" "x \<in> mi_id ` set (versions h k)"
  obtains it h' where "removeID k x h = Inr (it, h')" "versionOf (versions h k) x = Some it"
    "\<And>k'. versions h' k' = (if k' = k then without x (versions h k) else versions h k')"
    "cwms h' = cwms h" "nxtID h' = nxtID h" "cwmCount h' = cwmCount h"
proof -
  obtain a l where v: "versions h k = a # l" using assms(2) by (cases "versions h k") auto
  have d: "distinct (map mi_id (a # l))" using assms(1) v by (simp add: wfVersions_def)
  show thesis
  proof (cases "mi_id a = x")
    case True
    let ?h = "if l = [] then h\<lparr>theMap := AList.delete k (theMap h)\<rparr> else setVersions k l h"
    have "without x l = l" using d True by auto
    then have "without x (versions h k) = l" using True v by (simp add: without_def)
    moreover have "versions ?h k' = (if k' = k then l else versions h k')" for k'
      by (simp add: versions_def delete_conv' setVersions_def update_conv')
    moreover have "removeID k x h = Inr (a, ?h)" using v True by (simp add: removeID_def)
    ultimately show thesis using that True v by simp
  next
    case False
    then have "x \<in> mi_id ` set l" using assms(2) v by auto
    from unlink_eq [OF _ this] d obtain it where it: "versionOf l x = Some it" "unlink x l = Inr (it, without x l)" by auto
    have "removeID k x h = Inr (it, setVersions k (a # without x l) h)" using v False it by (simp add: removeID_def)
    then show thesis using that v False it by (simp add: without_def)
  qed
qed

lemma removeItems_eq:
  assumes "distinct ks" "\<And>k. wfVersions n (versions h k)" "\<And>k. k \<in> set ks \<Longrightarrow> x \<in> mi_id ` set (versions h k)"
  shows "\<exists>h'. removeItems x ks h = Inr h' \<and> (\<forall>k. versions h' k = (if k \<in> set ks then without x (versions h k) else versions h k)) \<and>
    cwms h' = cwms h \<and> nxtID h' = nxtID h \<and> cwmCount h' = cwmCount h"
  using assms
proof (induction ks arbitrary: h)
  case (Cons k ks)
  have "wfVersions n (versions h k)" "x \<in> mi_id ` set (versions h k)" using Cons.prems(2,3) by auto
  from removeID_eq [OF this] obtain it h1 where h1: "removeID k x h = Inr (it, h1)"
    "\<And>k'. versions h1 k' = (if k' = k then without x (versions h k) else versions h k')"
    "cwms h1 = cwms h" "nxtID h1 = nxtID h" "cwmCount h1 = cwmCount h" by metis
  have w: "wfVersions n (versions h1 k')" for k' using Cons.prems(2) by (simp add: h1(2) wf_without)
  have "x \<in> mi_id ` set (versions h1 k')" if "k' \<in> set ks" for k' using Cons.prems(1,3) that h1(2) by auto
  from Cons.IH [OF _ w this] Cons.prems(1) obtain h2 where "removeItems x ks h1 = Inr h2"
    "\<forall>k'. versions h2 k' = (if k' \<in> set ks then without x (versions h1 k') else versions h1 k')"
    "cwms h2 = cwms h1" "nxtID h2 = nxtID h1" "cwmCount h2 = cwmCount h1" by auto
  then show ?case using h1 Cons.prems(1) by auto
qed simp

section \<open>Discarding a map\<close>

text \<open>
  The effect of clearing in the part of the tree below \<open>i\<close>: maps that waited to be cleared are gone, dependents of gone maps are
  nil, and what is left sees what it saw.
\<close>

definition clearRel :: "nat \<Rightarrow> ('k, 'v) cwmHeap \<Rightarrow> ('k, 'v) cwmHeap \<Rightarrow> bool" where
  "clearRel i h h' \<longleftrightarrow> cwInv h' \<and> cwmCount h' = cwmCount h \<and>
     (\<forall>q. cwDone (cwms h' q) = cwDone (cwms h q) \<or>
        i \<le> q \<and> active h q \<and> cwDone (cwms h q) = doneClearStart \<and> cwDone (cwms h' q) = doneClearFinish) \<and>
     (\<forall>q. copied (cwms h' q) = copied (cwms h q)) \<and>
     (\<forall>q. length (dependents (cwms h' q)) = length (dependents (cwms h q)) \<and>
        (\<forall>j. j < length (dependents (cwms h q)) \<longrightarrow>
           dependents (cwms h' q) ! j = dependents (cwms h q) ! j \<or> dependents (cwms h' q) ! j = None)) \<and>
     (\<forall>q. active h' q \<or> readable h q \<longrightarrow> view h' q = view h q)"

lemma clearRel_refl: "cwInv h \<Longrightarrow> clearRel i h h"
  by (simp add: clearRel_def)

lemma clearRelD:
  assumes "clearRel i h h'"
  shows "cwInv h'" "cwmCount h' = cwmCount h"
    "cwDone (cwms h' q) = cwDone (cwms h q) \<or>
      i \<le> q \<and> active h q \<and> cwDone (cwms h q) = doneClearStart \<and> cwDone (cwms h' q) = doneClearFinish"
    "copied (cwms h' q) = copied (cwms h q)" "length (dependents (cwms h' q)) = length (dependents (cwms h q))"
    "j < length (dependents (cwms h q)) \<Longrightarrow>
      dependents (cwms h' q) ! j = dependents (cwms h q) ! j \<or> dependents (cwms h' q) ! j = None"
    "active h' q \<or> readable h q \<Longrightarrow> view h' q = view h q"
  using assms by (simp_all add: clearRel_def) blast

lemma clearRel_active: "clearRel i h h' \<Longrightarrow> active h' q \<Longrightarrow> active h q"
  using clearRelD(2) [of i h h'] clearRelD(3) [of i h h' q] by (auto simp: active_def)

lemma clearRel_trans:
  assumes a: "clearRel i h h1" and b: "clearRel d h1 h2" and d: "i \<le> d"
  shows "clearRel i h h2"
proof -
  have "cwDone (cwms h2 q) = cwDone (cwms h q) \<or>
      i \<le> q \<and> active h q \<and> cwDone (cwms h q) = doneClearStart \<and> cwDone (cwms h2 q) = doneClearFinish" for q
    using clearRelD(3) [OF a, of q] clearRelD(3) [OF b, of q] clearRel_active [OF a, of q] d by auto
  moreover have "view h2 q = view h q" if q: "active h2 q \<or> readable h q" for q
  proof -
    have "active h1 q \<or> readable h q" using q clearRel_active [OF b] by blast
    moreover have "active h2 q \<or> readable h1 q"
      using q clearRelD(2) [OF a] clearRelD(3) [OF a, of q] by (auto simp: readable_def)
    ultimately show ?thesis using clearRelD(7) [OF a, of q] clearRelD(7) [OF b, of q] by simp
  qed
  moreover have "dependents (cwms h2 q) ! j = dependents (cwms h q) ! j \<or> dependents (cwms h2 q) ! j = None"
    if "j < length (dependents (cwms h q))" for q j
    using clearRelD(5) [OF a, of q] clearRelD(6) [OF b, of j q] clearRelD(6) [OF a, of j q] that by auto
  ultimately show ?thesis
    using clearRelD(1,2,4,5) [OF b] clearRelD(2,4,5) [OF a] by (simp add: clearRel_def)
qed

lemma childless_id:
  assumes "treeInv h" "active h p" "set (dependents (cwms h p)) \<subseteq> {None}" "active h q" "q \<noteq> p"
  shows "ownID h p \<notin> set (myIDs (cwms h q))" "cwParent (cwms h q) \<noteq> Some p"
proof -
  have no: "cwParent (cwms h d) \<noteq> Some p" if "active h d" for d
    using treeInvD(4) [OF assms(1) that] assms(3) by (auto simp: parentOk_def)
  then show "cwParent (cwms h q) \<noteq> Some p" using assms(4) by blast
  show "ownID h p \<notin> set (myIDs (cwms h q))"
  proof
    assume "ownID h p \<in> set (myIDs (cwms h q))"
    from ids_owner [OF assms(1,4) this] obtain p' where "active h p'" "ownID h p' = ownID h p"
      "p' = q \<or> (\<exists>d. active h d \<and> cwParent (cwms h d) = Some p')" by blast
    then show False using treeInv_unique [OF assms(1) _ assms(2)] no assms(5) by blast
  qed
qed

definition depsCleared :: "('k, 'v) cwmHeap \<Rightarrow> nat \<Rightarrow> nat \<Rightarrow> nat option list \<Rightarrow> bool" where
  "depsCleared h p q ds \<longleftrightarrow> ds = map (\<lambda>d. if d = Some p then None else d) (dependents (cwms h q)) \<or>
     ds = dependents (cwms h q) \<and> \<not> (active h q \<and> Some p \<in> set (dependents (cwms h q)))"

lemma depsCleared_active:
  assumes "depsCleared h p q ds" "active h q"
  shows "ds = map (\<lambda>d. if d = Some p then None else d) (dependents (cwms h q))"
proof -
  have "map (\<lambda>d. if d = Some p then None else d) l = l" if "Some p \<notin> set l" for l :: "nat option list"
    using that by (induction l) auto
  then show ?thesis using assms by (auto simp: depsCleared_def)
qed

lemma cleared_treeInv:
  assumes tr: "treeInv h" and p: "active h p" and no: "set (dependents (cwms h p)) \<subseteq> {None}"
    and c: "\<forall>q. q \<noteq> p \<longrightarrow> cwms h' q = (cwms h q)\<lparr>dependents := D q\<rparr>" and D: "\<forall>q. depsCleared h p q (D q)"
    and d: "cwDone (cwms h' p) = doneClearFinish" and n: "nxtID h' = nxtID h" "cwmCount h' = cwmCount h"
  shows "treeInv h'" "\<And>q. active h' q \<longleftrightarrow> active h q \<and> q \<noteq> p" "\<And>q. q \<noteq> p \<Longrightarrow> ownID h' q = ownID h q"
proof -
  show act: "active h' q \<longleftrightarrow> active h q \<and> q \<noteq> p" for q using c d n by (cases "q = p") (auto simp: active_def)
  show own: "ownID h' q = ownID h q" if "q \<noteq> p" for q using c that by (simp add: ownID_def)
  have ok: "parentOk h' q \<and> depsOk h' q" if q: "active h q" "q \<noteq> p" for q
  proof
    have par: "cwParent (cwms h q) \<noteq> Some p" using childless_id(2) [OF tr p no q] .
    have Dq: "D r = map (\<lambda>d. if d = Some p then None else d) (dependents (cwms h r))" if "active h r" for r
      using depsCleared_active D that by blast
    show "parentOk h' q" using treeInvD(4) [OF tr q(1)] par c q own [OF q(2)] own act
      by (auto simp: parentOk_def image_iff Dq split: option.splits)
    have "depsOk h q" using treeInvD(5) [OF tr q(1)] .
    moreover have "filter (\<lambda>d. d \<noteq> None) (map (\<lambda>d. if d = Some p then None else d) l) = filter (\<lambda>d. d \<noteq> Some p) (filter (\<lambda>d. d \<noteq> None) l)"
      for l :: "nat option list" by (induction l) auto
    moreover have "cwParent (cwms h' d) = cwParent (cwms h d)" if "active h d" "d \<noteq> p" for d using c that by simp
    moreover from calculation have "distinct (filter (\<lambda>d. d \<noteq> None) (D q))"
      unfolding Dq [OF q(1)] depsOk_def by (simp only: distinct_filter)
    ultimately show "depsOk h' q" using c q act Dq [OF q(1)] unfolding depsOk_def by auto
  qed
  show "treeInv h'"
    unfolding treeInv_def
  proof (intro conjI allI impI)
    show "0 \<le> nxtID h'" using tr n by (simp add: treeInv_def)
  next
    fix q
    assume "active h' q"
    then have q: "active h q" "q \<noteq> p" using act by simp_all
    show "myIDs (cwms h' q) \<noteq> []" "0 \<le> ownID h' q" "ownID h' q \<le> nxtID h'" "parentOk h' q" "depsOk h' q"
      using treeInvD(1-3) [OF tr q(1)] c q(2) own [OF q(2)] n ok [OF q] by simp_all
  next
    fix q r
    assume "active h' q" "active h' r" "ownID h' q = ownID h' r"
    then show "q = r" using treeInv_unique [OF tr, of q r] act own by simp
  next
    fix q
    assume "q < cwmCount h'" "cwDone (cwms h' q) = doneKeep"
    then show "myIDs (cwms h' q) = []" using tr c d n by (cases "q = p") (auto simp: treeInv_def)
  qed
qed

lemma cleared_spec:
  assumes inv: "cwInv h" and p: "active h p" "cwDone (cwms h p) = doneClearStart" and no: "set (dependents (cwms h p)) \<subseteq> {None}"
    and c: "\<forall>q. q \<noteq> p \<longrightarrow> cwms h' q = (cwms h q)\<lparr>dependents := D q\<rparr>" and D: "\<forall>q. depsCleared h p q (D q)"
    and cp: "cwms h' p = (cwms h p)\<lparr>cwDone := doneClearFinish\<rparr>" and n: "nxtID h' = nxtID h" "cwmCount h' = cwmCount h"
    and v: "\<And>k. versions h' k = without (ownID h p) (versions h k)"
  shows "clearRel p h h'"
proof -
  have tr: "treeInv h" and it: "itemsInv h" using inv by (simp_all add: cwInv_def)
  have d: "cwDone (cwms h' p) = doneClearFinish" using cp by simp
  note t = cleared_treeInv [OF tr p(1) no c D d n]
  have x: "0 \<le> ownID h p" using treeInvD(2) [OF tr p(1)] .
  have "itemsInv h'"
    unfolding itemsInv_def
  proof (intro conjI allI impI)
    show "wfVersions (nxtID h') (versions h' k)" for k using it by (simp add: v n wf_without itemsInv_def)
    fix q
    assume "active h' q"
    then have q: "active h q" "q \<noteq> p" using t(2) by simp_all
    show "distinct (myItems (cwms h' q))" using it q c by (simp add: itemsInv_def)
    have "ownID h q \<noteq> ownID h p" using treeInv_unique [OF tr q(1) p(1)] q(2) by blast
    then show "k \<in> set (myItems (cwms h' q)) \<longleftrightarrow> ownID h' q \<in> mi_id ` set (versions h' k)" for k
      using it q c t(3) [OF q(2)] by (simp add: itemsInv_def v)
  qed
  then have ci: "cwInv h'" using t(1) by (simp add: cwInv_def)
  have vi: "view h' q = view h q" if q: "active h' q \<or> readable h q" for q
  proof
    fix k
    have "\<not> readable h p" using p(2) by (simp add: readable_def)
    then have qp: "q \<noteq> p" using q t(2) [of q] by blast
    moreover have "active h q \<or> myIDs (cwms h q) = []" using q t(2) [of q] readable_cases [OF tr, of q] by blast
    ultimately have "ownID h p \<notin> set (myIDs (cwms h q))" using childless_id(1) [OF tr p(1) no, of q] by fastforce
    then show "view h' q k = view h q k" using x c qp by (auto simp: view_def v intro!: viewOf_cong)
  qed
  have di: "cwDone (cwms h' q) = cwDone (cwms h q) \<or>
      p \<le> q \<and> active h q \<and> cwDone (cwms h q) = doneClearStart \<and> cwDone (cwms h' q) = doneClearFinish" for q
    using c d p by (cases "q = p") auto
  have li: "copied (cwms h' q) = copied (cwms h q) \<and> length (dependents (cwms h' q)) = length (dependents (cwms h q)) \<and>
      (\<forall>j. j < length (dependents (cwms h q)) \<longrightarrow>
         dependents (cwms h' q) ! j = dependents (cwms h q) ! j \<or> dependents (cwms h' q) ! j = None)" for q
    using c cp D [rule_format, of q] by (cases "q = p") (auto simp: depsCleared_def split: if_splits)
  show ?thesis
    unfolding clearRel_def
  proof (intro conjI allI)
    show "active h' q \<or> readable h q \<longrightarrow> view h' q = view h q" for q using vi by (rule impI)
  qed (rule ci n di li [THEN conjunct1] li [THEN conjunct2, THEN conjunct1]
      li [THEN conjunct2, THEN conjunct2, THEN spec])+
qed

lemma internalDoneClear_spec:
  assumes inv: "cwInv h" and p: "active h p" and no: "set (dependents (cwms h p)) \<subseteq> {None}"
  obtains b h' where "internalDoneClear p h = Inr (b, h')" "clearRel p h h'"
    "b \<Longrightarrow> cwDone (cwms h' p) = doneClearFinish" "\<not> b \<Longrightarrow> cwDone (cwms h p) = notDone"
proof (cases "cwDone (cwms h p) = doneClearStart")
  case False
  then have "cwDone (cwms h p) = notDone" using p by (auto simp: active_def)
  then show thesis using that [of False h] clearRel_refl [OF inv] by (simp add: internalDoneClear_def)
next
  case True
  have tr: "treeInv h" and it: "itemsInv h" using inv by (simp_all add: cwInv_def)
  let ?upd = "\<lambda>l. map (\<lambda>d. if d = Some p then None else d) l"
  have other: "Some p \<notin> set (dependents (cwms h q))" if "active h q" "cwParent (cwms h p) \<noteq> Some q" for q
    using treeInvD(5) [OF tr that(1)] that(2) by (auto simp: depsOk_def)
  obtain h1 where h1: "clearDependent p h = Inr h1" "h1 = (case cwParent (cwms h p) of None \<Rightarrow> h
      | Some p' \<Rightarrow> setCwm p' (\<lambda>c. c\<lparr>dependents := ?upd (dependents c)\<rparr>) h)"
    using treeInvD(4) [OF tr p] by (auto simp: clearDependent_def parentOk_def split: option.splits)
  have np: "cwParent (cwms h p) \<noteq> Some p" using treeInvD(4) [OF tr p] by (auto simp: parentOk_def)
  then have c1: "cwms h1 p = cwms h p" "nxtID h1 = nxtID h" "cwmCount h1 = cwmCount h" "versions h1 k = versions h k" for k
    using h1(2) by (auto split: option.splits)
  have "distinct (myItems (cwms h p))" "\<And>k. wfVersions (nxtID h) (versions h1 k)"
    "\<And>k. k \<in> set (myItems (cwms h p)) \<longleftrightarrow> ownID h p \<in> mi_id ` set (versions h1 k)"
    using it p by (auto simp: itemsInv_def c1(4))
  from removeItems_eq [OF this(1,2), of "ownID h p"] this(3) obtain h2 where
    h2: "removeItems (ownID h p) (myItems (cwms h p)) h1 = Inr h2" "\<And>k. versions h2 k = without (ownID h p) (versions h k)"
    "cwms h2 = cwms h1" "nxtID h2 = nxtID h1" "cwmCount h2 = cwmCount h1"
    by (auto simp: c1(4))
  let ?h' = "setCwm p (\<lambda>c. c\<lparr>cwDone := doneClearFinish\<rparr>) h2"
  have "\<not> (\<exists>d \<in> set (dependents (cwms h p)). d \<noteq> None)" using no by auto
  then have r: "internalDoneClear p h = Inr (True, ?h')"
    using True h1(1) h2(1) treeInvD(1) [OF tr p] by (simp add: internalDoneClear_def c1 ownID_def)
  let ?D = "\<lambda>q. if cwParent (cwms h p) = Some q then ?upd (dependents (cwms h q)) else dependents (cwms h q)"
  have "clearRel p h ?h'"
  proof (rule cleared_spec [OF inv p True no, where D = ?D])
    show "\<forall>q. q \<noteq> p \<longrightarrow> cwms ?h' q = (cwms h q)\<lparr>dependents := ?D q\<rparr>"
      using h1(2) by (auto simp: h2(3) split: option.splits)
    show "\<forall>q. depsCleared h p q (?D q)" using other by (auto simp: depsCleared_def)
    show "cwms ?h' p = (cwms h p)\<lparr>cwDone := doneClearFinish\<rparr>" using c1(1) by (simp add: h2(3))
  qed (use h2 c1 in simp_all)
  then show thesis using that [OF r] by simp
qed

text \<open>The recursion over the dependents ends: a dependent was made after its parent.\<close>

lemma doneClearRec_spec:
  "cwInv h \<Longrightarrow> active h i \<Longrightarrow> \<forall>d \<in> set (take j (dependents (cwms h i))). d = None \<Longrightarrow>
   \<exists>b h'. doneClearRec i j h = Some (Inr (b, h')) \<and> clearRel i h h' \<and> (b \<longrightarrow> cwDone (cwms h' i) = doneClearFinish)"
proof (induction "(cwmCount h - i, length (dependents (cwms h i)) - j)" arbitrary: h i j rule: wf_induct_rule [OF wf_lex_prod [OF wf_less_than wf_less_than]])
  case (1 h i j)
  note inv = 1(2) and act = 1(3) and before = 1(4)
  have tr: "treeInv h" using inv by (simp add: cwInv_def)
  let ?ds = "dependents (cwms h i)"
  show ?case
  proof (cases "length ?ds \<le> j")
    case True
    then have "set ?ds \<subseteq> {None}" using before by auto
    from internalDoneClear_spec [OF inv act this] True show ?thesis by (subst doneClearRec.simps) metis
  next
    case False
    have next_j: "\<forall>d \<in> set (take (j + 1) ds). d = None" if "\<forall>d \<in> set (take j ds). d = None" "j < length ds" "ds ! j = None" for ds :: "nat option list"
      using that by (auto simp: take_Suc_conv_app_nth)
    show ?thesis
    proof (cases "?ds ! j")
      case None
      have pre: "\<forall>d \<in> set (take (j + 1) ?ds). d = None" by (rule next_j) (use before False None in simp_all)
      have "\<exists>b h'. doneClearRec i (j + 1) h = Some (Inr (b, h')) \<and> clearRel i h h' \<and> (b \<longrightarrow> cwDone (cwms h' i) = doneClearFinish)"
        by (rule 1(1) [OF _ inv act pre]) (use False in simp)
      then show ?thesis using False None by (subst doneClearRec.simps) simp
    next
      case (Some d)
      then have "Some d \<in> set ?ds" using False by (metis nth_mem not_le)
      then have d: "active h d" "cwParent (cwms h d) = Some i" using treeInvD(5) [OF tr act] by (auto simp: depsOk_def)
      then have id: "i < d" "d < cwmCount h" using treeInvD(4) [OF tr d(1)] by (auto simp: parentOk_def active_def)
      have "\<exists>b h1. doneClearRec d 0 h = Some (Inr (b, h1)) \<and> clearRel d h h1 \<and> (b \<longrightarrow> cwDone (cwms h1 d) = doneClearFinish)"
        by (rule 1(1) [OF _ inv d(1)]) (use id in auto)
      then obtain b h1 where h1: "doneClearRec d 0 h = Some (Inr (b, h1))" "clearRel d h h1" "b \<Longrightarrow> cwDone (cwms h1 d) = doneClearFinish" by blast
      have rel: "clearRel i h h1" using clearRel_trans [OF clearRel_refl [OF inv] h1(2)] id(1) by simp
      show ?thesis
      proof (cases b)
        case False
        then show ?thesis using \<open>\<not> length ?ds \<le> j\<close> Some h1(1) rel by (subst doneClearRec.simps) auto
      next
        case True
        note len = clearRelD(5) [OF h1(2), of i] and nth = clearRelD(6) [OF h1(2), of _ i] and inv1 = clearRelD(1) [OF h1(2)]
        have act1: "active h1 i" using act clearRelD(2) [OF h1(2)] clearRelD(3) [OF h1(2), of i] id(1) by (auto simp: active_def)
        have "\<not> active h1 d" using h1(3) True by (simp add: active_def)
        then have "Some d \<notin> set (dependents (cwms h1 i))" using treeInvD(5) [OF _ act1] inv1 by (auto simp: depsOk_def cwInv_def)
        moreover have "dependents (cwms h1 i) ! j \<in> set (dependents (cwms h1 i))" using len False by simp
        ultimately have "dependents (cwms h1 i) ! j = None" using nth [of j] Some False by auto
        moreover have "\<forall>e \<in> set (take j (dependents (cwms h1 i))). e = None"
        proof
          fix e
          assume "e \<in> set (take j (dependents (cwms h1 i)))"
          then obtain k where k: "k < j" "k < length ?ds" "e = dependents (cwms h1 i) ! k" using len by (auto simp: in_set_conv_nth)
          then have "take j ?ds ! k \<in> set (take j ?ds)" by (intro nth_mem) simp
          then have "?ds ! k = None" using before k(1) by simp
          then show "e = None" using nth [of k] k by auto
        qed
        ultimately have pre: "\<forall>e \<in> set (take (j + 1) (dependents (cwms h1 i))). e = None" by (intro next_j) (use len False in simp_all)
        have "\<exists>b h2. doneClearRec i (j + 1) h1 = Some (Inr (b, h2)) \<and> clearRel i h1 h2 \<and> (b \<longrightarrow> cwDone (cwms h2 i) = doneClearFinish)"
          by (rule 1(1) [OF _ inv1 act1 pre]) (use len False clearRelD(2) [OF h1(2)] in auto)
        then show ?thesis using False Some h1(1) True clearRel_trans [OF rel] by (subst doneClearRec.simps) fastforce
      qed
    qed
  qed
qed

lemma climb_spec:
  assumes tr: "treeInv h"
  shows "active h i \<Longrightarrow> \<exists>top. climb i h = Some top \<and> active h top"
proof (induction i rule: less_induct)
  case (less i)
  show ?case
  proof (cases "cwParent (cwms h i)")
    case None
    then show ?thesis using less.prems by (subst climb.simps) simp
  next
    case (Some p)
    then have "active h p" "p < i" using treeInvD(4) [OF tr less.prems] by (auto simp: parentOk_def)
    then show ?thesis using Some less by (subst climb.simps) auto
  qed
qed

lemma DoneClear_spec:
  assumes inv: "cwInv h" and i: "active h i" "cwDone (cwms h i) = notDone"
  obtains h' where "DoneClear i h = Some (Inr h')" "cwInv h'" "\<And>q. readable h q \<Longrightarrow> q \<noteq> i \<Longrightarrow> readable h' q \<and> view h' q = view h q"
    "\<not> readable h' i" "cwmCount h' = cwmCount h" "\<And>q. cwDone (cwms h q) = notDone \<Longrightarrow> q \<noteq> i \<Longrightarrow> cwDone (cwms h' q) = notDone"
proof -
  let ?h = "setCwm i (\<lambda>c. c\<lparr>cwDone := doneClearStart\<rparr>) h"
  have act: "active ?h = active h" using i by (auto simp: active_def fun_eq_iff)
  have own: "ownID ?h = ownID h" by (auto simp: ownID_def fun_eq_iff)
  have v: "view ?h = view h" by (auto simp: view_def fun_eq_iff)
  have "parentOk ?h q = parentOk h q" "depsOk ?h q = depsOk h q" for q
    using act own by (auto simp: parentOk_def depsOk_def split: option.splits)
  then have "treeInv ?h" using inv act own by (auto simp: cwInv_def treeInv_def)
  moreover have "itemsInv ?h" using inv act own by (simp add: cwInv_def itemsInv_def)
  ultimately have inv1: "cwInv ?h" and tr1: "treeInv ?h" by (simp_all add: cwInv_def)
  have "active ?h i" using i act by simp
  from climb_spec [OF tr1 this] obtain top where top: "climb i ?h = Some top" "active ?h top" by blast
  from doneClearRec_spec [OF inv1 top(2), of 0] obtain b h' where
    h': "doneClearRec top 0 ?h = Some (Inr (b, h'))" "clearRel top ?h h'" by auto
  have "DoneClear i h = Some (Inr h')" using top(1) h'(1) by (simp add: DoneClear_def)
  moreover have "readable h' q \<and> view h' q = view h q" if "readable h q" "q \<noteq> i" for q
  proof -
    have r: "readable ?h q" using that by (simp add: readable_def)
    then have "readable h' q" using clearRelD(2) [OF h'(2)] clearRelD(3) [OF h'(2), of q] by (auto simp: readable_def)
    moreover have "view h' q = view ?h q" using clearRelD(7) [OF h'(2), of q] r by blast
    ultimately show ?thesis using v by simp
  qed
  moreover have "\<not> readable h' i" using clearRelD(3) [OF h'(2), of i] by (auto simp: readable_def)
  moreover have "cwDone (cwms h' q) = notDone" if "cwDone (cwms h q) = notDone" "q \<noteq> i" for q
    using clearRelD(3) [OF h'(2), of q] that by auto
  ultimately show thesis using that clearRelD(1,2) [OF h'(2)] by (metis setCwm_fields(3))
qed

section \<open>Committing a map\<close>

text \<open>The version list after the map with identifier \<open>x\<close> is committed.\<close>

definition commitList :: "int \<Rightarrow> 'v mapItem list \<Rightarrow> 'v mapItem list" where
  "commitList x l =
     (case versionOf l x of
        None \<Rightarrow> l
      | Some it \<Rightarrow> if mi_deleted it then without x l
                   else it\<lparr>mi_id := committed\<rparr> # without committed (without x l))"

lemma without_committed:
  assumes "wfVersions n (a # l)"
  shows "without committed l = l" "without committed (a # l) = (if mi_id a = committed then l else a # l)"
proof -
  show l: "without committed l = l" using assms by (intro without_id) (auto simp: wfVersions_def)
  show "without committed (a # l) = (if mi_id a = committed then l else a # l)"
    using l by (simp add: without_def)
qed

lemma commitItem_eq:
  assumes wf: "wfVersions n (versions h k)" and x: "x \<in> mi_id ` set (versions h k)" "0 \<le> x"
  obtains h' where "commitItem x k h = Inr h'" "\<And>k'. versions h' k' = (if k' = k then commitList x (versions h k) else versions h k')"
    "cwms h' = cwms h" "nxtID h' = nxtID h" "cwmCount h' = cwmCount h"
proof -
  obtain a l where v: "versions h k = a # l" using x(1) by (cases "versions h k") auto
  have d: "distinct (map mi_id (a # l))" using wf v by (simp add: wfVersions_def)
  have w: "wfVersions n (a # l)" using wf v by simp
  show thesis
  proof (cases "mi_id a = x")
    case True
    let ?l = "if mi_deleted a then l else a\<lparr>mi_id := committed\<rparr> # l"
    have "without x (a # l) = l" using d True without_id [of x l] by (auto simp: without_def)
    then have "commitList x (versions h k) = ?l" using True v without_committed(1) [OF w] by (simp add: commitList_def)
    moreover have "commitItem x k h = Inr (setVersions k ?l h)" using v True by (simp add: commitItem_def)
    ultimately show thesis using that by simp
  next
    case False
    from removeID_eq [OF wf x(1)] obtain it h1 where h1: "removeID k x h = Inr (it, h1)" "versionOf (versions h k) x = Some it"
      "\<And>k'. versions h1 k' = (if k' = k then without x (versions h k) else versions h k')"
      "cwms h1 = cwms h" "nxtID h1 = nxtID h" "cwmCount h1 = cwmCount h" by metis
    have a: "without x (versions h k) = a # without x l" using v False by (simp add: without_def)
    have w1: "wfVersions n (a # without x l)" using wf_without [OF wf, of x] a by simp
    let ?h = "if mi_deleted it then h1 else setVersions k (it\<lparr>mi_id := committed\<rparr> # without committed (a # without x l)) h1"
    have "commitItem x k h = Inr ?h"
      using v False h1(1,3) a without_committed(2) [OF w1] by (simp add: commitItem_def)
    moreover have "versions ?h k' = (if k' = k then commitList x (versions h k) else versions h k')" for k'
      using h1(2,3) a by (simp add: commitList_def)
    ultimately show thesis using that h1(4-6) by simp
  qed
qed

lemma commitList_versionOf:
  assumes "0 \<le> x" "y \<noteq> x"
  shows "versionOf (commitList x l) y =
    (if y = committed then (case versionOf l x of Some it \<Rightarrow> if mi_deleted it then versionOf l y else Some (it\<lparr>mi_id := committed\<rparr>) | None \<Rightarrow> versionOf l y)
     else versionOf l y)"
  using assms by (simp add: commitList_def split: option.splits)

lemma commitList_gone: "0 \<le> x \<Longrightarrow> x \<notin> mi_id ` set (commitList x l)"
  by (auto simp: commitList_def versionOf_eq_None without_def split: option.splits)

lemma commitList_wf:
  assumes "wfVersions n l" "0 \<le> n" shows "wfVersions n (commitList x l)"
proof (cases "versionOf l x")
  case (Some it)
  have w: "wfVersions n (without committed (without x l))" by (intro wf_without assms)
  moreover have "it \<in> set l" using versionOf_SomeD [OF Some] by simp
  moreover have "\<forall>i \<in> set (without committed (without x l)). mi_id i \<noteq> committed" by (simp add: without_def)
  moreover from this have "committed \<notin> mi_id ` set (without committed (without x l))" by auto
  ultimately show ?thesis using Some assms wf_without [OF assms(1), of x]
    by (auto simp: commitList_def wfVersions_def simp del: ids_without)
qed (simp add: commitList_def assms)

lemma commitItems_eq:
  assumes "distinct ks" "\<And>k. wfVersions n (versions h k)" "0 \<le> n" "\<And>k. k \<in> set ks \<Longrightarrow> x \<in> mi_id ` set (versions h k)" "0 \<le> x"
  shows "\<exists>h'. commitItems x ks h = Inr h' \<and> (\<forall>k. versions h' k = (if k \<in> set ks then commitList x (versions h k) else versions h k)) \<and>
    cwms h' = cwms h \<and> nxtID h' = nxtID h \<and> cwmCount h' = cwmCount h"
  using assms
proof (induction ks arbitrary: h)
  case (Cons k ks)
  have "wfVersions n (versions h k)" "x \<in> mi_id ` set (versions h k)" using Cons.prems(2,4) by auto
  from commitItem_eq [OF this Cons.prems(5)] obtain h1 where h1: "commitItem x k h = Inr h1"
    "\<And>k'. versions h1 k' = (if k' = k then commitList x (versions h k) else versions h k')"
    "cwms h1 = cwms h" "nxtID h1 = nxtID h" "cwmCount h1 = cwmCount h" by metis
  have w: "wfVersions n (versions h1 k')" for k' using Cons.prems(2,3) by (simp add: h1(2) commitList_wf)
  have "x \<in> mi_id ` set (versions h1 k')" if "k' \<in> set ks" for k' using Cons.prems(1,4) that h1(2) by auto
  from Cons.IH [OF _ w Cons.prems(3) this Cons.prems(5)] Cons.prems(1) obtain h2 where "commitItems x ks h1 = Inr h2"
    "\<forall>k'. versions h2 k' = (if k' \<in> set ks then commitList x (versions h1 k') else versions h1 k')"
    "cwms h2 = cwms h1" "nxtID h2 = nxtID h1" "cwmCount h2 = cwmCount h1" by auto
  then show ?case using h1 Cons.prems(1) by auto
qed simp

text \<open>A map that no longer has \<open>x\<close> among its identifiers sees the committed version instead, unless a deletion was lost.\<close>

lemma viewOf_commit:
  assumes "0 \<le> x" "\<forall>y \<in> set ys. 0 \<le> y \<and> y \<noteq> x"
    and "\<And>it. versionOf l x = Some it \<Longrightarrow> mi_deleted it \<Longrightarrow> versionOf l committed = None"
  shows "viewOf ys (commitList x l) = viewOf (ys @ [x]) l"
proof -
  have "newestOf ys (commitList x l) = newestOf ys l"
    by (rule newestOf_cong) (use assms(2) in \<open>auto simp: commitList_versionOf [OF assms(1)]\<close>)
  moreover have "versionOf (commitList x l) committed =
      (case versionOf l x of Some it \<Rightarrow> if mi_deleted it then versionOf l committed else Some (it\<lparr>mi_id := committed\<rparr>) | None \<Rightarrow> versionOf l committed)"
    using commitList_versionOf [OF assms(1), of committed l] assms(1) by simp
  ultimately show ?thesis using assms(3)
    by (auto simp: viewOf_def newestOf_append itemValue_def split: option.splits)
qed

text \<open>The identifiers of a map end with those of any of its ancestors.\<close>

lemma ids_suffix:
  assumes inv: "treeInv h"
  shows "active h q \<Longrightarrow> x \<in> set (myIDs (cwms h q)) \<Longrightarrow> \<exists>p pre. active h p \<and> ownID h p = x \<and> myIDs (cwms h q) = pre @ myIDs (cwms h p)"
proof (induction q rule: less_induct)
  case (less q)
  note t = treeInvD [OF inv less.prems(1)]
  show ?case
  proof (cases "x = ownID h q")
    case True
    then show ?thesis using less.prems(1) by (metis append_Nil)
  next
    case False
    then have tl: "x \<in> set (tl (myIDs (cwms h q)))" using less.prems(2) t(6) by (metis set_ConsD)
    then obtain p where "cwParent (cwms h q) = Some p" using t(4) by (auto simp: parentOk_def split: option.splits)
    then have p: "active h p" "p < q" "tl (myIDs (cwms h q)) = myIDs (cwms h p)" using t(4) by (simp_all add: parentOk_def)
    from less.IH [OF p(2,1)] tl p(3) obtain p' pre where "active h p'" "ownID h p' = x" "myIDs (cwms h p) = pre @ myIDs (cwms h p')" by auto
    then show ?thesis using t(6) p(3) by (metis append_Cons)
  qed
qed

text \<open>The maps made from \<open>d\<close>, directly or through others, and \<open>d\<close> itself.\<close>

definition subtree :: "('k, 'v) cwmHeap \<Rightarrow> nat \<Rightarrow> nat set" where
  "subtree h d = {q. active h q \<and> ownID h d \<in> set (myIDs (cwms h q))}"

definition below :: "('k, 'v) cwmHeap \<Rightarrow> nat \<Rightarrow> nat \<Rightarrow> nat set" where
  "below h i j = {q. \<exists>d. Some d \<in> set (drop j (dependents (cwms h i))) \<and> q \<in> subtree h d}"

lemma subtree_self: "treeInv h \<Longrightarrow> active h d \<Longrightarrow> d \<in> subtree h d"
  using treeInvD(6) [of h d] by (metis (mono_tags, lifting) list.set_intros(1) mem_Collect_eq subtree_def)

lemma subtree_ids:
  assumes inv: "treeInv h" and d: "active h d" and q: "q \<in> subtree h d"
  shows "\<exists>pre. myIDs (cwms h q) = pre @ myIDs (cwms h d)" "active h q"
proof -
  from q ids_suffix [OF inv, of q "ownID h d"] obtain p pre where
    "active h p" "ownID h p = ownID h d" "myIDs (cwms h q) = pre @ myIDs (cwms h p)" by (auto simp: subtree_def)
  then show "\<exists>pre. myIDs (cwms h q) = pre @ myIDs (cwms h d)" using treeInv_unique [OF inv _ d] by blast
  show "active h q" using q by (simp add: subtree_def)
qed

lemma own_max:
  assumes "treeInv h" "active h q" "y \<in> set (myIDs (cwms h q))" shows "y \<le> ownID h q"
  using ids_sorted [OF assms(1,2)] treeInvD(6) [OF assms(1,2)] assms(3)
  by (metis order.strict_implies_order order_refl set_ConsD sorted_wrt.simps(2))

text \<open>The subtrees of two dependents of one map are disjoint, and neither contains the map.\<close>

lemma child_facts:
  assumes inv: "treeInv h" and i: "active h i" and d: "Some d \<in> set (dependents (cwms h i))"
  shows "active h d" "cwParent (cwms h d) = Some i" "i < d" "d < cwmCount h" "myIDs (cwms h d) = ownID h d # myIDs (cwms h i)"
    "ownID h i < ownID h d" "i \<notin> subtree h d"
proof -
  show a: "active h d" and p: "cwParent (cwms h d) = Some i" using treeInvD(5) [OF inv i] d by (auto simp: depsOk_def)
  then have "parentOk h d" using treeInvD(4) [OF inv] by blast
  then show "i < d" and o: "ownID h i < ownID h d" and "myIDs (cwms h d) = ownID h d # myIDs (cwms h i)"
    using p treeInvD(6) [OF inv a] by (auto simp: parentOk_def)
  show "d < cwmCount h" using a by (simp add: active_def)
  show "i \<notin> subtree h d" using own_max [OF inv i, of "ownID h d"] o by (auto simp: subtree_def)
qed

lemma subtrees_disjoint:
  assumes inv: "treeInv h" and i: "active h i" and d: "Some d \<in> set (dependents (cwms h i))" "Some e \<in> set (dependents (cwms h i))"
    and q: "q \<in> subtree h d" "q \<in> subtree h e"
  shows "d = e"
proof -
  note fd = child_facts [OF inv i d(1)] and fe = child_facts [OF inv i d(2)]
  obtain p1 p2 where "myIDs (cwms h q) = p1 @ ownID h d # myIDs (cwms h i)" "myIDs (cwms h q) = p2 @ ownID h e # myIDs (cwms h i)"
    using subtree_ids(1) [OF inv fd(1) q(1)] subtree_ids(1) [OF inv fe(1) q(2)] fd(5) fe(5) by metis
  then have "(p1 @ [ownID h d]) @ myIDs (cwms h i) = (p2 @ [ownID h e]) @ myIDs (cwms h i)" by simp
  then have "p1 @ [ownID h d] = p2 @ [ownID h e]" by (simp only: append_same_eq)
  then have "ownID h d = ownID h e" by simp
  then show ?thesis using treeInv_unique [OF inv fd(1) fe(1)] by simp
qed

lemma subtree_below:
  assumes inv: "treeInv h" and d: "active h d"
  shows "subtree h d = insert d (below h d 0)" "d \<notin> below h d 0"
proof -
  show "d \<notin> below h d 0" using child_facts(7) [OF inv d] by (auto simp: below_def)
  have "q \<in> below h d 0" if q: "q \<in> subtree h d" "q \<noteq> d" for q
  proof -
    have "active h q" "ownID h d \<in> set (myIDs (cwms h q))" using q by (simp_all add: subtree_def)
    from ids_owner [OF inv this] obtain p e where "active h p" "ownID h p = ownID h d" "p = q \<or> active h e \<and> cwParent (cwms h e) = Some p \<and> ownID h e \<in> set (myIDs (cwms h q))"
      by blast
    then have e: "active h e" "cwParent (cwms h e) = Some d" "ownID h e \<in> set (myIDs (cwms h q))"
      using treeInv_unique [OF inv _ d] q(2) by auto
    then have "Some e \<in> set (dependents (cwms h d))" using treeInvD(4) [OF inv e(1)] by (auto simp: parentOk_def)
    then show ?thesis using e(3) q(1) by (auto simp: below_def subtree_def)
  qed
  moreover have "q \<in> subtree h d" if q: "Some e \<in> set (dependents (cwms h d))" "q \<in> subtree h e" for e q
  proof -
    note f = child_facts [OF inv d q(1)]
    obtain pre where "myIDs (cwms h q) = pre @ ownID h e # myIDs (cwms h d)" using subtree_ids(1) [OF inv f(1) q(2)] f(5) by metis
    moreover have "ownID h d \<in> set (myIDs (cwms h d))" using treeInvD(6) [OF inv d] by (metis list.set_intros(1))
    ultimately show ?thesis using subtree_ids(2) [OF inv f(1) q(2)] by (simp add: subtree_def)
  qed
  ultimately show "subtree h d = insert d (below h d 0)" using subtree_self [OF inv d] unfolding below_def drop_0 by blast
qed

definition dropIDs :: "int \<Rightarrow> nat set \<Rightarrow> ('k, 'v) cwmHeap \<Rightarrow> ('k, 'v) cwmHeap" where
  "dropIDs x S g = g\<lparr>cwms := (\<lambda>q. if q \<in> S then (cwms g q)\<lparr>myIDs := filter (\<lambda>y. y \<noteq> x) (myIDs (cwms g q))\<rparr> else cwms g q)\<rparr>"

lemma dropIDs_cwms [simp]:
  "cwms (dropIDs x S g) q = (if q \<in> S then (cwms g q)\<lparr>myIDs := filter (\<lambda>y. y \<noteq> x) (myIDs (cwms g q))\<rparr> else cwms g q)"
  by (simp add: dropIDs_def)

lemma dropIDs_fields [simp]:
  "nxtID (dropIDs x S g) = nxtID g" "cwmCount (dropIDs x S g) = cwmCount g" "versions (dropIDs x S g) k = versions g k"
  by (simp_all add: dropIDs_def versions_def)

lemma dropIDs_empty [simp]: "dropIDs x {} g = g"
  by (simp add: dropIDs_def)

lemma dropIDs_dropIDs: "dropIDs x S (dropIDs x T g) = dropIDs x (S \<union> T) g"
  by (rule cwmHeap.equality) (auto simp: dropIDs_def intro!: ext)

lemma setIDs_dropIDs: "setIDs d (filter (\<lambda>y. y \<noteq> x) (myIDs (cwms g d))) g = dropIDs x {d} g"
  by (rule cwmHeap.equality) (auto simp: dropIDs_def setIDs_def setCwm_def intro!: ext)

lemma removeIdFrom_eq:
  assumes "distinct ids" "x \<in> set ids"
  shows "removeIdFrom x ids = Inr (filter (\<lambda>y. y \<noteq> x) ids)"
proof -
  have "filter (\<lambda>y. y \<noteq> x) ids = remove1 x ids" using assms(1) by (simp add: distinct_remove1_removeAll removeAll_filter_not_eq) metis
  then have "length (filter (\<lambda>y. y \<noteq> x) ids) = length ids - 1" using assms(2) by (simp add: length_remove1)
  then show ?thesis using assms(2) by (auto simp: removeIdFrom_def Let_def)
qed

lemma recRemoveDeps_spec:
  assumes inv: "treeInv h"
  shows "active h i \<Longrightarrow> x \<in> set (myIDs (cwms h i)) \<Longrightarrow> \<forall>q. dependents (cwms g q) = dependents (cwms h q) \<Longrightarrow>
    \<forall>q \<in> below h i j. myIDs (cwms g q) = myIDs (cwms h q) \<Longrightarrow> recRemoveDeps i j x g = Some (Inr (dropIDs x (below h i j) g))"
proof (induction "(cwmCount h - i, length (dependents (cwms h i)) - j)" arbitrary: i j g rule: wf_induct_rule [OF wf_lex_prod [OF wf_less_than wf_less_than]])
  case (1 i j g)
  note act = 1(2) and x = 1(3) and deps = 1(4) and ids = 1(5)
  let ?ds = "dependents (cwms h i)"
  show ?case
  proof (cases "length ?ds \<le> j")
    case True
    then have "below h i j = {}" by (simp add: below_def)
    then show ?thesis using True deps by (subst recRemoveDeps.simps) simp
  next
    case False
    then have dr: "drop j ?ds = ?ds ! j # drop (j + 1) ?ds" by (simp add: Cons_nth_drop_Suc)
    show ?thesis
    proof (cases "?ds ! j")
      case None
      then have b: "below h i j = below h i (j + 1)" by (auto simp: below_def dr)
      have "recRemoveDeps i (j + 1) x g = Some (Inr (dropIDs x (below h i (j + 1)) g))"
        by (rule 1(1) [OF _ act x deps]) (use False ids b in auto)
      then show ?thesis using False None deps b by (subst recRemoveDeps.simps) simp
    next
      case (Some d)
      then have d: "Some d \<in> set ?ds" using False by (metis nth_mem not_le)
      note f = child_facts [OF inv act d]
      have b: "below h i j = subtree h d \<union> below h i (j + 1)" using Some by (auto simp: below_def dr)
      have dj: "Some d \<notin> set (drop (j + 1) ?ds)"
      proof -
        have "distinct (filter (\<lambda>d. d \<noteq> None) (take j ?ds @ Some d # drop (j + 1) ?ds))"
          using treeInvD(5) [OF inv act] dr Some by (metis append_take_drop_id depsOk_def)
        then show ?thesis by auto
      qed
      have disj: "subtree h d \<inter> below h i (j + 1) = {}"
        using subtrees_disjoint [OF inv act d] dj by (fastforce simp: below_def dest: in_set_dropD)
      have sub: "subtree h d = insert d (below h d 0)" "d \<notin> below h d 0" using subtree_below [OF inv f(1)] by blast+
      have idd: "myIDs (cwms g d) = myIDs (cwms h d)" using ids b sub(1) by blast
      have "distinct (myIDs (cwms h d))"
        using ids_sorted [OF inv f(1)] strict_sorted_iff [of "rev (myIDs (cwms h d))"] by (simp add: sorted_wrt_rev)
      then have rm: "removeIdFrom x (myIDs (cwms g d)) = Inr (filter (\<lambda>y. y \<noteq> x) (myIDs (cwms g d)))"
        using removeIdFrom_eq [of "myIDs (cwms h d)" x] f(5) x idd by simp
      let ?g1 = "dropIDs x {d} g" and ?g2 = "dropIDs x (subtree h d) g"
      have "recRemoveDeps d 0 x ?g1 = Some (Inr (dropIDs x (below h d 0) ?g1))"
        by (rule 1(1) [OF _ f(1)]) (use f(3,4,5) x deps ids b sub in auto)
      then have r1: "recRemoveDeps d 0 x ?g1 = Some (Inr ?g2)" using sub(1) by (simp add: dropIDs_dropIDs)
      have "recRemoveDeps i (j + 1) x ?g2 = Some (Inr (dropIDs x (below h i (j + 1)) ?g2))"
        by (rule 1(1) [OF _ act x]) (use False deps ids b disj in auto)
      then have r2: "recRemoveDeps i (j + 1) x ?g2 = Some (Inr (dropIDs x (below h i j) g))"
        using b by (simp add: dropIDs_dropIDs Un_commute)
      show ?thesis using False Some deps rm r1 r2 by (subst recRemoveDeps.simps) (simp add: setIDs_dropIDs)
    qed
  qed
qed

lemma detachAll_eq:
  "\<forall>d. Some d \<in> set ds \<longrightarrow> cwDone (cwms h d) \<noteq> doneKeep \<Longrightarrow>
   detachAll ds h = Inr (h\<lparr>cwms := (\<lambda>q. if Some q \<in> set ds then (cwms h q)\<lparr>cwParent := None\<rparr> else cwms h q)\<rparr>)"
proof (induction ds h rule: detachAll.induct)
  case (3 d ds h)
  then show ?case by (auto simp: setCwm_def intro!: cwmHeap.equality ext)
qed simp_all

text \<open>No key that the map deleted has a committed version.\<close>

definition noLostDelete :: "nat \<Rightarrow> ('k, 'v) cwmHeap \<Rightarrow> bool" where
  "noLostDelete i h \<longleftrightarrow> (\<forall>k it. versionOf (versions h k) (ownID h i) = Some it \<and> mi_deleted it \<longrightarrow> versionOf (versions h k) committed = None)"

text \<open>All the work of \<^verbatim>\<open>DoneKeep\<close> at once.\<close>

definition keptCwms :: "nat \<Rightarrow> int \<Rightarrow> ('k, 'v) cwmHeap \<Rightarrow> nat \<Rightarrow> 'k CopyWriteMap" where
  "keptCwms i x h q =
     (if q = i then (cwms h i)\<lparr>cwDone := doneKeep, myIDs := filter (\<lambda>y. y \<noteq> x) (myIDs (cwms h i)),
        dependents := map (\<lambda>_. None) (dependents (cwms h i))\<rparr>
      else
        (let c = (if q \<in> below h i 0 then (cwms h q)\<lparr>myIDs := filter (\<lambda>y. y \<noteq> x) (myIDs (cwms h q))\<rparr> else cwms h q)
         in if Some q \<in> set (dependents (cwms h i)) then c\<lparr>cwParent := None\<rparr> else c))"

lemma DoneKeep_runs:
  assumes inv: "cwInv h" and i: "active h i" "cwParent (cwms h i) = None"
  obtains h' where "DoneKeep i h = Some (Inr h')" "nxtID h' = nxtID h" "cwmCount h' = cwmCount h"
    "\<And>k. versions h' k = commitList (ownID h i) (versions h k)" "cwms h' = keptCwms i (ownID h i) h"
proof -
  let ?x = "ownID h i"
  have tr: "treeInv h" and it: "itemsInv h" using inv by (simp_all add: cwInv_def)
  note t = treeInvD [OF tr i(1)]
  have idi: "myIDs (cwms h i) = [?x]" using t(4,6) i(2) by (simp add: parentOk_def)
  let ?h1 = "setCwm i (\<lambda>c. c\<lparr>cwDone := doneKeep\<rparr>) h"
  have "distinct (myItems (cwms h i))" "\<And>k. wfVersions (nxtID h) (versions ?h1 k)" "0 \<le> nxtID h"
    "\<And>k. k \<in> set (myItems (cwms h i)) \<longleftrightarrow> ?x \<in> mi_id ` set (versions ?h1 k)"
    using it tr i(1) by (auto simp: itemsInv_def treeInv_def)
  note ks = this
  from commitItems_eq [OF ks(1-3), of ?x] ks(4) t(2) obtain h2 where
    h2: "commitItems ?x (myItems (cwms h i)) ?h1 = Inr h2" "cwms h2 = cwms ?h1" "nxtID h2 = nxtID h" "cwmCount h2 = cwmCount h"
    and v: "\<And>k. versions h2 k = (if k \<in> set (myItems (cwms h i)) then commitList ?x (versions h k) else versions h k)"
    by auto
  have v2: "versions h2 k = commitList ?x (versions h k)" for k
  proof (cases "k \<in> set (myItems (cwms h i))")
    case False
    then have "versionOf (versions h k) ?x = None" using ks(4) by (simp add: versionOf_eq_None)
    then show ?thesis using v False by (simp add: commitList_def)
  qed (simp add: v)
  have ci: "myIDs (cwms h2 i) = [?x]" using idi by (simp add: h2(2))
  let ?h2 = "dropIDs ?x {i} h2" and ?h3 = "dropIDs ?x (insert i (below h i 0)) h2"
  have nb: "i \<notin> below h i 0" using subtree_below(2) [OF tr i(1)] .
  have "recRemoveDeps i 0 ?x ?h2 = Some (Inr (dropIDs ?x (below h i 0) ?h2))"
    by (rule recRemoveDeps_spec [OF tr i(1)]) (use idi nb in \<open>auto simp: h2(2)\<close>)
  then have r3: "recRemoveID i ?x h2 = Some (Inr ?h3)"
    using removeIdFrom_eq [of "[?x]" ?x] setIDs_dropIDs [of i ?x h2] ci by (simp add: recRemoveID_def dropIDs_dropIDs)
  have dk: "\<forall>d. Some d \<in> set (dependents (cwms h i)) \<longrightarrow> cwDone (cwms ?h3 d) \<noteq> doneKeep"
  proof (intro allI impI)
    fix d
    assume d: "Some d \<in> set (dependents (cwms h i))"
    have "active h d" "i \<noteq> d" using child_facts(1,3) [OF tr i(1) d] by auto
    then show "cwDone (cwms ?h3 d) \<noteq> doneKeep" by (auto simp: h2(2) active_def)
  qed
  let ?ds = "dependents (cwms h i)"
  let ?h4 = "?h3\<lparr>cwms := (\<lambda>q. if Some q \<in> set ?ds then (cwms ?h3 q)\<lparr>cwParent := None\<rparr> else cwms ?h3 q)\<rparr>"
  have r4: "detachAll (dependents (cwms ?h3 i)) ?h3 = Inr ?h4" using detachAll_eq [OF dk] by (simp add: h2(2))
  let ?h5 = "setCwm i (\<lambda>c. c\<lparr>dependents := map (\<lambda>_. None) (dependents c)\<rparr>) ?h4"
  have "DoneKeep i h = Some (Inr ?h5)"
    using i(2) idi h2(1) ci r3 r4 by (simp add: DoneKeep_def)
  moreover have "Some i \<notin> set ?ds" using child_facts(3) [OF tr i(1)] by blast
  then have "cwms ?h5 = keptCwms i ?x h" using nb by (auto simp: keptCwms_def h2(2) fun_eq_iff)
  moreover have "versions ?h5 k = commitList ?x (versions h k)" for k using v2 by (simp add: versions_def dropIDs_def setCwm_def)
  moreover have "nxtID ?h5 = nxtID h" "cwmCount ?h5 = cwmCount h" by (simp_all add: h2(3,4))
  ultimately show thesis using that by blast
qed

lemma kept_invariant:
  assumes inv: "cwInv h" and i: "active h i" "cwParent (cwms h i) = None" and all: "\<forall>q. active h q \<longrightarrow> q \<in> subtree h i"
    and h': "nxtID h' = nxtID h" "cwmCount h' = cwmCount h" "\<And>k. versions h' k = commitList (ownID h i) (versions h k)" "cwms h' = keptCwms i (ownID h i) h"
  shows "cwInv h'" "\<And>q. active h q \<Longrightarrow> q \<noteq> i \<Longrightarrow> active h' q \<and> myIDs (cwms h q) = myIDs (cwms h' q) @ [ownID h i]"
proof -
  let ?x = "ownID h i"
  have tr: "treeInv h" and it: "itemsInv h" using inv by (simp_all add: cwInv_def)
  note t = treeInvD [OF tr i(1)]
  have idi: "myIDs (cwms h i) = [?x]" using t(4,6) i(2) by (simp add: parentOk_def)
  have bl: "q \<in> below h i 0" if "active h q" "q \<noteq> i" for q using all that subtree_below(1) [OF tr i(1)] by blast
  have act: "active h' q \<longleftrightarrow> active h q \<and> q \<noteq> i" for q by (auto simp: active_def h' keptCwms_def Let_def)
  have ids: "\<exists>pre. myIDs (cwms h q) = ownID h q # pre @ [?x] \<and> myIDs (cwms h' q) = ownID h q # pre" if q: "active h q" "q \<noteq> i" for q
  proof -
    obtain pre where pre: "myIDs (cwms h q) = pre @ [?x]" using subtree_ids(1) [OF tr i(1)] all q(1) idi by metis
    have "ownID h q \<noteq> ?x" using treeInv_unique [OF tr q(1) i(1)] q(2) by blast
    then obtain pre' where pre': "pre = ownID h q # pre'" using treeInvD(6) [OF tr q(1)] pre by (cases pre) auto
    have "?x \<notin> set pre" using ids_sorted [OF tr q(1)] pre by (auto simp: sorted_wrt_append)
    then have "filter (\<lambda>y. y \<noteq> ?x) pre = pre" by (auto simp: filter_id_conv)
    then have "myIDs (cwms h' q) = pre" using bl [OF q] q(2) pre by (simp add: h' keptCwms_def Let_def)
    then show ?thesis using pre pre' by simp
  qed
  have own: "ownID h' q = ownID h q" if "active h q" "q \<noteq> i" for q using ids [OF that] by (auto simp: ownID_def)
  have c: "copied (cwms h' q) = copied (cwms h q)" "dependents (cwms h' q) = dependents (cwms h q)" "myItems (cwms h' q) = myItems (cwms h q)"
    "cwParent (cwms h' q) = (if cwParent (cwms h q) = Some i then None else cwParent (cwms h q))" if q: "active h q" "q \<noteq> i" for q
  proof -
    have "Some q \<in> set (dependents (cwms h i)) \<longleftrightarrow> cwParent (cwms h q) = Some i"
      using child_facts(2) [OF tr i(1)] treeInvD(4) [OF tr q(1)] by (auto simp: parentOk_def)
    then show "cwParent (cwms h' q) = (if cwParent (cwms h q) = Some i then None else cwParent (cwms h q))"
      using q(2) by (auto simp: h' keptCwms_def Let_def)
  qed (use q(2) in \<open>auto simp: h' keptCwms_def Let_def\<close>)
  have par: "parentOk h' q" if q: "active h q" "q \<noteq> i" for q
  proof (cases "cwParent (cwms h q)")
    case None
    then have "tl (myIDs (cwms h q)) = []" using treeInvD(4) [OF tr q(1)] by (simp add: parentOk_def)
    then show ?thesis using ids [OF q] by auto
  next
    case (Some p)
    then have p: "active h p" "p < q" "copied (cwms h p)" "tl (myIDs (cwms h q)) = myIDs (cwms h p)" "ownID h p < ownID h q" "Some q \<in> set (dependents (cwms h p))"
      using treeInvD(4) [OF tr q(1)] by (simp_all add: parentOk_def)
    show ?thesis
    proof (cases "p = i")
      case True
      then show ?thesis using ids [OF q] Some c(4) [OF q] p(4) idi by (auto simp: parentOk_def)
    next
      case False
      have "tl (myIDs (cwms h' q)) = myIDs (cwms h' p)" using ids [OF q] ids [OF p(1) False] p(4) by auto
      moreover have "active h' p" using act p(1) False by simp
      moreover have "cwParent (cwms h' q) = Some p" using c(4) [OF q] Some False by simp
      ultimately show ?thesis
        using p(2,3,5,6) c(1,2) [OF p(1) False] own [OF q] own [OF p(1) False] by (simp add: parentOk_def)
    qed
  qed
  have dep: "depsOk h' q" if q: "active h q" "q \<noteq> i" for q
  proof -
    have "d \<noteq> i \<and> active h d \<and> cwParent (cwms h' d) = Some q" if "Some d \<in> set (dependents (cwms h q))" for d
    proof -
      have d: "active h d" "cwParent (cwms h d) = Some q" using child_facts(1,2) [OF tr q(1) that] by blast+
      then have "d \<noteq> i" using i(2) by auto
      then show ?thesis using d c(4) [OF d(1)] q(2) by simp
    qed
    then show ?thesis using treeInvD(5) [OF tr q(1)] c(2) [OF q] act by (simp add: depsOk_def)
  qed
  have kept: "myIDs (cwms h' p) = []" if p: "p < cwmCount h'" "cwDone (cwms h' p) = doneKeep" for p
  proof (cases "p = i")
    case False
    then have "cwDone (cwms h p) = doneKeep" "p < cwmCount h" using p by (auto simp: h' keptCwms_def Let_def split: if_splits)
    then have "myIDs (cwms h p) = []" using tr by (simp add: treeInv_def)
    then show ?thesis using False by (simp add: h' keptCwms_def Let_def)
  qed (simp add: h' keptCwms_def idi)
  have base: "myIDs (cwms h' q) \<noteq> [] \<and> 0 \<le> ownID h' q \<and> ownID h' q \<le> nxtID h' \<and> parentOk h' q \<and> depsOk h' q" if "active h' q" for q
  proof -
    have q: "active h q" "q \<noteq> i" using that act by simp_all
    show ?thesis using ids [OF q] own [OF q] treeInvD(2,3) [OF tr q(1)] par [OF q] dep [OF q] h'(1) by auto
  qed
  have uniq: "p = q" if "active h' p" "active h' q" "ownID h' p = ownID h' q" for p q
    using that act own treeInv_unique [OF tr, of p q] by simp
  have n: "0 \<le> nxtID h" using tr by (simp add: treeInv_def)
  then have "treeInv h'" using base uniq kept h'(1) by (simp add: treeInv_def)
  moreover have "itemsInv h'"
    unfolding itemsInv_def
  proof (intro conjI allI impI)
    show "wfVersions (nxtID h') (versions h' k)" for k using it n by (simp add: h' commitList_wf itemsInv_def)
    fix q
    assume "active h' q"
    then have q: "active h q" "q \<noteq> i" using act by simp_all
    show "distinct (myItems (cwms h' q))" using it q c(3) [OF q] by (simp add: itemsInv_def)
    have "ownID h q \<noteq> ?x" "ownID h q \<noteq> committed" using treeInv_unique [OF tr q(1) i(1)] q(2) treeInvD(2) [OF tr q(1)] by auto
    then have "ownID h q \<in> mi_id ` set (commitList ?x l) \<longleftrightarrow> ownID h q \<in> mi_id ` set l" for l :: "'b mapItem list"
      using commitList_versionOf [OF t(2), of "ownID h q" l] versionOf_eq_None [of l "ownID h q"] versionOf_eq_None [of "commitList ?x l" "ownID h q"] by auto
    then show "k \<in> set (myItems (cwms h' q)) \<longleftrightarrow> ownID h' q \<in> mi_id ` set (versions h' k)" for k
      using it q c(3) [OF q] own [OF q] by (simp add: itemsInv_def h'(3))
  qed
  ultimately show "cwInv h'" by (simp add: cwInv_def)
  show "active h' q \<and> myIDs (cwms h q) = myIDs (cwms h' q) @ [?x]" if "active h q" "q \<noteq> i" for q
    using ids [OF that] act [of q] that by (elim exE conjE) simp
qed

section \<open>Main results\<close>

text \<open>A map that can be written: it was neither ended nor copied.\<close>

definition writable :: "nat \<Rightarrow> ('k, 'v) cwmHeap \<Rightarrow> bool" where
  "writable i h \<longleftrightarrow> cwInv h \<and> i < cwmCount h \<and> cwDone (cwms h i) = notDone \<and> \<not> copied (cwms h i)"

text \<open>Maps that are not ended, except those in \<open>S\<close>, read as before.\<close>

definition readsKept :: "nat set \<Rightarrow> ('k, 'v) cwmHeap \<Rightarrow> ('k, 'v) cwmHeap \<Rightarrow> bool" where
  "readsKept S h h' \<longleftrightarrow>
     (\<forall>q k. q < cwmCount h \<longrightarrow> cwDone (cwms h q) = notDone \<longrightarrow> q \<notin> S \<longrightarrow> cwDone (cwms h' q) = notDone \<and> Read q k h' = Read q k h)"

lemma readsKeptI:
  assumes "cwInv h" "cwInv h'" "cwmCount h \<le> cwmCount h'"
    and "\<And>q. active h q \<Longrightarrow> cwDone (cwms h q) = notDone \<Longrightarrow> q \<notin> S \<Longrightarrow> cwDone (cwms h' q) = notDone \<and> view h' q = view h q"
  shows "readsKept S h h'"
  unfolding readsKept_def
proof (intro allI impI)
  fix q k
  assume q: "q < cwmCount h" "cwDone (cwms h q) = notDone" "q \<notin> S"
  then have "active h q" by (simp add: active_def)
  then have v: "cwDone (cwms h' q) = notDone" "view h' q = view h q" using assms(4) [of q] q by simp_all
  have "readable h q" "readable h' q" using q v assms(3) by (simp_all add: readable_def)
  then show "cwDone (cwms h' q) = notDone \<and> Read q k h' = Read q k h" using Read_eq [OF assms(1)] Read_eq [OF assms(2)] q(2) v by simp
qed

lemma Read_writable: "writable i h \<Longrightarrow> Read i k h = Inr (view h i k, view h i k \<noteq> None)"
  by (rule Read_eq) (auto simp: writable_def readable_def)

lemma internalWrite_writable:
  assumes w: "writable i h" and del: "del \<longleftrightarrow> v = None"
  shows "\<exists>h'. internalWrite i key v del h = Inr h' \<and> writable i h' \<and> view h' i = (view h i)(key := v) \<and> readsKept {i} h h' \<and>
    (\<forall>k. Read i k h' = (if k = key then Inr (v, v \<noteq> None) else Read i k h)) \<and> cwmCount h' = cwmCount h"
proof -
  have i: "cwInv h" "active h i" "\<not> copied (cwms h i)" using w by (auto simp: writable_def active_def)
  from internalWrite_spec [OF i del, of key] obtain h' where h': "internalWrite i key v del h = Inr h'" "cwInv h'"
    "view h' i = (view h i)(key := v)" "\<And>q. active h q \<or> myIDs (cwms h q) = [] \<Longrightarrow> q \<noteq> i \<Longrightarrow> view h' q = view h q"
    "\<And>p. cwDone (cwms h' p) = cwDone (cwms h p) \<and> copied (cwms h' p) = copied (cwms h p) \<and> cwParent (cwms h' p) = cwParent (cwms h p)"
    "cwmCount h' = cwmCount h" by metis
  have w': "writable i h'" using w h'(2,5,6) by (simp add: writable_def)
  have "readsKept {i} h h'" by (rule readsKeptI) (use i(1) h' in auto)
  moreover have "Read i k h' = (if k = key then Inr (v, v \<noteq> None) else Read i k h)" for k
    using Read_writable [OF w, of k] Read_writable [OF w', of k] h'(3) by simp
  ultimately show ?thesis using h'(1,3,6) w' by blast
qed

text \<open>A family: map 0 holds two keys, map 1 is its copy and overwrites one, map 2 is a copy of map 1 and deletes the other.\<close>

definition cwmDemoOps :: "(nat, nat) cwmHeap res" where
  "cwmDemoOps = bind_res (Write 0 1 10 NewCopyWriteMap) (\<lambda>h1. bind_res (Write 0 2 20 h1) (\<lambda>h2.
     bind_res (Copy 0 h2) (\<lambda>(_, h3). bind_res (Write 1 1 11 h3) (\<lambda>h4. bind_res (Copy 1 h4) (\<lambda>(_, h5). Delete 2 2 h5)))))"

definition cwmDemo :: "(nat, nat) cwmHeap" where
  "cwmDemo = (case cwmDemoOps of Inl _ \<Rightarrow> NewCopyWriteMap | Inr h \<Rightarrow> h)"

lemma writable_New: "writable 0 NewCopyWriteMap"
  by (simp add: writable_def) (simp add: NewCopyWriteMap_def emptyCwm_def)

lemma Copy_writable:
  assumes "cwInv h" "i < cwmCount h" "cwDone (cwms h i) \<in> {notDone, doneKeep}"
  shows "\<exists>h'. Copy i h = Inr (cwmCount h, h') \<and> writable (cwmCount h) h' \<and> readsKept {} h h' \<and> view h' (cwmCount h) = view h i \<and>
    cwmCount h' = cwmCount h + 1"
proof -
  have "readable h i" using assms(2,3) by (simp add: readable_def)
  from Copy_spec [OF assms(1) this] obtain h' where h': "Copy i h = Inr (cwmCount h, h')" "cwInv h'" "view h' (cwmCount h) = view h i"
    "\<And>q. active h q \<or> readable h q \<Longrightarrow> view h' q = view h q \<and> cwDone (cwms h' q) = cwDone (cwms h q)"
    "cwDone (cwms h' (cwmCount h)) = notDone" "\<not> copied (cwms h' (cwmCount h))" "cwmCount h' = cwmCount h + 1" by metis
  have "readsKept {} h h'" by (rule readsKeptI) (use assms(1) h' in auto)
  then show ?thesis using h' by (simp add: writable_def)
qed

lemma cwmDemo_writable: "writable 2 cwmDemo" "cwmDemoOps = Inr cwmDemo" "cwmCount cwmDemo = 3"
proof -
  have wr: "\<exists>h'. Write i k v h = Inr h' \<and> writable i h' \<and> cwmCount h' = cwmCount h" if "writable i h" for i k v and h :: "(nat, nat) cwmHeap"
    using internalWrite_writable [OF that, of False "Some v" k] that by (auto simp: Write_def writable_def)
  have cp: "\<exists>h'. Copy i h = Inr (cwmCount h, h') \<and> writable (cwmCount h) h' \<and> cwmCount h' = cwmCount h + 1" if "writable i h" for i and h :: "(nat, nat) cwmHeap"
    using Copy_writable [of h i] that by (auto simp: writable_def)
  have "cwmCount NewCopyWriteMap = 1" by (simp add: NewCopyWriteMap_def)
  then obtain h1 :: "(nat, nat) cwmHeap" where h1: "Write 0 1 10 NewCopyWriteMap = Inr h1" "writable 0 h1" "cwmCount h1 = 1"
    using wr [OF writable_New, of 1 10] by metis
  obtain h2 where h2: "Write 0 2 20 h1 = Inr h2" "writable 0 h2" "cwmCount h2 = 1" using wr [OF h1(2)] h1(3) by metis
  obtain h3 where h3: "Copy 0 h2 = Inr (1, h3)" "writable 1 h3" "cwmCount h3 = 2" using cp [OF h2(2)] h2(3) by auto
  obtain h4 where h4: "Write 1 1 11 h3 = Inr h4" "writable 1 h4" "cwmCount h4 = 2" using wr [OF h3(2)] h3(3) by metis
  obtain h5 where h5: "Copy 1 h4 = Inr (2, h5)" "writable 2 h5" "cwmCount h5 = 3" using cp [OF h4(2)] h4(3) by auto
  obtain h6 where h6: "Delete 2 2 h5 = Inr h6" "writable 2 h6" "cwmCount h6 = 3"
    using internalWrite_writable [OF h5(2), of True None 2] h5(2,3) by (auto simp: Delete_def writable_def)
  have o: "cwmDemoOps = Inr h6" by (simp only: cwmDemoOps_def h1(1) h2(1) h3(1) h4(1) h5(1) h6(1) bind_res_simps prod.case)
  have "cwmDemo = h6" unfolding cwmDemo_def o by simp
  then show "writable 2 cwmDemo" "cwmDemoOps = Inr cwmDemo" "cwmCount cwmDemo = 3" using h6(2,3) o by simp_all
qed

lemma cwmDemo_reads:
  "map (\<lambda>i. map (\<lambda>k. Read i k cwmDemo) [1, 2]) [0, 1, 2] =
     [[Inr (Some 10, True), Inr (Some 20, True)], [Inr (Some 11, True), Inr (Some 20, True)], [Inr (Some 11, True), Inr (None, False)]]"
  by code_simp

text \<open>
  C27 (isolation of writes). A map of a well-formed heap that was neither ended nor copied accepts every write and every delete. Afterwards
  a read of the map gives the new value at the key and what it gave before at other keys, all other maps that are not ended read as
  before, and the heap is well-formed.
\<close>

theorem cwm_write_isolated:
  assumes "writable i h"
  shows "(\<exists>h'. Write i key v h = Inr h' \<and> writable i h' \<and> readsKept {i} h h' \<and>
      (\<forall>k. Read i k h' = (if k = key then Inr (Some v, True) else Read i k h))) \<and>
    (\<exists>h'. Delete i key h = Inr h' \<and> writable i h' \<and> readsKept {i} h h' \<and>
      (\<forall>k. Read i k h' = (if k = key then Inr (None, False) else Read i k h)))"
proof -
  have i: "\<not> copied (cwms h i)" "cwDone (cwms h i) = notDone" using assms by (simp_all add: writable_def)
  have "\<exists>h'. Write i key v h = Inr h' \<and> writable i h' \<and> readsKept {i} h h' \<and> (\<forall>k. Read i k h' = (if k = key then Inr (Some v, True) else Read i k h))"
    using internalWrite_writable [OF assms, of False "Some v" key] i by (auto simp: Write_def)
  moreover have "\<exists>h'. Delete i key h = Inr h' \<and> writable i h' \<and> readsKept {i} h h' \<and> (\<forall>k. Read i k h' = (if k = key then Inr (None, False) else Read i k h))"
    using internalWrite_writable [OF assms, of True None key] i by (auto simp: Delete_def)
  ultimately show ?thesis by blast
qed

theorem cwm_write_isolated_witness:
  "\<exists>h'. Write 2 2 22 cwmDemo = Inr h' \<and> Read 2 2 h' = Inr (Some 22, True) \<and> Read 1 2 h' = Inr (Some 20, True)"
proof -
  from cwm_write_isolated [OF cwmDemo_writable(1), of 2 22] obtain h' where h': "Write 2 2 22 cwmDemo = Inr h'" "readsKept {2} cwmDemo h'"
    "Read 2 2 h' = Inr (Some 22, True)" by auto
  have "cwDone (cwms cwmDemo 1) = notDone" by code_simp
  then have "Read 1 2 h' = Read 1 2 cwmDemo" using h'(2) cwmDemo_writable(3) by (simp add: readsKept_def)
  then show ?thesis using h' cwmDemo_reads by simp
qed

text \<open>
  A map that is not ended, or was committed, can be copied. The new map can be written, it starts with what the original
  holds, and every map that is not ended reads as before.
\<close>

lemma cwm_copy:
  assumes "cwInv h" "i < cwmCount h" "cwDone (cwms h i) \<in> {notDone, doneKeep}"
  shows "\<exists>h'. Copy i h = Inr (cwmCount h, h') \<and> writable (cwmCount h) h' \<and> readsKept {} h h' \<and>
    (\<forall>k. Read (cwmCount h) k h' = Inr (view h i k, view h i k \<noteq> None))"
proof -
  from Copy_writable [OF assms] obtain h' where h': "Copy i h = Inr (cwmCount h, h')" "writable (cwmCount h) h'" "readsKept {} h h'"
    "view h' (cwmCount h) = view h i" by blast
  moreover have "Read (cwmCount h) k h' = Inr (view h i k, view h i k \<noteq> None)" for k
    using Read_writable [OF h'(2), of k] h'(4) by simp
  ultimately show ?thesis by blast
qed

text \<open>
  C28 (discarding). Discarding a map that is not ended returns, whatever was copied from it and in whatever order maps are
  discarded; it does not panic, and all other maps that are not ended read as before, also those copied from the discarded one.
\<close>

theorem cwm_doneClear:
  assumes "cwInv h" "i < cwmCount h" "cwDone (cwms h i) = notDone"
  shows "\<exists>h'. DoneClear i h = Some (Inr h') \<and> cwInv h' \<and> readsKept {i} h h' \<and> (\<forall>k. panics (Read i k h'))"
proof -
  have i: "active h i" using assms(2,3) by (simp add: active_def)
  from DoneClear_spec [OF assms(1) i assms(3)] obtain h' where h': "DoneClear i h = Some (Inr h')" "cwInv h'"
    "\<And>q. readable h q \<Longrightarrow> q \<noteq> i \<Longrightarrow> readable h' q \<and> view h' q = view h q" "\<not> readable h' i"
    "cwmCount h' = cwmCount h" "\<And>q. cwDone (cwms h q) = notDone \<Longrightarrow> q \<noteq> i \<Longrightarrow> cwDone (cwms h' q) = notDone" by metis
  have "readsKept {i} h h'"
    by (rule readsKeptI [OF assms(1) h'(2)]) (use h'(3,5,6) in \<open>auto simp: readable_def active_def\<close>)
  moreover have "panics (Read i k h')" for k using h'(4,5) assms(2) by (simp add: Read_def readable_def)
  ultimately show ?thesis using h'(1,2) by blast
qed

theorem cwm_doneClear_witness: "\<exists>h'. DoneClear 1 cwmDemo = Some (Inr h') \<and> Read 2 1 h' = Inr (Some 11, True) \<and> Read 0 1 h' = Inr (Some 10, True)"
proof -
  have d: "cwDone (cwms cwmDemo 0) = notDone \<and> cwDone (cwms cwmDemo 1) = notDone \<and> cwDone (cwms cwmDemo 2) = notDone" by code_simp
  from cwm_doneClear [of cwmDemo 1] cwmDemo_writable d obtain h' where h': "DoneClear 1 cwmDemo = Some (Inr h')" "readsKept {1} cwmDemo h'"
    by (auto simp: writable_def)
  then have "Read 2 1 h' = Read 2 1 cwmDemo" "Read 0 1 h' = Read 0 1 cwmDemo" using cwmDemo_writable(3) d by (simp_all add: readsKept_def)
  then show ?thesis using h'(1) cwmDemo_reads by simp
qed

text \<open>
  C29 (committing). Let \<open>i\<close> be a map without a parent from which all other live maps were copied, directly or through other maps, and
  which deleted no key that has a committed value. Then committing \<open>i\<close> returns without a panic, every map that is not ended reads as
  before, and \<open>i\<close> holds what it held. Both conditions are needed: a live map that is not a copy of \<open>i\<close> sees what \<open>i\<close> committed
  (\<open>DoneKeep_changes_sibling\<close> below), and a deletion of a committed key is lost (\<open>DoneKeep_loses_delete\<close>).
\<close>

theorem cwm_doneKeep:
  assumes "cwInv h" "active h i" "cwParent (cwms h i) = None" "\<forall>q. active h q \<longrightarrow> q \<in> subtree h i" "noLostDelete i h"
  shows "\<exists>h'. DoneKeep i h = Some (Inr h') \<and> cwInv h' \<and> readsKept {i} h h' \<and> cwDone (cwms h' i) = doneKeep \<and> view h' i = view h i"
proof -
  have tr: "treeInv h" using assms(1) by (simp add: cwInv_def)
  let ?x = "ownID h i"
  have x: "0 \<le> ?x" using treeInvD(2) [OF tr assms(2)] .
  from DoneKeep_runs [OF assms(1-3)] obtain h' where h': "DoneKeep i h = Some (Inr h')" "nxtID h' = nxtID h" "cwmCount h' = cwmCount h"
    "\<And>k. versions h' k = commitList ?x (versions h k)" "cwms h' = keptCwms i ?x h" by metis
  note kept = kept_invariant [OF assms(1-4) h'(2-5)]
  have vc: "viewOf ys (versions h' k) = viewOf (ys @ [?x]) (versions h k)" if "\<forall>y \<in> set ys. 0 \<le> y \<and> y \<noteq> ?x" for ys k
    unfolding h'(4) by (rule viewOf_commit [OF x that]) (use assms(5) in \<open>auto simp: noLostDelete_def\<close>)
  have v: "view h' q = view h q" if q: "active h q" "q \<noteq> i" for q
  proof
    fix k
    have ids: "myIDs (cwms h q) = myIDs (cwms h' q) @ [?x]" using kept(2) [OF q] by simp
    then have "\<forall>y \<in> set (myIDs (cwms h' q)). 0 \<le> y \<and> y \<noteq> ?x"
      using ids_sorted [OF tr q(1)] by (auto simp: sorted_wrt_append)
    then show "view h' q k = view h q k" using vc ids by (simp add: view_def)
  qed
  have "myIDs (cwms h i) = [?x]" using treeInvD(4,6) [OF tr assms(2)] assms(3) by (simp add: parentOk_def)
  then have "view h' i = view h i" using vc [of "[]"] by (auto simp: view_def h'(5) keptCwms_def fun_eq_iff)
  moreover have "readsKept {i} h h'"
    by (rule readsKeptI) (use assms(1) kept v h'(3,5) in \<open>auto simp: keptCwms_def Let_def\<close>)
  ultimately show ?thesis using h'(1) kept(1) by (auto simp: h'(5) keptCwms_def)
qed

theorem cwm_doneKeep_witness:
  "\<exists>h'. DoneKeep 0 cwmDemo = Some (Inr h') \<and> Read 1 1 h' = Inr (Some 11, True) \<and> Read 2 1 h' = Inr (Some 11, True) \<and> Read 2 2 h' = Inr (None, False)"
proof -
  have d: "cwDone (cwms cwmDemo 0) = notDone \<and> cwDone (cwms cwmDemo 1) = notDone \<and> cwDone (cwms cwmDemo 2) = notDone" by code_simp
  have "\<forall>q \<in> {0, 1, 2}. ownID cwmDemo 0 \<in> set (myIDs (cwms cwmDemo q))" by code_simp
  moreover have "q \<in> {0, 1, 2}" if "active cwmDemo q" for q using that cwmDemo_writable(3) by (auto simp: active_def)
  ultimately have all: "\<forall>q. active cwmDemo q \<longrightarrow> q \<in> subtree cwmDemo 0" by (auto simp: subtree_def)
  have "\<forall>(k, l) \<in> set (theMap cwmDemo). committed \<notin> mi_id ` set l" by code_simp
  then have "noLostDelete 0 cwmDemo"
    by (auto simp: noLostDelete_def versions_def versionOf_eq_None split: option.splits dest!: map_of_SomeD)
  moreover have "cwParent (cwms cwmDemo 0) = None" by code_simp
  moreover have "active cwmDemo 0" using d cwmDemo_writable(3) by (simp add: active_def)
  ultimately obtain h' where h': "DoneKeep 0 cwmDemo = Some (Inr h')" "readsKept {0} cwmDemo h'"
    using cwm_doneKeep [of cwmDemo 0] all cwmDemo_writable(1) by (auto simp: writable_def)
  then have "Read 1 1 h' = Read 1 1 cwmDemo" "Read 2 1 h' = Read 2 1 cwmDemo" "Read 2 2 h' = Read 2 2 cwmDemo"
    using cwmDemo_writable(3) d by (simp_all add: readsKept_def)
  then show ?thesis using h'(1) cwmDemo_reads by simp
qed

text \<open>
  The condition on deletions is needed. A key is committed, deleted in a copy and the copy is committed: a copy of that copy holds the old value again. The
  test \<^verbatim>\<open>TestCopyWriteMap\<close> of \<^verbatim>\<open>copywritemap_test.go\<close> expects this for its key 1.
\<close>

definition lostDelete :: "(nat, nat) cwmHeap res option" where
  "lostDelete =
     (case bind_res (Write 0 1 10 NewCopyWriteMap) (Copy 0) of Inl e \<Rightarrow> Some (Inl e)
      | Inr (_, h1) \<Rightarrow> Option.bind (DoneKeep 0 h1) (\<lambda>r.
          case bind_res r (Delete 1 1) of Inl e \<Rightarrow> Some (Inl e) | Inr h2 \<Rightarrow> DoneKeep 1 h2))"

declare recRemoveDeps.simps [code] doneClearRec.simps [code] climb.simps [code]

lemma DoneKeep_loses_delete:
  "map_option (\<lambda>r. bind_res r (\<lambda>h. bind_res (Copy 1 h) (\<lambda>(c, h'). Read c 1 h'))) lostDelete = Some (Inr (Some 10, True))"
  by code_simp

text \<open>
  Two maps copied from a committed map: committing one of them makes its value of a new key visible in the other, which is still live.
\<close>

definition siblings :: "(nat, nat) cwmHeap res option" where
  "siblings =
     (case bind_res (Copy 0 NewCopyWriteMap) (\<lambda>(_, h). Copy 0 h) of Inl e \<Rightarrow> Some (Inl e)
      | Inr (_, h1) \<Rightarrow> Option.bind (DoneKeep 0 h1) (\<lambda>r. Some (bind_res r (Write 1 7 4))))"

lemma DoneKeep_changes_sibling:
  "map_option (\<lambda>r. bind_res r (Read 2 7)) siblings = Some (Inr (None, False)) \<and>
   Option.bind siblings (\<lambda>r. case r of Inl e \<Rightarrow> None | Inr h \<Rightarrow> map_option (\<lambda>r'. bind_res r' (Read 2 7)) (DoneKeep 1 h)) = Some (Inr (Some 4, True))"
  by code_simp

text \<open>A committed map may be read, but panics on a key that only a copy of it has written.\<close>

lemma Read_after_DoneKeep_panics:
  "map_option (\<lambda>r. bind_res r (\<lambda>h. bind_res (Write 1 5 50 h) (\<lambda>h'. Read 0 5 h')))
     (case Copy 0 (NewCopyWriteMap :: (nat, nat) cwmHeap) of Inr (_, h) \<Rightarrow> DoneKeep 0 h | Inl e \<Rightarrow> None) = Some (Inl (Panic ''index out of range''))"
  by code_simp

text \<open>After a new key was deleted and the map committed, the key is present with a nil list, on which \<^verbatim>\<open>Range\<close> panics.\<close>

lemma Range_nil_panics:
  "map_option (\<lambda>r. bind_res r (\<lambda>h. bind_res (Copy 0 h) (\<lambda>(c, h'). Range c h')))
     (case bind_res (Write 0 1 10 (NewCopyWriteMap :: (nat, nat) cwmHeap)) (Delete 0 1) of Inr h \<Rightarrow> DoneKeep 0 h | Inl e \<Rightarrow> None) =
   Some (Inl (Panic ''nil pointer''))"
  by code_simp

end
