(* ===== verification/Currency_Ledger.thy ===== *)
theory Currency_Ledger
  imports Currency CopyWriteMap_Views
begin

text \<open>
  What the account table promises. The table is abstracted to a \<open>ledger\<close> that gives every key a transaction counter and a
  balance; the locale \<open>account_store\<close> states what the currency relies on of the map below it, and is interpreted on the
  versioned map of \<^verbatim>\<open>copywritemap.go\<close>. Validation, consumption and the processing of blocks are related to functions on ledgers.
\<close>

section \<open>Ledgers\<close>

type_synonym 'k ledger = "'k \<Rightarrow> uint64 \<times> uint64"

definition ledgerOf :: "('k \<rightharpoonup> 'p Account) \<Rightarrow> 'k ledger" where
  "ledgerOf m k = (case m k of None \<Rightarrow> (0, 0) | Some acc \<Rightarrow> (TxCounter acc, Balance acc))"

definition totalSupply :: "'k ledger \<Rightarrow> nat" where
  "totalSupply L = (\<Sum>k | snd (L k) \<noteq> 0. unat (snd (L k)))"

definition finiteLedger :: "'k ledger \<Rightarrow> bool" where
  "finiteLedger L \<longleftrightarrow> finite {k. snd (L k) \<noteq> 0}"

text \<open>The amount that parallel lists of keys and amounts give to a key.\<close>

definition amountOf :: "'k list \<Rightarrow> uint64 list \<Rightarrow> 'k \<Rightarrow> nat" where
  "amountOf ks as k = (\<Sum>(k', a) \<leftarrow> zip ks as. if k' = k then unat a else 0)"

fun spendable :: "'k list \<Rightarrow> uint64 list \<Rightarrow> uint64 list \<Rightarrow> 'k ledger \<Rightarrow> bool" where
  "spendable (k # ks) (c # cs) (a # as) L \<longleftrightarrow> fst (L k) + 1 = c \<and> a \<le> snd (L k) \<and> spendable ks cs as L"
| "spendable _ _ _ L \<longleftrightarrow> True"

fun debitAll :: "'k list \<Rightarrow> uint64 list \<Rightarrow> 'k ledger \<Rightarrow> 'k ledger" where
  "debitAll (k # ks) (a # as) L = debitAll ks as (L(k := (fst (L k) + 1, snd (L k) - a)))"
| "debitAll _ _ L = L"

fun creditAll :: "'k list \<Rightarrow> uint64 list \<Rightarrow> 'k ledger \<Rightarrow> 'k ledger" where
  "creditAll (k # ks) (a # as) L = creditAll ks as (L(k := (fst (L k), snd (L k) + a)))"
| "creditAll _ _ L = L"

definition pubKeys :: "('p, 'q, 's, 'k) keyOps \<Rightarrow> 'p list \<Rightarrow> 'k list" where
  "pubKeys K ps = (case pubStrings K ps of Inl _ \<Rightarrow> [] | Inr ks \<Rightarrow> ks)"

text \<open>What a transaction that is consumed does to a ledger.\<close>

definition transfer :: "('p, 'q, 's, 'k) keyOps \<Rightarrow> ('p, 's) TransferTx \<Rightarrow> 'k ledger \<Rightarrow> 'k ledger" where
  "transfer K tx L = creditAll (pubKeys K (Recipiants tx)) (ReceiveAmounts tx) (debitAll (pubKeys K (Senders tx)) (SendAmounts tx) L)"

text \<open>When a transaction is valid on a ledger; the left-over amount goes to no one.\<close>

definition validOn :: "('p, 'q, 's, 'k :: linorder) keyOps \<Rightarrow> ('p, 's) TransferTx \<Rightarrow> bool \<Rightarrow> 'k ledger \<Rightarrow> bool" where
  "validOn K tx validateSig L \<longleftrightarrow> ValidateTransferTxFormat K tx = Inr () \<and>
     spendable (pubKeys K (Senders tx)) (SenderTxCounters tx) (SendAmounts tx) L \<and>
     (validateSig \<longrightarrow> checkSigs K (GetSignedMessage tx) (Senders tx) (Signatures tx) = Inr ())"

definition ledgerStep :: "('p, 'q, 's, 'k :: linorder) keyOps \<Rightarrow> ('p, 's) TransferTx \<Rightarrow> 'k ledger \<Rightarrow> 'k ledger" where
  "ledgerStep K tx L = (if validOn K tx True L then transfer K tx L else L)"

lemma amountOf_simps [simp]:
  "amountOf [] as k = 0" "amountOf ks [] k = 0"
  "amountOf (k' # ks) (a # as) k = (if k' = k then unat a else 0) + amountOf ks as k"
  by (simp_all add: amountOf_def)

lemma amountOf_notin: "k \<notin> set ks \<Longrightarrow> amountOf ks as k = 0"
  by (induction ks as rule: list_induct2') auto

section \<open>Supply\<close>

lemma finiteLedger_upd [simp]: "finiteLedger L \<Longrightarrow> finiteLedger (L(k := x))"
  unfolding finiteLedger_def by (erule finite_subset [rotated, OF finite.insertI [of _ k]]) auto

lemma totalSupply_superset:
  assumes "finite A" "{k. snd (L k) \<noteq> 0} \<subseteq> A"
  shows "totalSupply L = (\<Sum>k\<in>A. unat (snd (L k)))"
  unfolding totalSupply_def using assms by (intro sum.mono_neutral_left) auto

lemma totalSupply_upd:
  assumes "finiteLedger L"
  shows "totalSupply (L(k := x)) + unat (snd (L k)) = totalSupply L + unat (snd x)"
proof -
  let ?A = "insert k {k. snd (L k) \<noteq> 0}"
  have fin: "finite ?A" using assms by (simp add: finiteLedger_def)
  have "totalSupply (L(k := x)) = (\<Sum>j\<in>?A. unat (snd ((L(k := x)) j)))" by (rule totalSupply_superset [OF fin]) auto
  also have "\<dots> = unat (snd x) + (\<Sum>j\<in>?A - {k}. unat (snd (L j)))"
    using fin by (subst sum.remove [of _ k]) auto
  finally have "totalSupply (L(k := x)) = unat (snd x) + (\<Sum>j\<in>?A - {k}. unat (snd (L j)))" .
  moreover have "totalSupply L = unat (snd (L k)) + (\<Sum>j\<in>?A - {k}. unat (snd (L j)))"
    using totalSupply_superset [OF fin, of L] sum.remove [OF fin, of k "\<lambda>j. unat (snd (L j))"] by auto
  ultimately show ?thesis by simp
qed

lemma totalSupply_ge: "finiteLedger L \<Longrightarrow> unat (snd (L k)) \<le> totalSupply L"
  using totalSupply_upd [of L k "(0, 0)"] by simp

lemma unat_plus_fits: "unat (x :: uint64) + unat y < 2 ^ 64 \<Longrightarrow> unat (x + y) = unat x + unat y"
  by (simp add: unat_word_ariths)

lemma creditAll_spec:
  assumes "finiteLedger L" "totalSupply L + (\<Sum>a \<leftarrow> as. unat a) < 2 ^ 64" "length as = length ks"
  shows "finiteLedger (creditAll ks as L) \<and> totalSupply (creditAll ks as L) = totalSupply L + (\<Sum>a \<leftarrow> as. unat a) \<and>
    (\<forall>k. fst (creditAll ks as L k) = fst (L k) \<and> unat (snd (creditAll ks as L k)) = unat (snd (L k)) + amountOf ks as k)"
  using assms
proof (induction ks arbitrary: as L)
  case (Cons k ks)
  then obtain a as' where e: "as = a # as'" by (cases as) auto
  define M where "M = L(k := (fst (L k), snd (L k) + a))"
  have f: "finiteLedger M" using Cons.prems(1) by (simp add: M_def)
  have u: "unat (snd (L k) + a) = unat (snd (L k)) + unat a"
    using totalSupply_ge [OF Cons.prems(1), of k] Cons.prems(2) by (intro unat_plus_fits) (simp add: e)
  have s: "totalSupply M = totalSupply L + unat a" using totalSupply_upd [OF Cons.prems(1), of k "(fst (L k), snd (L k) + a)"] u by (simp add: M_def)
  then have "finiteLedger (creditAll ks as' M) \<and> totalSupply (creditAll ks as' M) = totalSupply M + (\<Sum>a \<leftarrow> as'. unat a) \<and>
    (\<forall>j. fst (creditAll ks as' M j) = fst (M j) \<and> unat (snd (creditAll ks as' M j)) = unat (snd (M j)) + amountOf ks as' j)"
    using Cons.IH [OF f, of as'] Cons.prems(2,3) by (simp add: e)
  then show ?case using u s by (auto simp: e M_def [symmetric]) (auto simp: M_def)
qed simp

lemma spendable_upd: "k \<notin> set ks \<Longrightarrow> spendable ks cs as (L(k := x)) = spendable ks cs as L"
  by (induction ks cs as L rule: spendable.induct) auto

lemma debitAll_spec:
  assumes "finiteLedger L" "spendable ks cs as L" "distinct ks" "length as = length ks" "length cs = length ks"
  shows "finiteLedger (debitAll ks as L) \<and> totalSupply (debitAll ks as L) + (\<Sum>a \<leftarrow> as. unat a) = totalSupply L \<and>
    (\<forall>k. fst (debitAll ks as L k) = fst (L k) + (if k \<in> set ks then 1 else 0) \<and>
      unat (snd (debitAll ks as L k)) + amountOf ks as k = unat (snd (L k)))"
  using assms
proof (induction ks arbitrary: cs as L)
  case (Cons k ks)
  then obtain c cs' a as' where e: "cs = c # cs'" "as = a # as'" by (cases cs; cases as) auto
  define M where "M = L(k := (fst (L k) + 1, snd (L k) - a))"
  have f: "finiteLedger M" using Cons.prems(1) by (simp add: M_def)
  have u: "unat (snd (L k) - a) + unat a = unat (snd (L k))" using Cons.prems(2) by (simp add: e unat_sub word_le_nat_alt)
  have s: "totalSupply M + unat a = totalSupply L"
    using totalSupply_upd [OF Cons.prems(1), of k "(fst (L k) + 1, snd (L k) - a)"] u by (simp add: M_def)
  have "finiteLedger (debitAll ks as' M) \<and> totalSupply (debitAll ks as' M) + (\<Sum>a \<leftarrow> as'. unat a) = totalSupply M \<and>
    (\<forall>j. fst (debitAll ks as' M j) = fst (M j) + (if j \<in> set ks then 1 else 0) \<and>
      unat (snd (debitAll ks as' M j)) + amountOf ks as' j = unat (snd (M j)))"
    using Cons.IH [OF f, of cs' as'] Cons.prems spendable_upd [of k ks cs' as' L] by (simp add: e M_def del: fun_upd_apply)
  then show ?case using u s Cons.prems(3) amountOf_notin [of k ks as'] by (auto simp: e M_def [symmetric] split: if_splits) (auto simp: M_def)
qed simp

section \<open>The map below the account table\<close>

text \<open>
  What a run of the account table keeps: the invariant of the map, a preorder on its states, and the ledger it reaches.
\<close>

definition reaches :: "('h \<Rightarrow> bool) \<Rightarrow> ('h \<Rightarrow> 'k \<rightharpoonup> 'p Account) \<Rightarrow> ('h \<Rightarrow> 'h \<Rightarrow> bool) \<Rightarrow>
    'h AccountTable \<Rightarrow> 'k ledger \<Rightarrow> 'h AccountTable \<Rightarrow> bool" where
  "reaches ok tab rel at L at' \<longleftrightarrow> ok (accTab at') \<and> rel (accTab at) (accTab at') \<and> ledgerOf (tab (accTab at')) = L"

lemma setStats_accTab [simp]: "accTab (setStats f at) = accTab at"
  by (simp add: setStats_def)

lemma CheckOverflow_pair: "CheckOverflow [x, y] \<longleftrightarrow> 2 ^ 64 \<le> unat x + unat y"
  by (simp add: CheckOverflow_iff)

lemma mustGetAccount_ok: "GetAccount K T p at = (at', Inr acc) \<Longrightarrow> mustGetAccount K T p at = (at', Inr acc)"
  by (simp add: mustGetAccount_def)

locale account_store =
  fixes T :: "('k :: linorder, 'p Account, 'h) tableOps"
    and ok :: "'h \<Rightarrow> bool" and tab :: "'h \<Rightarrow> 'k \<rightharpoonup> 'p Account" and rel :: "'h \<Rightarrow> 'h \<Rightarrow> bool"
  assumes read_law: "ok h \<Longrightarrow> tRead T k h = Inr (tab h k, tab h k \<noteq> None)"
    and write_law: "ok h \<Longrightarrow> \<exists>h'. tWrite T k v h = Inr h' \<and> ok h' \<and> tab h' = (tab h)(k \<mapsto> v) \<and> rel h h'"
    and finite_law: "ok h \<Longrightarrow> finite (dom (tab h))"
    and rel_refl: "ok h \<Longrightarrow> rel h h"
    and rel_trans: "rel h1 h2 \<Longrightarrow> rel h2 h3 \<Longrightarrow> rel h1 h3"
begin

abbreviation led :: "'h AccountTable \<Rightarrow> 'k ledger" where "led at \<equiv> ledgerOf (tab (accTab at))"
abbreviation reach :: "'h AccountTable \<Rightarrow> 'k ledger \<Rightarrow> 'h AccountTable \<Rightarrow> bool" where "reach \<equiv> reaches ok tab rel"
abbreviation ready :: "'h AccountTable \<Rightarrow> bool" where "ready at \<equiv> ok (accTab at)"

lemma finiteLedger_led: "ready at \<Longrightarrow> finiteLedger (led at)"
  unfolding finiteLedger_def by (rule finite_subset [OF _ finite_law]) (auto simp: ledgerOf_def split: option.splits)

lemma reach_refl: "ready at \<Longrightarrow> reach at (led at) at"
  by (simp add: reaches_def rel_refl)

lemma reach_trans: "reach at1 L2 at2 \<Longrightarrow> reach at2 L3 at3 \<Longrightarrow> reach at1 L3 at3"
  by (auto simp: reaches_def intro: rel_trans)

lemma reachD: "reach at L at' \<Longrightarrow> ready at'" "reach at L at' \<Longrightarrow> led at' = L"
  by (simp_all add: reaches_def)

lemma reach_setStats [simp]:
  "reach (setStats f at) L at' = reach at L at'" "reach at L (setStats f at') = reach at L at'"
  by (simp_all add: reaches_def)

lemma get_ok:
  assumes "ready at" "pubString K p = Inr k"
  shows "\<exists>at' acc. GetAccount K T p at = (at', Inr acc) \<and> reach at (led at) at' \<and> led at k = (TxCounter acc, Balance acc)"
proof (cases "tab (accTab at) k")
  case None
  obtain h where h: "tWrite T k (NewAccount p) (accTab at) = Inr h" "ok h" "tab h = (tab (accTab at))(k \<mapsto> NewAccount p)" "rel (accTab at) h"
    using write_law [OF assms(1)] by blast
  then have "ledgerOf (tab h) = led at" using None by (auto simp: ledgerOf_def NewAccount_def)
  then show ?thesis using None h read_law [OF assms(1), of k] assms(2) by (simp add: GetAccount_def reaches_def ledgerOf_def NewAccount_def)
next
  case (Some acc)
  then show ?thesis using read_law [OF assms(1), of k] assms by (simp add: GetAccount_def ledgerOf_def reach_refl)
qed

lemma update_ok:
  assumes "ready at" "pubString K p = Inr k"
  shows "\<exists>at'. UpdateAccount K T p acc at = (at', Inr ()) \<and> reach at ((led at)(k := (TxCounter acc, Balance acc))) at'"
proof -
  obtain h where h: "tWrite T k acc (accTab at) = Inr h" "ok h" "tab h = (tab (accTab at))(k \<mapsto> acc)" "rel (accTab at) h"
    using write_law [OF assms(1)] by blast
  then have "ledgerOf (tab h) = (led at)(k := (TxCounter acc, Balance acc))" by (auto simp: ledgerOf_def)
  then show ?thesis using h assms(2) by (simp add: UpdateAccount_def reaches_def)
qed

lemma credit_ok:
  assumes "ready at" "pubString K p = Inr k" "unat (snd (led at k)) + unat a < 2 ^ 64"
  shows "\<exists>at'. credit K T p a at = (at', Inr ()) \<and> reach at ((led at)(k := (fst (led at k), snd (led at k) + a))) at'"
proof -
  obtain at1 acc where g: "GetAccount K T p at = (at1, Inr acc)" "reach at (led at) at1" "led at k = (TxCounter acc, Balance acc)"
    using get_ok [OF assms(1,2)] by blast
  obtain at2 where u: "UpdateAccount K T p (acc\<lparr>Balance := Balance acc + a\<rparr>) at1 = (at2, Inr ())"
    "reach at1 ((led at1)(k := (TxCounter acc, Balance acc + a))) at2"
    using update_ok [OF reachD(1) [OF g(2)] assms(2), of "acc\<lparr>Balance := Balance acc + a\<rparr>"] by auto
  have "\<not> CheckOverflow [Balance acc, a]" using assms(3) g(3) by (simp add: CheckOverflow_pair)
  then show ?thesis using u(1) reach_trans [OF g(2) u(2)] g(3) reachD(2) [OF g(2)]
    by (simp add: credit_def mustGetAccount_ok [OF g(1)])
qed

lemma credit_overflow:
  assumes "ready at" "pubString K p = Inr k" "2 ^ 64 \<le> unat (snd (led at k)) + unat a"
  shows "\<exists>at'. credit K T p a at = (at', Inl (Panic ''integer overflow''))"
proof -
  obtain at1 acc where g: "GetAccount K T p at = (at1, Inr acc)" "led at k = (TxCounter acc, Balance acc)"
    using get_ok [OF assms(1,2)] by blast
  have "CheckOverflow [Balance acc, a]" using assms(3) g(2) by (simp add: CheckOverflow_pair)
  then show ?thesis by (simp add: credit_def mustGetAccount_ok [OF g(1)])
qed

end

lemma pubStrings_ConsD:
  "pubStrings K (p # ps) = Inr ks \<Longrightarrow> \<exists>k ks'. ks = k # ks' \<and> pubString K p = Inr k \<and> pubStrings K ps = Inr ks'"
  by (auto simp: bind_res_Inr_iff)

lemma pubStrings_length: "pubStrings K ps = Inr ks \<Longrightarrow> length ks = length ps"
  by (induction ps arbitrary: ks) (auto simp: bind_res_Inr_iff)

context account_store
begin

lemma sendLoop_ok:
  "\<lbrakk>ready at; pubStrings K ps = Inr ks; distinct ks; length cs = length ps; length as = length ps; spendable ks cs as (led at)\<rbrakk> \<Longrightarrow>
   \<exists>at'. sendLoop K T ps cs as at = (at', Inr ()) \<and> reach at (debitAll ks as (led at)) at'"
proof (induction ps arbitrary: ks cs as at)
  case (Cons p ps)
  obtain k ks' where k: "ks = k # ks'" "pubString K p = Inr k" "pubStrings K ps = Inr ks'" using pubStrings_ConsD [OF Cons.prems(2)] by blast
  obtain c cs' a as' where e: "cs = c # cs'" "as = a # as'" using Cons.prems(4,5) by (cases cs; cases as) auto
  obtain at1 acc where g: "GetAccount K T p at = (at1, Inr acc)" "reach at (led at) at1" "led at k = (TxCounter acc, Balance acc)"
    using get_ok [OF Cons.prems(1) k(2)] by blast
  define st where "st = setStats (\<lambda>st. st\<lparr>MoneyTransfered := MoneyTransfered st + a\<rparr>) at1"
  have st: "ready st" "led st = led at" using reachD [OF g(2)] by (simp_all add: st_def)
  define acc' where "acc' = acc\<lparr>TxCounter := TxCounter acc + 1, Balance := Balance acc - a\<rparr>"
  define L where "L = (led at)(k := (fst (led at k) + 1, snd (led at k) - a))"
  obtain at2 where u: "UpdateAccount K T p acc' st = (at2, Inr ())" "reach st L at2"
    using update_ok [OF st(1) k(2), of acc'] g(3) st(2) by (auto simp: acc'_def L_def)
  have r: "reach at L at2" using reach_trans [OF g(2), of L at2] u(2) by (simp add: st_def)
  have "spendable ks' cs' as' L" using Cons.prems(3,6) by (simp add: k(1) e L_def spendable_upd)
  then obtain at3 where l: "sendLoop K T ps cs' as' at2 = (at3, Inr ())" "reach at2 (debitAll ks' as' L) at3"
    using Cons.IH [of at2 ks' cs' as'] Cons.prems(3-5) k(1,3) reachD [OF r] by (auto simp: e)
  have "TxCounter acc + 1 = c" "\<not> Balance acc < a" using Cons.prems(6) g(3) by (simp_all add: k(1) e not_less)
  then show ?case using l(1) u(1) reach_trans [OF r l(2)]
    by (simp add: mustGetAccount_ok [OF g(1)] e k(1) L_def st_def acc'_def)
qed (simp add: reach_refl)

lemma receiveLoop_ok:
  "\<lbrakk>ready at; pubStrings K ps = Inr ks; length as = length ps; totalSupply (led at) + (\<Sum>a \<leftarrow> as. unat a) < 2 ^ 64\<rbrakk> \<Longrightarrow>
   \<exists>at'. receiveLoop K T ps as at = (at', Inr ()) \<and> reach at (creditAll ks as (led at)) at'"
proof (induction ps arbitrary: ks as at)
  case (Cons p ps)
  obtain k ks' where k: "ks = k # ks'" "pubString K p = Inr k" "pubStrings K ps = Inr ks'" using pubStrings_ConsD [OF Cons.prems(2)] by blast
  obtain a as' where e: "as = a # as'" using Cons.prems(3) by (cases as) auto
  define L where "L = (led at)(k := (fst (led at k), snd (led at k) + a))"
  have fits: "unat (snd (led at k)) + unat a < 2 ^ 64"
    using Cons.prems(4) totalSupply_ge [OF finiteLedger_led [OF Cons.prems(1)], of k] by (simp add: e)
  obtain at1 where c: "credit K T p a at = (at1, Inr ())" "reach at L at1"
    using credit_ok [OF Cons.prems(1) k(2) fits] by (auto simp: L_def)
  have "totalSupply L = totalSupply (led at) + unat a"
    using totalSupply_upd [OF finiteLedger_led [OF Cons.prems(1)], of k "(fst (led at k), snd (led at k) + a)"] unat_plus_fits [OF fits]
    by (simp add: L_def)
  then obtain at2 where l: "receiveLoop K T ps as' at1 = (at2, Inr ())" "reach at1 (creditAll ks' as' L) at2"
    using Cons.IH [of at1 ks' as'] Cons.prems(3,4) k(3) reachD [OF c(2)] by (auto simp: e)
  then show ?case using c(1) reach_trans [OF c(2) l(2)] by (simp add: e k(1) L_def)
qed (simp add: reach_refl)

lemma checkSenders_spec:
  "\<lbrakk>ready at; pubStrings K ps = Inr ks; length cs = length ps; length as = length ps\<rbrakk> \<Longrightarrow>
   \<exists>at' r. checkSenders K T ps cs as at = (at', r) \<and> reach at (led at) at' \<and> (r = Inr () \<longleftrightarrow> spendable ks cs as (led at)) \<and> \<not> panics r"
proof (induction ps arbitrary: ks cs as at)
  case (Cons p ps)
  obtain k ks' where k: "ks = k # ks'" "pubString K p = Inr k" "pubStrings K ps = Inr ks'" using pubStrings_ConsD [OF Cons.prems(2)] by blast
  obtain c cs' a as' where e: "cs = c # cs'" "as = a # as'" using Cons.prems(3,4) by (cases cs; cases as) auto
  obtain at1 acc where g: "GetAccount K T p at = (at1, Inr acc)" "reach at (led at) at1" "led at k = (TxCounter acc, Balance acc)"
    using get_ok [OF Cons.prems(1) k(2)] by blast
  obtain at2 r where l: "checkSenders K T ps cs' as' at1 = (at2, r)" "reach at1 (led at) at2" "r = Inr () \<longleftrightarrow> spendable ks' cs' as' (led at)" "\<not> panics r"
    using Cons.IH [of at1 ks' cs' as'] Cons.prems(3,4) k(3) reachD [OF g(2)] by (auto simp: e)
  show ?case using l g(2,3) reach_trans [OF g(2) l(2)] by (auto simp: g(1) e k(1) panics_def not_less)
qed (simp add: reach_refl)

end

section \<open>Validation and consumption\<close>

text \<open>The methods of the keys return their errors and do not panic.\<close>

definition keysReturn :: "('p, 'q, 's, 'k) keyOps \<Rightarrow> bool" where
  "keysReturn K \<longleftrightarrow> (\<forall>p. \<not> panics (pubString K p)) \<and> (\<forall>p m sg. \<not> errPanics (snd (verifySig K p m sg)))"

definition remainder :: "('p, 's) TransferTx \<Rightarrow> nat" where
  "remainder tx = (\<Sum>a \<leftarrow> SendAmounts tx. unat a) - (\<Sum>a \<leftarrow> ReceiveAmounts tx. unat a)"

lemma pubStrings_noPanic: "keysReturn K \<Longrightarrow> \<not> panics (pubStrings K ps)"
  by (induction ps) (auto simp: keysReturn_def panics_bind_res)

lemma checkSigs_noPanic: "keysReturn K \<Longrightarrow> length sigs = length ps \<Longrightarrow> \<not> panics (checkSigs K m ps sigs)"
proof (induction ps arbitrary: sigs)
  case (Cons p ps)
  then obtain sg sigs' where s: "sigs = sg # sigs'" "length sigs' = length ps" by (cases sigs) auto
  obtain v err where v: "verifySig K p m sg = (v, err)" by (cases "verifySig K p m sg")
  moreover have "\<not> errPanics (snd (verifySig K p m sg))" using Cons.prems(1) by (simp add: keysReturn_def)
  ultimately show ?case using Cons.IH [OF Cons.prems(1) s(2)] s(1) by (auto simp: panics_Inl errPanics_iff split: option.splits)
qed simp

lemma CheckUnique_iff: "CheckUnique items \<longleftrightarrow> distinct items"
  using checkUniqueInternal_spec [of items] by simp

lemma format_noPanic: "keysReturn K \<Longrightarrow> \<not> panics (ValidateTransferTxFormat K tx)"
  using pubStrings_noPanic [of K "Senders tx"] pubStrings_noPanic [of K "Recipiants tx"]
  by (simp add: ValidateTransferTxFormat_def Let_def panics_bind_res panics_Inl)

lemma formatD:
  assumes "ValidateTransferTxFormat K tx = Inr ()"
  shows "length (SenderTxCounters tx) = length (Senders tx)" "length (SendAmounts tx) = length (Senders tx)"
    "length (Signatures tx) = length (Senders tx)" "length (ReceiveAmounts tx) = length (Recipiants tx)"
    "(\<Sum>a \<leftarrow> SendAmounts tx. unat a) < 2 ^ 64" "(\<Sum>a \<leftarrow> ReceiveAmounts tx. unat a) \<le> (\<Sum>a \<leftarrow> SendAmounts tx. unat a)"
    "0 < (\<Sum>a \<leftarrow> SendAmounts tx. unat a)"
    "unat (SumUint64 (SendAmounts tx)) = (\<Sum>a \<leftarrow> SendAmounts tx. unat a)"
    "unat (SumUint64 (ReceiveAmounts tx)) = (\<Sum>a \<leftarrow> ReceiveAmounts tx. unat a)"
    "pubStrings K (Senders tx) = Inr (pubKeys K (Senders tx))" "pubStrings K (Recipiants tx) = Inr (pubKeys K (Recipiants tx))"
    "distinct (pubKeys K (Senders tx))" "distinct (pubKeys K (Recipiants tx))" "Senders tx \<noteq> []"
    "length (Senders tx) \<le> MaxParticipants" "length (Recipiants tx) \<le> MaxParticipants" "IsSorted (pubLess K) (Senders tx)"
proof -
  have c: "\<not> CheckOverflow (SendAmounts tx)" "\<not> CheckOverflow (ReceiveAmounts tx)" "SumUint64 (SendAmounts tx) \<noteq> 0"
    "\<not> SumUint64 (SendAmounts tx) < SumUint64 (ReceiveAmounts tx)"
    using assms by (auto simp: ValidateTransferTxFormat_def Let_def split: if_splits)
  then show s: "(\<Sum>a \<leftarrow> SendAmounts tx. unat a) < 2 ^ 64" "unat (SumUint64 (SendAmounts tx)) = (\<Sum>a \<leftarrow> SendAmounts tx. unat a)"
    "unat (SumUint64 (ReceiveAmounts tx)) = (\<Sum>a \<leftarrow> ReceiveAmounts tx. unat a)"
    by (simp_all add: CheckOverflow_iff unat_SumUint64 not_le)
  show "(\<Sum>a \<leftarrow> ReceiveAmounts tx. unat a) \<le> (\<Sum>a \<leftarrow> SendAmounts tx. unat a)"
    using c(4) s by (simp add: not_less word_le_nat_alt)
  have "unat (SumUint64 (SendAmounts tx)) \<noteq> 0" using c(3) by (simp add: unat_eq_0)
  then show "0 < (\<Sum>a \<leftarrow> SendAmounts tx. unat a)" unfolding s(2) by (rule neq0_conv [THEN iffD1])
qed (use assms in \<open>auto simp: ValidateTransferTxFormat_def Let_def bind_res_Inr_iff CheckUnique_iff pubKeys_def split: if_splits\<close>)

lemma validOn_format: "validOn K tx vs L \<Longrightarrow> ValidateTransferTxFormat K tx = Inr ()"
  by (simp add: validOn_def)

text \<open>The money that is sent and not received: it can be claimed by the key \<open>lo\<close>, and is gone when there is none.\<close>

definition leftOk :: "('p, 'q, 's, 'k) keyOps \<Rightarrow> ('p, 's) TransferTx \<Rightarrow> 'p option \<Rightarrow> 'k ledger \<Rightarrow> bool" where
  "leftOk K tx lo L \<longleftrightarrow> remainder tx = 0 \<or>
     (case lo of None \<Rightarrow> True
      | Some p \<Rightarrow> (case pubString K p of Inl _ \<Rightarrow> False | Inr k \<Rightarrow> unat (snd (L k)) + remainder tx < 2 ^ 64))"

definition payLeft :: "('p, 'q, 's, 'k) keyOps \<Rightarrow> ('p, 's) TransferTx \<Rightarrow> 'p option \<Rightarrow> 'k ledger \<Rightarrow> 'k ledger" where
  "payLeft K tx lo L =
     (if remainder tx = 0 then L
      else (case lo of None \<Rightarrow> L
            | Some p \<Rightarrow> (case pubString K p of Inl _ \<Rightarrow> L
                        | Inr k \<Rightarrow> L(k := (fst (L k), snd (L k) + word_of_nat (remainder tx))))))"

lemma left_None [simp]: "leftOk K tx None L" "payLeft K tx None L = L"
  by (simp_all add: leftOk_def payLeft_def)

lemma remainder_word:
  assumes "ValidateTransferTxFormat K tx = Inr ()"
  shows "\<not> SumUint64 (SendAmounts tx) < SumUint64 (ReceiveAmounts tx)"
    "unat (SumUint64 (SendAmounts tx) - SumUint64 (ReceiveAmounts tx)) = remainder tx"
    "SumUint64 (SendAmounts tx) - SumUint64 (ReceiveAmounts tx) = word_of_nat (remainder tx)"
    "0 < SumUint64 (SendAmounts tx) - SumUint64 (ReceiveAmounts tx) \<longleftrightarrow> remainder tx \<noteq> 0"
proof -
  let ?s = "SumUint64 (SendAmounts tx)" and ?r = "SumUint64 (ReceiveAmounts tx)"
  have le: "?r \<le> ?s" using formatD(6,8,9) [OF assms] by (simp add: word_le_nat_alt)
  then show "\<not> ?s < ?r" by simp
  show u: "unat (?s - ?r) = remainder tx" using le formatD(8,9) [OF assms] by (simp add: remainder_def unat_sub)
  then show "?s - ?r = word_of_nat (remainder tx)" by (metis of_nat_unat ucast_id)
  show "0 < ?s - ?r \<longleftrightarrow> remainder tx \<noteq> 0" using u by (simp add: word_less_nat_alt)
qed

lemma transfer_spec:
  assumes v: "validOn K tx vs L" and fin: "finiteLedger L" and small: "totalSupply L < 2 ^ 64"
  shows "finiteLedger (transfer K tx L)" "totalSupply (transfer K tx L) + remainder tx = totalSupply L"
    "fst (transfer K tx L k) = fst (L k) + (if k \<in> set (pubKeys K (Senders tx)) then 1 else 0)"
    "unat (snd (transfer K tx L k)) + amountOf (pubKeys K (Senders tx)) (SendAmounts tx) k =
       unat (snd (L k)) + amountOf (pubKeys K (Recipiants tx)) (ReceiveAmounts tx) k"
proof -
  note f = formatD [OF validOn_format [OF v]]
  let ?D = "debitAll (pubKeys K (Senders tx)) (SendAmounts tx) L"
  have len: "length (pubKeys K (Senders tx)) = length (Senders tx)" "length (pubKeys K (Recipiants tx)) = length (Recipiants tx)"
    using pubStrings_length [OF f(10)] pubStrings_length [OF f(11)] by simp_all
  have D: "finiteLedger ?D" "totalSupply ?D + (\<Sum>a \<leftarrow> SendAmounts tx. unat a) = totalSupply L"
    "\<And>k. fst (?D k) = fst (L k) + (if k \<in> set (pubKeys K (Senders tx)) then 1 else 0)"
    "\<And>k. unat (snd (?D k)) + amountOf (pubKeys K (Senders tx)) (SendAmounts tx) k = unat (snd (L k))"
    using debitAll_spec [OF fin, of "pubKeys K (Senders tx)" "SenderTxCounters tx" "SendAmounts tx"] v f(1,2,12) len by (auto simp: validOn_def)
  have "totalSupply ?D + (\<Sum>a \<leftarrow> ReceiveAmounts tx. unat a) < 2 ^ 64" using D(2) small f(6) by linarith
  then have C: "finiteLedger (transfer K tx L)" "totalSupply (transfer K tx L) = totalSupply ?D + (\<Sum>a \<leftarrow> ReceiveAmounts tx. unat a)"
    "\<And>k. fst (transfer K tx L k) = fst (?D k)"
    "\<And>k. unat (snd (transfer K tx L k)) = unat (snd (?D k)) + amountOf (pubKeys K (Recipiants tx)) (ReceiveAmounts tx) k"
    using creditAll_spec [OF D(1), of "ReceiveAmounts tx" "pubKeys K (Recipiants tx)"] f(4) len by (simp_all add: transfer_def)
  show "finiteLedger (transfer K tx L)" by (rule C(1))
  show "totalSupply (transfer K tx L) + remainder tx = totalSupply L" using C(2) D(2) f(6) by (simp add: remainder_def)
  show "fst (transfer K tx L k) = fst (L k) + (if k \<in> set (pubKeys K (Senders tx)) then 1 else 0)" using C(3) D(3) by simp
  show "unat (snd (transfer K tx L k)) + amountOf (pubKeys K (Senders tx)) (SendAmounts tx) k =
       unat (snd (L k)) + amountOf (pubKeys K (Recipiants tx)) (ReceiveAmounts tx) k" using C(4) [of k] D(4) [of k] by simp
qed

context account_store
begin

lemma checkLeft_spec:
  assumes "ready at" "ValidateTransferTxFormat K tx = Inr ()"
  shows "\<exists>at' r. checkLeft K T tx lo at = (at', r) \<and> reach at (led at) at' \<and> (r = Inr () \<longleftrightarrow> leftOk K tx lo (led at)) \<and>
    (keysReturn K \<longrightarrow> \<not> panics r)"
proof (cases lo)
  case None
  then show ?thesis using remainder_word [OF assms(2)] by (simp add: checkLeft_def Let_def leftOk_def reach_refl [OF assms(1)])
next
  case (Some p)
  show ?thesis
  proof (cases "pubString K p")
    case (Inl e)
    then have "GetAccount K T p at = (at, Inl e)" "keysReturn K \<longrightarrow> \<not> panics (Inl e :: unit res)"
      by (auto simp: GetAccount_def keysReturn_def panics_Inl) (metis Inl panics_Inl)
    then show ?thesis using remainder_word [OF assms(2)] Inl by (simp add: checkLeft_def Let_def Some leftOk_def reach_refl [OF assms(1)])
  next
    case (Inr k)
    obtain at1 acc where g: "GetAccount K T p at = (at1, Inr acc)" "reach at (led at) at1" "led at k = (TxCounter acc, Balance acc)"
      using get_ok [OF assms(1) Inr] by blast
    show ?thesis using remainder_word [OF assms(2)] Inr g reach_refl [OF assms(1)]
      by (auto simp: checkLeft_def Let_def Some leftOk_def CheckOverflow_pair panics_Inl not_le)
  qed
qed

lemma checkTx_spec:
  assumes "ready at"
  shows "\<exists>at' r. checkTx K T tx vs lo at = (at', r) \<and> reach at (led at) at' \<and>
    (r = Inr () \<longleftrightarrow> validOn K tx vs (led at) \<and> leftOk K tx lo (led at)) \<and> (keysReturn K \<longrightarrow> \<not> panics r)"
proof (cases "ValidateTransferTxFormat K tx")
  case (Inl e)
  then show ?thesis using format_noPanic [of K tx] by (simp add: checkTx_def validOn_def reach_refl [OF assms] panics_Inl)
next
  case (Inr u)
  then have fmt: "ValidateTransferTxFormat K tx = Inr ()" by simp
  note f = formatD [OF fmt]
  obtain at1 r1 where s: "checkSenders K T (Senders tx) (SenderTxCounters tx) (SendAmounts tx) at = (at1, r1)" "reach at (led at) at1"
    "r1 = Inr () \<longleftrightarrow> spendable (pubKeys K (Senders tx)) (SenderTxCounters tx) (SendAmounts tx) (led at)" "\<not> panics r1"
    using checkSenders_spec [OF assms f(10) f(1,2)] by blast
  define r2 where "r2 = (if vs then checkSigs K (GetSignedMessage tx) (Senders tx) (Signatures tx) else Inr ())"
  have r2: "keysReturn K \<longrightarrow> \<not> panics r2" using checkSigs_noPanic [OF _ f(3), of K "GetSignedMessage tx"] by (simp add: r2_def)
  have eq: "checkTx K T tx vs lo at = then_do (at1, r1) (\<lambda>_ a1. then_do (a1, r2) (\<lambda>_ a2. checkLeft K T tx lo a2))"
    by (simp add: checkTx_def fmt s(1) r2_def)
  have v: "validOn K tx vs (led at) \<longleftrightarrow> r1 = Inr () \<and> r2 = Inr ()" using s(3) by (auto simp: validOn_def fmt r2_def)
  show ?thesis
  proof (cases "r1 = Inr () \<and> r2 = Inr ()")
    case True
    obtain at2 r3 where l: "checkLeft K T tx lo at1 = (at2, r3)" "reach at1 (led at) at2" "r3 = Inr () \<longleftrightarrow> leftOk K tx lo (led at)"
      "keysReturn K \<longrightarrow> \<not> panics r3" using checkLeft_spec [OF reachD(1) [OF s(2)] fmt, of lo] reachD(2) [OF s(2)] by auto
    then show ?thesis using True eq v reach_trans [OF s(2) l(2)] by simp
  next
    case False
    then have "\<exists>e. checkTx K T tx vs lo at = (at1, Inl e) \<and> (r1 = Inl e \<or> r2 = Inl e)" unfolding eq by (cases r1; cases r2) auto
    then show ?thesis using False v s(2,4) r2 by auto
  qed
qed

end

text \<open>Ledgers from which consumption cannot fail: finitely many balances whose sum fits into 64 bits.\<close>

definition smallLedger :: "'k ledger \<Rightarrow> bool" where
  "smallLedger L \<longleftrightarrow> finiteLedger L \<and> totalSupply L < 2 ^ 64"

lemma transfer_small: "validOn K tx vs L \<Longrightarrow> smallLedger L \<Longrightarrow> smallLedger (transfer K tx L)"
  using transfer_spec(1,2) [of K tx vs L] by (auto simp: smallLedger_def)

lemma payLeft_spec:
  assumes "validOn K tx vs L" "smallLedger L" "leftOk K tx lo L"
  shows "smallLedger (payLeft K tx lo (transfer K tx L))"
    "totalSupply (payLeft K tx lo (transfer K tx L)) + (if lo = None then remainder tx else 0) = totalSupply L"
proof -
  let ?M = "transfer K tx L"
  have M: "finiteLedger ?M" "totalSupply ?M + remainder tx = totalSupply L" and s: "totalSupply L < 2 ^ 64"
    using transfer_spec(1,2) [OF assms(1)] assms(2) by (auto simp: smallLedger_def)
  have "smallLedger (payLeft K tx lo ?M) \<and> totalSupply (payLeft K tx lo ?M) + (if lo = None then remainder tx else 0) = totalSupply L"
  proof (cases "remainder tx = 0 \<or> lo = None")
    case True
    then show ?thesis using M s by (auto simp: payLeft_def smallLedger_def)
  next
    case False
    then obtain p k where p: "lo = Some p" "pubString K p = Inr k" "remainder tx \<noteq> 0"
      using assms(3) by (auto simp: leftOk_def split: option.splits sum.splits)
    define x where "x = (fst (?M k), snd (?M k) + word_of_nat (remainder tx))"
    have u: "unat (word_of_nat (remainder tx) :: uint64) = remainder tx" using M(2) s by (simp add: unat_of_nat)
    have "unat (snd x) = unat (snd (?M k)) + remainder tx"
      using totalSupply_ge [OF M(1), of k] M(2) s u unat_plus_fits [of "snd (?M k)" "word_of_nat (remainder tx)"] by (simp add: x_def)
    then have "totalSupply (?M(k := x)) = totalSupply L" using totalSupply_upd [OF M(1), of k x] M(2) by simp
    moreover have "payLeft K tx lo ?M = ?M(k := x)" using p by (simp add: payLeft_def x_def)
    ultimately show ?thesis using M(1) s p(1) by (simp add: smallLedger_def)
  qed
  then show "smallLedger (payLeft K tx lo ?M)" "totalSupply (payLeft K tx lo ?M) + (if lo = None then remainder tx else 0) = totalSupply L"
    by simp_all
qed

context account_store
begin

lemma ValidateTx_spec:
  assumes "ready at"
  shows "\<exists>at' r. ValidateTx K T tx vs lo at = (at', r) \<and> reach at (led at) at' \<and>
    (r = Inr () \<longleftrightarrow> validOn K tx vs (led at) \<and> leftOk K tx lo (led at)) \<and> (keysReturn K \<longrightarrow> \<not> panics r)"
proof -
  obtain at' r where c: "checkTx K T tx vs lo at = (at', r)" "reach at (led at) at'"
    "r = Inr () \<longleftrightarrow> validOn K tx vs (led at) \<and> leftOk K tx lo (led at)" "keysReturn K \<longrightarrow> \<not> panics r"
    using checkTx_spec [OF assms] by blast
  then show ?thesis by (cases r) (auto simp: ValidateTx_def)
qed

lemma ConsumeTx_ok:
  assumes "ready at" "validOn K tx vs (led at)" "leftOk K tx lo (led at)" "smallLedger (led at)"
  shows "\<exists>at'. ConsumeTx K T tx lo at = (at', Inr ()) \<and> reach at (payLeft K tx lo (transfer K tx (led at))) at'"
proof -
  have fmt: "ValidateTransferTxFormat K tx = Inr ()" by (rule validOn_format [OF assms(2)])
  note f = formatD [OF fmt]
  define st where "st = setStats (\<lambda>st. st\<lparr>TxConsumedCount := TxConsumedCount st + 1\<rparr>) at"
  let ?D = "debitAll (pubKeys K (Senders tx)) (SendAmounts tx) (led at)"
  obtain at1 where s: "sendLoop K T (Senders tx) (SenderTxCounters tx) (SendAmounts tx) st = (at1, Inr ())" "reach at ?D at1"
    using sendLoop_ok [of st K, OF _ f(10,12,1,2)] assms(1,2) by (auto simp: st_def validOn_def)
  have len: "length (pubKeys K (Senders tx)) = length (Senders tx)" using pubStrings_length [OF f(10)] by simp
  have "totalSupply ?D + (\<Sum>a \<leftarrow> SendAmounts tx. unat a) = totalSupply (led at)"
    using debitAll_spec [OF finiteLedger_led [OF assms(1)], of "pubKeys K (Senders tx)" "SenderTxCounters tx"] assms(2) f(1,2,12) len by (simp add: validOn_def)
  then have "totalSupply (led at1) + (\<Sum>a \<leftarrow> ReceiveAmounts tx. unat a) < 2 ^ 64"
    using assms(4) f(6) reachD(2) [OF s(2)] by (simp add: smallLedger_def)
  then obtain at2 where r: "receiveLoop K T (Recipiants tx) (ReceiveAmounts tx) at1 = (at2, Inr ())" "reach at (transfer K tx (led at)) at2"
    using receiveLoop_ok [OF reachD(1) [OF s(2)] f(11,4)] reachD(2) [OF s(2)] reach_trans [OF s(2)] by (auto simp: transfer_def)
  have eq: "ConsumeTx K T tx lo at = (if remainder tx = 0 then (at2, Inr ())
      else case lo of None \<Rightarrow> (at2, Inr ()) | Some p \<Rightarrow> credit K T p (word_of_nat (remainder tx)) at2)"
    using remainder_word [OF fmt] by (cases lo) (simp_all add: ConsumeTx_def st_def [symmetric] s(1) r(1) Let_def)
  show ?thesis
  proof (cases "remainder tx = 0 \<or> lo = None")
    case True
    then show ?thesis using eq r(2) by (auto simp: payLeft_def)
  next
    case False
    then obtain p k where p: "lo = Some p" "pubString K p = Inr k" "remainder tx \<noteq> 0"
      using assms(3) by (auto simp: leftOk_def split: option.splits sum.splits)
    have t: "totalSupply (transfer K tx (led at)) + remainder tx < 2 ^ 64" "finiteLedger (transfer K tx (led at))"
      using transfer_spec(1,2) [OF assms(2)] assms(4) by (auto simp: smallLedger_def)
    then have "unat (snd (led at2 k)) + unat (word_of_nat (remainder tx) :: uint64) < 2 ^ 64"
      using totalSupply_ge [OF t(2), of k] reachD(2) [OF r(2)] by (simp add: unat_of_nat)
    then obtain at3 where "credit K T p (word_of_nat (remainder tx)) at2 = (at3, Inr ())"
      "reach at2 (payLeft K tx lo (transfer K tx (led at))) at3"
      using credit_ok [OF reachD(1) [OF r(2)] p(2)] reachD(2) [OF r(2)] p by (auto simp: payLeft_def)
    then show ?thesis using eq p reach_trans [OF r(2)] by auto
  qed
qed

lemma consumeBlock_spec:
  "ready at \<Longrightarrow> smallLedger (led at) \<Longrightarrow>
    \<exists>at' r. consumeBlock K T txs at = (at', r) \<and> (keysReturn K \<longrightarrow> r = Inr ()) \<and>
      (r = Inr () \<longrightarrow> reach at (fold (ledgerStep K) txs (led at)) at')"
proof (induction txs arbitrary: at)
  case (Cons tx txs)
  obtain at1 r where v: "ValidateTx K T tx True None at = (at1, r)" "reach at (led at) at1"
    "r = Inr () \<longleftrightarrow> validOn K tx True (led at)" "keysReturn K \<longrightarrow> \<not> panics r"
    using ValidateTx_spec [OF Cons.prems(1), of K tx True None] by auto
  show ?case
  proof (cases r)
    case (Inl e)
    have "ledgerStep K tx (led at) = led at" using v(3) Inl by (simp add: ledgerStep_def)
    moreover obtain at2 r2 where "consumeBlock K T txs at1 = (at2, r2)" "keysReturn K \<longrightarrow> r2 = Inr ()" "r2 = Inr () \<longrightarrow> reach at1 (fold (ledgerStep K) txs (led at)) at2"
      using Cons.IH [of at1] Cons.prems(2) reachD [OF v(2)] by auto
    ultimately show ?thesis using v(1,4) Inl reach_trans [OF v(2)] by (cases "panics (Inl e :: unit res)") auto
  next
    case (Inr u)
    then have ok: "validOn K tx True (led at)" using v(3) by simp
    obtain at2 where c: "ConsumeTx K T tx None at1 = (at2, Inr ())" "reach at1 (transfer K tx (led at)) at2"
      using ConsumeTx_ok [OF reachD(1) [OF v(2)], of K tx True None] ok Cons.prems(2) reachD(2) [OF v(2)]
      by auto
    have r2: "reach at (transfer K tx (led at)) at2" by (rule reach_trans [OF v(2) c(2)])
    obtain at3 r3 where "consumeBlock K T txs at2 = (at3, r3)" "keysReturn K \<longrightarrow> r3 = Inr ()" "r3 = Inr () \<longrightarrow> reach at2 (fold (ledgerStep K) txs (transfer K tx (led at))) at3"
      using Cons.IH [of at2] reachD [OF r2] transfer_small [OF ok Cons.prems(2)] by auto
    moreover have "ledgerStep K tx (led at) = transfer K tx (led at)" using ok by (simp add: ledgerStep_def)
    ultimately show ?thesis using v(1) c(1) Inr reach_trans [OF r2] by auto
  qed
qed (simp add: reach_refl)

end

section \<open>Ledgers after a block\<close>

abbreviation ledgerRun :: "('p, 'q, 's, 'k :: linorder) keyOps \<Rightarrow> ('p, 's) TransferTx list \<Rightarrow> 'k ledger \<Rightarrow> 'k ledger" where
  "ledgerRun K \<equiv> fold (ledgerStep K)"

lemma ledgerStep_small: "smallLedger L \<Longrightarrow> smallLedger (ledgerStep K tx L) \<and> totalSupply (ledgerStep K tx L) \<le> totalSupply L"
  using transfer_small [of K tx True L] transfer_spec(2) [of K tx True L] by (auto simp: ledgerStep_def smallLedger_def)

lemma ledgerRun_small: "smallLedger L \<Longrightarrow> smallLedger (ledgerRun K txs L) \<and> totalSupply (ledgerRun K txs L) \<le> totalSupply L"
proof (induction txs arbitrary: L)
  case (Cons tx txs)
  have s: "smallLedger (ledgerStep K tx L)" "totalSupply (ledgerStep K tx L) \<le> totalSupply L"
    using ledgerStep_small [OF Cons.prems] by auto
  then show ?case using Cons.IH [OF s(1)] by simp
qed simp

lemma ledgerStep_counter:
  "smallLedger L \<Longrightarrow> fst (ledgerStep K tx L k) = fst (L k) \<or> fst (ledgerStep K tx L k) = fst (L k) + 1"
  using transfer_spec(3) [of K tx True L k] by (auto simp: ledgerStep_def smallLedger_def)

lemma ledgerRun_counter: "smallLedger L \<Longrightarrow> \<exists>n \<le> length txs. fst (ledgerRun K txs L k) = fst (L k) + word_of_nat n"
proof (induction txs arbitrary: L)
  case (Cons tx txs)
  obtain n where n: "n \<le> length txs" "fst (ledgerRun K txs (ledgerStep K tx L) k) = fst (ledgerStep K tx L k) + word_of_nat n"
    using Cons.IH [of "ledgerStep K tx L"] ledgerStep_small [OF Cons.prems] by blast
  show ?case using ledgerStep_counter [OF Cons.prems, of K tx k]
  proof
    assume "fst (ledgerStep K tx L k) = fst (L k)"
    then show ?thesis using n by (intro exI [of _ n]) simp
  next
    assume "fst (ledgerStep K tx L k) = fst (L k) + 1"
    then show ?thesis using n by (intro exI [of _ "Suc n"]) simp
  qed
qed simp

text \<open>A consumed transaction stays invalid as long as the counter of its first sender cannot have wrapped around.\<close>

lemma no_replay_ledger:
  assumes v: "validOn K tx vs L" and s: "smallLedger L" and n: "length txs + 1 < 2 ^ 64"
  shows "\<not> validOn K tx vs' (ledgerRun K txs (transfer K tx L))"
proof
  assume v': "validOn K tx vs' (ledgerRun K txs (transfer K tx L))"
  note f = formatD [OF validOn_format [OF v]]
  obtain k ks where k: "pubKeys K (Senders tx) = k # ks" using f(14) pubStrings_length [OF f(10)] by (cases "pubKeys K (Senders tx)") auto
  obtain c cs a as where e: "SenderTxCounters tx = c # cs" "SendAmounts tx = a # as" using f(1,2,14)
    by (cases "SenderTxCounters tx"; cases "SendAmounts tx"; cases "Senders tx") auto
  have c: "fst (L k) + 1 = c" "fst (ledgerRun K txs (transfer K tx L) k) + 1 = c"
    using v v' by (simp_all add: validOn_def k e)
  obtain m where m: "m \<le> length txs" "fst (ledgerRun K txs (transfer K tx L) k) = fst (transfer K tx L k) + word_of_nat m"
    using ledgerRun_counter [OF transfer_small [OF v s], of txs K k] by blast
  have "fst (transfer K tx L k) = c" using transfer_spec(3) [OF v, of k] s c(1) by (simp add: k smallLedger_def)
  then have "(word_of_nat (Suc m) :: uint64) = 0" using m(2) c(2) by (simp add: add.commute)
  then have "unat (word_of_nat (Suc m) :: uint64) = 0" by (simp only: unat_0)
  then have "Suc m mod 2 ^ 64 = 0" by (simp only: unat_of_nat len_of_numeral_defs) simp
  then show False using m(1) n by simp
qed

lemma checkSigs_nth:
  "checkSigs K m ps sigs = Inr () \<Longrightarrow> i < length ps \<Longrightarrow> verifySig K (ps ! i) m (sigs ! i) = (True, None)"
proof (induction ps arbitrary: sigs i)
  case (Cons p ps)
  then obtain sg sigs' where "sigs = sg # sigs'" by (cases sigs) auto
  then show ?case using Cons by (cases i) (auto split: prod.splits if_splits option.splits)
qed simp

lemma pubStrings_nth: "pubStrings K ps = Inr ks \<Longrightarrow> i < length ps \<Longrightarrow> pubString K (ps ! i) = Inr (ks ! i)"
proof (induction ps arbitrary: ks i)
  case (Cons p ps)
  then show ?case by (cases i) (auto simp: bind_res_Inr_iff)
qed simp

definition txSignedBy :: "('p, 'q, 's, 'k) keyOps \<Rightarrow> 'k \<Rightarrow> ('p, 's) TransferTx \<Rightarrow> bool" where
  "txSignedBy K k tx \<longleftrightarrow> (\<exists>i < length (Senders tx). pubString K (Senders tx ! i) = Inr k \<and>
     verifySig K (Senders tx ! i) (GetSignedMessage tx) (Signatures tx ! i) = (True, None))"

lemma validOn_txSignedBy:
  assumes "validOn K tx True L" "k \<in> set (pubKeys K (Senders tx))"
  shows "txSignedBy K k tx"
proof -
  note f = formatD [OF validOn_format [OF assms(1)]]
  obtain i where i: "i < length (Senders tx)" "pubKeys K (Senders tx) ! i = k"
    using assms(2) pubStrings_length [OF f(10)] by (auto simp: in_set_conv_nth)
  then show ?thesis using assms(1) pubStrings_nth [OF f(10) i(1)] checkSigs_nth [OF _ i(1)] by (auto simp: txSignedBy_def validOn_def)
qed

lemma no_theft_ledger:
  "smallLedger L \<Longrightarrow> snd (ledgerRun K txs L k) < snd (L k) \<Longrightarrow> \<exists>tx \<in> set txs. txSignedBy K k tx"
proof (induction txs arbitrary: L)
  case (Cons tx txs)
  show ?case
  proof (cases "snd (ledgerStep K tx L k) < snd (L k)")
    case True
    then have v: "validOn K tx True L" by (auto simp: ledgerStep_def split: if_splits)
    moreover have "unat (snd (transfer K tx L k)) < unat (snd (L k))" using True v by (simp add: ledgerStep_def word_less_nat_alt)
    then have "amountOf (pubKeys K (Senders tx)) (SendAmounts tx) k \<noteq> 0"
      using transfer_spec(4) [OF v, of k] Cons.prems(1) by (simp add: smallLedger_def)
    then have "k \<in> set (pubKeys K (Senders tx))" using amountOf_notin by metis
    ultimately show ?thesis using validOn_txSignedBy by auto
  next
    case False
    then have "snd (ledgerRun K txs (ledgerStep K tx L) k) < snd (ledgerStep K tx L k)" using Cons.prems(2) by simp
    then show ?thesis using Cons.IH ledgerStep_small [OF Cons.prems(1)] by auto
  qed
qed simp

section \<open>Generated transactions\<close>

text \<open>The documented behaviour of \<^verbatim>\<open>Priv.Sign\<close> and \<^verbatim>\<open>Pub.VerifySig\<close>: a signature verifies with the public key of its signer.\<close>

definition signsVerify :: "('p, 'q, 's, 'k) keyOps \<Rightarrow> bool" where
  "signsVerify K \<longleftrightarrow> (\<forall>q m sg. privSign K q m = Inr sg \<longrightarrow> verifySig K (privPub K q) m (Some sg) = (True, None))"

lemma checkSigs_signAll: "signsVerify K \<Longrightarrow> signAll K m qs = Inr sigs \<Longrightarrow> checkSigs K m (map (privPub K) qs) sigs = Inr ()"
  by (induction qs arbitrary: sigs) (auto simp: bind_res_Inr_iff signsVerify_def)

context account_store
begin

lemma get_reach: "ready at \<Longrightarrow> \<exists>at' r. GetAccount K T p at = (at', r) \<and> reach at (led at) at'"
  using get_ok [of at K p] reach_refl [of at] by (cases "pubString K p") (auto simp: GetAccount_def)

lemma senderCounters_reach: "ready at \<Longrightarrow> \<exists>at' r. senderCounters K T qs at = (at', r) \<and> reach at (led at) at'"
proof (induction qs arbitrary: at)
  case (Cons q qs)
  obtain at1 r where g: "GetAccount K T (privPub K q) at = (at1, r)" "reach at (led at) at1" using get_reach [OF Cons.prems] by blast
  obtain at2 r2 where s: "senderCounters K T qs at1 = (at2, r2)" "reach at1 (led at) at2"
    using Cons.IH [OF reachD(1) [OF g(2)]] reachD(2) [OF g(2)] by auto
  show ?case using g s reach_trans [OF g(2) s(2)] by (cases r; cases r2) auto
qed (simp add: reach_refl)

lemma GenerateTx_valid:
  fixes K :: "('p, 'q, 's, 'k) keyOps" and tx :: "('p, 's) TransferTx"
  assumes at: "ready at" and K: "signsVerify K" and g: "GenerateTx K T senders amounts recipiants receiveAmounts at = (at', Inr tx)"
  shows "reach at (led at) at' \<and> validOn K tx True (led at) \<and> Senders tx = map (privPub K) senders \<and> SendAmounts tx = amounts \<and>
    Recipiants tx = recipiants \<and> ReceiveAmounts tx = receiveAmounts"
proof -
  obtain at3 where b: "buildTx K T senders amounts recipiants receiveAmounts at = (at3, Inr tx)" "at' = setStats statsGenerateTx at3"
    using g by (auto simp: GenerateTx_def split: prod.splits sum.splits)
  obtain at1 r where s: "senderCounters K T senders at = (at1, r)" "reach at (led at) at1" using senderCounters_reach [OF at] by blast
  obtain ctrs where r: "r = Inr ctrs" using b(1) s(1) by (cases r) (auto simp: buildTx_def split: if_splits)
  define tx0 :: "('p, 's) TransferTx" where "tx0 = \<lparr>Senders = map (privPub K) senders, Signatures = replicate (length senders) None, SenderTxCounters = ctrs,
    Recipiants = recipiants, SendAmounts = amounts, ReceiveAmounts = receiveAmounts, SignedBytes = None\<rparr>"
  have b2: "then_do (at1, bind_res (ValidateTransferTxFormat K tx0) (\<lambda>_. bind_res (encodeSignedBytes K tx0) (\<lambda>tx1.
      bind_res (signAll K (GetSignedMessage tx1) senders) (\<lambda>sigs. Inr (tx1\<lparr>Signatures := sigs\<rparr>))))) (\<lambda>tx2 at2.
      then_do (ValidateTx K T tx2 False None at2) (\<lambda>_ at3. (at3, Inr tx2))) = (at3, Inr tx)"
    using b(1) s(1) r by (simp add: buildTx_def Let_def tx0_def [symmetric] split: if_splits)
  then obtain tx1 sigs where e: "encodeSignedBytes K tx0 = Inr tx1" "signAll K (GetSignedMessage tx1) senders = Inr sigs"
    "tx = tx1\<lparr>Signatures := sigs\<rparr>" "ValidateTx K T tx False None at1 = (at3, Inr ())"
    by (auto simp: then_do_def bind_res_Inr_iff split: prod.splits sum.splits)
  have v: "reach at1 (led at) at3" "validOn K tx False (led at)"
    using ValidateTx_spec [OF reachD(1) [OF s(2)], of K tx False None] e(4) reachD(2) [OF s(2)] by auto
  have f: "Senders tx1 = map (privPub K) senders" "SendAmounts tx1 = amounts" "Recipiants tx1 = recipiants" "ReceiveAmounts tx1 = receiveAmounts"
    using e(1) by (auto simp: encodeSignedBytes_def bind_res_Inr_iff tx0_def)
  have "GetSignedMessage tx = GetSignedMessage tx1" by (simp add: e(3) GetSignedMessage_def)
  then have "checkSigs K (GetSignedMessage tx) (Senders tx) (Signatures tx) = Inr ()" using checkSigs_signAll [OF K e(2)] f by (simp add: e(3))
  then show ?thesis using v f e(3) b(2) reach_trans [OF s(2) v(1)] by (simp add: validOn_def)
qed

end

section \<open>Initial balances\<close>

fun setBalances :: "'k list \<Rightarrow> uint64 list \<Rightarrow> 'k ledger \<Rightarrow> 'k ledger" where
  "setBalances (k # ks) (b # bs) L = setBalances ks bs (L(k := (fst (L k), b)))"
| "setBalances _ _ L = L"

lemma setBalances_supply:
  "finiteLedger L \<Longrightarrow> finiteLedger (setBalances ks bs L) \<and> totalSupply (setBalances ks bs L) \<le> totalSupply L + (\<Sum>b \<leftarrow> bs. unat b)"
proof (induction ks arbitrary: bs L)
  case (Cons k ks)
  show ?case
  proof (cases bs)
    case (Cons b bs')
    define M where "M = L(k := (fst (L k), b))"
    have M: "finiteLedger M" "totalSupply M \<le> totalSupply L + unat b"
      using Cons.prems totalSupply_upd [OF Cons.prems, of k "(fst (L k), b)"] by (simp_all add: M_def)
    then show ?thesis using Cons.IH [OF M(1), of bs'] by (simp add: Cons M_def [symmetric])
  qed (simp add: Cons.prems)
qed simp

context account_store
begin

lemma initAccounts_ok:
  "\<lbrakk>ready at; pubStrings K ps = Inr ks; length bs = length ps\<rbrakk> \<Longrightarrow>
   \<exists>at'. initAccounts K T ps bs at = (at', Inr ()) \<and> reach at (setBalances ks bs (led at)) at'"
proof (induction ps arbitrary: ks bs at)
  case (Cons p ps)
  obtain k ks' where k: "ks = k # ks'" "pubString K p = Inr k" "pubStrings K ps = Inr ks'" using pubStrings_ConsD [OF Cons.prems(2)] by blast
  obtain b bs' where e: "bs = b # bs'" using Cons.prems(3) by (cases bs) auto
  obtain at1 acc where g: "GetAccount K T p at = (at1, Inr acc)" "reach at (led at) at1" "led at k = (TxCounter acc, Balance acc)"
    using get_ok [OF Cons.prems(1) k(2)] by blast
  define M where "M = (led at)(k := (fst (led at k), b))"
  obtain at2 where u: "UpdateAccount K T p (acc\<lparr>Balance := b\<rparr>) at1 = (at2, Inr ())" "reach at1 M at2"
    using update_ok [OF reachD(1) [OF g(2)] k(2), of "acc\<lparr>Balance := b\<rparr>"] g(3) reachD(2) [OF g(2)] by (auto simp: M_def)
  have r: "reach at M at2" by (rule reach_trans [OF g(2) u(2)])
  obtain at3 where l: "initAccounts K T ps bs' at2 = (at3, Inr ())" "reach at2 (setBalances ks' bs' M) at3"
    using Cons.IH [of at2 ks' bs'] Cons.prems(3) k(3) reachD [OF r] by (auto simp: e)
  then show ?case using u(1) reach_trans [OF r l(2)] by (simp add: mustGetAccount_ok [OF g(1)] e k(1) M_def [symmetric])
qed (simp add: reach_refl)

end

end
