(* ===== verification/Currency_Table.thy ===== *)
theory Currency_Table
  imports Currency_Ledger
begin

text \<open>
  The account table on the versioned map: the interpretation of \<open>account_store\<close>, the theorems about validation, consumption,
  blocks and generated transactions, and a run from initial balances that their witnesses use.
\<close>

section \<open>The versioned map as account store\<close>

definition cwmTable :: "nat \<Rightarrow> ('k, 'v, ('k, 'v) cwmHeap) tableOps" where
  "cwmTable i = \<lparr>tRead = Read i, tWrite = Write i\<rparr>"

lemma cwmTable_sel [simp]: "tRead (cwmTable i) = Read i" "tWrite (cwmTable i) = Write i"
  by (simp_all add: cwmTable_def)

lemma finite_view: "finite (dom (view h i))"
proof (rule finite_subset)
  show "dom (view h i) \<subseteq> fst ` set (theMap h)"
  proof
    fix k assume "k \<in> dom (view h i)"
    then have "versions h k \<noteq> []" by (auto simp: view_def viewOf_def itemValue_def)
    then show "k \<in> fst ` set (theMap h)" by (auto simp: versions_def split: option.splits dest: map_of_SomeD intro: rev_image_eqI)
  qed
qed simp

lemma readsKept_refl: "readsKept S h h"
  by (simp add: readsKept_def)

definition othersKept :: "nat \<Rightarrow> ('k, 'v) cwmHeap \<Rightarrow> ('k, 'v) cwmHeap \<Rightarrow> bool" where
  "othersKept i h h' \<longleftrightarrow> cwmCount h' = cwmCount h \<and> readsKept {i} h h'"

lemma othersKept_trans: "othersKept i h1 h2 \<Longrightarrow> othersKept i h2 h3 \<Longrightarrow> othersKept i h1 h3"
  by (simp add: othersKept_def readsKept_def)

interpretation cwmAccounts: account_store "cwmTable i" "writable i" "\<lambda>h. view h i" "othersKept i" for i :: nat
proof
  fix h h1 h2 h3 :: "('k, 'p Account) cwmHeap" and k v
  assume w: "writable i h"
  show "tRead (cwmTable i) k h = Inr (view h i k, view h i k \<noteq> None)" by (simp add: Read_writable [OF w])
  show "\<exists>h'. tWrite (cwmTable i) k v h = Inr h' \<and> writable i h' \<and> view h' i = (view h i)(k \<mapsto> v) \<and> othersKept i h h'"
    using internalWrite_writable [OF w, of False "Some v" k] w by (auto simp: Write_def writable_def othersKept_def)
  show "finite (dom (view h i))" by (rule finite_view)
  show "othersKept i h h" by (simp add: othersKept_def readsKept_refl)
qed (rule othersKept_trans)

definition ledgerAt :: "nat \<Rightarrow> ('k, 'p Account) cwmHeap AccountTable \<Rightarrow> 'k ledger" where
  "ledgerAt i at = ledgerOf (view (accTab at) i)"

text \<open>The table \<open>i\<close> can be written, its supply of money fits into 64 bits.\<close>

definition tableOk :: "nat \<Rightarrow> ('k, 'p Account) cwmHeap AccountTable \<Rightarrow> bool" where
  "tableOk i at \<longleftrightarrow> writable i (accTab at) \<and> totalSupply (ledgerAt i at) < 2 ^ 64"

text \<open>A run left the other tables of the heap as they were, and its own table ready.\<close>

definition tableRun :: "nat \<Rightarrow> ('k, 'p Account) cwmHeap AccountTable \<Rightarrow> ('k, 'p Account) cwmHeap AccountTable \<Rightarrow> bool" where
  "tableRun i at at' \<longleftrightarrow> writable i (accTab at') \<and> othersKept i (accTab at) (accTab at')"

lemma reaches_cwm: "reaches (writable i) (\<lambda>h. view h i) (othersKept i) at L at' \<longleftrightarrow> tableRun i at at' \<and> ledgerAt i at' = L"
  by (auto simp: reaches_def tableRun_def ledgerAt_def)

lemma tableOkI: "writable i (accTab at) \<Longrightarrow> totalSupply (ledgerAt i at) < 2 ^ 64 \<Longrightarrow> tableOk i at"
  by (simp add: tableOk_def)

lemma tableOkD: "tableOk i at \<Longrightarrow> writable i (accTab at)" "tableOk i at \<Longrightarrow> totalSupply (ledgerAt i at) < 2 ^ 64"
  by (simp_all add: tableOk_def)

lemma tableOk_small:
  fixes at :: "('k :: linorder, 'p Account) cwmHeap AccountTable"
  shows "tableOk i at \<Longrightarrow> smallLedger (ledgerAt i at)"
  using cwmAccounts.finiteLedger_led [of i at] by (simp add: tableOk_def smallLedger_def ledgerAt_def)

lemmas cwmValidate = cwmAccounts.ValidateTx_spec [where i = i and at = at for i at, folded ledgerAt_def, unfolded reaches_cwm]
lemmas cwmConsume = cwmAccounts.ConsumeTx_ok [where i = i and at = at for i at, folded ledgerAt_def, unfolded reaches_cwm]
lemmas cwmBlock = cwmAccounts.consumeBlock_spec [where i = i and at = at for i at, folded ledgerAt_def, unfolded reaches_cwm]

section \<open>Payments\<close>

definition leftOf :: "('p, 'q, 's, 'k) keyOps \<Rightarrow> ('p, 's) TransferTx \<Rightarrow> 'p option \<Rightarrow> 'k \<Rightarrow> nat" where
  "leftOf K tx lo k = (case lo of None \<Rightarrow> 0 | Some p \<Rightarrow> if pubString K p = Inr k then remainder tx else 0)"

lemma payLeft_key:
  assumes "validOn K tx vs L" "smallLedger L" "leftOk K tx lo L"
  shows "fst (payLeft K tx lo (transfer K tx L) k) = fst (transfer K tx L k)"
    "unat (snd (payLeft K tx lo (transfer K tx L) k)) = unat (snd (transfer K tx L k)) + leftOf K tx lo k"
proof -
  let ?M = "transfer K tx L"
  have M: "finiteLedger ?M" "totalSupply ?M + remainder tx < 2 ^ 64"
    using transfer_spec(1,2) [OF assms(1)] assms(2) by (auto simp: smallLedger_def)
  have "unat (snd (?M k)) + remainder tx < 2 ^ 64" using totalSupply_ge [OF M(1), of k] M(2) by linarith
  then have u: "unat (snd (?M k) + word_of_nat (remainder tx)) = unat (snd (?M k)) + remainder tx"
    by (simp add: unat_word_ariths unat_of_nat)
  show "fst (payLeft K tx lo ?M k) = fst (?M k)" by (auto simp: payLeft_def split: option.splits sum.splits)
  show "unat (snd (payLeft K tx lo ?M k)) = unat (snd (?M k)) + leftOf K tx lo k"
    using u assms(3) by (auto simp: payLeft_def leftOf_def leftOk_def split: option.splits sum.splits)
qed

lemma consume_valid:
  fixes at :: "('k :: linorder, 'p Account) cwmHeap AccountTable"
  assumes ok: "tableOk i at" and v: "ValidateTx K (cwmTable i) tx vs lo at = (at1, Inr ())"
  shows "\<exists>at2. ConsumeTx K (cwmTable i) tx lo at1 = (at2, Inr ()) \<and> tableRun i at at2 \<and>
    ledgerAt i at2 = payLeft K tx lo (transfer K tx (ledgerAt i at)) \<and>
    validOn K tx vs (ledgerAt i at) \<and> leftOk K tx lo (ledgerAt i at)"
proof -
  have w: "writable i (accTab at)" using ok by (simp add: tableOk_def)
  have a: "tableRun i at at1" "ledgerAt i at1 = ledgerAt i at" "validOn K tx vs (ledgerAt i at)" "leftOk K tx lo (ledgerAt i at)"
    using cwmValidate [OF w, of K tx vs lo] v by auto
  obtain at2 where c: "ConsumeTx K (cwmTable i) tx lo at1 = (at2, Inr ())" "tableRun i at1 at2"
    "ledgerAt i at2 = payLeft K tx lo (transfer K tx (ledgerAt i at))"
    using cwmConsume [of i at1 K tx vs lo] a tableOk_small [OF ok] by (auto simp: tableRun_def)
  then show ?thesis using a othersKept_trans [of i "accTab at" "accTab at1" "accTab at2"] by (auto simp: tableRun_def)
qed

text \<open>
  C30 (a valid payment goes through). On a table that can be written, and whose balances sum up to less than \<open>2 ^ 64\<close>, consuming a
  transaction that \<^verbatim>\<open>ValidateTx\<close> accepted returns. It raises the counter of exactly the senders by one, takes from each account what it
  sends and adds what it receives and, for the left-over key, what is sent and not received; no account over- or underflows. The
  sum of all balances stays the same, or decreases by the left-over amount when there is no left-over key. Other tables keep
  their contents.
\<close>

theorem currency_consume:
  fixes at :: "('k :: linorder, 'p Account) cwmHeap AccountTable"
  assumes "writable i (accTab at)" and "totalSupply (ledgerAt i at) < 2 ^ 64" and "ValidateTx K (cwmTable i) tx vs lo at = (at1, Inr ())"
  shows "\<exists>at2. ConsumeTx K (cwmTable i) tx lo at1 = (at2, Inr ()) \<and> tableRun i at at2 \<and>
    (\<forall>k. fst (ledgerAt i at2 k) = fst (ledgerAt i at k) + (if k \<in> set (pubKeys K (Senders tx)) then 1 else 0)) \<and>
    (\<forall>k. unat (snd (ledgerAt i at2 k)) + amountOf (pubKeys K (Senders tx)) (SendAmounts tx) k =
       unat (snd (ledgerAt i at k)) + amountOf (pubKeys K (Recipiants tx)) (ReceiveAmounts tx) k + leftOf K tx lo k) \<and>
    totalSupply (ledgerAt i at2) + (if lo = None then remainder tx else 0) = totalSupply (ledgerAt i at)"
proof -
  obtain at2 where c: "ConsumeTx K (cwmTable i) tx lo at1 = (at2, Inr ())" "tableRun i at at2"
    "ledgerAt i at2 = payLeft K tx lo (transfer K tx (ledgerAt i at))" and v: "validOn K tx vs (ledgerAt i at)" "leftOk K tx lo (ledgerAt i at)"
    using consume_valid [OF tableOkI [OF assms(1,2)] assms(3)] by blast
  have s: "smallLedger (ledgerAt i at)" by (rule tableOk_small [OF tableOkI [OF assms(1,2)]])
  note p = payLeft_spec [OF v(1) s v(2), folded c(3)] and q = payLeft_key [OF v(1) s v(2), folded c(3)]
  have t: "finiteLedger (ledgerAt i at)" "totalSupply (ledgerAt i at) < 2 ^ 64" using s by (simp_all add: smallLedger_def)
  show ?thesis using c(1,2) p(2) q transfer_spec(3,4) [OF v(1) t] by simp
qed

section \<open>Blocks\<close>

text \<open>
  C31 (a decided block). On a table that can be written and whose supply fits into 64 bits, processing the transactions of a decided block
  does not panic, whatever they are, as long as the methods of the keys do not. The result is that of the abstract ledger: each transaction
  in turn either moves the money, or, when it is not valid then, changes nothing. The supply never grows, so the condition is kept. With a
  larger supply a block can make the code panic (\<open>consumeBlock_overflow_panics\<close> below).
\<close>

theorem currency_block:
  fixes at :: "('k :: linorder, 'p Account) cwmHeap AccountTable"
  assumes "writable i (accTab at)" and "totalSupply (ledgerAt i at) < 2 ^ 64" and "keysReturn K"
  shows "\<exists>at'. consumeBlock K (cwmTable i) txs at = (at', Inr ()) \<and> tableRun i at at' \<and>
    ledgerAt i at' = fold (ledgerStep K) txs (ledgerAt i at) \<and> totalSupply (ledgerAt i at') \<le> totalSupply (ledgerAt i at)"
proof -
  have s: "smallLedger (ledgerAt i at)" by (rule tableOk_small [OF tableOkI [OF assms(1,2)]])
  show ?thesis using cwmBlock [OF assms(1) s, of K txs] assms(3) ledgerRun_small [OF s, of K txs] by auto
qed

text \<open>
  C32 (no replay). On a table whose supply fits into 64 bits, a transaction that was validated and consumed is rejected after any number below \<open>2 ^ 64 - 1\<close> of further
  transactions were processed, in whatever blocks, with or without the check of the signatures.
\<close>

theorem currency_no_replay:
  fixes at :: "('k :: linorder, 'p Account) cwmHeap AccountTable"
  assumes "tableOk i at" and "length txs + 1 < 2 ^ 64"
    and "ValidateTx K (cwmTable i) tx vs None at = (at1, Inr ())" and "ConsumeTx K (cwmTable i) tx None at1 = (at2, Inr ())"
    and "consumeBlock K (cwmTable i) txs at2 = (at3, Inr ())"
  shows "snd (ValidateTx K (cwmTable i) tx vs' lo at3) \<noteq> Inr ()"
proof -
  have c: "tableRun i at at2" "ledgerAt i at2 = transfer K tx (ledgerAt i at)" "validOn K tx vs (ledgerAt i at)"
    using consume_valid [OF assms(1,3)] assms(4) by auto
  have s: "smallLedger (ledgerAt i at)" by (rule tableOk_small [OF assms(1)])
  have w: "writable i (accTab at2)" using c(1) by (simp add: tableRun_def)
  have b: "tableRun i at2 at3" "ledgerAt i at3 = ledgerRun K txs (transfer K tx (ledgerAt i at))"
    using cwmBlock [OF w, of K txs] transfer_small [OF c(3) s] assms(5) c(2) by auto
  have "writable i (accTab at3)" using b(1) by (simp add: tableRun_def)
  then show ?thesis using cwmValidate [of i at3 K tx vs' lo] no_replay_ledger [OF c(3) s assms(2), of vs'] b(2) by auto
qed

text \<open>
  C33 (no theft). On a table whose supply fits into 64 bits, when processing a block makes the balance of a key smaller, the block has a transaction with that key among its
  senders, with a signature that verifies for the key and the signed bytes of the transaction.
\<close>

theorem currency_no_theft:
  fixes at :: "('k :: linorder, 'p Account) cwmHeap AccountTable"
  assumes "tableOk i at" and "consumeBlock K (cwmTable i) txs at = (at', Inr ())"
    and "snd (ledgerAt i at' k) < snd (ledgerAt i at k)"
  shows "\<exists>tx \<in> set txs. \<exists>j < length (Senders tx). pubString K (Senders tx ! j) = Inr k \<and>
    verifySig K (Senders tx ! j) (GetSignedMessage tx) (Signatures tx ! j) = (True, None)"
proof -
  have w: "writable i (accTab at)" using assms(1) by (simp add: tableOk_def)
  have s: "smallLedger (ledgerAt i at)" by (rule tableOk_small [OF assms(1)])
  have "ledgerAt i at' = ledgerRun K txs (ledgerAt i at)" using cwmBlock [OF w s, of K txs] assms(2) by auto
  then show ?thesis using no_theft_ledger [OF s, of K txs k] assms(3) by (auto simp: txSignedBy_def)
qed

text \<open>
  A transaction that \<^verbatim>\<open>GenerateTx\<close> returns without error transfers what was asked for and is accepted
  by \<^verbatim>\<open>ValidateTx\<close> with the check of its signatures on the table it was made for.
\<close>

lemma currency_generated:
  fixes at :: "('k :: linorder, 'p Account) cwmHeap AccountTable"
  assumes "writable i (accTab at)" and "signsVerify K"
    and "GenerateTx K (cwmTable i) senders amounts recipiants receiveAmounts at = (at1, Inr tx)"
  shows "\<exists>at2. ValidateTx K (cwmTable i) tx True None at1 = (at2, Inr ()) \<and> ledgerAt i at2 = ledgerAt i at \<and>
    Senders tx = map (privPub K) senders \<and> SendAmounts tx = amounts \<and> Recipiants tx = recipiants \<and> ReceiveAmounts tx = receiveAmounts"
proof -
  have g: "tableRun i at at1" "ledgerAt i at1 = ledgerAt i at" "validOn K tx True (ledgerAt i at)" "Senders tx = map (privPub K) senders"
    "SendAmounts tx = amounts" "Recipiants tx = recipiants" "ReceiveAmounts tx = receiveAmounts"
    using cwmAccounts.GenerateTx_valid [OF assms(1,2,3), folded ledgerAt_def, unfolded reaches_cwm] by auto
  have "writable i (accTab at1)" using g(1) by (simp add: tableRun_def)
  then show ?thesis using cwmValidate [of i at1 K tx True None] g by auto
qed

section \<open>Initial tables and a run\<close>

definition NewAccountTable :: "('k, 'p Account) cwmHeap AccountTable" where
  "NewAccountTable = \<lparr>accTab = NewCopyWriteMap, accStats = newStats\<rparr>"

lemma ledgerAt_New [simp]: "ledgerAt 0 NewAccountTable = (\<lambda>_. (0, 0))" "writable 0 (accTab NewAccountTable)"
  by (auto simp: ledgerAt_def NewAccountTable_def ledgerOf_def writable_New fun_eq_iff)

lemma totalSupply_zero [simp]: "totalSupply (\<lambda>_. (c, 0)) = 0" "finiteLedger (\<lambda>_. (c, 0))"
  by (simp_all add: totalSupply_def finiteLedger_def)

lemma init_tableOk:
  fixes K :: "('p, 'q, 's, 'k :: linorder) keyOps"
  assumes "pubStrings K ps = Inr ks" "length bs = length ps" "(\<Sum>b \<leftarrow> bs. unat b) < 2 ^ 64"
  shows "\<exists>at. initAccounts K (cwmTable 0) ps bs NewAccountTable = (at, Inr ()) \<and> tableOk 0 at \<and>
    ledgerAt 0 at = setBalances ks bs (\<lambda>_. (0, 0)) \<and> totalSupply (ledgerAt 0 at) \<le> (\<Sum>b \<leftarrow> bs. unat b)"
proof -
  obtain at :: "('k, 'p Account) cwmHeap AccountTable" where a: "initAccounts K (cwmTable 0) ps bs NewAccountTable = (at, Inr ())"
    "tableRun 0 NewAccountTable at" "ledgerAt 0 at = setBalances ks bs (\<lambda>_. (0, 0))"
    using cwmAccounts.initAccounts_ok [OF ledgerAt_New(2) assms(1,2), folded ledgerAt_def, unfolded reaches_cwm] by auto
  then show ?thesis using setBalances_supply [of "\<lambda>_. (0, 0)" ks bs] assms(3) by (auto simp: tableOk_def tableRun_def)
qed

text \<open>Keys that are numbers; key \<open>q\<close> signs with \<open>q\<close>, and one byte is the encoding of a key and of a signature.\<close>

definition demoKeys :: "(nat, nat, nat, nat) keyOps" where
  "demoKeys = \<lparr>pubString = Inr, verifySig = (\<lambda>p m sg. (sg = Some p, None)), privPub = id, privSign = (\<lambda>q m. Inr q),
     pubEncode = (\<lambda>p. if p < 256 then Inr [word_of_nat p] else Inl ErrInvalidBuffSize), pubDecode = (\<lambda>b. case b of [] \<Rightarrow> Inl EOF | x # xs \<Rightarrow> Inr (unat x, 1, xs)),
     sigEncode = (\<lambda>s. if s < 256 then Inr [word_of_nat s] else Inl ErrInvalidBuffSize), sigDecode = (\<lambda>b. case b of [] \<Rightarrow> Inl EOF | x # xs \<Rightarrow> Inr (unat x, 1, xs))\<rparr>"

definition demoTable :: "(nat, nat Account) cwmHeap AccountTable" where
  "demoTable = fst (initAccounts demoKeys (cwmTable 0) [1, 2] [100, 5] NewAccountTable)"

definition demoTx :: "uint64 \<Rightarrow> (nat, nat) TransferTx" where
  "demoTx amount = \<lparr>Senders = [1], Signatures = [Some 1], SenderTxCounters = [1], Recipiants = [2, 3], SendAmounts = [amount],
     ReceiveAmounts = [10, 20], SignedBytes = Some []\<rparr>"

lemma demoKeys_laws: "keysReturn demoKeys" "signsVerify demoKeys"
  by (simp_all add: demoKeys_def keysReturn_def signsVerify_def)

lemma demo_tableOk: "tableOk 0 demoTable" "ledgerAt 0 demoTable = setBalances [1, 2] [100, 5] (\<lambda>_. (0, 0))"
proof -
  have p: "pubStrings demoKeys [1, 2] = Inr [1, 2]" by (simp add: demoKeys_def)
  obtain at :: "(nat, nat Account) cwmHeap AccountTable" where at: "initAccounts demoKeys (cwmTable 0) [1, 2] [100, 5] NewAccountTable = (at, Inr ())"
    "tableOk 0 at" "ledgerAt 0 at = setBalances [1, 2] [100, 5] (\<lambda>_. (0, 0))" using init_tableOk [OF p, of "[100, 5]"] by auto
  then show "tableOk 0 demoTable" "ledgerAt 0 demoTable = setBalances [1, 2] [100, 5] (\<lambda>_. (0, 0))" by (simp_all add: demoTable_def)
qed

theorem currency_consume_witness:
  "\<exists>at1 at2. ValidateTx demoKeys (cwmTable 0) (demoTx 40) True (Some 4) demoTable = (at1, Inr ()) \<and>
    ConsumeTx demoKeys (cwmTable 0) (demoTx 40) (Some 4) at1 = (at2, Inr ()) \<and>
    unat (snd (ledgerAt 0 at2 1)) = 60 \<and> unat (snd (ledgerAt 0 at2 2)) = 15 \<and> unat (snd (ledgerAt 0 at2 3)) = 20 \<and>
    unat (snd (ledgerAt 0 at2 4)) = 10 \<and> fst (ledgerAt 0 at2 1) = 1"
proof -
  define at1 where "at1 = fst (ValidateTx demoKeys (cwmTable 0) (demoTx 40) True (Some 4) demoTable)"
  have "snd (ValidateTx demoKeys (cwmTable 0) (demoTx 40) True (Some 4) demoTable) = Inr ()" by code_simp
  then have v: "ValidateTx demoKeys (cwmTable 0) (demoTx 40) True (Some 4) demoTable = (at1, Inr ())" by (simp add: at1_def prod_eq_iff)
  have k: "pubKeys demoKeys (Senders (demoTx 40)) = [1]" "pubKeys demoKeys (Recipiants (demoTx 40)) = [2, 3]" "remainder (demoTx 40) = 10"
    by (simp_all add: pubKeys_def demoKeys_def demoTx_def remainder_def)
  have l: "leftOf demoKeys (demoTx 40) (Some 4) x = (if x = 4 then 10 else 0)" for x by (simp add: leftOf_def k(3)) (simp add: demoKeys_def)
  obtain at2 where c: "ConsumeTx demoKeys (cwmTable 0) (demoTx 40) (Some 4) at1 = (at2, Inr ())"
    and f: "\<And>k. fst (ledgerAt 0 at2 k) = fst (ledgerAt 0 demoTable k) + (if k \<in> set [1] then 1 else 0)"
    and b: "\<And>k. unat (snd (ledgerAt 0 at2 k)) + amountOf [1] (SendAmounts (demoTx 40)) k =
      unat (snd (ledgerAt 0 demoTable k)) + amountOf [2, 3] (ReceiveAmounts (demoTx 40)) k + (if k = 4 then 10 else 0)"
    using currency_consume [OF tableOkD [OF demo_tableOk(1)] v] unfolding k l by blast
  show ?thesis using v c f [of 1] b [of 1] b [of 2] b [of 3] b [of 4] by (simp add: demo_tableOk(2) demoTx_def)
qed

theorem currency_block_witness:
  "\<exists>at'. consumeBlock demoKeys (cwmTable 0) [demoTx 40, demoTx 40, demoTx 1000] demoTable = (at', Inr ()) \<and>
    ledgerAt 0 at' = fold (ledgerStep demoKeys) [demoTx 40, demoTx 40, demoTx 1000] (ledgerAt 0 demoTable) \<and>
    ledgerStep demoKeys (demoTx 40) (ledgerAt 0 demoTable) 2 = (0, 15)"
proof -
  have "ledgerStep demoKeys (demoTx 40) (ledgerAt 0 demoTable) 2 = (0, 15)" unfolding demo_tableOk(2) by code_simp
  then show ?thesis using currency_block [OF tableOkD [OF demo_tableOk(1)] demoKeys_laws(1), of "[demoTx 40, demoTx 40, demoTx 1000]"] by blast
qed

definition demoPaid :: "(nat, nat Account) cwmHeap AccountTable" where
  "demoPaid = fst (ConsumeTx demoKeys (cwmTable 0) (demoTx 40) None (fst (ValidateTx demoKeys (cwmTable 0) (demoTx 40) True None demoTable)))"

theorem currency_no_replay_witness:
  "snd (ValidateTx demoKeys (cwmTable 0) (demoTx 40) False None (fst (consumeBlock demoKeys (cwmTable 0) [demoTx 50] demoPaid))) \<noteq> Inr ()"
proof -
  let ?v = "ValidateTx demoKeys (cwmTable 0) (demoTx 40) True None demoTable"
  have "snd ?v = Inr ()" by code_simp
  then have v: "?v = (fst ?v, Inr ())" by (simp add: prod_eq_iff)
  have "snd (ConsumeTx demoKeys (cwmTable 0) (demoTx 40) None (fst ?v)) = Inr ()" by code_simp
  then have c: "ConsumeTx demoKeys (cwmTable 0) (demoTx 40) None (fst ?v) = (demoPaid, Inr ())" by (simp add: prod_eq_iff demoPaid_def)
  have "snd (consumeBlock demoKeys (cwmTable 0) [demoTx 50] demoPaid) = Inr ()" by code_simp
  then have b: "consumeBlock demoKeys (cwmTable 0) [demoTx 50] demoPaid = (fst (consumeBlock demoKeys (cwmTable 0) [demoTx 50] demoPaid), Inr ())"
    by (simp only: prod_eq_iff fst_conv snd_conv)
  show ?thesis by (rule currency_no_replay [OF demo_tableOk(1) _ v c b]) simp
qed

theorem currency_no_theft_witness:
  "\<exists>j < length (Senders (demoTx 40)). pubString demoKeys (Senders (demoTx 40) ! j) = Inr 1 \<and>
    verifySig demoKeys (Senders (demoTx 40) ! j) (GetSignedMessage (demoTx 40)) (Signatures (demoTx 40) ! j) = (True, None)"
proof -
  let ?b = "consumeBlock demoKeys (cwmTable 0) [demoTx 40] demoTable"
  have "snd ?b = Inr ()" by code_simp
  then have b: "?b = (fst ?b, Inr ())" by (simp only: prod_eq_iff fst_conv snd_conv)
  have "snd (ledgerAt 0 (fst ?b) 1) < snd (ledgerAt 0 demoTable 1)" by code_simp
  from currency_no_theft [OF demo_tableOk(1) b this] show ?thesis by simp
qed

text \<open>
  \<^verbatim>\<open>ValidateTx\<close> does not look at the balances of the recipients, and the initial balances are not bounded: when the supply exceeds
  64 bits, a decided block can hold a transaction that validates and on which \<^verbatim>\<open>ConsumeTx\<close> panics, on every node.
\<close>

definition richTable :: "(nat, nat Account) cwmHeap AccountTable" where
  "richTable = fst (initAccounts demoKeys (cwmTable 0) [1, 2] [100, 18446744073709551615] NewAccountTable)"

lemma consumeBlock_overflow_panics:
  "snd (ValidateTx demoKeys (cwmTable 0) (demoTx 40) True None richTable) = Inr () \<and>
   snd (consumeBlock demoKeys (cwmTable 0) [demoTx 40] richTable) = Inl (Panic ''integer overflow'')"
  by code_simp

text \<open>
  Looking up an account that is not there writes it, so validating a transaction of an unknown sender panics on a table that was
  copied for the next index, as \<^verbatim>\<open>ValidateProposal\<close> and the propose thread may do.
\<close>

lemma ValidateTx_copied_panics:
  "case Copy 0 (accTab demoTable) of Inl _ \<Rightarrow> False
   | Inr (_, h) \<Rightarrow> snd (ValidateTx demoKeys (cwmTable 0) ((demoTx 40)\<lparr>Senders := [9]\<rparr>) True None (demoTable\<lparr>accTab := h\<rparr>)) =
       Inl (Panic ''write after copy'')"
  by code_simp

end
