(* ===== verification/Merkle.thy ===== *)
theory Merkle
  imports Numbers
begin

text \<open>
  The Merkle root of \<^verbatim>\<open>src/consensus/merkle/merkle.go\<close>. The items are given by their hashes, and \<open>H\<close> is the hash function that
  \<^verbatim>\<open>newFunc\<close> makes. The nodes of a level are the children of the level above, the leaves are on the first level that has room for
  all items, and a position past the last item is the nil hash.
\<close>

section \<open>Definitions\<close>

definition computeParent :: "(byte list \<Rightarrow> byte list) \<Rightarrow> byte list list \<Rightarrow> byte list" where
  "computeParent H items = H (concat items)"

text \<open>\<open>None\<close> when the recursion is deeper than the first argument, which for a width of 1 it always is.\<close>

fun recCompute :: "nat \<Rightarrow> (byte list \<Rightarrow> byte list) \<Rightarrow> byte list list \<Rightarrow> nat \<Rightarrow> nat \<Rightarrow> nat \<Rightarrow> byte list option" where
  "recCompute 0 H allItems myIndex depth width = None"
| "recCompute (Suc fuel) H allItems myIndex depth width =
     (if sint (Exp (word_of_nat width) (int depth)) \<ge> int (length allItems)
      then Some (if myIndex \<ge> length allItems then [] else allItems ! myIndex)
      else map_option (computeParent H)
             (those (map (\<lambda>i. recCompute fuel H allItems (myIndex * width + i) (depth + 1) width) [0..<width])))"

definition ComputeMerkleRoot :: "nat \<Rightarrow> (byte list \<Rightarrow> byte list) \<Rightarrow> byte list list \<Rightarrow> nat \<Rightarrow> byte list option" where
  "ComputeMerkleRoot fuel H allItems width = recCompute fuel H allItems 0 0 width"

text \<open>
  The collision that two lists with the same root exhibit: the inputs of the first pair of nodes, from the root
  downwards, that differ.
\<close>

definition childHashes :: "nat \<Rightarrow> (byte list \<Rightarrow> byte list) \<Rightarrow> byte list list \<Rightarrow> nat \<Rightarrow> nat \<Rightarrow> nat \<Rightarrow> byte list list" where
  "childHashes fuel H items i d w = map (\<lambda>j. the (recCompute fuel H items (i * w + j) (d + 1) w)) [0..<w]"

fun firstSome :: "('a \<Rightarrow> 'b option) \<Rightarrow> 'a list \<Rightarrow> 'b option" where
  "firstSome f [] = None"
| "firstSome f (x # xs) = (case f x of None \<Rightarrow> firstSome f xs | Some y \<Rightarrow> Some y)"

fun merkleClash :: "nat \<Rightarrow> (byte list \<Rightarrow> byte list) \<Rightarrow> byte list list \<Rightarrow> byte list list \<Rightarrow> nat \<Rightarrow> nat \<Rightarrow> nat \<Rightarrow> (byte list \<times> byte list) option" where
  "merkleClash 0 H xs ys i d w = None"
| "merkleClash (Suc fuel) H xs ys i d w =
     (if sint (Exp (word_of_nat w) (int d)) \<ge> int (length xs) then None
      else let a = concat (childHashes fuel H xs i d w); b = concat (childHashes fuel H ys i d w)
           in if a \<noteq> b then Some (a, b) else firstSome (\<lambda>j. merkleClash fuel H xs ys (i * w + j) (d + 1) w) [0..<w])"

section \<open>Levels\<close>

lemma funpow_times: "((\<lambda>ret. ret * x) ^^ d) 1 = (x :: 'a :: comm_monoid_mult) ^ d"
  by (induction d) (simp_all add: mult.commute)

lemma len64: "LENGTH(64) - Suc 0 = 63"
  by simp

lemma Exp_small:
  assumes "w ^ d < 2 ^ 63"
  shows "sint (Exp (word_of_nat w) (int d)) = int (w ^ d)"
proof -
  have "Exp (word_of_nat w) (int d) = word_of_nat (w ^ d)" by (simp add: Exp_def funpow_times)
  moreover have "int (w ^ d) < 2 ^ 63" using assms by (metis of_nat_less_iff of_nat_numeral of_nat_power)
  then have "signed_take_bit 63 (int (w ^ d)) = int (w ^ d)" 
    using signed_take_bit_int_eq_self [of 63 "int (w ^ d)"] of_nat_0_le_iff [of "w ^ d", where 'a = int] by linarith
  then have "sint (word_of_nat (w ^ d) :: 64 word) = int (w ^ d)" by (subst signed_of_nat) (simp only: len64, simp)
  ultimately show ?thesis by (simp only:)
qed

text \<open>The parameters of a node for which the recursion below it ends, and the children of an inner node are such again.\<close>

definition nodeOk :: "nat \<Rightarrow> nat \<Rightarrow> nat \<Rightarrow> nat \<Rightarrow> bool" where
  "nodeOk fuel n d w \<longleftrightarrow> 2 \<le> w \<and> n * w < 2 ^ 63 \<and> w ^ d < 2 ^ 63 \<and> d \<le> n \<and> n < fuel + d"

lemma nodeOk_child:
  assumes "nodeOk (Suc fuel) n d w" "w ^ d < n"
  shows "nodeOk fuel n (d + 1) w"
proof -
  have w: "2 \<le> w" "n * w < 2 ^ 63" "n < Suc fuel + d" using assms(1) by (auto simp: nodeOk_def)
  have "d < w ^ d" using w(1) by (intro power_gt_expt) simp
  moreover have "w ^ d * w \<le> n * w" using assms(2) by (intro mult_le_mono1) simp
  then have "w ^ (d + 1) < 2 ^ 63" using w(2) by (simp only: power_add power_one_right)
  ultimately show ?thesis using w assms(2) by (simp add: nodeOk_def)
qed

lemma recCompute_some: "nodeOk fuel (length items) d w \<Longrightarrow> \<exists>h. recCompute fuel H items i d w = Some h"
proof (induction fuel arbitrary: i d)
  case (Suc fuel)
  have e: "sint (Exp (word_of_nat w) (int d)) = int (w ^ d)" by (rule Exp_small) (use Suc.prems in \<open>simp add: nodeOk_def\<close>)
  show ?case
  proof (cases "w ^ d < length items")
    case True
    have "those (map (\<lambda>j. recCompute fuel H items (i * w + j) (d + 1) w) [0..<w]) \<noteq> None"
      using Suc.IH [OF nodeOk_child [OF Suc.prems True]] those_map [of "\<lambda>j. recCompute fuel H items (i * w + j) (d + 1) w" "[0..<w]"] by fastforce
    then show ?thesis using True e by auto
  qed (use e in simp)
qed (auto simp: nodeOk_def)

lemma recCompute_inner:
  assumes "nodeOk (Suc fuel) (length items) d w" "w ^ d < length items"
  shows "recCompute (Suc fuel) H items i d w = Some (H (concat (childHashes fuel H items i d w)))"
proof -
  have e: "sint (Exp (word_of_nat w) (int d)) = int (w ^ d)" by (rule Exp_small) (use assms(1) in \<open>simp add: nodeOk_def\<close>)
  have "\<forall>j. recCompute fuel H items (i * w + j) (d + 1) w \<noteq> None" using recCompute_some [OF nodeOk_child [OF assms], of H] by fastforce
  then have "those (map (\<lambda>j. recCompute fuel H items (i * w + j) (d + 1) w) [0..<w]) = Some (childHashes fuel H items i d w)"
    by (simp add: those_map childHashes_def)
  then show ?thesis using assms(2) e by (simp add: computeParent_def)
qed

lemma recCompute_leaf:
  assumes "nodeOk (Suc fuel) (length items) d w" "length items \<le> w ^ d"
  shows "recCompute (Suc fuel) H items i d w = Some (if i \<ge> length items then [] else items ! i)"
proof -
  have "sint (Exp (word_of_nat w) (int d)) = int (w ^ d)" by (rule Exp_small) (use assms(1) in \<open>simp add: nodeOk_def\<close>)
  then show ?thesis using assms(2) by simp
qed

section \<open>Binding\<close>

lemma concat_eq_lengths:
  "\<lbrakk>concat xs = concat ys; length xs = length ys; \<forall>i < length xs. length (xs ! i) = length (ys ! i)\<rbrakk> \<Longrightarrow> xs = ys"
proof (induction xs ys rule: list_induct2')
  case (4 x xs y ys)
  have "length x = length y" using "4.prems"(3) by fastforce
  moreover have "\<forall>i < length xs. length (xs ! i) = length (ys ! i)" using "4.prems"(3) by fastforce
  ultimately show ?case using "4.IH" "4.prems"(1,2) by simp
qed simp_all

lemma firstSome_None: "firstSome f xs = None \<longleftrightarrow> (\<forall>x \<in> set xs. f x = None)"
  by (induction xs) (auto split: option.splits)

lemma firstSome_SomeD: "firstSome f xs = Some y \<Longrightarrow> \<exists>x \<in> set xs. f x = Some y"
  by (induction xs) (auto split: option.splits)

text \<open>Item \<open>j\<close> is a leaf below the node \<open>(i, d)\<close>.\<close>

definition belowNode :: "nat \<Rightarrow> nat \<Rightarrow> nat \<Rightarrow> nat \<Rightarrow> nat \<Rightarrow> bool" where
  "belowNode n w i d j \<longleftrightarrow> j < n \<and> (\<exists>e. n \<le> w ^ (d + e) \<and> (\<forall>e' < e. w ^ (d + e') < n) \<and> j div w ^ e = i)"

lemma below_leaf: "belowNode n w i d j \<Longrightarrow> n \<le> w ^ d \<Longrightarrow> j = i"
proof -
  assume "belowNode n w i d j" and le: "n \<le> w ^ d"
  then obtain e where e: "\<forall>e' < e. w ^ (d + e') < n" "j div w ^ e = i" by (auto simp: belowNode_def)
  have "e = 0" using e(1) le by (cases e) (auto dest: spec [of _ 0])
  then show "j = i" using e(2) by simp
qed

lemma below_inner:
  assumes "belowNode n w i d j" "w ^ d < n" "2 \<le> w"
  shows "\<exists>c < w. belowNode n w (i * w + c) (d + 1) j"
proof -
  obtain e where e: "j < n" "n \<le> w ^ (d + e)" "\<forall>e' < e. w ^ (d + e') < n" "j div w ^ e = i" using assms(1) by (auto simp: belowNode_def)
  obtain e1 where e1: "e = Suc e1" using e(2) assms(2) by (cases e) auto
  have "j div w ^ e = (j div w ^ e1) div w" using div_mult2_eq [of j "w ^ e1" w] by (simp add: e1 mult.commute)
  then have "j div w ^ e1 = i * w + (j div w ^ e1) mod w" using e(4) by (metis div_mult_mod_eq)
  moreover have "\<forall>e' < e1. w ^ (d + 1 + e') < n" using e(3) by (auto simp: e1)
  ultimately have "belowNode n w (i * w + (j div w ^ e1) mod w) (d + 1) j" using e(1,2) by (auto simp: belowNode_def e1 intro!: exI [of _ e1])
  then show ?thesis using assms(3) by (intro exI [of _ "(j div w ^ e1) mod w"]) simp
qed

lemma below_root: "j < n \<Longrightarrow> 2 \<le> w \<Longrightarrow> belowNode n w 0 0 j"
proof -
  assume j: "j < n" and w: "2 \<le> w"
  have "n \<le> w ^ n" using w power_gt_expt [of w n] by simp
  then have e: "n \<le> w ^ (LEAST e. n \<le> w ^ e)" by (rule LeastI)
  moreover have "w ^ e' < n" if "e' < (LEAST e. n \<le> w ^ e)" for e' using not_less_Least [OF that] by simp
  ultimately show "belowNode n w 0 0 j" using j by (auto simp: belowNode_def intro!: exI [of _ "LEAST e. n \<le> w ^ e"])
qed

lemma merkle_binding:
  assumes H: "\<forall>z. length (H z) = hl" and len: "length ys = length xs" and hl: "\<forall>x \<in> set xs \<union> set ys. length x = hl"
  shows "nodeOk fuel (length xs) d w \<Longrightarrow> \<exists>a b. recCompute fuel H xs i d w = Some a \<and> recCompute fuel H ys i d w = Some b \<and> length a = length b \<and>
    (a = b \<longrightarrow> (case merkleClash fuel H xs ys i d w of
        Some (u, v) \<Rightarrow> u \<noteq> v \<and> H u = H v | None \<Rightarrow> (\<forall>j. belowNode (length xs) w i d j \<longrightarrow> xs ! j = ys ! j)))"
proof (induction fuel arbitrary: i d)
  case (Suc fuel)
  have e: "sint (Exp (word_of_nat w) (int d)) = int (w ^ d)" by (rule Exp_small) (use Suc.prems in \<open>simp add: nodeOk_def\<close>)
  have ok: "nodeOk (Suc fuel) (length ys) d w" using Suc.prems len by simp
  show ?case
  proof (cases "w ^ d < length xs")
    case False
    have l: "length (xs ! i) = length (ys ! i)" if "i < length xs" using hl len that by simp
    have j: "j = i" "i < length xs" if "belowNode (length xs) w i d j" for j
      using below_leaf [OF that] False that by (auto simp: belowNode_def)
    have c: "merkleClash (Suc fuel) H xs ys i d w = None" using False e by simp
    have rx: "recCompute (Suc fuel) H xs i d w = Some (if i \<ge> length xs then [] else xs ! i)"
      "recCompute (Suc fuel) H ys i d w = Some (if i \<ge> length xs then [] else ys ! i)"
      using recCompute_leaf [OF Suc.prems, of H i] recCompute_leaf [OF ok, of H i] False len by simp_all
    show ?thesis unfolding rx c using l j by fastforce
  next
    case True
    let ?cx = "childHashes fuel H xs i d w" and ?cy = "childHashes fuel H ys i d w"
    note IH = Suc.IH [OF nodeOk_child [OF Suc.prems True]]
    have rx: "recCompute (Suc fuel) H xs i d w = Some (H (concat ?cx))" by (rule recCompute_inner [OF Suc.prems True])
    have ry: "recCompute (Suc fuel) H ys i d w = Some (H (concat ?cy))" by (rule recCompute_inner [OF ok]) (use True len in simp)
    have lens: "\<forall>j < length ?cx. length (?cx ! j) = length (?cy ! j)" 
    proof (intro allI impI)
      fix j assume "j < length ?cx"
      then have "j < w" by (simp add: childHashes_def)
      moreover obtain a b where "recCompute fuel H xs (i * w + j) (d + 1) w = Some a" "recCompute fuel H ys (i * w + j) (d + 1) w = Some b"
        "length a = length b" using IH [of "i * w + j"] by blast
      ultimately show "length (?cx ! j) = length (?cy ! j)" by (simp add: childHashes_def)
    qed
    have clash: "merkleClash (Suc fuel) H xs ys i d w = (if concat ?cx \<noteq> concat ?cy then Some (concat ?cx, concat ?cy)
        else firstSome (\<lambda>j. merkleClash fuel H xs ys (i * w + j) (d + 1) w) [0..<w])" using True e by (simp add: Let_def)
    show ?thesis
    proof (cases "concat ?cx = concat ?cy")
      case False
      then show ?thesis unfolding rx ry clash using H by simp
    next
      case True': True
      then have c: "?cx = ?cy" by (rule concat_eq_lengths) (use lens in \<open>simp_all add: childHashes_def\<close>)
      have ch: "case merkleClash fuel H xs ys (i * w + j) (d + 1) w of Some (u, v) \<Rightarrow> u \<noteq> v \<and> H u = H v
          | None \<Rightarrow> (\<forall>k. belowNode (length xs) w (i * w + j) (d + 1) k \<longrightarrow> xs ! k = ys ! k)" if "j < w" for j
      proof -
        have "the (recCompute fuel H xs (i * w + j) (d + 1) w) = the (recCompute fuel H ys (i * w + j) (d + 1) w)"
          using arg_cong [OF c, of "\<lambda>l. l ! j"] that by (simp add: childHashes_def)
        then show ?thesis using IH [of "i * w + j"] by auto
      qed
      have b: "\<exists>j < w. belowNode (length xs) w (i * w + j) (d + 1) k" if "belowNode (length xs) w i d k" for k
        using below_inner [OF that True] Suc.prems by (simp add: nodeOk_def)
      show ?thesis
      proof (cases "firstSome (\<lambda>j. merkleClash fuel H xs ys (i * w + j) (d + 1) w) [0..<w]")
        case None
        then have "xs ! k = ys ! k" if "belowNode (length xs) w i d k" for k
          using ch b [OF that] by (fastforce simp: firstSome_None)
        then show ?thesis unfolding rx ry clash using True' None by simp
      next
        case (Some uv)
        then show ?thesis unfolding rx ry clash using True' ch firstSome_SomeD [OF Some] by fastforce
      qed
    qed
  qed
qed (auto simp: nodeOk_def)

text \<open>
  C34 (the Merkle root binds its items). With a width of at least two the root is computed for every list of hashes, with recursion
  as deep as the list is long at most. Two lists of the same length that have the same root are equal, or the nodes of the two trees
  exhibit two different inputs of the hash function with the same hash, which \<open>merkleClash\<close> finds.
\<close>

theorem merkle_root_binding:
  assumes "\<forall>z. length (H z) = hl" and "length ys = length xs" and "\<forall>x \<in> set xs \<union> set ys. length x = hl"
    and "2 \<le> w" and "length xs * w < 2 ^ 63" and "length xs < fuel"
  shows "\<exists>r. ComputeMerkleRoot fuel H xs w = Some r \<and>
    (ComputeMerkleRoot fuel H ys w = Some r \<longrightarrow>
       xs = ys \<or> (\<exists>u v. merkleClash fuel H xs ys 0 0 w = Some (u, v) \<and> u \<noteq> v \<and> H u = H v))"
proof -
  have ok: "nodeOk fuel (length xs) 0 w" using assms(4-6) by (simp add: nodeOk_def)
  obtain a b where r: "recCompute fuel H xs 0 0 w = Some a" "recCompute fuel H ys 0 0 w = Some b"
    and c: "a = b \<Longrightarrow> (case merkleClash fuel H xs ys 0 0 w of
        Some (u, v) \<Rightarrow> u \<noteq> v \<and> H u = H v | None \<Rightarrow> (\<forall>j. belowNode (length xs) w 0 0 j \<longrightarrow> xs ! j = ys ! j))"
    using merkle_binding [OF assms(1-3) ok, of 0] by auto
  have "xs = ys" if "\<forall>j. belowNode (length xs) w 0 0 j \<longrightarrow> xs ! j = ys ! j"
    using that assms(2) below_root [OF _ assms(4)] by (intro nth_equalityI) simp_all
  then show ?thesis using r c by (fastforce simp: ComputeMerkleRoot_def split: option.splits)
qed

theorem merkle_root_binding_witness:
  "ComputeMerkleRoot 4 (\<lambda>z. [sum_list z]) [[1], [2], [3]] 2 = Some [6] \<and>
   (\<exists>u v. merkleClash 4 (\<lambda>z. [sum_list z]) [[1], [2], [3]] [[2], [1], [3]] 0 0 2 = Some (u, v) \<and> u \<noteq> v \<and> [sum_list u] = [sum_list v])"
proof -
  have "ComputeMerkleRoot 4 (\<lambda>z. [sum_list z]) [[1], [2], [3]] 2 = Some [6]"
    "ComputeMerkleRoot 4 (\<lambda>z. [sum_list z]) [[2], [1], [3]] 2 = Some [6]" by code_simp+
  then show ?thesis using merkle_root_binding [of "\<lambda>z. [sum_list z]" 1 "[[2], [1], [3]]" "[[1], [2], [3]]" 2 4] by auto
qed

end
