(* ===== verification/Currency_Codec.thy ===== *)
theory Currency_Codec
  imports Currency_Table Merkle
begin

text \<open>
  Serialisation of the currency: the round trip of a transaction, the blocks of \<^verbatim>\<open>txblock.go\<close> and \<^verbatim>\<open>init_block.go\<close>, and the
  Merkle root of \<^verbatim>\<open>src/consensus/merkle/merkle.go\<close> that a block carries.
\<close>

section \<open>Transactions\<close>

text \<open>What decoding relies on of the encodings of public keys and signatures.\<close>

definition keyCodec :: "('p, 'q, 's, 'k) keyOps \<Rightarrow> bool" where
  "keyCodec K \<longleftrightarrow> (\<forall>p b rest. pubEncode K p = Inr b \<longrightarrow> pubDecode K (b @ rest) = Inr (p, length b, rest)) \<and>
     (\<forall>sg b rest. sigEncode K sg = Inr b \<longrightarrow> sigDecode K (b @ rest) = Inr (sg, length b, rest))"

lemma decodeSenders_encode:
  "\<lbrakk>keyCodec K; encodeSenders K ps cs as = Inr b; length cs = length ps; length as = length ps\<rbrakk> \<Longrightarrow>
   decodeSenders K (length ps) (b @ rest) = Inr (ps, cs, as, rest)"
proof (induction ps arbitrary: cs as b)
  case (Cons p ps)
  then obtain c cs' a as' where "cs = c # cs'" "as = a # as'" by (cases cs; cases as) auto
  then show ?case using Cons.prems Cons.IH [of cs' as'] by (auto simp: bind_res_Inr_iff keyCodec_def)
qed simp

lemma decodeRecipiants_encode:
  "\<lbrakk>keyCodec K; encodePubAmounts K ps as = Inr b; length as = length ps\<rbrakk> \<Longrightarrow>
   decodeRecipiants K (length ps) (b @ rest) = Inr (ps, as, rest)"
proof (induction ps arbitrary: as b)
  case (Cons p ps)
  then obtain a as' where "as = a # as'" by (cases as) auto
  then show ?case using Cons.prems Cons.IH [of as'] by (auto simp: bind_res_Inr_iff keyCodec_def)
qed simp

lemma decodeSigs_encode:
  "\<lbrakk>keyCodec K; encodeSigs K sigs = Inr b\<rbrakk> \<Longrightarrow> decodeSigs K (length sigs) (b @ rest) = Inr (sigs, length b, rest)"
proof (induction sigs arbitrary: b)
  case (Cons sg sigs)
  then obtain x where "sg = Some x" by (cases sg) auto
  then show ?case using Cons by (auto simp: bind_res_Inr_iff keyCodec_def)
qed simp

lemma unat_count: "n \<le> 65535 \<Longrightarrow> unat (word_of_nat n :: uint16) = n"
  by (simp add: unat_of_nat)

lemma length_EncodeUint [simp]: "length (EncodeUint16 v) = 2" "length (EncodeUint64 w) = 8"
  by (simp_all add: EncodeUint16_def EncodeUint64_def)

text \<open>A transaction in the form that \<^verbatim>\<open>GenerateTx\<close> gives it and \<^verbatim>\<open>Decode\<close> accepts.\<close>

definition wireTx :: "('p, 'q, 's, 'k :: linorder) keyOps \<Rightarrow> ('p, 's) TransferTx \<Rightarrow> bool" where
  "wireTx K tx \<longleftrightarrow> ValidateTransferTxFormat K tx = Inr () \<and> encodeSignedBytes K tx = Inr tx \<and>
     length (GetSignedMessage tx) \<le> MaxTxSize"

lemma txDecode_encode:
  assumes K: "keyCodec K" and w: "wireTx K tx" and e: "txEncode K tx = Inr b"
  shows "txDecode K (b @ rest) = Inr (tx, length b, rest)"
proof -
  note f = formatD [of K tx]
  have fmt: "ValidateTransferTxFormat K tx = Inr ()" using w by (simp add: wireTx_def)
  obtain s1 s2 where s: "encodeSenders K (Senders tx) (SenderTxCounters tx) (SendAmounts tx) = Inr s1"
    "encodePubAmounts K (Recipiants tx) (ReceiveAmounts tx) = Inr s2"
    "tx = tx\<lparr>SignedBytes := Some (EncodeUint16 (word_of_nat (length (Senders tx))) @ s1 @
       EncodeUint16 (word_of_nat (length (Recipiants tx))) @ s2)\<rparr>"
    using w by (auto simp: wireTx_def encodeSignedBytes_def bind_res_Inr_iff)
  define sb where "sb = EncodeUint16 (word_of_nat (length (Senders tx))) @ s1 @ EncodeUint16 (word_of_nat (length (Recipiants tx))) @ s2"
  have sb: "SignedBytes tx = Some sb" using arg_cong [OF s(3), of SignedBytes] by (simp add: sb_def)
  have "2 \<le> length sb" by (simp add: sb_def)
  then have len: "length sb \<le> MaxTxSize" "sb \<noteq> []" using w sb by (auto simp: wireTx_def GetSignedMessage_def)
  obtain sg where sg: "encodeSigs K (Signatures tx) = Inr sg" "b = EncodeUint16 (word_of_nat (length sb)) @ sb @ sg"
    using e sb by (auto simp: txEncode_def bind_res_Inr_iff split: if_splits)
  have r: "readArr (length sb) (sb @ sg @ rest) = Inr (sb, length sb, sg @ rest)" using len(2) by (intro readArr_full) simp_all
  have n: "unat (word_of_nat (length sb) :: uint16) = length sb" "unat (word_of_nat (length (Senders tx)) :: uint16) = length (Senders tx)"
    "unat (word_of_nat (length (Recipiants tx)) :: uint16) = length (Recipiants tx)"
    using len f(15,16) [OF fmt] by (simp_all add: unat_count)
  have d: "decodeSenders K (length (Senders tx)) (s1 @ EncodeUint16 (word_of_nat (length (Recipiants tx))) @ s2) =
      Inr (Senders tx, SenderTxCounters tx, SendAmounts tx, EncodeUint16 (word_of_nat (length (Recipiants tx))) @ s2)"
    by (rule decodeSenders_encode [OF K s(1) f(1,2) [OF fmt]])
  have d2: "decodeRecipiants K (length (Recipiants tx)) s2 = Inr (Recipiants tx, ReceiveAmounts tx, [])"
    using decodeRecipiants_encode [OF K s(2) f(4) [OF fmt], of "[]"] by simp
  have d3: "decodeSigs K (length (Senders tx)) (sg @ rest) = Inr (Signatures tx, length sg, rest)"
    using decodeSigs_encode [OF K sg(1), of rest] f(3) [OF fmt] by simp
  show ?thesis using n len f(15,16,17) [OF fmt] sb
    by (simp add: txDecode_def sg(2) r) (simp add: sb_def d d2 d3)
qed

text \<open>
  Decoding the bytes that \<^verbatim>\<open>Encode\<close> wrote for a transaction of valid format, with its signed bytes
  computed and at most \<^verbatim>\<open>MaxTxSize\<close> of them, gives back the transaction, the number of bytes written, and leaves what follows unread.
\<close>

lemma txDecode_txEncode:
  assumes "keyCodec K" and "wireTx K tx" and "txEncode K tx = Inr b"
  shows "txDecode K (b @ rest) = Inr (tx, length b, rest)"
  by (rule txDecode_encode [OF assms])

definition demoWireTx :: "(nat, nat) TransferTx" where
  "demoWireTx = (demoTx 40)\<lparr>SignedBytes := Some (EncodeUint16 1 @ [1] @ EncodeUint64 1 @ EncodeUint64 40 @
     EncodeUint16 2 @ [2] @ EncodeUint64 10 @ [3] @ EncodeUint64 20)\<rparr>"

lemma demo_codec: "keyCodec demoKeys" "wireTx demoKeys demoWireTx"
proof -
  show "keyCodec demoKeys" by (auto simp: keyCodec_def demoKeys_def unat_of_nat split: if_splits)
  have "encodeSignedBytes demoKeys demoWireTx = Inr demoWireTx"
    by (simp add: encodeSignedBytes_def demoWireTx_def demoTx_def demoKeys_def)
  moreover have "ValidateTransferTxFormat demoKeys (demoTx 40) = Inr ()" by code_simp
  then have "ValidateTransferTxFormat demoKeys demoWireTx = Inr ()" by (simp add: ValidateTransferTxFormat_def demoWireTx_def cong: if_cong)
  moreover have "length (GetSignedMessage demoWireTx) \<le> MaxTxSize" by (simp add: GetSignedMessage_def demoWireTx_def)
  ultimately show "wireTx demoKeys demoWireTx" by (simp add: wireTx_def)
qed

lemma demo_txEncode: "is_ok (txEncode demoKeys demoWireTx)"
  by (simp add: txEncode_def demoWireTx_def demoTx_def demoKeys_def)

section \<open>Blocks\<close>

abbreviation hashLen :: nat where "hashLen \<equiv> 32"
abbreviation maxBlockTx :: nat where "maxBlockTx \<equiv> 1000"

record ('p, 's) TxBlock =
  tbIndex :: uint64
  TxMerkleRoot :: "byte list"
  Transactions :: "('p, 's) TransferTx list"
  PrevHash :: "byte list"

definition GetSignedHash :: "(byte list \<Rightarrow> byte list) \<Rightarrow> ('p, 's) TransferTx \<Rightarrow> byte list" where
  "GetSignedHash H tx = H (GetSignedMessage tx)"

text \<open>The call of \<^verbatim>\<open>ComputeMerkleRoot\<close>; the tree of width two is less deep than there are transactions.\<close>

definition blockRoot :: "(byte list \<Rightarrow> byte list) \<Rightarrow> ('p, 's) TransferTx list \<Rightarrow> byte list res" where
  "blockRoot H txs =
     (case ComputeMerkleRoot (length txs + 1) H (map (GetSignedHash H) txs) 2 of None \<Rightarrow> Inl (Panic ''stack overflow'') | Some r \<Rightarrow> Inr r)"

fun encodeTxs :: "('p, 'q, 's, 'k) keyOps \<Rightarrow> ('p, 's) TransferTx list \<Rightarrow> byte list res" where
  "encodeTxs K [] = Inr []"
| "encodeTxs K (nxt # txs) = bind_res (txEncode K nxt) (\<lambda>b. bind_res (encodeTxs K txs) (\<lambda>rest. Inr (b @ rest)))"

definition blockEncode :: "('p, 'q, 's, 'k) keyOps \<Rightarrow> (byte list \<Rightarrow> byte list) \<Rightarrow> ('p, 's) TxBlock \<Rightarrow> byte list res" where
  "blockEncode K H txl =
     (if length (PrevHash txl) \<noteq> hashLen then Inl ErrInvalidHash
      else if length (Transactions txl) > 65535 \<or> length (Transactions txl) > maxBlockTx then Inl ErrTooManyTxInBlock
      else bind_res (encodeTxs K (Transactions txl)) (\<lambda>txs. bind_res (blockRoot H (Transactions txl)) (\<lambda>root.
             Inr (EncodeUint64 (tbIndex txl) @ PrevHash txl @ EncodeUint16 (word_of_nat (length (Transactions txl))) @ txs @ root))))"

fun decodeTxs :: "('p, 'q, 's, 'k :: linorder) keyOps \<Rightarrow> nat \<Rightarrow> byte list \<Rightarrow> (('p, 's) TransferTx list \<times> nat \<times> byte list) res" where
  "decodeTxs K 0 r = Inr ([], 0, r)"
| "decodeTxs K (Suc n) r =
     bind_res (txDecode K r) (\<lambda>(tx, n1, r1). bind_res (decodeTxs K n r1) (\<lambda>(txs, n2, r2). Inr (tx # txs, n1 + n2, r2)))"

definition blockDecode :: "('p, 'q, 's, 'k :: linorder) keyOps \<Rightarrow> (byte list \<Rightarrow> byte list) \<Rightarrow> byte list \<Rightarrow>
    (('p, 's) TxBlock \<times> nat \<times> byte list) res" where
  "blockDecode K H r =
     bind_res (ReadUint64 r) (\<lambda>(idx, n1, r1).
       bind_res (readArr hashLen r1) (\<lambda>(prev, n2, r2).
         bind_res (ReadUint16 r2) (\<lambda>(numTx, n3, r3).
           if unat numTx > maxBlockTx then Inl ErrTooManyTxInBlock
           else bind_res (decodeTxs K (unat numTx) r3) (\<lambda>(txs, n4, r4).
             if txs = [] then Inr (\<lparr>tbIndex = idx, TxMerkleRoot = [], Transactions = txs, PrevHash = prev\<rparr>, n1 + n2 + n3 + n4, r4)
             else bind_res (readArr hashLen r4) (\<lambda>(root, n5, r5). bind_res (blockRoot H txs) (\<lambda>computed.
               if computed \<noteq> root then Inl ErrInvalidTxMerkleRoot
               else Inr (\<lparr>tbIndex = idx, TxMerkleRoot = root, Transactions = txs, PrevHash = prev\<rparr>, n1 + n2 + n3 + n4 + n5, r5)))))))"

text \<open>The block with the root that \<^verbatim>\<open>Encode\<close> stores in it.\<close>

definition withRoot :: "(byte list \<Rightarrow> byte list) \<Rightarrow> ('p, 's) TxBlock \<Rightarrow> ('p, 's) TxBlock" where
  "withRoot H txl = (case blockRoot H (Transactions txl) of Inl _ \<Rightarrow> txl | Inr root \<Rightarrow> txl\<lparr>TxMerkleRoot := root\<rparr>)"

lemma recCompute_length:
  assumes "\<forall>z. length (H z) = hl" "\<forall>x \<in> set xs. length x = hl" "nodeOk fuel (length xs) d w" "i < length xs \<or> w ^ d < length xs"
    "recCompute fuel H xs i d w = Some r"
  shows "length r = hl"
  using recCompute_leaf [of _ xs d w H i] recCompute_inner [of _ xs d w H i] assms
  by (cases fuel; cases "w ^ d < length xs") (auto simp: not_less)

lemma blockRoot_spec:
  assumes "\<forall>z. length (H z) = hashLen" "length txs \<le> maxBlockTx"
  shows "\<exists>root. blockRoot H txs = Inr root \<and> (if txs = [] then root = [] else length root = hashLen)"
proof -
  let ?hs = "map (GetSignedHash H) txs"
  have ok: "nodeOk (length txs + 1) (length ?hs) 0 2" using assms(2) by (simp add: nodeOk_def)
  obtain r where r: "recCompute (length txs + 1) H ?hs 0 0 2 = Some r" using recCompute_some [OF ok] by blast
  have "length r = hashLen" if "txs \<noteq> []"
    by (rule recCompute_length [OF assms(1) _ ok _ r]) (use assms(1) that in \<open>auto simp: GetSignedHash_def\<close>)
  moreover have "r = []" if "txs = []" using r recCompute_leaf [OF ok [unfolded Suc_eq_plus1 [symmetric]]] that by simp
  ultimately show ?thesis using r by (simp add: blockRoot_def ComputeMerkleRoot_def)
qed

lemma decodeTxs_encode:
  "\<lbrakk>keyCodec K; \<forall>tx \<in> set txs. wireTx K tx; encodeTxs K txs = Inr b\<rbrakk> \<Longrightarrow> decodeTxs K (length txs) (b @ rest) = Inr (txs, length b, rest)"
proof (induction txs arbitrary: b)
  case (Cons tx txs)
  then obtain b1 b2 where b: "txEncode K tx = Inr b1" "encodeTxs K txs = Inr b2" "b = b1 @ b2" by (auto simp: bind_res_Inr_iff)
  then show ?case using Cons.IH [of b2] Cons.prems txDecode_encode [OF Cons.prems(1) _ b(1), of "b2 @ rest"] by simp
qed simp

lemma blockDecode_encode:
  assumes "keyCodec K" and "\<forall>z. length (H z) = 32" and "\<forall>tx \<in> set (Transactions txl). wireTx K tx" and "blockEncode K H txl = Inr b"
  shows "blockDecode K H (b @ rest) = Inr (withRoot H txl, length b, rest)"
proof -
  let ?n = "length (Transactions txl)"
  obtain txs root where e: "encodeTxs K (Transactions txl) = Inr txs" "blockRoot H (Transactions txl) = Inr root"
    "b = EncodeUint64 (tbIndex txl) @ PrevHash txl @ EncodeUint16 (word_of_nat ?n) @ txs @ root"
    "length (PrevHash txl) = hashLen" "?n \<le> maxBlockTx"
    using assms(4) by (auto simp: blockEncode_def bind_res_Inr_iff split: if_splits)
  have p: "readArr hashLen (PrevHash txl @ r) = Inr (PrevHash txl, hashLen, r)" for r by (rule readArr_full) (simp_all add: e(4))
  have n: "unat (word_of_nat ?n :: uint16) = ?n" using e(5) by (simp add: unat_count)
  have d: "decodeTxs K ?n (txs @ root @ rest) = Inr (Transactions txl, length txs, root @ rest)" by (rule decodeTxs_encode [OF assms(1,3) e(1)])
  have r: "if Transactions txl = [] then root = [] else length root = hashLen" using blockRoot_spec [OF assms(2) e(5)] e(2) by auto
  have w: "withRoot H txl = \<lparr>tbIndex = tbIndex txl, TxMerkleRoot = root, Transactions = Transactions txl, PrevHash = PrevHash txl\<rparr>"
    by (simp add: withRoot_def e(2))
  show ?thesis
  proof (cases "Transactions txl = []")
    case True
    then have "root = []" "txs = []" using r e(1) by simp_all
    then show ?thesis using True by (simp add: blockDecode_def e(3,4) p w)
  next
    case False
    then have "readArr hashLen (root @ rest) = Inr (root, hashLen, rest)" using r by (intro readArr_full) simp_all
    then show ?thesis using False r n e(4,5) by (simp add: blockDecode_def e(3) p d w e(2))
  qed
qed

text \<open>
  C35 (round trip of a block). A block whose transactions have a valid format, carry the signed bytes that \<^verbatim>\<open>encodeSignedBytes\<close> computes for
  them and have at most \<open>MaxTxSize\<close> such bytes, and that \<^verbatim>\<open>Encode\<close> writes without error, is decoded to itself with its Merkle root set, with the
  number of bytes written, and what follows is left unread. Keys and signatures are assumed to be decoded as they were encoded, and hashes
  to have 32 bytes. \<^verbatim>\<open>Encode\<close> does not check the size, \<^verbatim>\<open>Decode\<close> does.
\<close>

theorem blockDecode_blockEncode:
  assumes "keyCodec K" and "\<forall>z. length (H z) = 32" and "\<forall>tx \<in> set (Transactions txl). wireTx K tx" and "blockEncode K H txl = Inr b"
  shows "blockDecode K H (b @ rest) = Inr (withRoot H txl, length b, rest)"
  by (rule blockDecode_encode [OF assms])

definition demoHash :: "byte list \<Rightarrow> byte list" where
  "demoHash z = replicate 32 (sum_list z)"

definition demoBlock :: "(nat, nat) TxBlock" where
  "demoBlock = \<lparr>tbIndex = 1, TxMerkleRoot = [], Transactions = [demoWireTx], PrevHash = replicate 32 0\<rparr>"

lemma demo_blockEncode: "is_ok (blockEncode demoKeys demoHash demoBlock)"
proof -
  obtain b0 where "txEncode demoKeys demoWireTx = Inr b0" using demo_txEncode by (auto simp: is_ok_iff)
  moreover obtain root where "blockRoot demoHash [demoWireTx] = Inr root" using blockRoot_spec [of demoHash "[demoWireTx]"] by (auto simp: demoHash_def)
  ultimately show ?thesis by (simp add: blockEncode_def demoBlock_def)
qed

theorem blockDecode_blockEncode_witness:
  "\<exists>b. blockEncode demoKeys demoHash demoBlock = Inr b \<and> blockDecode demoKeys demoHash b = Inr (withRoot demoHash demoBlock, length b, [])"
proof -
  obtain b where b: "blockEncode demoKeys demoHash demoBlock = Inr b" using demo_blockEncode by (auto simp: is_ok_iff)
  show ?thesis using b blockDecode_blockEncode [OF demo_codec(1) _ _ b, of "[]"] demo_codec(2) by (simp add: demoHash_def demoBlock_def)
qed

section \<open>Initial blocks\<close>

record 'p InitBlock =
  InitPubs :: "'p list"
  InitBalances :: "uint64 list"
  ibUniqueName :: "byte list"

text \<open>\<open>uniqueName\<close> is the variable \<^verbatim>\<open>InitUniqueName\<close> of the package, a hash.\<close>

definition initEncode :: "('p, 'q, 's, 'k) keyOps \<Rightarrow> byte list \<Rightarrow> 'p InitBlock \<Rightarrow> byte list res" where
  "initEncode K uniqueName ib =
     (if length (InitPubs ib) > 65535 then Inl (Panic ''1'')
      else if uniqueName \<noteq> ibUniqueName ib then Inl (Panic ''should set unique name'')
      else bind_res (encodePubAmounts K (InitPubs ib) (InitBalances ib)) (\<lambda>b.
             Inr (uniqueName @ EncodeUint16 (word_of_nat (length (InitPubs ib))) @ b)))"

fun decodeInitPubs :: "('p, 'q, 's, 'k) keyOps \<Rightarrow> nat \<Rightarrow> byte list \<Rightarrow> ('p list \<times> uint64 list \<times> nat \<times> byte list) res" where
  "decodeInitPubs K 0 r = Inr ([], [], 0, r)"
| "decodeInitPubs K (Suc m) r =
     bind_res (pubDecode K r) (\<lambda>(pub, n1, r1).
       bind_res (ReadUint64 r1) (\<lambda>(bal, n2, r2).
         bind_res (decodeInitPubs K m r2) (\<lambda>(ps, bs, n3, r3). Inr (pub # ps, bal # bs, n1 + n2 + n3, r3))))"

definition initDecode :: "('p, 'q, 's, 'k) keyOps \<Rightarrow> byte list \<Rightarrow> ('p InitBlock \<times> nat \<times> byte list) res" where
  "initDecode K r =
     bind_res (readArr hashLen r) (\<lambda>(name, n1, r1).
       bind_res (ReadUint16 r1) (\<lambda>(pubCount, n2, r2).
         bind_res (decodeInitPubs K (unat pubCount) r2) (\<lambda>(ps, bs, n3, r3).
           Inr (\<lparr>InitPubs = ps, InitBalances = bs, ibUniqueName = name\<rparr>, n1 + n2 + n3, r3))))"

lemma decodeInitPubs_encode:
  "\<lbrakk>keyCodec K; encodePubAmounts K ps bs = Inr b; length bs = length ps\<rbrakk> \<Longrightarrow>
   decodeInitPubs K (length ps) (b @ rest) = Inr (ps, bs, length b, rest)"
proof (induction ps arbitrary: bs b)
  case (Cons p ps)
  then obtain a bs' where "bs = a # bs'" by (cases bs) auto
  then show ?case using Cons.prems Cons.IH [of bs'] by (auto simp: bind_res_Inr_iff keyCodec_def)
qed simp

lemma initDecode_encode:
  assumes "keyCodec K" "initEncode K name ib = Inr b" "length (InitBalances ib) = length (InitPubs ib)" "length name = hashLen"
  shows "initDecode K (b @ rest) = Inr (ib, length b, rest)"
proof -
  obtain b1 where e: "encodePubAmounts K (InitPubs ib) (InitBalances ib) = Inr b1" "ibUniqueName ib = name" "length (InitPubs ib) \<le> 65535"
    "b = name @ EncodeUint16 (word_of_nat (length (InitPubs ib))) @ b1"
    using assms(2) by (auto simp: initEncode_def bind_res_Inr_iff split: if_splits)
  have "readArr hashLen (name @ r) = Inr (name, hashLen, r)" for r by (rule readArr_full) (simp_all add: assms(4))
  moreover have "unat (word_of_nat (length (InitPubs ib)) :: uint16) = length (InitPubs ib)" by (rule unat_count [OF e(3)])
  ultimately show ?thesis using decodeInitPubs_encode [OF assms(1) e(1) assms(3), of rest] e(2) assms(4) by (simp add: initDecode_def e(4))
qed

text \<open>The part of \<^verbatim>\<open>NewSimpleTxProposer\<close> that reads the initial blocks: the bytes of the initial state and the account table.\<close>

fun initBlocks :: "('p, 'q, 's, 'k) keyOps \<Rightarrow> byte list \<Rightarrow> ('k, 'p Account, 'h) tableOps \<Rightarrow> byte list list \<Rightarrow>
    'h AccountTable \<Rightarrow> 'h AccountTable \<times> byte list res" where
  "initBlocks K name T [] at = (at, Inr [])"
| "initBlocks K name T (initBlockBytes # bs) at =
     (if initBlockBytes = [] then initBlocks K name T bs at
      else (case initDecode K initBlockBytes of
              Inl e \<Rightarrow> (at, Inl (Panic ''init block''))
            | Inr (ib, _, _) \<Rightarrow>
                (case initEncode K name ib of
                   Inl e \<Rightarrow> (at, Inl (Panic ''init block''))
                 | Inr enc \<Rightarrow> then_do (initAccounts K T (InitPubs ib) (InitBalances ib) at) (\<lambda>_ at1.
                     then_do (initBlocks K name T bs at1) (\<lambda>rest at2. (at2, Inr (enc @ rest)))))))"

end
