(* ===== verification/Currency_Chain.thy ===== *)
theory Currency_Chain
  imports Currency_Codec
begin

text \<open>
  The chain of blocks of \<^verbatim>\<open>simple_currency_tx_proposer.go\<close>, with the random bytes of \<^verbatim>\<open>abs_rand_sm.go\<close>. One instance of the state machine
  runs per consensus index; \<^verbatim>\<open>StartIndex\<close> makes the next one with copies of the account table and of the table of block hashes,
  and \<^verbatim>\<open>HasDecided\<close> applies the decided block to them. The tables of all instances are in two heaps, \<open>spGlobal\<close>. The
  transaction pool, the threads that propose, the statistics and the logging are left out.
\<close>

section \<open>State\<close>

record ('p, 'k) spGlobal =
  spAccounts :: "('k, 'p Account) cwmHeap AccountTable"
  spHashHeap :: "(uint64, byte list) cwmHeap"

record spInstance =
  spTable :: nat
  spHashes :: nat
  lastBlockIndex :: uint64
  spUseRand :: bool
  randBytes :: "byte list"

text \<open>
  The VRF interface: decoding answers what is left of the input also when it fails, and the proof of a proposer for the current
  bytes gives the next ones. The error \<open>Panic\<close> stands for a panic, also that of the type assertions to \<^verbatim>\<open>sig.VRFPub\<close>, of
  which the one of the node's own key is part of \<open>vrfDecode\<close> and the one of the proposer part of \<open>proofToHash\<close>.
\<close>

record ('p, 'v) vrfOps =
  vrfDecode :: "byte list \<Rightarrow> byte list \<times> ('v \<times> nat) res"
  proofToHash :: "'p \<Rightarrow> byte list \<Rightarrow> 'v \<Rightarrow> byte list res"

section \<open>Operations\<close>

text \<open>
  Answers the bytes after the call, the rest of the input, the number of bytes read, which the callers ignore, and the error; or panics.
\<close>

definition RandHasDecided :: "('p, 'v) vrfOps \<Rightarrow> bool \<Rightarrow> 'p \<Rightarrow> byte list \<Rightarrow> bool \<Rightarrow> byte list \<Rightarrow>
    (byte list \<times> byte list \<times> nat \<times> go_error option) res" where
  "RandHasDecided V use proposer buf setBytes rnd =
     (if use then
        (case vrfDecode V buf of
           (rest, Inl e) \<Rightarrow> if panics (Inl e :: unit res) then Inl e else Inr (rnd, rest, 0, Some e)
         | (rest, Inr (vrPrf, n)) \<Rightarrow>
             (case proofToHash V proposer rnd vrPrf of
                Inl e \<Rightarrow> if panics (Inl e :: unit res) then Inl e else Inr (rnd, rest, n, Some e)
              | Inr new \<Rightarrow> Inr (if setBytes then new else rnd, rest, n, None)))
      else Inr (rnd, buf, 0, None))"

text \<open>
  \<^verbatim>\<open>deserializeBlock\<close> answers whether the block is valid, the block and the error of decoding it. After that error the block is not
  valid whatever the comparison of the index and the hash says, so it is left out there.
\<close>

definition deserializeBlock :: "('p, 'q, 's, 'k :: linorder) keyOps \<Rightarrow> (byte list \<Rightarrow> byte list) \<Rightarrow> spInstance \<Rightarrow> (uint64, byte list) cwmHeap \<Rightarrow>
    byte list \<Rightarrow> (bool \<times> ('p, 's) TxBlock option \<times> go_error option) res" where
  "deserializeBlock K H spi hh buf =
     (case blockDecode K H buf of
        Inl e \<Rightarrow> if panics (Inl e :: unit res) then Inl e else Inr (False, None, Some e)
      | Inr (txBlock, n, _) \<Rightarrow>
          if tbIndex txBlock \<noteq> lastBlockIndex spi + 1 then Inr (False, Some txBlock, None)
          else bind_res (Read (spHashes spi) (lastBlockIndex spi) hh) (\<lambda>(ph, _).
                 case ph of
                   None \<Rightarrow> Inl (Panic ''interface conversion'')
                 | Some h \<Rightarrow> Inr (n = length buf \<and> h = PrevHash txBlock, Some txBlock, None)))"

definition spHasDecided :: "('p, 'q, 's, 'k :: linorder) keyOps \<Rightarrow> ('p, 'v) vrfOps \<Rightarrow> (byte list \<Rightarrow> byte list) \<Rightarrow> 'p \<Rightarrow> byte list \<Rightarrow>
    spInstance \<Rightarrow> ('p, 'k) spGlobal \<Rightarrow> (spInstance \<times> ('p, 'k) spGlobal) res" where
  "spHasDecided K V H proposer dec spi g =
     (if dec = [] then Inr (spi, g)
      else bind_res (RandHasDecided V (spUseRand spi) proposer dec True (randBytes spi)) (\<lambda>(rnd, buf, _, _).
        let spi1 = spi\<lparr>randBytes := rnd\<rparr>
        in bind_res (deserializeBlock K H spi1 (spHashHeap g) buf) (\<lambda>(validBlock, txBlock, _).
             if \<not> validBlock then Inr (spi1, g)
             else (case txBlock of
                     None \<Rightarrow> Inl (Panic ''shouldn't be nil'')
                   | Some blk \<Rightarrow>
                       (let spi2 = spi1\<lparr>lastBlockIndex := lastBlockIndex spi1 + 1\<rparr>
                        in bind_res (Write (spHashes spi2) (lastBlockIndex spi2) (H dec) (spHashHeap g)) (\<lambda>hh.
                             case consumeBlock K (cwmTable (spTable spi2)) (Transactions blk) (spAccounts g) of
                               (_, Inl e) \<Rightarrow> Inl e
                             | (at, Inr _) \<Rightarrow> Inr (spi2, \<lparr>spAccounts = at, spHashHeap = hh\<rparr>)))))))"

text \<open>\<^verbatim>\<open>ValidateProposal\<close>: the error it returns, or \<open>Inr ()\<close>, with the state of the account table after it.\<close>

definition ValidateProposal :: "('p, 'q, 's, 'k :: linorder) keyOps \<Rightarrow> ('p, 'v) vrfOps \<Rightarrow> (byte list \<Rightarrow> byte list) \<Rightarrow> 'p \<Rightarrow> byte list \<Rightarrow>
    spInstance \<Rightarrow> ('p, 'k) spGlobal \<Rightarrow> ('p, 'k) spGlobal \<times> unit res" where
  "ValidateProposal K V H proposer dec spi g =
     (case RandHasDecided V (spUseRand spi) proposer dec False (randBytes spi) of
        Inl e \<Rightarrow> (g, Inl e)
      | Inr (_, buf, _, err) \<Rightarrow>
        (case err of
           Some e \<Rightarrow> (g, Inl e)
         | None \<Rightarrow>
             (case deserializeBlock K H spi (spHashHeap g) buf of
                Inl e \<Rightarrow> (g, Inl e)
              | Inr (_, _, Some e) \<Rightarrow> (g, Inl e)
              | Inr (validBlock, txBlock, None) \<Rightarrow>
                  if \<not> validBlock then (g, Inl ErrInvalidProposal)
                  else (case txBlock of
                          None \<Rightarrow> (g, Inl (Panic ''nil pointer''))
                        | Some blk \<Rightarrow>
                            (case validateBlock K (cwmTable (spTable spi)) (Transactions blk) (spAccounts g) of
                               (at, r) \<Rightarrow> (g\<lparr>spAccounts := at\<rparr>, r))))))"

definition StartIndex :: "spInstance \<Rightarrow> ('p, 'k) spGlobal \<Rightarrow> (spInstance \<times> ('p, 'k) spGlobal) res" where
  "StartIndex spi g =
     bind_res (Copy (spHashes spi) (spHashHeap g)) (\<lambda>(hashes, hh).
       bind_res (Copy (spTable spi) (accTab (spAccounts g))) (\<lambda>(table, ah).
         Inr (spi\<lparr>spHashes := hashes, spTable := table\<rparr>, \<lparr>spAccounts = (spAccounts g)\<lparr>accTab := ah\<rparr>, spHashHeap = hh\<rparr>)))"

text \<open>The decisions of consecutive indices: the next instance is started from the one that decided before it.\<close>

fun runDecisions :: "('p, 'q, 's, 'k :: linorder) keyOps \<Rightarrow> ('p, 'v) vrfOps \<Rightarrow> (byte list \<Rightarrow> byte list) \<Rightarrow> ('p \<times> byte list) list \<Rightarrow>
    spInstance \<Rightarrow> ('p, 'k) spGlobal \<Rightarrow> (spInstance \<times> ('p, 'k) spGlobal) res" where
  "runDecisions K V H [] spi g = Inr (spi, g)"
| "runDecisions K V H ((proposer, dec) # ds) spi g =
     bind_res (StartIndex spi g) (\<lambda>(spi1, g1).
       bind_res (spHasDecided K V H proposer dec spi1 g1) (\<lambda>(spi2, g2). runDecisions K V H ds spi2 g2))"

text \<open>The instance and the heaps that \<^verbatim>\<open>NewSimpleTxProposer\<close> makes from the initial blocks.\<close>

definition NewSimpleTxProposer :: "('p, 'q, 's, 'k) keyOps \<Rightarrow> (byte list \<Rightarrow> byte list) \<Rightarrow> byte list \<Rightarrow> bool \<Rightarrow> byte list \<Rightarrow> byte list list \<Rightarrow>
    (spInstance \<times> ('p, 'k) spGlobal) res" where
  "NewSimpleTxProposer K H name use initRandBytes initBlocksBytes =
     (case initBlocks K name (cwmTable 0) initBlocksBytes NewAccountTable of
        (_, Inl e) \<Rightarrow> Inl e
      | (at, Inr initialState) \<Rightarrow>
          bind_res (Write 0 0 (H initialState) NewCopyWriteMap) (\<lambda>hh.
            Inr (\<lparr>spTable = 0, spHashes = 0, lastBlockIndex = 0, spUseRand = use, randBytes = initRandBytes\<rparr>,
                 \<lparr>spAccounts = at, spHashHeap = hh\<rparr>)))"

section \<open>The chain as a function of the decisions\<close>

record 'k chain =
  chIndex :: uint64
  chHash :: "byte list"
  chLedger :: "'k ledger"
  chRand :: "byte list"

definition chainStep :: "('p, 'q, 's, 'k :: linorder) keyOps \<Rightarrow> ('p, 'v) vrfOps \<Rightarrow> (byte list \<Rightarrow> byte list) \<Rightarrow> bool \<Rightarrow>
    'p \<times> byte list \<Rightarrow> 'k chain \<Rightarrow> 'k chain" where
  "chainStep K V H use d c =
     (case d of (proposer, dec) \<Rightarrow>
       if dec = [] then c
       else (case RandHasDecided V use proposer dec True (chRand c) of Inl _ \<Rightarrow> c | Inr (rnd, buf, _, _) \<Rightarrow>
         let c1 = c\<lparr>chRand := rnd\<rparr>
         in (case blockDecode K H buf of
               Inl _ \<Rightarrow> c1
             | Inr (blk, n, _) \<Rightarrow>
                 if tbIndex blk = chIndex c + 1 \<and> PrevHash blk = chHash c \<and> n = length buf
                 then c1\<lparr>chIndex := chIndex c + 1, chHash := H dec, chLedger := fold (ledgerStep K) (Transactions blk) (chLedger c)\<rparr>
                 else c1)))"

text \<open>
  The instance holds the chain \<open>c\<close>, on tables that can be written. How much money there is, is not part of it.
\<close>

definition holds :: "spInstance \<Rightarrow> ('p, 'k) spGlobal \<Rightarrow> 'k chain \<Rightarrow> bool" where
  "holds spi g c \<longleftrightarrow> writable (spTable spi) (accTab (spAccounts g)) \<and> writable (spHashes spi) (spHashHeap g) \<and>
     lastBlockIndex spi = chIndex c \<and> view (spHashHeap g) (spHashes spi) (chIndex c) = Some (chHash c) \<and>
     ledgerAt (spTable spi) (spAccounts g) = chLedger c \<and> randBytes spi = chRand c"

text \<open>The decoders of keys and signatures return their errors.\<close>

definition decodersReturn :: "('p, 'q, 's, 'k) keyOps \<Rightarrow> bool" where
  "decodersReturn K \<longleftrightarrow> (\<forall>b. \<not> panics (pubDecode K b)) \<and> (\<forall>b. \<not> panics (sigDecode K b))"

text \<open>The operations of the VRF return their errors; in particular the keys of all proposers are VRF keys.\<close>

definition vrfReturns :: "('p, 'v) vrfOps \<Rightarrow> bool" where
  "vrfReturns V \<longleftrightarrow> (\<forall>b. \<not> panics (snd (vrfDecode V b))) \<and> (\<forall>p r v. \<not> panics (proofToHash V p r v))"

lemma RandHasDecided_returns:
  assumes "use \<longrightarrow> vrfReturns V"
  shows "\<exists>x. RandHasDecided V use proposer buf setBytes rnd = Inr x"
proof (cases use)
  case True
  obtain rest r where v: "vrfDecode V buf = (rest, r)" by (cases "vrfDecode V buf")
  have n: "\<not> panics (snd (vrfDecode V buf))" "\<not> panics (proofToHash V proposer rnd z)" for z using assms True by (simp_all add: vrfReturns_def)
  show ?thesis
  proof (cases r)
    case (Inl e)
    then show ?thesis using True n(1) by (simp add: RandHasDecided_def v panics_Inl)
  next
    case (Inr pn)
    then show ?thesis using True n(2) [of "fst pn"]
      by (cases pn; cases "proofToHash V proposer rnd (fst pn)") (simp_all add: RandHasDecided_def v panics_Inl)
  qed
qed (simp add: RandHasDecided_def)

lemma read_noPanic [simp]: "\<not> panics (readArr n r)" "\<not> panics (ReadUint64 r)" "\<not> panics (ReadUint16 r)"
  by (auto simp: readArr_def ReadUint64_def ReadUint16_def panics_bind_res panics_Inl Let_def)

lemma decodeSenders_noPanic: "decodersReturn K \<Longrightarrow> \<not> panics (decodeSenders K n b)"
  by (induction n arbitrary: b) (auto simp: panics_bind_res decodersReturn_def)

lemma decodeRecipiants_noPanic: "decodersReturn K \<Longrightarrow> \<not> panics (decodeRecipiants K n b)"
  by (induction n arbitrary: b) (auto simp: panics_bind_res decodersReturn_def)

lemma decodeSigs_noPanic: "decodersReturn K \<Longrightarrow> \<not> panics (decodeSigs K n b)"
  by (induction n arbitrary: b) (auto simp: panics_bind_res decodersReturn_def)

lemma txDecode_noPanic:
  assumes "decodersReturn K"
  shows "\<not> panics (txDecode K b)"
  using decodeSenders_noPanic [OF assms] decodeRecipiants_noPanic [OF assms] decodeSigs_noPanic [OF assms]
  by (auto simp: txDecode_def panics_bind_res panics_Inl)

lemma decodeTxs_noPanic: "decodersReturn K \<Longrightarrow> \<not> panics (decodeTxs K n b)"
  by (induction n arbitrary: b) (auto simp: panics_bind_res txDecode_noPanic)

lemma decodeTxs_length: "decodeTxs K n b = Inr (txs, m, r) \<Longrightarrow> length txs = n"
  by (induction n arbitrary: b txs m r) (auto simp: bind_res_Inr_iff)

lemma blockRoot_noPanic: "length txs \<le> maxBlockTx \<Longrightarrow> \<not> panics (blockRoot H txs)"
  using recCompute_some [of "length txs + 1" "map (GetSignedHash H) txs" 0 2 H 0]
  by (auto simp: blockRoot_def ComputeMerkleRoot_def nodeOk_def)

lemma blockDecode_noPanic:
  assumes "decodersReturn K"
  shows "\<not> panics (blockDecode K H b)"
proof -
  have t: "\<not> panics (case x of (txs, n4, r4) \<Rightarrow>
      if txs = [] then Inr (A txs n4 r4)
      else bind_res (readArr hashLen r4) (\<lambda>(root, n5, r5). bind_res (blockRoot H txs) (\<lambda>computed.
        if computed \<noteq> root then Inl ErrInvalidTxMerkleRoot else Inr (B txs n4 root n5 r5))))"
    if "decodeTxs K n r = Inr x" "n \<le> maxBlockTx" for x n r A B
  proof (cases x)
    case (fields txs n4 r4)
    then have "\<not> panics (blockRoot H txs)" using decodeTxs_length [of K n r txs] that by (intro blockRoot_noPanic) simp
    then show ?thesis by (simp add: fields panics_bind_res panics_Inl split: prod.splits)
  qed
  show ?thesis unfolding blockDecode_def
    by (auto simp: panics_bind_res panics_Inl decodeTxs_noPanic [OF assms] dest!: t)
qed

lemma Write_writable:
  assumes "writable i h"
  shows "\<exists>h'. Write i k v h = Inr h' \<and> writable i h' \<and> view h' i = (view h i)(k \<mapsto> v)"
  using internalWrite_writable [OF assms, of False "Some v" k] assms by (auto simp: Write_def writable_def)

lemma block_run:
  fixes at :: "('k :: linorder, 'p Account) cwmHeap AccountTable"
  assumes "writable i (accTab at)" "totalSupply (ledgerAt i at) < 2 ^ 64" "keysReturn K"
  shows "\<exists>at'. consumeBlock K (cwmTable i) txs at = (at', Inr ()) \<and> writable i (accTab at') \<and>
    ledgerAt i at' = ledgerRun K txs (ledgerAt i at) \<and> totalSupply (ledgerAt i at') < 2 ^ 64"
proof -
  have s: "smallLedger (ledgerAt i at)" by (rule tableOk_small [OF tableOkI [OF assms(1,2)]])
  show ?thesis using cwmBlock [OF assms(1) s, of K txs] assms(3) ledgerRun_small [OF s, of K txs] by (auto simp: tableRun_def smallLedger_def)
qed

lemma validateBlock_keeps:
  fixes at :: "('k :: linorder, 'p Account) cwmHeap AccountTable"
  shows "writable i (accTab at) \<Longrightarrow> validateBlock K (cwmTable i) txs at = (at', r) \<Longrightarrow> writable i (accTab at') \<and> ledgerAt i at' = ledgerAt i at"
proof (induction txs arbitrary: at)
  case (Cons tx txs)
  obtain at1 r1 where v: "ValidateTx K (cwmTable i) tx True None at = (at1, r1)" "writable i (accTab at1)" "ledgerAt i at1 = ledgerAt i at"
    using cwmValidate [OF Cons.prems(1), of K tx True None] by (auto simp: tableRun_def)
  then show ?case using Cons.IH [OF v(2)] Cons.prems(2) by (cases r1) auto
qed simp

lemma deserializeBlock_holds:
  fixes g :: "('p, 'k :: linorder) spGlobal"
  assumes h: "holds spi g c" and D: "decodersReturn K"
  shows "deserializeBlock K H (spi\<lparr>randBytes := rnd\<rparr>) (spHashHeap g) buf =
    (case blockDecode K H buf of
       Inl e \<Rightarrow> Inr (False, None, Some e)
     | Inr (blk, n, _) \<Rightarrow> Inr (tbIndex blk = chIndex c + 1 \<and> PrevHash blk = chHash c \<and> n = length buf, Some blk, None))"
proof (cases "blockDecode K H buf")
  case (Inl e)
  then show ?thesis using blockDecode_noPanic [OF D, of H buf] by (simp add: deserializeBlock_def panics_Inl)
next
  case (Inr x)
  have "Read (spHashes spi) (chIndex c) (spHashHeap g) = Inr (Some (chHash c), True)"
    using h Read_writable [of "spHashes spi" "spHashHeap g" "chIndex c"] by (simp add: holds_def)
  then show ?thesis using Inr h by (cases x) (auto simp: deserializeBlock_def holds_def)
qed

lemma spHasDecided_refines:
  fixes g :: "('p, 'k :: linorder) spGlobal"
  assumes h: "holds spi g c" and S: "totalSupply (chLedger c) < 2 ^ 64" and K: "keysReturn K" and D: "decodersReturn K"
    and R: "\<exists>x. RandHasDecided V (spUseRand spi) proposer dec True (chRand c) = Inr x"
  shows "\<exists>spi' g'. spHasDecided K V H proposer dec spi g = Inr (spi', g') \<and> spUseRand spi' = spUseRand spi \<and>
    holds spi' g' (chainStep K V H (spUseRand spi) (proposer, dec) c) \<and>
    totalSupply (chLedger (chainStep K V H (spUseRand spi) (proposer, dec) c)) < 2 ^ 64"
proof (cases "dec = []")
  case False
  obtain rnd buf n err where r: "RandHasDecided V (spUseRand spi) proposer dec True (chRand c) = Inr (rnd, buf, n, err)"
    using R by auto
  have rb: "randBytes spi = chRand c" using h by (simp add: holds_def)
  have skip: "holds (spi\<lparr>randBytes := rnd\<rparr>) g (c\<lparr>chRand := rnd\<rparr>)" using h by (simp add: holds_def)
  note d = deserializeBlock_holds [OF h D, of H rnd buf]
  show ?thesis
  proof (cases "blockDecode K H buf")
    case (Inl e)
    then show ?thesis using False skip S by (simp add: spHasDecided_def chainStep_def rb r d)
  next
    case (Inr x)
    obtain blk m rest where x: "x = (blk, m, rest)" by (cases x)
    show ?thesis
    proof (cases "tbIndex blk = chIndex c + 1 \<and> PrevHash blk = chHash c \<and> m = length buf")
      case True
      obtain hh where hh: "Write (spHashes spi) (chIndex c + 1) (H dec) (spHashHeap g) = Inr hh" "writable (spHashes spi) hh"
        "view hh (spHashes spi) = (view (spHashHeap g) (spHashes spi))(chIndex c + 1 \<mapsto> H dec)"
        using Write_writable [of "spHashes spi" "spHashHeap g"] h by (auto simp: holds_def)
      obtain at where at: "consumeBlock K (cwmTable (spTable spi)) (Transactions blk) (spAccounts g) = (at, Inr ())" "writable (spTable spi) (accTab at)"
        "ledgerAt (spTable spi) at = ledgerRun K (Transactions blk) (chLedger c)" "totalSupply (ledgerAt (spTable spi) at) < 2 ^ 64"
        using block_run [OF _ _ K, of "spTable spi" "spAccounts g" "Transactions blk"] h S by (auto simp: holds_def)
      have li: "lastBlockIndex spi = chIndex c" using h by (simp add: holds_def)
      have e: "spHasDecided K V H proposer dec spi g =
          Inr (spi\<lparr>randBytes := rnd, lastBlockIndex := chIndex c + 1\<rparr>, \<lparr>spAccounts = at, spHashHeap = hh\<rparr>)"
        using False True by (simp add: spHasDecided_def rb r d Inr x Let_def li hh(1) at(1))
      have "chainStep K V H (spUseRand spi) (proposer, dec) c =
          c\<lparr>chRand := rnd, chIndex := chIndex c + 1, chHash := H dec, chLedger := ledgerRun K (Transactions blk) (chLedger c)\<rparr>"
        using False True by (simp add: chainStep_def r Inr x Let_def)
      then show ?thesis using e h hh(2,3) at(2,3,4) by (simp add: holds_def)
    next
      case no: False
      then show ?thesis using False skip S by (auto simp: spHasDecided_def chainStep_def rb r d Inr x Let_def)
    qed
  qed
qed (use h S in \<open>simp add: spHasDecided_def chainStep_def\<close>)

lemma StartIndex_holds:
  fixes g :: "('p, 'k :: linorder) spGlobal"
  assumes h: "holds spi g c"
  shows "\<exists>spi' g'. StartIndex spi g = Inr (spi', g') \<and> spUseRand spi' = spUseRand spi \<and> holds spi' g' c"
proof -
  let ?a = "accTab (spAccounts g)"
  have wa: "writable (spTable spi) ?a" and wh: "writable (spHashes spi) (spHashHeap g)" using h by (simp_all add: holds_def)
  obtain hh where hh: "Copy (spHashes spi) (spHashHeap g) = Inr (cwmCount (spHashHeap g), hh)" "writable (cwmCount (spHashHeap g)) hh"
    "view hh (cwmCount (spHashHeap g)) = view (spHashHeap g) (spHashes spi)"
    using Copy_writable [of "spHashHeap g" "spHashes spi"] wh by (auto simp: writable_def)
  obtain ah where ah: "Copy (spTable spi) ?a = Inr (cwmCount ?a, ah)" "writable (cwmCount ?a) ah" "view ah (cwmCount ?a) = view ?a (spTable spi)"
    using Copy_writable [of ?a "spTable spi"] wa by (auto simp: writable_def)
  show ?thesis using h hh ah by (auto simp: StartIndex_def holds_def ledgerAt_def)
qed

lemma runDecisions_refines:
  fixes g :: "('p, 'k :: linorder) spGlobal"
  assumes "keysReturn K" "decodersReturn K" "use \<longrightarrow> vrfReturns V"
  shows "holds spi g c \<Longrightarrow> totalSupply (chLedger c) < 2 ^ 64 \<Longrightarrow> spUseRand spi = use \<Longrightarrow>
    \<exists>spi' g'. runDecisions K V H ds spi g = Inr (spi', g') \<and> holds spi' g' (fold (chainStep K V H use) ds c)"
proof (induction ds arbitrary: spi g c)
  case (Cons d ds)
  obtain proposer dec where d: "d = (proposer, dec)" by (cases d)
  obtain spi1 g1 where s: "StartIndex spi g = Inr (spi1, g1)" "spUseRand spi1 = spUseRand spi" "holds spi1 g1 c"
    using StartIndex_holds [OF Cons.prems(1)] by blast
  obtain spi2 g2 where t: "spHasDecided K V H proposer dec spi1 g1 = Inr (spi2, g2)" "spUseRand spi2 = use"
    "holds spi2 g2 (chainStep K V H use d c)" "totalSupply (chLedger (chainStep K V H use d c)) < 2 ^ 64"
    using spHasDecided_refines [OF s(3) Cons.prems(2) assms(1,2), of V proposer dec H] RandHasDecided_returns [OF assms(3)] s(2) Cons.prems(3) d by auto
  then show ?case using Cons.IH [OF t(3,4,2)] s(1) by (simp add: d)
qed simp

text \<open>
  C36 (replicas agree). Let the balances of the chain sum up to less than \<open>2 ^ 64\<close>, and let the methods of the keys, the decoders of keys and
  signatures and, if random bytes are used, the operations of the VRF return their errors instead of panicking. Then a node whose
  instance holds the chain processes every sequence of decided values, also empty, malformed
  and invalid ones, without panic, with a new instance for each. The chain it then holds (index and hash of the last block, random
  bytes, counters and balances of all accounts) is a function of the decisions alone, so two nodes that decide the same values
  hold the same chain, whatever they held in their tables besides.
\<close>

theorem currency_replicas_agree:
  fixes g1 g2 :: "('p, 'k :: linorder) spGlobal"
  assumes "keysReturn K" and "decodersReturn K" and "spUseRand spi1 \<longrightarrow> vrfReturns V" and "totalSupply (chLedger c) < 2 ^ 64"
    and "holds spi1 g1 c" and "holds spi2 g2 c" and "spUseRand spi2 = spUseRand spi1"
  shows "\<exists>spi1' g1' spi2' g2'. runDecisions K V H ds spi1 g1 = Inr (spi1', g1') \<and> runDecisions K V H ds spi2 g2 = Inr (spi2', g2') \<and>
    holds spi1' g1' (fold (chainStep K V H (spUseRand spi1)) ds c) \<and>
    lastBlockIndex spi1' = lastBlockIndex spi2' \<and> randBytes spi1' = randBytes spi2' \<and>
    ledgerAt (spTable spi1') (spAccounts g1') = ledgerAt (spTable spi2') (spAccounts g2')"
proof -
  obtain spi1' g1' where 1: "runDecisions K V H ds spi1 g1 = Inr (spi1', g1')" "holds spi1' g1' (fold (chainStep K V H (spUseRand spi1)) ds c)"
    using runDecisions_refines [OF assms(1,2,3,5,4) refl] by blast
  obtain spi2' g2' where 2: "runDecisions K V H ds spi2 g2 = Inr (spi2', g2')" "holds spi2' g2' (fold (chainStep K V H (spUseRand spi1)) ds c)"
    using runDecisions_refines [OF assms(1,2,3,6,4,7)] by blast
  show ?thesis using 1 2 by (auto simp: holds_def)
qed

lemma NewSimpleTxProposer_holds:
  fixes K :: "('p, 'q, 's, 'k :: linorder) keyOps"
  assumes "initBlocks K name (cwmTable 0) bs (NewAccountTable :: ('k, 'p Account) cwmHeap AccountTable) = (at, Inr initialState)" "writable 0 (accTab at)"
  shows "\<exists>spi g. NewSimpleTxProposer K H name use rnd bs = Inr (spi, g) \<and> spUseRand spi = use \<and>
    holds spi g \<lparr>chIndex = 0, chHash = H initialState, chLedger = ledgerAt 0 at, chRand = rnd\<rparr>"
proof -
  obtain hh :: "(uint64, byte list) cwmHeap" where "Write 0 0 (H initialState) NewCopyWriteMap = Inr hh" "writable 0 hh"
    "view hh 0 = (view NewCopyWriteMap 0)(0 \<mapsto> H initialState)"
    using Write_writable [OF writable_New, of 0 "H initialState"] by blast
  then show ?thesis using assms by (simp add: NewSimpleTxProposer_def holds_def)
qed

text \<open>A node with the accounts of \<open>demoTable\<close>, for which a block with zeros as previous hash is the next one.\<close>

definition demoVrf :: "(nat, unit) vrfOps" where
  "demoVrf = \<lparr>vrfDecode = (\<lambda>b. (b, Inl EOF)), proofToHash = (\<lambda>p r v. Inr r)\<rparr>"

definition demoInstance :: spInstance where
  "demoInstance = \<lparr>spTable = 0, spHashes = 0, lastBlockIndex = 0, spUseRand = False, randBytes = []\<rparr>"

definition demoGlobal :: "(nat, nat) spGlobal" where
  "demoGlobal = \<lparr>spAccounts = demoTable, spHashHeap = (case Write 0 0 (replicate 32 0) NewCopyWriteMap of Inl _ \<Rightarrow> NewCopyWriteMap | Inr hh \<Rightarrow> hh)\<rparr>"

definition demoChain :: "nat chain" where
  "demoChain = \<lparr>chIndex = 0, chHash = replicate 32 0, chLedger = setBalances [1, 2] [100, 5] (\<lambda>_. (0, 0)), chRand = []\<rparr>"

lemma demo_holds: "holds demoInstance demoGlobal demoChain"
proof -
  obtain hh :: "(uint64, byte list) cwmHeap" where "Write 0 0 (replicate 32 0) NewCopyWriteMap = Inr hh" "writable 0 hh"
    "view hh 0 = (view NewCopyWriteMap 0)(0 \<mapsto> replicate 32 0)"
    using Write_writable [OF writable_New, of 0 "replicate 32 0"] by blast
  then show ?thesis using demo_tableOk by (simp add: holds_def demoInstance_def demoGlobal_def demoChain_def tableOk_def)
qed

lemma demo_supply: "totalSupply (chLedger demoChain) < 2 ^ 64"
  using demo_tableOk by (simp add: tableOk_def demoChain_def)

lemma demo_decoders: "decodersReturn demoKeys"
  by (auto simp: decodersReturn_def demoKeys_def panics_Inl split: list.splits)

lemma demo_validOn: "validOn demoKeys demoWireTx vs L = validOn demoKeys (demoTx 40) vs L"
proof -
  have "ValidateTransferTxFormat demoKeys demoWireTx = ValidateTransferTxFormat demoKeys (demoTx 40)"
    by (simp add: ValidateTransferTxFormat_def demoWireTx_def cong: if_cong)
  moreover have "checkSigs demoKeys (GetSignedMessage demoWireTx) (Senders demoWireTx) (Signatures demoWireTx) =
      checkSigs demoKeys (GetSignedMessage (demoTx 40)) (Senders (demoTx 40)) (Signatures (demoTx 40))"
    by (simp add: demoWireTx_def demoTx_def demoKeys_def)
  ultimately show ?thesis by (simp add: validOn_def) (simp add: demoWireTx_def)
qed

lemma demo_ledgerStep: "ledgerStep demoKeys demoWireTx L = ledgerStep demoKeys (demoTx 40) L"
  by (simp add: ledgerStep_def demo_validOn) (simp add: transfer_def demoWireTx_def)

lemma demo_withRoot:
  "tbIndex (withRoot demoHash demoBlock) = 1" "Transactions (withRoot demoHash demoBlock) = [demoWireTx]"
  "PrevHash (withRoot demoHash demoBlock) = replicate 32 0"
  by (simp_all add: withRoot_def demoBlock_def split: sum.splits)

lemma demo_block:
  "\<exists>b. blockEncode demoKeys demoHash demoBlock = Inr b \<and> b \<noteq> [] \<and> blockDecode demoKeys demoHash b = Inr (withRoot demoHash demoBlock, length b, [])"
proof -
  obtain b where b: "blockEncode demoKeys demoHash demoBlock = Inr b" using demo_blockEncode by (auto simp: is_ok_iff)
  then have d: "blockDecode demoKeys demoHash b = Inr (withRoot demoHash demoBlock, length b, [])"
    using blockDecode_encode [OF demo_codec(1) _ _ b, of "[]"] demo_codec(2) by (simp add: demoHash_def demoBlock_def)
  moreover have "b \<noteq> []" using d by (auto simp: blockDecode_def ReadUint64_def readArr_def)
  ultimately show ?thesis using b by blast
qed

theorem currency_replicas_agree_witness:
  "\<exists>b spi g. blockEncode demoKeys demoHash demoBlock = Inr b \<and>
    runDecisions demoKeys demoVrf demoHash [(1, b), (2, [])] demoInstance demoGlobal = Inr (spi, g) \<and>
    lastBlockIndex spi = 1 \<and> ledgerAt (spTable spi) (spAccounts g) 2 = (0, 15)"
proof -
  obtain b where b: "blockEncode demoKeys demoHash demoBlock = Inr b" and ne: "b \<noteq> []" and
    d: "blockDecode demoKeys demoHash b = Inr (withRoot demoHash demoBlock, length b, [])" using demo_block by blast
  have i: "chIndex demoChain = 0" "chHash demoChain = replicate 32 0" by (simp_all add: demoChain_def)
  define c where "c = demoChain\<lparr>chRand := chRand demoChain, chIndex := 1, chHash := demoHash b, chLedger := ledgerStep demoKeys (demoTx 40) (chLedger demoChain)\<rparr>"
  have c1: "chainStep demoKeys demoVrf demoHash False (1, b) demoChain = c"
    by (simp add: chainStep_def RandHasDecided_def ne d demo_withRoot i demo_ledgerStep c_def)
  have c2: "chainStep demoKeys demoVrf demoHash False (2, []) c = c" by (simp add: chainStep_def)
  have c: "fold (chainStep demoKeys demoVrf demoHash False) [(1, b), (2, [])] demoChain = c" by (simp only: fold_simps c1 c2)
  have "ledgerStep demoKeys (demoTx 40) (chLedger demoChain) 2 = (0, 15)" by code_simp
  then have l: "chIndex c = 1" "chLedger c 2 = (0, 15)" by (simp_all add: c_def)
  have u: "spUseRand demoInstance = False" by (simp add: demoInstance_def)
  obtain spi g where "runDecisions demoKeys demoVrf demoHash [(1, b), (2, [])] demoInstance demoGlobal = Inr (spi, g)" "holds spi g c"
    using currency_replicas_agree [OF demoKeys_laws(1) demo_decoders _ demo_supply demo_holds demo_holds refl, of demoVrf demoHash "[(1, b), (2, [])]"]
    unfolding u c by blast
  then show ?thesis using b l unfolding holds_def by metis
qed

lemma ValidateProposal_ok:
  assumes "ValidateProposal K V H proposer dec spi g = (g', Inr ())"
  shows "\<exists>rnd buf n blk. RandHasDecided V (spUseRand spi) proposer dec True (randBytes spi) = Inr (rnd, buf, n, None) \<and>
    deserializeBlock K H spi (spHashHeap g) buf = Inr (True, Some blk, None)"
proof -
  obtain r buf n where r: "RandHasDecided V (spUseRand spi) proposer dec False (randBytes spi) = Inr (r, buf, n, None)"
    using assms by (auto simp: ValidateProposal_def split: sum.splits prod.splits option.splits)
  then have "\<exists>rnd. RandHasDecided V (spUseRand spi) proposer dec True (randBytes spi) = Inr (rnd, buf, n, None)"
    by (auto simp: RandHasDecided_def split: prod.splits sum.splits if_splits)
  moreover have "\<exists>blk. deserializeBlock K H spi (spHashHeap g) buf = Inr (True, Some blk, None)"
    using assms r by (auto simp: ValidateProposal_def split: sum.splits prod.splits option.splits if_splits)
  ultimately show ?thesis by blast
qed

text \<open>Validating a proposal, whatever the result, leaves the chain that the instance holds.\<close>

lemma ValidateProposal_holds:
  fixes g :: "('p, 'k :: linorder) spGlobal"
  assumes "holds spi g c" "ValidateProposal K V H proposer dec spi g = (g', r)"
  shows "holds spi g' c"
proof -
  have "g' = g \<or> (\<exists>txs at r'. validateBlock K (cwmTable (spTable spi)) txs (spAccounts g) = (at, r') \<and> g' = g\<lparr>spAccounts := at\<rparr>)"
    using assms(2) by (auto simp: ValidateProposal_def split: sum.splits prod.splits option.splits if_splits)
  then show ?thesis
  proof
    assume "\<exists>txs at r'. validateBlock K (cwmTable (spTable spi)) txs (spAccounts g) = (at, r') \<and> g' = g\<lparr>spAccounts := at\<rparr>"
    then obtain txs at r' where b: "validateBlock K (cwmTable (spTable spi)) txs (spAccounts g) = (at, r')" "g' = g\<lparr>spAccounts := at\<rparr>" by blast
    show ?thesis using validateBlock_keeps [OF _ b(1)] assms(1) b(2) by (simp add: holds_def)
  qed (use assms(1) in simp)
qed

text \<open>
  C37 (accepted proposals extend the chain). Let the balances of the chain sum up to less than \<open>2 ^ 64\<close>, and let the methods and the decoders of
  the keys not panic. When a node that holds the chain accepts a proposal that is not empty, then deciding that proposal, in the state in
  which the validation left the tables, appends its block: the index of the last block grows by one and its hash is that of the decided bytes.
\<close>

theorem currency_accepted_extends:
  fixes g :: "('p, 'k :: linorder) spGlobal"
  assumes "keysReturn K" and "decodersReturn K" and "holds spi g c" and "totalSupply (chLedger c) < 2 ^ 64"
    and "ValidateProposal K V H proposer dec spi g = (g1, Inr ())" and "dec \<noteq> []"
  shows "\<exists>spi' g2. spHasDecided K V H proposer dec spi g1 = Inr (spi', g2) \<and> lastBlockIndex spi' = lastBlockIndex spi + 1 \<and>
    Read (spHashes spi') (lastBlockIndex spi') (spHashHeap g2) = Inr (Some (H dec), True)"
proof -
  obtain buf blk n rnd where v: "RandHasDecided V (spUseRand spi) proposer dec True (chRand c) = Inr (rnd, buf, n, None)"
    "deserializeBlock K H spi (spHashHeap g) buf = Inr (True, Some blk, None)"
    using ValidateProposal_ok [OF assms(5)] assms(3) by (auto simp: holds_def)
  have b: "\<exists>m rest. blockDecode K H buf = Inr (blk, m, rest) \<and> tbIndex blk = chIndex c + 1 \<and> PrevHash blk = chHash c \<and> m = length buf"
    using v(2) deserializeBlock_holds [OF assms(3,2), of H "randBytes spi" buf] by (auto split: sum.splits prod.splits)
  have "holds spi g1 c" using ValidateProposal_holds [OF assms(3,5)] .
  from spHasDecided_refines [OF this assms(4,1,2), of V proposer dec H] v(1)
  obtain spi' g2 where d: "spHasDecided K V H proposer dec spi g1 = Inr (spi', g2)" "holds spi' g2 (chainStep K V H (spUseRand spi) (proposer, dec) c)"
    by blast
  have s: "chIndex (chainStep K V H (spUseRand spi) (proposer, dec) c) = chIndex c + 1" "chHash (chainStep K V H (spUseRand spi) (proposer, dec) c) = H dec"
    using b v(1) assms(6) by (auto simp: chainStep_def Let_def)
  then show ?thesis using d assms(3) Read_writable [of "spHashes spi'" "spHashHeap g2" "chIndex c + 1"] by (auto simp: holds_def)
qed

theorem currency_accepted_extends_witness:
  "\<exists>b g1 spi g2. blockEncode demoKeys demoHash demoBlock = Inr b \<and>
    ValidateProposal demoKeys demoVrf demoHash 1 b demoInstance demoGlobal = (g1, Inr ()) \<and>
    spHasDecided demoKeys demoVrf demoHash 1 b demoInstance g1 = Inr (spi, g2) \<and> lastBlockIndex spi = lastBlockIndex demoInstance + 1"
proof -
  obtain b where b: "blockEncode demoKeys demoHash demoBlock = Inr b" "b \<noteq> []" and
    d: "blockDecode demoKeys demoHash b = Inr (withRoot demoHash demoBlock, length b, [])" using demo_block by blast
  have "deserializeBlock demoKeys demoHash (demoInstance\<lparr>randBytes := []\<rparr>) (spHashHeap demoGlobal) b = Inr (True, Some (withRoot demoHash demoBlock), None)"
    unfolding deserializeBlock_holds [OF demo_holds demo_decoders] using d demo_withRoot by (simp add: demoChain_def)
  then have v: "deserializeBlock demoKeys demoHash demoInstance (spHashHeap demoGlobal) b = Inr (True, Some (withRoot demoHash demoBlock), None)"
    by (simp add: demoInstance_def)
  have "validOn demoKeys (demoTx 40) True (ledgerAt 0 demoTable)" unfolding demo_tableOk(2) by code_simp
  then have t: "snd (ValidateTx demoKeys (cwmTable 0) demoWireTx True None demoTable) = Inr ()"
    using cwmValidate [of 0 demoTable demoKeys demoWireTx True None] demo_tableOk(1) by (auto simp: demo_validOn tableOk_def)
  obtain at where "validateBlock demoKeys (cwmTable 0) [demoWireTx] demoTable = (at, Inr ())"
    using t by (cases "ValidateTx demoKeys (cwmTable 0) demoWireTx True None demoTable") auto
  then have p: "ValidateProposal demoKeys demoVrf demoHash 1 b demoInstance demoGlobal = (demoGlobal\<lparr>spAccounts := at\<rparr>, Inr ())"
    using v demo_withRoot by (simp add: ValidateProposal_def RandHasDecided_def) (simp add: demoInstance_def demoGlobal_def)
  from currency_accepted_extends [OF demoKeys_laws(1) demo_decoders demo_holds demo_supply p b(2)] show ?thesis using b(1) p by blast
qed

end
