(* ===== verification/SignedMsgState.thy ===== *)
theory SignedMsgState
  imports Utils
begin

text \<open>
  Model of the per-instance message store of
  \<^verbatim>\<open>src/consensus/consinterface/messagestate/signedmsgstate.go\<close> (\<^verbatim>\<open>signedMsgMap\<close>): it
  records, for every message hash, who signed it, and, for every message identifier
  (\<^verbatim>\<open>messages.MsgID\<close>, e.g. a round), who signed any message with that identifier.
  The consensus algorithms act on the two counts it returns.

  Public key identifiers are of an arbitrary type \<open>'p\<close>, hashes of type \<open>'h\<close>, message identifiers of
  type \<open>'i\<close>. Go maps that the code only looks up are partial functions; maps whose
  size or elements the code reads (\<^verbatim>\<open>SigMap\<close>, the tracked key sets) are lists with one entry
  per key. The mutexes are not modelled: every operation here runs under them.
  \<^verbatim>\<open>totalSigCountMap\<close> maps several hashes to one shared Go map; the sharing is explicit, a
  reference into a store of key lists.
\<close>

section \<open>Data\<close>

record 'p sig_item =
  si_pub :: 'p
  si_members :: int \<comment> \<open>\<^verbatim>\<open>Pub.GetSigMemberNumber()\<close>: more than 1 for a threshold key\<close>
  si_sig :: nat

record ('p, 'h, 'i) signed_msg =
  sm_hash :: 'h
  sm_msgid :: 'i
  sm_sigs :: "'p sig_item list"

record ('p, 'h, 'i) unsigned_msg =
  um_hash :: 'h
  um_msgid :: 'i
  um_pubs :: "'p list"

record ('p, 'i) signedMsgState =
  SigMap :: "('p \<times> 'p sig_item) list"
  singleSigCount :: int
  thrshSigCount :: int
  thrshSig :: "'p sig_item option"
  hdr_msgid :: 'i

record ('p, 'i) unsignedMsgState =
  uSigMap :: "'p list"
  uSingleSigCount :: int
  uhdr_msgid :: 'i

record 'p msgIDcount =
  pubKeyMap :: "'p list"
  thrshSigCounts :: "int list"
  idSingleSigCount :: int

record ('p, 'h, 'i) signedMsgMap =
  msgMap :: "'h \<Rightarrow> ('p, 'i) signedMsgState option"
  unsignedMsgMap :: "'h \<Rightarrow> ('p, 'i) unsignedMsgState option"
  msgIDMap :: "'i \<Rightarrow> 'p msgIDcount option"
  totalSigCountMap :: "'h \<Rightarrow> nat option"
  tcmStore :: "nat \<Rightarrow> 'p list"
  tcmNext :: nat

section \<open>Operations\<close>

definition newSignedMsgMap :: "('p, 'h, 'i) signedMsgMap" where
  "newSignedMsgMap = \<lparr>msgMap = \<lambda>_. None, unsignedMsgMap = \<lambda>_. None, msgIDMap = \<lambda>_. None,
     totalSigCountMap = \<lambda>_. None, tcmStore = \<lambda>_. [], tcmNext = 0\<rparr>"

definition newSignedMsgState :: "('p, 'h, 'i) signed_msg \<Rightarrow> ('p, 'i) signedMsgState" where
  "newSignedMsgState sm = \<lparr>SigMap = [], singleSigCount = 0, thrshSigCount = 0, thrshSig = None,
     hdr_msgid = sm_msgid sm\<rparr>"

definition newUnsignedMsgState :: "('p, 'h, 'i) unsigned_msg \<Rightarrow> ('p, 'i) unsignedMsgState" where
  "newUnsignedMsgState usm = \<lparr>uSigMap = [], uSingleSigCount = 0, uhdr_msgid = um_msgid usm\<rparr>"

definition newMsgIDcount :: "'p msgIDcount" where
  "newMsgIDcount = \<lparr>pubKeyMap = [], thrshSigCounts = [], idSingleSigCount = 0\<rparr>"

text \<open>The entry for an identifier, created when it does not exist (shared by the two functions below).\<close>

definition getMsgIDcount :: "('p, 'h, 'i) signedMsgMap \<Rightarrow> 'i \<Rightarrow> ('p, 'h, 'i) signedMsgMap \<times> 'p msgIDcount" where
  "getMsgIDcount sms i =
     (case msgIDMap sms i of
        Some c \<Rightarrow> (sms, c)
      | None \<Rightarrow> (sms\<lparr>msgIDMap := (msgIDMap sms)(i \<mapsto> newMsgIDcount)\<rparr>, newMsgIDcount))"

definition getSignedMsgState ::
    "('p, 'h, 'i) signedMsgMap \<Rightarrow> ('p, 'h, 'i) signed_msg
     \<Rightarrow> (('p, 'h, 'i) signedMsgMap \<times> ('p, 'i) signedMsgState \<times> 'p msgIDcount) res" where
  "getSignedMsgState sms sm =
     (case msgMap sms (sm_hash sm) of
        Some item \<Rightarrow> (case getMsgIDcount sms (sm_msgid sm) of (sms', c) \<Rightarrow> Inr (sms', item, c))
      | None \<Rightarrow>
          if unsignedMsgMap sms (sm_hash sm) \<noteq> None
          then Inl (Panic ''should not have both signed and unsiged versions of same message'')
          else (let item = newSignedMsgState sm;
                    sms1 = sms\<lparr>msgMap := (msgMap sms)(sm_hash sm \<mapsto> item)\<rparr>
                in case getMsgIDcount sms1 (sm_msgid sm) of (sms', c) \<Rightarrow> Inr (sms', item, c)))"

definition getUnsignedMsgState ::
    "('p, 'h, 'i) signedMsgMap \<Rightarrow> ('p, 'h, 'i) unsigned_msg
     \<Rightarrow> (('p, 'h, 'i) signedMsgMap \<times> ('p, 'i) unsignedMsgState \<times> 'p msgIDcount) res" where
  "getUnsignedMsgState sms um =
     (case unsignedMsgMap sms (um_hash um) of
        Some item \<Rightarrow> (case getMsgIDcount sms (um_msgid um) of (sms', c) \<Rightarrow> Inr (sms', item, c))
      | None \<Rightarrow>
          if msgMap sms (um_hash um) \<noteq> None
          then Inl (Panic ''should not have both signed and unsiged versions of same message'')
          else (let item = newUnsignedMsgState um;
                    sms1 = sms\<lparr>unsignedMsgMap := (unsignedMsgMap sms)(um_hash um \<mapsto> item)\<rparr>
                in case getMsgIDcount sms1 (um_msgid um) of (sms', c) \<Rightarrow> Inr (sms', item, c)))"

text \<open>
  \<^verbatim>\<open>gotMsg\<close> keeps in the message only the signatures of keys not seen yet for this hash,
  and fails when none is left. The message is changed in both cases.
\<close>

definition gotMsg ::
    "('p, 'h, 'i) signedMsgMap \<Rightarrow> ('p, 'h, 'i) signed_msg
     \<Rightarrow> ('p, 'h, 'i) signedMsgMap \<times> ('p, 'h, 'i) signed_msg \<times> unit res" where
  "gotMsg sms sm =
     (case getSignedMsgState sms sm of
        Inl e \<Rightarrow> (sms, sm, Inl e)
      | Inr (sms', item, c) \<Rightarrow>
          (let newItems = filter (\<lambda>si. map_of (SigMap item) (si_pub si) = None) (sm_sigs sm);
               sm' = sm\<lparr>sm_sigs := newItems\<rparr>
           in if newItems = [] then (sms', sm', Inl ErrNoNewSigs) else (sms', sm', Inr ())))"

definition gotUnsignedMsg ::
    "('p, 'h, 'i) signedMsgMap \<Rightarrow> ('p, 'h, 'i) unsigned_msg
     \<Rightarrow> ('p, 'h, 'i) signedMsgMap \<times> ('p, 'h, 'i) unsigned_msg \<times> unit res" where
  "gotUnsignedMsg sms um =
     (case getUnsignedMsgState sms um of
        Inl e \<Rightarrow> (sms, um, Inl e)
      | Inr (sms', item, c) \<Rightarrow>
          (let newItems = filter (\<lambda>p. p \<notin> set (uSigMap item)) (um_pubs um);
               um' = um\<lparr>um_pubs := newItems\<rparr>
           in if newItems = [] then (sms', um', Inl ErrNoNewSigs) else (sms', um', Inr ())))"

text \<open>\<open>m[k] = true\<close> on a Go map used as a set of keys.\<close>

definition add_key :: "'p \<Rightarrow> 'p list \<Rightarrow> 'p list" where
  "add_key p ks = (if p \<in> set ks then ks else ks @ [p])"

definition track_key :: "('p, 'h, 'i) signedMsgMap \<Rightarrow> 'h \<Rightarrow> 'p \<Rightarrow> ('p, 'h, 'i) signedMsgMap" where
  "track_key sms h p =
     (case totalSigCountMap sms h of
        None \<Rightarrow> sms
      | Some r \<Rightarrow> sms\<lparr>tcmStore := (tcmStore sms)(r := add_key p (tcmStore sms r))\<rparr>)"

text \<open>The two counters of one iteration of the loop of \<^verbatim>\<open>storeMsg\<close>.\<close>

definition count_id :: "'p sig_item \<Rightarrow> 'p msgIDcount \<Rightarrow> 'p msgIDcount" where
  "count_id si c =
     (if si_pub si \<in> set (pubKeyMap c) then c
      else (let c1 = c\<lparr>pubKeyMap := add_key (si_pub si) (pubKeyMap c)\<rparr>
            in if si_members si > 1 then c1\<lparr>thrshSigCounts := thrshSigCounts c1 @ [si_members si]\<rparr>
               else c1\<lparr>idSingleSigCount := idSingleSigCount c1 + 1\<rparr>))"

definition count_item :: "'p sig_item \<Rightarrow> ('p, 'i) signedMsgState \<Rightarrow> ('p, 'i) signedMsgState res" where
  "count_item si item =
     (let item1 = item\<lparr>SigMap := SigMap item @ [(si_pub si, si)]\<rparr>
      in if si_members si > 1
         then (if thrshSig item1 \<noteq> None
               then (if thrshSigCount item1 \<noteq> si_members si
                     then Inl (Panic ''Got thrsh sig with count'')
                     else Inr item1)
               else Inr (item1\<lparr>thrshSigCount := si_members si, thrshSig := Some si\<rparr>))
         else Inr (item1\<lparr>singleSigCount := singleSigCount item1 + 1\<rparr>))"

fun storeMsg_loop ::
    "'h \<Rightarrow> 'p sig_item list \<Rightarrow> ('p, 'h, 'i) signedMsgMap \<Rightarrow> 'p msgIDcount \<Rightarrow> ('p, 'i) signedMsgState
     \<Rightarrow> 'p sig_item list
     \<Rightarrow> (('p, 'h, 'i) signedMsgMap \<times> 'p msgIDcount \<times> ('p, 'i) signedMsgState \<times> 'p sig_item list) res" where
  "storeMsg_loop h [] sms c item newSigs = Inr (sms, c, item, newSigs)"
| "storeMsg_loop h (si # sis) sms c item newSigs =
     (let sms1 = track_key sms h (si_pub si); c1 = count_id si c
      in if map_of (SigMap item) (si_pub si) = None
         then bind_res (count_item si item) (\<lambda>item1. storeMsg_loop h sis sms1 c1 item1 (newSigs @ [si]))
         else storeMsg_loop h sis sms1 c1 item newSigs)"

definition storeMsg ::
    "('p, 'h, 'i) signedMsgMap \<Rightarrow> ('p, 'h, 'i) signed_msg
     \<Rightarrow> ('p, 'h, 'i) signedMsgMap \<times> ('p, 'h, 'i) signed_msg \<times> (int \<times> int) res" where
  "storeMsg sms sm =
     (case getSignedMsgState sms sm of
        Inl e \<Rightarrow> (sms, sm, Inl e)
      | Inr (sms0, item, c) \<Rightarrow>
          if sm_sigs sm = [] then (sms0, sm, Inl ErrNoValidSigs)
          else
            (case storeMsg_loop (sm_hash sm) (sm_sigs sm) sms0 c item [] of
               Inl e \<Rightarrow> (sms0, sm, Inl e)
             | Inr (sms1, c1, item1, newSigs) \<Rightarrow>
                 (let sms2 = sms1\<lparr>msgMap := (msgMap sms1)(sm_hash sm \<mapsto> item1),
                                  msgIDMap := (msgIDMap sms1)(sm_msgid sm \<mapsto> c1)\<rparr>;
                      ret = MaxInt (singleSigCount item1) [thrshSigCount item1];
                      ret2 = MaxInt (idSingleSigCount c1) (thrshSigCounts c1);
                      sm' = sm\<lparr>sm_sigs := newSigs\<rparr>
                  in if newSigs = [] then (sms2, sm', Inl ErrNoValidSigs)
                     else (sms2, sm', Inr (ret, ret2)))))"

fun storeUnsignedMsg_loop ::
    "'h \<Rightarrow> 'p list \<Rightarrow> ('p, 'h, 'i) signedMsgMap \<Rightarrow> 'p msgIDcount \<Rightarrow> ('p, 'i) unsignedMsgState \<Rightarrow> 'p list
     \<Rightarrow> ('p, 'h, 'i) signedMsgMap \<times> 'p msgIDcount \<times> ('p, 'i) unsignedMsgState \<times> 'p list" where
  "storeUnsignedMsg_loop h [] sms c item newPubs = (sms, c, item, newPubs)"
| "storeUnsignedMsg_loop h (p # ps) sms c item newPubs =
     (let sms1 = track_key sms h p;
          c1 = (if p \<in> set (pubKeyMap c) then c
                else c\<lparr>pubKeyMap := add_key p (pubKeyMap c), idSingleSigCount := idSingleSigCount c + 1\<rparr>)
      in if p \<notin> set (uSigMap item)
         then storeUnsignedMsg_loop h ps sms1 c1
                (item\<lparr>uSigMap := uSigMap item @ [p], uSingleSigCount := uSingleSigCount item + 1\<rparr>) (newPubs @ [p])
         else storeUnsignedMsg_loop h ps sms1 c1 item newPubs)"

definition storeUnsignedMsg ::
    "('p, 'h, 'i) signedMsgMap \<Rightarrow> ('p, 'h, 'i) unsigned_msg
     \<Rightarrow> ('p, 'h, 'i) signedMsgMap \<times> ('p, 'h, 'i) unsigned_msg \<times> (int \<times> int) res" where
  "storeUnsignedMsg sms um =
     (case getUnsignedMsgState sms um of
        Inl e \<Rightarrow> (sms, um, Inl e)
      | Inr (sms0, item, c) \<Rightarrow>
          if um_pubs um = [] then (sms0, um, Inl ErrNoValidSigs)
          else
            (case storeUnsignedMsg_loop (um_hash um) (um_pubs um) sms0 c item [] of
               (sms1, c1, item1, newPubs) \<Rightarrow>
                 (let sms2 = sms1\<lparr>unsignedMsgMap := (unsignedMsgMap sms1)(um_hash um \<mapsto> item1),
                                  msgIDMap := (msgIDMap sms1)(um_msgid um \<mapsto> c1)\<rparr>;
                      um' = um\<lparr>um_pubs := newPubs\<rparr>
                  in if newPubs = [] then (sms2, um', Inl ErrNoValidSigs)
                     else (sms2, um', Inr (uSingleSigCount item1, idSingleSigCount c1)))))"

definition getSigCountMsg :: "('p, 'h, 'i) signedMsgMap \<Rightarrow> 'h \<Rightarrow> int" where
  "getSigCountMsg sms h =
     (case msgMap sms h of None \<Rightarrow> 0
      | Some item \<Rightarrow> MaxInt (singleSigCount item) [thrshSigCount item])"

definition getSigCountMsgID :: "('p, 'h, 'i) signedMsgMap \<Rightarrow> 'i \<Rightarrow> int" where
  "getSigCountMsgID sms i =
     (case msgIDMap sms i of None \<Rightarrow> 0
      | Some c \<Rightarrow> MaxInt (idSingleSigCount c) (thrshSigCounts c))"

definition getThreshSig :: "('p, 'h, 'i) signedMsgMap \<Rightarrow> 'h \<Rightarrow> 'p sig_item res" where
  "getThreshSig sms h =
     (case msgMap sms h of None \<Rightarrow> Inl ErrMsgNotFound
      | Some item \<Rightarrow> (case thrshSig item of None \<Rightarrow> Inl ErrMsgNotFound | Some s \<Rightarrow> Inr s))"

text \<open>
  \<^verbatim>\<open>trackTotalSigCount\<close> allocates one key set and makes every given hash point to it; the
  signatures already received for the hashes are added (threshold signatures excepted).
\<close>

fun trackTotalSigCount_loop ::
    "nat \<Rightarrow> 'h list \<Rightarrow> ('p, 'h, 'i) signedMsgMap \<Rightarrow> ('p, 'h, 'i) signedMsgMap res" where
  "trackTotalSigCount_loop r [] sms = Inr sms"
| "trackTotalSigCount_loop r (h # hs) sms =
     (if totalSigCountMap sms h \<noteq> None then Inl (Panic ''must only be for unique messages'')
      else
        (let sms1 = sms\<lparr>totalSigCountMap := (totalSigCountMap sms)(h \<mapsto> r)\<rparr>;
             fromSigned = (case msgMap sms h of None \<Rightarrow> []
                | Some itm \<Rightarrow> map fst (filter (\<lambda>(k, s). si_members s = 1) (SigMap itm)));
             sms2 = sms1\<lparr>tcmStore := (tcmStore sms1)(r := fold add_key fromSigned (tcmStore sms1 r))\<rparr>
         in case unsignedMsgMap sms h of
              None \<Rightarrow> trackTotalSigCount_loop r hs sms2
            | Some itm \<Rightarrow>
                if msgMap sms h \<noteq> None
                then Inl (Panic ''should not use same msg type for both signed and unsigned messages'')
                else trackTotalSigCount_loop r hs
                       (sms2\<lparr>tcmStore := (tcmStore sms2)(r := fold add_key (uSigMap itm) (tcmStore sms2 r))\<rparr>)))"

definition trackTotalSigCount :: "('p, 'h, 'i) signedMsgMap \<Rightarrow> 'h list \<Rightarrow> ('p, 'h, 'i) signedMsgMap res" where
  "trackTotalSigCount sms hs =
     (if length hs < 2 then Inl (Panic ''should be at least two messages'')
      else trackTotalSigCount_loop (tcmNext sms) hs
             (sms\<lparr>tcmStore := (tcmStore sms)(tcmNext sms := []), tcmNext := Suc (tcmNext sms)\<rparr>))"

fun getTotalSigCount_loop :: "('p, 'h, 'i) signedMsgMap \<Rightarrow> 'h list \<Rightarrow> int \<Rightarrow> int list \<Rightarrow> int \<times> int list" where
  "getTotalSigCount_loop sms [] tot each = (tot, each)"
| "getTotalSigCount_loop sms (h # hs) tot each =
     (let tot1 = (case msgMap sms h of None \<Rightarrow> tot
                    | Some m \<Rightarrow> if thrshSigCount m > tot then thrshSigCount m else tot);
          e = (case msgMap sms h of None \<Rightarrow> 0 | Some m \<Rightarrow> Max_int (thrshSigCount m) (singleSigCount m));
          v = (case totalSigCountMap sms h of None \<Rightarrow> 0 | Some r \<Rightarrow> int (length (tcmStore sms r)));
          tot2 = (if v > tot1 then v else tot1)
      in getTotalSigCount_loop sms hs tot2 (each @ [e]))"

definition getTotalSigCount :: "('p, 'h, 'i) signedMsgMap \<Rightarrow> 'h list \<Rightarrow> (int \<times> int list) res" where
  "getTotalSigCount sms hs =
     (if length hs < 2 then Inl (Panic ''should be at least two messages'')
      else Inr (getTotalSigCount_loop sms hs 0 []))"

text \<open>
  \<^verbatim>\<open>joinSigs\<close> for a private key that is neither a threshold key nor a coin key: the
  local signature first, then other signatures until \<open>addOthers\<close> are collected. Go
  iterates over \<^verbatim>\<open>SigMap\<close> in an unspecified order; the list order of the model stands for it.
\<close>

fun joinSigs_loop :: "'p \<Rightarrow> int \<Rightarrow> ('p \<times> 'p sig_item) list \<Rightarrow> int \<Rightarrow> 'p sig_item list \<Rightarrow> 'p sig_item list" where
  "joinSigs_loop pid cnt [] totalCount acc = acc"
| "joinSigs_loop pid cnt ((p, s) # m) totalCount acc =
     (if p = pid then joinSigs_loop pid cnt m totalCount acc
      else if totalCount \<ge> cnt then acc
      else joinSigs_loop pid cnt m (totalCount + 1) (acc @ [s]))"

definition joinSigs :: "'p \<Rightarrow> ('p, 'i) signedMsgState \<Rightarrow> int \<Rightarrow> 'p sig_item list" where
  "joinSigs pid item addOthers =
     (if addOthers > 0
      then (case map_of (SigMap item) pid of
              None \<Rightarrow> joinSigs_loop pid addOthers (SigMap item) 0 []
            | Some s \<Rightarrow> joinSigs_loop pid addOthers (SigMap item) 1 [s])
      else [])"

text \<open>\<^verbatim>\<open>setupSigs\<close>; \<open>mySig\<close> is the freshly generated signature when \<^verbatim>\<open>generateMySig\<close> is set.\<close>

definition setupSigs ::
    "('p, 'h, 'i) signedMsgMap \<Rightarrow> ('p, 'h, 'i) signed_msg \<Rightarrow> 'p \<Rightarrow> 'p sig_item option \<Rightarrow> int
     \<Rightarrow> ('p, 'h, 'i) signedMsgMap \<times> ('p, 'h, 'i) signed_msg res" where
  "setupSigs sms sm pid mySig addOthers =
     (case getSignedMsgState sms sm of
        Inl e \<Rightarrow> (sms, Inl e)
      | Inr (sms', item, c) \<Rightarrow>
          (let sigItems = joinSigs pid item addOthers @ (case mySig of None \<Rightarrow> [] | Some s \<Rightarrow> [s])
           in if sigItems = [] then (sms', Inl ErrNotEnoughSigs)
              else (sms', Inr (sm\<lparr>sm_sigs := sigItems\<rparr>))))"

text \<open>\<^verbatim>\<open>SimpleMessageState.SetupSignedMessage\<close>: the header is built by the caller.\<close>

definition SetupSignedMessage ::
    "('p, 'h, 'i) signedMsgMap \<Rightarrow> ('p, 'h, 'i) signed_msg \<Rightarrow> 'p \<Rightarrow> 'p sig_item option \<Rightarrow> int
     \<Rightarrow> ('p, 'h, 'i) signedMsgMap \<times> ('p, 'h, 'i) signed_msg res" where
  "SetupSignedMessage sms sm pid mySig addOthers =
     (if mySig = None \<and> addOthers < 1 then (sms, Inl ErrNoValidSigs)
      else setupSigs sms sm pid mySig addOthers)"

text \<open>
  \<^verbatim>\<open>SimpleMessageState.GotMsg\<close> (\<^verbatim>\<open>simple_message_state.go\<close>), the path of a signed message that is
  not a partial message: drop known signatures, keep those \<^verbatim>\<open>CheckMember\<close> accepts
  (the predicate \<open>chk\<close>: membership and signature verification), store them. The second component
  is the message as processed, the result carries \<^verbatim>\<open>NewTotalSigCount\<close> and \<^verbatim>\<open>NewMsgIDSigCount\<close>.
\<close>

definition GotSignedMsg ::
    "('p sig_item \<Rightarrow> bool) \<Rightarrow> ('p, 'h, 'i) signedMsgMap \<Rightarrow> ('p, 'h, 'i) signed_msg
     \<Rightarrow> ('p, 'h, 'i) signedMsgMap \<times> ('p, 'h, 'i) signed_msg \<times> (int \<times> int) res" where
  "GotSignedMsg chk sms sm =
     (case gotMsg sms sm of
        (sms1, sm1, Inl e) \<Rightarrow> (sms1, sm1, Inl e)
      | (sms1, sm1, Inr _) \<Rightarrow> storeMsg sms1 (sm1\<lparr>sm_sigs := filter chk (sm_sigs sm1)\<rparr>))"

section \<open>Well-formedness and abstraction\<close>

text \<open>The keys that signed a message hash, and the keys that signed any message of an identifier.\<close>

definition signers :: "('p, 'h, 'i) signedMsgMap \<Rightarrow> 'h \<Rightarrow> 'p set" where
  "signers sms h = (case msgMap sms h of None \<Rightarrow> {} | Some item \<Rightarrow> set (map fst (SigMap item)))"

definition idSigners :: "('p, 'h, 'i) signedMsgMap \<Rightarrow> 'i \<Rightarrow> 'p set" where
  "idSigners sms i = (case msgIDMap sms i of None \<Rightarrow> {} | Some c \<Rightarrow> set (pubKeyMap c))"

definition wf_item :: "('p, 'i) signedMsgState \<Rightarrow> bool" where
  "wf_item item \<longleftrightarrow> distinct (map fst (SigMap item)) \<and> (\<forall>(k, s) \<in> set (SigMap item). si_pub s = k) \<and>
     singleSigCount item = int (length (filter (\<lambda>(k, s). si_members s \<le> 1) (SigMap item))) \<and>
     thrshSigCount item = (case thrshSig item of None \<Rightarrow> 0 | Some s \<Rightarrow> si_members s)"

definition wf_id :: "'p msgIDcount \<Rightarrow> bool" where
  "wf_id c \<longleftrightarrow> distinct (pubKeyMap c) \<and>
     idSingleSigCount c + int (length (thrshSigCounts c)) = int (length (pubKeyMap c)) \<and>
     0 \<le> idSingleSigCount c"

definition wf_sms :: "('p, 'h, 'i) signedMsgMap \<Rightarrow> bool" where
  "wf_sms sms \<longleftrightarrow> (\<forall>h item. msgMap sms h = Some item \<longrightarrow> wf_item item) \<and>
     (\<forall>i c. msgIDMap sms i = Some c \<longrightarrow> wf_id c)"

text \<open>No threshold key has signed: every signature stands for one member.\<close>

definition plain_item :: "('p, 'i) signedMsgState \<Rightarrow> bool" where
  "plain_item item \<longleftrightarrow> thrshSig item = None \<and> (\<forall>(k, s) \<in> set (SigMap item). si_members s = 1)"

definition plain_sms :: "('p, 'h, 'i) signedMsgMap \<Rightarrow> bool" where
  "plain_sms sms \<longleftrightarrow> (\<forall>h item. msgMap sms h = Some item \<longrightarrow> plain_item item) \<and>
     (\<forall>i c. msgIDMap sms i = Some c \<longrightarrow> thrshSigCounts c = [])"

definition plain_sigs :: "'p sig_item list \<Rightarrow> bool" where
  "plain_sigs sis \<longleftrightarrow> (\<forall>si \<in> set sis. si_members si = 1)"

definition pubs_of :: "'p sig_item list \<Rightarrow> 'p set" where
  "pubs_of sis = si_pub ` set sis"

lemma wf_new [simp]:
  "wf_item (newSignedMsgState sm)" "wf_id newMsgIDcount" "plain_item (newSignedMsgState sm)"
  by (simp_all add: wf_item_def wf_id_def plain_item_def newSignedMsgState_def newMsgIDcount_def)

lemma wf_newSignedMsgMap [simp]: "wf_sms newSignedMsgMap" "plain_sms newSignedMsgMap"
  by (simp_all add: wf_sms_def plain_sms_def newSignedMsgMap_def)

lemma signers_new [simp]: "signers newSignedMsgMap h = {}" "idSigners newSignedMsgMap i = {}"
  by (simp_all add: signers_def idSigners_def newSignedMsgMap_def)

lemma set_add_key [simp]: "set (add_key p ks) = insert p (set ks)"
  by (auto simp: add_key_def)

lemma distinct_add_key [simp]: "distinct (add_key p ks) = distinct ks"
  by (auto simp: add_key_def)

lemma set_fold_add_key [simp]: "set (fold add_key ps ks) = set ps \<union> set ks"
  by (induction ps arbitrary: ks) auto

lemma distinct_fold_add_key [simp]: "distinct (fold add_key ps ks) = distinct ks"
  by (induction ps arbitrary: ks) auto

subsection \<open>The entries of a message\<close>

lemma getMsgIDcount_cases:
  assumes "getMsgIDcount sms i = (sms', c)"
  obtains (old) "msgIDMap sms i = Some c" "sms' = sms"
  | (new) "msgIDMap sms i = None" "c = newMsgIDcount" "sms' = sms\<lparr>msgIDMap := (msgIDMap sms)(i \<mapsto> newMsgIDcount)\<rparr>"
  using assms by (auto simp: getMsgIDcount_def split: option.splits)

text \<open>What \<open>getSignedMsgState\<close> leaves: the entries exist and nothing else changed.\<close>

lemma getSignedMsgState_spec:
  assumes "getSignedMsgState sms sm = Inr (sms', item, c)"
  shows "msgMap sms' = (msgMap sms)(sm_hash sm \<mapsto> item)"
    and "msgIDMap sms' = (msgIDMap sms)(sm_msgid sm \<mapsto> c)"
    and "totalSigCountMap sms' = totalSigCountMap sms" "tcmStore sms' = tcmStore sms" "tcmNext sms' = tcmNext sms"
    and "unsignedMsgMap sms' = unsignedMsgMap sms"
    and "msgMap sms (sm_hash sm) = Some item \<or> (msgMap sms (sm_hash sm) = None \<and> item = newSignedMsgState sm)"
    and "msgIDMap sms (sm_msgid sm) = Some c \<or> (msgIDMap sms (sm_msgid sm) = None \<and> c = newMsgIDcount)"
  using assms
  by (auto simp: getSignedMsgState_def getMsgIDcount_def Let_def fun_eq_iff split: option.splits if_splits)

lemma getSignedMsgState_wf:
  assumes "getSignedMsgState sms sm = Inr (sms', item, c)" "wf_sms sms"
  shows "wf_item item" "wf_id c" "wf_sms sms'"
  using getSignedMsgState_spec [OF assms(1)] assms(2) by (auto simp: wf_sms_def split: if_splits)

lemma getSignedMsgState_plain:
  assumes "getSignedMsgState sms sm = Inr (sms', item, c)" "plain_sms sms"
  shows "plain_item item" "thrshSigCounts c = []" "plain_sms sms'"
  using getSignedMsgState_spec [OF assms(1)] assms(2)
  by (auto simp: plain_sms_def newMsgIDcount_def split: if_splits)

lemma getSignedMsgState_signers:
  assumes "getSignedMsgState sms sm = Inr (sms', item, c)"
  shows "signers sms' h = signers sms h" "idSigners sms' i = idSigners sms i"
    and "set (map fst (SigMap item)) = signers sms (sm_hash sm)"
    and "set (pubKeyMap c) = idSigners sms (sm_msgid sm)"
  using getSignedMsgState_spec [OF assms]
  by (auto simp: signers_def idSigners_def newSignedMsgState_def newMsgIDcount_def split: option.splits)

subsection \<open>One signature\<close>

lemma count_id_spec:
  "wf_id c \<Longrightarrow> wf_id (count_id si c)"
  "set (pubKeyMap (count_id si c)) = insert (si_pub si) (set (pubKeyMap c))"
  "si_members si = 1 \<Longrightarrow> thrshSigCounts (count_id si c) = thrshSigCounts c"
  by (auto simp: count_id_def wf_id_def add_key_def Let_def)

lemma count_item_spec:
  assumes "count_item si item = Inr item'" "map_of (SigMap item) (si_pub si) = None"
  shows "SigMap item' = SigMap item @ [(si_pub si, si)]"
    and "wf_item item \<Longrightarrow> wf_item item'"
    and "hdr_msgid item' = hdr_msgid item"
    and "plain_item item \<Longrightarrow> si_members si = 1 \<Longrightarrow> plain_item item'"
  using assms
  by (auto simp: count_item_def wf_item_def plain_item_def Let_def map_of_eq_None_iff split: if_splits option.splits)

lemma count_item_plain_ok: "si_members si = 1 \<Longrightarrow> \<exists>item'. count_item si item = Inr item'"
  by (simp add: count_item_def Let_def)

lemma track_key_frame [simp]:
  "msgMap (track_key sms h p) = msgMap sms" "msgIDMap (track_key sms h p) = msgIDMap sms"
  "unsignedMsgMap (track_key sms h p) = unsignedMsgMap sms"
  "totalSigCountMap (track_key sms h p) = totalSigCountMap sms" "tcmNext (track_key sms h p) = tcmNext sms"
  by (simp_all add: track_key_def split: option.splits)

subsection \<open>The loop of \<open>storeMsg\<close>\<close>

lemma storeMsg_loop_frame:
  "storeMsg_loop h sis sms c item new = Inr (sms', c', item', new') \<Longrightarrow>
   msgMap sms' = msgMap sms \<and> msgIDMap sms' = msgIDMap sms \<and> unsignedMsgMap sms' = unsignedMsgMap sms \<and>
   totalSigCountMap sms' = totalSigCountMap sms \<and> tcmNext sms' = tcmNext sms"
  by (induction h sis sms c item new rule: storeMsg_loop.induct)
    (auto simp: Let_def bind_res_Inr_iff split: if_splits)

lemma storeMsg_loop_keys:
  "storeMsg_loop h sis sms c item new = Inr (sms', c', item', new') \<Longrightarrow>
   set (map fst (SigMap item')) = set (map fst (SigMap item)) \<union> pubs_of sis \<and>
   set (pubKeyMap c') = set (pubKeyMap c) \<union> pubs_of sis"
proof (induction h sis sms c item new rule: storeMsg_loop.induct)
  case (1 h sms c item new)
  then show ?case by (simp add: pubs_of_def)
next
  case (2 h si sis sms c item new)
  show ?case
  proof (cases "map_of (SigMap item) (si_pub si)")
    case None
    with "2.prems" obtain item1 where item1: "count_item si item = Inr item1"
      "storeMsg_loop h sis (track_key sms h (si_pub si)) (count_id si c) item1 (new @ [si])
         = Inr (sms', c', item', new')"
      by (auto simp: Let_def bind_res_Inr_iff)
    then show ?thesis
      using "2.IH"(1) [OF refl refl None item1] count_item_spec(1) [OF item1(1) None]
      by (auto simp: pubs_of_def count_id_spec)
  next
    case (Some s)
    then have "si_pub si \<in> fst ` set (SigMap item)"
      by (metis domI dom_map_of_conv_image_fst)
    then show ?thesis
      using "2.IH"(2) [OF refl refl] Some "2.prems" by (auto simp: pubs_of_def count_id_spec Let_def)
  qed
qed

lemma storeMsg_loop_wf:
  "storeMsg_loop h sis sms c item new = Inr (sms', c', item', new') \<Longrightarrow>
   wf_item item \<Longrightarrow> wf_id c \<Longrightarrow> wf_item item' \<and> wf_id c'"
proof (induction h sis sms c item new rule: storeMsg_loop.induct)
  case (2 h si sis sms c item new)
  then show ?case
    by (auto simp: Let_def bind_res_Inr_iff count_id_spec dest: count_item_spec(2) split: if_splits)
qed simp

lemma storeMsg_loop_plain:
  "storeMsg_loop h sis sms c item new = Inr (sms', c', item', new') \<Longrightarrow>
   plain_sigs sis \<Longrightarrow> plain_item item \<Longrightarrow> plain_item item' \<and> thrshSigCounts c' = thrshSigCounts c"
proof (induction h sis sms c item new rule: storeMsg_loop.induct)
  case (2 h si sis sms c item new)
  then show ?case
    by (auto simp: Let_def bind_res_Inr_iff count_id_spec plain_sigs_def count_item_spec(4) split: if_splits)
qed simp

lemma storeMsg_loop_plain_ok:
  "plain_sigs sis \<Longrightarrow> is_ok (storeMsg_loop h sis sms c item new)"
proof (induction h sis sms c item new rule: storeMsg_loop.induct)
  case (2 h si sis sms c item new)
  then obtain item1 where "count_item si item = Inr item1"
    using count_item_plain_ok by (fastforce simp: plain_sigs_def)
  with 2 show ?case
    by (auto simp: Let_def plain_sigs_def)
qed simp

text \<open>The new signatures are those of keys without an entry, each key once.\<close>

lemma storeMsg_loop_new:
  "storeMsg_loop h sis sms c item new = Inr (sms', c', item', new') \<Longrightarrow>
   pubs_of new' = pubs_of new \<union> (pubs_of sis - set (map fst (SigMap item)))"
proof (induction h sis sms c item new rule: storeMsg_loop.induct)
  case (1 h sms c item new)
  then show ?case by (simp add: pubs_of_def)
next
  case (2 h si sis sms c item new)
  show ?case
  proof (cases "map_of (SigMap item) (si_pub si)")
    case None
    with "2.prems" obtain item1 where item1: "count_item si item = Inr item1"
      "storeMsg_loop h sis (track_key sms h (si_pub si)) (count_id si c) item1 (new @ [si])
         = Inr (sms', c', item', new')"
      by (auto simp: Let_def bind_res_Inr_iff)
    then show ?thesis
      using "2.IH"(1) [OF refl refl None item1] count_item_spec(1) [OF item1(1) None] None
      by (auto simp: pubs_of_def map_of_eq_None_iff)
  next
    case (Some s)
    then have "si_pub si \<in> fst ` set (SigMap item)"
      by (metis domI dom_map_of_conv_image_fst)
    then show ?thesis
      using "2.IH"(2) [OF refl refl] Some "2.prems" by (auto simp: pubs_of_def Let_def)
  qed
qed

subsection \<open>Counting\<close>

lemma wf_item_count:
  assumes "wf_item item" "plain_item item"
  shows "MaxInt (singleSigCount item) [thrshSigCount item] = int (card (set (map fst (SigMap item))))"
proof -
  have "filter (\<lambda>(k, s). si_members s \<le> 1) (SigMap item) = SigMap item"
    using assms(2) by (auto simp: plain_item_def filter_id_conv)
  then have "singleSigCount item = int (length (SigMap item))" "thrshSigCount item = 0"
    using assms by (auto simp: wf_item_def plain_item_def)
  moreover have "card (set (map fst (SigMap item))) = length (SigMap item)"
    using assms(1) by (metis wf_item_def distinct_card length_map)
  ultimately show ?thesis by simp
qed

lemma wf_id_count:
  "wf_id c \<Longrightarrow> thrshSigCounts c = [] \<Longrightarrow> idSingleSigCount c = int (card (set (pubKeyMap c)))"
  by (simp add: wf_id_def distinct_card)

lemma getSigCountMsg_card:
  "wf_sms sms \<Longrightarrow> plain_sms sms \<Longrightarrow> getSigCountMsg sms h = int (card (signers sms h))"
  by (auto simp: getSigCountMsg_def signers_def wf_sms_def plain_sms_def wf_item_count
      simp del: MaxInt_single split: option.splits)

lemma getSigCountMsgID_card:
  "wf_sms sms \<Longrightarrow> plain_sms sms \<Longrightarrow> getSigCountMsgID sms i = int (card (idSigners sms i))"
  by (auto simp: getSigCountMsgID_def idSigners_def wf_sms_def plain_sms_def wf_id_count split: option.splits)

subsection \<open>\<open>storeMsg\<close> and \<open>GotSignedMsg\<close>\<close>

lemma joinSigs_loop_length:
  "int (length (joinSigs_loop pid cnt m tot acc)) =
     int (length acc) + min (max 0 (cnt - tot)) (int (length (filter (\<lambda>x. fst x \<noteq> pid) m)))"
  by (induction pid cnt m tot acc rule: joinSigs_loop.induct) (auto simp: min_def max_def)

lemma joinSigs_length:
  assumes "0 < cnt" "distinct (map fst (SigMap item))"
  shows "int (length (joinSigs pid item cnt)) = min cnt (int (length (SigMap item)))"
proof (cases "map_of (SigMap item) pid")
  case None
  then have "filter (\<lambda>x. fst x \<noteq> pid) (SigMap item) = SigMap item"
    by (auto simp: map_of_eq_None_iff filter_id_conv)
  with None show ?thesis using assms(1) by (simp add: joinSigs_def joinSigs_loop_length)
next
  case (Some s)
  have "length (filter (\<lambda>x. fst x \<noteq> pid) m) = length m - 1"
    if "pid \<in> set (map fst m)" "distinct (map fst m)" for m :: "('a \<times> 'a sig_item) list"
    using that
  proof (induction m)
    case (Cons a m)
    show ?case
    proof (cases "fst a = pid")
      case True
      then have "filter (\<lambda>x. fst x \<noteq> pid) m = m"
        using Cons.prems unfolding filter_id_conv by (auto simp: image_iff)
      with True show ?thesis by simp
    next
      case False
      with Cons show ?thesis by (cases m) auto
    qed
  qed simp
  moreover have "pid \<in> set (map fst (SigMap item))"
    using Some by (metis domI dom_map_of_conv_image_fst set_map)
  ultimately have "length (filter (\<lambda>x. fst x \<noteq> pid) (SigMap item)) = length (SigMap item) - 1" "SigMap item \<noteq> []"
    using assms(2) by auto
  with Some show ?thesis using assms(1)
    by (cases "SigMap item") (simp_all add: joinSigs_def joinSigs_loop_length)
qed

lemma joinSigs_loop_eq:
  "joinSigs_loop pid cnt m tot acc = acc @ map snd (take (nat (cnt - tot)) (filter (\<lambda>x. fst x \<noteq> pid) m))"
proof (induction pid cnt m tot acc rule: joinSigs_loop.induct)
  case (2 pid cnt p s m tot acc)
  show ?case
  proof (cases "cnt \<le> tot")
    case False
    then have "nat (cnt - tot) = Suc (nat (cnt - (tot + 1)))" by (simp add: Suc_nat_eq_nat_zadd1)
    with 2 False show ?thesis by simp
  qed (use 2 in simp)
qed simp

text \<open>The signatures that \<^verbatim>\<open>joinSigs\<close> collects are signatures of the item, of different keys.\<close>

lemma joinSigs_pubs:
  assumes "wf_item item"
  shows "distinct (map si_pub (joinSigs pid item cnt))" "pubs_of (joinSigs pid item cnt) \<subseteq> set (map fst (SigMap item))"
proof -
  let ?f = "\<lambda>k. take k (filter (\<lambda>x. fst x \<noteq> pid) (SigMap item))"
  have d: "distinct (map fst (SigMap item))" "\<forall>(k, s) \<in> set (SigMap item). si_pub s = k" using assms by (simp_all add: wf_item_def)
  have eq: "map si_pub (map snd (?f k)) = map fst (?f k)" for k
    using d(2) by (auto dest!: in_set_takeD)
  have f: "distinct (map fst (?f k))" "pid \<notin> set (map fst (?f k))" "set (map fst (?f k)) \<subseteq> set (map fst (SigMap item))" for k
    using d(1) by (auto simp: take_map [symmetric] distinct_map_filter dest!: in_set_takeD)
  have "distinct (map si_pub (joinSigs pid item cnt)) \<and> set (map si_pub (joinSigs pid item cnt)) \<subseteq> set (map fst (SigMap item))"
  proof (cases "map_of (SigMap item) pid")
    case None
    then show ?thesis using f eq by (simp only: joinSigs_def joinSigs_loop_eq) (simp del: map_map set_map filter_map)
  next
    case (Some s)
    then have "(pid, s) \<in> set (SigMap item)" by (rule map_of_SomeD)
    then have "si_pub s = pid" "pid \<in> set (map fst (SigMap item))" using d(2) by force+
    with Some show ?thesis using f eq
      by (simp only: joinSigs_def joinSigs_loop_eq) (simp del: map_map set_map filter_map)
  qed
  then show "distinct (map si_pub (joinSigs pid item cnt))" "pubs_of (joinSigs pid item cnt) \<subseteq> set (map fst (SigMap item))"
    by (simp_all add: pubs_of_def)
qed

lemma getSignedMsgState_ok:
  "unsignedMsgMap sms (sm_hash sm) = None \<Longrightarrow> \<exists>x. getSignedMsgState sms sm = Inr x"
  by (auto simp: getSignedMsgState_def getMsgIDcount_def Let_def split: option.splits)

lemma pubs_of_empty_iff [simp]: "pubs_of sis = {} \<longleftrightarrow> sis = []" "pubs_of [] = {}"
  by (simp_all add: pubs_of_def)

text \<open>Both the empty and the non-empty message end in the state the loop computes.\<close>

lemma storeMsg_unfold:
  assumes "storeMsg sms sm = (sms', sm', r)" and g: "getSignedMsgState sms sm = Inr (sms0, item, c)"
    and l: "storeMsg_loop (sm_hash sm) (sm_sigs sm) sms0 c item [] = Inr (sms1, c1, item1, new)"
  shows "msgMap sms' = (msgMap sms)(sm_hash sm \<mapsto> item1)" "msgIDMap sms' = (msgIDMap sms)(sm_msgid sm \<mapsto> c1)"
    "unsignedMsgMap sms' = unsignedMsgMap sms" "tcmStore sms' = tcmStore sms1"
    "totalSigCountMap sms' = totalSigCountMap sms" "tcmNext sms' = tcmNext sms"
    and "r = (if new = [] then Inl ErrNoValidSigs
         else Inr (MaxInt (singleSigCount item1) [thrshSigCount item1], MaxInt (idSingleSigCount c1) (thrshSigCounts c1)))"
  using assms getSignedMsgState_spec [OF g] storeMsg_loop_frame [OF l]
  by (auto simp: storeMsg_def Let_def split: if_splits)

lemma storeMsg_spec:
  assumes st: "storeMsg sms sm = (sms', sm', r)" and wf: "wf_sms sms" and pl: "plain_sms sms"
    and ps: "plain_sigs (sm_sigs sm)" and un: "unsignedMsgMap sms (sm_hash sm) = None"
  shows "wf_sms sms'" "plain_sms sms'" "unsignedMsgMap sms' = unsignedMsgMap sms"
    "signers sms' = (signers sms)(sm_hash sm := signers sms (sm_hash sm) \<union> pubs_of (sm_sigs sm))" (is ?sig)
    "idSigners sms' = (idSigners sms)(sm_msgid sm := idSigners sms (sm_msgid sm) \<union> pubs_of (sm_sigs sm))" (is ?id)
    "r = (if pubs_of (sm_sigs sm) \<subseteq> signers sms (sm_hash sm) then Inl ErrNoValidSigs
          else Inr (int (card (signers sms' (sm_hash sm))), int (card (idSigners sms' (sm_msgid sm)))))" (is ?res)
proof -
  obtain sms0 item c where g: "getSignedMsgState sms sm = Inr (sms0, item, c)"
    using getSignedMsgState_ok [OF un] by auto
  note gw = getSignedMsgState_wf [OF g wf] and gp = getSignedMsgState_plain [OF g pl]
    and gsig = getSignedMsgState_signers [OF g]
  obtain sms1 c1 item1 new where
    l: "storeMsg_loop (sm_hash sm) (sm_sigs sm) sms0 c item [] = Inr (sms1, c1, item1, new)"
    using storeMsg_loop_plain_ok [OF ps, of "sm_hash sm" sms0 c item "[]"] by (auto simp: is_ok_iff)
  note lk = storeMsg_loop_keys [OF l] and lw = storeMsg_loop_wf [OF l gw(1,2)]
    and lp = storeMsg_loop_plain [OF l ps gp(1)] and u = storeMsg_unfold [OF st g l]
  show wf': "wf_sms sms'" and pl': "plain_sms sms'" and "unsignedMsgMap sms' = unsignedMsgMap sms"
    using u lw lp gp(2) wf pl by (auto simp: wf_sms_def plain_sms_def)
  show ?sig ?id
    using u lk gsig by (auto simp: signers_def idSigners_def fun_eq_iff)
  have "new = [] \<longleftrightarrow> pubs_of (sm_sigs sm) \<subseteq> signers sms (sm_hash sm)"
    using storeMsg_loop_new [OF l] gsig(3) by (metis Diff_eq_empty_iff Un_empty_left pubs_of_empty_iff(1,2))
  moreover have "MaxInt (singleSigCount item1) [thrshSigCount item1] = int (card (signers sms' (sm_hash sm)))"
    "MaxInt (idSingleSigCount c1) (thrshSigCounts c1) = int (card (idSigners sms' (sm_msgid sm)))"
    using getSigCountMsg_card [OF wf' pl', of "sm_hash sm"] getSigCountMsgID_card [OF wf' pl', of "sm_msgid sm"] u
    by (auto simp: getSigCountMsg_def getSigCountMsgID_def)
  ultimately show ?res using u(7) by simp
qed

lemma gotMsg_spec:
  assumes "gotMsg sms sm = (sms', sm', r)" "wf_sms sms" "plain_sms sms" "unsignedMsgMap sms (sm_hash sm) = None"
  shows "wf_sms sms'" "plain_sms sms'" "unsignedMsgMap sms' = unsignedMsgMap sms"
    and "signers sms' = signers sms" "idSigners sms' = idSigners sms"
    and "sm_hash sm' = sm_hash sm" "sm_msgid sm' = sm_msgid sm"
    and "sm_sigs sm' = filter (\<lambda>si. si_pub si \<notin> signers sms (sm_hash sm)) (sm_sigs sm)"
    and "r = (if sm_sigs sm' = [] then Inl ErrNoNewSigs else Inr ())"
proof -
  obtain sms0 item c where g: "getSignedMsgState sms sm = Inr (sms0, item, c)"
    using getSignedMsgState_ok [OF assms(4)] by auto
  note gs = getSignedMsgState_spec [OF g] and gw = getSignedMsgState_wf [OF g assms(2)]
    and gp = getSignedMsgState_plain [OF g assms(3)] and gsig = getSignedMsgState_signers [OF g]
  have f: "map_of (SigMap item) k = None \<longleftrightarrow> k \<notin> signers sms (sm_hash sm)" for k
    using gsig(3) by (simp add: map_of_eq_None_iff)
  have "sms' = sms0" "sm' = sm\<lparr>sm_sigs := filter (\<lambda>si. si_pub si \<notin> signers sms (sm_hash sm)) (sm_sigs sm)\<rparr>"
    and r: "r = (if sm_sigs sm' = [] then Inl ErrNoNewSigs else Inr ())"
    using assms(1) g f by (auto simp: gotMsg_def Let_def split: if_splits)
  then show "wf_sms sms'" "plain_sms sms'" "unsignedMsgMap sms' = unsignedMsgMap sms"
    "signers sms' = signers sms" "idSigners sms' = idSigners sms"
    "sm_hash sm' = sm_hash sm" "sm_msgid sm' = sm_msgid sm"
    "sm_sigs sm' = filter (\<lambda>si. si_pub si \<notin> signers sms (sm_hash sm)) (sm_sigs sm)"
    "r = (if sm_sigs sm' = [] then Inl ErrNoNewSigs else Inr ())"
    using gw gp gs gsig by (auto simp: fun_eq_iff)
qed

lemma plain_sigs_filter [simp]: "plain_sigs sis \<Longrightarrow> plain_sigs (filter P sis)"
  by (simp add: plain_sigs_def)

lemma GotSignedMsg_spec:
  assumes got: "GotSignedMsg chk sms sm = (sms', sm', r)" and wf: "wf_sms sms" and pl: "plain_sms sms"
    and ps: "plain_sigs (sm_sigs sm)" and un: "unsignedMsgMap sms (sm_hash sm) = None"
  defines "new \<equiv> {si_pub si | si. si \<in> set (sm_sigs sm) \<and> chk si \<and> si_pub si \<notin> signers sms (sm_hash sm)}"
  shows "wf_sms sms'" "plain_sms sms'" "unsignedMsgMap sms' = unsignedMsgMap sms"
    "signers sms' = (signers sms)(sm_hash sm := signers sms (sm_hash sm) \<union> new)"
    "idSigners sms' = (idSigners sms)(sm_msgid sm := idSigners sms (sm_msgid sm) \<union> new)"
    "is_ok r \<longleftrightarrow> new \<noteq> {}"
    "is_ok r \<Longrightarrow> r = Inr (int (card (signers sms' (sm_hash sm))), int (card (idSigners sms' (sm_msgid sm))))"
    "\<not> panics r"
proof -
  obtain sms1 sm1 r1 where g: "gotMsg sms sm = (sms1, sm1, r1)" by (metis prod_cases3)
  note g1 = gotMsg_spec [OF g wf pl un]
  let ?sm2 = "sm1\<lparr>sm_sigs := filter chk (sm_sigs sm1)\<rparr>"
  have new: "pubs_of (sm_sigs ?sm2) = new"
    using g1(8) by (auto simp: pubs_of_def new_def)
  consider (none) "sm_sigs sm1 = []" "sms' = sms1" "r = Inl ErrNoNewSigs"
    | (some) "storeMsg sms1 ?sm2 = (sms', sm', r)"
    using got g g1(9) by (auto simp: GotSignedMsg_def split: if_splits)
  then have "wf_sms sms' \<and> plain_sms sms' \<and> unsignedMsgMap sms' = unsignedMsgMap sms \<and>
    signers sms' = (signers sms)(sm_hash sm := signers sms (sm_hash sm) \<union> new) \<and>
    idSigners sms' = (idSigners sms)(sm_msgid sm := idSigners sms (sm_msgid sm) \<union> new) \<and>
    (is_ok r \<longleftrightarrow> new \<noteq> {}) \<and>
    (is_ok r \<longrightarrow> r = Inr (int (card (signers sms' (sm_hash sm))), int (card (idSigners sms' (sm_msgid sm))))) \<and> \<not> panics r"
  proof cases
    case none
    then show ?thesis using g1 new by (auto simp: fun_eq_iff panics_def)
  next
    case some
    have ps2: "plain_sigs (sm_sigs ?sm2)" and un2: "unsignedMsgMap sms1 (sm_hash ?sm2) = None"
      using g1 ps un by simp_all
    note s = storeMsg_spec [OF some g1(1,2) ps2 un2]
    have "new \<inter> signers sms (sm_hash sm) = {}" by (auto simp: new_def)
    then have "pubs_of (sm_sigs ?sm2) \<subseteq> signers sms1 (sm_hash ?sm2) \<longleftrightarrow> new = {}"
      using g1 new by auto
    then show ?thesis using s g1 new by (auto simp: fun_eq_iff panics_def split: if_splits)
  qed
  then show "wf_sms sms'" "plain_sms sms'" "unsignedMsgMap sms' = unsignedMsgMap sms"
    "signers sms' = (signers sms)(sm_hash sm := signers sms (sm_hash sm) \<union> new)"
    "idSigners sms' = (idSigners sms)(sm_msgid sm := idSigners sms (sm_msgid sm) \<union> new)"
    "is_ok r \<longleftrightarrow> new \<noteq> {}"
    "is_ok r \<Longrightarrow> r = Inr (int (card (signers sms' (sm_hash sm))), int (card (idSigners sms' (sm_msgid sm))))" "\<not> panics r"
    by auto
qed

section \<open>Tracked groups of messages\<close>

text \<open>
  The key set of a tracked group holds every key that signed a message of the group, once.
\<close>

definition groupSigners :: "('p, 'h, 'i) signedMsgMap \<Rightarrow> nat \<Rightarrow> 'p set" where
  "groupSigners sms r = \<Union> {signers sms h | h. totalSigCountMap sms h = Some r}"

lemma in_groupSigners: "p \<in> groupSigners sms r \<longleftrightarrow> (\<exists>h. totalSigCountMap sms h = Some r \<and> p \<in> signers sms h)"
  by (auto simp: groupSigners_def)

definition trackedOk :: "('p, 'h, 'i) signedMsgMap \<Rightarrow> bool" where
  "trackedOk sms \<longleftrightarrow> (\<forall>h r. totalSigCountMap sms h = Some r \<longrightarrow> r < tcmNext sms) \<and>
     (\<forall>r < tcmNext sms. distinct (tcmStore sms r) \<and> set (tcmStore sms r) = groupSigners sms r)"

lemma trackedOk_new [simp]: "trackedOk newSignedMsgMap"
  by (simp add: trackedOk_def newSignedMsgMap_def)

lemma storeMsg_loop_tcm:
  "storeMsg_loop h sis sms c item new = Inr (sms', c', item', new') \<Longrightarrow>
   tcmStore sms' = (case totalSigCountMap sms h of None \<Rightarrow> tcmStore sms
     | Some r \<Rightarrow> (tcmStore sms)(r := fold add_key (map si_pub sis) (tcmStore sms r)))"
proof (induction h sis sms c item new rule: storeMsg_loop.induct)
  case (1 h sms c item new)
  then show ?case by (simp split: option.splits)
next
  case (2 h si sis sms c item new)
  then show ?case
    by (auto simp: Let_def bind_res_Inr_iff track_key_def split: if_splits option.splits)
qed

lemma storeMsg_tracked:
  assumes st: "storeMsg sms sm = (sms', sm', r)" and wf: "wf_sms sms" and pl: "plain_sms sms"
    and ps: "plain_sigs (sm_sigs sm)" and un: "unsignedMsgMap sms (sm_hash sm) = None" and tr: "trackedOk sms"
  shows "trackedOk sms'"
proof -
  obtain sms0 item c where g: "getSignedMsgState sms sm = Inr (sms0, item, c)"
    using getSignedMsgState_ok [OF un] by auto
  obtain sms1 c1 item1 new where
    l: "storeMsg_loop (sm_hash sm) (sm_sigs sm) sms0 c item [] = Inr (sms1, c1, item1, new)"
    using storeMsg_loop_plain_ok [OF ps, of "sm_hash sm" sms0 c item "[]"] by (auto simp: is_ok_iff)
  note u = storeMsg_unfold [OF st g l] and s = storeMsg_spec(4) [OF st wf pl ps un]
    and t0 = getSignedMsgState_spec [OF g] and t = storeMsg_loop_tcm [OF l]
  have tcm: "tcmStore sms' = (case totalSigCountMap sms (sm_hash sm) of None \<Rightarrow> tcmStore sms
     | Some r \<Rightarrow> (tcmStore sms)(r := fold add_key (map si_pub (sm_sigs sm)) (tcmStore sms r)))"
    using t u(4) t0(3,4) by (simp split: option.splits)
  have sx: "p \<in> signers sms' h \<longleftrightarrow> p \<in> signers sms h \<or> (h = sm_hash sm \<and> p \<in> pubs_of (sm_sigs sm))" for p h
    by (simp add: s)
  have grp: "groupSigners sms' r = groupSigners sms r \<union>
      (if totalSigCountMap sms (sm_hash sm) = Some r then pubs_of (sm_sigs sm) else {})" for r
    unfolding set_eq_iff in_groupSigners Un_iff u(5) sx
    by (cases "totalSigCountMap sms (sm_hash sm) = Some r") (simp_all, blast+)
  show ?thesis
    using tr unfolding trackedOk_def u(5,6) grp tcm
    by (auto simp: pubs_of_def split: option.splits)
qed

lemma gotMsg_frame:
  assumes "gotMsg sms sm = (sms', sm', r)" "unsignedMsgMap sms (sm_hash sm) = None"
  shows "totalSigCountMap sms' = totalSigCountMap sms" "tcmStore sms' = tcmStore sms" "tcmNext sms' = tcmNext sms"
proof -
  obtain sms0 item c where g: "getSignedMsgState sms sm = Inr (sms0, item, c)"
    using getSignedMsgState_ok [OF assms(2)] by auto
  have "sms' = sms0" using assms(1) g by (auto simp: gotMsg_def Let_def split: if_splits)
  then show "totalSigCountMap sms' = totalSigCountMap sms" "tcmStore sms' = tcmStore sms" "tcmNext sms' = tcmNext sms"
    using getSignedMsgState_spec [OF g] by simp_all
qed

lemma storeMsg_groups:
  assumes st: "storeMsg sms sm = (sms', sm', r)" and ps: "plain_sigs (sm_sigs sm)"
    and un: "unsignedMsgMap sms (sm_hash sm) = None"
  shows "totalSigCountMap sms' = totalSigCountMap sms"
proof -
  obtain sms0 item c where g: "getSignedMsgState sms sm = Inr (sms0, item, c)"
    using getSignedMsgState_ok [OF un] by auto
  obtain sms1 c1 item1 new where
    l: "storeMsg_loop (sm_hash sm) (sm_sigs sm) sms0 c item [] = Inr (sms1, c1, item1, new)"
    using storeMsg_loop_plain_ok [OF ps, of "sm_hash sm" sms0 c item "[]"] by (auto simp: is_ok_iff)
  from storeMsg_unfold(5) [OF st g l] show ?thesis .
qed

lemma GotSignedMsg_groups:
  assumes "wf_sms sms" "plain_sms sms" "plain_sigs (sm_sigs sm)" "unsignedMsgMap sms (sm_hash sm) = None"
  shows "totalSigCountMap (fst (GotSignedMsg chk sms sm)) = totalSigCountMap sms"
proof -
  obtain sms1 sm1 r1 where g: "gotMsg sms sm = (sms1, sm1, r1)" by (metis prod_cases3)
  note g1 = gotMsg_spec [OF g assms(1,2,4)]
  let ?sm2 = "sm1\<lparr>sm_sigs := filter chk (sm_sigs sm1)\<rparr>"
  obtain sms2 sm2 r2 where s: "storeMsg sms1 ?sm2 = (sms2, sm2, r2)" by (metis prod_cases3)
  have "totalSigCountMap sms2 = totalSigCountMap sms1"
    using storeMsg_groups [OF s] g1 assms(3,4) by simp
  then show ?thesis
    using g s gotMsg_frame(1) [OF g assms(4)] by (auto simp: GotSignedMsg_def split: sum.splits)
qed

lemma GotSignedMsg_tracked:
  assumes got: "GotSignedMsg chk sms sm = (sms', sm', r)" and wf: "wf_sms sms" and pl: "plain_sms sms"
    and ps: "plain_sigs (sm_sigs sm)" and un: "unsignedMsgMap sms (sm_hash sm) = None" and tr: "trackedOk sms"
  shows "trackedOk sms'"
proof -
  obtain sms1 sm1 r1 where g: "gotMsg sms sm = (sms1, sm1, r1)" by (metis prod_cases3)
  note g1 = gotMsg_spec [OF g wf pl un] and f = gotMsg_frame [OF g un]
  have tr1: "trackedOk sms1" using tr f g1(4) by (simp add: trackedOk_def groupSigners_def)
  let ?sm2 = "sm1\<lparr>sm_sigs := filter chk (sm_sigs sm1)\<rparr>"
  have "sms' = sms1 \<or> storeMsg sms1 ?sm2 = (sms', sm', r)"
    using got g by (auto simp: GotSignedMsg_def split: sum.splits)
  moreover have "plain_sigs (sm_sigs ?sm2)" "unsignedMsgMap sms1 (sm_hash ?sm2) = None"
    using g1 ps un by simp_all
  ultimately show ?thesis using storeMsg_tracked [OF _ g1(1,2) _ _ tr1] tr1 by blast
qed

lemma plain_item_keys:
  "plain_item itm \<Longrightarrow> map fst (filter (\<lambda>(k, s). si_members s = 1) (SigMap itm)) = map fst (SigMap itm)"
proof -
  assume "plain_item itm"
  then have "filter (\<lambda>(k, s). si_members s = 1) (SigMap itm) = SigMap itm"
    by (auto simp: plain_item_def filter_id_conv)
  then show ?thesis by simp
qed

lemma trackTotalSigCount_loop_spec:
  assumes "trackTotalSigCount_loop r hs sms = Inr sms'" "plain_sms sms" "unsignedMsgMap sms = (\<lambda>_. None)"
  shows "totalSigCountMap sms' = (\<lambda>h. if h \<in> set hs then Some r else totalSigCountMap sms h)"
    and "set (tcmStore sms' r) = set (tcmStore sms r) \<union> (\<Union>h \<in> set hs. signers sms h)"
    and "distinct (tcmStore sms r) \<Longrightarrow> distinct (tcmStore sms' r)"
    and "\<And>r'. r' \<noteq> r \<Longrightarrow> tcmStore sms' r' = tcmStore sms r'"
    and "tcmNext sms' = tcmNext sms" "msgMap sms' = msgMap sms" "msgIDMap sms' = msgIDMap sms"
    and "unsignedMsgMap sms' = unsignedMsgMap sms"
    and "\<And>h. h \<in> set hs \<Longrightarrow> totalSigCountMap sms h = None"
proof -
  have "totalSigCountMap sms' = (\<lambda>h. if h \<in> set hs then Some r else totalSigCountMap sms h) \<and>
    set (tcmStore sms' r) = set (tcmStore sms r) \<union> (\<Union>h \<in> set hs. signers sms h) \<and>
    (distinct (tcmStore sms r) \<longrightarrow> distinct (tcmStore sms' r)) \<and>
    (\<forall>r'. r' \<noteq> r \<longrightarrow> tcmStore sms' r' = tcmStore sms r') \<and>
    tcmNext sms' = tcmNext sms \<and> msgMap sms' = msgMap sms \<and> msgIDMap sms' = msgIDMap sms \<and>
    unsignedMsgMap sms' = unsignedMsgMap sms \<and> (\<forall>h \<in> set hs. totalSigCountMap sms h = None)"
    using assms
  proof (induction r hs sms rule: trackTotalSigCount_loop.induct)
    case (2 r h hs sms)
    define fs where "fs = (case msgMap sms h of None \<Rightarrow> []
       | Some itm \<Rightarrow> map fst (filter (\<lambda>(k, s). si_members s = 1) (SigMap itm)))"
    define sms2 where "sms2 = sms\<lparr>totalSigCountMap := (totalSigCountMap sms)(h \<mapsto> r),
        tcmStore := (tcmStore sms)(r := fold add_key fs (tcmStore sms r))\<rparr>"
    have "fs = (case msgMap sms h of None \<Rightarrow> [] | Some itm \<Rightarrow> map fst (SigMap itm))"
      using "2.prems"(2) plain_item_keys unfolding fs_def plain_sms_def by (auto split: option.splits)
    then have fs: "set fs = signers sms h" by (simp add: signers_def split: option.splits)
    have sms2: "plain_sms sms2" "unsignedMsgMap sms2 = (\<lambda>_. None)" "signers sms2 = signers sms"
      using "2.prems" by (auto simp: sms2_def plain_sms_def signers_def)
    have none: "totalSigCountMap sms h = None" "trackTotalSigCount_loop r hs sms2 = Inr sms'"
      using "2.prems" by (auto simp: Let_def fs_def [symmetric] sms2_def split: if_splits)
    have IH': "totalSigCountMap sms' = (\<lambda>h. if h \<in> set hs then Some r else totalSigCountMap sms2 h) \<and>
      set (tcmStore sms' r) = set (tcmStore sms2 r) \<union> (\<Union>h \<in> set hs. signers sms2 h) \<and>
      (distinct (tcmStore sms2 r) \<longrightarrow> distinct (tcmStore sms' r)) \<and>
      (\<forall>r'. r' \<noteq> r \<longrightarrow> tcmStore sms' r' = tcmStore sms2 r') \<and>
      tcmNext sms' = tcmNext sms2 \<and> msgMap sms' = msgMap sms2 \<and> msgIDMap sms' = msgIDMap sms2 \<and>
      unsignedMsgMap sms' = unsignedMsgMap sms2 \<and> (\<forall>h \<in> set hs. totalSigCountMap sms2 h = None)"
      using "2.IH"(1) none "2.prems" sms2 by (simp add: fs_def [symmetric] sms2_def [symmetric])
    then have "h \<notin> set hs" by (auto simp: sms2_def)
    moreover have "\<forall>h' \<in> set hs. totalSigCountMap sms h' = None"
      using IH' by (metis (no_types, lifting) \<open>h \<notin> set hs\<close> fun_upd_other select_convs(4) sms2_def
          signedMsgMap.surjective update_convs(4) update_convs(5))
    ultimately show ?case using IH' none(1) unfolding sms2(3) by (auto simp: sms2_def fs fun_eq_iff)
  qed simp
  then show "totalSigCountMap sms' = (\<lambda>h. if h \<in> set hs then Some r else totalSigCountMap sms h)"
    "set (tcmStore sms' r) = set (tcmStore sms r) \<union> (\<Union>h \<in> set hs. signers sms h)"
    "distinct (tcmStore sms r) \<Longrightarrow> distinct (tcmStore sms' r)"
    "\<And>r'. r' \<noteq> r \<Longrightarrow> tcmStore sms' r' = tcmStore sms r'"
    "tcmNext sms' = tcmNext sms" "msgMap sms' = msgMap sms" "msgIDMap sms' = msgIDMap sms"
    "unsignedMsgMap sms' = unsignedMsgMap sms" "\<And>h. h \<in> set hs \<Longrightarrow> totalSigCountMap sms h = None"
    by simp_all
qed

lemma trackTotalSigCount_tracked:
  assumes t: "trackTotalSigCount sms hs = Inr sms'" and pl: "plain_sms sms" and un: "unsignedMsgMap sms = (\<lambda>_. None)"
    and tr: "trackedOk sms"
  shows "trackedOk sms'" "\<forall>h \<in> set hs. totalSigCountMap sms' h = Some (tcmNext sms)"
    "\<forall>h. totalSigCountMap sms' h = Some (tcmNext sms) \<longrightarrow> h \<in> set hs" "signers sms' = signers sms"
proof -
  let ?r = "tcmNext sms"
  let ?s = "sms\<lparr>tcmStore := (tcmStore sms)(?r := []), tcmNext := Suc ?r\<rparr>"
  have l: "trackTotalSigCount_loop ?r hs ?s = Inr sms'"
    using t by (simp add: trackTotalSigCount_def split: if_splits)
  have pre: "plain_sms ?s" "unsignedMsgMap ?s = (\<lambda>_. None)" "signers ?s = signers sms"
    using pl un by (auto simp: plain_sms_def signers_def)
  note s = trackTotalSigCount_loop_spec [OF l pre(1,2), unfolded pre(3)]
  show sg: "signers sms' = signers sms" using s(6) by (simp add: signers_def fun_eq_iff)
  have fresh: "totalSigCountMap sms h \<noteq> Some ?r" for h
    using tr unfolding trackedOk_def by (metis less_irrefl)
  show "\<forall>h \<in> set hs. totalSigCountMap sms' h = Some ?r"
    "\<forall>h. totalSigCountMap sms' h = Some ?r \<longrightarrow> h \<in> set hs"
    using s(1) fresh by (auto split: if_splits)
  have grp: "groupSigners sms' r' = (if r' = ?r then \<Union>h \<in> set hs. signers sms h else groupSigners sms r')" for r'
  proof -
    have "totalSigCountMap sms' h = Some r' \<longleftrightarrow> (h \<in> set hs \<and> r' = ?r) \<or> totalSigCountMap sms h = Some r'" for h
      using s(1) s(9) [of h] by auto
    then show ?thesis unfolding set_eq_iff in_groupSigners sg using fresh
      by (cases "r' = ?r") (simp_all add: in_groupSigners Bex_def)
  qed
  show "trackedOk sms'"
    unfolding trackedOk_def
  proof (intro conjI allI impI)
    fix h r'
    assume "totalSigCountMap sms' h = Some r'"
    then show "r' < tcmNext sms'" using s(1,5) tr by (auto simp: trackedOk_def less_Suc_eq split: if_splits)
  next
    fix r'
    assume "r' < tcmNext sms'"
    then consider "r' = ?r" | "r' < ?r" using s(5) by (auto simp: less_Suc_eq)
    then have "distinct (tcmStore sms' r') \<and> set (tcmStore sms' r') = groupSigners sms' r'"
    proof cases
      case 1
      then show ?thesis using s(2,3) grp by simp
    next
      case 2
      then have "tcmStore sms' r' = tcmStore sms r'" "r' \<noteq> ?r" using s(4) [of r'] by simp_all
      then show ?thesis using tr 2 grp [of r'] by (simp add: trackedOk_def)
    qed
    then show "distinct (tcmStore sms' r')" "set (tcmStore sms' r') = groupSigners sms' r'" by simp_all
  qed
qed

lemma getTotalSigCount_loop_spec:
  assumes "wf_sms sms" "plain_sms sms" "\<forall>h \<in> set hs. totalSigCountMap sms h = Some r" "0 \<le> tot"
    "tot \<le> int (length (tcmStore sms r))" "hs \<noteq> []"
  shows "getTotalSigCount_loop sms hs tot each =
     (int (length (tcmStore sms r)), each @ map (\<lambda>h. int (card (signers sms h))) hs)"
  using assms(3-6)
proof (induction hs arbitrary: tot each)
  case (Cons h hs)
  define e where "e = (case msgMap sms h of None \<Rightarrow> 0 | Some m \<Rightarrow> Max_int (thrshSigCount m) (singleSigCount m))"
  have e: "e = int (card (signers sms h))"
    using getSigCountMsg_card [OF assms(1,2), of h]
    by (auto simp: e_def getSigCountMsg_def Max_int_def split: option.splits)
  have th: "thrshSigCount m = 0" if "msgMap sms h = Some m" for m
  proof -
    have "wf_item m" "plain_item m" using assms(1,2) that by (auto simp: wf_sms_def plain_sms_def)
    then show ?thesis by (simp add: wf_item_def plain_item_def)
  qed
  have step: "getTotalSigCount_loop sms (h # hs) tot each =
      getTotalSigCount_loop sms hs (int (length (tcmStore sms r))) (each @ [e])"
    using Cons.prems th by (auto simp: Let_def e_def split: option.splits)
  show ?case
    using Cons.IH [of "int (length (tcmStore sms r))" "each @ [e]"] Cons.prems(1) unfolding step
    by (cases "hs = []") (simp_all add: e)
qed simp

text \<open>
  C18 (message store). Processing a signed message adds to the signers of its hash, and of its
  identifier, exactly the accepted keys that are new for the hash; it succeeds iff there is one, and then returns the
  numbers of distinct signers of the hash and of the identifier. The signers of other messages do not change.
\<close>

theorem GotSignedMsg_counts:
  assumes "GotSignedMsg chk sms sm = (sms', sm', r)" "wf_sms sms" "plain_sms sms"
    and "plain_sigs (sm_sigs sm)" "unsignedMsgMap sms (sm_hash sm) = None"
    and "new = {si_pub si | si. si \<in> set (sm_sigs sm) \<and> chk si \<and> si_pub si \<notin> signers sms (sm_hash sm)}"
  shows "signers sms' = (signers sms)(sm_hash sm := signers sms (sm_hash sm) \<union> new) \<and>
    idSigners sms' = (idSigners sms)(sm_msgid sm := idSigners sms (sm_msgid sm) \<union> new) \<and>
    (new = {} \<longrightarrow> \<not> is_ok r) \<and>
    (new \<noteq> {} \<longrightarrow> r = Inr (int (card (signers sms' (sm_hash sm))), int (card (idSigners sms' (sm_msgid sm)))))"
  using GotSignedMsg_spec(4-7) [OF assms(1-5)] assms(6) by blast

text \<open>Two votes of round 0, for the hashes 0 and 1, registered as one group.\<close>

definition demoStore :: "(nat, nat, nat) signedMsgMap" where
  "demoStore = (case trackTotalSigCount newSignedMsgMap [0, 1] of Inl _ \<Rightarrow> newSignedMsgMap | Inr sms \<Rightarrow> sms)"

definition demoVote :: "nat \<Rightarrow> nat list \<Rightarrow> (nat, nat, nat) signed_msg" where
  "demoVote h ps = \<lparr>sm_hash = h, sm_msgid = 0, sm_sigs = map (\<lambda>p. \<lparr>si_pub = p, si_members = 1, si_sig = p\<rparr>) ps\<rparr>"

definition demoStore2 :: "(nat, nat, nat) signedMsgMap" where
  "demoStore2 = fst (GotSignedMsg (\<lambda>_. True) (fst (GotSignedMsg (\<lambda>_. True) demoStore (demoVote 0 [5, 6]))) (demoVote 1 [6, 7]))"

lemma newSignedMsgMap_unsigned [simp]: "unsignedMsgMap newSignedMsgMap = (\<lambda>_. None)"
  by (simp add: newSignedMsgMap_def)

lemma demoStore_track: "trackTotalSigCount newSignedMsgMap [0, 1] = Inr demoStore"
  by (simp add: demoStore_def trackTotalSigCount_def newSignedMsgMap_def Let_def)

lemma demoStore_ok:
  "wf_sms demoStore" "plain_sms demoStore" "trackedOk demoStore" "unsignedMsgMap demoStore = (\<lambda>_. None)"
  "\<forall>h. totalSigCountMap demoStore h = Some 0 \<longleftrightarrow> h \<in> {0, 1}" "signers demoStore h = {}" "idSigners demoStore i = {}"
proof -
  have d: "demoStore = newSignedMsgMap\<lparr>totalSigCountMap := [0 \<mapsto> 0, 1 \<mapsto> 0], tcmNext := 1\<rparr>"
    by (simp add: demoStore_def trackTotalSigCount_def newSignedMsgMap_def Let_def fun_eq_iff)
  show "wf_sms demoStore" "plain_sms demoStore" "unsignedMsgMap demoStore = (\<lambda>_. None)"
    "\<forall>h. totalSigCountMap demoStore h = Some 0 \<longleftrightarrow> h \<in> {0, 1}" "signers demoStore h = {}" "idSigners demoStore i = {}"
    by (auto simp: d wf_sms_def plain_sms_def signers_def idSigners_def newSignedMsgMap_def)
  show "trackedOk demoStore"
    using trackTotalSigCount_tracked(1) [OF demoStore_track] by simp
qed

lemma demoVote_plain [simp]: "plain_sigs (sm_sigs (demoVote h ps))" "sm_hash (demoVote h ps) = h" "sm_msgid (demoVote h ps) = 0"
  by (auto simp: demoVote_def plain_sigs_def)

theorem GotSignedMsg_counts_witness:
  "snd (snd (GotSignedMsg (\<lambda>si. si_pub si \<noteq> 6) demoStore (demoVote 0 [5, 6]))) = Inr (1, 1)"
proof -
  obtain sms' sm' r where g: "GotSignedMsg (\<lambda>si. si_pub si \<noteq> 6) demoStore (demoVote 0 [5, 6]) = (sms', sm', r)"
    by (metis prod_cases3)
  have new: "{5} = {si_pub si | si. si \<in> set (sm_sigs (demoVote 0 [5, 6])) \<and> si_pub si \<noteq> 6 \<and>
      si_pub si \<notin> signers demoStore (sm_hash (demoVote 0 [5, 6]))}"
    unfolding demoStore_ok
    by (auto simp: demoVote_def intro!: exI [of _ "\<lparr>si_pub = 5, si_members = 1, si_sig = 5\<rparr>"])
  show ?thesis
    using GotSignedMsg_counts [OF g demoStore_ok(1,2) demoVote_plain(1) _ new] g
    by (simp add: demoStore_ok)
qed


text \<open>
  C19 (store invariant). Processing a signed message keeps the invariants of the store: one entry per key in every
  signature map, counters equal to the number of entries, and for every tracked group a key set that
  is the union of the signers of its messages.
\<close>

theorem GotSignedMsg_invariant:
  assumes "GotSignedMsg chk sms sm = (sms', sm', r)" "wf_sms sms" "plain_sms sms" "trackedOk sms"
    and "plain_sigs (sm_sigs sm)" "unsignedMsgMap sms (sm_hash sm) = None"
  shows "wf_sms sms' \<and> plain_sms sms' \<and> trackedOk sms' \<and> totalSigCountMap sms' = totalSigCountMap sms"
proof -
  have "totalSigCountMap (fst (GotSignedMsg chk sms sm)) = totalSigCountMap sms"
    by (rule GotSignedMsg_groups [OF assms(2,3,5,6)])
  then show ?thesis
    using GotSignedMsg_spec(1,2) [OF assms(1-3,5,6)] GotSignedMsg_tracked [OF assms(1-3,5,6,4)] assms(1) by simp
qed

lemma demoStore1_ok:
  defines "s1 \<equiv> fst (GotSignedMsg (\<lambda>_. True) demoStore (demoVote 0 [5, 6]))"
  shows "wf_sms s1" "plain_sms s1" "trackedOk s1" "unsignedMsgMap s1 = (\<lambda>_. None)"
    "totalSigCountMap s1 = totalSigCountMap demoStore"
proof -
  obtain sm' r where g: "GotSignedMsg (\<lambda>_. True) demoStore (demoVote 0 [5, 6]) = (s1, sm', r)"
    unfolding s1_def by (metis prod.collapse)
  note pre = demoStore_ok(1,2) demoVote_plain(1)
  have un: "unsignedMsgMap demoStore (sm_hash (demoVote 0 [5, 6])) = None" by (simp add: demoStore_ok)
  show "wf_sms s1" "plain_sms s1" "trackedOk s1" "unsignedMsgMap s1 = (\<lambda>_. None)"
    using GotSignedMsg_spec(1-3) [OF g pre un] GotSignedMsg_tracked [OF g pre un demoStore_ok(3)] demoStore_ok(4)
    by simp_all
  show "totalSigCountMap s1 = totalSigCountMap demoStore"
    unfolding s1_def by (rule GotSignedMsg_groups [OF pre un])
qed

theorem GotSignedMsg_invariant_witness:
  "wf_sms demoStore2 \<and> plain_sms demoStore2 \<and> trackedOk demoStore2 \<and>
   totalSigCountMap demoStore2 = totalSigCountMap demoStore"
proof -
  obtain sm' r where g: "GotSignedMsg (\<lambda>_. True) (fst (GotSignedMsg (\<lambda>_. True) demoStore (demoVote 0 [5, 6])))
      (demoVote 1 [6, 7]) = (demoStore2, sm', r)"
    unfolding demoStore2_def by (metis prod.collapse)
  from GotSignedMsg_invariant [OF g demoStore1_ok(1-3) demoVote_plain(1)] demoStore1_ok(4,5) show ?thesis by simp
qed

text \<open>
  C20 (tracked totals). For a group of messages registered with \<^verbatim>\<open>trackTotalSigCount\<close>,
  \<^verbatim>\<open>getTotalSigCount\<close> returns the number of distinct keys that signed at least one message of the
  group, and for each message the number of its signers: a key that signs several messages of the group counts
  once.
\<close>

theorem getTotalSigCount_distinct:
  assumes "wf_sms sms" "plain_sms sms" "trackedOk sms" "2 \<le> length hs"
    and "\<forall>h. totalSigCountMap sms h = Some r \<longleftrightarrow> h \<in> set hs"
  shows "getTotalSigCount sms hs =
     Inr (int (card (\<Union>h \<in> set hs. signers sms h)), map (\<lambda>h. int (card (signers sms h))) hs)"
proof -
  obtain h where "h \<in> set hs" using assms(4) by (cases hs) auto
  then have "r < tcmNext sms" using assms(3,5) unfolding trackedOk_def by blast
  then have "distinct (tcmStore sms r)" "set (tcmStore sms r) = (\<Union>h \<in> set hs. signers sms h)"
    using assms(3,5) by (auto simp: trackedOk_def groupSigners_def)
  then have "int (length (tcmStore sms r)) = int (card (\<Union>h \<in> set hs. signers sms h))"
    using distinct_card by metis
  moreover have "hs \<noteq> []" using assms(4) by auto
  ultimately show ?thesis
    using getTotalSigCount_loop_spec [OF assms(1,2), of hs r 0 "[]"] assms(4,5) by (simp add: getTotalSigCount_def)
qed

theorem getTotalSigCount_distinct_witness:
  "getTotalSigCount demoStore2 [0, 1] = Inr (3, [2, 2])"
proof -
  obtain sm' r where g: "GotSignedMsg (\<lambda>_. True) (fst (GotSignedMsg (\<lambda>_. True) demoStore (demoVote 0 [5, 6])))
      (demoVote 1 [6, 7]) = (demoStore2, sm', r)"
    unfolding demoStore2_def by (metis prod.collapse)
  note d = demoStore1_ok
  have un: "unsignedMsgMap (fst (GotSignedMsg (\<lambda>_. True) demoStore (demoVote 0 [5, 6]))) (sm_hash (demoVote 1 [6, 7])) = None"
    by (simp add: d(4))
  note pre = d(1,2) demoVote_plain(1) [of 1 "[6, 7]"] un
  have "totalSigCountMap demoStore2 = totalSigCountMap demoStore"
    unfolding demoStore2_def d(5) [symmetric] by (rule GotSignedMsg_groups [OF pre])
  then have "wf_sms demoStore2" "plain_sms demoStore2" "trackedOk demoStore2"
    "\<forall>h. totalSigCountMap demoStore2 h = Some 0 \<longleftrightarrow> h \<in> set [0, 1]"
    using GotSignedMsg_spec(1,2) [OF g pre] GotSignedMsg_tracked [OF g pre d(3)] demoStore_ok(5) by simp_all
  moreover have "signers demoStore2 0 = {5, 6}" "signers demoStore2 1 = {6, 7}"
    by code_simp+
  moreover have "{5, 6} \<union> {6, 7} = {5, 6, 7::nat}" by auto
  ultimately show ?thesis
    using getTotalSigCount_distinct [of demoStore2 "[0, 1]" 0] by simp
qed

end
