(* ===== verification/RbBcast1.thy ===== *)
theory RbBcast1
  imports SignedMsgState Utils "HOL-Library.AList"
begin

text \<open>
  Reliable broadcast: \<^verbatim>\<open>src/consensus/cons/rbbcast1/rbbcast1.go\<close> and \<^verbatim>\<open>rbbcast1_message_state.go\<close>, with the
  recovery of missing proposals of \<^verbatim>\<open>src/consensus/cons/absmvrecover.go\<close>. A coordinator broadcasts its proposal in an
  init message, every process echoes the hash of one proposal, and a hash with \<open>n - t\<close> echoes is decided once its proposal is
  known.

  Proposals are values \<open>'v\<close>, the hash function \<^verbatim>\<open>types.GetHash\<close> is a parameter. The message store is the one of
  \<open>SignedMsgState\<close>, keyed by the content of the signed message. Partial messages (\<^verbatim>\<open>PartialMessageType\<close>) are off.
\<close>

section \<open>Data\<close>

datatype ('v, 'h) rbMsg = MvInit nat 'v | MvEcho nat 'h | MvCommit nat 'h

datatype rbMsgID = InitID nat | EchoID nat | CommitID nat

type_synonym ('p, 'v, 'h) rb_store = "('p, ('v, 'h) rbMsg, rbMsgID) signedMsgMap"

record ('p, 'v, 'h) rbMessageState =
  rbSms :: "('p, 'v, 'h) rb_store"
  supportedEchoHash :: "'h option"
  totalEchoMsgCount :: int

text \<open>What the node reads from its configuration and its member checker.\<close>

record ('p, 'v, 'h) rb_config =
  rbMemberCount :: int
  rbFaultCount :: int
  rbMyPub :: 'p
  rbMemberLocal :: bool \<comment> \<open>\<^verbatim>\<open>CheckMemberLocal()\<close>\<close>
  isCoord :: "'p \<Rightarrow> bool" \<comment> \<open>\<^verbatim>\<open>CheckCoord\<close> accepts the key in round 0\<close>
  GetHash :: "'v \<Rightarrow> 'h"
  emptyProposal :: "'v \<Rightarrow> bool" \<comment> \<open>the proposal has length 0\<close>
  commitMember :: "'h option \<Rightarrow> bool" \<comment> \<open>\<^verbatim>\<open>CheckRandMember\<close> accepts the node for the commit of the hash\<close>

text \<open>
  The item. \<^verbatim>\<open>validatedInitHashes\<close> is a Go map, here the list of its entries; channels to other nodes are numbers, and
  \<open>requestRecoverTimer\<close> tells whether the timer was started.
\<close>

record ('p, 'v, 'h) RbBcast1 =
  rbStarted :: bool
  rbNeedsProposal :: bool
  rbGotProposal :: bool
  rbDecided :: bool
  myProposal :: "'v option"
  decisionHashBytes :: "'h option"
  decisionInitMsg :: "'v option"
  decisionPub :: "'p option"
  validatedInitHashes :: "('h \<times> 'p \<times> 'v) list"
  sentEcho :: bool
  sentRequestRecover :: bool
  requestedRecover :: "'h \<rightharpoonup> nat list"
  requestRecoverTimer :: bool

datatype ('v, 'h) rb_out =
    BcastInit 'v
  | BcastEcho 'h
  | BcastCommit "'h option" \<comment> \<open>only by \<^verbatim>\<open>RbBcast2\<close>\<close>
  | StartRecoverTimer
  | BcastRequestRecover "'h option"
  | SendInit nat 'v \<comment> \<open>the stored init message, sent to a channel\<close>

type_synonym ('p, 'v, 'h) rb_state = "('p, 'v, 'h) RbBcast1 \<times> ('p, 'v, 'h) rbMessageState"

section \<open>The message state\<close>

definition rbNewMessageState :: "('p, 'v, 'h) rbMessageState" where
  "rbNewMessageState = \<lparr>rbSms = newSignedMsgMap, supportedEchoHash = None, totalEchoMsgCount = 0\<rparr>"

text \<open>
  The operations that \<^verbatim>\<open>RbBcast2\<close> has too are defined for records that extend those of \<^verbatim>\<open>RbBcast1\<close>.
\<close>

text \<open>
  \<^verbatim>\<open>GotMsg\<close> for an init message and for an echo. \<open>chk\<close> is \<^verbatim>\<open>CheckMember\<close>. The store keeps the message
  also when a later check rejects it.
\<close>

definition GotInit ::
    "('p sig_item \<Rightarrow> bool) \<Rightarrow> ('p, 'v, 'h) rb_config \<Rightarrow> nat \<Rightarrow> 'v \<Rightarrow> 'p sig_item list \<Rightarrow> ('p, 'v, 'h) rbMessageState
     \<Rightarrow> ('p, 'v, 'h) rbMessageState \<times> 'p res" where
  "GotInit chk cfg round v sigs ms =
     (if length sigs \<noteq> 1 then (ms, Inl ErrInvalidSig)
      else (case GotSignedMsg chk (rbSms ms) \<lparr>sm_hash = MvInit round v, sm_msgid = InitID round, sm_sigs = sigs\<rparr> of
              (sms', sm', Inl e) \<Rightarrow> (ms\<lparr>rbSms := sms'\<rparr>, Inl e)
            | (sms', sm', Inr _) \<Rightarrow>
                (let ms1 = ms\<lparr>rbSms := sms'\<rparr>
                 in if length (sm_sigs sm') \<noteq> 1 then (ms1, Inl (Panic ''should not have multiple sigs''))
                    else if round \<noteq> 0 then (ms1, Inl ErrInvalidRound)
                    else if \<not> isCoord cfg (si_pub (hd (sm_sigs sm'))) then (ms1, Inl ErrInvalidRoundCoord)
                    else (ms1, Inr (si_pub (hd (sm_sigs sm')))))))"

definition GotEcho ::
    "('p sig_item \<Rightarrow> bool) \<Rightarrow> ('p, 'v, 'h) rb_config \<Rightarrow> nat \<Rightarrow> 'h \<Rightarrow> 'p sig_item list \<Rightarrow> ('p, 'v, 'h, 'z) rbMessageState_scheme
     \<Rightarrow> ('p, 'v, 'h, 'z) rbMessageState_scheme \<times> unit res" where
  "GotEcho chk cfg round h sigs ms =
     (case GotSignedMsg chk (rbSms ms) \<lparr>sm_hash = MvEcho round h, sm_msgid = EchoID round, sm_sigs = sigs\<rparr> of
        (sms', sm', Inl e) \<Rightarrow> (ms\<lparr>rbSms := sms'\<rparr>, Inl e)
      | (sms', sm', Inr (newTotalSigCount, newMsgIDSigCount)) \<Rightarrow>
          (let ms1 = ms\<lparr>rbSms := sms'\<rparr>
           in if round \<noteq> 0 then (ms1, Inl ErrInvalidRound)
              else
                (let nmt = rbMemberCount cfg - rbFaultCount cfg;
                     ms2 = (if totalEchoMsgCount ms1 < newMsgIDSigCount then ms1\<lparr>totalEchoMsgCount := newMsgIDSigCount\<rparr> else ms1)
                 in if newTotalSigCount \<ge> nmt then
                      (if supportedEchoHash ms2 \<noteq> None \<and> supportedEchoHash ms2 \<noteq> Some h
                       then (ms2, Inl (Panic ''got two hashes to support''))
                       else (ms2\<lparr>supportedEchoHash := Some h\<rparr>, Inr ()))
                    else (ms2, Inr ()))))"

section \<open>Recovery of missing proposals\<close>

definition StartRecoverTimeout :: "('p, 'v, 'h, 'z) RbBcast1_scheme \<Rightarrow> ('p, 'v, 'h, 'z) RbBcast1_scheme \<times> ('v, 'h) rb_out list" where
  "StartRecoverTimeout sc =
     (if requestRecoverTimer sc then (sc, []) else (sc\<lparr>requestRecoverTimer := True\<rparr>, [StartRecoverTimer]))"

definition StopRecoverTimeout :: "('p, 'v, 'h, 'z) RbBcast1_scheme \<Rightarrow> ('p, 'v, 'h, 'z) RbBcast1_scheme" where
  "StopRecoverTimeout sc = (if requestRecoverTimer sc then sc\<lparr>requestRecoverTimer := False\<rparr> else sc)"

fun sendRecoverLoop ::
    "('h \<times> 'p \<times> 'v) list \<Rightarrow> ('h \<rightharpoonup> nat list) \<Rightarrow> ('v, 'h) rb_out list \<Rightarrow> ('h \<rightharpoonup> nat list) \<times> ('v, 'h) rb_out list" where
  "sendRecoverLoop [] req outs = (req, outs)"
| "sendRecoverLoop ((hashStr, _, initMsg) # l) req outs =
     (case req hashStr of None \<Rightarrow> sendRecoverLoop l req outs
      | Some sendChans \<Rightarrow> sendRecoverLoop l (req(hashStr := None)) (outs @ map (\<lambda>c. SendInit c initMsg) sendChans))"

definition SendRecover :: "('p, 'v, 'h, 'z) RbBcast1_scheme \<Rightarrow> ('p, 'v, 'h, 'z) RbBcast1_scheme \<times> ('v, 'h) rb_out list" where
  "SendRecover sc =
     (case sendRecoverLoop (validatedInitHashes sc) (requestedRecover sc) [] of (req, outs) \<Rightarrow> (sc\<lparr>requestedRecover := req\<rparr>, outs))"

definition GotRequestRecover :: "'h \<Rightarrow> nat \<Rightarrow> ('p, 'v, 'h, 'z) RbBcast1_scheme \<Rightarrow> ('p, 'v, 'h, 'z) RbBcast1_scheme \<times> ('v, 'h) rb_out list" where
  "GotRequestRecover proposalHash senderChan sc =
     (let chans = (case requestedRecover sc proposalHash of None \<Rightarrow> [] | Some l \<Rightarrow> l)
      in SendRecover (sc\<lparr>requestedRecover := (requestedRecover sc)(proposalHash \<mapsto> chans @ [senderChan])\<rparr>))"

definition BroadcastRequestRecover :: "('p, 'v, 'h, 'z) RbBcast1_scheme \<Rightarrow> ('p, 'v, 'h, 'z) RbBcast1_scheme \<times> ('v, 'h) rb_out list" where
  "BroadcastRequestRecover sc =
     (if sentRequestRecover sc then (sc, [])
      else (sc\<lparr>sentRequestRecover := True\<rparr>, [BcastRequestRecover (decisionHashBytes sc)]))"

section \<open>The broadcast item\<close>

definition rbGenerateNewItem :: "('p, 'v, 'h) RbBcast1" where
  "rbGenerateNewItem = \<lparr>rbStarted = False, rbNeedsProposal = False, rbGotProposal = False, rbDecided = False, myProposal = None,
     decisionHashBytes = None, decisionInitMsg = None, decisionPub = None, validatedInitHashes = [], sentEcho = False,
     sentRequestRecover = False, requestedRecover = (\<lambda>_. None), requestRecoverTimer = False\<rparr>"

definition HasValidStarted :: "('p, 'v, 'h, 'z) RbBcast1_scheme \<Rightarrow> bool" where
  "HasValidStarted sc = (validatedInitHashes sc \<noteq> [])"

definition rbHasDecided :: "('p, 'v, 'h, 'z) RbBcast1_scheme \<Rightarrow> bool" where
  "rbHasDecided sc = (decisionInitMsg sc \<noteq> None)"

definition rbGetDecision :: "('p, 'v, 'h) rb_config \<Rightarrow> ('p, 'v, 'h, 'z) RbBcast1_scheme \<Rightarrow> ('p option \<times> 'v) res" where
  "rbGetDecision cfg sc =
     (case decisionInitMsg sc of None \<Rightarrow> Inl (Panic ''should have decided'')
      | Some v \<Rightarrow> if emptyProposal cfg v then Inl (Panic ''empty decision'') else Inr (decisionPub sc, v))"

definition rbStart :: "('p, 'v, 'h) rb_config \<Rightarrow> ('p, 'v, 'h, 'z) RbBcast1_scheme \<Rightarrow> ('p, 'v, 'h, 'z) RbBcast1_scheme" where
  "rbStart cfg sc =
     (let sc1 = sc\<lparr>rbStarted := True\<rparr>
      in if rbMemberLocal cfg \<and> isCoord cfg (rbMyPub cfg) then sc1\<lparr>rbNeedsProposal := True\<rparr> else sc1)"

definition rbItemGotProposal ::
    "('p, 'v, 'h) rb_config \<Rightarrow> 'v \<Rightarrow> ('p, 'v, 'h, 'z) RbBcast1_scheme \<Rightarrow> (('p, 'v, 'h, 'z) RbBcast1_scheme \<times> ('v, 'h) rb_out list) res" where
  "rbItemGotProposal cfg v sc =
     (if \<not> rbNeedsProposal sc then Inl (Panic ''should only get proposal after it was needed'')
      else if rbGotProposal sc then Inl (Panic ''got multiple proposals for same cons'')
      else if \<not> rbMemberLocal cfg then Inl (Panic ''non member should not get proposal'')
      else Inr (sc\<lparr>rbGotProposal := True, myProposal := Some v\<rparr>, [BcastInit v]))"

text \<open>
  \<^verbatim>\<open>checkProgress\<close>. The loop over the map of init messages stops at its first entry, and Go visits a map in any order:
  \<open>k\<close> selects the entry.
\<close>

definition echoStep :: "nat \<Rightarrow> ('p, 'v, 'h, 'z) RbBcast1_scheme \<Rightarrow> ('p, 'v, 'h, 'z) RbBcast1_scheme \<times> ('v, 'h) rb_out list" where
  "echoStep k sc =
     (let l = validatedInitHashes sc
      in if sentEcho sc \<or> l = [] then (sc, [])
         else (sc\<lparr>sentEcho := True\<rparr>, [BcastEcho (fst (l ! (k mod length l)))]))"

definition checkProgress ::
    "nat \<Rightarrow> ('p, 'v, 'h) rb_state \<Rightarrow> (('p, 'v, 'h) rb_state \<times> ('v, 'h) rb_out list) res" where
  "checkProgress k st =
     (case st of (sc, ms) \<Rightarrow>
        if rbHasDecided sc then Inr (st, [])
        else (case echoStep k sc of (sc1, outs) \<Rightarrow>
          (case supportedEchoHash ms of None \<Rightarrow> Inr ((sc1, ms), outs)
           | Some commitHash \<Rightarrow>
               if decisionHashBytes sc1 \<noteq> None \<and> decisionHashBytes sc1 \<noteq> Some commitHash
               then Inl (Panic ''committed two different hashes'')
               else
                 (let sc2 = (if decisionHashBytes sc1 = None then sc1\<lparr>decisionHashBytes := Some commitHash\<rparr> else sc1)
                  in case map_of (validatedInitHashes sc2) commitHash of
                       None \<Rightarrow> (case StartRecoverTimeout sc2 of (sc3, outs') \<Rightarrow> Inr ((sc3, ms), outs @ outs'))
                     | Some (pub, v) \<Rightarrow>
                         Inr ((sc2\<lparr>decisionInitMsg := Some v, decisionPub := Some pub, rbDecided := True\<rparr>, ms), outs)))))"

text \<open>The cases of \<^verbatim>\<open>ProcessMessage\<close>. A map entry for a known hash is replaced.\<close>

definition ProcessInit ::
    "('p, 'v, 'h) rb_config \<Rightarrow> nat \<Rightarrow> nat \<Rightarrow> 'p \<Rightarrow> 'v \<Rightarrow> ('p, 'v, 'h) rb_state \<Rightarrow> (('p, 'v, 'h) rb_state \<times> ('v, 'h) rb_out list) res" where
  "ProcessInit cfg k round pub v st =
     (case st of (sc, ms) \<Rightarrow>
        let hashStr = GetHash cfg v;
            sc1 = sc\<lparr>validatedInitHashes := AList.update hashStr (pub, v) (validatedInitHashes sc)\<rparr>
        in if round \<noteq> 0 then Inl (Panic ''should have caught this in msg state'')
           else if \<not> isCoord cfg pub then Inl (Panic ''should have handled this in GotMsg'')
           else bind_res (checkProgress k (sc1, ms)) (\<lambda>((sc2, ms2), outs).
                  case SendRecover sc2 of (sc3, outs') \<Rightarrow> Inr ((sc3, ms2), outs @ outs')))"

definition ProcessEcho ::
    "nat \<Rightarrow> nat \<Rightarrow> ('p, 'v, 'h) rb_state \<Rightarrow> (('p, 'v, 'h) rb_state \<times> ('v, 'h) rb_out list) res" where
  "ProcessEcho k round st =
     (if round \<noteq> 0 then Inl (Panic ''should have caught this in msg state'') else checkProgress k st)"

definition ProcessRecoverTimeout :: "('p, 'v, 'h) rb_state \<Rightarrow> ('p, 'v, 'h) rb_state \<times> ('v, 'h) rb_out list" where
  "ProcessRecoverTimeout st =
     (case st of (sc, ms) \<Rightarrow>
        if decisionInitMsg sc = None then (case BroadcastRequestRecover sc of (sc1, outs) \<Rightarrow> ((sc1, ms), outs)) else (st, []))"

definition ProcessRequestRecover :: "'h \<Rightarrow> nat \<Rightarrow> ('p, 'v, 'h) rb_state \<Rightarrow> ('p, 'v, 'h) rb_state \<times> ('v, 'h) rb_out list" where
  "ProcessRequestRecover h chan st =
     (case st of (sc, ms) \<Rightarrow> (case GotRequestRecover h chan sc of (sc1, outs) \<Rightarrow> ((sc1, ms), outs)))"

definition rbGetBufferCount :: "('p, 'v, 'h) rb_config \<Rightarrow> int \<times> int" where
  "rbGetBufferCount cfg = (rbMemberCount cfg - rbFaultCount cfg, rbMemberCount cfg)"

text \<open>\<^verbatim>\<open>GetCommitProof\<close>: an echo of the decided hash with \<open>n - t\<close> signatures.\<close>

definition rbGetCommitProof ::
    "('p, 'v, 'h) rb_config \<Rightarrow> 'h \<Rightarrow> ('p, 'v, 'h) rbMessageState
     \<Rightarrow> (('p, 'v, 'h) rbMessageState \<times> ('p, ('v, 'h) rbMsg, rbMsgID) signed_msg) res" where
  "rbGetCommitProof cfg h ms =
     (let nmt = rbMemberCount cfg - rbFaultCount cfg
      in case SetupSignedMessage (rbSms ms) \<lparr>sm_hash = MvEcho 0 h, sm_msgid = EchoID 0, sm_sigs = []\<rparr> (rbMyPub cfg) None nmt of
           (sms', Inl e) \<Rightarrow> Inl (Panic ''commit proof'')
         | (sms', Inr sm) \<Rightarrow> Inr (ms\<lparr>rbSms := sms'\<rparr>, sm))"

end
