(* ===== verification/RbBcast2.thy ===== *)
theory RbBcast2
  imports RbBcast1
begin

text \<open>
  Reliable broadcast with a commit phase: \<^verbatim>\<open>src/consensus/cons/rbbcast2/rbbcast2.go\<close> and \<^verbatim>\<open>rbbcast_message_state.go\<close>. A process
  commits a hash that has \<open>n - t\<close> echoes or \<open>t + 1\<close> commits, and delivers the proposal of a hash with \<open>n - t\<close> commits. The
  records extend those of \<^verbatim>\<open>RbBcast1\<close>, whose recovery of missing proposals, start and echo are the same code.
\<close>

section \<open>Data\<close>

record ('p, 'v, 'h) rb2MessageState = "('p, 'v, 'h) rbMessageState" +
  supportedCommitHash :: "'h option"
  supportedCommitCount :: int

record ('p, 'v, 'h) RbBcast2 = "('p, 'v, 'h) RbBcast1" +
  sentCommit :: bool

type_synonym ('p, 'v, 'h) rb2_state = "('p, 'v, 'h) RbBcast2 \<times> ('p, 'v, 'h) rb2MessageState"

section \<open>The message state\<close>

definition rb2NewMessageState :: "('p, 'v, 'h) rb2MessageState" where
  "rb2NewMessageState = \<lparr>rbSms = newSignedMsgMap, supportedEchoHash = None, totalEchoMsgCount = 0,
     supportedCommitHash = None, supportedCommitCount = 0\<rparr>"

text \<open>\<^verbatim>\<open>GotMsg\<close> for an init message: the round of the message is not looked at.\<close>

definition rb2GotInit ::
    "('p sig_item \<Rightarrow> bool) \<Rightarrow> ('p, 'v, 'h) rb_config \<Rightarrow> nat \<Rightarrow> 'v \<Rightarrow> 'p sig_item list \<Rightarrow> ('p, 'v, 'h) rb2MessageState
     \<Rightarrow> ('p, 'v, 'h) rb2MessageState \<times> 'p res" where
  "rb2GotInit chk cfg round v sigs ms =
     (if length sigs \<noteq> 1 then (ms, Inl ErrInvalidSig)
      else (case GotSignedMsg chk (rbSms ms) \<lparr>sm_hash = MvInit round v, sm_msgid = InitID round, sm_sigs = sigs\<rparr> of
              (sms', sm', Inl e) \<Rightarrow> (ms\<lparr>rbSms := sms'\<rparr>, Inl e)
            | (sms', sm', Inr _) \<Rightarrow>
                (let ms1 = ms\<lparr>rbSms := sms'\<rparr>
                 in if length (sm_sigs sm') \<noteq> 1 then (ms1, Inl ErrInvalidSig)
                    else if \<not> isCoord cfg (si_pub (hd (sm_sigs sm'))) then (ms1, Inl ErrInvalidRoundCoord)
                    else (ms1, Inr (si_pub (hd (sm_sigs sm')))))))"

text \<open>For an echo.\<close>

definition rb2GotEcho ::
    "('p sig_item \<Rightarrow> bool) \<Rightarrow> ('p, 'v, 'h) rb_config \<Rightarrow> nat \<Rightarrow> 'h \<Rightarrow> 'p sig_item list \<Rightarrow> ('p, 'v, 'h) rb2MessageState
     \<Rightarrow> ('p, 'v, 'h) rb2MessageState \<times> unit res" where
  "rb2GotEcho chk cfg round h sigs ms = GotEcho chk cfg round h sigs ms"

text \<open>For a commit.\<close>

definition rb2GotCommit ::
    "('p sig_item \<Rightarrow> bool) \<Rightarrow> ('p, 'v, 'h) rb_config \<Rightarrow> nat \<Rightarrow> 'h \<Rightarrow> 'p sig_item list \<Rightarrow> ('p, 'v, 'h) rb2MessageState
     \<Rightarrow> ('p, 'v, 'h) rb2MessageState \<times> unit res" where
  "rb2GotCommit chk cfg round h sigs ms =
     (case GotSignedMsg chk (rbSms ms) \<lparr>sm_hash = MvCommit round h, sm_msgid = CommitID round, sm_sigs = sigs\<rparr> of
        (sms', sm', Inl e) \<Rightarrow> (ms\<lparr>rbSms := sms'\<rparr>, Inl e)
      | (sms', sm', Inr (newTotalSigCount, _)) \<Rightarrow>
          (let ms1 = ms\<lparr>rbSms := sms'\<rparr>
           in if round \<noteq> 0 then (ms1, Inl ErrInvalidRound)
              else if newTotalSigCount > rbFaultCount cfg then
                (if supportedCommitHash ms1 \<noteq> None \<and> supportedCommitHash ms1 \<noteq> Some h
                 then (ms1, Inl (Panic ''got two hashes to support''))
                 else if supportedEchoHash ms1 \<noteq> None \<and> supportedEchoHash ms1 \<noteq> Some h
                 then (ms1, Inl (Panic ''got conflicting echo and commit hashes''))
                 else (ms1\<lparr>supportedCommitHash := Some h,
                           supportedCommitCount := (if supportedCommitCount ms1 < newTotalSigCount then newTotalSigCount else supportedCommitCount ms1)\<rparr>,
                       Inr ()))
              else (ms1, Inr ())))"

section \<open>The broadcast item\<close>

definition rb2GenerateNewItem :: "('p, 'v, 'h) RbBcast2" where
  "rb2GenerateNewItem = \<lparr>rbStarted = False, rbNeedsProposal = False, rbGotProposal = False, rbDecided = False, myProposal = None,
     decisionHashBytes = None, decisionInitMsg = None, decisionPub = None, validatedInitHashes = [], sentEcho = False,
     sentRequestRecover = False, requestedRecover = (\<lambda>_. None), requestRecoverTimer = False, sentCommit = False\<rparr>"

text \<open>The steps of \<^verbatim>\<open>checkProgress\<close> after the echo. The commit is broadcast only when \<^verbatim>\<open>CheckMemberLocalMsg\<close> says that the node
  is a member for this message.\<close>

definition commitStep ::
    "('p, 'v, 'h) rb_config \<Rightarrow> ('p, 'v, 'h) rb2MessageState \<Rightarrow> ('p, 'v, 'h) RbBcast2 \<Rightarrow> ('p, 'v, 'h) RbBcast2 \<times> ('v, 'h) rb_out list" where
  "commitStep cfg ms sc =
     (let send = (\<lambda>h. (sc\<lparr>sentCommit := True\<rparr>, if rbMemberLocal cfg \<and> commitMember cfg h then [BcastCommit h] else []))
      in if sentCommit sc then (sc, [])
         else if supportedEchoHash ms \<noteq> None then send (supportedEchoHash ms)
         else if supportedCommitCount ms > rbFaultCount cfg then send (supportedCommitHash ms)
         else (sc, []))"

definition decideStep ::
    "('p, 'v, 'h) rb_config \<Rightarrow> ('p, 'v, 'h) rb2MessageState \<Rightarrow> ('p, 'v, 'h) RbBcast2 \<Rightarrow> (('p, 'v, 'h) RbBcast2 \<times> ('v, 'h) rb_out list) res" where
  "decideStep cfg ms sc =
     (if supportedCommitCount ms \<ge> rbMemberCount cfg - rbFaultCount cfg then
        (if decisionHashBytes sc \<noteq> None \<and> decisionHashBytes sc \<noteq> supportedCommitHash ms
         then Inl (Panic ''committed two different hashes'')
         else
           (let sc1 = (if decisionHashBytes sc = None then sc\<lparr>decisionHashBytes := supportedCommitHash ms\<rparr> else sc)
            in case Option.bind (decisionHashBytes sc1) (map_of (validatedInitHashes sc1)) of
                 None \<Rightarrow> Inr (StartRecoverTimeout sc1)
               | Some (pub, v) \<Rightarrow> Inr (sc1\<lparr>decisionInitMsg := Some v, decisionPub := Some pub, rbDecided := True\<rparr>, [])))
      else Inr (sc, []))"

definition rb2CheckProgress ::
    "nat \<Rightarrow> ('p, 'v, 'h) rb_config \<Rightarrow> ('p, 'v, 'h) rb2_state \<Rightarrow> (('p, 'v, 'h) rb2_state \<times> ('v, 'h) rb_out list) res" where
  "rb2CheckProgress k cfg st =
     (case st of (sc, ms) \<Rightarrow>
        if rbHasDecided sc then Inr (st, [])
        else (case echoStep k sc of (sc1, outs1) \<Rightarrow>
          (case commitStep cfg ms sc1 of (sc2, outs2) \<Rightarrow>
             bind_res (decideStep cfg ms sc2) (\<lambda>(sc3, outs3). Inr ((sc3, ms), outs1 @ outs2 @ outs3)))))"

text \<open>The cases of \<^verbatim>\<open>ProcessMessage\<close>. The proposal is stored before its round is checked.\<close>

definition rb2ProcessInit ::
    "('p, 'v, 'h) rb_config \<Rightarrow> nat \<Rightarrow> nat \<Rightarrow> 'p \<Rightarrow> 'v \<Rightarrow> ('p, 'v, 'h) rb2_state \<Rightarrow> (('p, 'v, 'h) rb2_state \<times> ('v, 'h) rb_out list) res" where
  "rb2ProcessInit cfg k round pub v st =
     (case st of (sc, ms) \<Rightarrow>
        let sc1 = sc\<lparr>validatedInitHashes := AList.update (GetHash cfg v) (pub, v) (validatedInitHashes sc)\<rparr>
        in if round \<noteq> 0 then Inl (Panic ''should have caught this in msg state'')
           else if \<not> isCoord cfg pub then Inl (Panic ''should have handled this in GotMsg'')
           else bind_res (rb2CheckProgress k cfg (sc1, ms)) (\<lambda>((sc2, ms2), outs).
                  case SendRecover sc2 of (sc3, outs') \<Rightarrow> Inr ((sc3, ms2), outs @ outs')))"

definition rb2ProcessVote ::
    "('p, 'v, 'h) rb_config \<Rightarrow> nat \<Rightarrow> nat \<Rightarrow> ('p, 'v, 'h) rb2_state \<Rightarrow> (('p, 'v, 'h) rb2_state \<times> ('v, 'h) rb_out list) res" where
  "rb2ProcessVote cfg k round st =
     (if round \<noteq> 0 then Inl (Panic ''should have caught this in msg state'') else rb2CheckProgress k cfg st)"

definition rb2ProcessRecoverTimeout :: "('p, 'v, 'h) rb2_state \<Rightarrow> ('p, 'v, 'h) rb2_state \<times> ('v, 'h) rb_out list" where
  "rb2ProcessRecoverTimeout st =
     (case st of (sc, ms) \<Rightarrow>
        if decisionInitMsg sc = None then (case BroadcastRequestRecover sc of (sc1, outs) \<Rightarrow> ((sc1, ms), outs)) else (st, []))"

definition rb2ProcessRequestRecover :: "'h \<Rightarrow> nat \<Rightarrow> ('p, 'v, 'h) rb2_state \<Rightarrow> ('p, 'v, 'h) rb2_state \<times> ('v, 'h) rb_out list" where
  "rb2ProcessRequestRecover h chan st =
     (case st of (sc, ms) \<Rightarrow> (case GotRequestRecover h chan sc of (sc1, outs) \<Rightarrow> ((sc1, ms), outs)))"

text \<open>\<^verbatim>\<open>GetCommitProof\<close>: a commit of the decided hash with \<open>n - t\<close> signatures.\<close>

definition rb2GetCommitProof ::
    "('p, 'v, 'h) rb_config \<Rightarrow> 'h \<Rightarrow> ('p, 'v, 'h) rb2MessageState
     \<Rightarrow> (('p, 'v, 'h) rb2MessageState \<times> ('p, ('v, 'h) rbMsg, rbMsgID) signed_msg) res" where
  "rb2GetCommitProof cfg h ms =
     (let nmt = rbMemberCount cfg - rbFaultCount cfg
      in case SetupSignedMessage (rbSms ms) \<lparr>sm_hash = MvCommit 0 h, sm_msgid = CommitID 0, sm_sigs = []\<rparr> (rbMyPub cfg) None nmt of
           (sms', Inl e) \<Rightarrow> Inl (Panic ''commit proof'')
         | (sms', Inr sm) \<Rightarrow> Inr (ms\<lparr>rbSms := sms'\<rparr>, sm))"

end
