(* ===== verification/RbBcast1_System.thy ===== *)
theory RbBcast1_System
  imports RbBcast1
begin

text \<open>
  Runs of the reliable broadcast by many processes, fewer than a third of the members faulty. Correct processes run the
  operations of \<^verbatim>\<open>rbbcast1.go\<close> in any order; messages may be lost, duplicated and reordered; faulty members may sign
  anything, but nobody can sign for another. No two correct processes deliver proposals with different hashes, a delivered proposal was
  signed by a coordinator, and the calls to \<^verbatim>\<open>panic\<close> are not reached.
\<close>

section \<open>The system\<close>

record ('p, 'v, 'h) rb_system =
  rbMembers :: "'p set"
  rbFaulty :: "'p set"
  rbCoord :: "'p \<Rightarrow> bool"
  rbHash :: "'v \<Rightarrow> 'h"
  rbConfigs :: "'p \<Rightarrow> ('p, 'v, 'h) rb_config"

text \<open>The history of signatures on echoes and init messages of round 0, and of proposals handed to correct processes.\<close>

record ('p, 'v, 'h) rb_global =
  rbNodes :: "'p \<Rightarrow> ('p, 'v, 'h) rb_state"
  echoed :: "('p \<times> 'h) set"
  inited :: "('p \<times> 'v) set"
  rbProposals :: "('p \<times> 'v) set"

definition rbT :: "('p, 'v, 'h) rb_system \<Rightarrow> int" where
  "rbT sys = GetOneThirdBottom (int (card (rbMembers sys)))"

definition rbNmt :: "('p, 'v, 'h) rb_system \<Rightarrow> int" where
  "rbNmt sys = int (card (rbMembers sys)) - rbT sys"

definition wf_rb :: "('p, 'v, 'h) rb_system \<Rightarrow> bool" where
  "wf_rb sys \<longleftrightarrow> finite (rbMembers sys) \<and> rbMembers sys \<noteq> {} \<and> finite (rbFaulty sys) \<and> int (card (rbFaulty sys)) \<le> rbT sys \<and>
     (\<forall>p. rbMemberCount (rbConfigs sys p) = int (card (rbMembers sys)) \<and> rbFaultCount (rbConfigs sys p) = rbT sys \<and>
          isCoord (rbConfigs sys p) = rbCoord sys \<and> GetHash (rbConfigs sys p) = rbHash sys)"

definition rbInit :: "('p, 'v, 'h) rb_global" where
  "rbInit = \<lparr>rbNodes = \<lambda>_. (rbGenerateNewItem, rbNewMessageState), echoed = {}, inited = {}, rbProposals = {}\<rparr>"

definition rbSend :: "'p \<Rightarrow> ('p, 'v, 'h) rb_state \<Rightarrow> ('v, 'h) rb_out list \<Rightarrow> ('p, 'v, 'h) rb_global \<Rightarrow> ('p, 'v, 'h) rb_global" where
  "rbSend p st outs g = g\<lparr>rbNodes := (rbNodes g)(p := st), echoed := echoed g \<union> {(p, h) | h. BcastEcho h \<in> set outs},
     inited := inited g \<union> {(p, v) | v. BcastInit v \<in> set outs}\<rparr>"

inductive rb_step :: "('p, 'v, 'h) rb_system \<Rightarrow> ('p, 'v, 'h) rb_global \<Rightarrow> ('p, 'v, 'h) rb_global \<Rightarrow> bool" for sys where
  start: "p \<notin> rbFaulty sys \<Longrightarrow> rbNodes g p = (sc, ms) \<Longrightarrow> rb_step sys g (rbSend p (rbStart (rbConfigs sys p) sc, ms) [] g)"
| propose: "p \<notin> rbFaulty sys \<Longrightarrow> rbNodes g p = (sc, ms) \<Longrightarrow> rbItemGotProposal (rbConfigs sys p) v sc = Inr (sc', outs) \<Longrightarrow>
     rb_step sys g ((rbSend p (sc', ms) outs g)\<lparr>rbProposals := insert (p, v) (rbProposals g)\<rparr>)"
| init: "p \<notin> rbFaulty sys \<Longrightarrow> rbNodes g p = (sc, ms) \<Longrightarrow> plain_sigs sigs \<Longrightarrow>
     (\<And>si. si \<in> set sigs \<Longrightarrow> chk si \<Longrightarrow> r = 0 \<longrightarrow> (si_pub si, v) \<in> inited g) \<Longrightarrow>
     GotInit chk (rbConfigs sys p) r v sigs ms = (ms', Inr pub) \<Longrightarrow>
     ProcessInit (rbConfigs sys p) k r pub v (sc, ms') = Inr (st', outs) \<Longrightarrow> rb_step sys g (rbSend p st' outs g)"
| init_reject: "p \<notin> rbFaulty sys \<Longrightarrow> rbNodes g p = (sc, ms) \<Longrightarrow> plain_sigs sigs \<Longrightarrow>
     GotInit chk (rbConfigs sys p) r v sigs ms = (ms', Inl e) \<Longrightarrow> rb_step sys g (rbSend p (sc, ms') [] g)"
| echo: "p \<notin> rbFaulty sys \<Longrightarrow> rbNodes g p = (sc, ms) \<Longrightarrow> plain_sigs sigs \<Longrightarrow>
     (\<And>si. si \<in> set sigs \<Longrightarrow> chk si \<Longrightarrow> si_pub si \<in> rbMembers sys \<and> (r = 0 \<longrightarrow> (si_pub si, h) \<in> echoed g)) \<Longrightarrow>
     GotEcho chk (rbConfigs sys p) r h sigs ms = (ms', res) \<Longrightarrow> rb_step sys g (rbSend p (sc, ms') [] g)"
| progress: "p \<notin> rbFaulty sys \<Longrightarrow> ProcessEcho k 0 (rbNodes g p) = Inr (st', outs) \<Longrightarrow> rb_step sys g (rbSend p st' outs g)"
| timeout: "p \<notin> rbFaulty sys \<Longrightarrow> ProcessRecoverTimeout (rbNodes g p) = (st', outs) \<Longrightarrow> rb_step sys g (rbSend p st' outs g)"
| request: "p \<notin> rbFaulty sys \<Longrightarrow> ProcessRequestRecover h c (rbNodes g p) = (st', outs) \<Longrightarrow> rb_step sys g (rbSend p st' outs g)"
| byz_echo: "p \<in> rbFaulty sys \<Longrightarrow> rb_step sys g (g\<lparr>echoed := insert (p, h) (echoed g)\<rparr>)"
| byz_init: "p \<in> rbFaulty sys \<Longrightarrow> rb_step sys g (g\<lparr>inited := insert (p, v) (inited g)\<rparr>)"

inductive rb_reachable :: "('p, 'v, 'h) rb_system \<Rightarrow> ('p, 'v, 'h) rb_global \<Rightarrow> bool" for sys where
  init: "rb_reachable sys rbInit"
| step: "rb_reachable sys g \<Longrightarrow> rb_step sys g g' \<Longrightarrow> rb_reachable sys g'"

section \<open>The message store\<close>

text \<open>What a store promises, and that a hash that is supported has a quorum of signatures in it.\<close>

definition wf_rbms :: "int \<Rightarrow> ('p, 'v, 'h, 'z) rbMessageState_scheme \<Rightarrow> bool" where
  "wf_rbms nmt ms \<longleftrightarrow> wf_sms (rbSms ms) \<and> plain_sms (rbSms ms) \<and> unsignedMsgMap (rbSms ms) = (\<lambda>_. None) \<and>
     (\<forall>h. supportedEchoHash ms = Some h \<longrightarrow> nmt \<le> int (card (signers (rbSms ms) (MvEcho 0 h))))"

lemma wf_rbms_new [simp]: "wf_rbms nmt rbNewMessageState"
  by (simp add: wf_rbms_def rbNewMessageState_def)

lemma finite_signers_rb [simp]: "finite (signers sms h)"
  by (simp add: signers_def split: option.splits)

lemma storeMsg_loop_sigs: "storeMsg_loop h sis sms c item acc = Inr (sms', c', item', out) \<Longrightarrow> set out \<subseteq> set acc \<union> set sis"
proof (induction h sis sms c item acc rule: storeMsg_loop.induct)
  case (2 h si sis sms c item acc)
  then show ?case by (auto simp: Let_def bind_res_Inr_iff split: if_splits)
qed simp

lemma GotSignedMsg_sigs:
  assumes "GotSignedMsg chk sms sm = (sms', sm', Inr x)"
  shows "\<forall>si \<in> set (sm_sigs sm'). si \<in> set (sm_sigs sm) \<and> chk si"
proof -
  have "set (sm_sigs b) \<subseteq> set (sm_sigs sm)" if "gotMsg sms sm = (a, b, Inr ())" for a b
    using that by (auto simp: gotMsg_def Let_def split: sum.splits if_splits)
  moreover have "set (sm_sigs sm') \<subseteq> set (sm_sigs y)" if "storeMsg a y = (sms', sm', Inr x)" for a y
    using that by (fastforce simp: storeMsg_def Let_def split: sum.splits if_splits dest!: storeMsg_loop_sigs)
  ultimately show ?thesis using assms by (fastforce simp: GotSignedMsg_def split: prod.splits sum.splits)
qed

lemma GotInit_spec:
  assumes got: "GotInit chk cfg r v sigs ms = (ms', res)" and wf: "wf_rbms nmt ms" and pl: "plain_sigs sigs"
  shows "wf_rbms nmt ms'" "signers (rbSms ms') (MvEcho 0 h) = signers (rbSms ms) (MvEcho 0 h)"
    "supportedEchoHash ms' = supportedEchoHash ms"
    "res = Inr pub \<Longrightarrow> r = 0 \<and> isCoord cfg pub \<and> (\<exists>si \<in> set sigs. chk si \<and> si_pub si = pub)"
proof -
  let ?sm = "\<lparr>sm_hash = MvInit r v, sm_msgid = InitID r, sm_sigs = sigs\<rparr>"
  obtain sms' sm' rr where g: "GotSignedMsg chk (rbSms ms) ?sm = (sms', sm', rr)" by (metis prod_cases3)
  have pre: "wf_sms (rbSms ms)" "plain_sms (rbSms ms)" "plain_sigs (sm_sigs ?sm)" "unsignedMsgMap (rbSms ms) (sm_hash ?sm) = None"
    using wf pl by (simp_all add: wf_rbms_def)
  note s = GotSignedMsg_spec [OF g pre]
  have ms': "ms' = ms \<or> ms' = ms\<lparr>rbSms := sms'\<rparr>"
    using got g by (auto simp: GotInit_def Let_def split: sum.splits if_splits)
  have echo: "signers sms' (MvEcho 0 h) = signers (rbSms ms) (MvEcho 0 h)" for h using s(4) by simp
  show "wf_rbms nmt ms'" using ms' wf s(1-3) echo by (auto simp: wf_rbms_def)
  show "signers (rbSms ms') (MvEcho 0 h) = signers (rbSms ms) (MvEcho 0 h)" "supportedEchoHash ms' = supportedEchoHash ms"
    using ms' echo by auto
  show "r = 0 \<and> isCoord cfg pub \<and> (\<exists>si \<in> set sigs. chk si \<and> si_pub si = pub)" if r: "res = Inr pub"
  proof -
    obtain x where x: "rr = Inr x" "length (sm_sigs sm') = 1" "r = 0" "isCoord cfg pub" "pub = si_pub (hd (sm_sigs sm'))"
      using got g r by (auto simp: GotInit_def Let_def split: sum.splits if_splits)
    then have "hd (sm_sigs sm') \<in> set (sm_sigs sm')" by (cases "sm_sigs sm'") auto
    with GotSignedMsg_sigs [of chk "rbSms ms" ?sm sms' sm' x] g x show ?thesis by auto
  qed
qed

lemma GotEcho_spec:
  assumes got: "GotEcho chk cfg r h sigs ms = (ms', res)" and wf: "wf_rbms nmt ms" and pl: "plain_sigs sigs"
    and nmt: "nmt = rbMemberCount cfg - rbFaultCount cfg"
  shows "signers (rbSms ms') (MvEcho 0 h') \<subseteq> signers (rbSms ms) (MvEcho 0 h') \<union>
      (if r = 0 \<and> h' = h then {si_pub si | si. si \<in> set sigs \<and> chk si} else {})"
    "wf_rbms nmt ms'"
    "supportedEchoHash ms' = supportedEchoHash ms \<or> (supportedEchoHash ms = None \<and> supportedEchoHash ms' = Some h)"
    "panics res \<Longrightarrow> r = 0 \<and> nmt \<le> int (card (signers (rbSms ms') (MvEcho 0 h))) \<and> (\<exists>h''. supportedEchoHash ms' = Some h'' \<and> h'' \<noteq> h)"
proof -
  let ?sm = "\<lparr>sm_hash = MvEcho r h, sm_msgid = EchoID r, sm_sigs = sigs\<rparr>"
  obtain sms' sm' rr where g: "GotSignedMsg chk (rbSms ms) ?sm = (sms', sm', rr)" by (metis prod_cases3)
  have pre: "wf_sms (rbSms ms)" "plain_sms (rbSms ms)" "plain_sigs (sm_sigs ?sm)" "unsignedMsgMap (rbSms ms) (sm_hash ?sm) = None"
    using wf pl by (simp_all add: wf_rbms_def)
  note s = GotSignedMsg_spec [OF g pre]
  have sms: "rbSms ms' = sms'" and sup: "supportedEchoHash ms' = supportedEchoHash ms \<or>
      (r = 0 \<and> supportedEchoHash ms' = Some h \<and> supportedEchoHash ms \<in> {None, Some h} \<and>
        (\<exists>a b. rr = Inr (a, b) \<and> nmt \<le> a))"
    using got g nmt by (auto simp: GotEcho_def Let_def split: sum.splits if_splits)
  show "signers (rbSms ms') (MvEcho 0 h') \<subseteq> signers (rbSms ms) (MvEcho 0 h') \<union>
      (if r = 0 \<and> h' = h then {si_pub si | si. si \<in> set sigs \<and> chk si} else {})"
    using s(4) sms by auto
  have mono: "card (signers (rbSms ms) (MvEcho 0 h')) \<le> card (signers sms' (MvEcho 0 h'))" for h'
    using s(4) by (intro card_mono) auto
  have "nmt \<le> int (card (signers sms' (MvEcho 0 h')))" if h': "supportedEchoHash ms' = Some h'" for h'
  proof (cases "supportedEchoHash ms = Some h'")
    case True
    then show ?thesis using wf mono [of h'] by (auto simp: wf_rbms_def)
  next
    case False
    then show ?thesis using sup h' s(7) by auto
  qed
  then show "wf_rbms nmt ms'" using s(1-3) wf sms by (simp add: wf_rbms_def)
  show "supportedEchoHash ms' = supportedEchoHash ms \<or> (supportedEchoHash ms = None \<and> supportedEchoHash ms' = Some h)"
    using sup by auto
  show "panics res \<Longrightarrow> r = 0 \<and> nmt \<le> int (card (signers (rbSms ms') (MvEcho 0 h))) \<and> (\<exists>h''. supportedEchoHash ms' = Some h'' \<and> h'' \<noteq> h)"
    using got g nmt s(7,8) by (auto simp: GotEcho_def Let_def panics_def split: sum.splits if_splits go_error.splits)
qed

section \<open>The invariant of a correct process\<close>

text \<open>The signatures in the store were made; what is stored or decided was proposed; each process echoes and proposes once.\<close>

definition storeInv :: "('p, 'v, 'h) rb_system \<Rightarrow> ('p \<times> 'h) set \<Rightarrow> ('p, 'v, 'h, 'z) rbMessageState_scheme \<Rightarrow> bool" where
  "storeInv sys E ms \<longleftrightarrow> wf_rbms (rbNmt sys) ms \<and> (\<forall>h. signers (rbSms ms) (MvEcho 0 h) \<subseteq> {q \<in> rbMembers sys. (q, h) \<in> E})"

definition itemInv :: "('p, 'v, 'h) rb_system \<Rightarrow> ('p \<times> 'v) set \<Rightarrow> 'h option \<Rightarrow> ('p, 'v, 'h, 'z) RbBcast1_scheme \<Rightarrow> bool" where
  "itemInv sys I supp sc \<longleftrightarrow>
     (\<forall>(h, pub, v) \<in> set (validatedInitHashes sc). h = rbHash sys v \<and> rbCoord sys pub \<and> (pub, v) \<in> I) \<and>
     (\<forall>h. decisionHashBytes sc = Some h \<longrightarrow> supp = Some h) \<and>
     (\<forall>v. decisionInitMsg sc = Some v \<longrightarrow> decisionHashBytes sc = Some (rbHash sys v) \<and>
        (\<exists>pub. decisionPub sc = Some pub \<and> rbCoord sys pub \<and> (pub, v) \<in> I))"

definition signInv ::
    "('p, 'v, 'h) rb_system \<Rightarrow> ('p \<times> 'h) set \<Rightarrow> ('p \<times> 'v) set \<Rightarrow> ('p \<times> 'v) set \<Rightarrow> 'p \<Rightarrow> bool \<Rightarrow> bool \<Rightarrow> bool" where
  "signInv sys E I P p sent got \<longleftrightarrow>
     (\<forall>h. (p, h) \<in> E \<longrightarrow> sent \<and> (\<exists>pub v. rbCoord sys pub \<and> (pub, v) \<in> I \<and> h = rbHash sys v)) \<and>
     (\<forall>h h'. (p, h) \<in> E \<longrightarrow> (p, h') \<in> E \<longrightarrow> h = h') \<and>
     (\<forall>v. (p, v) \<in> I \<longrightarrow> (p, v) \<in> P \<and> got) \<and> (\<forall>v v'. (p, v) \<in> I \<longrightarrow> (p, v') \<in> I \<longrightarrow> v = v')"

definition rbNodeInv ::
    "('p, 'v, 'h) rb_system \<Rightarrow> ('p \<times> 'h) set \<Rightarrow> ('p \<times> 'v) set \<Rightarrow> ('p \<times> 'v) set \<Rightarrow> 'p \<Rightarrow> ('p, 'v, 'h) rb_state \<Rightarrow> bool" where
  "rbNodeInv sys E I P p st \<longleftrightarrow>
     (case st of (sc, ms) \<Rightarrow> storeInv sys E ms \<and> itemInv sys I (supportedEchoHash ms) sc \<and> signInv sys E I P p (sentEcho sc) (rbGotProposal sc))"

definition rbInv :: "('p, 'v, 'h) rb_system \<Rightarrow> ('p, 'v, 'h) rb_global \<Rightarrow> bool" where
  "rbInv sys g \<longleftrightarrow> (\<forall>p. p \<notin> rbFaulty sys \<longrightarrow> rbNodeInv sys (echoed g) (inited g) (rbProposals g) p (rbNodes g p))"

lemma rbNodeInv_mono:
  assumes "rbNodeInv sys E I P p st" "E \<subseteq> E'" "I \<subseteq> I'" "P \<subseteq> P'" "\<And>h. (p, h) \<in> E' \<Longrightarrow> (p, h) \<in> E" "\<And>v. (p, v) \<in> I' \<Longrightarrow> (p, v) \<in> I"
  shows "rbNodeInv sys E' I' P' p st"
proof -
  obtain sc ms where st: "st = (sc, ms)" by (cases st)
  have "storeInv sys E' ms" using assms(1,2) st by (auto simp: rbNodeInv_def storeInv_def)
  moreover have "itemInv sys I' (supportedEchoHash ms) sc" using assms(1,3) st unfolding rbNodeInv_def itemInv_def by fast
  moreover have "signInv sys E I P p (sentEcho sc) (rbGotProposal sc)" using assms(1) st by (simp add: rbNodeInv_def)
  then have "signInv sys E' I' P' p (sentEcho sc) (rbGotProposal sc)"
    using assms(3-6) unfolding signInv_def by (meson subsetD)
  ultimately show ?thesis by (simp add: st rbNodeInv_def)
qed

lemma rbNodeInv_init [simp]: "rbNodeInv sys {} {} {} p (rbGenerateNewItem, rbNewMessageState)"
  by (simp add: rbNodeInv_def storeInv_def itemInv_def signInv_def rbGenerateNewItem_def rbNewMessageState_def wf_rbms_def)

text \<open>Steps of other processes, and steps of this one that only add to what it signed.\<close>

lemma rbInv_send:
  assumes "rbInv sys g" "p \<notin> rbFaulty sys" "rbProposals g \<subseteq> P'"
    and "rbNodeInv sys (echoed (rbSend p st' outs g)) (inited (rbSend p st' outs g)) P' p st'"
  shows "rbInv sys ((rbSend p st' outs g)\<lparr>rbProposals := P'\<rparr>)"
proof -
  have "rbNodeInv sys (echoed (rbSend p st' outs g)) (inited (rbSend p st' outs g)) P' q (rbNodes (rbSend p st' outs g) q)"
    if q: "q \<notin> rbFaulty sys" for q
  proof (cases "q = p")
    case False
    then show ?thesis using assms(1,3) q by (auto simp: rbInv_def rbSend_def intro: rbNodeInv_mono)
  qed (use assms(4) in \<open>simp add: rbSend_def\<close>)
  then show ?thesis by (simp add: rbInv_def rbSend_def)
qed

section \<open>Preservation by the operations\<close>

text \<open>What the item operations after the echo leave alone.\<close>

definition rbKeeps :: "('p, 'v, 'h, 'z) RbBcast1_scheme \<Rightarrow> ('p, 'v, 'h, 'z) RbBcast1_scheme \<Rightarrow> bool" where
  "rbKeeps sc sc' \<longleftrightarrow> validatedInitHashes sc' = validatedInitHashes sc \<and> sentEcho sc' = sentEcho sc \<and> decisionHashBytes sc' = decisionHashBytes sc \<and>
     decisionInitMsg sc' = decisionInitMsg sc \<and> decisionPub sc' = decisionPub sc \<and> rbGotProposal sc' = rbGotProposal sc \<and>
     RbBcast1.more sc' = RbBcast1.more sc"

definition quiet :: "('v, 'h) rb_out list \<Rightarrow> bool" where
  "quiet outs \<longleftrightarrow> (\<forall>h. BcastEcho h \<notin> set outs) \<and> (\<forall>v. BcastInit v \<notin> set outs) \<and> (\<forall>c. BcastCommit c \<notin> set outs)"

lemma rbNodeInv_keeps: "rbNodeInv sys E I P p (sc, ms) \<Longrightarrow> rbKeeps sc sc' \<Longrightarrow> rbNodeInv sys E I P p (sc', ms)"
  by (simp add: rbNodeInv_def itemInv_def rbKeeps_def)

lemma sendRecoverLoop_quiet: "sendRecoverLoop l req outs = (req', outs') \<Longrightarrow> quiet outs \<Longrightarrow> quiet outs'"
  by (induction l req outs rule: sendRecoverLoop.induct) (auto simp: quiet_def split: option.splits)

lemma recover_keeps:
  "SendRecover sc = (sc', outs) \<Longrightarrow> rbKeeps sc sc' \<and> quiet outs"
  "GotRequestRecover h c sc = (sc', outs) \<Longrightarrow> rbKeeps sc sc' \<and> quiet outs"
  "BroadcastRequestRecover sc = (sc', outs) \<Longrightarrow> rbKeeps sc sc' \<and> quiet outs"
  "StartRecoverTimeout sc = (sc', outs) \<Longrightarrow> rbKeeps sc sc' \<and> quiet outs"
proof -
  have s: "rbKeeps x sc' \<and> quiet outs" if "SendRecover x = (sc', outs)" for x :: "('a, 'b, 'c, 'd) RbBcast1_scheme" and sc' outs
    using that sendRecoverLoop_quiet [of "validatedInitHashes x" "requestedRecover x" "[]"]
    by (auto simp: SendRecover_def rbKeeps_def quiet_def split: prod.splits)
  then show "SendRecover sc = (sc', outs) \<Longrightarrow> rbKeeps sc sc' \<and> quiet outs" .
  show "GotRequestRecover h c sc = (sc', outs) \<Longrightarrow> rbKeeps sc sc' \<and> quiet outs"
    using s by (fastforce simp: GotRequestRecover_def Let_def rbKeeps_def)
  show "BroadcastRequestRecover sc = (sc', outs) \<Longrightarrow> rbKeeps sc sc' \<and> quiet outs"
    "StartRecoverTimeout sc = (sc', outs) \<Longrightarrow> rbKeeps sc sc' \<and> quiet outs"
    by (auto simp: BroadcastRequestRecover_def StartRecoverTimeout_def rbKeeps_def quiet_def split: if_splits)
qed

lemma echoStep_signs:
  assumes item: "itemInv sys I supp sc" and sign: "signInv sys E I P p (sentEcho sc) (rbGotProposal sc)" and e: "echoStep k sc = (sc', outs)"
  shows "signInv sys (E \<union> {(p, h) | h. BcastEcho h \<in> set outs}) I P p (sentEcho sc') (rbGotProposal sc')" "itemInv sys I supp sc'"
    "\<And>v. BcastInit v \<notin> set outs" "\<And>c. BcastCommit c \<notin> set outs" "RbBcast1.more sc' = RbBcast1.more sc"
    "decisionHashBytes sc' = decisionHashBytes sc" "validatedInitHashes sc' = validatedInitHashes sc" "decisionInitMsg sc' = decisionInitMsg sc"
proof -
  show "\<And>v. BcastInit v \<notin> set outs" "\<And>c. BcastCommit c \<notin> set outs" "RbBcast1.more sc' = RbBcast1.more sc"
    "decisionHashBytes sc' = decisionHashBytes sc" "validatedInitHashes sc' = validatedInitHashes sc" "decisionInitMsg sc' = decisionInitMsg sc"
    using e by (auto simp: echoStep_def Let_def split: if_splits)
  show "itemInv sys I supp sc'" using item e by (auto simp: itemInv_def echoStep_def Let_def split: if_splits)
  show "signInv sys (E \<union> {(p, h) | h. BcastEcho h \<in> set outs}) I P p (sentEcho sc') (rbGotProposal sc')"
  proof (cases "sentEcho sc \<or> validatedInitHashes sc = []")
    case True
    then show ?thesis using e sign by (simp add: echoStep_def)
  next
    case False
    let ?x = "validatedInitHashes sc ! (k mod length (validatedInitHashes sc))"
    have "?x \<in> set (validatedInitHashes sc)" using False by simp
    then obtain h pub v where x: "?x = (h, pub, v)" "h = rbHash sys v" "rbCoord sys pub" "(pub, v) \<in> I"
      using item by (fastforce simp: itemInv_def)
    have no: "(p, h') \<notin> E" for h' using sign False by (auto simp: signInv_def)
    have "sc' = sc\<lparr>sentEcho := True\<rparr>" "outs = [BcastEcho h]" using e False x by (simp_all add: echoStep_def Let_def)
    then have "{(p, h) | h. BcastEcho h \<in> set outs} = {(p, h)}" "sentEcho sc'" "rbGotProposal sc' = rbGotProposal sc" by auto
    moreover have "signInv sys (E \<union> {(p, h)}) I P p True (rbGotProposal sc)"
      using sign no x(2-4) unfolding signInv_def by blast
    ultimately show ?thesis by simp
  qed
qed

lemma echoStep_inv:
  assumes inv: "rbNodeInv sys E I P p (sc, ms)" and e: "echoStep k sc = (sc', outs)"
  shows "rbNodeInv sys (E \<union> {(p, h) | h. BcastEcho h \<in> set outs}) I P p (sc', ms)"
proof -
  have i: "itemInv sys I (supportedEchoHash ms) sc" "signInv sys E I P p (sentEcho sc) (rbGotProposal sc)" "storeInv sys E ms"
    using inv by (simp_all add: rbNodeInv_def)
  moreover have "storeInv sys (E \<union> {(p, h) | h. BcastEcho h \<in> set outs}) ms" using i(3) by (auto simp: storeInv_def)
  ultimately show ?thesis using echoStep_signs(1,2) [OF i(1,2) e] by (simp add: rbNodeInv_def)
qed

lemma checkProgress_inv:
  assumes inv: "rbNodeInv sys E I P p (sc, ms)" and c: "checkProgress k (sc, ms) = Inr (st', outs)"
  shows "rbNodeInv sys (E \<union> {(p, h) | h. BcastEcho h \<in> set outs}) I P p st'" "\<And>v. BcastInit v \<notin> set outs"
proof -
  obtain sc1 outs1 where e: "echoStep k sc = (sc1, outs1)" by (cases "echoStep k sc")
  have i: "itemInv sys I (supportedEchoHash ms) sc" "signInv sys E I P p (sentEcho sc) (rbGotProposal sc)" using inv by (simp_all add: rbNodeInv_def)
  note e1 = echoStep_inv [OF inv e] echoStep_signs(3) [OF i e] echoStep_signs(6,7,8) [OF i e]
  let ?E = "E \<union> {(p, h) | h. BcastEcho h \<in> set outs1}"
  have "rbNodeInv sys (E \<union> {(p, h) | h. BcastEcho h \<in> set outs}) I P p st' \<and> (\<forall>v. BcastInit v \<notin> set outs)"
  proof (cases "rbHasDecided sc \<or> supportedEchoHash ms = None")
    case True
    then show ?thesis using c e e1(1,2) inv by (auto simp: checkProgress_def split: if_splits)
  next
    case False
    then obtain ch where ch: "supportedEchoHash ms = Some ch" "\<not> rbHasDecided sc" by auto
    let ?sc2 = "if decisionHashBytes sc1 = None then sc1\<lparr>decisionHashBytes := Some ch\<rparr> else sc1"
    have d: "decisionHashBytes sc1 = None \<or> decisionHashBytes sc1 = Some ch"
      using c e ch by (auto simp: checkProgress_def split: if_splits)
    have nd: "decisionInitMsg sc1 = None" using ch(2) e1(5) by (simp add: rbHasDecided_def)
    have i2: "rbNodeInv sys ?E I P p (?sc2, ms)" using e1(1) ch(1) nd by (auto simp: rbNodeInv_def itemInv_def)
    show ?thesis
    proof (cases "map_of (validatedInitHashes ?sc2) ch")
      case None
      obtain sc3 outs' where t: "StartRecoverTimeout ?sc2 = (sc3, outs')" by (cases "StartRecoverTimeout ?sc2")
      then have "st' = (sc3, ms)" "outs = outs1 @ outs'"
        using c e ch d None by (auto simp: checkProgress_def Let_def split: if_splits)
      moreover have "rbKeeps ?sc2 sc3" "quiet outs'" using recover_keeps(4) [OF t] by simp_all
      moreover from this have "{(p, h) | h. BcastEcho h \<in> set (outs1 @ outs')} = {(p, h) | h. BcastEcho h \<in> set outs1}"
        by (auto simp: quiet_def)
      ultimately show ?thesis using rbNodeInv_keeps [OF i2] e1(2) by (auto simp: quiet_def)
    next
      case (Some pv)
      obtain pub v where pv: "pv = (pub, v)" by (cases pv)
      have m: "(ch, pub, v) \<in> set (validatedInitHashes sc1)" using map_of_SomeD [OF Some] pv by (auto split: if_splits)
      let ?sc3 = "?sc2\<lparr>decisionInitMsg := Some v, decisionPub := Some pub, rbDecided := True\<rparr>"
      have r: "st' = (?sc3, ms)" "outs = outs1" using c e ch d Some pv by (auto simp: checkProgress_def Let_def split: if_splits)
      have "ch = rbHash sys v" "rbCoord sys pub" "(pub, v) \<in> I" using e1(1) m by (fastforce simp: rbNodeInv_def itemInv_def)+
      then have "rbNodeInv sys ?E I P p (?sc3, ms)" using i2 d by (auto simp: rbNodeInv_def itemInv_def)
      then show ?thesis using r e1(2) by simp
    qed
  qed
  then show "rbNodeInv sys (E \<union> {(p, h) | h. BcastEcho h \<in> set outs}) I P p st'" "\<And>v. BcastInit v \<notin> set outs" by blast+
qed

lemma set_AList_update: "set (AList.update k v l) \<subseteq> insert (k, v) (set l)"
  by (induction l) auto

lemma ProcessInit_inv:
  assumes inv: "rbNodeInv sys E I P p (sc, ms)" and wf: "wf_rb sys" and i: "(pub, v) \<in> I"
    and c: "ProcessInit (rbConfigs sys q) k r pub v (sc, ms) = Inr (st', outs)"
  shows "rbNodeInv sys (E \<union> {(p, h) | h. BcastEcho h \<in> set outs}) I P p st'" "\<And>v. BcastInit v \<notin> set outs"
proof -
  let ?l = "AList.update (rbHash sys v) (pub, v) (validatedInitHashes sc)"
  let ?sc1 = "sc\<lparr>validatedInitHashes := ?l\<rparr>"
  have cfg: "isCoord (rbConfigs sys q) = rbCoord sys" "GetHash (rbConfigs sys q) = rbHash sys" using wf by (simp_all add: wf_rb_def)
  have co: "rbCoord sys pub" "r = 0" using c cfg by (auto simp: ProcessInit_def Let_def split: if_splits)
  obtain sc2 ms2 o1 where cp: "checkProgress k (?sc1, ms) = Inr ((sc2, ms2), o1)"
    using c cfg co by (auto simp: ProcessInit_def Let_def bind_res_Inr_iff)
  obtain sc3 o2 where sr: "SendRecover sc2 = (sc3, o2)" by (cases "SendRecover sc2")
  have c2: "st' = (sc3, ms2)" "outs = o1 @ o2" using c cfg co cp sr by (simp_all add: ProcessInit_def Let_def)
  have "set ?l \<subseteq> insert (rbHash sys v, pub, v) (set (validatedInitHashes sc))"
    by (rule set_AList_update)
  moreover have "\<forall>(h, pub, v) \<in> set (validatedInitHashes sc). h = rbHash sys v \<and> rbCoord sys pub \<and> (pub, v) \<in> I"
    using inv by (simp add: rbNodeInv_def itemInv_def)
  ultimately have "\<forall>(h, pub, v) \<in> set ?l. h = rbHash sys v \<and> rbCoord sys pub \<and> (pub, v) \<in> I" using i co by fast
  then have "rbNodeInv sys E I P p (?sc1, ms)" using inv by (simp add: rbNodeInv_def itemInv_def)
  note p = checkProgress_inv [OF this cp]
  have r: "rbKeeps sc2 sc3" "quiet o2" using recover_keeps(1) [OF sr] by simp_all
  then have eq: "{(p, h) | h. BcastEcho h \<in> set outs} = {(p, h) | h. BcastEcho h \<in> set o1}" using c2(2) by (auto simp: quiet_def)
  show "rbNodeInv sys (E \<union> {(p, h) | h. BcastEcho h \<in> set outs}) I P p st'"
    unfolding eq using rbNodeInv_keeps [OF p(1) r(1)] c2(1) by simp
  show "\<And>v. BcastInit v \<notin> set outs" using p(2) r(2) c2(2) by (auto simp: quiet_def)
qed

lemma rbNodeInv_store:
  assumes "rbNodeInv sys E I P p (sc, ms)" "wf_rbms (rbNmt sys) ms'"
    and "\<And>h. signers (rbSms ms') (MvEcho 0 h) \<subseteq> {q \<in> rbMembers sys. (q, h) \<in> E}"
    and "supportedEchoHash ms = None \<or> supportedEchoHash ms' = supportedEchoHash ms"
  shows "rbNodeInv sys E I P p (sc, ms')"
  using assms by (auto simp: rbNodeInv_def storeInv_def itemInv_def)

lemma rbNodeInv_quiet:
  "rbNodeInv sys E I P p st \<Longrightarrow> quiet outs \<Longrightarrow>
   rbNodeInv sys (E \<union> {(p, h) | h. BcastEcho h \<in> set outs}) (I \<union> {(p, v) | v. BcastInit v \<in> set outs}) P p st"
  by (simp add: quiet_def)

lemma signInv_propose:
  assumes "signInv sys E I P p s False"
  shows "signInv sys E (I \<union> {(p, v)}) (insert (p, v) P) p s True"
proof -
  have "(p, v') \<notin> I" for v' using assms by (simp add: signInv_def)
  then show ?thesis using assms unfolding signInv_def by blast
qed

lemma rbInv_step:
  assumes step: "rb_step sys g g'" and wf: "wf_rb sys" and inv: "rbInv sys g"
  shows "rbInv sys g'"
proof -
  have node: "rbNodeInv sys (echoed g) (inited g) (rbProposals g) p (rbNodes g p)" if "p \<notin> rbFaulty sys" for p
    using inv that by (simp add: rbInv_def)
  have send: "rbInv sys (rbSend p st' outs g)" if p: "p \<notin> rbFaulty sys"
    and i: "rbNodeInv sys (echoed g \<union> {(p, h) | h. BcastEcho h \<in> set outs}) (inited g \<union> {(p, v) | v. BcastInit v \<in> set outs}) (rbProposals g) p st'"
    for p st' outs
    using rbInv_send [OF inv p, of "rbProposals g" st' outs] i by (simp add: rbSend_def)
  have cfg: "rbNmt sys = rbMemberCount (rbConfigs sys p) - rbFaultCount (rbConfigs sys p)" for p using wf by (simp add: wf_rb_def rbNmt_def)
  from step show ?thesis
  proof cases
    case (start p sc ms)
    then have "rbKeeps sc (rbStart (rbConfigs sys p) sc)" by (simp add: rbKeeps_def rbStart_def Let_def)
    from rbNodeInv_keeps [OF _ this] show ?thesis using start node [of p] by (auto intro!: send)
  next
    case (propose p sc ms v sc' outs)
    have r: "outs = [BcastInit v]" "sc' = sc\<lparr>rbGotProposal := True, myProposal := Some v\<rparr>" "\<not> rbGotProposal sc"
      using propose(4) by (auto simp: rbItemGotProposal_def split: if_splits)
    have n: "storeInv sys (echoed g) ms" "itemInv sys (inited g) (supportedEchoHash ms) sc"
      "signInv sys (echoed g) (inited g) (rbProposals g) p (sentEcho sc) False"
      using node [OF propose(2)] propose(3) r(3) by (simp_all add: rbNodeInv_def)
    have "itemInv sys (inited g \<union> {(p, v)}) (supportedEchoHash ms) sc'" using n(2) r(2) unfolding itemInv_def by auto
    moreover have "signInv sys (echoed g) (inited g \<union> {(p, v)}) (insert (p, v) (rbProposals g)) p (sentEcho sc') True"
      using signInv_propose [OF n(3)] r(2) by simp
    ultimately have "rbNodeInv sys (echoed (rbSend p (sc', ms) outs g)) (inited (rbSend p (sc', ms) outs g)) (insert (p, v) (rbProposals g)) p (sc', ms)"
      using n(1) r by (simp add: rbNodeInv_def rbSend_def)
    then show ?thesis using propose(1,2) inv by (auto intro!: rbInv_send)
  next
    case (init p sc ms sigs chk r v ms' pub k st' outs)
    have i: "rbNodeInv sys (echoed g) (inited g) (rbProposals g) p (sc, ms)" using node [of p] init by simp
    note gi = GotInit_spec [OF init(6) _ init(4), of "rbNmt sys"]
    have "wf_rbms (rbNmt sys) ms" "\<And>h. signers (rbSms ms) (MvEcho 0 h) \<subseteq> {q \<in> rbMembers sys. (q, h) \<in> echoed g}"
      using i by (simp_all add: rbNodeInv_def storeInv_def)
    then have i': "rbNodeInv sys (echoed g) (inited g) (rbProposals g) p (sc, ms')" using rbNodeInv_store [OF i] gi(1-3) by simp
    have "(pub, v) \<in> inited g" using gi(4) i init(5) by (fastforce simp: rbNodeInv_def storeInv_def)
    from ProcessInit_inv [OF i' wf this init(7)] show ?thesis using init(1,2) by (auto intro!: send)
  next
    case (init_reject p sc ms sigs chk r v ms' e)
    have i: "rbNodeInv sys (echoed g) (inited g) (rbProposals g) p (sc, ms)" using node [of p] init_reject by simp
    note gi = GotInit_spec [OF init_reject(5) _ init_reject(4), of "rbNmt sys"]
    have "wf_rbms (rbNmt sys) ms" "\<And>h. signers (rbSms ms) (MvEcho 0 h) \<subseteq> {q \<in> rbMembers sys. (q, h) \<in> echoed g}"
      using i by (simp_all add: rbNodeInv_def storeInv_def)
    then have "rbNodeInv sys (echoed g) (inited g) (rbProposals g) p (sc, ms')" using rbNodeInv_store [OF i] gi(1-3) by simp
    then show ?thesis using init_reject(1,2) by (auto intro!: send)
  next
    case (echo p sc ms sigs chk r h ms' res)
    have i: "rbNodeInv sys (echoed g) (inited g) (rbProposals g) p (sc, ms)" using node [of p] echo by simp
    then have w: "wf_rbms (rbNmt sys) ms" "\<And>h. signers (rbSms ms) (MvEcho 0 h) \<subseteq> {q \<in> rbMembers sys. (q, h) \<in> echoed g}"
      by (simp_all add: rbNodeInv_def storeInv_def)
    note ge = GotEcho_spec [OF echo(6) w(1) echo(4) cfg]
    have "signers (rbSms ms') (MvEcho 0 h') \<subseteq> {q \<in> rbMembers sys. (q, h') \<in> echoed g}" for h'
      using ge(1) [of h'] w(2) [of h'] echo(5) by (fastforce split: if_splits)
    then have "rbNodeInv sys (echoed g) (inited g) (rbProposals g) p (sc, ms')" using rbNodeInv_store [OF i ge(2)] ge(3) by blast
    then show ?thesis using echo(1,2) by (auto intro!: send)
  next
    case (progress p k st' outs)
    obtain sc ms where st: "rbNodes g p = (sc, ms)" by (cases "rbNodes g p")
    have "checkProgress k (sc, ms) = Inr (st', outs)" using progress(3) st by (simp add: ProcessEcho_def)
    from checkProgress_inv [OF _ this] show ?thesis using progress(1,2) node [of p] st by (auto intro!: send)
  next
    case (timeout p st' outs)
    obtain sc ms where st: "rbNodes g p = (sc, ms)" by (cases "rbNodes g p")
    obtain sc1 o1 where b: "BroadcastRequestRecover sc = (sc1, o1)" by (cases "BroadcastRequestRecover sc")
    have "(st' = (sc1, ms) \<and> outs = o1) \<or> (st' = (sc, ms) \<and> outs = [])"
      using timeout(3) st b by (auto simp: ProcessRecoverTimeout_def split: if_splits)
    moreover have "rbNodeInv sys (echoed g) (inited g) (rbProposals g) p (sc, ms)" using node [OF timeout(2)] st by simp
    moreover from this have "rbNodeInv sys (echoed g) (inited g) (rbProposals g) p (sc1, ms)" "quiet o1"
      using rbNodeInv_keeps [of sys "echoed g" "inited g" "rbProposals g" p sc ms sc1] recover_keeps(3) [OF b] by simp_all
    ultimately have "rbNodeInv sys (echoed g) (inited g) (rbProposals g) p st'" "quiet outs" by (auto simp: quiet_def)
    then show ?thesis unfolding timeout(1) by (intro send [OF timeout(2)] rbNodeInv_quiet)
  next
    case (request p h c st' outs)
    obtain sc ms where st: "rbNodes g p = (sc, ms)" by (cases "rbNodes g p")
    obtain sc1 where b: "GotRequestRecover h c sc = (sc1, outs)" "st' = (sc1, ms)"
      using request(3) st by (auto simp: ProcessRequestRecover_def split: prod.splits)
    then have "rbNodeInv sys (echoed g) (inited g) (rbProposals g) p st'" "quiet outs"
      using rbNodeInv_keeps node [OF request(2)] recover_keeps(2) [OF b(1)] st by auto
    then show ?thesis unfolding request(1) by (intro send [OF request(2)] rbNodeInv_quiet)
  next
    case (byz_echo p h)
    then show ?thesis using node by (auto simp: rbInv_def intro: rbNodeInv_mono)
  next
    case (byz_init p v)
    then show ?thesis using node by (auto simp: rbInv_def intro: rbNodeInv_mono)
  qed
qed

lemma rbInv_reachable: "rb_reachable sys g \<Longrightarrow> wf_rb sys \<Longrightarrow> rbInv sys g"
proof (induction rule: rb_reachable.induct)
  case init
  then show ?case by (simp add: rbInv_def rbInit_def)
next
  case (step g g')
  then show ?case using rbInv_step by blast
qed

section \<open>Agreement on the supported hash\<close>

lemma echo_quorums_agree:
  assumes wf: "wf_rb sys" and inv: "rbInv sys g"
    and S: "S \<subseteq> {q \<in> rbMembers sys. (q, h) \<in> echoed g}" "rbNmt sys \<le> int (card S)"
    and T: "T \<subseteq> {q \<in> rbMembers sys. (q, h') \<in> echoed g}" "rbNmt sys \<le> int (card T)"
  shows "h = h'"
proof -
  have "S \<subseteq> rbMembers sys" "T \<subseteq> rbMembers sys" using S(1) T(1) by blast+
  then obtain q where q: "q \<in> S" "q \<in> T" "q \<notin> rbFaulty sys"
    using one_third.quorum_intersect [of "rbMembers sys" S T "rbFaulty sys"] wf S(2) T(2)
    by (auto simp: wf_rb_def rbNmt_def rbT_def)
  then have "(q, h) \<in> echoed g" "(q, h') \<in> echoed g" using S(1) T(1) by auto
  moreover have "rbNodeInv sys (echoed g) (inited g) (rbProposals g) q (rbNodes g q)"
    using inv q(3) by (simp add: rbInv_def)
  ultimately show ?thesis unfolding rbNodeInv_def signInv_def by blast
qed

text \<open>The signatures behind a supported hash.\<close>

lemma supported_quorum:
  assumes "rbInv sys g" "p \<notin> rbFaulty sys" "supportedEchoHash (snd (rbNodes g p)) = Some h"
  shows "signers (rbSms (snd (rbNodes g p))) (MvEcho 0 h) \<subseteq> {q \<in> rbMembers sys. (q, h) \<in> echoed g}"
    "rbNmt sys \<le> int (card (signers (rbSms (snd (rbNodes g p))) (MvEcho 0 h)))"
proof -
  obtain sc ms where st: "rbNodes g p = (sc, ms)" by (cases "rbNodes g p")
  have "storeInv sys (echoed g) ms" using assms(1,2) st by (auto simp: rbInv_def rbNodeInv_def)
  then show "signers (rbSms (snd (rbNodes g p))) (MvEcho 0 h) \<subseteq> {q \<in> rbMembers sys. (q, h) \<in> echoed g}"
    "rbNmt sys \<le> int (card (signers (rbSms (snd (rbNodes g p))) (MvEcho 0 h)))"
    using assms(3) st by (simp_all add: storeInv_def wf_rbms_def)
qed

lemma decided_supported:
  assumes "rbInv sys g" "p \<notin> rbFaulty sys" "rbGetDecision cfg (fst (rbNodes g p)) = Inr (pub, v)"
  shows "supportedEchoHash (snd (rbNodes g p)) = Some (rbHash sys v)"
    "\<exists>c. pub = Some c \<and> rbCoord sys c \<and> (c, v) \<in> inited g"
proof -
  obtain sc ms where st: "rbNodes g p = (sc, ms)" by (cases "rbNodes g p")
  have i: "itemInv sys (inited g) (supportedEchoHash ms) sc" using assms(1,2) st by (auto simp: rbInv_def rbNodeInv_def)
  moreover have d: "decisionInitMsg sc = Some v" "decisionPub sc = pub"
    using assms(3) st by (auto simp: rbGetDecision_def split: option.splits if_splits)
  ultimately show "supportedEchoHash (snd (rbNodes g p)) = Some (rbHash sys v)"
    "\<exists>c. pub = Some c \<and> rbCoord sys c \<and> (c, v) \<in> inited g" using st by (auto simp: itemInv_def)
qed

lemma storeMsg_loop_out: "storeMsg_loop h sis sms c item acc = Inr (sms', c', item', out) \<Longrightarrow> length out \<le> length acc + length sis"
proof (induction h sis sms c item acc rule: storeMsg_loop.induct)
  case (2 h si sis sms c item acc)
  then show ?case by (fastforce simp: Let_def bind_res_Inr_iff split: if_splits)
qed simp

lemma GotSignedMsg_length:
  assumes "GotSignedMsg chk sms sm = (sms', sm', Inr x)"
  shows "sm_sigs sm' \<noteq> []" "length (sm_sigs sm') \<le> length (sm_sigs sm)"
proof -
  have "length (sm_sigs b) \<le> length (sm_sigs sm)" if "gotMsg sms sm = (a, b, Inr ())" for a b
    using that by (auto simp: gotMsg_def Let_def split: sum.splits if_splits)
  moreover have "sm_sigs sm' \<noteq> [] \<and> length (sm_sigs sm') \<le> length (sm_sigs y)" if "storeMsg a y = (sms', sm', Inr x)" for a y
    using that by (fastforce simp: storeMsg_def Let_def split: sum.splits if_splits dest!: storeMsg_loop_out)
  moreover obtain a b where g: "gotMsg sms sm = (a, b, Inr ())" "storeMsg a (b\<lparr>sm_sigs := filter chk (sm_sigs b)\<rparr>) = (sms', sm', Inr x)"
    using assms by (auto simp: GotSignedMsg_def split: prod.splits sum.splits)
  ultimately have "sm_sigs sm' \<noteq> []" "length (sm_sigs sm') \<le> length (filter chk (sm_sigs b))" "length (sm_sigs b) \<le> length (sm_sigs sm)"
    by force+
  then show "sm_sigs sm' \<noteq> []" "length (sm_sigs sm') \<le> length (sm_sigs sm)"
    using length_filter_le [of chk "sm_sigs b"] by linarith+
qed

lemma GotInit_no_panic:
  assumes "GotInit chk cfg r v sigs ms = (ms', res)" "wf_rbms nmt ms" "plain_sigs sigs"
  shows "\<not> panics res"
proof -
  let ?sm = "\<lparr>sm_hash = MvInit r v, sm_msgid = InitID r, sm_sigs = sigs\<rparr>"
  obtain sms' sm' rr where g: "GotSignedMsg chk (rbSms ms) ?sm = (sms', sm', rr)" by (metis prod_cases3)
  have pre: "wf_sms (rbSms ms)" "plain_sms (rbSms ms)" "plain_sigs (sm_sigs ?sm)" "unsignedMsgMap (rbSms ms) (sm_hash ?sm) = None"
    using assms(2,3) by (simp_all add: wf_rbms_def)
  have "length (sm_sigs sm') = 1" if "rr = Inr x" "length sigs = 1" for x
    using GotSignedMsg_length [of chk "rbSms ms" ?sm sms' sm' x] g that by (cases "sm_sigs sm'") auto
  then show ?thesis using assms(1) g GotSignedMsg_spec(8) [OF g pre]
    by (auto simp: GotInit_def Let_def panics_def split: sum.splits if_splits go_error.splits)
qed

text \<open>A message that reaches the item does not make it panic.\<close>

lemma checkProgress_ok:
  assumes "\<And>h. decisionHashBytes sc = Some h \<Longrightarrow> supportedEchoHash ms = Some h"
  shows "\<exists>res. checkProgress k (sc, ms) = Inr res"
proof -
  obtain sc1 o1 where e: "echoStep k sc = (sc1, o1)" by (cases "echoStep k sc")
  then have "decisionHashBytes sc1 = decisionHashBytes sc" by (auto simp: echoStep_def Let_def split: if_splits)
  then show ?thesis using assms e
    by (auto simp: checkProgress_def Let_def StartRecoverTimeout_def split: option.splits)
qed

lemma Process_ok:
  assumes "wf_rb sys" "rbInv sys g" "p \<notin> rbFaulty sys" "rbNodes g p = (sc, ms)" "supportedEchoHash ms' = supportedEchoHash ms"
  shows "\<exists>res. ProcessEcho k 0 (sc, ms') = Inr res" "rbCoord sys pub \<Longrightarrow> \<exists>res. ProcessInit (rbConfigs sys p) k 0 pub v (sc, ms') = Inr res"
proof -
  have i: "\<And>h. decisionHashBytes sc = Some h \<Longrightarrow> supportedEchoHash ms' = Some h"
    using assms(2-5) by (auto simp: rbInv_def rbNodeInv_def itemInv_def)
  show "\<exists>res. ProcessEcho k 0 (sc, ms') = Inr res" using checkProgress_ok [of sc ms' k] i by (simp add: ProcessEcho_def)
  let ?sc1 = "sc\<lparr>validatedInitHashes := AList.update (rbHash sys v) (pub, v) (validatedInitHashes sc)\<rparr>"
  obtain sc2 ms2 o2 where "checkProgress k (?sc1, ms') = Inr ((sc2, ms2), o2)"
    using checkProgress_ok [of ?sc1 ms' k] i by auto
  then show "\<exists>res. ProcessInit (rbConfigs sys p) k 0 pub v (sc, ms') = Inr res" if "rbCoord sys pub"
    using that assms(1) by (auto simp: ProcessInit_def Let_def wf_rb_def split: prod.splits)
qed

section \<open>Executable runs\<close>

text \<open>Runs as lists of actions; an action that is not possible leaves the state as it is.\<close>

datatype ('p, 'v, 'h) rb_action =
    RbStart 'p | RbPropose 'p 'v | RbRecvInit 'p 'v "'p sig_item list" | RbRecvEcho 'p 'h "'p sig_item list"
  | RbProgress 'p | RbByzEcho 'p 'h | RbByzInit 'p 'v

fun rbExec :: "('p, 'v, 'h) rb_system \<Rightarrow> ('p, 'v, 'h) rb_action \<Rightarrow> ('p, 'v, 'h) rb_global \<Rightarrow> ('p, 'v, 'h) rb_global" where
  "rbExec sys (RbStart p) g =
     (if p \<in> rbFaulty sys then g else rbSend p (rbStart (rbConfigs sys p) (fst (rbNodes g p)), snd (rbNodes g p)) [] g)"
| "rbExec sys (RbPropose p v) g =
     (if p \<in> rbFaulty sys then g
      else (case rbItemGotProposal (rbConfigs sys p) v (fst (rbNodes g p)) of
              Inl e \<Rightarrow> g
            | Inr (sc', outs) \<Rightarrow> (rbSend p (sc', snd (rbNodes g p)) outs g)\<lparr>rbProposals := insert (p, v) (rbProposals g)\<rparr>))"
| "rbExec sys (RbRecvInit p v sigs) g =
     (if p \<in> rbFaulty sys \<or> \<not> plain_sigs sigs then g
      else (case GotInit (\<lambda>si. (si_pub si, v) \<in> inited g) (rbConfigs sys p) 0 v sigs (snd (rbNodes g p)) of
              (ms', Inl e) \<Rightarrow> rbSend p (fst (rbNodes g p), ms') [] g
            | (ms', Inr pub) \<Rightarrow> (case ProcessInit (rbConfigs sys p) 0 0 pub v (fst (rbNodes g p), ms') of
                                   Inl e \<Rightarrow> g | Inr (st', outs) \<Rightarrow> rbSend p st' outs g)))"
| "rbExec sys (RbRecvEcho p h sigs) g =
     (if p \<in> rbFaulty sys \<or> \<not> plain_sigs sigs then g
      else rbSend p (fst (rbNodes g p),
             fst (GotEcho (\<lambda>si. si_pub si \<in> rbMembers sys \<and> (si_pub si, h) \<in> echoed g) (rbConfigs sys p) 0 h sigs (snd (rbNodes g p)))) [] g)"
| "rbExec sys (RbProgress p) g =
     (if p \<in> rbFaulty sys then g
      else (case ProcessEcho 0 0 (rbNodes g p) of Inl e \<Rightarrow> g | Inr (st', outs) \<Rightarrow> rbSend p st' outs g))"
| "rbExec sys (RbByzEcho p h) g = (if p \<in> rbFaulty sys then g\<lparr>echoed := insert (p, h) (echoed g)\<rparr> else g)"
| "rbExec sys (RbByzInit p v) g = (if p \<in> rbFaulty sys then g\<lparr>inited := insert (p, v) (inited g)\<rparr> else g)"

lemma rbExec_step: "rbExec sys a g = g \<or> rb_step sys g (rbExec sys a g)"
proof (cases a)
  case (RbRecvInit p v sigs)
  let ?chk = "\<lambda>si. (si_pub si, v) \<in> inited g" and ?sc = "fst (rbNodes g p)" and ?ms = "snd (rbNodes g p)"
  obtain ms' res where gi: "GotInit ?chk (rbConfigs sys p) 0 v sigs ?ms = (ms', res)"
    by (cases "GotInit ?chk (rbConfigs sys p) 0 v sigs ?ms")
  show ?thesis
  proof (cases res)
    case (Inl e)
    then show ?thesis using RbRecvInit gi rb_step.init_reject [of p sys g ?sc ?ms sigs ?chk 0 v ms' e] by simp
  next
    case (Inr pub)
    then show ?thesis using RbRecvInit gi rb_step.init [of p sys g ?sc ?ms sigs ?chk 0 v ms' pub 0]
      by (auto split: sum.splits)
  qed
next
  case (RbRecvEcho p h sigs)
  let ?chk = "\<lambda>si. si_pub si \<in> rbMembers sys \<and> (si_pub si, h) \<in> echoed g"
  show ?thesis
    using RbRecvEcho rb_step.echo [of p sys g "fst (rbNodes g p)" "snd (rbNodes g p)" sigs ?chk 0 h
        "fst (GotEcho ?chk (rbConfigs sys p) 0 h sigs (snd (rbNodes g p)))"
        "snd (GotEcho ?chk (rbConfigs sys p) 0 h sigs (snd (rbNodes g p)))"] by simp
next
  case (RbPropose p v)
  then show ?thesis using rb_step.propose [of p sys g "fst (rbNodes g p)" "snd (rbNodes g p)" v] by (auto split: sum.splits)
next
  case (RbProgress p)
  then show ?thesis using rb_step.progress [of p sys 0 g] by (auto split: sum.splits)
qed (auto intro: rb_step.start rb_step.byz_echo rb_step.byz_init)

lemma rbExec_reachable: "rb_reachable sys g \<Longrightarrow> rb_reachable sys (fold (rbExec sys) as g)"
proof (induction as arbitrary: g)
  case (Cons a as)
  have "rb_reachable sys (rbExec sys a g)" using rbExec_step [of sys a g] Cons.prems rb_reachable.step by metis
  then show ?case using Cons.IH by simp
qed simp

text \<open>
  Four members, the last one faulty, process 0 is the coordinator, a proposal is its own hash. The faulty member echoes two
  hashes; processes 0 and 1 deliver the proposal 7.
\<close>

definition rbDemoConfig :: "nat \<Rightarrow> (nat, nat, nat) rb_config" where
  "rbDemoConfig p = \<lparr>rbMemberCount = 4, rbFaultCount = 1, rbMyPub = p, rbMemberLocal = (p < 4), isCoord = \<lambda>q. q = 0,
     GetHash = \<lambda>v. v, emptyProposal = \<lambda>v. v = 0, commitMember = \<lambda>_. True\<rparr>"

definition rbDemo :: "(nat, nat, nat) rb_system" where
  "rbDemo = \<lparr>rbMembers = {0, 1, 2, 3}, rbFaulty = {3}, rbCoord = \<lambda>q. q = 0, rbHash = \<lambda>v. v, rbConfigs = rbDemoConfig\<rparr>"

definition rbDemoSig :: "nat \<Rightarrow> nat sig_item" where
  "rbDemoSig p = \<lparr>si_pub = p, si_members = 1, si_sig = p\<rparr>"

definition rbDemoRun :: "(nat, nat, nat) rb_action list" where
  "rbDemoRun = [RbStart 0, RbPropose 0 7] @ map (\<lambda>p. RbRecvInit p 7 [rbDemoSig 0]) [0, 1] @ [RbByzEcho 3 7, RbByzEcho 3 8] @
     map (\<lambda>p. RbRecvEcho p 7 (map rbDemoSig [0, 1, 3])) [0, 1] @ map RbProgress [0, 1]"

definition rbDemoFinal :: "(nat, nat, nat) rb_global" where
  "rbDemoFinal = fold (rbExec rbDemo) rbDemoRun rbInit"

fun echoesSent :: "('v, 'h) rb_out list \<Rightarrow> 'h list" where
  "echoesSent [] = []"
| "echoesSent (BcastEcho h # outs) = h # echoesSent outs"
| "echoesSent (_ # outs) = echoesSent outs"

fun initsSent :: "('v, 'h) rb_out list \<Rightarrow> 'v list" where
  "initsSent [] = []"
| "initsSent (BcastInit v # outs) = v # initsSent outs"
| "initsSent (_ # outs) = initsSent outs"

lemma rbSend_code [code]:
  "rbSend p st outs g = g\<lparr>rbNodes := (rbNodes g)(p := st), echoed := echoed g \<union> set (map (Pair p) (echoesSent outs)),
     inited := inited g \<union> set (map (Pair p) (initsSent outs))\<rparr>"
proof -
  have "h \<in> set (echoesSent outs) \<longleftrightarrow> BcastEcho h \<in> set outs" for h by (induction outs rule: echoesSent.induct) auto
  moreover have "v \<in> set (initsSent outs) \<longleftrightarrow> BcastInit v \<in> set outs" for v by (induction outs rule: initsSent.induct) auto
  ultimately have "{(p, h) | h. BcastEcho h \<in> set outs} = set (map (Pair p) (echoesSent outs))"
    "{(p, v) | v. BcastInit v \<in> set outs} = set (map (Pair p) (initsSent outs))" by auto
  then show ?thesis by (simp only: rbSend_def)
qed

lemma rbDemo_wf: "wf_rb rbDemo"
  by (simp add: wf_rb_def rbDemo_def rbDemoConfig_def rbT_def GetOneThirdBottom_def)

lemma rbDemo_reachable: "rb_reachable rbDemo rbDemoFinal"
  unfolding rbDemoFinal_def by (rule rbExec_reachable) (rule rb_reachable.init)

lemma rbDemo_decided:
  "map (\<lambda>p. rbGetDecision (rbDemoConfig p) (fst (rbNodes rbDemoFinal p))) [0, 1] = [Inr (Some 0, 7), Inr (Some 0, 7)]"
  by code_simp

lemma rbDemo_correct: "0 \<notin> rbFaulty rbDemo" "1 \<notin> rbFaulty rbDemo" "rbConfigs rbDemo = rbDemoConfig" "inj (rbHash rbDemo)"
  by (simp_all add: rbDemo_def)

section \<open>Main results\<close>

text \<open>
  C5 (agreement). In every reachable state of a system with at most \<open>GetOneThirdBottom n\<close> faulty members, two correct
  processes that delivered a proposal delivered proposals of the same hash, and the same proposal when the hash function is
  injective.
\<close>

theorem rb_agreement:
  assumes "rb_reachable sys g" "wf_rb sys" "p \<notin> rbFaulty sys" "q \<notin> rbFaulty sys"
    and "rbGetDecision (rbConfigs sys p) (fst (rbNodes g p)) = Inr (pub, v)"
    and "rbGetDecision (rbConfigs sys q) (fst (rbNodes g q)) = Inr (pub', v')"
  shows "rbHash sys v = rbHash sys v' \<and> (inj (rbHash sys) \<longrightarrow> v = v')"
proof -
  have inv: "rbInv sys g" using rbInv_reachable [OF assms(1,2)] .
  note d = decided_supported(1) [OF inv assms(3,5)] decided_supported(1) [OF inv assms(4,6)]
  have "rbHash sys v = rbHash sys v'"
    by (rule echo_quorums_agree [OF assms(2) inv supported_quorum [OF inv assms(3) d(1)] supported_quorum [OF inv assms(4) d(2)]])
  then show ?thesis by (auto dest: injD)
qed

theorem rb_agreement_witness:
  "rbGetDecision (rbConfigs rbDemo 0) (fst (rbNodes rbDemoFinal 0)) = Inr (Some 0, 7) \<and>
   rbGetDecision (rbConfigs rbDemo 1) (fst (rbNodes rbDemoFinal 1)) = Inr (Some 0, 7) \<and> rbHash rbDemo 7 = rbHash rbDemo 7"
proof -
  have d: "rbGetDecision (rbConfigs rbDemo 0) (fst (rbNodes rbDemoFinal 0)) = Inr (Some 0, 7)"
    "rbGetDecision (rbConfigs rbDemo 1) (fst (rbNodes rbDemoFinal 1)) = Inr (Some 0, 7)"
    using rbDemo_decided by (simp_all add: rbDemo_correct(3))
  then show ?thesis using rb_agreement [OF rbDemo_reachable rbDemo_wf rbDemo_correct(1,2) d] by simp
qed

text \<open>
  C6 (validity). A delivered proposal was signed in an init message by a coordinator, the one reported with the decision; when
  that coordinator is correct, the proposal is the one its state machine gave it.
\<close>

theorem rb_validity:
  assumes "rb_reachable sys g" "wf_rb sys" "p \<notin> rbFaulty sys"
    and "rbGetDecision (rbConfigs sys p) (fst (rbNodes g p)) = Inr (pub, v)"
  shows "\<exists>c. pub = Some c \<and> rbCoord sys c \<and> (c, v) \<in> inited g \<and> (c \<notin> rbFaulty sys \<longrightarrow> (c, v) \<in> rbProposals g)"
proof -
  have inv: "rbInv sys g" using rbInv_reachable [OF assms(1,2)] .
  then have "\<forall>c. c \<notin> rbFaulty sys \<longrightarrow> (c, v) \<in> inited g \<longrightarrow> (c, v) \<in> rbProposals g"
    unfolding rbInv_def rbNodeInv_def signInv_def by blast
  with decided_supported(2) [OF inv assms(3,4)] show ?thesis by blast
qed

theorem rb_validity_witness:
  "\<exists>c. Some 0 = Some c \<and> rbCoord rbDemo c \<and> (c, 7) \<in> inited rbDemoFinal \<and> (c, 7) \<in> rbProposals rbDemoFinal"
proof -
  have "rbGetDecision (rbConfigs rbDemo 1) (fst (rbNodes rbDemoFinal 1)) = Inr (Some 0, 7)"
    using rbDemo_decided by (simp add: rbDemo_correct(3))
  from rb_validity [OF rbDemo_reachable rbDemo_wf rbDemo_correct(2) this] show ?thesis using rbDemo_correct(1) by simp
qed

text \<open>
  C7 (no panic). At a correct process, in every reachable state, receiving an init message with signatures that its signers made
  (and of which the checks pass any) and an echo of members that made them ends without a call to \<^verbatim>\<open>panic\<close> in the message
  state, and processing what the message state accepted does so too: there are never two hashes to support or to commit.
\<close>

theorem rb_no_panic:
  assumes "rb_reachable sys g" "wf_rb sys" "p \<notin> rbFaulty sys" "rbNodes g p = (sc, ms)" "plain_sigs sigs"
    and "\<forall>si \<in> set sigs. chk si \<longrightarrow> si_pub si \<in> rbMembers sys \<and> (r = 0 \<longrightarrow> (si_pub si, h) \<in> echoed g)"
    and "GotEcho chk (rbConfigs sys p) r h sigs ms = (ms1, res1)" "GotInit chk' (rbConfigs sys p) r' v sigs ms = (ms2, res2)"
  shows "\<not> panics res1 \<and> (\<exists>x. ProcessEcho k 0 (sc, ms) = Inr x) \<and>
    \<not> panics res2 \<and> (\<forall>pub. res2 = Inr pub \<longrightarrow> (\<exists>x. ProcessInit (rbConfigs sys p) k r' pub v (sc, ms2) = Inr x))"
proof -
  have inv: "rbInv sys g" using rbInv_reachable [OF assms(1,2)] .
  then have si: "storeInv sys (echoed g) ms" using assms(3,4) by (auto simp: rbInv_def rbNodeInv_def)
  then have w: "wf_rbms (rbNmt sys) ms" by (simp add: storeInv_def)
  have cfg: "rbNmt sys = rbMemberCount (rbConfigs sys p) - rbFaultCount (rbConfigs sys p)" "isCoord (rbConfigs sys p) = rbCoord sys"
    using assms(2) by (simp_all add: wf_rb_def rbNmt_def)
  note ge = GotEcho_spec [OF assms(7) w assms(5) cfg(1)] and gi = GotInit_spec [OF assms(8) w assms(5)]
  have sub: "signers (rbSms ms1) (MvEcho 0 h') \<subseteq> {q \<in> rbMembers sys. (q, h') \<in> echoed g}" for h'
  proof -
    have "signers (rbSms ms) (MvEcho 0 h') \<subseteq> {q \<in> rbMembers sys. (q, h') \<in> echoed g}" using si by (simp add: storeInv_def)
    then show ?thesis using ge(1) [of h'] assms(6) by (fastforce split: if_splits)
  qed
  have "\<not> panics res1"
  proof
    assume "panics res1"
    then obtain h'' where "rbNmt sys \<le> int (card (signers (rbSms ms1) (MvEcho 0 h)))" "supportedEchoHash ms1 = Some h''" "h'' \<noteq> h"
      using ge(4) by blast
    moreover from this have "rbNmt sys \<le> int (card (signers (rbSms ms1) (MvEcho 0 h'')))" using ge(2) by (simp add: wf_rbms_def)
    ultimately show False using echo_quorums_agree [OF assms(2) inv sub _ sub] by blast
  qed
  moreover have "\<not> panics res2" using GotInit_no_panic [OF assms(8) w assms(5)] .
  moreover have "\<exists>x. ProcessEcho k 0 (sc, ms) = Inr x" using Process_ok(1) [OF assms(2) inv assms(3,4)] by blast
  moreover have "\<exists>x. ProcessInit (rbConfigs sys p) k r' pub v (sc, ms2) = Inr x" if "res2 = Inr pub" for pub
    using Process_ok(2) [OF assms(2) inv assms(3,4) gi(3)] gi(4) [OF that] cfg(2) by simp
  ultimately show ?thesis by blast
qed

theorem rb_no_panic_witness:
  "\<not> panics (snd (GotEcho (\<lambda>_. True) (rbConfigs rbDemo 0) 0 8 [rbDemoSig 3] (snd (rbNodes rbDemoFinal 0)))) \<and>
   \<not> panics (snd (GotInit (\<lambda>_. True) (rbConfigs rbDemo 0) 0 8 [rbDemoSig 3] (snd (rbNodes rbDemoFinal 0))))"
proof -
  have "\<forall>si \<in> set [rbDemoSig 3]. si_pub si \<in> rbMembers rbDemo \<and> ((0::nat) = 0 \<longrightarrow> (si_pub si, 8) \<in> echoed rbDemoFinal)"
    by code_simp
  moreover have "plain_sigs [rbDemoSig 3]" by code_simp
  ultimately show ?thesis
    using rb_no_panic [OF rbDemo_reachable rbDemo_wf rbDemo_correct(1) prod.collapse [symmetric] _ _ prod.collapse [symmetric] prod.collapse [symmetric],
        where sigs = "[rbDemoSig 3]" and chk = "\<lambda>_. True" and r = 0 and h = 8 and chk' = "\<lambda>_. True" and r' = 0 and v = 8] by simp
qed

lemma checkProgress_decided: "rbHasDecided sc \<Longrightarrow> checkProgress k (sc, ms) = Inr ((sc, ms), [])"
  by (simp add: checkProgress_def)

text \<open>
  C8 (integrity). A delivery is final: no step of the system changes the proposal a correct process delivered, nor the
  coordinator it reports.
\<close>

theorem rb_integrity:
  assumes "p \<notin> rbFaulty sys" "rb_step sys g g'" "rbGetDecision cfg (fst (rbNodes g p)) = Inr d"
  shows "rbGetDecision cfg (fst (rbNodes g' p)) = Inr d"
proof -
  have dec: "rbHasDecided (fst (rbNodes g p))"
    using assms(3) by (auto simp: rbGetDecision_def rbHasDecided_def split: option.splits)
  have same: "rbGetDecision cfg sc' = rbGetDecision cfg sc" if "decisionInitMsg sc' = decisionInitMsg sc" "decisionPub sc' = decisionPub sc"
    for sc sc' using that by (simp add: rbGetDecision_def split: option.splits)
  have keeps: "rbGetDecision cfg sc' = rbGetDecision cfg sc" if "rbKeeps sc sc'" for sc sc'
    by (rule same) (use that in \<open>simp_all add: rbKeeps_def\<close>)
  have "rbGetDecision cfg (fst (rbNodes g' p)) = rbGetDecision cfg (fst (rbNodes g p))"
    using assms(2)
  proof cases
    case (start q sc ms)
    then show ?thesis by (auto intro: same simp: rbSend_def rbStart_def Let_def)
  next
    case (propose q sc ms v sc' outs)
    then show ?thesis by (auto intro: same simp: rbSend_def rbItemGotProposal_def split: if_splits)
  next
    case (init q sc ms sigs chk r v ms' pub k st' outs)
    show ?thesis
    proof (cases "q = p")
      case True
      let ?sc1 = "sc\<lparr>validatedInitHashes := AList.update (GetHash (rbConfigs sys q) v) (pub, v) (validatedInitHashes sc)\<rparr>"
      have "rbHasDecided ?sc1" using dec init(3) True by (simp add: rbHasDecided_def)
      then have "SendRecover ?sc1 = (fst st', outs)"
        using init(7) by (auto simp: ProcessInit_def Let_def checkProgress_decided split: if_splits prod.splits)
      then have "rbKeeps ?sc1 (fst st')" using recover_keeps(1) by blast
      then show ?thesis using init(1,3) True by (auto intro: same simp: rbSend_def rbKeeps_def)
    qed (simp add: init(1) rbSend_def)
  next
    case (progress q k st' outs)
    then show ?thesis using dec
      by (cases "rbNodes g q"; cases "q = p") (auto simp: rbSend_def ProcessEcho_def checkProgress_decided)
  next
    case (timeout q st' outs)
    then show ?thesis using dec
      by (cases "rbNodes g q"; cases "q = p") (auto simp: rbSend_def ProcessRecoverTimeout_def rbHasDecided_def dest: sym split: if_splits)
  next
    case (request q h c st' outs)
    obtain sc ms where st: "rbNodes g q = (sc, ms)" by (cases "rbNodes g q")
    then have "GotRequestRecover h c sc = (fst st', outs)"
      using request(3) by (auto simp: ProcessRequestRecover_def split: prod.splits)
    from recover_keeps(2) [OF this] keeps show ?thesis using request(1) st by (auto simp: rbSend_def)
  qed (auto simp: rbSend_def)
  then show ?thesis using assms(3) by simp
qed

theorem rb_integrity_witness:
  "rbGetDecision (rbDemoConfig 0) (fst (rbNodes (rbDemoFinal\<lparr>echoed := insert (3, 9) (echoed rbDemoFinal)\<rparr>) 0)) = Inr (Some 0, 7)"
proof (rule rb_integrity [OF rbDemo_correct(1)])
  show "rb_step rbDemo rbDemoFinal (rbDemoFinal\<lparr>echoed := insert (3, 9) (echoed rbDemoFinal)\<rparr>)"
    by (rule rb_step.byz_echo) (simp add: rbDemo_def)
  show "rbGetDecision (rbDemoConfig 0) (fst (rbNodes rbDemoFinal 0)) = Inr (Some 0, 7)" using rbDemo_decided by simp
qed

text \<open>A message with at least \<open>n\<close> signatures in the store can be completed with exactly \<open>n\<close> of them.\<close>

lemma SetupSignedMessage_proof:
  assumes wf: "wf_sms sms" "unsignedMsgMap sms (sm_hash sm) = None" and n: "0 < n" "n \<le> int (card (signers sms (sm_hash sm)))"
    and r: "SetupSignedMessage sms sm pid None n = (sms', r)"
  shows "\<exists>l. r = Inr (sm\<lparr>sm_sigs := l\<rparr>) \<and> int (length l) = n \<and> distinct (map si_pub l) \<and> pubs_of l \<subseteq> signers sms (sm_hash sm)"
proof -
  obtain sms0 item c where g: "getSignedMsgState sms sm = Inr (sms0, item, c)" using getSignedMsgState_ok [OF wf(2)] by auto
  have wi: "wf_item item" using getSignedMsgState_wf(1) [OF g] wf(1) by simp
  then have d: "distinct (map fst (SigMap item))" by (simp add: wf_item_def)
  have k: "set (map fst (SigMap item)) = signers sms (sm_hash sm)" using getSignedMsgState_signers(3) [OF g] by simp
  then have "length (SigMap item) = card (signers sms (sm_hash sm))" using distinct_card [OF d] by simp
  then have len: "int (length (joinSigs pid item n)) = n" using joinSigs_length [OF n(1) d] n(2) by simp
  then have "joinSigs pid item n \<noteq> []" using n(1) by auto
  then have "r = Inr (sm\<lparr>sm_sigs := joinSigs pid item n\<rparr>)" using r g n(1) by (simp add: SetupSignedMessage_def setupSigs_def)
  moreover have "distinct (map si_pub (joinSigs pid item n))" "pubs_of (joinSigs pid item n) \<subseteq> signers sms (sm_hash sm)"
    using joinSigs_pubs [OF wi] k by simp_all
  ultimately show ?thesis using len by blast
qed

lemma setup_echo_proof:
  assumes wf: "wf_rbms nmt ms" and n: "0 < nmt" "nmt \<le> int (card (signers (rbSms ms) (MvEcho 0 h)))"
    and cfg: "nmt = rbMemberCount cfg - rbFaultCount cfg"
  shows "\<exists>ms' sm. rbGetCommitProof cfg h ms = Inr (ms', sm) \<and> sm_hash sm = MvEcho 0 h \<and> int (length (sm_sigs sm)) = nmt \<and>
    distinct (map si_pub (sm_sigs sm)) \<and> pubs_of (sm_sigs sm) \<subseteq> signers (rbSms ms) (MvEcho 0 h)"
proof -
  let ?sm = "\<lparr>sm_hash = MvEcho 0 h, sm_msgid = EchoID 0, sm_sigs = []\<rparr> :: ('a, ('b, 'c) rbMsg, rbMsgID) signed_msg"
  obtain sms' r where r: "SetupSignedMessage (rbSms ms) ?sm (rbMyPub cfg) None nmt = (sms', r)" by (cases "SetupSignedMessage (rbSms ms) ?sm (rbMyPub cfg) None nmt")
  have "wf_sms (rbSms ms)" "unsignedMsgMap (rbSms ms) (sm_hash ?sm) = None" using wf by (simp_all add: wf_rbms_def)
  from SetupSignedMessage_proof [OF this _ _ r] show ?thesis using n r by (auto simp: rbGetCommitProof_def cfg [symmetric])
qed

text \<open>
  A correct process that delivered a proposal can prove it: \<^verbatim>\<open>GetCommitProof\<close> does not panic and returns an echo
  of the delivered proposal's hash with exactly \<open>n - t\<close> signatures, of different members that made them.
\<close>

lemma rb_commit_proof:
  assumes "rb_reachable sys g" "wf_rb sys" "p \<notin> rbFaulty sys"
    and "rbGetDecision (rbConfigs sys p) (fst (rbNodes g p)) = Inr (pub, v)"
  shows "\<exists>ms' sm. rbGetCommitProof (rbConfigs sys p) (rbHash sys v) (snd (rbNodes g p)) = Inr (ms', sm) \<and> sm_hash sm = MvEcho 0 (rbHash sys v) \<and>
    int (length (sm_sigs sm)) = rbMemberCount (rbConfigs sys p) - rbFaultCount (rbConfigs sys p) \<and> distinct (map si_pub (sm_sigs sm)) \<and>
    (\<forall>si. si \<in> set (sm_sigs sm) \<longrightarrow> si_pub si \<in> rbMembers sys \<and> (si_pub si, rbHash sys v) \<in> echoed g)"
proof -
  have inv: "rbInv sys g" using rbInv_reachable [OF assms(1,2)] .
  note s = supported_quorum [OF inv assms(3) decided_supported(1) [OF inv assms(3,4)]]
  have cfg: "rbNmt sys = rbMemberCount (rbConfigs sys p) - rbFaultCount (rbConfigs sys p)" using assms(2) by (simp add: wf_rb_def rbNmt_def)
  have "0 < int (card (rbMembers sys))" using assms(2) by (auto simp: wf_rb_def card_gt_0_iff)
  then have pos: "0 < rbNmt sys"
    using one_third.quorum_gt_faults one_third.faults_nonneg by (fastforce simp: rbNmt_def rbT_def)
  have w: "wf_rbms (rbNmt sys) (snd (rbNodes g p))" using inv assms(3) by (cases "rbNodes g p") (auto simp: rbInv_def rbNodeInv_def storeInv_def)
  obtain ms' sm where r: "rbGetCommitProof (rbConfigs sys p) (rbHash sys v) (snd (rbNodes g p)) = Inr (ms', sm)" "sm_hash sm = MvEcho 0 (rbHash sys v)"
    "int (length (sm_sigs sm)) = rbNmt sys" "distinct (map si_pub (sm_sigs sm))"
    "pubs_of (sm_sigs sm) \<subseteq> signers (rbSms (snd (rbNodes g p))) (MvEcho 0 (rbHash sys v))"
    using setup_echo_proof [OF w pos s(2) cfg] by blast
  moreover have "si_pub si \<in> rbMembers sys \<and> (si_pub si, rbHash sys v) \<in> echoed g" if "si \<in> set (sm_sigs sm)" for si
    using r(5) s(1) that by (auto simp: pubs_of_def)
  ultimately show ?thesis using cfg by auto
qed

end
