(* ===== verification/RbBcast2_System.thy ===== *)
theory RbBcast2_System
  imports RbBcast2 RbBcast1_System
begin

text \<open>
  Runs of the reliable broadcast with commits by many processes, fewer than a third of the members faulty, on the same assumptions
  as in \<open>RbBcast1_System\<close>. Besides agreement and validity, the commit phase gives totality: when one correct process
  decided a hash, all correct processes do once the commits of the correct members arrived at the correct members and at them, and
  nothing is left to do, provided that the correct members pass the random selection for their commits.
\<close>

section \<open>The system\<close>

record ('p, 'v, 'h) rb2_global =
  rb2Nodes :: "'p \<Rightarrow> ('p, 'v, 'h) rb2_state"
  rb2Echoed :: "('p \<times> 'h) set"
  rb2Committed :: "('p \<times> 'h) set"
  rb2Inited :: "('p \<times> 'v) set"
  rb2Proposals :: "('p \<times> 'v) set"

definition wf_rb2 :: "('p, 'v, 'h) rb_system \<Rightarrow> bool" where
  "wf_rb2 sys \<longleftrightarrow> wf_rb sys \<and> (\<forall>p. rbMemberLocal (rbConfigs sys p) \<longleftrightarrow> p \<in> rbMembers sys)"

definition rb2Init :: "('p, 'v, 'h) rb2_global" where
  "rb2Init = \<lparr>rb2Nodes = \<lambda>_. (rb2GenerateNewItem, rb2NewMessageState), rb2Echoed = {}, rb2Committed = {}, rb2Inited = {}, rb2Proposals = {}\<rparr>"

definition echoesOf :: "'p \<Rightarrow> ('v, 'h) rb_out list \<Rightarrow> ('p \<times> 'h) set" where
  "echoesOf p outs = {(p, h) | h. BcastEcho h \<in> set outs}"

definition commitsOf :: "'p \<Rightarrow> ('v, 'h) rb_out list \<Rightarrow> ('p \<times> 'h) set" where
  "commitsOf p outs = {(p, h) | h. BcastCommit (Some h) \<in> set outs}"

definition initsOf :: "'p \<Rightarrow> ('v, 'h) rb_out list \<Rightarrow> ('p \<times> 'v) set" where
  "initsOf p outs = {(p, v) | v. BcastInit v \<in> set outs}"

definition rb2Send :: "'p \<Rightarrow> ('p, 'v, 'h) rb2_state \<Rightarrow> ('v, 'h) rb_out list \<Rightarrow> ('p, 'v, 'h) rb2_global \<Rightarrow> ('p, 'v, 'h) rb2_global" where
  "rb2Send p st outs g = g\<lparr>rb2Nodes := (rb2Nodes g)(p := st), rb2Echoed := rb2Echoed g \<union> echoesOf p outs,
     rb2Committed := rb2Committed g \<union> commitsOf p outs, rb2Inited := rb2Inited g \<union> initsOf p outs\<rparr>"

text \<open>A handler that panics has no step; that none does is a theorem.\<close>

inductive rb2_step :: "('p, 'v, 'h) rb_system \<Rightarrow> ('p, 'v, 'h) rb2_global \<Rightarrow> ('p, 'v, 'h) rb2_global \<Rightarrow> bool" for sys where
  start: "p \<notin> rbFaulty sys \<Longrightarrow> rb2Nodes g p = (sc, ms) \<Longrightarrow> rb2_step sys g (rb2Send p (rbStart (rbConfigs sys p) sc, ms) [] g)"
| propose: "p \<notin> rbFaulty sys \<Longrightarrow> rb2Nodes g p = (sc, ms) \<Longrightarrow> rbItemGotProposal (rbConfigs sys p) v sc = Inr (sc', outs) \<Longrightarrow>
     rb2_step sys g ((rb2Send p (sc', ms) outs g)\<lparr>rb2Proposals := insert (p, v) (rb2Proposals g)\<rparr>)"
| init: "p \<notin> rbFaulty sys \<Longrightarrow> rb2Nodes g p = (sc, ms) \<Longrightarrow> plain_sigs sigs \<Longrightarrow>
     (\<And>si. si \<in> set sigs \<Longrightarrow> chk si \<Longrightarrow> r = 0 \<longrightarrow> (si_pub si, v) \<in> rb2Inited g) \<Longrightarrow>
     rb2GotInit chk (rbConfigs sys p) r v sigs ms = (ms', Inr pub) \<Longrightarrow>
     rb2ProcessInit (rbConfigs sys p) k r pub v (sc, ms') = Inr (st', outs) \<Longrightarrow> rb2_step sys g (rb2Send p st' outs g)"
| init_reject: "p \<notin> rbFaulty sys \<Longrightarrow> rb2Nodes g p = (sc, ms) \<Longrightarrow> plain_sigs sigs \<Longrightarrow>
     rb2GotInit chk (rbConfigs sys p) r v sigs ms = (ms', Inl e) \<Longrightarrow> rb2_step sys g (rb2Send p (sc, ms') [] g)"
| echo: "p \<notin> rbFaulty sys \<Longrightarrow> rb2Nodes g p = (sc, ms) \<Longrightarrow> plain_sigs sigs \<Longrightarrow>
     (\<And>si. si \<in> set sigs \<Longrightarrow> chk si \<Longrightarrow> si_pub si \<in> rbMembers sys \<and> (r = 0 \<longrightarrow> (si_pub si, h) \<in> rb2Echoed g)) \<Longrightarrow>
     rb2GotEcho chk (rbConfigs sys p) r h sigs ms = (ms', res) \<Longrightarrow> \<not> panics res \<Longrightarrow> rb2_step sys g (rb2Send p (sc, ms') [] g)"
| commit: "p \<notin> rbFaulty sys \<Longrightarrow> rb2Nodes g p = (sc, ms) \<Longrightarrow> plain_sigs sigs \<Longrightarrow>
     (\<And>si. si \<in> set sigs \<Longrightarrow> chk si \<Longrightarrow> si_pub si \<in> rbMembers sys \<and> (r = 0 \<longrightarrow> (si_pub si, h) \<in> rb2Committed g)) \<Longrightarrow>
     rb2GotCommit chk (rbConfigs sys p) r h sigs ms = (ms', res) \<Longrightarrow> \<not> panics res \<Longrightarrow> rb2_step sys g (rb2Send p (sc, ms') [] g)"
| progress: "p \<notin> rbFaulty sys \<Longrightarrow> rb2ProcessVote (rbConfigs sys p) k 0 (rb2Nodes g p) = Inr (st', outs) \<Longrightarrow> rb2_step sys g (rb2Send p st' outs g)"
| timeout: "p \<notin> rbFaulty sys \<Longrightarrow> rb2ProcessRecoverTimeout (rb2Nodes g p) = (st', outs) \<Longrightarrow> rb2_step sys g (rb2Send p st' outs g)"
| request: "p \<notin> rbFaulty sys \<Longrightarrow> rb2ProcessRequestRecover h c (rb2Nodes g p) = (st', outs) \<Longrightarrow> rb2_step sys g (rb2Send p st' outs g)"
| byz_echo: "p \<in> rbFaulty sys \<Longrightarrow> rb2_step sys g (g\<lparr>rb2Echoed := insert (p, h) (rb2Echoed g)\<rparr>)"
| byz_commit: "p \<in> rbFaulty sys \<Longrightarrow> rb2_step sys g (g\<lparr>rb2Committed := insert (p, h) (rb2Committed g)\<rparr>)"
| byz_init: "p \<in> rbFaulty sys \<Longrightarrow> rb2_step sys g (g\<lparr>rb2Inited := insert (p, v) (rb2Inited g)\<rparr>)"

inductive rb2_reachable :: "('p, 'v, 'h) rb_system \<Rightarrow> ('p, 'v, 'h) rb2_global \<Rightarrow> bool" for sys where
  init: "rb2_reachable sys rb2Init"
| step: "rb2_reachable sys g \<Longrightarrow> rb2_step sys g g' \<Longrightarrow> rb2_reachable sys g'"

section \<open>Quorums of echoes and commits\<close>

definition echoQuorum :: "('p, 'v, 'h) rb_system \<Rightarrow> ('p \<times> 'h) set \<Rightarrow> 'h \<Rightarrow> bool" where
  "echoQuorum sys E h \<longleftrightarrow> (\<exists>S \<subseteq> {q \<in> rbMembers sys. (q, h) \<in> E}. rbNmt sys \<le> int (card S))"

text \<open>Correct processes sign for one hash.\<close>

definition onceEach :: "('p, 'v, 'h) rb_system \<Rightarrow> ('p \<times> 'h) set \<Rightarrow> bool" where
  "onceEach sys E \<longleftrightarrow> (\<forall>p h h'. p \<notin> rbFaulty sys \<longrightarrow> (p, h) \<in> E \<longrightarrow> (p, h') \<in> E \<longrightarrow> h = h')"

lemma echoQuorum_mono: "echoQuorum sys E h \<Longrightarrow> E \<subseteq> E' \<Longrightarrow> echoQuorum sys E' h"
  unfolding echoQuorum_def by blast

lemma rb_thresholds:
  assumes "wf_rb sys"
  shows "0 \<le> rbT sys" "rbT sys < rbNmt sys" "rbT sys < rbNmt sys - rbT sys"
proof -
  have "0 < int (card (rbMembers sys))" using assms by (auto simp: wf_rb_def card_gt_0_iff)
  then show "0 \<le> rbT sys" "rbT sys < rbNmt sys" "rbT sys < rbNmt sys - rbT sys"
    using one_third.faults_nonneg one_third.quorum_gt_faults one_third.quorum_minus_faults by (auto simp: rbT_def rbNmt_def)
qed

lemma echoQuorum_agree:
  assumes wf: "wf_rb sys" and once: "onceEach sys E" and q: "echoQuorum sys E h" "echoQuorum sys E h'"
  shows "h = h'"
proof -
  obtain S T where S: "S \<subseteq> {q \<in> rbMembers sys. (q, h) \<in> E}" "rbNmt sys \<le> int (card S)"
    and T: "T \<subseteq> {q \<in> rbMembers sys. (q, h') \<in> E}" "rbNmt sys \<le> int (card T)" using q by (auto simp: echoQuorum_def)
  have "S \<subseteq> rbMembers sys" "T \<subseteq> rbMembers sys" using S(1) T(1) by blast+
  then obtain p where p: "p \<in> S" "p \<in> T" "p \<notin> rbFaulty sys"
    using one_third.quorum_intersect [of "rbMembers sys" S T "rbFaulty sys"] wf S(2) T(2)
    by (auto simp: wf_rb_def rbNmt_def rbT_def)
  then have "(p, h) \<in> E" "(p, h') \<in> E" using S(1) T(1) by auto
  then show ?thesis using once p(3) by (auto simp: onceEach_def)
qed

lemma has_correct:
  assumes "wf_rb sys" "rbT sys < int (card S)"
  shows "\<exists>q \<in> S. q \<notin> rbFaulty sys"
  using exists_outside [of "rbFaulty sys" S] assms by (auto simp: wf_rb_def)

section \<open>The invariant of a correct process\<close>

definition commitInv :: "('p, 'v, 'h) rb_system \<Rightarrow> ('p \<times> 'h) set \<Rightarrow> ('p, 'v, 'h) rb2MessageState \<Rightarrow> bool" where
  "commitInv sys C ms \<longleftrightarrow> (\<forall>h. signers (rbSms ms) (MvCommit 0 h) \<subseteq> {q \<in> rbMembers sys. (q, h) \<in> C}) \<and>
     (case supportedCommitHash ms of
        None \<Rightarrow> supportedCommitCount ms = 0 \<and> (\<forall>h. int (card (signers (rbSms ms) (MvCommit 0 h))) \<le> rbT sys)
      | Some h \<Rightarrow> rbT sys < supportedCommitCount ms \<and> supportedCommitCount ms = int (card (signers (rbSms ms) (MvCommit 0 h))))"

text \<open>The hash that has enough commits to be decided.\<close>

definition decidableHash :: "('p, 'v, 'h) rb_system \<Rightarrow> ('p, 'v, 'h) rb2MessageState \<Rightarrow> 'h option" where
  "decidableHash sys ms = (if rbNmt sys \<le> supportedCommitCount ms then supportedCommitHash ms else None)"

text \<open>A commit of a correct process rests on a quorum of echoes; a process that committed and is a member sent its
  commit, if the random selection of members lets it.\<close>

definition commitSigned :: "('p, 'v, 'h) rb_system \<Rightarrow> ('p \<times> 'h) set \<Rightarrow> ('p \<times> 'h) set \<Rightarrow> 'p \<Rightarrow> bool \<Rightarrow> bool" where
  "commitSigned sys E C p sent \<longleftrightarrow> (\<forall>h. (p, h) \<in> C \<longrightarrow> sent \<and> echoQuorum sys E h) \<and> (sent \<longrightarrow> p \<in> rbMembers sys \<longrightarrow>
     (\<exists>h. echoQuorum sys E h \<and> (commitMember (rbConfigs sys p) (Some h) \<longrightarrow> (p, h) \<in> C)))"

definition rb2NodeInv :: "('p, 'v, 'h) rb_system \<Rightarrow> ('p \<times> 'h) set \<Rightarrow> ('p \<times> 'h) set \<Rightarrow> ('p \<times> 'v) set \<Rightarrow> ('p \<times> 'v) set \<Rightarrow> 'p \<Rightarrow>
    ('p, 'v, 'h) rb2_state \<Rightarrow> bool" where
  "rb2NodeInv sys E C I P p st \<longleftrightarrow>
     (case st of (sc, ms) \<Rightarrow> storeInv sys E ms \<and> commitInv sys C ms \<and> itemInv sys I (decidableHash sys ms) sc \<and>
        (decisionHashBytes sc \<noteq> None \<longrightarrow> sentCommit sc) \<and> signInv sys E I P p (sentEcho sc) (rbGotProposal sc) \<and>
        commitSigned sys E C p (sentCommit sc))"

definition rb2Inv :: "('p, 'v, 'h) rb_system \<Rightarrow> ('p, 'v, 'h) rb2_global \<Rightarrow> bool" where
  "rb2Inv sys g \<longleftrightarrow> (\<forall>p. p \<notin> rbFaulty sys \<longrightarrow>
     rb2NodeInv sys (rb2Echoed g) (rb2Committed g) (rb2Inited g) (rb2Proposals g) p (rb2Nodes g p))"

lemma itemInv_mono: "itemInv sys I supp sc \<Longrightarrow> I \<subseteq> I' \<Longrightarrow> itemInv sys I' supp sc"
  unfolding itemInv_def by fast

lemma storeInv_mono: "storeInv sys E ms \<Longrightarrow> E \<subseteq> E' \<Longrightarrow> storeInv sys E' ms"
  by (auto simp: storeInv_def)

lemma commitInv_mono: "commitInv sys C ms \<Longrightarrow> C \<subseteq> C' \<Longrightarrow> commitInv sys C' ms"
  by (auto simp: commitInv_def)

lemma signInv_mono:
  assumes "signInv sys E I P p s got" "I \<subseteq> I'" "P \<subseteq> P'" "\<And>h. (p, h) \<in> E' \<Longrightarrow> (p, h) \<in> E" "\<And>v. (p, v) \<in> I' \<Longrightarrow> (p, v) \<in> I"
  shows "signInv sys E' I' P' p s got"
  using assms unfolding signInv_def by (meson subsetD)

lemma commitSigned_mono:
  assumes "commitSigned sys E C p s" "E \<subseteq> E'" "C \<subseteq> C'" "\<And>h. (p, h) \<in> C' \<Longrightarrow> (p, h) \<in> C"
  shows "commitSigned sys E' C' p s"
  using assms echoQuorum_mono [OF _ assms(2)] unfolding commitSigned_def by blast

lemma rb2NodeInv_mono:
  assumes "rb2NodeInv sys E C I P p st" "E \<subseteq> E'" "C \<subseteq> C'" "I \<subseteq> I'" "P \<subseteq> P'" "\<And>h. (p, h) \<in> E' \<Longrightarrow> (p, h) \<in> E"
    "\<And>h. (p, h) \<in> C' \<Longrightarrow> (p, h) \<in> C" "\<And>v. (p, v) \<in> I' \<Longrightarrow> (p, v) \<in> I"
  shows "rb2NodeInv sys E' C' I' P' p st"
proof -
  obtain sc ms where st: "st = (sc, ms)" by (cases st)
  have i: "storeInv sys E ms" "commitInv sys C ms" "itemInv sys I (decidableHash sys ms) sc" "decisionHashBytes sc \<noteq> None \<longrightarrow> sentCommit sc"
    "signInv sys E I P p (sentEcho sc) (rbGotProposal sc)" "commitSigned sys E C p (sentCommit sc)"
    using assms(1) by (simp_all add: rb2NodeInv_def st)
  show ?thesis unfolding rb2NodeInv_def st prod.case
    using storeInv_mono [OF i(1) assms(2)] commitInv_mono [OF i(2) assms(3)] itemInv_mono [OF i(3) assms(4)] i(4)
      signInv_mono [OF i(5) assms(4,5,6,8)] commitSigned_mono [OF i(6) assms(2,3,7)] by (intro conjI)
qed

lemma rb2InvD:
  assumes "rb2Inv sys g" "p \<notin> rbFaulty sys" "rb2Nodes g p = (sc, ms)"
  shows "storeInv sys (rb2Echoed g) ms" "commitInv sys (rb2Committed g) ms" "itemInv sys (rb2Inited g) (decidableHash sys ms) sc"
    "decisionHashBytes sc \<noteq> None \<longrightarrow> sentCommit sc" "signInv sys (rb2Echoed g) (rb2Inited g) (rb2Proposals g) p (sentEcho sc) (rbGotProposal sc)"
    "commitSigned sys (rb2Echoed g) (rb2Committed g) p (sentCommit sc)"
proof -
  have "rb2NodeInv sys (rb2Echoed g) (rb2Committed g) (rb2Inited g) (rb2Proposals g) p (sc, ms)"
    using assms(1,2) unfolding rb2Inv_def assms(3) [symmetric] by blast
  then show "storeInv sys (rb2Echoed g) ms" "commitInv sys (rb2Committed g) ms" "itemInv sys (rb2Inited g) (decidableHash sys ms) sc"
    "decisionHashBytes sc \<noteq> None \<longrightarrow> sentCommit sc" "signInv sys (rb2Echoed g) (rb2Inited g) (rb2Proposals g) p (sentEcho sc) (rbGotProposal sc)"
    "commitSigned sys (rb2Echoed g) (rb2Committed g) p (sentCommit sc)" by (simp_all add: rb2NodeInv_def)
qed

lemma rb2Inv_once: "rb2Inv sys g \<Longrightarrow> onceEach sys (rb2Echoed g)"
  unfolding onceEach_def
proof (intro allI impI)
  fix p h h' assume "rb2Inv sys g" "p \<notin> rbFaulty sys" "(p, h) \<in> rb2Echoed g" "(p, h') \<in> rb2Echoed g"
  then show "h = h'" using rb2InvD(5) [of sys g p "fst (rb2Nodes g p)" "snd (rb2Nodes g p)"] unfolding signInv_def by (metis prod.collapse)
qed

lemma commit_echoQuorum:
  assumes "rb2Inv sys g" "p \<notin> rbFaulty sys" "(p, h) \<in> rb2Committed g"
  shows "echoQuorum sys (rb2Echoed g) h"
  using rb2InvD(6) [OF assms(1,2), of "fst (rb2Nodes g p)" "snd (rb2Nodes g p)"] assms(3) by (simp add: commitSigned_def)

lemma commits_echoQuorum:
  assumes "wf_rb sys" "rb2Inv sys g" "S \<subseteq> {q \<in> rbMembers sys. (q, h) \<in> rb2Committed g}" "rbT sys < int (card S)"
  shows "echoQuorum sys (rb2Echoed g) h"
proof -
  obtain q where "q \<in> S" "q \<notin> rbFaulty sys" using has_correct [OF assms(1,4)] by blast
  then show ?thesis using commit_echoQuorum [OF assms(2)] assms(3) by blast
qed

text \<open>A hash with a supported quorum of echoes, and one with more than \<open>t\<close> commits, is the same everywhere.\<close>

lemma commits_agree:
  assumes "wf_rb sys" "rb2Inv sys g" "S \<subseteq> {q \<in> rbMembers sys. (q, h) \<in> rb2Committed g}" "rbT sys < int (card S)"
    and "T \<subseteq> {q \<in> rbMembers sys. (q, h') \<in> rb2Committed g}" "rbT sys < int (card T)"
  shows "h = h'"
  using echoQuorum_agree [OF assms(1) rb2Inv_once [OF assms(2)]] commits_echoQuorum [OF assms(1-4)] commits_echoQuorum [OF assms(1,2,5,6)] .

lemma storeInv_echoQuorum: "storeInv sys E ms \<Longrightarrow> supportedEchoHash ms = Some h \<Longrightarrow> echoQuorum sys E h"
  unfolding storeInv_def wf_rbms_def echoQuorum_def by blast

section \<open>The message state\<close>

lemma rb2GotInit_spec:
  assumes got: "rb2GotInit chk cfg r v sigs ms = (ms', res)" and wf: "wf_rbms nmt ms" and pl: "plain_sigs sigs"
  shows "wf_rbms nmt ms'" "\<And>h. signers (rbSms ms') (MvEcho 0 h) = signers (rbSms ms) (MvEcho 0 h)"
    "\<And>h. signers (rbSms ms') (MvCommit 0 h) = signers (rbSms ms) (MvCommit 0 h)"
    "supportedEchoHash ms' = supportedEchoHash ms" "supportedCommitHash ms' = supportedCommitHash ms" "supportedCommitCount ms' = supportedCommitCount ms"
    "res = Inr pub \<Longrightarrow> isCoord cfg pub \<and> (\<exists>si \<in> set sigs. chk si \<and> si_pub si = pub)" "\<not> panics res"
proof -
  let ?sm = "\<lparr>sm_hash = MvInit r v, sm_msgid = InitID r, sm_sigs = sigs\<rparr>"
  obtain sms' sm' rr where g: "GotSignedMsg chk (rbSms ms) ?sm = (sms', sm', rr)" by (metis prod_cases3)
  have pre: "wf_sms (rbSms ms)" "plain_sms (rbSms ms)" "plain_sigs (sm_sigs ?sm)" "unsignedMsgMap (rbSms ms) (sm_hash ?sm) = None"
    using wf pl by (simp_all add: wf_rbms_def)
  note s = GotSignedMsg_spec [OF g pre]
  have ms': "ms' = ms \<or> ms' = ms\<lparr>rbSms := sms'\<rparr>"
    using got g by (auto simp: rb2GotInit_def Let_def split: sum.splits if_splits)
  have sg: "signers sms' (MvEcho 0 h) = signers (rbSms ms) (MvEcho 0 h)" "signers sms' (MvCommit 0 h) = signers (rbSms ms) (MvCommit 0 h)" for h
    using s(4) by simp_all
  show "wf_rbms nmt ms'" using ms' wf s(1-3) sg by (auto simp: wf_rbms_def)
  show "\<And>h. signers (rbSms ms') (MvEcho 0 h) = signers (rbSms ms) (MvEcho 0 h)"
    "\<And>h. signers (rbSms ms') (MvCommit 0 h) = signers (rbSms ms) (MvCommit 0 h)"
    "supportedEchoHash ms' = supportedEchoHash ms" "supportedCommitHash ms' = supportedCommitHash ms" "supportedCommitCount ms' = supportedCommitCount ms"
    using ms' sg by auto
  show "isCoord cfg pub \<and> (\<exists>si \<in> set sigs. chk si \<and> si_pub si = pub)" if r: "res = Inr pub"
  proof -
    obtain x where x: "rr = Inr x" "length (sm_sigs sm') = 1" "isCoord cfg pub" "pub = si_pub (hd (sm_sigs sm'))"
      using got g r by (auto simp: rb2GotInit_def Let_def split: sum.splits if_splits)
    then have "hd (sm_sigs sm') \<in> set (sm_sigs sm')" by (cases "sm_sigs sm'") auto
    with GotSignedMsg_sigs [of chk "rbSms ms" ?sm sms' sm' x] g x show ?thesis by auto
  qed
  show "\<not> panics res" using got g s(8) by (auto simp: rb2GotInit_def Let_def panics_Inl split: sum.splits if_splits)
qed

lemma GotEcho_commits:
  fixes ms :: "('p, 'v, 'h) rb2MessageState"
  assumes got: "GotEcho chk cfg r h sigs ms = (ms', res)" and wf: "wf_rbms nmt ms" and pl: "plain_sigs sigs"
  shows "signers (rbSms ms') (MvCommit 0 h') = signers (rbSms ms) (MvCommit 0 h')"
    "supportedCommitHash ms' = supportedCommitHash ms" "supportedCommitCount ms' = supportedCommitCount ms"
proof -
  let ?sm = "\<lparr>sm_hash = MvEcho r h, sm_msgid = EchoID r, sm_sigs = sigs\<rparr>"
  obtain sms' sm' rr where g: "GotSignedMsg chk (rbSms ms) ?sm = (sms', sm', rr)" by (metis prod_cases3)
  have pre: "wf_sms (rbSms ms)" "plain_sms (rbSms ms)" "plain_sigs (sm_sigs ?sm)" "unsignedMsgMap (rbSms ms) (sm_hash ?sm) = None"
    using wf pl by (simp_all add: wf_rbms_def)
  have "rbSms ms' = sms'" "supportedCommitHash ms' = supportedCommitHash ms \<and> supportedCommitCount ms' = supportedCommitCount ms"
    using got g by (auto simp: GotEcho_def Let_def split: sum.splits if_splits)
  then show "signers (rbSms ms') (MvCommit 0 h') = signers (rbSms ms) (MvCommit 0 h')"
    "supportedCommitHash ms' = supportedCommitHash ms" "supportedCommitCount ms' = supportedCommitCount ms"
    using GotSignedMsg_spec(4) [OF g pre] by simp_all
qed

lemma rb2GotCommit_spec:
  assumes got: "rb2GotCommit chk cfg r h sigs ms = (ms', res)" and wf: "wf_rbms nmt ms" and pl: "plain_sigs sigs"
    and inv: "commitInv sys C ms" and t: "rbFaultCount cfg = rbT sys"
    and made: "\<forall>si. si \<in> set sigs \<longrightarrow> chk si \<longrightarrow> si_pub si \<in> rbMembers sys \<and> (r = 0 \<longrightarrow> (si_pub si, h) \<in> C)"
  shows "wf_rbms nmt ms'" "\<And>h'. signers (rbSms ms') (MvEcho 0 h') = signers (rbSms ms) (MvEcho 0 h')"
    "supportedEchoHash ms' = supportedEchoHash ms"
    "\<And>h'. signers (rbSms ms') (MvCommit 0 h') \<subseteq> {q \<in> rbMembers sys. (q, h') \<in> C}"
    "\<not> panics res \<Longrightarrow> commitInv sys C ms'"
    "supportedCommitHash ms = Some h' \<Longrightarrow> supportedCommitHash ms' = Some h' \<and> supportedCommitCount ms \<le> supportedCommitCount ms'"
    "panics res \<Longrightarrow> r = 0 \<and> rbT sys < int (card (signers (rbSms ms') (MvCommit 0 h))) \<and>
       ((\<exists>h''. supportedCommitHash ms = Some h'' \<and> h'' \<noteq> h) \<or> (\<exists>h''. supportedEchoHash ms = Some h'' \<and> h'' \<noteq> h))"
proof -
  let ?sm = "\<lparr>sm_hash = MvCommit r h, sm_msgid = CommitID r, sm_sigs = sigs\<rparr>"
  obtain sms' sm' rr where g: "GotSignedMsg chk (rbSms ms) ?sm = (sms', sm', rr)" by (metis prod_cases3)
  have pre: "wf_sms (rbSms ms)" "plain_sms (rbSms ms)" "plain_sigs (sm_sigs ?sm)" "unsignedMsgMap (rbSms ms) (sm_hash ?sm) = None"
    using wf pl by (simp_all add: wf_rbms_def)
  note s = GotSignedMsg_spec [OF g pre]
  let ?c = "\<lambda>sms h'. signers sms (MvCommit 0 h')"
  have sms: "rbSms ms' = sms'" and echo: "supportedEchoHash ms' = supportedEchoHash ms"
    using got g by (auto simp: rb2GotCommit_def Let_def split: sum.splits if_splits)
  have sg: "signers sms' (MvEcho 0 h') = signers (rbSms ms) (MvEcho 0 h')" for h' using s(4) by simp
  show "wf_rbms nmt ms'" using wf s(1-3) sg sms echo by (simp add: wf_rbms_def)
  show "\<And>h'. signers (rbSms ms') (MvEcho 0 h') = signers (rbSms ms) (MvEcho 0 h')" "supportedEchoHash ms' = supportedEchoHash ms"
    using sg sms echo by simp_all
  have sub: "?c sms' h' \<subseteq> {q \<in> rbMembers sys. (q, h') \<in> C}" for h'
    using s(4) inv made by (fastforce simp: commitInv_def split: if_splits)
  then show "\<And>h'. signers (rbSms ms') (MvCommit 0 h') \<subseteq> {q \<in> rbMembers sys. (q, h') \<in> C}" by (simp add: sms)
  have mono: "int (card (?c (rbSms ms) h')) \<le> int (card (?c sms' h'))" for h' using s(4) by (auto intro!: card_mono)
  have same: "?c sms' h' = ?c (rbSms ms) h'" if "h' \<noteq> h \<or> r \<noteq> 0 \<or> \<not> is_ok rr" for h'
    using that s(4,6) by (auto split: if_splits)
  have cnt: "fst x = int (card (?c sms' h))" if "rr = Inr x" "r = 0" for x using s(7) that by auto
  consider (keep) "supportedCommitHash ms' = supportedCommitHash ms" "supportedCommitCount ms' = supportedCommitCount ms" "\<not> panics res"
      "\<not> is_ok rr \<or> r \<noteq> 0 \<or> int (card (?c sms' h)) \<le> rbT sys"
    | (set) "supportedCommitHash ms' = Some h" "r = 0" "supportedCommitHash ms = None \<or> supportedCommitHash ms = Some h" "\<not> panics res"
      "rbT sys < int (card (?c sms' h))" "supportedCommitCount ms' = max (supportedCommitCount ms) (int (card (?c sms' h)))"
    | (panic) "supportedCommitHash ms' = supportedCommitHash ms" "supportedCommitCount ms' = supportedCommitCount ms" "panics res" "r = 0"
      "rbT sys < int (card (?c sms' h))"
      "(\<exists>h''. supportedCommitHash ms = Some h'' \<and> h'' \<noteq> h) \<or> (\<exists>h''. supportedEchoHash ms = Some h'' \<and> h'' \<noteq> h)"
    using got g t cnt s(8)
    by (cases rr; cases "r = 0") (auto simp: rb2GotCommit_def Let_def panics_Inl max_def split: if_splits prod.splits)
  note cs = this
  show "supportedCommitHash ms = Some h' \<Longrightarrow> supportedCommitHash ms' = Some h' \<and> supportedCommitCount ms \<le> supportedCommitCount ms'"
    by (cases rule: cs) auto
  show "panics res \<Longrightarrow> r = 0 \<and> rbT sys < int (card (signers (rbSms ms') (MvCommit 0 h))) \<and>
       ((\<exists>h''. supportedCommitHash ms = Some h'' \<and> h'' \<noteq> h) \<or> (\<exists>h''. supportedEchoHash ms = Some h'' \<and> h'' \<noteq> h))"
    by (cases rule: cs) (auto simp: sms)
  show "commitInv sys C ms'" if "\<not> panics res"
  proof (cases rule: cs)
    case keep
    have "int (card (?c sms' h')) \<le> rbT sys" if "int (card (?c (rbSms ms) h')) \<le> rbT sys" for h'
      using keep(4) same [of h'] that by (cases "h' = h") auto
    moreover have "?c sms' h' = ?c (rbSms ms) h'" if "supportedCommitHash ms = Some h'" for h'
    proof (cases "h' = h \<and> r = 0 \<and> is_ok rr")
      case True
      then show ?thesis using keep(4) that inv mono [of h] by (auto simp: commitInv_def)
    qed (use same [of h'] in auto)
    ultimately show ?thesis using inv sub keep(1,2) unfolding commitInv_def sms by (auto split: option.splits)
  next
    case set
    have "supportedCommitCount ms \<le> int (card (?c sms' h))" using set(3) inv mono [of h] set(5) by (auto simp: commitInv_def)
    then show ?thesis using set sub unfolding commitInv_def sms by (simp add: max_def)
  qed (use that in simp)
qed

section \<open>Preservation by the operations\<close>

lemma outsOf_append [simp]:
  "echoesOf p (a @ b) = echoesOf p a \<union> echoesOf p b" "commitsOf p (a @ b) = commitsOf p a \<union> commitsOf p b"
  "initsOf p (a @ b) = initsOf p a \<union> initsOf p b"
  by (auto simp: echoesOf_def commitsOf_def initsOf_def)

lemma outsOf_quiet [simp]: "quiet outs \<Longrightarrow> echoesOf p outs = {}" "quiet outs \<Longrightarrow> commitsOf p outs = {}" "quiet outs \<Longrightarrow> initsOf p outs = {}"
  by (simp_all add: quiet_def echoesOf_def commitsOf_def initsOf_def)

lemma quiet_Nil [simp]: "quiet []"
  by (simp add: quiet_def)

lemma more_sentCommit: "RbBcast1.more sc' = RbBcast1.more sc \<Longrightarrow> sentCommit sc' = sentCommit sc"
  by (cases sc; cases sc') simp

lemma rb2NodeInvI:
  assumes "storeInv sys E ms" "commitInv sys C ms" "itemInv sys I (decidableHash sys ms) sc" "decisionHashBytes sc \<noteq> None \<longrightarrow> sentCommit sc"
    "signInv sys E I P p (sentEcho sc) (rbGotProposal sc)" "commitSigned sys E C p (sentCommit sc)"
  shows "rb2NodeInv sys E C I P p (sc, ms)"
  unfolding rb2NodeInv_def prod.case using assms by (intro conjI)

lemma rb2NodeInvD:
  assumes "rb2NodeInv sys E C I P p (sc, ms)"
  shows "storeInv sys E ms" "commitInv sys C ms" "itemInv sys I (decidableHash sys ms) sc" "decisionHashBytes sc \<noteq> None \<longrightarrow> sentCommit sc"
    "signInv sys E I P p (sentEcho sc) (rbGotProposal sc)" "commitSigned sys E C p (sentCommit sc)"
  using assms by (simp_all add: rb2NodeInv_def)

lemma rb2NodeInv_keeps:
  assumes "rb2NodeInv sys E C I P p (sc, ms)" "rbKeeps sc sc'"
  shows "rb2NodeInv sys E C I P p (sc', ms)"
proof -
  have "sentCommit sc' = sentCommit sc" using assms(2) by (intro more_sentCommit) (simp add: rbKeeps_def)
  then show ?thesis using assms by (simp add: rb2NodeInv_def itemInv_def rbKeeps_def)
qed

lemma echoStep_inv2:
  assumes inv: "rb2NodeInv sys E C I P p (sc, ms)" and e: "echoStep k sc = (sc', outs)"
  shows "rb2NodeInv sys (E \<union> echoesOf p outs) C I P p (sc', ms)" "commitsOf p outs = {}" "initsOf p outs = {}"
    "decisionInitMsg sc' = decisionInitMsg sc" "decisionHashBytes sc' = decisionHashBytes sc"
proof -
  note i = rb2NodeInvD [OF inv]
  note s = echoStep_signs [OF i(3,5) e]
  have sc: "sentCommit sc' = sentCommit sc" using s(5) by (rule more_sentCommit)
  have E: "E \<subseteq> E \<union> echoesOf p outs" by simp
  show "rb2NodeInv sys (E \<union> echoesOf p outs) C I P p (sc', ms)"
  proof (rule rb2NodeInvI)
    show "signInv sys (E \<union> echoesOf p outs) I P p (sentEcho sc') (rbGotProposal sc')" using s(1) by (simp add: echoesOf_def)
    show "storeInv sys (E \<union> echoesOf p outs) ms" using storeInv_mono [OF i(1) E] .
    show "commitSigned sys (E \<union> echoesOf p outs) C p (sentCommit sc')" using commitSigned_mono [OF i(6) E subset_refl] sc by simp
    show "decisionHashBytes sc' \<noteq> None \<longrightarrow> sentCommit sc'" using i(4) s(6) sc by simp
  qed (fact i(2) s(2))+
  show "commitsOf p outs = {}" "initsOf p outs = {}" "decisionInitMsg sc' = decisionInitMsg sc" "decisionHashBytes sc' = decisionHashBytes sc"
    using s(3,4,6,8) by (auto simp: commitsOf_def initsOf_def)
qed

lemma commitStep_inv:
  assumes inv: "rb2NodeInv sys E C I P p (sc, ms)" and c: "commitStep cfg ms sc = (sc', outs)"
    and cfg: "rbFaultCount cfg = rbT sys" "rbMemberLocal cfg \<longleftrightarrow> p \<in> rbMembers sys" "0 \<le> rbT sys" "commitMember cfg = commitMember (rbConfigs sys p)"
    and q: "\<And>h. supportedCommitHash ms = Some h \<Longrightarrow> echoQuorum sys E h"
  shows "rb2NodeInv sys E (C \<union> commitsOf p outs) I P p (sc', ms)" "echoesOf p outs = {}" "initsOf p outs = {}"
    "rbT sys < supportedCommitCount ms \<Longrightarrow> sentCommit sc'" "decisionInitMsg sc' = decisionInitMsg sc"
    "decisionHashBytes sc' = decisionHashBytes sc"
proof -
  note i = rb2NodeInvD [OF inv]
  show "echoesOf p outs = {}" "initsOf p outs = {}" "decisionInitMsg sc' = decisionInitMsg sc" "decisionHashBytes sc' = decisionHashBytes sc"
    "rbT sys < supportedCommitCount ms \<Longrightarrow> sentCommit sc'"
    using c cfg(1) by (auto simp: commitStep_def Let_def echoesOf_def initsOf_def split: if_splits)
  have some: "\<exists>h. supportedCommitHash ms = Some h" if "rbT sys < supportedCommitCount ms"
    using i(2) that cfg(3) by (auto simp: commitInv_def split: option.splits)
  consider (none) "sc' = sc" "outs = []"
    | (send) h where "sc' = sc\<lparr>sentCommit := True\<rparr>" "outs = (if p \<in> rbMembers sys \<and> commitMember (rbConfigs sys p) (Some h) then [BcastCommit (Some h)] else [])"
        "\<not> sentCommit sc" "echoQuorum sys E h"
  proof (cases "sentCommit sc \<or> supportedEchoHash ms = None \<and> \<not> rbT sys < supportedCommitCount ms")
    case True
    then have "commitStep cfg ms sc = (sc, [])" using cfg(1) by (auto simp: commitStep_def Let_def)
    then show ?thesis using c that(1) by simp
  next
    case False
    let ?h = "if supportedEchoHash ms = None then supportedCommitHash ms else supportedEchoHash ms"
    have s: "commitStep cfg ms sc = (sc\<lparr>sentCommit := True\<rparr>, if rbMemberLocal cfg \<and> commitMember cfg ?h then [BcastCommit ?h] else [])"
      by (cases "supportedEchoHash ms") (use False cfg(1) in \<open>simp_all add: commitStep_def Let_def\<close>)
    obtain h where h: "?h = Some h" "echoQuorum sys E h"
      using False some q storeInv_echoQuorum [OF i(1)] by (cases "supportedEchoHash ms") auto
    have "sc' = sc\<lparr>sentCommit := True\<rparr>" "outs = (if p \<in> rbMembers sys \<and> commitMember (rbConfigs sys p) (Some h) then [BcastCommit (Some h)] else [])"
      using c unfolding s h(1) cfg(2,4) by simp_all
    moreover have "\<not> sentCommit sc" using False by simp
    ultimately show ?thesis using that(2) h(2) by blast
  qed
  then show "rb2NodeInv sys E (C \<union> commitsOf p outs) I P p (sc', ms)"
  proof cases
    case none
    then show ?thesis using inv by simp
  next
    case send
    have no: "(p, h') \<notin> C" for h' using i(6) send(3) by (auto simp: commitSigned_def)
    have co: "commitsOf p outs = (if p \<in> rbMembers sys \<and> commitMember (rbConfigs sys p) (Some h) then {(p, h)} else {})" using send(2) by (auto simp: commitsOf_def)
    have "commitSigned sys E (C \<union> commitsOf p outs) p True" using no send(4) by (auto simp: commitSigned_def co)
    then show ?thesis using i commitInv_mono [OF i(2), of "C \<union> commitsOf p outs"] send(1) by (simp add: rb2NodeInv_def itemInv_def)
  qed
qed

lemma decideStep_inv:
  assumes inv: "rb2NodeInv sys E C I P p (sc, ms)" and d: "decideStep cfg ms sc = Inr (sc', outs)"
    and cfg: "rbMemberCount cfg - rbFaultCount cfg = rbNmt sys" "0 \<le> rbT sys" "rbT sys < rbNmt sys"
    and s: "rbT sys < supportedCommitCount ms \<Longrightarrow> sentCommit sc" and nd: "decisionInitMsg sc = None"
  shows "rb2NodeInv sys E C I P p (sc', ms)" "quiet outs"
proof -
  note i = rb2NodeInvD [OF inv]
  have "rb2NodeInv sys E C I P p (sc', ms) \<and> quiet outs"
  proof (cases "rbNmt sys \<le> supportedCommitCount ms")
    case False
    then show ?thesis using d cfg inv by (simp add: decideStep_def)
  next
    case True
    then obtain h where h: "supportedCommitHash ms = Some h" using i(2) cfg(2,3) by (auto simp: commitInv_def split: option.splits)
    let ?sc1 = "if decisionHashBytes sc = None then sc\<lparr>decisionHashBytes := Some h\<rparr> else sc"
    have dh: "decisionHashBytes sc = None \<or> decisionHashBytes sc = Some h" using d cfg True h by (auto simp: decideStep_def split: if_splits)
    then have h1: "decisionHashBytes ?sc1 = Some h" by auto
    have i1: "rb2NodeInv sys E C I P p (?sc1, ms)"
      using inv True h nd s cfg(3) dh by (auto simp: rb2NodeInv_def itemInv_def decidableHash_def)
    show ?thesis
    proof (cases "map_of (validatedInitHashes ?sc1) h")
      case None
      then have t: "StartRecoverTimeout ?sc1 = (sc', outs)" using d cfg(1) True h dh h1 by (auto simp: decideStep_def Let_def)
      then show ?thesis using recover_keeps(4) [OF t] rb2NodeInv_keeps [OF i1] by blast
    next
      case (Some pv)
      obtain pub v where pv: "pv = (pub, v)" by (cases pv)
      let ?sc3 = "?sc1\<lparr>decisionInitMsg := Some v, decisionPub := Some pub, rbDecided := True\<rparr>"
      have r: "sc' = ?sc3" "outs = []" using d cfg(1) True h dh h1 Some pv by (auto simp: decideStep_def Let_def)
      have "(h, pub, v) \<in> set (validatedInitHashes sc)" using map_of_SomeD [OF Some] pv by (auto split: if_splits)
      then have "h = rbHash sys v" "rbCoord sys pub" "(pub, v) \<in> I" using i(3) by (fastforce simp: itemInv_def)+
      then have "itemInv sys I (decidableHash sys ms) ?sc3" using rb2NodeInvD(3) [OF i1] h1 by (auto simp: itemInv_def)
      moreover have "sentCommit ?sc3 = sentCommit ?sc1" "sentEcho ?sc3 = sentEcho ?sc1" "rbGotProposal ?sc3 = rbGotProposal ?sc1"
        "decisionHashBytes ?sc3 = decisionHashBytes ?sc1" by simp_all
      ultimately show ?thesis using rb2NodeInvD [OF i1] unfolding r by (simp only: rb2NodeInvI quiet_Nil)
    qed
  qed
  then show "rb2NodeInv sys E C I P p (sc', ms)" "quiet outs" by blast+
qed

lemma wf_rb2D:
  assumes "wf_rb2 sys"
  shows "wf_rb sys" "rbFaultCount (rbConfigs sys p) = rbT sys" "rbMemberCount (rbConfigs sys p) - rbFaultCount (rbConfigs sys p) = rbNmt sys"
    "rbMemberLocal (rbConfigs sys p) \<longleftrightarrow> p \<in> rbMembers sys" "isCoord (rbConfigs sys p) = rbCoord sys" "GetHash (rbConfigs sys p) = rbHash sys"
  using assms by (auto simp: wf_rb2_def wf_rb_def rbNmt_def)

lemma rb2CheckProgress_inv:
  assumes inv: "rb2NodeInv sys E C I P p (sc, ms)" and c: "rb2CheckProgress k (rbConfigs sys p) (sc, ms) = Inr (st', outs)"
    and wf: "wf_rb2 sys" and q: "\<And>h. supportedCommitHash ms = Some h \<Longrightarrow> echoQuorum sys E h"
  shows "rb2NodeInv sys (E \<union> echoesOf p outs) (C \<union> commitsOf p outs) I P p st'" "initsOf p outs = {}"
proof -
  note w = wf_rb2D [OF wf] and t = rb_thresholds [OF wf_rb2D(1) [OF wf]]
  have "rb2NodeInv sys (E \<union> echoesOf p outs) (C \<union> commitsOf p outs) I P p st' \<and> initsOf p outs = {}"
  proof (cases "rbHasDecided sc")
    case True
    then show ?thesis using c inv by (auto simp: rb2CheckProgress_def)
  next
    case False
    obtain sc1 o1 where e: "echoStep k sc = (sc1, o1)" by (cases "echoStep k sc")
    obtain sc2 o2 where cm: "commitStep (rbConfigs sys p) ms sc1 = (sc2, o2)" by (cases "commitStep (rbConfigs sys p) ms sc1")
    obtain sc3 o3 where d: "decideStep (rbConfigs sys p) ms sc2 = Inr (sc3, o3)" "st' = (sc3, ms)" "outs = o1 @ o2 @ o3"
      using c False e cm by (auto simp: rb2CheckProgress_def bind_res_Inr_iff)
    note s1 = echoStep_inv2 [OF inv e]
    have "echoQuorum sys (E \<union> echoesOf p o1) h" if "supportedCommitHash ms = Some h" for h
      using echoQuorum_mono [OF q [OF that]] by simp
    note s2 = commitStep_inv [OF s1(1) cm w(2,4) t(1) refl this]
    have nd: "decisionInitMsg sc2 = None" using False s1(4) s2(5) by (simp add: rbHasDecided_def)
    note s3 = decideStep_inv [OF s2(1) d(1) w(3) t(1,2) s2(4) nd]
    show ?thesis using s3 s1(2,3) s2(2,3) d(2,3) by simp
  qed
  then show "rb2NodeInv sys (E \<union> echoesOf p outs) (C \<union> commitsOf p outs) I P p st'" "initsOf p outs = {}" by blast+
qed

lemma rb2CheckProgress_ok:
  assumes "wf_rb2 sys" "\<And>h. decisionHashBytes sc = Some h \<Longrightarrow> decidableHash sys ms = Some h"
  shows "\<exists>res. rb2CheckProgress k (rbConfigs sys p) (sc, ms) = Inr res"
proof -
  obtain sc1 o1 where e: "echoStep k sc = (sc1, o1)" by (cases "echoStep k sc")
  obtain sc2 o2 where c: "commitStep (rbConfigs sys p) ms sc1 = (sc2, o2)" by (cases "commitStep (rbConfigs sys p) ms sc1")
  have "decisionHashBytes sc1 = decisionHashBytes sc" using e by (auto simp: echoStep_def Let_def split: if_splits)
  moreover have "decisionHashBytes sc2 = decisionHashBytes sc1" using c by (auto simp: commitStep_def Let_def split: if_splits)
  ultimately have "decisionHashBytes sc2 = None \<or> decisionHashBytes sc2 = decidableHash sys ms" using assms(2) by (cases "decisionHashBytes sc") auto
  then have "\<exists>x. decideStep (rbConfigs sys p) ms sc2 = Inr x"
    using wf_rb2D(3) [OF assms(1), of p] by (auto simp: decideStep_def Let_def decidableHash_def split: option.splits)
  then show ?thesis using e c by (auto simp: rb2CheckProgress_def)
qed

lemma itemInv_init:
  assumes "itemInv sys I supp sc" "rbCoord sys pub" "(pub, v) \<in> I"
  shows "itemInv sys I supp (sc\<lparr>validatedInitHashes := AList.update (rbHash sys v) (pub, v) (validatedInitHashes sc)\<rparr>)"
proof -
  have "set (AList.update (rbHash sys v) (pub, v) (validatedInitHashes sc)) \<subseteq> insert (rbHash sys v, pub, v) (set (validatedInitHashes sc))"
    by (rule set_AList_update)
  moreover have "\<forall>(h, pub, v) \<in> set (validatedInitHashes sc). h = rbHash sys v \<and> rbCoord sys pub \<and> (pub, v) \<in> I"
    using assms(1) by (simp add: itemInv_def)
  ultimately have "\<forall>(h, pub, v) \<in> set (AList.update (rbHash sys v) (pub, v) (validatedInitHashes sc)). h = rbHash sys v \<and> rbCoord sys pub \<and> (pub, v) \<in> I"
    using assms(2,3) by fast
  then show ?thesis using assms(1) by (simp add: itemInv_def)
qed

lemma rb2ProcessInit_inv:
  assumes inv: "rb2NodeInv sys E C I P p (sc, ms)" and c: "rb2ProcessInit (rbConfigs sys p) k r pub v (sc, ms) = Inr (st', outs)"
    and wf: "wf_rb2 sys" and q: "\<And>h. supportedCommitHash ms = Some h \<Longrightarrow> echoQuorum sys E h" and i: "r = 0 \<Longrightarrow> (pub, v) \<in> I"
  shows "rb2NodeInv sys (E \<union> echoesOf p outs) (C \<union> commitsOf p outs) I P p st'" "initsOf p outs = {}"
proof -
  note w = wf_rb2D [OF wf]
  let ?sc1 = "sc\<lparr>validatedInitHashes := AList.update (rbHash sys v) (pub, v) (validatedInitHashes sc)\<rparr>"
  have co: "rbCoord sys pub" "r = 0" using c w(5) by (auto simp: rb2ProcessInit_def Let_def split: if_splits)
  obtain sc2 ms2 o1 where cp: "rb2CheckProgress k (rbConfigs sys p) (?sc1, ms) = Inr ((sc2, ms2), o1)"
    using c w(5,6) co by (auto simp: rb2ProcessInit_def Let_def bind_res_Inr_iff)
  obtain sc3 o2 where sr: "SendRecover sc2 = (sc3, o2)" by (cases "SendRecover sc2")
  have c2: "st' = (sc3, ms2)" "outs = o1 @ o2" using c w(5,6) co cp sr by (simp_all add: rb2ProcessInit_def Let_def)
  have "rb2NodeInv sys E C I P p (?sc1, ms)"
    using inv itemInv_init [OF rb2NodeInvD(3) [OF inv] co(1) i [OF co(2)]] by (simp add: rb2NodeInv_def)
  note s = rb2CheckProgress_inv [OF this cp wf q]
  have r: "rbKeeps sc2 sc3" "quiet o2" using recover_keeps(1) [OF sr] by simp_all
  show "rb2NodeInv sys (E \<union> echoesOf p outs) (C \<union> commitsOf p outs) I P p st'" "initsOf p outs = {}"
    using rb2NodeInv_keeps [OF s(1) r(1)] s(2) r(2) c2 by simp_all
qed

lemma rb2NodeInv_store:
  assumes "rb2NodeInv sys E C I P p (sc, ms)" "storeInv sys E ms'" "commitInv sys C ms'"
    and "\<And>h. decidableHash sys ms = Some h \<Longrightarrow> decidableHash sys ms' = Some h"
  shows "rb2NodeInv sys E C I P p (sc, ms')"
  using assms by (simp add: rb2NodeInv_def itemInv_def)

lemma rb2Inv_send:
  assumes inv: "rb2Inv sys g" and p: "p \<notin> rbFaulty sys" and P: "rb2Proposals g \<subseteq> P'"
    and i: "rb2NodeInv sys (rb2Echoed g \<union> echoesOf p outs) (rb2Committed g \<union> commitsOf p outs) (rb2Inited g \<union> initsOf p outs) P' p st'"
  shows "rb2Inv sys ((rb2Send p st' outs g)\<lparr>rb2Proposals := P'\<rparr>)"
proof -
  let ?g = "rb2Send p st' outs g"
  have "rb2NodeInv sys (rb2Echoed ?g) (rb2Committed ?g) (rb2Inited ?g) P' q (rb2Nodes ?g q)" if q: "q \<notin> rbFaulty sys" for q
  proof (cases "q = p")
    case False
    have "rb2NodeInv sys (rb2Echoed g) (rb2Committed g) (rb2Inited g) (rb2Proposals g) q (rb2Nodes g q)" using inv q by (simp add: rb2Inv_def)
    then have "rb2NodeInv sys (rb2Echoed ?g) (rb2Committed ?g) (rb2Inited ?g) P' q (rb2Nodes g q)"
      by (rule rb2NodeInv_mono) (use P False in \<open>auto simp: rb2Send_def echoesOf_def commitsOf_def initsOf_def\<close>)
    then show ?thesis using False by (simp add: rb2Send_def)
  qed (use i in \<open>simp add: rb2Send_def\<close>)
  then show ?thesis by (simp add: rb2Inv_def rb2Send_def)
qed

lemma supportedCommit_echoQuorum:
  assumes "wf_rb2 sys" "rb2Inv sys g" "commitInv sys (rb2Committed g) ms" "supportedCommitHash ms = Some h"
  shows "echoQuorum sys (rb2Echoed g) h"
  using commits_echoQuorum [OF wf_rb2D(1) [OF assms(1)] assms(2), of "signers (rbSms ms) (MvCommit 0 h)" h] assms(3,4)
  by (simp add: commitInv_def)

lemma commits_same:
  assumes "\<And>h. signers (rbSms ms') (MvCommit 0 h) = signers (rbSms ms) (MvCommit 0 h)"
    "supportedCommitHash ms' = supportedCommitHash ms" "supportedCommitCount ms' = supportedCommitCount ms"
  shows "commitInv sys C ms \<Longrightarrow> commitInv sys C ms'" "decidableHash sys ms' = decidableHash sys ms"
  using assms by (auto simp: commitInv_def decidableHash_def split: option.splits)

lemma rb2GotInit_inv:
  assumes "rb2NodeInv sys E C I P p (sc, ms)" "rb2GotInit chk cfg r v sigs ms = (ms', res)" "plain_sigs sigs"
  shows "rb2NodeInv sys E C I P p (sc, ms')"
proof -
  note i = rb2NodeInvD [OF assms(1)]
  have w: "wf_rbms (rbNmt sys) ms" using i(1) by (simp add: storeInv_def)
  note s = rb2GotInit_spec [OF assms(2) w assms(3)]
  have "storeInv sys E ms'" using i(1) s(1,2) by (simp add: storeInv_def)
  then show ?thesis using rb2NodeInv_store [OF assms(1)] commits_same(1) [OF s(3,5,6) i(2)] commits_same(2) [OF s(3,5,6)] by simp
qed

lemma rb2GotEcho_inv:
  assumes inv: "rb2NodeInv sys E C I P p (sc, ms)" and got: "rb2GotEcho chk (rbConfigs sys p) r h sigs ms = (ms', res)" and pl: "plain_sigs sigs"
    and wf: "wf_rb2 sys" and made: "\<And>si. si \<in> set sigs \<Longrightarrow> chk si \<Longrightarrow> si_pub si \<in> rbMembers sys \<and> (r = 0 \<longrightarrow> (si_pub si, h) \<in> E)"
  shows "rb2NodeInv sys E C I P p (sc, ms')"
    "panics res \<Longrightarrow> echoQuorum sys E h \<and> (\<exists>h''. echoQuorum sys E h'' \<and> h'' \<noteq> h)"
proof -
  note i = rb2NodeInvD [OF inv]
  have w: "wf_rbms (rbNmt sys) ms" using i(1) by (simp add: storeInv_def)
  have g: "GotEcho chk (rbConfigs sys p) r h sigs ms = (ms', res)" using got by (simp add: rb2GotEcho_def)
  note s = GotEcho_spec [OF g w pl wf_rb2D(3) [OF wf, symmetric]] and s2 = GotEcho_commits [OF g w pl]
  have sub: "signers (rbSms ms') (MvEcho 0 h') \<subseteq> {q \<in> rbMembers sys. (q, h') \<in> E}" for h'
  proof -
    have "signers (rbSms ms) (MvEcho 0 h') \<subseteq> {q \<in> rbMembers sys. (q, h') \<in> E}" using i(1) by (simp add: storeInv_def)
    then show ?thesis using s(1) [of h'] made by (fastforce split: if_splits)
  qed
  then have st: "storeInv sys E ms'" using s(2) by (simp add: storeInv_def)
  show "rb2NodeInv sys E C I P p (sc, ms')"
    using rb2NodeInv_store [OF inv st] commits_same(1) [OF s2 i(2)] commits_same(2) [OF s2] by simp
  show "echoQuorum sys E h \<and> (\<exists>h''. echoQuorum sys E h'' \<and> h'' \<noteq> h)" if p: "panics res"
  proof -
    obtain h'' where "rbNmt sys \<le> int (card (signers (rbSms ms') (MvEcho 0 h)))" "supportedEchoHash ms' = Some h''" "h'' \<noteq> h"
      using s(4) [OF p] by blast
    then show ?thesis using storeInv_echoQuorum [OF st] sub [of h] unfolding echoQuorum_def by blast
  qed
qed

lemma rb2GotCommit_inv:
  assumes inv: "rb2NodeInv sys E C I P p (sc, ms)" and got: "rb2GotCommit chk (rbConfigs sys p) r h sigs ms = (ms', res)" and pl: "plain_sigs sigs"
    and wf: "wf_rb2 sys" and np: "\<not> panics res"
    and made: "\<And>si. si \<in> set sigs \<Longrightarrow> chk si \<Longrightarrow> si_pub si \<in> rbMembers sys \<and> (r = 0 \<longrightarrow> (si_pub si, h) \<in> C)"
  shows "rb2NodeInv sys E C I P p (sc, ms')"
proof -
  note i = rb2NodeInvD [OF inv]
  have w: "wf_rbms (rbNmt sys) ms" using i(1) by (simp add: storeInv_def)
  have "\<forall>si. si \<in> set sigs \<longrightarrow> chk si \<longrightarrow> si_pub si \<in> rbMembers sys \<and> (r = 0 \<longrightarrow> (si_pub si, h) \<in> C)" using made by blast
  note s = rb2GotCommit_spec [OF got w pl i(2) wf_rb2D(2) [OF wf] this]
  show ?thesis
  proof (rule rb2NodeInv_store [OF inv])
    show "storeInv sys E ms'" using i(1) s(1,2) by (simp add: storeInv_def)
    show "commitInv sys C ms'" using s(5) [OF np] .
    show "decidableHash sys ms' = Some h'" if "decidableHash sys ms = Some h'" for h'
      using that s(6) [of h'] by (auto simp: decidableHash_def split: if_splits)
  qed
qed

lemma rb2NodeInv_quiet:
  "rb2NodeInv sys E C I P p st \<Longrightarrow> quiet outs \<Longrightarrow> rb2NodeInv sys (E \<union> echoesOf p outs) (C \<union> commitsOf p outs) (I \<union> initsOf p outs) P p st"
  by simp

lemma rb2Inv_propose:
  assumes inv: "rb2Inv sys g" and p: "p \<notin> rbFaulty sys" and st: "rb2Nodes g p = (sc, ms)"
    and r: "rbItemGotProposal (rbConfigs sys p) v sc = Inr (sc', outs)"
  shows "rb2Inv sys ((rb2Send p (sc', ms) outs g)\<lparr>rb2Proposals := insert (p, v) (rb2Proposals g)\<rparr>)"
proof -
  note i = rb2InvD [OF inv p st]
  have r: "outs = [BcastInit v]" "sc' = sc\<lparr>rbGotProposal := True, myProposal := Some v\<rparr>" "\<not> rbGotProposal sc"
    using r by (auto simp: rbItemGotProposal_def split: if_splits)
  have o: "echoesOf p outs = {}" "commitsOf p outs = {}" "initsOf p outs = {(p, v)}"
    unfolding r(1) by (auto simp: echoesOf_def commitsOf_def initsOf_def)
  have "rb2NodeInv sys (rb2Echoed g) (rb2Committed g) (rb2Inited g \<union> {(p, v)}) (insert (p, v) (rb2Proposals g)) p (sc', ms)"
  proof (rule rb2NodeInvI)
    show "itemInv sys (rb2Inited g \<union> {(p, v)}) (decidableHash sys ms) sc'" using i(3) r(2) unfolding itemInv_def by auto
    show "signInv sys (rb2Echoed g) (rb2Inited g \<union> {(p, v)}) (insert (p, v) (rb2Proposals g)) p (sentEcho sc') (rbGotProposal sc')"
      using signInv_propose [of sys "rb2Echoed g" "rb2Inited g" "rb2Proposals g" p "sentEcho sc" v] i(5) r(2,3) by simp
  qed (use i r(2) in simp_all)
  then show ?thesis using rb2Inv_send [OF inv p, of "insert (p, v) (rb2Proposals g)" outs "(sc', ms)"] o by auto
qed

lemma rb2_recover_inv:
  assumes inv: "rb2NodeInv sys E C I P p st"
  shows "rb2ProcessRecoverTimeout st = (st', outs) \<Longrightarrow> rb2NodeInv sys E C I P p st' \<and> quiet outs"
    "rb2ProcessRequestRecover h c st = (st', outs) \<Longrightarrow> rb2NodeInv sys E C I P p st' \<and> quiet outs"
proof -
  obtain sc ms where st: "st = (sc, ms)" by (cases st)
  have k: "rb2NodeInv sys E C I P p (sc', ms)" if "rbKeeps sc sc'" for sc' using rb2NodeInv_keeps [of sys E C I P p sc ms] inv st that by simp
  show "rb2ProcessRecoverTimeout st = (st', outs) \<Longrightarrow> rb2NodeInv sys E C I P p st' \<and> quiet outs"
    using inv k recover_keeps(3) [of sc] st by (auto simp: rb2ProcessRecoverTimeout_def split: if_splits prod.splits)
  show "rb2ProcessRequestRecover h c st = (st', outs) \<Longrightarrow> rb2NodeInv sys E C I P p st' \<and> quiet outs"
    using k recover_keeps(2) [of h c sc] st by (auto simp: rb2ProcessRequestRecover_def split: prod.splits)
qed

lemma rb2Inv_step:
  assumes step: "rb2_step sys g g'" and wf: "wf_rb2 sys" and inv: "rb2Inv sys g"
  shows "rb2Inv sys g'"
proof -
  let ?N = "rb2NodeInv sys (rb2Echoed g) (rb2Committed g) (rb2Inited g) (rb2Proposals g)"
  have node: "?N p (rb2Nodes g p)" if "p \<notin> rbFaulty sys" for p using inv that by (simp add: rb2Inv_def)
  have send: "rb2Inv sys (rb2Send p st' outs g)" if "p \<notin> rbFaulty sys"
    and "rb2NodeInv sys (rb2Echoed g \<union> echoesOf p outs) (rb2Committed g \<union> commitsOf p outs) (rb2Inited g \<union> initsOf p outs) (rb2Proposals g) p st'"
    for p st' outs
    using rb2Inv_send [OF inv that(1) subset_refl that(2)] by (simp add: rb2Send_def)
  have quiet: "rb2Inv sys (rb2Send p st' outs g)" if "p \<notin> rbFaulty sys" "?N p st'" "quiet outs" for p st' outs
    using send [OF that(1) rb2NodeInv_quiet [OF that(2,3)]] .
  have eq: "echoQuorum sys (rb2Echoed g) h" if "?N p (sc, ms)" "supportedCommitHash ms = Some h" for p sc ms h
    using supportedCommit_echoQuorum [OF wf inv rb2NodeInvD(2) [OF that(1)] that(2)] .
  from step show ?thesis
  proof cases
    case (start p sc ms)
    have "rbKeeps sc (rbStart (rbConfigs sys p) sc)" by (simp add: rbKeeps_def rbStart_def Let_def)
    then show ?thesis using start quiet node [of p] rb2NodeInv_keeps by fastforce
  next
    case (propose p sc ms v sc' outs)
    then show ?thesis using rb2Inv_propose [OF inv] by simp
  next
    case (init p sc ms sigs chk r v ms' pub k st' outs)
    have i: "?N p (sc, ms)" using node [of p] init by simp
    note i' = rb2GotInit_inv [OF i init(6,4)]
    have w: "wf_rbms (rbNmt sys) ms" using rb2NodeInvD(1) [OF i] by (simp add: storeInv_def)
    have "(pub, v) \<in> rb2Inited g" if "r = 0" using rb2GotInit_spec(7) [OF init(6) w init(4)] init(5) that by blast
    note s = rb2ProcessInit_inv [OF i' init(7) wf eq [OF i'] this]
    show ?thesis unfolding init(1) using s by (intro send [OF init(2)]) simp
  next
    case (init_reject p sc ms sigs chk r v ms' e)
    then show ?thesis using quiet rb2GotInit_inv [of sys _ _ _ _ p sc ms] node [of p] by fastforce
  next
    case (echo p sc ms sigs chk r h ms' res)
    have "?N p (sc, ms)" using node [of p] echo by simp
    from rb2GotEcho_inv(1) [OF this echo(6,4) wf echo(5)] show ?thesis using quiet echo(1,2) by simp
  next
    case (commit p sc ms sigs chk r h ms' res)
    have "?N p (sc, ms)" using node [of p] commit by simp
    from rb2GotCommit_inv [OF this commit(6,4) wf commit(7,5)] show ?thesis using quiet commit(1,2) by simp
  next
    case (progress p k st' outs)
    obtain sc ms where st: "rb2Nodes g p = (sc, ms)" by (cases "rb2Nodes g p")
    have i: "?N p (sc, ms)" using node [OF progress(2)] st by simp
    have "rb2CheckProgress k (rbConfigs sys p) (sc, ms) = Inr (st', outs)" using progress(3) st by (simp add: rb2ProcessVote_def)
    note s = rb2CheckProgress_inv [OF i this wf eq [OF i]]
    show ?thesis unfolding progress(1) using s by (intro send [OF progress(2)]) simp
  next
    case (timeout p st' outs)
    then show ?thesis using quiet rb2_recover_inv(1) [OF node] by blast
  next
    case (request p h c st' outs)
    then show ?thesis using quiet rb2_recover_inv(2) [OF node] by blast
  qed (use node in \<open>auto simp: rb2Inv_def intro: rb2NodeInv_mono\<close>)
qed

lemma rb2NodeInv_init [simp]: "0 \<le> rbT sys \<Longrightarrow> rb2NodeInv sys {} {} {} {} p (rb2GenerateNewItem, rb2NewMessageState)"
  by (simp add: rb2NodeInv_def storeInv_def itemInv_def signInv_def commitInv_def commitSigned_def rb2GenerateNewItem_def rb2NewMessageState_def
      wf_rbms_def)

lemma rb2Inv_reachable: "rb2_reachable sys g \<Longrightarrow> wf_rb2 sys \<Longrightarrow> rb2Inv sys g"
proof (induction rule: rb2_reachable.induct)
  case init
  then show ?case using rb_thresholds(1) [OF wf_rb2D(1) [OF init]] by (simp add: rb2Inv_def rb2Init_def)
next
  case (step g g')
  then show ?case using rb2Inv_step by blast
qed

section \<open>Agreement and totality\<close>

lemma decided2:
  assumes "rb2Inv sys g" "p \<notin> rbFaulty sys" "rbGetDecision cfg (fst (rb2Nodes g p)) = Inr (pub, v)"
  shows "decisionHashBytes (fst (rb2Nodes g p)) = Some (rbHash sys v)" "\<exists>c. pub = Some c \<and> rbCoord sys c \<and> (c, v) \<in> rb2Inited g"
proof -
  obtain sc ms where st: "rb2Nodes g p = (sc, ms)" by (cases "rb2Nodes g p")
  have "decisionInitMsg sc = Some v" "decisionPub sc = pub"
    using assms(3) st by (auto simp: rbGetDecision_def split: option.splits if_splits)
  then show "decisionHashBytes (fst (rb2Nodes g p)) = Some (rbHash sys v)" "\<exists>c. pub = Some c \<and> rbCoord sys c \<and> (c, v) \<in> rb2Inited g"
    using rb2InvD(3) [OF assms(1,2) st] st by (auto simp: itemInv_def)
qed

lemma decisionHash_commits:
  assumes "wf_rb2 sys" "rb2Inv sys g" "p \<notin> rbFaulty sys" "decisionHashBytes (fst (rb2Nodes g p)) = Some h"
  shows "rbNmt sys \<le> int (card {q \<in> rbMembers sys. (q, h) \<in> rb2Committed g})" "echoQuorum sys (rb2Echoed g) h"
proof -
  obtain sc ms where st: "rb2Nodes g p = (sc, ms)" by (cases "rb2Nodes g p")
  note i = rb2InvD [OF assms(2,3) st]
  have h: "rbNmt sys \<le> supportedCommitCount ms" "supportedCommitHash ms = Some h"
    using i(3) assms(4) st by (auto simp: itemInv_def decidableHash_def split: if_splits)
  have "finite (rbMembers sys)" using assms(1) by (simp add: wf_rb2_def wf_rb_def)
  then have "card (signers (rbSms ms) (MvCommit 0 h)) \<le> card {q \<in> rbMembers sys. (q, h) \<in> rb2Committed g}"
    using i(2) by (intro card_mono) (simp_all add: commitInv_def)
  then show "rbNmt sys \<le> int (card {q \<in> rbMembers sys. (q, h) \<in> rb2Committed g})" using h i(2) by (simp add: commitInv_def)
  show "echoQuorum sys (rb2Echoed g) h" using supportedCommit_echoQuorum [OF assms(1,2) i(2) h(2)] .
qed

text \<open>
  The commits of the correct members have arrived at a process, and a process with nothing left to do.
\<close>

definition commitsArrived :: "('p, 'v, 'h) rb_system \<Rightarrow> ('p, 'v, 'h) rb2_global \<Rightarrow> 'p \<Rightarrow> bool" where
  "commitsArrived sys g p \<longleftrightarrow> (\<forall>q h. q \<in> rbMembers sys - rbFaulty sys \<longrightarrow> (q, h) \<in> rb2Committed g \<longrightarrow>
     q \<in> signers (rbSms (snd (rb2Nodes g p))) (MvCommit 0 h))"

definition settled :: "('p, 'v, 'h) rb_config \<Rightarrow> ('p, 'v, 'h) rb2_state \<Rightarrow> bool" where
  "settled cfg st \<longleftrightarrow> rb2CheckProgress 0 cfg st = Inr (st, [])"

text \<open>Only the first entry of the map of init messages is tried: with an echo to send, no choice of the entry leaves the process idle.\<close>

lemma settledD:
  assumes "settled cfg (sc, ms)" "\<not> rbHasDecided sc"
  shows "commitStep cfg ms sc = (sc, [])" "decideStep cfg ms sc = Inr (sc, [])" "echoStep k sc = (sc, [])"
proof -
  obtain sc1 o1 where e: "echoStep 0 sc = (sc1, o1)" by (cases "echoStep 0 sc")
  obtain sc2 o2 where c: "commitStep cfg ms sc1 = (sc2, o2)" by (cases "commitStep cfg ms sc1")
  have d: "decideStep cfg ms sc2 = Inr (sc, [])" "o1 = []" "o2 = []"
    using assms e c by (auto simp: settled_def rb2CheckProgress_def bind_res_Inr_iff)
  have e1: "sc1 = sc" "sentEcho sc \<or> validatedInitHashes sc = []" using e d(2) by (auto simp: echoStep_def Let_def split: if_splits)
  have "sentCommit sc = sentCommit sc2"
    using d(1) by (auto simp: decideStep_def StartRecoverTimeout_def Let_def split: if_splits option.splits)
  then have "sc2 = sc1" using c d(3) e1 by (auto simp: commitStep_def Let_def split: if_splits)
  then show "commitStep cfg ms sc = (sc, [])" "decideStep cfg ms sc = Inr (sc, [])" "echoStep k sc = (sc, [])"
    using c d e1 by (auto simp: echoStep_def Let_def)
qed

lemma settled_sentCommit:
  assumes "settled cfg (sc, ms)" "rbFaultCount cfg < supportedCommitCount ms" "rbHasDecided sc \<Longrightarrow> sentCommit sc"
  shows "sentCommit sc"
proof (rule ccontr)
  assume "\<not> sentCommit sc"
  moreover from this have "\<not> rbHasDecided sc" using assms(3) by blast
  then have "fst (commitStep cfg ms sc) = sc" using settledD(1) [OF assms(1)] by simp
  ultimately have "sc = sc\<lparr>sentCommit := True\<rparr>" using assms(2) by (auto simp: commitStep_def Let_def split: if_splits)
  then have "sentCommit sc = True" by (metis RbBcast2.select_convs(1) RbBcast2.surjective RbBcast2.update_convs(1))
  then show False using \<open>\<not> sentCommit sc\<close> by simp
qed

lemma settled_decided:
  assumes "settled cfg (sc, ms)" "rbMemberCount cfg - rbFaultCount cfg \<le> supportedCommitCount ms" "supportedCommitHash ms = Some h" "\<not> rbHasDecided sc"
  shows "decisionHashBytes sc = Some h" "map_of (validatedInitHashes sc) h = None" "requestRecoverTimer sc"
proof -
  have d: "decideStep cfg ms sc = Inr (sc, [])" using settledD(2) [OF assms(1,4)] .
  have nd: "decisionInitMsg sc = None" using assms(4) by (simp add: rbHasDecided_def)
  have eq: "decisionHashBytes sc = None \<or> decisionHashBytes sc = Some h" using d assms(2,3) by (auto simp: decideStep_def split: if_splits)
  let ?sc1 = "if decisionHashBytes sc = None then sc\<lparr>decisionHashBytes := Some h\<rparr> else sc"
  have h1: "decisionHashBytes ?sc1 = Some h" using eq by auto
  show n: "map_of (validatedInitHashes sc) h = None"
  proof (rule ccontr)
    assume "map_of (validatedInitHashes sc) h \<noteq> None"
    then obtain pub v where "map_of (validatedInitHashes sc) h = Some (pub, v)" by auto
    moreover have "validatedInitHashes ?sc1 = validatedInitHashes sc" by simp
    ultimately have "map_of (validatedInitHashes ?sc1) h = Some (pub, v)" by (simp only:)
    then have "sc = ?sc1\<lparr>decisionInitMsg := Some v, decisionPub := Some pub, rbDecided := True\<rparr>"
      using d assms(2,3) eq h1 by (auto simp: decideStep_def Let_def)
    then have "decisionInitMsg sc = decisionInitMsg (?sc1\<lparr>decisionInitMsg := Some v, decisionPub := Some pub, rbDecided := True\<rparr>)" by (rule arg_cong)
    then show False using nd by simp
  qed
  then have "StartRecoverTimeout ?sc1 = (sc, [])" using d assms(2,3) eq h1 by (auto simp: decideStep_def Let_def)
  then have "requestRecoverTimer ?sc1" "?sc1 = sc" by (auto simp: StartRecoverTimeout_def split: if_splits)
  then show "requestRecoverTimer sc" "decisionHashBytes sc = Some h" using h1 by metis+
qed

text \<open>When the commits of the correct members arrived, more than \<open>t\<close> of them for one hash make it the supported one.\<close>

lemma arrived_supported:
  assumes wf: "wf_rb2 sys" and inv: "rb2Inv sys g" and ar: "commitsArrived sys g p" and p: "p \<notin> rbFaulty sys" and st: "rb2Nodes g p = (sc, ms)"
    and S: "S \<subseteq> {q \<in> rbMembers sys - rbFaulty sys. (q, h) \<in> rb2Committed g}" "rbT sys < int (card S)"
  shows "supportedCommitHash ms = Some h" "int (card S) \<le> supportedCommitCount ms"
proof -
  have ci: "commitInv sys (rb2Committed g) ms" using rb2InvD(2) [OF inv p st] .
  have "S \<subseteq> signers (rbSms ms) (MvCommit 0 h)" using ar p S(1) st by (fastforce simp: commitsArrived_def)
  then have c: "card S \<le> card (signers (rbSms ms) (MvCommit 0 h))" by (intro card_mono) simp_all
  have "supportedCommitHash ms \<noteq> None"
  proof
    assume "supportedCommitHash ms = None"
    then have "int (card (signers (rbSms ms) (MvCommit 0 h))) \<le> rbT sys" using ci by (simp add: commitInv_def)
    then show False using c S(2) by linarith
  qed
  then obtain h' where h': "supportedCommitHash ms = Some h'" by blast
  have h: "h' = h"
    by (rule commits_agree [OF wf_rb2D(1) [OF wf] inv, of "signers (rbSms ms) (MvCommit 0 h')" _ S])
      (use ci S h' in \<open>auto simp: commitInv_def\<close>)
  show "supportedCommitHash ms = Some h" using h' h by simp
  show "int (card S) \<le> supportedCommitCount ms" using ci c h' h by (simp add: commitInv_def)
qed

lemma correct_members:
  assumes "wf_rb sys" "S \<subseteq> rbMembers sys"
  shows "int (card S) - rbT sys \<le> int (card (S - rbFaulty sys))"
proof -
  have "card S - card (rbFaulty sys) \<le> card (S - rbFaulty sys)" by (rule diff_card_le_card_Diff) (use assms(1) in \<open>simp add: wf_rb_def\<close>)
  then show ?thesis using assms(1) by (auto simp: wf_rb_def)
qed

lemma all_commit:
  assumes wf: "wf_rb2 sys" and inv: "rb2Inv sys g" and ar: "commitsArrived sys g q" and q: "q \<in> rbMembers sys - rbFaulty sys"
    and se: "settled (rbConfigs sys q) (rb2Nodes g q)" and d: "p \<notin> rbFaulty sys" "decisionHashBytes (fst (rb2Nodes g p)) = Some h"
    and cm: "commitMember (rbConfigs sys q) (Some h)"
  shows "(q, h) \<in> rb2Committed g"
proof -
  obtain sc ms where st: "rb2Nodes g q = (sc, ms)" by (cases "rb2Nodes g q")
  note t = rb_thresholds [OF wf_rb2D(1) [OF wf]] and dc = decisionHash_commits [OF wf inv d]
  have qf: "q \<notin> rbFaulty sys" using q by simp
  note i = rb2InvD [OF inv qf st]
  let ?S = "{q \<in> rbMembers sys. (q, h) \<in> rb2Committed g}"
  have S: "?S - rbFaulty sys \<subseteq> {q \<in> rbMembers sys - rbFaulty sys. (q, h) \<in> rb2Committed g}" by auto
  have "rbT sys < int (card (?S - rbFaulty sys))" using correct_members [OF wf_rb2D(1) [OF wf], of ?S] dc(1) t(3) by auto
  note s = arrived_supported [OF wf inv ar qf st S this] this
  have "rbHasDecided sc \<Longrightarrow> sentCommit sc" using i(3,4) by (auto simp: rbHasDecided_def itemInv_def)
  then have "sentCommit sc" using settled_sentCommit [of "rbConfigs sys q" sc ms] se st s(2,3) wf_rb2D(2) [OF wf] by simp
  then obtain h' where h': "echoQuorum sys (rb2Echoed g) h'" "commitMember (rbConfigs sys q) (Some h') \<longrightarrow> (q, h') \<in> rb2Committed g"
    using i(6) q by (auto simp: commitSigned_def)
  then have "h' = h" using echoQuorum_agree [OF wf_rb2D(1) [OF wf] rb2Inv_once [OF inv] h'(1) dc(2)] by simp
  then show ?thesis using h'(2) cm by simp
qed

section \<open>Main results of the broadcast with commits\<close>

text \<open>
  C9 (agreement). In every reachable state of a system with at most \<open>GetOneThirdBottom n\<close> faulty members, two correct
  processes that delivered a proposal delivered proposals of the same hash, and the same proposal when the hash function is
  injective.
\<close>

theorem rb2_agreement:
  assumes "rb2_reachable sys g" "wf_rb2 sys" "p \<notin> rbFaulty sys" "q \<notin> rbFaulty sys"
    and "rbGetDecision (rbConfigs sys p) (fst (rb2Nodes g p)) = Inr (pub, v)"
    and "rbGetDecision (rbConfigs sys q) (fst (rb2Nodes g q)) = Inr (pub', v')"
  shows "rbHash sys v = rbHash sys v' \<and> (inj (rbHash sys) \<longrightarrow> v = v')"
proof -
  have inv: "rb2Inv sys g" using rb2Inv_reachable [OF assms(1,2)] .
  have "echoQuorum sys (rb2Echoed g) (rbHash sys v)" "echoQuorum sys (rb2Echoed g) (rbHash sys v')"
    using decisionHash_commits(2) [OF assms(2) inv assms(3) decided2(1) [OF inv assms(3,5)]]
      decisionHash_commits(2) [OF assms(2) inv assms(4) decided2(1) [OF inv assms(4,6)]] .
  then have "rbHash sys v = rbHash sys v'" using echoQuorum_agree [OF wf_rb2D(1) [OF assms(2)] rb2Inv_once [OF inv]] by blast
  then show ?thesis by (auto dest: injD)
qed

text \<open>
  C10 (validity). A delivered proposal was signed in an init message by a coordinator, the one reported with the decision; when
  that coordinator is correct, the proposal is the one its state machine gave it.
\<close>

theorem rb2_validity:
  assumes "rb2_reachable sys g" "wf_rb2 sys" "p \<notin> rbFaulty sys"
    and "rbGetDecision (rbConfigs sys p) (fst (rb2Nodes g p)) = Inr (pub, v)"
  shows "\<exists>c. pub = Some c \<and> rbCoord sys c \<and> (c, v) \<in> rb2Inited g \<and> (c \<notin> rbFaulty sys \<longrightarrow> (c, v) \<in> rb2Proposals g)"
proof -
  have inv: "rb2Inv sys g" using rb2Inv_reachable [OF assms(1,2)] .
  have "\<forall>c. c \<notin> rbFaulty sys \<longrightarrow> (c, v) \<in> rb2Inited g \<longrightarrow> (c, v) \<in> rb2Proposals g"
    using rb2InvD(5) [OF inv _ prod.collapse [symmetric]] by (simp add: signInv_def)
  with decided2(2) [OF inv assms(3,4)] show ?thesis by blast
qed

text \<open>
  C11 (totality). In a reachable state in which the commits of the correct members have arrived at all correct members and at the
  correct process \<open>q\<close>, and none of these has a step of \<^verbatim>\<open>checkProgress\<close> left, a hash decided by any correct process is
  decided by \<open>q\<close>, which has delivered its proposal, or does not have the proposal and has started the timer after which it
  requests it. The correct members are assumed to pass the random selection of members for the commit of that hash, as they do when
  it is off: a member that \<^verbatim>\<open>CheckRandMember\<close> rejects sends no commit.
\<close>

theorem rb2_totality:
  assumes "rb2_reachable sys g" "wf_rb2 sys"
    and "\<forall>r. r \<in> insert q (rbMembers sys - rbFaulty sys) \<longrightarrow> commitsArrived sys g r \<and> settled (rbConfigs sys r) (rb2Nodes g r)"
    and "p \<notin> rbFaulty sys" "decisionHashBytes (fst (rb2Nodes g p)) = Some h" "q \<notin> rbFaulty sys" "rb2Nodes g q = (sc, ms)"
    and "\<forall>r. r \<in> rbMembers sys - rbFaulty sys \<longrightarrow> commitMember (rbConfigs sys r) (Some h)"
  shows "decisionHashBytes sc = Some h \<and> (rbHasDecided sc \<or> (map_of (validatedInitHashes sc) h = None \<and> requestRecoverTimer sc))"
proof -
  have inv: "rb2Inv sys g" using rb2Inv_reachable [OF assms(1,2)] .
  note w = wf_rb2D [OF assms(2)] and t = rb_thresholds [OF wf_rb2D(1) [OF assms(2)]]
  have se: "settled (rbConfigs sys q) (sc, ms)" and aq: "commitsArrived sys g q" using assms(3) unfolding assms(7) [symmetric] by blast+
  have M: "rbMembers sys - rbFaulty sys \<subseteq> {r \<in> rbMembers sys - rbFaulty sys. (r, h) \<in> rb2Committed g}"
    using all_commit [OF assms(2) inv _ _ _ assms(4,5)] assms(3,8) by blast
  have n: "rbNmt sys \<le> int (card (rbMembers sys - rbFaulty sys))" using correct_members [OF w(1) subset_refl] by (simp add: rbNmt_def)
  then have "rbT sys < int (card (rbMembers sys - rbFaulty sys))" using t(2) by linarith
  note a = arrived_supported [OF assms(2) inv aq assms(6,7) M this]
  then have s: "supportedCommitHash ms = Some h" "rbNmt sys \<le> supportedCommitCount ms" using n by simp_all
  show ?thesis
  proof (cases "rbHasDecided sc")
    case True
    then show ?thesis using rb2InvD(3) [OF inv assms(6,7)] s by (auto simp: rbHasDecided_def itemInv_def decidableHash_def)
  next
    case False
    then show ?thesis using settled_decided [OF se _ s(1) False] s(2) w(3) by simp
  qed
qed

lemma rb2GotCommit_no_panic:
  assumes wf: "wf_rb2 sys" and inv: "rb2Inv sys g" and p: "p \<notin> rbFaulty sys" and st: "rb2Nodes g p = (sc, ms)" and pl: "plain_sigs sigs"
    and made: "\<forall>si. si \<in> set sigs \<longrightarrow> chk si \<longrightarrow> si_pub si \<in> rbMembers sys \<and> (r = 0 \<longrightarrow> (si_pub si, h) \<in> rb2Committed g)"
    and got: "rb2GotCommit chk (rbConfigs sys p) r h sigs ms = (ms', res)"
  shows "\<not> panics res"
proof
  assume pan: "panics res"
  note i = rb2InvD [OF inv p st]
  have w: "wf_rbms (rbNmt sys) ms" using i(1) by (simp add: storeInv_def)
  note s = rb2GotCommit_spec [OF got w pl i(2) wf_rb2D(2) [OF wf] made]
  note x = s(7) [OF pan]
  have "echoQuorum sys (rb2Echoed g) h" using commits_echoQuorum [OF wf_rb2D(1) [OF wf] inv s(4)] x by blast
  moreover obtain h'' where "h'' \<noteq> h" "echoQuorum sys (rb2Echoed g) h''"
    using x storeInv_echoQuorum [OF i(1)] supportedCommit_echoQuorum [OF wf inv i(2)] by blast
  ultimately show False using echoQuorum_agree [OF wf_rb2D(1) [OF wf] rb2Inv_once [OF inv]] by blast
qed

lemma rb2ProcessInit_ok:
  assumes "wf_rb2 sys" "itemInv sys I (decidableHash sys ms) sc" "rbCoord sys pub"
  shows "(\<exists>x. rb2ProcessInit (rbConfigs sys p) k r pub v (sc, ms) = Inr x) \<longleftrightarrow> r = 0"
proof -
  let ?sc1 = "sc\<lparr>validatedInitHashes := AList.update (rbHash sys v) (pub, v) (validatedInitHashes sc)\<rparr>"
  have "\<And>h. decisionHashBytes ?sc1 = Some h \<Longrightarrow> decidableHash sys ms = Some h" using assms(2) by (simp add: itemInv_def)
  then obtain sc2 ms2 o2 where "rb2CheckProgress k (rbConfigs sys p) (?sc1, ms) = Inr ((sc2, ms2), o2)"
    using rb2CheckProgress_ok [OF assms(1)] by (metis prod.collapse)
  then show ?thesis using wf_rb2D(5,6) [OF assms(1)] assms(3) by (auto simp: rb2ProcessInit_def Let_def split: prod.splits)
qed

text \<open>
  C12 (no panic). At a correct process, in every reachable state, receiving echoes and commits that were signed by members ends without a
  call to \<^verbatim>\<open>panic\<close> in the message state, and so does \<^verbatim>\<open>checkProgress\<close>: there are never two hashes to support, nor an echoed and a
  committed hash that differ. An init message does not make the message state panic, but if it accepts the message, processing it panics
  exactly when its round is not 0, since this \<^verbatim>\<open>GotMsg\<close> does not check the round.
\<close>

theorem rb2_no_panic:
  assumes "rb2_reachable sys g" "wf_rb2 sys" "p \<notin> rbFaulty sys" "rb2Nodes g p = (sc, ms)" "plain_sigs sigs"
    and "\<forall>si. si \<in> set sigs \<longrightarrow> chk si \<longrightarrow> si_pub si \<in> rbMembers sys \<and> (r = 0 \<longrightarrow> (si_pub si, h) \<in> rb2Echoed g)"
    and "\<forall>si. si \<in> set sigs \<longrightarrow> chk' si \<longrightarrow> si_pub si \<in> rbMembers sys \<and> (r = 0 \<longrightarrow> (si_pub si, h) \<in> rb2Committed g)"
  shows "\<not> panics (snd (rb2GotEcho chk (rbConfigs sys p) r h sigs ms)) \<and> \<not> panics (snd (rb2GotCommit chk' (rbConfigs sys p) r h sigs ms)) \<and>
    (\<exists>x. rb2ProcessVote (rbConfigs sys p) k 0 (sc, ms) = Inr x) \<and>
    (case rb2GotInit chk'' (rbConfigs sys p) r v sigs ms of
       (ms', Inl e) \<Rightarrow> \<not> panics (Inl e :: unit res)
     | (ms', Inr pub) \<Rightarrow> (\<exists>x. rb2ProcessInit (rbConfigs sys p) k r pub v (sc, ms') = Inr x) \<longleftrightarrow> r = 0)"
proof (intro conjI)
  have inv: "rb2Inv sys g" using rb2Inv_reachable [OF assms(1,2)] .
  let ?N = "rb2NodeInv sys (rb2Echoed g) (rb2Committed g) (rb2Inited g) (rb2Proposals g) p"
  have n: "?N (sc, ms)" using inv assms(3,4) by (auto simp: rb2Inv_def)
  note i = rb2NodeInvD [OF n]
  have made: "\<And>si. si \<in> set sigs \<Longrightarrow> chk si \<Longrightarrow> si_pub si \<in> rbMembers sys \<and> (r = 0 \<longrightarrow> (si_pub si, h) \<in> rb2Echoed g)" using assms(6) by blast
  show "\<not> panics (snd (rb2GotEcho chk (rbConfigs sys p) r h sigs ms))"
    using rb2GotEcho_inv(2) [OF n surjective_pairing assms(5,2) made] echoQuorum_agree [OF wf_rb2D(1) [OF assms(2)] rb2Inv_once [OF inv]] by blast
  show "\<not> panics (snd (rb2GotCommit chk' (rbConfigs sys p) r h sigs ms))"
    using rb2GotCommit_no_panic [OF assms(2) inv assms(3-5,7) surjective_pairing] .
  have "\<And>h. decisionHashBytes sc = Some h \<Longrightarrow> decidableHash sys ms = Some h" using i(3) by (simp add: itemInv_def)
  then show "\<exists>x. rb2ProcessVote (rbConfigs sys p) k 0 (sc, ms) = Inr x" using rb2CheckProgress_ok [OF assms(2)] by (simp add: rb2ProcessVote_def)
  obtain ms' res where got: "rb2GotInit chk'' (rbConfigs sys p) r v sigs ms = (ms', res)" by (cases "rb2GotInit chk'' (rbConfigs sys p) r v sigs ms")
  have w: "wf_rbms (rbNmt sys) ms" using i(1) by (simp add: storeInv_def)
  note s = rb2GotInit_spec [OF got w assms(5)]
  have "(\<exists>x. rb2ProcessInit (rbConfigs sys p) k r pub v (sc, ms') = Inr x) \<longleftrightarrow> r = 0" if "res = Inr pub" for pub
    using rb2ProcessInit_ok [OF assms(2) rb2NodeInvD(3) [OF rb2GotInit_inv [OF n got assms(5)]]] s(7) [OF that] wf_rb2D(5) [OF assms(2)] by simp
  then show "case rb2GotInit chk'' (rbConfigs sys p) r v sigs ms of
       (ms', Inl e) \<Rightarrow> \<not> panics (Inl e :: unit res)
     | (ms', Inr pub) \<Rightarrow> (\<exists>x. rb2ProcessInit (rbConfigs sys p) k r pub v (sc, ms') = Inr x) \<longleftrightarrow> r = 0"
    using got s(8) by (cases res) (simp_all add: panics_Inl)
qed

section \<open>Executable runs of the broadcast with commits\<close>

datatype ('p, 'v, 'h) rb2_action =
    R2Start 'p | R2Propose 'p 'v | R2Init 'p 'v "'p sig_item list" | R2Echo 'p 'h "'p sig_item list" | R2Commit 'p 'h "'p sig_item list"
  | R2Progress 'p | R2ByzEcho 'p 'h

definition rb2Recv :: "'p \<Rightarrow> ('p, 'v, 'h) rb2MessageState \<times> unit res \<Rightarrow> ('p, 'v, 'h) rb2_global \<Rightarrow> ('p, 'v, 'h) rb2_global" where
  "rb2Recv p r g = (if panics (snd r) then g else rb2Send p (fst (rb2Nodes g p), fst r) [] g)"

fun rb2Exec :: "('p, 'v, 'h) rb_system \<Rightarrow> ('p, 'v, 'h) rb2_action \<Rightarrow> ('p, 'v, 'h) rb2_global \<Rightarrow> ('p, 'v, 'h) rb2_global" where
  "rb2Exec sys (R2Start p) g =
     (if p \<in> rbFaulty sys then g else rb2Send p (rbStart (rbConfigs sys p) (fst (rb2Nodes g p)), snd (rb2Nodes g p)) [] g)"
| "rb2Exec sys (R2Propose p v) g =
     (if p \<in> rbFaulty sys then g
      else (case rbItemGotProposal (rbConfigs sys p) v (fst (rb2Nodes g p)) of
              Inl e \<Rightarrow> g
            | Inr (sc', outs) \<Rightarrow> (rb2Send p (sc', snd (rb2Nodes g p)) outs g)\<lparr>rb2Proposals := insert (p, v) (rb2Proposals g)\<rparr>))"
| "rb2Exec sys (R2Init p v sigs) g =
     (if p \<in> rbFaulty sys \<or> \<not> plain_sigs sigs then g
      else (case rb2GotInit (\<lambda>si. (si_pub si, v) \<in> rb2Inited g) (rbConfigs sys p) 0 v sigs (snd (rb2Nodes g p)) of
              (ms', Inl e) \<Rightarrow> rb2Send p (fst (rb2Nodes g p), ms') [] g
            | (ms', Inr pub) \<Rightarrow> (case rb2ProcessInit (rbConfigs sys p) 0 0 pub v (fst (rb2Nodes g p), ms') of
                                   Inl e \<Rightarrow> g | Inr (st', outs) \<Rightarrow> rb2Send p st' outs g)))"
| "rb2Exec sys (R2Echo p h sigs) g =
     (if p \<in> rbFaulty sys \<or> \<not> plain_sigs sigs then g
      else rb2Recv p (rb2GotEcho (\<lambda>si. si_pub si \<in> rbMembers sys \<and> (si_pub si, h) \<in> rb2Echoed g) (rbConfigs sys p) 0 h sigs (snd (rb2Nodes g p))) g)"
| "rb2Exec sys (R2Commit p h sigs) g =
     (if p \<in> rbFaulty sys \<or> \<not> plain_sigs sigs then g
      else rb2Recv p (rb2GotCommit (\<lambda>si. si_pub si \<in> rbMembers sys \<and> (si_pub si, h) \<in> rb2Committed g) (rbConfigs sys p) 0 h sigs (snd (rb2Nodes g p))) g)"
| "rb2Exec sys (R2Progress p) g =
     (if p \<in> rbFaulty sys then g
      else (case rb2ProcessVote (rbConfigs sys p) 0 0 (rb2Nodes g p) of Inl e \<Rightarrow> g | Inr (st', outs) \<Rightarrow> rb2Send p st' outs g))"
| "rb2Exec sys (R2ByzEcho p h) g = (if p \<in> rbFaulty sys then g\<lparr>rb2Echoed := insert (p, h) (rb2Echoed g)\<rparr> else g)"

lemma rb2Exec_step: "rb2Exec sys a g = g \<or> rb2_step sys g (rb2Exec sys a g)"
proof (cases a)
  case (R2Init p v sigs)
  let ?chk = "\<lambda>si. (si_pub si, v) \<in> rb2Inited g" and ?sc = "fst (rb2Nodes g p)" and ?ms = "snd (rb2Nodes g p)"
  obtain ms' res where gi: "rb2GotInit ?chk (rbConfigs sys p) 0 v sigs ?ms = (ms', res)"
    by (cases "rb2GotInit ?chk (rbConfigs sys p) 0 v sigs ?ms")
  show ?thesis
  proof (cases res)
    case (Inl e)
    then show ?thesis using R2Init gi rb2_step.init_reject [of p sys g ?sc ?ms sigs ?chk 0 v ms' e] by simp
  next
    case (Inr pub)
    then show ?thesis using R2Init gi rb2_step.init [of p sys g ?sc ?ms sigs ?chk 0 v ms' pub 0]
      by (auto split: sum.splits)
  qed
next
  case (R2Echo p h sigs)
  let ?chk = "\<lambda>si. si_pub si \<in> rbMembers sys \<and> (si_pub si, h) \<in> rb2Echoed g"
  obtain ms' res where "rb2GotEcho ?chk (rbConfigs sys p) 0 h sigs (snd (rb2Nodes g p)) = (ms', res)"
    by (cases "rb2GotEcho ?chk (rbConfigs sys p) 0 h sigs (snd (rb2Nodes g p))")
  then show ?thesis using R2Echo rb2_step.echo [of p sys g "fst (rb2Nodes g p)" "snd (rb2Nodes g p)" sigs ?chk 0 h ms' res] by (simp add: rb2Recv_def)
next
  case (R2Commit p h sigs)
  let ?chk = "\<lambda>si. si_pub si \<in> rbMembers sys \<and> (si_pub si, h) \<in> rb2Committed g"
  obtain ms' res where "rb2GotCommit ?chk (rbConfigs sys p) 0 h sigs (snd (rb2Nodes g p)) = (ms', res)"
    by (cases "rb2GotCommit ?chk (rbConfigs sys p) 0 h sigs (snd (rb2Nodes g p))")
  then show ?thesis using R2Commit rb2_step.commit [of p sys g "fst (rb2Nodes g p)" "snd (rb2Nodes g p)" sigs ?chk 0 h ms' res] by (simp add: rb2Recv_def)
next
  case (R2Propose p v)
  then show ?thesis using rb2_step.propose [of p sys g "fst (rb2Nodes g p)" "snd (rb2Nodes g p)" v] by (auto split: sum.splits)
next
  case (R2Progress p)
  then show ?thesis using rb2_step.progress [of p sys 0 g] by (auto split: sum.splits)
qed (auto intro: rb2_step.start rb2_step.byz_echo)

lemma rb2Exec_reachable: "rb2_reachable sys g \<Longrightarrow> rb2_reachable sys (fold (rb2Exec sys) as g)"
proof (induction as arbitrary: g)
  case (Cons a as)
  have "rb2_reachable sys (rb2Exec sys a g)" using rb2Exec_step [of sys a g] Cons.prems rb2_reachable.step by metis
  then show ?case using Cons.IH by simp
qed simp

fun commitsSent :: "('v, 'h) rb_out list \<Rightarrow> 'h list" where
  "commitsSent [] = []"
| "commitsSent (BcastCommit (Some h) # outs) = h # commitsSent outs"
| "commitsSent (_ # outs) = commitsSent outs"

lemma outsOf_code [code]:
  "echoesOf p outs = set (map (Pair p) (echoesSent outs))" "commitsOf p outs = set (map (Pair p) (commitsSent outs))"
  "initsOf p outs = set (map (Pair p) (initsSent outs))"
proof -
  have "h \<in> set (echoesSent outs) \<longleftrightarrow> BcastEcho h \<in> set outs" for h by (induction outs rule: echoesSent.induct) auto
  then show "echoesOf p outs = set (map (Pair p) (echoesSent outs))" by (auto simp: echoesOf_def)
  have "h \<in> set (commitsSent outs) \<longleftrightarrow> BcastCommit (Some h) \<in> set outs" for h by (induction outs rule: commitsSent.induct) auto
  then show "commitsOf p outs = set (map (Pair p) (commitsSent outs))" by (auto simp: commitsOf_def)
  have "v \<in> set (initsSent outs) \<longleftrightarrow> BcastInit v \<in> set outs" for v by (induction outs rule: initsSent.induct) auto
  then show "initsOf p outs = set (map (Pair p) (initsSent outs))" by (auto simp: initsOf_def)
qed

text \<open>
  The four members of \<open>rbDemo\<close>. The faulty member 3 echoes two hashes. Process 2 does not get the init message, commits because of the
  echoes of the others, and decides the hash without having its proposal; processes 0 and 1 deliver.
\<close>

definition rb2DemoRun :: "(nat, nat, nat) rb2_action list" where
  "rb2DemoRun = [R2Start 0, R2Propose 0 7] @ map (\<lambda>p. R2Init p 7 [rbDemoSig 0]) [0, 1] @ [R2ByzEcho 3 7, R2ByzEcho 3 8] @
     map (\<lambda>p. R2Echo p 7 (map rbDemoSig [0, 1, 3])) [0, 1, 2] @ map R2Progress [0, 1, 2] @
     map (\<lambda>p. R2Commit p 7 (map rbDemoSig [0, 1, 2])) [0, 1, 2] @ map R2Progress [0, 1, 2]"

definition rb2DemoFinal :: "(nat, nat, nat) rb2_global" where
  "rb2DemoFinal = fold (rb2Exec rbDemo) rb2DemoRun rb2Init"

lemma rb2Demo_wf: "wf_rb2 rbDemo"
  using rbDemo_wf by (auto simp: wf_rb2_def rbDemo_def rbDemoConfig_def)

lemma rb2Demo_reachable: "rb2_reachable rbDemo rb2DemoFinal"
  unfolding rb2DemoFinal_def by (rule rb2Exec_reachable) (rule rb2_reachable.init)

lemma rb2Demo_decided:
  "map (\<lambda>p. rbGetDecision (rbDemoConfig p) (fst (rb2Nodes rb2DemoFinal p))) [0, 1] = [Inr (Some 0, 7), Inr (Some 0, 7)]"
  "map (\<lambda>p. decisionHashBytes (fst (rb2Nodes rb2DemoFinal p))) [0, 1, 2] = [Some 7, Some 7, Some 7]"
  by code_simp+

lemma settled_waiting:
  assumes "sentEcho sc \<or> validatedInitHashes sc = []" "sentCommit sc" "decisionHashBytes sc = supportedCommitHash ms" "requestRecoverTimer sc"
    "decisionHashBytes sc = Some h" "map_of (validatedInitHashes sc) h = None"
  shows "settled cfg (sc, ms)"
  using assms by (auto simp: settled_def rb2CheckProgress_def echoStep_def commitStep_def decideStep_def StartRecoverTimeout_def Let_def)

lemma rb2Demo_waiting:
  "case rb2Nodes rb2DemoFinal 2 of (sc, ms) \<Rightarrow> validatedInitHashes sc = [] \<and> sentCommit sc \<and> decisionHashBytes sc = supportedCommitHash ms \<and>
     requestRecoverTimer sc \<and> decisionHashBytes sc = Some 7 \<and> map_of (validatedInitHashes sc) 7 = None"
  by code_simp

lemma rb2Demo_settled:
  "settled (rbDemoConfig 0) (rb2Nodes rb2DemoFinal 0)" "settled (rbDemoConfig 1) (rb2Nodes rb2DemoFinal 1)" "settled (rbDemoConfig 2) (rb2Nodes rb2DemoFinal 2)"
proof -
  have d: "settled cfg st" if "rbGetDecision c (fst st) = Inr x" for cfg c x and st :: "(nat, nat, nat) rb2_state"
    using that by (cases st) (auto simp: settled_def rb2CheckProgress_def rbGetDecision_def rbHasDecided_def split: option.splits)
  show "settled (rbDemoConfig 0) (rb2Nodes rb2DemoFinal 0)" "settled (rbDemoConfig 1) (rb2Nodes rb2DemoFinal 1)"
    using rb2Demo_decided(1) by (auto intro: d)
  obtain sc ms where st: "rb2Nodes rb2DemoFinal 2 = (sc, ms)" by (cases "rb2Nodes rb2DemoFinal 2")
  show "settled (rbDemoConfig 2) (rb2Nodes rb2DemoFinal 2)" using rb2Demo_waiting settled_waiting [of sc ms 7] unfolding st prod.case by blast
qed

lemma rb2Demo_arrived: "rb2Committed rb2DemoFinal = {(0, 7), (1, 7), (2, 7)}"
  "\<forall>p \<in> {0, 1, 2}. signers (rbSms (snd (rb2Nodes rb2DemoFinal p))) (MvCommit 0 7) = {0, 1, 2}"
  by code_simp+

theorem rb2_agreement_witness:
  "rbGetDecision (rbConfigs rbDemo 0) (fst (rb2Nodes rb2DemoFinal 0)) = Inr (Some 0, 7) \<and>
   rbGetDecision (rbConfigs rbDemo 1) (fst (rb2Nodes rb2DemoFinal 1)) = Inr (Some 0, 7) \<and> rbHash rbDemo 7 = rbHash rbDemo 7"
proof -
  have d: "rbGetDecision (rbConfigs rbDemo 0) (fst (rb2Nodes rb2DemoFinal 0)) = Inr (Some 0, 7)"
    "rbGetDecision (rbConfigs rbDemo 1) (fst (rb2Nodes rb2DemoFinal 1)) = Inr (Some 0, 7)"
    using rb2Demo_decided(1) by (simp_all add: rbDemo_correct(3))
  then show ?thesis using rb2_agreement [OF rb2Demo_reachable rb2Demo_wf rbDemo_correct(1,2) d] by simp
qed

theorem rb2_validity_witness:
  "\<exists>c. Some 0 = Some c \<and> rbCoord rbDemo c \<and> (c, 7) \<in> rb2Inited rb2DemoFinal \<and> (c, 7) \<in> rb2Proposals rb2DemoFinal"
proof -
  have "rbGetDecision (rbConfigs rbDemo 1) (fst (rb2Nodes rb2DemoFinal 1)) = Inr (Some 0, 7)"
    using rb2Demo_decided(1) by (simp add: rbDemo_correct(3))
  from rb2_validity [OF rb2Demo_reachable rb2Demo_wf rbDemo_correct(2) this] show ?thesis using rbDemo_correct(1) by simp
qed

theorem rb2_totality_witness:
  "decisionHashBytes (fst (rb2Nodes rb2DemoFinal 0)) = Some 7 \<and> decisionHashBytes (fst (rb2Nodes rb2DemoFinal 2)) = Some 7 \<and>
   requestRecoverTimer (fst (rb2Nodes rb2DemoFinal 2))"
proof -
  have "commitsArrived rbDemo rb2DemoFinal r \<and> settled (rbDemoConfig r) (rb2Nodes rb2DemoFinal r)" if r: "r \<in> {0, 1, 2}" for r
  proof -
    have "q \<in> signers (rbSms (snd (rb2Nodes rb2DemoFinal r))) (MvCommit 0 h)" if "(q, h) \<in> rb2Committed rb2DemoFinal" for q h
    proof -
      have "h = 7" "q \<in> {0, 1, 2}" using that unfolding rb2Demo_arrived(1) by auto
      then show ?thesis using rb2Demo_arrived(2) r by (simp only:)
    qed
    then have "commitsArrived rbDemo rb2DemoFinal r" unfolding commitsArrived_def by blast
    moreover have "settled (rbDemoConfig r) (rb2Nodes rb2DemoFinal r)" using r rb2Demo_settled by blast
    ultimately show ?thesis ..
  qed
  moreover have "insert 2 (rbMembers rbDemo - rbFaulty rbDemo) = {0, 1, 2}" by (auto simp: rbDemo_def)
  ultimately have a: "\<forall>r. r \<in> insert 2 (rbMembers rbDemo - rbFaulty rbDemo) \<longrightarrow>
      commitsArrived rbDemo rb2DemoFinal r \<and> settled (rbConfigs rbDemo r) (rb2Nodes rb2DemoFinal r)" by (simp add: rbDemo_correct(3))
  have d: "decisionHashBytes (fst (rb2Nodes rb2DemoFinal 0)) = Some 7" using rb2Demo_decided(2) by simp
  have f: "2 \<notin> rbFaulty rbDemo" by (simp add: rbDemo_def)
  have m: "\<forall>r. r \<in> rbMembers rbDemo - rbFaulty rbDemo \<longrightarrow> commitMember (rbConfigs rbDemo r) (Some 7)" by (simp add: rbDemo_def rbDemoConfig_def)
  note t = rb2_totality [OF rb2Demo_reachable rb2Demo_wf a rbDemo_correct(1) d f surjective_pairing m]
  have "\<not> rbHasDecided (fst (rb2Nodes rb2DemoFinal 2))" by code_simp
  then show ?thesis using t d by simp
qed

theorem rb2_no_panic_witness:
  "\<not> panics (snd (rb2GotEcho (\<lambda>_. True) (rbConfigs rbDemo 0) 1 8 [rbDemoSig 0] (snd (rb2Nodes rb2DemoFinal 0)))) \<and>
   (case rb2GotInit (\<lambda>_. True) (rbConfigs rbDemo 0) 1 9 [rbDemoSig 0] (snd (rb2Nodes rb2DemoFinal 0)) of
      (ms', Inl e) \<Rightarrow> False
    | (ms', Inr pub) \<Rightarrow> \<not> (\<exists>x. rb2ProcessInit (rbConfigs rbDemo 0) 0 1 pub 9 (fst (rb2Nodes rb2DemoFinal 0), ms') = Inr x))"
proof -
  have pl: "plain_sigs [rbDemoSig 0]" by code_simp
  have "0 \<in> rbMembers rbDemo" by (simp add: rbDemo_def)
  then have m: "\<forall>si. si \<in> set [rbDemoSig 0] \<longrightarrow> True \<longrightarrow> si_pub si \<in> rbMembers rbDemo \<and> ((1::nat) = 0 \<longrightarrow> (si_pub si, 8) \<in> E)" for E
    by (simp add: rbDemoSig_def)
  note t = rb2_no_panic [OF rb2Demo_reachable rb2Demo_wf rbDemo_correct(1) surjective_pairing pl m m, where k = 0 and v = 9 and chk'' = "\<lambda>_. True"]
  have "is_ok (snd (rb2GotInit (\<lambda>_. True) (rbConfigs rbDemo 0) 1 9 [rbDemoSig 0] (snd (rb2Nodes rb2DemoFinal 0))))" by code_simp
  then show ?thesis using t by (auto split: prod.splits sum.splits)
qed

text \<open>
  A correct process that decided a hash can prove it: \<^verbatim>\<open>GetCommitProof\<close> does not panic and returns a commit of
  that hash with exactly \<open>n - t\<close> signatures, of different members that made them.
\<close>

lemma rb2_commit_proof:
  assumes "rb2_reachable sys g" "wf_rb2 sys" "p \<notin> rbFaulty sys" "rb2Nodes g p = (sc, ms)" "decisionHashBytes sc = Some h"
  shows "\<exists>ms' sm. rb2GetCommitProof (rbConfigs sys p) h ms = Inr (ms', sm) \<and> sm_hash sm = MvCommit 0 h \<and>
    int (length (sm_sigs sm)) = rbMemberCount (rbConfigs sys p) - rbFaultCount (rbConfigs sys p) \<and> distinct (map si_pub (sm_sigs sm)) \<and>
    pubs_of (sm_sigs sm) \<subseteq> {q \<in> rbMembers sys. (q, h) \<in> rb2Committed g}"
proof -
  have inv: "rb2Inv sys g" using rb2Inv_reachable [OF assms(1,2)] .
  note i = rb2InvD [OF inv assms(3,4)] and t = rb_thresholds [OF wf_rb2D(1) [OF assms(2)]]
  let ?sm = "\<lparr>sm_hash = MvCommit 0 h, sm_msgid = CommitID 0, sm_sigs = []\<rparr> :: ('a, ('b, 'c) rbMsg, rbMsgID) signed_msg"
  let ?S = "signers (rbSms ms) (MvCommit 0 h)"
  obtain sms' r where r: "SetupSignedMessage (rbSms ms) ?sm (rbMyPub (rbConfigs sys p)) None (rbNmt sys) = (sms', r)"
    by (cases "SetupSignedMessage (rbSms ms) ?sm (rbMyPub (rbConfigs sys p)) None (rbNmt sys)")
  have w: "wf_sms (rbSms ms)" "unsignedMsgMap (rbSms ms) (sm_hash ?sm) = None" using i(1) by (simp_all add: storeInv_def wf_rbms_def)
  have "rbNmt sys \<le> supportedCommitCount ms" "supportedCommitHash ms = Some h"
    using i(3) assms(5) by (auto simp: itemInv_def decidableHash_def split: if_splits)
  then have n: "rbNmt sys \<le> int (card (signers (rbSms ms) (sm_hash ?sm)))" "0 < rbNmt sys" using i(2) t by (auto simp: commitInv_def)
  have sub: "?S \<subseteq> {q \<in> rbMembers sys. (q, h) \<in> rb2Committed g}" using i(2) by (simp add: commitInv_def)
  obtain l where l: "r = Inr (?sm\<lparr>sm_sigs := l\<rparr>)" "int (length l) = rbNmt sys" "distinct (map si_pub l)" "pubs_of l \<subseteq> ?S"
    using SetupSignedMessage_proof [OF w n(2,1) r] by auto
  then show ?thesis using r sub wf_rb2D(3) [OF assms(2), of p] by (auto simp: rb2GetCommitProof_def)
qed

end
