(* ===== verification/BinCons1.thy ===== *)
theory BinCons1
  imports SignedMsgState
begin

text \<open>
  Model of one node's part of the signature based binary consensus \<^verbatim>\<open>BinCons1\<close>
  (\<^verbatim>\<open>src/consensus/cons/bincons1/bin_cons1.go\<close>) and of its message state
  (\<^verbatim>\<open>bin_cons1_message_state.go\<close>), with the parts of \<^verbatim>\<open>AbsConsItem\<close> it uses.

  Binary values (\<^verbatim>\<open>types.BinVal\<close>, 0 or 1 for these messages) are booleans. Rounds
  (\<^verbatim>\<open>types.ConsensusRound\<close>, a \<^verbatim>\<open>uint32\<close>) are natural numbers: the model is exact for
  runs of fewer than \<open>2 ^ 32 - 2\<close> rounds. The hash of an \<^verbatim>\<open>AuxProofMessage\<close> is represented by the
  pair of its round and its value (the hash function is collision free), its \<^verbatim>\<open>MsgID\<close> by the
  round. Logging, statistics and the mutexes are left out; calls to \<^verbatim>\<open>BroadcastFunc\<close> and
  \<^verbatim>\<open>SendToSelf\<close> are values of the type \<open>out\<close>.
\<close>

section \<open>Data\<close>

datatype TimeoutState = TimeoutNotSent | TimeoutSent | TimeoutPassed

datatype StopOnCommitType = Immediate | SendProof | NextRound

record auxRoundStruct =
  BinNums :: "bool \<Rightarrow> int"
  TotalBinMsgCount :: int
  sentProposal :: bool
  timeoutState :: TimeoutState

type_synonym 'p aux_signed = "('p, nat \<times> bool, nat) signed_msg"
type_synonym 'p aux_store = "('p, nat \<times> bool, nat) signedMsgMap"

record 'p MessageState =
  Sms :: "'p aux_store"
  auxValues :: "nat \<Rightarrow> auxRoundStruct option"
  isMv :: bool
  mv0Valid :: bool
  mv1Valid :: bool

text \<open>What the node reads from its configuration and its member checker.\<close>

record 'p bc_config =
  memberCount :: int
  faultCount :: int
  myPub :: 'p
  memberLocal :: bool \<comment> \<open>\<^verbatim>\<open>CheckMemberLocal()\<close>\<close>
  randMember :: "nat \<Rightarrow> bool \<Rightarrow> bool" \<comment> \<open>\<^verbatim>\<open>CheckRandMember\<close> accepts the node for this message\<close>
  StopOnCommit :: StopOnCommitType
  IncludeProofs :: bool

record BinCons1 =
  Started :: bool
  NeedsProposal :: bool
  GotProposal :: bool
  absDecided :: bool
  Decided :: int
  decidedRound :: nat
  SkipTimeoutRound :: int
  roundTimers :: "nat list"
  terminated :: bool

datatype 'p out =
    BcastAux nat bool "'p aux_signed list" \<comment> \<open>broadcast of an \<^verbatim>\<open>AuxProofMessage\<close> with proofs\<close>
  | BcastProof "'p aux_signed list" \<comment> \<open>broadcast of a commit proof only\<close>
  | StartTimer nat \<comment> \<open>\<^verbatim>\<open>SendToSelf\<close> of a round timeout\<close>

type_synonym 'p bc_state = "BinCons1 \<times> 'p MessageState"

definition maxUint32 :: int where
  "maxUint32 = 4294967295"

section \<open>Message state\<close>

definition emptyAux :: auxRoundStruct where
  "emptyAux = \<lparr>BinNums = \<lambda>_. 0, TotalBinMsgCount = 0, sentProposal = False, timeoutState = TimeoutNotSent\<rparr>"

definition NewMessageState :: "bool \<Rightarrow> 'p MessageState" where
  "NewMessageState mv = \<lparr>Sms = newSignedMsgMap, auxValues = \<lambda>_. None, isMv = mv, mv0Valid = False, mv1Valid = False\<rparr>"

text \<open>
  \<^verbatim>\<open>getAuxRoundStruct\<close> stores an empty struct for a round it does not find; since every access goes
  through it, a missing struct and an empty one cannot be told apart and the model only reads.
\<close>

definition getAuxRoundStruct :: "'p MessageState \<Rightarrow> nat \<Rightarrow> auxRoundStruct" where
  "getAuxRoundStruct ms round = (case auxValues ms round of None \<Rightarrow> emptyAux | Some x \<Rightarrow> x)"

definition setAux :: "'p MessageState \<Rightarrow> nat \<Rightarrow> auxRoundStruct \<Rightarrow> 'p MessageState" where
  "setAux ms round x = ms\<lparr>auxValues := (auxValues ms)(round \<mapsto> x)\<rparr>"

definition SetMv0Valid :: "'p MessageState \<Rightarrow> 'p MessageState" where
  "SetMv0Valid ms = (if \<not> mv0Valid ms then ms\<lparr>mv0Valid := True\<rparr> else ms)"

definition SetMv1Valid :: "'p MessageState \<Rightarrow> 'p MessageState" where
  "SetMv1Valid ms = (if \<not> mv1Valid ms then ms\<lparr>mv1Valid := True\<rparr> else ms)"

definition SentProposal :: "nat \<Rightarrow> bool \<Rightarrow> 'p MessageState \<Rightarrow> 'p MessageState \<times> bool" where
  "SentProposal round shouldSet ms =
     (let ars = getAuxRoundStruct ms round
      in (if shouldSet then setAux ms round (ars\<lparr>sentProposal := shouldSet\<rparr>) else ms, sentProposal ars))"

definition GetValidMessageCount :: "nat \<Rightarrow> 'p MessageState \<Rightarrow> int" where
  "GetValidMessageCount round ms = TotalBinMsgCount (getAuxRoundStruct ms round)"

definition aux_msg :: "nat \<Rightarrow> bool \<Rightarrow> 'p sig_item list \<Rightarrow> 'p aux_signed" where
  "aux_msg round val sigs = \<lparr>sm_hash = (round, val), sm_msgid = round, sm_sigs = sigs\<rparr>"

text \<open>
  \<^verbatim>\<open>GotMsg\<close> for a signed \<^verbatim>\<open>AuxProofMessage\<close> (the only message type): store the valid
  signatures, then raise the counts of the round. \<open>chk\<close> is \<^verbatim>\<open>CheckMember\<close>.
\<close>

definition GotMsg ::
    "('p sig_item \<Rightarrow> bool) \<Rightarrow> nat \<Rightarrow> bool \<Rightarrow> 'p sig_item list \<Rightarrow> 'p MessageState \<Rightarrow> 'p MessageState \<times> unit res" where
  "GotMsg chk round val sigs ms =
     (case GotSignedMsg chk (Sms ms) (aux_msg round val sigs) of
        (sms', sm', Inl e) \<Rightarrow> (ms\<lparr>Sms := sms'\<rparr>, Inl e)
      | (sms', sm', Inr (newTotalSigCount, newMsgIDSigCount)) \<Rightarrow>
          (let ms1 = ms\<lparr>Sms := sms'\<rparr>;
               rs = getAuxRoundStruct ms1 round;
               rs1 = (if BinNums rs val < newTotalSigCount
                      then rs\<lparr>BinNums := (BinNums rs)(val := newTotalSigCount)\<rparr> else rs);
               rs2 = (if TotalBinMsgCount rs1 < newMsgIDSigCount
                      then rs1\<lparr>TotalBinMsgCount := newMsgIDSigCount\<rparr> else rs1)
           in (setAux ms1 round rs2, Inr ())))"

text \<open>
  \<^verbatim>\<open>getValids\<close>: which values a node may support in a round. \<open>md\<close> is the Go variable \<^verbatim>\<open>mod\<close>,
  \<^verbatim>\<open>(round - 1) % 2\<close>; the array result is a function of the value.
\<close>

definition getValids :: "int \<Rightarrow> int \<Rightarrow> nat \<Rightarrow> 'p MessageState \<Rightarrow> bool \<Rightarrow> bool" where
  "getValids nmt t round ms v =
     (let md = odd (round - 1)
      in if round = 0 then \<not> isMv ms
         else if round = 1 then
           (if \<not> isMv ms then BinNums (getAuxRoundStruct ms 0) v > t
            else if v then mv1Valid ms else mv0Valid ms)
         else
           (round = 2 \<and> v \<and>
              (if \<not> isMv ms then BinNums (getAuxRoundStruct ms (round - 2)) md > t else mv1Valid ms)) \<or>
           (if v = md then BinNums (getAuxRoundStruct ms (round - 2)) md \<ge> nmt
            else BinNums (getAuxRoundStruct ms (round - 1)) (\<not> md) \<ge> nmt))"

text \<open>Proofs: a message of the given round and value with signatures received for it.\<close>

definition GetProofs ::
    "'p bc_config \<Rightarrow> int \<Rightarrow> nat \<Rightarrow> bool \<Rightarrow> 'p MessageState \<Rightarrow> 'p MessageState \<times> 'p aux_signed list res" where
  "GetProofs cfg sigCount round binVal ms =
     (if BinNums (getAuxRoundStruct ms round) binVal = 0 then (ms, Inl ErrNoProofs)
      else (case SetupSignedMessage (Sms ms) (aux_msg round binVal []) (myPub cfg) None sigCount of
              (sms', Inl e) \<Rightarrow> (ms\<lparr>Sms := sms'\<rparr>, Inl (Panic ''GetProofs''))
            | (sms', Inr sm) \<Rightarrow> (ms\<lparr>Sms := sms'\<rparr>, Inr [sm])))"

text \<open>The check of the number of signatures that ends both cases of \<^verbatim>\<open>GenerateProofs\<close>.\<close>

definition checkSigCount :: "int \<Rightarrow> 'p aux_signed list res \<Rightarrow> 'p aux_signed list res" where
  "checkSigCount minCount r =
     (case r of Inl e \<Rightarrow> Inl e
      | Inr sm \<Rightarrow> if int (length (sm_sigs (hd sm))) < minCount then Inl ErrNotEnoughSigs else Inr sm)"

definition GenerateProofs ::
    "'p bc_config \<Rightarrow> int \<Rightarrow> nat \<Rightarrow> bool \<Rightarrow> 'p MessageState \<Rightarrow> 'p MessageState \<times> 'p aux_signed list res" where
  "GenerateProofs cfg sigCount round binVal ms =
     (let t = faultCount cfg
      in if round = 0 then (ms, Inl ErrNoProofs)
         else if round = 1 then
           (case GetProofs cfg (t + 1) 0 binVal ms of (ms', r) \<Rightarrow> (ms', checkSigCount t r))
         else
           (let md = odd (round - 1);
                sigCount' = (if round = 2 \<and> binVal then t + 1 else sigCount);
                minCount = (if round = 2 \<and> binVal then t else memberCount cfg - t)
            in case (if md = binVal then GetProofs cfg sigCount' (round - 2) binVal ms
                     else GetProofs cfg sigCount' (round - 1) binVal ms) of
                 (ms', r) \<Rightarrow> (ms', checkSigCount minCount r)))"

section \<open>The consensus item\<close>

definition GenerateNewItem :: BinCons1 where
  "GenerateNewItem = \<lparr>Started = False, NeedsProposal = False, GotProposal = False, absDecided = False,
     Decided = -1, decidedRound = 0, SkipTimeoutRound = 0, roundTimers = [], terminated = False\<rparr>"

definition Start :: "'p bc_config \<Rightarrow> BinCons1 \<Rightarrow> BinCons1" where
  "Start cfg sc =
     (let sc1 = sc\<lparr>Started := True\<rparr>
      in if memberLocal cfg then sc1\<lparr>NeedsProposal := True\<rparr> else sc1)"

definition AbsGotProposal :: "'p bc_config \<Rightarrow> BinCons1 \<Rightarrow> BinCons1 res" where
  "AbsGotProposal cfg sc =
     (if \<not> NeedsProposal sc then Inl (Panic ''should only get proposal after it was needed'')
      else if GotProposal sc then Inl (Panic ''got multiple proposals for same cons'')
      else if \<not> memberLocal cfg then Inl (Panic ''non member should not get proposal'')
      else Inr (sc\<lparr>GotProposal := True\<rparr>))"

definition ItemGotProposal :: "'p bc_config \<Rightarrow> bool \<Rightarrow> 'p bc_state \<Rightarrow> ('p bc_state \<times> 'p out list) res" where
  "ItemGotProposal cfg binVal st =
     (case st of (sc, ms) \<Rightarrow>
        bind_res (AbsGotProposal cfg sc) (\<lambda>sc1.
          if sentProposal (getAuxRoundStruct ms 0) then Inr ((sc1, ms), [])
          else Inr ((sc1, ms), [BcastAux 0 binVal []])))"

text \<open>The message a multi-value reduction broadcasts instead of a proposal: round and value.\<close>

definition GetMVInitialRoundBroadcast :: "bool \<Rightarrow> nat \<times> bool" where
  "GetMVInitialRoundBroadcast val = (1, val)"

definition CanSkipMvTimeout :: "BinCons1 \<Rightarrow> bool" where
  "CanSkipMvTimeout sc = (SkipTimeoutRound sc > 1)"

definition HasDecided :: "BinCons1 \<Rightarrow> bool" where
  "HasDecided sc = (Decided sc > -1)"

definition GetDecision :: "BinCons1 \<Rightarrow> int res" where
  "GetDecision sc = (if Decided sc = -1 then Inl (Panic ''should have decided'') else Inr (Decided sc))"

text \<open>\<^verbatim>\<open>GetBufferCount\<close> for \<^verbatim>\<open>HdrAuxProof\<close>.\<close>

definition GetBufferCount :: "'p bc_config \<Rightarrow> int \<times> int" where
  "GetBufferCount cfg = (memberCount cfg - faultCount cfg, memberCount cfg)"

definition GetBinConsCommitProof ::
    "'p bc_config \<Rightarrow> 'p bc_state \<Rightarrow> ('p MessageState \<times> 'p aux_signed list) res" where
  "GetBinConsCommitProof cfg st =
     (case st of (sc, ms) \<Rightarrow>
        if \<not> HasDecided sc then Inl (Panic ''should only get proof after decision'')
        else (case GetProofs cfg (fst (GetBufferCount cfg)) (decidedRound sc) (Decided sc \<noteq> 0) ms of
                (ms', Inl e) \<Rightarrow> Inl (Panic ''commit proof'')
              | (ms', Inr prf) \<Rightarrow> Inr (ms', prf)))"

definition stopTimers :: "BinCons1 \<Rightarrow> BinCons1" where
  "stopTimers sc = sc\<lparr>roundTimers := []\<rparr>"

definition checkDone ::
    "'p bc_config \<Rightarrow> nat \<Rightarrow> 'p bc_state \<Rightarrow> ('p bc_state \<times> 'p out list \<times> bool) res" where
  "checkDone cfg round st =
     (case st of (sc, ms) \<Rightarrow>
        if terminated sc then Inr (st, [], True)
        else if Decided sc < 0 then Inr (st, [], False)
        else if round < decidedRound sc then Inr (st, [], True)
        else (case StopOnCommit cfg of
                Immediate \<Rightarrow> Inr ((sc\<lparr>terminated := True\<rparr>, ms), [], True)
              | SendProof \<Rightarrow>
                  bind_res (GetBinConsCommitProof cfg st) (\<lambda>(ms', prf).
                    Inr ((sc\<lparr>terminated := True\<rparr>, ms'), [BcastProof prf], True))
              | NextRound \<Rightarrow> Inr (st, [], round > decidedRound sc + 2)))"

text \<open>The estimate for the next round: the preferences (1) to (3) of \<^verbatim>\<open>CheckRound\<close>.\<close>

definition nextEstimate ::
    "int \<Rightarrow> auxRoundStruct \<Rightarrow> bool \<Rightarrow> (bool \<Rightarrow> bool) \<Rightarrow> (bool \<Rightarrow> bool) \<Rightarrow> bool res" where
  "nextEstimate nmt rs md validsR validsRp1 =
     (let notMod = (\<not> md)
      in bind_res
           (if validsR notMod \<and> BinNums rs notMod \<ge> nmt \<and> validsRp1 notMod then Inr notMod
            else if validsR md \<and> BinNums rs md > 0 \<and> validsRp1 md then Inr md
            else if \<not> validsR notMod then Inl (Panic ''should be valid'')
            else if \<not> validsRp1 notMod then Inl (Panic ''should be valid next round'')
            else if BinNums rs notMod = 0 then Inl (Panic ''should have messages'')
            else Inr notMod)
           (\<lambda>est. if \<not> validsRp1 md \<and> \<not> validsRp1 notMod then Inl (Panic ''neither valid'') else Inr est))"

text \<open>Broadcast of the message of the next round, with proofs when they are configured.\<close>

definition sendNextRound ::
    "'p bc_config \<Rightarrow> nat \<Rightarrow> bool \<Rightarrow> 'p bc_state \<Rightarrow> ('p bc_state \<times> 'p out list) res" where
  "sendNextRound cfg round est st =
     (case st of (sc, ms) \<Rightarrow>
        (let ms1 = setAux ms round ((getAuxRoundStruct ms round)\<lparr>sentProposal := True\<rparr>)
         in if memberLocal cfg \<and> randMember cfg (round + 1) est then
              (if IncludeProofs cfg then
                 (case GenerateProofs cfg (fst (GetBufferCount cfg)) (round + 1) est ms1 of
                    (ms2, Inr prfMsgs) \<Rightarrow> Inr ((sc, ms2), [BcastAux (round + 1) est prfMsgs])
                  | (ms2, Inl e) \<Rightarrow>
                      if panics (Inl e :: unit res) then Inl e
                      else if \<not> (round + 1 = 2 \<and> est \<and> mv1Valid ms2) then Inl (Panic ''should have proofs'')
                      else Inr ((sc, ms2), [BcastAux (round + 1) est []]))
               else Inr ((sc, ms1), [BcastAux (round + 1) est []]))
            else Inr ((sc, ms1), [])))"

text \<open>The second half of \<^verbatim>\<open>CheckRound\<close>: after the decision, move to the next round.\<close>

definition CheckRoundAdvance ::
    "'p bc_config \<Rightarrow> int \<Rightarrow> int \<Rightarrow> nat \<Rightarrow> bool \<Rightarrow> (bool \<Rightarrow> bool) \<Rightarrow> 'p bc_state
     \<Rightarrow> ('p bc_state \<times> 'p out list \<times> bool) res" where
  "CheckRoundAdvance cfg nmt t round md validsR st =
     bind_res (checkDone cfg round st) (\<lambda>(st1, outs, done).
       if done then Inr (st1, outs, True)
       else (case st1 of (sc, ms) \<Rightarrow>
         (let rs = getAuxRoundStruct ms round
          in if \<not> sentProposal rs \<and> memberLocal cfg then
               (if int round > t \<and> SkipTimeoutRound sc \<le> int round \<and> timeoutState rs = TimeoutNotSent then
                  Inr ((sc\<lparr>roundTimers := roundTimers sc @ [round]\<rparr>,
                        setAux ms round (rs\<lparr>timeoutState := TimeoutSent\<rparr>)), outs @ [StartTimer round], True)
                else if int round > t \<and> SkipTimeoutRound sc \<le> int round \<and> timeoutState rs = TimeoutSent then
                  Inr (st1, outs, True)
                else
                  (let validCount = (if validsR False then BinNums rs False else 0)
                                  + (if validsR True then BinNums rs True else 0)
                   in if validCount \<ge> nmt then
                        bind_res (nextEstimate nmt rs md validsR (getValids nmt t (round + 1) ms)) (\<lambda>est.
                          bind_res (sendNextRound cfg round est st1) (\<lambda>(st2, outs2).
                            Inr (st2, outs @ outs2, True)))
                      else Inr (st1, outs, True)))
             else Inr (st1, outs, True))))"

definition CheckRound ::
    "'p bc_config \<Rightarrow> int \<Rightarrow> int \<Rightarrow> nat \<Rightarrow> 'p bc_state \<Rightarrow> ('p bc_state \<times> 'p out list \<times> bool) res" where
  "CheckRound cfg nmt t round st =
     (case st of (sc, ms) \<Rightarrow>
        (let rs = getAuxRoundStruct ms round;
             numMsgs = TotalBinMsgCount rs;
             sc1 = (if numMsgs > t then sc\<lparr>SkipTimeoutRound := int round\<rparr> else sc)
         in if numMsgs < nmt then Inr ((sc1, ms), [], False)
            else
              (let md = (if round = 0 then True else odd round);
                   notMod = (\<not> md);
                   validsR = getValids nmt t round ms
               in if round > 0 \<and> validsR md \<and> BinNums rs md \<ge> nmt then
                    (if Decided sc1 > -1 \<and> Decided sc1 \<noteq> of_bool md then Inl (Panic ''Bad cons 1'')
                     else
                       (let sc2 = (if Decided sc1 = -1
                                   then (stopTimers sc1)\<lparr>SkipTimeoutRound := maxUint32, decidedRound := round\<rparr>
                                   else sc1)
                        in if BinNums rs notMod \<ge> nmt then Inl (Panic ''More than t faulty'')
                           else
                             (let sc3 = sc2\<lparr>Decided := of_bool md, absDecided := True\<rparr>
                              in if StopOnCommit cfg = Immediate then
                                   Inr ((sc3\<lparr>terminated := True\<rparr>, ms), [], True)
                                 else if BinNums rs notMod = 0 \<or> \<not> validsR notMod then
                                   Inr ((sc3, ms), [], True)
                                 else CheckRoundAdvance cfg nmt t round md validsR (sc3, ms))))
                  else CheckRoundAdvance cfg nmt t round md validsR (sc1, ms))))"

text \<open>
  The loop \<^verbatim>\<open>for sc.CheckRound(...) { round++ }\<close>; \<open>None\<close> would be a loop that does not end.
\<close>

partial_function (option) checkRounds ::
    "'p bc_config \<Rightarrow> int \<Rightarrow> int \<Rightarrow> nat \<Rightarrow> 'p bc_state \<Rightarrow> 'p out list \<Rightarrow> ('p bc_state \<times> 'p out list) res option" where
  "checkRounds cfg nmt t round st outs =
     (case CheckRound cfg nmt t round st of
        Inl e \<Rightarrow> Some (Inl e)
      | Inr (st', o', b) \<Rightarrow>
          if b then checkRounds cfg nmt t (Suc round) st' (outs @ o') else Some (Inr (st', outs @ o')))"

text \<open>
  \<^verbatim>\<open>ProcessMessage\<close>: the two message types. The pair of booleans is the Go result (progress,
  forward).
\<close>

definition ProcessTimeout ::
    "'p bc_config \<Rightarrow> nat \<Rightarrow> 'p bc_state \<Rightarrow> ('p bc_state \<times> 'p out list \<times> bool \<times> bool) res option" where
  "ProcessTimeout cfg round st =
     (case st of (sc, ms) \<Rightarrow>
        (let t = faultCount cfg; nmt = memberCount cfg - t
         in if Decided sc > -1 then Some (Inr (st, [], False, False))
            else map_option (\<lambda>r. bind_res r (\<lambda>(st', outs). Inr (st', outs, True, False)))
                   (checkRounds cfg nmt t round
                      (sc, setAux ms round ((getAuxRoundStruct ms round)\<lparr>timeoutState := TimeoutPassed\<rparr>)) [])))"

definition ProcessAux ::
    "'p bc_config \<Rightarrow> nat \<Rightarrow> 'p bc_state \<Rightarrow> ('p bc_state \<times> 'p out list \<times> bool \<times> bool) res option" where
  "ProcessAux cfg round st =
     (case st of (sc, ms) \<Rightarrow>
        (let t = faultCount cfg; nmt = memberCount cfg - t
         in if terminated sc then Some (Inr (st, [], False, False))
            else map_option (\<lambda>r. bind_res r (\<lambda>(st', outs). Inr (st', outs, True, True)))
                   (checkRounds cfg nmt t round st [])))"

section \<open>Frame lemmas\<close>

text \<open>
  Two message states with the same counts and flags: what \<open>getValids\<close> and the decision rule
  read. The store may differ by empty entries only.
\<close>

definition sameCounts :: "'p MessageState \<Rightarrow> 'p MessageState \<Rightarrow> bool" where
  "sameCounts ms ms' \<longleftrightarrow>
     (\<forall>r. BinNums (getAuxRoundStruct ms' r) = BinNums (getAuxRoundStruct ms r)) \<and>
     (\<forall>r. TotalBinMsgCount (getAuxRoundStruct ms' r) = TotalBinMsgCount (getAuxRoundStruct ms r)) \<and>
     isMv ms' = isMv ms \<and> mv0Valid ms' = mv0Valid ms \<and> mv1Valid ms' = mv1Valid ms"

definition sameStore :: "'p MessageState \<Rightarrow> 'p MessageState \<Rightarrow> bool" where
  "sameStore ms ms' \<longleftrightarrow>
     signers (Sms ms') = signers (Sms ms) \<and> idSigners (Sms ms') = idSigners (Sms ms) \<and>
     unsignedMsgMap (Sms ms') = unsignedMsgMap (Sms ms) \<and>
     (wf_sms (Sms ms) \<longrightarrow> wf_sms (Sms ms')) \<and> (plain_sms (Sms ms) \<longrightarrow> plain_sms (Sms ms'))"

lemma sameCounts_refl [simp]: "sameCounts ms ms"
  by (simp add: sameCounts_def)

lemma sameCounts_trans: "sameCounts a b \<Longrightarrow> sameCounts b c \<Longrightarrow> sameCounts a c"
  by (simp add: sameCounts_def)

lemma sameStore_refl [simp]: "sameStore ms ms"
  by (simp add: sameStore_def)

lemma sameStore_trans: "sameStore a b \<Longrightarrow> sameStore b c \<Longrightarrow> sameStore a c"
  by (simp add: sameStore_def)

lemma getValids_sameCounts: "sameCounts ms ms' \<Longrightarrow> getValids nmt t round ms' = getValids nmt t round ms"
  by (simp add: getValids_def sameCounts_def fun_eq_iff Let_def)

lemma getAux_setAux [simp]:
  "getAuxRoundStruct (setAux ms r x) r' = (if r' = r then x else getAuxRoundStruct ms r')"
  by (simp add: getAuxRoundStruct_def setAux_def)

lemma setAux_fields [simp]:
  "Sms (setAux ms r x) = Sms ms" "isMv (setAux ms r x) = isMv ms"
  "mv0Valid (setAux ms r x) = mv0Valid ms" "mv1Valid (setAux ms r x) = mv1Valid ms"
  by (simp_all add: setAux_def)

lemma getAux_Sms_update [simp]: "getAuxRoundStruct (ms\<lparr>Sms := s\<rparr>) r = getAuxRoundStruct ms r"
  by (simp add: getAuxRoundStruct_def)

lemma finite_dom_setAux [simp]: "finite (dom (auxValues (setAux ms r x))) = finite (dom (auxValues ms))"
  by (simp add: setAux_def)

lemma sameStore_setAux [simp]: "sameStore ms (setAux ms r x)"
  by (simp add: sameStore_def)

lemma sameCounts_setAux [simp]:
  "BinNums x = BinNums (getAuxRoundStruct ms r) \<Longrightarrow>
   TotalBinMsgCount x = TotalBinMsgCount (getAuxRoundStruct ms r) \<Longrightarrow> sameCounts ms (setAux ms r x)"
  by (simp add: sameCounts_def)

subsection \<open>Proof generation only reads\<close>

lemma SetupSignedMessage_frame:
  assumes "SetupSignedMessage sms sm pid mySig k = (sms', r)"
  shows "signers sms' = signers sms \<and> idSigners sms' = idSigners sms \<and> unsignedMsgMap sms' = unsignedMsgMap sms \<and>
    (wf_sms sms \<longrightarrow> wf_sms sms') \<and> (plain_sms sms \<longrightarrow> plain_sms sms')"
proof (cases "getSignedMsgState sms sm")
  case (Inl e)
  then show ?thesis using assms by (auto simp: SetupSignedMessage_def setupSigs_def split: if_splits)
next
  case (Inr x)
  obtain s0 item c where x: "x = (s0, item, c)" by (metis prod_cases3)
  have g: "getSignedMsgState sms sm = Inr (s0, item, c)" using Inr x by simp
  have "sms' = sms \<or> sms' = s0"
    using assms g by (auto simp: SetupSignedMessage_def setupSigs_def Let_def split: if_splits)
  then show ?thesis
    using getSignedMsgState_signers(1,2) [OF g] getSignedMsgState_spec(6) [OF g]
      getSignedMsgState_wf(3) [OF g] getSignedMsgState_plain(3) [OF g]
    by (auto simp: fun_eq_iff)
qed

definition readsOnly :: "'p MessageState \<Rightarrow> 'p MessageState \<Rightarrow> bool" where
  "readsOnly ms ms' \<longleftrightarrow> sameCounts ms ms' \<and> sameStore ms ms' \<and> auxValues ms' = auxValues ms"

lemma readsOnly_refl [simp]: "readsOnly ms ms"
  by (simp add: readsOnly_def)

lemma GetProofs_frame: "GetProofs cfg k r v ms = (ms', res) \<Longrightarrow> readsOnly ms ms'"
  by (auto simp: GetProofs_def readsOnly_def sameCounts_def sameStore_def
      dest!: SetupSignedMessage_frame split: if_splits prod.splits sum.splits)

lemma GenerateProofs_frame: "GenerateProofs cfg k r v ms = (ms', res) \<Longrightarrow> readsOnly ms ms'"
  by (auto simp: GenerateProofs_def Let_def dest: GetProofs_frame split: if_splits prod.splits)

lemma GetBinConsCommitProof_frame:
  "GetBinConsCommitProof cfg (sc, ms) = Inr (ms', prf) \<Longrightarrow> readsOnly ms ms'"
  by (auto simp: GetBinConsCommitProof_def dest: GetProofs_frame split: if_splits prod.splits sum.splits)

lemma readsOnly_aux: "readsOnly ms ms' \<Longrightarrow> getAuxRoundStruct ms' r = getAuxRoundStruct ms r"
  by (simp add: readsOnly_def getAuxRoundStruct_def)

lemma checkDone_frame:
  assumes "checkDone cfg round (sc, ms) = Inr ((sc', ms'), outs, d)"
  shows "readsOnly ms ms'" "sc' = sc \<or> sc' = sc\<lparr>terminated := True\<rparr>" "\<And>r v p. BcastAux r v p \<notin> set outs"
    "Decided sc < 0 \<Longrightarrow> \<not> terminated sc \<Longrightarrow> \<not> d"
  using assms
  by (auto simp: checkDone_def bind_res_Inr_iff split: if_splits StopOnCommitType.splits
      dest: GetBinConsCommitProof_frame)

subsection \<open>Effect of one \<open>CheckRound\<close>\<close>

lemma nextEstimate_valid:
  "nextEstimate nmt rs md validsR validsRp1 = Inr est \<Longrightarrow> validsRp1 est"
  by (auto simp: nextEstimate_def Let_def bind_res_Inr_iff split: if_splits)

text \<open>
  The part of the effect shared by the operations below: counts, store and item fields that stay,
  flags that only grow, and what a broadcast implies.
\<close>

definition stepEffect ::
    "int \<Rightarrow> int \<Rightarrow> nat \<Rightarrow> 'p MessageState \<Rightarrow> 'p MessageState \<Rightarrow> 'p out list \<Rightarrow> bool" where
  "stepEffect nmt t round ms ms' outs \<longleftrightarrow>
     sameCounts ms ms' \<and> sameStore ms ms' \<and> (finite (dom (auxValues ms)) \<longrightarrow> finite (dom (auxValues ms'))) \<and>
     (\<forall>r. sentProposal (getAuxRoundStruct ms r) \<longrightarrow> sentProposal (getAuxRoundStruct ms' r)) \<and>
     (\<forall>r v p. BcastAux r v p \<in> set outs \<longrightarrow>
        r = Suc round \<and> \<not> sentProposal (getAuxRoundStruct ms round) \<and>
        sentProposal (getAuxRoundStruct ms' round) \<and> getValids nmt t (Suc round) ms v) \<and>
     (\<forall>r v p r' v' p'. BcastAux r v p \<in> set outs \<longrightarrow> BcastAux r' v' p' \<in> set outs \<longrightarrow> v = v')"

definition sameItem :: "BinCons1 \<Rightarrow> BinCons1 \<Rightarrow> bool" where
  "sameItem sc sc' \<longleftrightarrow> Started sc' = Started sc \<and> NeedsProposal sc' = NeedsProposal sc \<and>
     GotProposal sc' = GotProposal sc \<and> Decided sc' = Decided sc \<and> decidedRound sc' = decidedRound sc"

lemma stepEffect_readsOnly:
  "readsOnly ms ms' \<Longrightarrow> (\<And>r v p. BcastAux r v p \<notin> set outs) \<Longrightarrow> stepEffect nmt t round ms ms' outs"
  by (auto simp: stepEffect_def readsOnly_aux readsOnly_def)

lemma stepEffect_after_read:
  assumes "readsOnly ms ms1" "stepEffect nmt t round ms1 ms' outs" "\<And>r v p. BcastAux r v p \<notin> set outs0"
  shows "stepEffect nmt t round ms ms' (outs0 @ outs)"
proof -
  have "getValids nmt t r ms1 = getValids nmt t r ms" for r
    using assms(1) by (simp add: readsOnly_def getValids_sameCounts)
  moreover have "sameCounts ms ms'" "sameStore ms ms'"
    using assms(1,2) sameCounts_trans sameStore_trans by (auto simp: readsOnly_def stepEffect_def)
  moreover have "auxValues ms1 = auxValues ms" using assms(1) by (simp add: readsOnly_def)
  ultimately show ?thesis
    using assms(2,3) readsOnly_aux [OF assms(1)] unfolding stepEffect_def set_append Un_iff by metis
qed

lemma sendNextRound_effect:
  assumes "sendNextRound cfg round est (sc, ms) = Inr ((sc', ms'), outs)"
    and "\<not> sentProposal (getAuxRoundStruct ms round)" "getValids nmt t (Suc round) ms est"
  shows "stepEffect nmt t round ms ms' outs" "sc' = sc"
proof -
  define ms1 where "ms1 = setAux ms round ((getAuxRoundStruct ms round)\<lparr>sentProposal := True\<rparr>)"
  have "readsOnly ms1 ms'" and outs: "outs = [] \<or> (\<exists>p. outs = [BcastAux (Suc round) est p])" and "sc' = sc"
    using assms(1)
    by (auto simp: sendNextRound_def ms1_def [symmetric] Let_def dest: GenerateProofs_frame
        split: if_splits prod.splits sum.splits)
  then show "sc' = sc" by simp
  have "sameCounts ms ms1" "sameStore ms ms1" "finite (dom (auxValues ms1)) = finite (dom (auxValues ms))"
    and "\<forall>r. getAuxRoundStruct ms1 r =
      (if r = round then (getAuxRoundStruct ms round)\<lparr>sentProposal := True\<rparr> else getAuxRoundStruct ms r)"
    by (simp_all add: ms1_def)
  with \<open>readsOnly ms1 ms'\<close> outs assms(2,3) show "stepEffect nmt t round ms ms' outs"
    by (auto simp: stepEffect_def readsOnly_aux readsOnly_def intro: sameCounts_trans sameStore_trans)
qed

text \<open>The three ways \<open>CheckRoundAdvance\<close> ends after \<open>checkDone\<close>.\<close>

lemma CheckRoundAdvance_cases:
  assumes "CheckRoundAdvance cfg nmt t round md validsR (sc, ms) = Inr ((sc', ms'), outs, b)"
  obtains (same) d where "checkDone cfg round (sc, ms) = Inr ((sc', ms'), outs, d)" "b"
  | (timer) sc1 ms1 outs1 where "checkDone cfg round (sc, ms) = Inr ((sc1, ms1), outs1, False)"
      "sc' = sc1\<lparr>roundTimers := roundTimers sc1 @ [round]\<rparr>"
      "ms' = setAux ms1 round ((getAuxRoundStruct ms1 round)\<lparr>timeoutState := TimeoutSent\<rparr>)"
      "outs = outs1 @ [StartTimer round]" "b"
  | (send) sc1 ms1 outs1 outs2 est where "checkDone cfg round (sc, ms) = Inr ((sc1, ms1), outs1, False)"
      "\<not> sentProposal (getAuxRoundStruct ms1 round)"
      "nextEstimate nmt (getAuxRoundStruct ms1 round) md validsR (getValids nmt t (Suc round) ms1) = Inr est"
      "sendNextRound cfg round est (sc1, ms1) = Inr ((sc', ms'), outs2)"
      "outs = outs1 @ outs2" "b"
proof -
  obtain sc1 ms1 outs1 d where c: "checkDone cfg round (sc, ms) = Inr ((sc1, ms1), outs1, d)"
    using assms by (auto simp: CheckRoundAdvance_def bind_res_Inr_iff)
  show thesis
  proof (cases "d \<or> sentProposal (getAuxRoundStruct ms1 round) \<or> \<not> memberLocal cfg")
    case True
    then show thesis
      using assms c same by (auto simp: CheckRoundAdvance_def Let_def split: if_splits)
  next
    case False
    then show thesis
      using assms c same timer send [of sc1 ms1 outs1]
      unfolding CheckRoundAdvance_def by (auto simp: Let_def bind_res_Inr_iff split: if_splits)
  qed
qed

lemma CheckRoundAdvance_effect:
  assumes "CheckRoundAdvance cfg nmt t round md validsR (sc, ms) = Inr ((sc', ms'), outs, b)"
  shows "stepEffect nmt t round ms ms' outs \<and> sameItem sc sc' \<and> b"
  using assms
proof (cases rule: CheckRoundAdvance_cases)
  case (same d)
  note cd = checkDone_frame [OF same(1)]
  show ?thesis using cd same(2) by (auto simp: sameItem_def intro: stepEffect_readsOnly)
next
  case (timer sc1 ms1 outs1)
  note cd = checkDone_frame [OF timer(1)]
  have "stepEffect nmt t round ms1 ms' [StartTimer round]"
    using timer(3) by (auto simp: stepEffect_def)
  from stepEffect_after_read [OF cd(1) this cd(3)] show ?thesis
    using timer cd(2) by (auto simp: sameItem_def)
next
  case (send sc1 ms1 outs1 outs2 est)
  note cd = checkDone_frame [OF send(1)]
  note e = sendNextRound_effect [OF send(4) send(2) nextEstimate_valid [OF send(3)]]
  from stepEffect_after_read [OF cd(1) e(1) cd(3)] show ?thesis
    using send cd(2) e(2) by (auto simp: sameItem_def)
qed

text \<open>What a decision of the round requires: enough messages for its value, and a valid value.\<close>

definition decidable :: "int \<Rightarrow> int \<Rightarrow> nat \<Rightarrow> 'p MessageState \<Rightarrow> bool" where
  "decidable nmt t round ms \<longleftrightarrow> 0 < round \<and> getValids nmt t round ms (odd round) \<and>
     nmt \<le> BinNums (getAuxRoundStruct ms round) (odd round)"

definition roundVal :: "nat \<Rightarrow> bool" where
  "roundVal round = (if round = 0 then True else odd round)"

text \<open>The item after the decision of the round.\<close>

definition decideItem :: "nat \<Rightarrow> BinCons1 \<Rightarrow> BinCons1" where
  "decideItem round sc =
     (if Decided sc = -1 then (stopTimers sc)\<lparr>SkipTimeoutRound := maxUint32, decidedRound := round\<rparr> else sc)
       \<lparr>Decided := of_bool (odd round), absDecided := True\<rparr>"

lemma CheckRound_cases:
  assumes "CheckRound cfg nmt t round (sc, ms) = Inr ((sc', ms'), outs, b)" and ge: "-1 \<le> Decided sc"
  obtains (few) "TotalBinMsgCount (getAuxRoundStruct ms round) < nmt" "\<not> b" "ms' = ms" "outs = []" "sameItem sc sc'"
  | (dec) sc1 where "sameItem sc sc1" "decidable nmt t round ms" "Decided sc = -1 \<or> Decided sc = of_bool (odd round)"
      "sc' = decideItem round sc1 \<or> sc' = (decideItem round sc1)\<lparr>terminated := True\<rparr>" "ms' = ms" "outs = []" "b"
      "nmt \<le> TotalBinMsgCount (getAuxRoundStruct ms round)"
  | (decadv) sc1 where "sameItem sc sc1" "decidable nmt t round ms" "Decided sc = -1 \<or> Decided sc = of_bool (odd round)"
      "CheckRoundAdvance cfg nmt t round (roundVal round) (getValids nmt t round ms) (decideItem round sc1, ms)
         = Inr ((sc', ms'), outs, b)"
      "nmt \<le> TotalBinMsgCount (getAuxRoundStruct ms round)"
  | (adv) sc1 where "sameItem sc sc1"
      "CheckRoundAdvance cfg nmt t round (roundVal round) (getValids nmt t round ms) (sc1, ms) = Inr ((sc', ms'), outs, b)"
      "nmt \<le> TotalBinMsgCount (getAuxRoundStruct ms round)"
proof -
  define sc1 where "sc1 = (if TotalBinMsgCount (getAuxRoundStruct ms round) > t then sc\<lparr>SkipTimeoutRound := int round\<rparr> else sc)"
  have sc1: "sameItem sc sc1" "Decided sc1 = Decided sc" by (auto simp: sc1_def sameItem_def)
  consider "TotalBinMsgCount (getAuxRoundStruct ms round) < nmt"
    | "nmt \<le> TotalBinMsgCount (getAuxRoundStruct ms round)" "decidable nmt t round ms"
    | "nmt \<le> TotalBinMsgCount (getAuxRoundStruct ms round)" "\<not> decidable nmt t round ms"
    by linarith
  then show thesis
  proof cases
    case 1
    then have "sc' = sc1" "ms' = ms" "outs = []" "\<not> b"
      using assms(1) by (simp_all add: CheckRound_def Let_def sc1_def split: if_splits)
    with 1 sc1 few show thesis by simp
  next
    case 2
    note step = assms(1) [unfolded CheckRound_def Let_def prod.case, folded sc1_def, folded roundVal_def]
    have m: "roundVal round = odd round" "round > 0" "getValids nmt t round ms (roundVal round)"
      "nmt \<le> BinNums (getAuxRoundStruct ms round) (roundVal round)"
      using 2(2) by (simp_all add: decidable_def roundVal_def)
    have "Decided sc = -1 \<or> Decided sc = of_bool (odd round)"
      using step ge sc1(2) 2(1) m by (simp split: if_splits)
    then show thesis
      using step 2(1) m(2-4) sc1(2) dec [OF sc1(1) 2(2)] decadv [OF sc1(1) 2(2)]
      by (simp add: decideItem_def m(1) split: if_splits)
  next
    case 3
    note step = assms(1) [unfolded CheckRound_def Let_def prod.case, folded sc1_def, folded roundVal_def]
    have "\<not> (0 < round \<and> getValids nmt t round ms (roundVal round) \<and>
      nmt \<le> BinNums (getAuxRoundStruct ms round) (roundVal round))"
      using 3(2) by (auto simp: decidable_def roundVal_def)
    with step 3(1) have "CheckRoundAdvance cfg nmt t round (roundVal round) (getValids nmt t round ms) (sc1, ms)
        = Inr ((sc', ms'), outs, b)" by (simp split: if_splits)
    from adv [OF sc1(1) this 3(1)] show thesis .
  qed
qed

text \<open>The decision state before and after: unchanged, or the decision of this round.\<close>

definition decidedBy :: "int \<Rightarrow> int \<Rightarrow> nat \<Rightarrow> 'p MessageState \<Rightarrow> BinCons1 \<Rightarrow> BinCons1 \<Rightarrow> bool" where
  "decidedBy nmt t round ms sc sc' \<longleftrightarrow>
     GotProposal sc' = GotProposal sc \<and> NeedsProposal sc' = NeedsProposal sc \<and> Started sc' = Started sc \<and>
     ((Decided sc' = Decided sc \<and> decidedRound sc' = decidedRound sc) \<or>
      (Decided sc = -1 \<and> decidable nmt t round ms \<and> Decided sc' = of_bool (odd round) \<and> decidedRound sc' = round))"

lemma decidedBy_decideItem:
  assumes "sameItem sc sc1" "decidable nmt t round ms" "Decided sc = -1 \<or> Decided sc = of_bool (odd round)"
    and "sameItem (decideItem round sc1) sc'"
  shows "decidedBy nmt t round ms sc sc'"
  using assms by (auto simp: decidedBy_def sameItem_def decideItem_def stopTimers_def split: if_splits)

lemma CheckRound_effect:
  assumes "CheckRound cfg nmt t round (sc, ms) = Inr ((sc', ms'), outs, b)" "-1 \<le> Decided sc"
  shows "stepEffect nmt t round ms ms' outs" "decidedBy nmt t round ms sc sc'"
    "b \<longleftrightarrow> nmt \<le> TotalBinMsgCount (getAuxRoundStruct ms round)"
proof -
  have noBcast: "stepEffect nmt t round ms ms []" by (simp add: stepEffect_def)
  have same: "sameItem sc sc1 \<Longrightarrow> sameItem sc1 sc2 \<Longrightarrow> decidedBy nmt t round ms sc sc2" for sc1 sc2
    by (simp add: decidedBy_def sameItem_def)
  have "stepEffect nmt t round ms ms' outs \<and> decidedBy nmt t round ms sc sc' \<and>
    (b \<longleftrightarrow> nmt \<le> TotalBinMsgCount (getAuxRoundStruct ms round))"
    using assms
  proof (cases rule: CheckRound_cases)
    case few
    then show ?thesis using noBcast same [of sc' sc'] by (auto simp: sameItem_def)
  next
    case (dec sc1)
    have "sameItem (decideItem round sc1) sc'" using dec(4) by (auto simp: sameItem_def)
    from decidedBy_decideItem [OF dec(1-3) this] show ?thesis using noBcast dec(5-8) by simp
  next
    case (decadv sc1)
    from CheckRoundAdvance_effect [OF decadv(4)] show ?thesis
      using decadv(5) decidedBy_decideItem [OF decadv(1-3)] by simp
  next
    case (adv sc1)
    from CheckRoundAdvance_effect [OF adv(2)] show ?thesis using adv(3) same [OF adv(1)] by simp
  qed
  then show "stepEffect nmt t round ms ms' outs" "decidedBy nmt t round ms sc sc'"
    "b \<longleftrightarrow> nmt \<le> TotalBinMsgCount (getAuxRoundStruct ms round)" by auto
qed

end
