(* ===== verification/BinCons1_Node.thy ===== *)
theory BinCons1_Node
  imports BinCons1
begin

text \<open>
  Local correctness of a \<^verbatim>\<open>BinCons1\<close> node: the invariant that ties the counters of a round to the
  signatures in the store, its preservation by every operation, the calls to \<^verbatim>\<open>panic\<close> that cannot be
  reached, and termination of the loop over rounds.
\<close>

section \<open>The counters are the numbers of distinct signers\<close>

definition wf_ms :: "'p MessageState \<Rightarrow> bool" where
  "wf_ms ms \<longleftrightarrow> wf_sms (Sms ms) \<and> plain_sms (Sms ms) \<and> unsignedMsgMap (Sms ms) = (\<lambda>_. None) \<and>
     finite (dom (auxValues ms)) \<and>
     (\<forall>r v. BinNums (getAuxRoundStruct ms r) v = int (card (signers (Sms ms) (r, v)))) \<and>
     (\<forall>r. TotalBinMsgCount (getAuxRoundStruct ms r) = int (card (idSigners (Sms ms) r))) \<and>
     (\<forall>r. idSigners (Sms ms) r = signers (Sms ms) (r, False) \<union> signers (Sms ms) (r, True))"

lemma finite_signers [simp]: "finite (signers sms h)" "finite (idSigners sms i)"
  by (simp_all add: signers_def idSigners_def split: option.splits)

lemma wf_ms_new [simp]: "wf_ms (NewMessageState mv)"
  by (simp add: wf_ms_def NewMessageState_def getAuxRoundStruct_def emptyAux_def)

lemma wf_ms_BinNums: "wf_ms ms \<Longrightarrow> BinNums (getAuxRoundStruct ms r) v = int (card (signers (Sms ms) (r, v)))"
  by (simp add: wf_ms_def)

lemma wf_ms_frame:
  assumes "wf_ms ms" "sameCounts ms ms'" "sameStore ms ms'" "finite (dom (auxValues ms'))"
  shows "wf_ms ms'"
  using assms unfolding wf_ms_def sameCounts_def sameStore_def by metis

lemma sigItem_members_new:
  "plain_sigs sigs \<Longrightarrow> plain_sigs (sm_sigs (aux_msg r v sigs))"
  by (simp add: aux_msg_def)

text \<open>The set of keys that a delivered message adds to the signers of its round and value.\<close>

definition newSigners :: "('p sig_item \<Rightarrow> bool) \<Rightarrow> nat \<Rightarrow> bool \<Rightarrow> 'p sig_item list \<Rightarrow> 'p MessageState \<Rightarrow> 'p set" where
  "newSigners chk r v sigs ms = {si_pub si | si. si \<in> set sigs \<and> chk si \<and> si_pub si \<notin> signers (Sms ms) (r, v)}"

lemma card_union_ge: "finite A \<Longrightarrow> finite B \<Longrightarrow> card A \<le> card (A \<union> B)"
  by (simp add: card_mono)

text \<open>The two ways \<open>GotMsg\<close> ends; the counters only grow.\<close>

lemma GotMsg_cases:
  assumes "GotMsg chk r v sigs ms = (ms', res)" "GotSignedMsg chk (Sms ms) (aux_msg r v sigs) = (sms', sm', rr)"
  obtains (err) e where "rr = Inl e" "res = Inl e" "ms' = ms\<lparr>Sms := sms'\<rparr>"
  | (ok) a b x where "rr = Inr (a, b)" "res = Inr ()" "ms' = setAux (ms\<lparr>Sms := sms'\<rparr>) r x"
      "BinNums x = (BinNums (getAuxRoundStruct ms r))(v := max (BinNums (getAuxRoundStruct ms r) v) a)"
      "TotalBinMsgCount x = max (TotalBinMsgCount (getAuxRoundStruct ms r)) b"
      "sentProposal x = sentProposal (getAuxRoundStruct ms r)"
proof (cases rr)
  case (Inl e)
  then show thesis using assms err by (simp add: GotMsg_def)
next
  case (Inr ab)
  then obtain a b where ab: "rr = Inr (a, b)" by (cases ab) simp
  define rs1 where "rs1 = (if BinNums (getAuxRoundStruct ms r) v < a
    then (getAuxRoundStruct ms r)\<lparr>BinNums := (BinNums (getAuxRoundStruct ms r))(v := a)\<rparr> else getAuxRoundStruct ms r)"
  define rs2 where "rs2 = (if TotalBinMsgCount rs1 < b then rs1\<lparr>TotalBinMsgCount := b\<rparr> else rs1)"
  have 1: "ms' = setAux (ms\<lparr>Sms := sms'\<rparr>) r rs2" "res = Inr ()"
    using assms(1) [unfolded GotMsg_def assms(2) Let_def getAux_Sms_update ab, simplified prod.case sum.case,
        folded rs1_def, folded rs2_def] by simp_all
  have 2: "BinNums rs2 = (BinNums (getAuxRoundStruct ms r))(v := max (BinNums (getAuxRoundStruct ms r) v) a)"
    by (auto simp: rs2_def rs1_def fun_eq_iff)
  have 3: "TotalBinMsgCount rs2 = max (TotalBinMsgCount (getAuxRoundStruct ms r)) b"
    "sentProposal rs2 = sentProposal (getAuxRoundStruct ms r)"
    by (auto simp: rs2_def rs1_def)
  from ok [OF ab 1(2,1) 2 3] show thesis .
qed

lemma GotMsg_spec:
  assumes got: "GotMsg chk r v sigs ms = (ms', res)" and wf: "wf_ms ms" and pl: "plain_sigs sigs"
  shows "signers (Sms ms') = (signers (Sms ms))((r, v) := signers (Sms ms) (r, v) \<union> newSigners chk r v sigs ms)"
    and "idSigners (Sms ms') = (idSigners (Sms ms))(r := idSigners (Sms ms) r \<union> newSigners chk r v sigs ms)"
    and "is_ok res \<longleftrightarrow> newSigners chk r v sigs ms \<noteq> {}"
    and "wf_ms ms'"
    and "\<forall>r'. sentProposal (getAuxRoundStruct ms' r') = sentProposal (getAuxRoundStruct ms r')"
    and "isMv ms' = isMv ms" "mv0Valid ms' = mv0Valid ms" "mv1Valid ms' = mv1Valid ms"
proof -
  let ?new = "newSigners chk r v sigs ms"
  obtain sms' sm' rr where g: "GotSignedMsg chk (Sms ms) (aux_msg r v sigs) = (sms', sm', rr)"
    by (metis prod_cases3)
  have pre: "wf_sms (Sms ms)" "plain_sms (Sms ms)" "plain_sigs (sm_sigs (aux_msg r v sigs))"
    "unsignedMsgMap (Sms ms) (sm_hash (aux_msg r v sigs)) = None"
    using wf pl by (simp_all add: wf_ms_def aux_msg_def)
  note s = GotSignedMsg_spec [OF g pre, unfolded aux_msg_def, simplified, folded newSigners_def]
  have s6: "is_ok rr \<longleftrightarrow> ?new \<noteq> {}"
    using GotSignedMsg_spec(6) [OF g pre] by (simp add: aux_msg_def newSigners_def)
  note cases = GotMsg_cases [OF got g]
  have sms': "Sms ms' = sms'" by (rule cases) auto
  show sig: "signers (Sms ms') = (signers (Sms ms))((r, v) := signers (Sms ms) (r, v) \<union> ?new)"
    and ids: "idSigners (Sms ms') = (idSigners (Sms ms))(r := idSigners (Sms ms) r \<union> ?new)"
    using s(4,5) sms' by simp_all
  show "is_ok res \<longleftrightarrow> ?new \<noteq> {}"
    by (rule cases) (use s6 in simp_all)
  show "\<forall>r'. sentProposal (getAuxRoundStruct ms' r') = sentProposal (getAuxRoundStruct ms r')"
    "isMv ms' = isMv ms" "mv0Valid ms' = mv0Valid ms" "mv1Valid ms' = mv1Valid ms"
    by (rule cases; simp)+
  have fin: "finite (dom (auxValues ms'))"
    by (rule cases) (use wf in \<open>simp_all add: wf_ms_def setAux_def\<close>)
  have finnew: "finite ?new" by (simp add: newSigners_def)
  have counts: "BinNums (getAuxRoundStruct ms' r') v' = int (card (signers (Sms ms') (r', v'))) \<and>
      TotalBinMsgCount (getAuxRoundStruct ms' r') = int (card (idSigners (Sms ms') r'))" for r' v'
  proof (rule cases)
    fix a b x
    assume ok: "rr = Inr (a, b)" "ms' = setAux (ms\<lparr>Sms := sms'\<rparr>) r x"
      "BinNums x = (BinNums (getAuxRoundStruct ms r))(v := max (BinNums (getAuxRoundStruct ms r) v) a)"
      "TotalBinMsgCount x = max (TotalBinMsgCount (getAuxRoundStruct ms r)) b"
    have "a = int (card (signers (Sms ms') (r, v)))" "b = int (card (idSigners (Sms ms') r))"
      using s(7) ok(1) sms' by simp_all
    moreover have "card (signers (Sms ms) (r, v)) \<le> card (signers (Sms ms') (r, v))"
      "card (idSigners (Sms ms) r) \<le> card (idSigners (Sms ms') r)"
      using finnew by (simp_all add: sig ids card_union_ge del: Un_insert_right)
    ultimately show ?thesis using ok(2-4) wf sig ids by (simp add: wf_ms_def)
  next
    fix e
    assume err: "rr = Inl e" "ms' = ms\<lparr>Sms := sms'\<rparr>"
    then have "?new = {}" using s6 by simp
    then show ?thesis using err(2) sig ids wf by (simp add: wf_ms_def)
  qed
  show "wf_ms ms'"
    using s(1-3) sms' fin counts wf sig ids by (auto simp: wf_ms_def)
qed

section \<open>Proofs are available when they are needed\<close>

lemma GetProofs_ok:
  assumes wf: "wf_ms ms" and cnt: "0 < cnt" and num: "0 < BinNums (getAuxRoundStruct ms r) v"
  obtains ms' sm where "GetProofs cfg cnt r v ms = (ms', Inr [sm])"
    "int (length (sm_sigs sm)) = min cnt (BinNums (getAuxRoundStruct ms r) v)"
proof -
  have "signers (Sms ms) (r, v) \<noteq> {}" using num wf_ms_BinNums [OF wf, of r v] by auto
  then obtain item where item: "msgMap (Sms ms) (r, v) = Some item"
    by (auto simp: signers_def split: option.splits)
  then have d: "distinct (map fst (SigMap item))" using wf by (auto simp: wf_ms_def wf_sms_def wf_item_def)
  then have len: "BinNums (getAuxRoundStruct ms r) v = int (length (SigMap item))"
    using wf_ms_BinNums [OF wf, of r v] item distinct_card [OF d] by (simp add: signers_def)
  obtain sms' c where "getSignedMsgState (Sms ms) (aux_msg r v []) = Inr (sms', item, c)"
    using item by (cases "getMsgIDcount (Sms ms) r") (auto simp: getSignedMsgState_def aux_msg_def)
  moreover have "joinSigs (myPub cfg) item cnt \<noteq> []"
    using joinSigs_length [OF cnt d, of "myPub cfg"] num cnt len by (auto simp: min_def split: if_splits)
  ultimately have "GetProofs cfg cnt r v ms =
      (ms\<lparr>Sms := sms'\<rparr>, Inr [(aux_msg r v [])\<lparr>sm_sigs := joinSigs (myPub cfg) item cnt\<rparr>])"
    using cnt num by (simp add: GetProofs_def SetupSignedMessage_def setupSigs_def Let_def)
  with that joinSigs_length [OF cnt d] len show thesis by simp
qed

section \<open>Unreachable panics\<close>

text \<open>The parameters of \<open>CheckRound\<close> as \<open>ProcessAux\<close> and \<open>ProcessTimeout\<close> compute them, for fewer than a third of faults.\<close>

definition goodParams :: "'p bc_config \<Rightarrow> int \<Rightarrow> int \<Rightarrow> bool" where
  "goodParams cfg nmt t \<longleftrightarrow> t = faultCount cfg \<and> nmt = memberCount cfg - t \<and> 0 \<le> t \<and> 2 * t < nmt"

lemma goodParams_one_third:
  "0 < memberCount cfg \<Longrightarrow> faultCount cfg = GetOneThirdBottom (memberCount cfg) \<Longrightarrow>
   goodParams cfg (memberCount cfg - faultCount cfg) (faultCount cfg)"
  using one_third.faults_nonneg [of "memberCount cfg"] one_third.quorum_minus_faults [of "memberCount cfg"]
  by (simp add: goodParams_def)

text \<open>
  Under a multi-value reduction the rounds start at 1, and no more than \<open>t\<close> processes, all faulty, send messages of round 0.
\<close>

definition mvOk :: "int \<Rightarrow> 'p MessageState \<Rightarrow> bool" where
  "mvOk t ms \<longleftrightarrow> (isMv ms \<longrightarrow> (\<forall>v. BinNums (getAuxRoundStruct ms 0) v \<le> t))"

lemma mvOk_sameCounts: "sameCounts ms ms' \<Longrightarrow> mvOk t ms' = mvOk t ms"
  by (simp add: mvOk_def sameCounts_def)

text \<open>
  A valid value has enough signatures in an earlier round to prove it. The exception is the value 1 in round 2 of a multi-value
  reduction, which is valid because of the echoes.
\<close>

lemma GenerateProofs_mv:
  assumes wf: "wf_ms ms" and t: "0 \<le> t" "t = faultCount cfg"
    and g: "GenerateProofs cfg k 2 True ms = (ms', r)"
  shows "\<not> panics r"
proof (cases "BinNums (getAuxRoundStruct ms 0) True = 0")
  case True
  then have "GetProofs cfg (t + 1) 0 True ms = (ms, Inl ErrNoProofs)" by (simp add: GetProofs_def)
  then show ?thesis using g t by (auto simp: GenerateProofs_def Let_def checkSigCount_def panics_def)
next
  case False
  then have pos: "0 < BinNums (getAuxRoundStruct ms 0) True" using wf_ms_BinNums [OF wf, of 0 True] by linarith
  have "0 < t + 1" using t by simp
  from GetProofs_ok [OF wf this pos] obtain ms1 sm where "GetProofs cfg (t + 1) 0 True ms = (ms1, Inr [sm])" by metis
  then show ?thesis using g t by (auto simp: GenerateProofs_def Let_def checkSigCount_def panics_Inl split: if_splits)
qed

lemma GenerateProofs_ok:
  assumes wf: "wf_ms ms" and par: "goodParams cfg nmt t" and mv: "mvOk t ms" and mvr: "isMv ms \<longrightarrow> round \<noteq> 0"
    and valid: "getValids nmt t (Suc round) ms v"
    and g: "GenerateProofs cfg (fst (GetBufferCount cfg)) (Suc round) v ms = (ms', r)"
  shows "is_ok r \<or> (round = 1 \<and> v \<and> mv1Valid ms' \<and> \<not> panics r)"
proof -
  have t: "t = faultCount cfg" "nmt = memberCount cfg - t" "0 \<le> t" "2 * t < nmt" "0 < nmt"
    using par by (auto simp: goodParams_def)
  consider (zero) "\<not> isMv ms" "round = 0 \<or> (round = 1 \<and> v)" | (mv) "isMv ms" "round = 1" "v" | (later) "\<not> (round = 0 \<or> (round = 1 \<and> v))"
    using mvr by blast
  then show ?thesis
  proof cases
    case zero
    then have "t < BinNums (getAuxRoundStruct ms 0) v"
      using valid t by (auto simp: getValids_def Let_def)
    moreover from this obtain ms1 sm where "GetProofs cfg (t + 1) 0 v ms = (ms1, Inr [sm])"
      "int (length (sm_sigs sm)) = min (t + 1) (BinNums (getAuxRoundStruct ms 0) v)"
      using GetProofs_ok [OF wf, of "t + 1" 0 v cfg] t by auto
    ultimately show ?thesis using zero g t by (auto simp: GenerateProofs_def Let_def checkSigCount_def)
  next
    case mv
    have "BinNums (getAuxRoundStruct ms 0) True \<le> t" using assms(3) mv(1) by (simp add: mvOk_def)
    then have "mv1Valid ms" using valid mv t by (auto simp: getValids_def Let_def)
    moreover have "sameCounts ms ms'" using GenerateProofs_frame [OF g] by (simp add: readsOnly_def)
    moreover have "\<not> panics r" using GenerateProofs_mv [OF wf t(3,1)] g mv by (simp add: numeral_2_eq_2)
    ultimately show ?thesis using mv by (simp add: sameCounts_def)
  next
    case later
    define q where "q = (if odd round = v then round - 1 else round)"
    have "nmt \<le> BinNums (getAuxRoundStruct ms q) v"
      using valid later by (auto simp: getValids_def Let_def q_def split: if_splits)
    moreover from this obtain ms1 sm where "GetProofs cfg nmt q v ms = (ms1, Inr [sm])"
      "int (length (sm_sigs sm)) = min nmt (BinNums (getAuxRoundStruct ms q) v)"
      using GetProofs_ok [OF wf, of nmt q v cfg] t by auto
    ultimately show ?thesis
      using later g t by (auto simp: GenerateProofs_def GetBufferCount_def Let_def checkSigCount_def q_def split: if_splits)
  qed
qed

lemma wf_ms_setSent [simp]:
  "wf_ms ms \<Longrightarrow> wf_ms (setAux ms r ((getAuxRoundStruct ms r)\<lparr>sentProposal := b\<rparr>))"
  "wf_ms ms \<Longrightarrow> wf_ms (setAux ms r ((getAuxRoundStruct ms r)\<lparr>timeoutState := ts\<rparr>))"
  by (auto simp: wf_ms_def)

lemma sendNextRound_ok:
  assumes "wf_ms ms" "goodParams cfg nmt t" "mvOk t ms" "isMv ms \<longrightarrow> round \<noteq> 0" "getValids nmt t (Suc round) ms est"
  shows "is_ok (sendNextRound cfg round est (sc, ms))"
proof -
  define ms1 where "ms1 = setAux ms round ((getAuxRoundStruct ms round)\<lparr>sentProposal := True\<rparr>)"
  have sc: "sameCounts ms ms1" by (simp add: ms1_def)
  have "wf_ms ms1" "mvOk t ms1" "isMv ms1 \<longrightarrow> round \<noteq> 0" "getValids nmt t (Suc round) ms1 est"
    using assms getValids_sameCounts [OF sc] mvOk_sameCounts [OF sc] by (simp_all add: ms1_def)
  note g = GenerateProofs_ok [OF this(1) assms(2) this(2-4)]
  obtain ms' r where gp: "GenerateProofs cfg (fst (GetBufferCount cfg)) (Suc round) est ms1 = (ms', r)"
    by (cases "GenerateProofs cfg (fst (GetBufferCount cfg)) (Suc round) est ms1")
  then have gp': "GenerateProofs cfg (fst (GetBufferCount cfg)) (round + 1) est ms1 = (ms', r)" by simp
  show ?thesis
  proof (cases r)
    case (Inl e)
    then have "round + 1 = 2" "est" "mv1Valid ms'" "\<not> panics (Inl e :: unit res)" using g [OF gp] by (auto simp: panics_Inl)
    then show ?thesis using gp' Inl unfolding sendNextRound_def prod.case Let_def ms1_def [symmetric] by simp
  qed (use gp' in \<open>simp add: sendNextRound_def ms1_def [symmetric] Let_def\<close>)
qed

text \<open>Validity of the round's own value carries over to the next round.\<close>

lemma validsR_next:
  assumes "0 < round" "getValids nmt t round ms (odd round)"
  shows "getValids nmt t (Suc round) ms (odd round)"
  using assms by (cases "round = 1") (auto simp: getValids_def Let_def)

lemma nextEstimate_ok:
  assumes nums: "\<And>v. 0 \<le> BinNums rs v" and rs: "rs = getAuxRoundStruct ms round"
    and t: "0 \<le> t" "2 * t < nmt"
    and cnt: "nmt \<le> (if getValids nmt t round ms False then BinNums rs False else 0)
                  + (if getValids nmt t round ms True then BinNums rs True else 0)"
  shows "is_ok (nextEstimate nmt rs (roundVal round) (getValids nmt t round ms) (getValids nmt t (Suc round) ms))"
proof (cases "round = 0")
  case True
  have "BinNums rs False > t \<or> BinNums rs True > t"
    using cnt t nums [of False] nums [of True] by (auto split: if_splits)
  moreover have "getValids nmt t round ms v = (\<not> isMv ms)"
    "\<not> isMv ms \<Longrightarrow> getValids nmt t (Suc round) ms v = (BinNums rs v > t)" for v
    using True by (simp_all add: getValids_def rs)
  moreover have "\<not> isMv ms" using calculation(2) cnt t by (auto split: if_splits)
  ultimately show ?thesis using True t cnt by (auto simp: nextEstimate_def Let_def roundVal_def)
next
  case False
  let ?R = "getValids nmt t round ms" and ?R1 = "getValids nmt t (Suc round) ms" and ?md = "odd round"
  have md: "?R ?md \<Longrightarrow> ?R1 ?md" using validsR_next False by blast
  have nm: "BinNums rs (\<not> ?md) \<ge> nmt \<Longrightarrow> ?R1 (\<not> ?md)"
    using False by (simp add: getValids_def Let_def rs)
  have "nmt \<le> (if ?R (\<not> ?md) then BinNums rs (\<not> ?md) else 0) + (if ?R ?md then BinNums rs ?md else 0)"
    using cnt by (cases "odd round") auto
  then have "(?R (\<not> ?md) \<and> nmt \<le> BinNums rs (\<not> ?md)) \<or> (?R ?md \<and> 0 < BinNums rs ?md)"
    using nums [of ?md] t by (cases "?R (\<not> ?md)"; cases "?R ?md"; cases "BinNums rs ?md = 0") auto
  then show ?thesis
    using md nm False by (auto simp: nextEstimate_def Let_def roundVal_def)
qed

text \<open>
  The invariant of the item: a decision is the value of a round whose messages in the store still
  justify it.
\<close>

definition decidedOk :: "int \<Rightarrow> int \<Rightarrow> BinCons1 \<Rightarrow> 'p MessageState \<Rightarrow> bool" where
  "decidedOk nmt t sc ms \<longleftrightarrow> Decided sc = -1 \<or>
     (Decided sc = of_bool (odd (decidedRound sc)) \<and> decidable nmt t (decidedRound sc) ms)"

lemma decidedOk_ge: "decidedOk nmt t sc ms \<Longrightarrow> -1 \<le> Decided sc"
  by (auto simp: decidedOk_def)

lemma decidable_sameCounts: "sameCounts ms ms' \<Longrightarrow> decidable nmt t r ms' = decidable nmt t r ms"
  by (simp add: decidable_def getValids_sameCounts) (simp add: sameCounts_def)

lemma decidedOk_decidedBy:
  "decidedBy nmt t round ms sc sc' \<Longrightarrow> sameCounts ms ms' \<Longrightarrow> decidedOk nmt t sc ms \<Longrightarrow> decidedOk nmt t sc' ms'"
  by (auto simp: decidedBy_def decidedOk_def decidable_sameCounts)

lemma checkDone_ok:
  assumes wf: "wf_ms ms" and par: "goodParams cfg nmt t" and dec: "decidedOk nmt t sc ms"
  shows "is_ok (checkDone cfg round (sc, ms))"
proof (cases "Decided sc = -1")
  case False
  then have d: "Decided sc = of_bool (odd (decidedRound sc))"
    "nmt \<le> BinNums (getAuxRoundStruct ms (decidedRound sc)) (odd (decidedRound sc))"
    using dec by (auto simp: decidedOk_def decidable_def)
  have nmt: "0 < nmt" "fst (GetBufferCount cfg) = nmt" using par by (auto simp: goodParams_def GetBufferCount_def)
  have "(Decided sc \<noteq> 0) = odd (decidedRound sc)" "-1 < Decided sc" using d(1) by auto
  moreover have "0 < BinNums (getAuxRoundStruct ms (decidedRound sc)) (odd (decidedRound sc))"
    using d(2) nmt(1) by linarith
  then obtain ms' sm where "GetProofs cfg nmt (decidedRound sc) (odd (decidedRound sc)) ms = (ms', Inr [sm])"
    using GetProofs_ok [OF wf nmt(1)] by blast
  ultimately have "is_ok (GetBinConsCommitProof cfg (sc, ms))"
    by (simp add: GetBinConsCommitProof_def HasDecided_def nmt(2))
  then show ?thesis
    by (auto simp: checkDone_def is_ok_iff split: StopOnCommitType.splits)
qed (simp add: checkDone_def)

lemma CheckRoundAdvance_ok:
  assumes wf: "wf_ms ms" and par: "goodParams cfg nmt t" and mv: "mvOk t ms" and dec: "decidedOk nmt t sc ms"
  shows "is_ok (CheckRoundAdvance cfg nmt t round (roundVal round) (getValids nmt t round ms) (sc, ms))"
proof -
  obtain sc1 ms1 outs1 d where c: "checkDone cfg round (sc, ms) = Inr ((sc1, ms1), outs1, d)"
    using checkDone_ok [OF wf par dec, of round] by (auto simp: is_ok_iff)
  note f = checkDone_frame [OF c]
  have sc: "sameCounts ms ms1" and g1: "getAuxRoundStruct ms1 round = getAuxRoundStruct ms round"
    using f(1) readsOnly_aux by (auto simp: readsOnly_def)
  have wf1: "wf_ms ms1" using wf_ms_frame [OF wf sc] f(1) wf by (auto simp: readsOnly_def wf_ms_def)
  have mv1: "mvOk t ms1" using mvOk_sameCounts [OF sc] mv by simp
  let ?rs = "getAuxRoundStruct ms round"
  have ne: "is_ok (nextEstimate nmt ?rs (roundVal round) (getValids nmt t round ms) (getValids nmt t (Suc round) ms1))"
    if "nmt \<le> (if getValids nmt t round ms False then BinNums ?rs False else 0)
             + (if getValids nmt t round ms True then BinNums ?rs True else 0)"
    using nextEstimate_ok [OF _ refl _ _ that] par wf_ms_BinNums [OF wf] getValids_sameCounts [OF sc]
    by (simp add: goodParams_def)
  have mvr: "isMv ms1 \<longrightarrow> round \<noteq> 0"
    if "nmt \<le> (if getValids nmt t round ms False then BinNums ?rs False else 0)
             + (if getValids nmt t round ms True then BinNums ?rs True else 0)"
  proof
    assume "isMv ms1"
    then have "isMv ms" using sc by (simp add: sameCounts_def)
    then have "\<not> getValids nmt t 0 ms v" for v by (simp add: getValids_def)
    then show "round \<noteq> 0" using that par by (cases "round = 0") (simp_all add: goodParams_def)
  qed
  have "is_ok (sendNextRound cfg round est (sc1, ms1))"
    if "isMv ms1 \<longrightarrow> round \<noteq> 0" "nextEstimate nmt ?rs (roundVal round) (getValids nmt t round ms) (getValids nmt t (Suc round) ms1) = Inr est" for est
    using sendNextRound_ok [OF wf1 par mv1 that(1) nextEstimate_valid [OF that(2)]] .
  then have key: "is_ok (bind_res (nextEstimate nmt ?rs (roundVal round) (getValids nmt t round ms) (getValids nmt t (Suc round) ms1))
      (\<lambda>est. bind_res (sendNextRound cfg round est (sc1, ms1)) (\<lambda>(st2, outs2). Inr (st2, outs1 @ outs2, True))))"
    if "nmt \<le> (if getValids nmt t round ms False then BinNums ?rs False else 0)
             + (if getValids nmt t round ms True then BinNums ?rs True else 0)"
    using ne [OF that] mvr [OF that] unfolding is_ok_iff by force
  show ?thesis
    using key by (simp add: CheckRoundAdvance_def c g1 Let_def)
qed

text \<open>
  The only calls to \<^verbatim>\<open>panic\<close> left in \<open>CheckRound\<close> are the two that report a violation of the
  fault assumption.
\<close>

lemma CheckRound_ok:
  assumes wf: "wf_ms ms" and par: "goodParams cfg nmt t" and mv: "mvOk t ms" and dec: "decidedOk nmt t sc ms"
    and same: "Decided sc \<noteq> -1 \<Longrightarrow> decidable nmt t round ms \<Longrightarrow> Decided sc = of_bool (odd round)"
    and one: "decidable nmt t round ms \<Longrightarrow> BinNums (getAuxRoundStruct ms round) (even round) < nmt"
  shows "is_ok (CheckRound cfg nmt t round (sc, ms))"
proof -
  define sc1 where "sc1 = (if TotalBinMsgCount (getAuxRoundStruct ms round) > t then sc\<lparr>SkipTimeoutRound := int round\<rparr> else sc)"
  have sc1: "Decided sc1 = Decided sc" "decidedRound sc1 = decidedRound sc" by (simp_all add: sc1_def)
  then have dec1: "decidedOk nmt t sc1 ms" using dec by (simp add: decidedOk_def)
  show ?thesis
  proof (cases "decidable nmt t round ms")
    case True
    define md where "md = roundVal round"
    have d: "0 < round" "getValids nmt t round ms md" "nmt \<le> BinNums (getAuxRoundStruct ms round) md"
      "odd round = md" "\<not> nmt \<le> BinNums (getAuxRoundStruct ms round) (\<not> md)"
      "\<not> (-1 < Decided sc1 \<and> Decided sc1 \<noteq> of_bool md)"
      using True one [OF True] same [OF _ True] sc1 by (auto simp: decidable_def roundVal_def md_def)
    have ok2: "decidedOk nmt t (decideItem round sc1) ms"
      using dec1 True same sc1 by (auto simp: decidedOk_def decideItem_def stopTimers_def)
    note adv = CheckRoundAdvance_ok [OF wf par mv ok2, of round, folded md_def]
    show ?thesis
      using adv
      unfolding CheckRound_def Let_def prod.case sc1_def [symmetric] roundVal_def [symmetric]
      unfolding md_def [symmetric] decideItem_def d(4)
      by (simp only: d simp_thms if_True if_False is_ok_simps split: if_split)
  next
    case False
    then have d: "\<not> (0 < round \<and> getValids nmt t round ms (roundVal round) \<and>
        nmt \<le> BinNums (getAuxRoundStruct ms round) (roundVal round))"
      by (auto simp: decidable_def roundVal_def)
    show ?thesis
      using CheckRoundAdvance_ok [OF wf par mv dec1, of round]
      unfolding CheckRound_def Let_def prod.case sc1_def [symmetric] roundVal_def [symmetric]
      by (simp only: d simp_thms if_False is_ok_simps split: if_split)
  qed
qed

section \<open>The loop over rounds\<close>

text \<open>The effect of any number of iterations.\<close>

definition loopEffect :: "int \<Rightarrow> int \<Rightarrow> 'p MessageState \<Rightarrow> 'p MessageState \<Rightarrow> 'p out list \<Rightarrow> bool" where
  "loopEffect nmt t ms ms' outs \<longleftrightarrow>
     sameCounts ms ms' \<and> sameStore ms ms' \<and> (finite (dom (auxValues ms)) \<longrightarrow> finite (dom (auxValues ms'))) \<and>
     (\<forall>r. sentProposal (getAuxRoundStruct ms r) \<longrightarrow> sentProposal (getAuxRoundStruct ms' r)) \<and>
     (\<forall>r v p. BcastAux r v p \<in> set outs \<longrightarrow>
        (\<exists>k. r = Suc k \<and> \<not> sentProposal (getAuxRoundStruct ms k) \<and> sentProposal (getAuxRoundStruct ms' k) \<and>
             getValids nmt t (Suc k) ms v)) \<and>
     (\<forall>r v p v' p'. BcastAux r v p \<in> set outs \<longrightarrow> BcastAux r v' p' \<in> set outs \<longrightarrow> v = v')"

definition itemEffect :: "int \<Rightarrow> int \<Rightarrow> 'p bc_state \<Rightarrow> 'p bc_state \<Rightarrow> bool" where
  "itemEffect nmt t st st' \<longleftrightarrow>
     GotProposal (fst st') = GotProposal (fst st) \<and>
     (Decided (fst st) \<noteq> -1 \<longrightarrow> Decided (fst st') = Decided (fst st) \<and> decidedRound (fst st') = decidedRound (fst st)) \<and>
     (decidedOk nmt t (fst st) (snd st) \<longrightarrow> decidedOk nmt t (fst st') (snd st'))"

lemma stepEffect_loopEffect: "stepEffect nmt t round ms ms' outs \<Longrightarrow> loopEffect nmt t ms ms' outs"
  unfolding stepEffect_def loopEffect_def by blast

lemma loopEffect_refl [simp]: "loopEffect nmt t ms ms []"
  by (simp add: loopEffect_def)

lemma loopEffect_trans:
  assumes a: "loopEffect nmt t ms ms1 outs1" and b: "loopEffect nmt t ms1 ms' outs2"
  shows "loopEffect nmt t ms ms' (outs1 @ outs2)"
proof -
  have valids: "getValids nmt t r ms1 = getValids nmt t r ms" for r
    using a by (simp add: loopEffect_def getValids_sameCounts)
  have sent: "sentProposal (getAuxRoundStruct ms k) \<Longrightarrow> sentProposal (getAuxRoundStruct ms1 k)"
    "sentProposal (getAuxRoundStruct ms1 k) \<Longrightarrow> sentProposal (getAuxRoundStruct ms' k)" for k
    using a b by (auto simp: loopEffect_def)
  have bc1: "\<exists>k. r = Suc k \<and> \<not> sentProposal (getAuxRoundStruct ms k) \<and> sentProposal (getAuxRoundStruct ms1 k) \<and>
      getValids nmt t (Suc k) ms v" if "BcastAux r v p \<in> set outs1" for r v p
    using a that unfolding loopEffect_def by blast
  have bc2: "\<exists>k. r = Suc k \<and> \<not> sentProposal (getAuxRoundStruct ms1 k) \<and> sentProposal (getAuxRoundStruct ms' k) \<and>
      getValids nmt t (Suc k) ms v" if "BcastAux r v p \<in> set outs2" for r v p
    using b that unfolding loopEffect_def valids by blast
  have uniq: "v = v'" if "BcastAux r v p \<in> set (outs1 @ outs2)" "BcastAux r v' p' \<in> set (outs1 @ outs2)" for r v p v' p'
    using that a b bc1 bc2 unfolding loopEffect_def set_append Un_iff by blast
  have "sameCounts ms ms'" "sameStore ms ms'"
    using a b sameCounts_trans sameStore_trans by (auto simp: loopEffect_def)
  moreover have "\<exists>k. r = Suc k \<and> \<not> sentProposal (getAuxRoundStruct ms k) \<and> sentProposal (getAuxRoundStruct ms' k) \<and>
      getValids nmt t (Suc k) ms v" if "BcastAux r v p \<in> set (outs1 @ outs2)" for r v p
    using that bc1 bc2 sent unfolding set_append Un_iff by meson
  moreover have "finite (dom (auxValues ms)) \<longrightarrow> finite (dom (auxValues ms'))"
    using a b by (simp add: loopEffect_def)
  ultimately show ?thesis
    using uniq sent unfolding loopEffect_def by meson
qed

lemma itemEffect_refl [simp]: "itemEffect nmt t st st"
  by (simp add: itemEffect_def)

lemma itemEffect_trans: "itemEffect nmt t a b \<Longrightarrow> itemEffect nmt t b c \<Longrightarrow> itemEffect nmt t a c"
  by (auto simp: itemEffect_def)

lemma CheckRound_loopEffect:
  assumes "CheckRound cfg nmt t round (sc, ms) = Inr ((sc', ms'), outs, b)" "-1 \<le> Decided sc"
  shows "loopEffect nmt t ms ms' outs" "itemEffect nmt t (sc, ms) (sc', ms')" "-1 \<le> Decided sc'"
    "b \<longleftrightarrow> nmt \<le> TotalBinMsgCount (getAuxRoundStruct ms round)"
proof -
  note e = CheckRound_effect [OF assms]
  show "loopEffect nmt t ms ms' outs" using stepEffect_loopEffect [OF e(1)] .
  have "sameCounts ms ms'" using e(1) by (simp add: stepEffect_def)
  then show "itemEffect nmt t (sc, ms) (sc', ms')" "-1 \<le> Decided sc'"
    using e(2) assms(2) decidedOk_decidedBy [OF e(2)] by (auto simp: itemEffect_def decidedBy_def)
  show "b \<longleftrightarrow> nmt \<le> TotalBinMsgCount (getAuxRoundStruct ms round)" using e(3) .
qed

lemma rounds_bounded:
  assumes "wf_ms ms"
  obtains R where "\<And>r. R \<le> r \<Longrightarrow> TotalBinMsgCount (getAuxRoundStruct ms r) = 0"
proof -
  have "finite (dom (auxValues ms))" using assms by (simp add: wf_ms_def)
  then obtain R where R: "\<forall>r \<in> dom (auxValues ms). r < R"
    unfolding finite_nat_set_iff_bounded by auto
  then have "R \<le> r \<Longrightarrow> auxValues ms r = None" for r by (metis domIff leD)
  then have "R \<le> r \<Longrightarrow> TotalBinMsgCount (getAuxRoundStruct ms r) = 0" for r
    by (simp add: getAuxRoundStruct_def emptyAux_def)
  with that show thesis by blast
qed

lemma checkRounds_Inl [simp]:
  "CheckRound cfg nmt t round st = Inl e \<Longrightarrow> checkRounds cfg nmt t round st outs = Some (Inl e)"
  by (subst checkRounds.simps) simp

lemma checkRounds_Inr [simp]:
  "CheckRound cfg nmt t round st = Inr (st', o', b) \<Longrightarrow> checkRounds cfg nmt t round st outs =
     (if b then checkRounds cfg nmt t (Suc round) st' (outs @ o') else Some (Inr (st', outs @ o')))"
  by (subst checkRounds.simps) simp

text \<open>
  Decisions in one message state agree, and no round has a quorum for both values: the two
  conditions under which \<open>CheckRound\<close> does not panic.
\<close>

definition safeMs :: "int \<Rightarrow> int \<Rightarrow> 'p MessageState \<Rightarrow> bool" where
  "safeMs nmt t ms \<longleftrightarrow> (\<forall>r r'. decidable nmt t r ms \<longrightarrow> decidable nmt t r' ms \<longrightarrow> odd r = odd r') \<and>
     (\<forall>r. decidable nmt t r ms \<longrightarrow> BinNums (getAuxRoundStruct ms r) (even r) < nmt)"

lemma safeMs_parity: "safeMs nmt t ms \<Longrightarrow> decidable nmt t r ms \<Longrightarrow> decidable nmt t r' ms \<Longrightarrow> odd r = odd r'"
  unfolding safeMs_def by (drule conjunct1) (drule spec, drule spec, drule mp, assumption, drule mp)

lemma safeMs_one: "safeMs nmt t ms \<Longrightarrow> decidable nmt t r ms \<Longrightarrow> BinNums (getAuxRoundStruct ms r) (even r) < nmt"
  unfolding safeMs_def by (drule conjunct2) (drule spec, drule mp)

lemma safeMs_sameCounts: "sameCounts ms ms' \<Longrightarrow> safeMs nmt t ms' = safeMs nmt t ms"
  by (simp add: safeMs_def decidable_sameCounts) (simp add: sameCounts_def)

text \<open>What the loop needs of a state to run without panic; every iteration keeps it.\<close>

definition readyState :: "'p bc_config \<Rightarrow> int \<Rightarrow> int \<Rightarrow> 'p bc_state \<Rightarrow> bool" where
  "readyState cfg nmt t st \<longleftrightarrow> wf_ms (snd st) \<and> goodParams cfg nmt t \<and> mvOk t (snd st) \<and>
     decidedOk nmt t (fst st) (snd st) \<and> safeMs nmt t (snd st)"

lemma readyState_effect:
  assumes "readyState cfg nmt t st" "loopEffect nmt t (snd st) (snd st') outs" "itemEffect nmt t st st'"
  shows "readyState cfg nmt t st'"
proof -
  have l: "sameCounts (snd st) (snd st')" "sameStore (snd st) (snd st')"
    "finite (dom (auxValues (snd st))) \<longrightarrow> finite (dom (auxValues (snd st')))"
    using assms(2) by (simp_all add: loopEffect_def)
  have "wf_ms (snd st')"
    using wf_ms_frame [OF _ l(1,2)] l(3) assms(1) by (simp add: readyState_def) (simp add: wf_ms_def)
  moreover have "mvOk t (snd st')" using mvOk_sameCounts [OF l(1)] assms(1) by (simp add: readyState_def)
  ultimately show ?thesis
    using assms(1,3) safeMs_sameCounts [OF l(1)] by (simp add: readyState_def itemEffect_def)
qed

lemma CheckRound_ready:
  assumes "readyState cfg nmt t (sc, ms)"
  shows "is_ok (CheckRound cfg nmt t round (sc, ms))"
proof -
  have a: "wf_ms ms" "goodParams cfg nmt t" "mvOk t ms" "decidedOk nmt t sc ms" "safeMs nmt t ms"
    using assms by (simp_all add: readyState_def)
  show ?thesis
  proof (rule CheckRound_ok [OF a(1-4)])
    assume "Decided sc \<noteq> -1" "decidable nmt t round ms"
    moreover from this have d: "Decided sc = of_bool (odd (decidedRound sc))" "decidable nmt t (decidedRound sc) ms"
      using a(4) by (simp_all add: decidedOk_def)
    ultimately have "odd (decidedRound sc) = odd round" using safeMs_parity [OF a(5)] by blast
    then show "Decided sc = of_bool (odd round)" using d(1) by simp
  next
    assume "decidable nmt t round ms"
    then show "BinNums (getAuxRoundStruct ms round) (even round) < nmt"
      using safeMs_one [OF a(5)] by blast
  qed
qed

text \<open>
  The loop ends at the latest after the last round with messages, with the effect of its iterations,
  and without panic from a ready state.
\<close>

definition loopResult ::
    "'p bc_config \<Rightarrow> int \<Rightarrow> int \<Rightarrow> 'p bc_state \<Rightarrow> 'p out list \<Rightarrow> ('p bc_state \<times> 'p out list) res \<Rightarrow> bool" where
  "loopResult cfg nmt t st outs res \<longleftrightarrow> (readyState cfg nmt t st \<longrightarrow> is_ok res) \<and>
     (\<forall>st' outs'. res = Inr (st', outs') \<longrightarrow>
        (\<exists>o'. outs' = outs @ o' \<and> loopEffect nmt t (snd st) (snd st') o' \<and> itemEffect nmt t st st'))"

lemma loopResult_step:
  assumes "loopEffect nmt t (snd st) (snd st1) o1" "itemEffect nmt t st st1" "loopResult cfg nmt t st1 (outs @ o1) res"
  shows "loopResult cfg nmt t st outs res"
  unfolding loopResult_def
proof (intro conjI allI impI)
  assume "readyState cfg nmt t st"
  from readyState_effect [OF this assms(1,2)] show "is_ok res" using assms(3) by (simp add: loopResult_def)
next
  fix st' outs'
  assume "res = Inr (st', outs')"
  then obtain o' where o: "outs' = outs @ o1 @ o'" "loopEffect nmt t (snd st1) (snd st') o'" "itemEffect nmt t st1 st'"
    using assms(3) by (auto simp: loopResult_def)
  show "\<exists>o'. outs' = outs @ o' \<and> loopEffect nmt t (snd st) (snd st') o' \<and> itemEffect nmt t st st'"
    using o(1) loopEffect_trans [OF assms(1) o(2)] itemEffect_trans [OF assms(2) o(3)] by blast
qed

lemma checkRounds_bound:
  assumes "\<And>r. R \<le> r \<Longrightarrow> TotalBinMsgCount (getAuxRoundStruct (snd st) r) < nmt" "-1 \<le> Decided (fst st)"
  shows "\<exists>res. checkRounds cfg nmt t round st outs = Some res \<and> loopResult cfg nmt t st outs res"
  using assms
proof (induction "R - round" arbitrary: round st outs rule: less_induct)
  case less
  obtain sc ms where st: "st = (sc, ms)" by (cases st)
  show ?case
  proof (cases "CheckRound cfg nmt t round st")
    case (Inl e)
    then have "\<not> readyState cfg nmt t st" using CheckRound_ready [of cfg nmt t sc ms round] st by auto
    with Inl show ?thesis by (simp add: loopResult_def)
  next
    case (Inr x)
    then obtain sc1 ms1 o1 b where x: "CheckRound cfg nmt t round st = Inr ((sc1, ms1), o1, b)"
      by (cases x) auto
    note e = CheckRound_loopEffect [OF x [unfolded st]]
    have l: "loopEffect nmt t (snd st) (snd (sc1, ms1)) o1" "itemEffect nmt t st (sc1, ms1)" "-1 \<le> Decided sc1"
      "b \<longleftrightarrow> nmt \<le> TotalBinMsgCount (getAuxRoundStruct (snd st) round)"
      using e less.prems(2) by (simp_all add: st)
    show ?thesis
    proof (cases b)
      case False
      have "loopResult cfg nmt t st outs (Inr ((sc1, ms1), outs @ o1))"
        using l(1,2) by (simp add: loopResult_def)
      with x False show ?thesis by simp
    next
      case True
      then have "R - Suc round < R - round" using l(4) less.prems(1) [of round] by (cases "R \<le> round") auto
      moreover have "TotalBinMsgCount (getAuxRoundStruct ms1 r) = TotalBinMsgCount (getAuxRoundStruct (snd st) r)" for r
        using l(1) by (simp add: loopEffect_def sameCounts_def)
      ultimately obtain res where "checkRounds cfg nmt t (Suc round) (sc1, ms1) (outs @ o1) = Some res"
        "loopResult cfg nmt t (sc1, ms1) (outs @ o1) res"
        using less.hyps [of "Suc round" "(sc1, ms1)" "outs @ o1"] less.prems(1) l(3) by auto
      with x True loopResult_step [OF l(1,2)] show ?thesis by simp
    qed
  qed
qed

lemma checkRounds_total:
  assumes "wf_ms (snd st)" "0 < nmt" "-1 \<le> Decided (fst st)"
  shows "\<exists>res. checkRounds cfg nmt t round st outs = Some res \<and> loopResult cfg nmt t st outs res"
proof -
  obtain R where "\<And>r. R \<le> r \<Longrightarrow> TotalBinMsgCount (getAuxRoundStruct (snd st) r) = 0"
    using rounds_bounded [OF assms(1)] by blast
  then show ?thesis using assms(2,3) by (intro checkRounds_bound [of R]) simp_all
qed

section \<open>Message processing\<close>

lemma loopEffect_timeout:
  "loopEffect nmt t ms (setAux ms r ((getAuxRoundStruct ms r)\<lparr>timeoutState := ts\<rparr>)) []"
  by (simp add: loopEffect_def)

text \<open>\<open>ProcessAux\<close> and \<open>ProcessTimeout\<close> return, with the effect of the loop; from a ready state they return no error.\<close>

definition processed ::
    "'p bc_config \<Rightarrow> 'p bc_state \<Rightarrow> ('p bc_state \<times> 'p out list \<times> bool \<times> bool) res option \<Rightarrow> bool" where
  "processed cfg st r \<longleftrightarrow>
     (let t = faultCount cfg; nmt = memberCount cfg - t
      in \<exists>res. r = Some res \<and> (readyState cfg nmt t st \<longrightarrow> is_ok res) \<and>
           (\<forall>st' outs pr fw. res = Inr (st', outs, pr, fw) \<longrightarrow>
              loopEffect nmt t (snd st) (snd st') outs \<and> itemEffect nmt t st st'))"

lemma processed_loop:
  assumes "loopResult cfg (memberCount cfg - faultCount cfg) (faultCount cfg) st [] res"
  shows "processed cfg st (map_option (\<lambda>r. bind_res r (\<lambda>(st', outs). Inr (st', outs, pr, fw))) (Some res))"
  using assms unfolding processed_def loopResult_def Let_def by (cases res) auto

lemma ProcessAux_processed:
  assumes "wf_ms (snd st)" "faultCount cfg < memberCount cfg" "-1 \<le> Decided (fst st)"
  shows "processed cfg st (ProcessAux cfg round st)"
proof (cases "terminated (fst st)")
  case True
  then show ?thesis by (cases st) (simp add: ProcessAux_def processed_def Let_def)
next
  case False
  obtain res where "checkRounds cfg (memberCount cfg - faultCount cfg) (faultCount cfg) round st [] = Some res"
    "loopResult cfg (memberCount cfg - faultCount cfg) (faultCount cfg) st [] res"
    using checkRounds_total [OF assms(1) _ assms(3)] assms(2) by (metis diff_gt_0_iff_gt)
  with processed_loop False show ?thesis by (cases st) (simp add: ProcessAux_def Let_def)
qed

lemma ProcessTimeout_processed:
  assumes "wf_ms (snd st)" "faultCount cfg < memberCount cfg" "-1 \<le> Decided (fst st)"
  shows "processed cfg st (ProcessTimeout cfg round st)"
proof (cases "Decided (fst st) > -1")
  case True
  then show ?thesis by (cases st) (simp add: ProcessTimeout_def processed_def Let_def)
next
  case False
  obtain sc ms where st: "st = (sc, ms)" by (cases st)
  let ?t = "faultCount cfg" and ?nmt = "memberCount cfg - faultCount cfg"
  let ?st1 = "(sc, setAux ms round ((getAuxRoundStruct ms round)\<lparr>timeoutState := TimeoutPassed\<rparr>))"
  have l: "loopEffect ?nmt ?t (snd st) (snd ?st1) []" using loopEffect_timeout st by simp
  have "sameCounts (snd st) (snd ?st1)" using l by (simp add: loopEffect_def)
  then have i: "itemEffect ?nmt ?t st ?st1"
    using decidable_sameCounts [of "snd st" "snd ?st1"] by (simp add: itemEffect_def decidedOk_def st)
  have "wf_ms (snd ?st1)" using assms(1) st by simp
  then obtain res where "checkRounds cfg ?nmt ?t round ?st1 [] = Some res" "loopResult cfg ?nmt ?t ?st1 [] res"
    using checkRounds_total [of ?st1 ?nmt cfg ?t round "[]"] assms(2,3) st by auto
  moreover from this(2) have "loopResult cfg ?nmt ?t st [] res"
    using loopResult_step [OF l i] by simp
  ultimately show ?thesis using processed_loop False st by (simp add: ProcessTimeout_def Let_def)
qed

end
