(* ===== verification/BinCons1_System.thy ===== *)
theory BinCons1_System
  imports BinCons1_Node
begin

text \<open>
  A run of \<^verbatim>\<open>BinCons1\<close> by many processes, fewer than a third of the members faulty. Correct
  processes run the operations of \<^verbatim>\<open>bin_cons1.go\<close> in any order, messages may be lost, duplicated,
  delayed and reordered, and faulty members may sign anything. The one thing they
  cannot do is sign for others: a signature \<^verbatim>\<open>CheckMember\<close> accepts was made by its member.

  The theory shows that correct processes never decide different values, decide only proposed
  values, and never reach a call to \<^verbatim>\<open>panic\<close>.
\<close>

section \<open>The system\<close>

record 'p bc_system =
  members :: "'p set"
  faulty :: "'p set"
  configs :: "'p \<Rightarrow> 'p bc_config"
  mvAllowed :: "bool set option"

text \<open>
  \<open>mvAllowed\<close> is \<open>None\<close> for a consensus of its own. Under a multi-value reduction it is the set of values
  that the reduction may declare valid for round 1.
\<close>

text \<open>\<open>signed\<close> and \<open>proposals\<close> are history: every signature made and every proposal handed to a correct process.\<close>

record 'p bc_global =
  nodes :: "'p \<Rightarrow> 'p bc_state"
  signed :: "('p \<times> nat \<times> bool) set"
  proposals :: "('p \<times> bool) set"

definition wf_system :: "'p bc_system \<Rightarrow> bool" where
  "wf_system sys \<longleftrightarrow> finite (members sys) \<and> members sys \<noteq> {} \<and> finite (faulty sys) \<and>
     int (card (faulty sys)) \<le> GetOneThirdBottom (int (card (members sys))) \<and>
     (\<forall>p. memberCount (configs sys p) = int (card (members sys)) \<and>
          faultCount (configs sys p) = GetOneThirdBottom (int (card (members sys))))"

definition initGlobal :: "'p bc_system \<Rightarrow> 'p bc_global" where
  "initGlobal sys = \<lparr>nodes = \<lambda>_. (GenerateNewItem, NewMessageState (mvAllowed sys \<noteq> None)), signed = {}, proposals = {}\<rparr>"

text \<open>The signatures a process makes when its messages are sent.\<close>

definition signedBy :: "'p \<Rightarrow> 'p out list \<Rightarrow> ('p \<times> nat \<times> bool) set" where
  "signedBy p outs = {(p, r, v) | r v. \<exists>pf. BcastAux r v pf \<in> set outs}"

inductive bc_step :: "'p bc_system \<Rightarrow> 'p bc_global \<Rightarrow> 'p bc_global \<Rightarrow> bool" for sys where
  start: "p \<notin> faulty sys \<Longrightarrow> nodes g p = (sc, ms) \<Longrightarrow>
     bc_step sys g (g\<lparr>nodes := (nodes g)(p := (Start (configs sys p) sc, ms))\<rparr>)"
| propose: "p \<notin> faulty sys \<Longrightarrow> mvAllowed sys = None \<Longrightarrow> ItemGotProposal (configs sys p) v (nodes g p) = Inr (st', outs) \<Longrightarrow>
     bc_step sys g (g\<lparr>nodes := (nodes g)(p := st'), signed := signed g \<union> signedBy p outs,
                      proposals := insert (p, v) (proposals g)\<rparr>)"
| receive: "p \<notin> faulty sys \<Longrightarrow> nodes g p = (sc, ms) \<Longrightarrow> plain_sigs sigs \<Longrightarrow>
     (\<And>si. si \<in> set sigs \<Longrightarrow> chk si \<Longrightarrow> si_pub si \<in> members sys \<and> (si_pub si, r, v) \<in> signed g) \<Longrightarrow>
     GotMsg chk r v sigs ms = (ms', res) \<Longrightarrow>
     bc_step sys g (g\<lparr>nodes := (nodes g)(p := (sc, ms'))\<rparr>)"
| aux: "p \<notin> faulty sys \<Longrightarrow> ProcessAux (configs sys p) r (nodes g p) = Some (Inr (st', outs, pr, fw)) \<Longrightarrow>
     bc_step sys g (g\<lparr>nodes := (nodes g)(p := st'), signed := signed g \<union> signedBy p outs\<rparr>)"
| timeout: "p \<notin> faulty sys \<Longrightarrow> ProcessTimeout (configs sys p) r (nodes g p) = Some (Inr (st', outs, pr, fw)) \<Longrightarrow>
     bc_step sys g (g\<lparr>nodes := (nodes g)(p := st'), signed := signed g \<union> signedBy p outs\<rparr>)"
| set_valid: "p \<notin> faulty sys \<Longrightarrow> mvAllowed sys = Some B \<Longrightarrow> v \<in> B \<Longrightarrow> nodes g p = (sc, ms) \<Longrightarrow>
     bc_step sys g (g\<lparr>nodes := (nodes g)(p := (sc, if v then SetMv1Valid ms else SetMv0Valid ms))\<rparr>)"
| mv_send: "p \<notin> faulty sys \<Longrightarrow> mvAllowed sys = Some B \<Longrightarrow> v \<in> B \<Longrightarrow> nodes g p = (sc, ms) \<Longrightarrow>
     SentProposal 0 True ms = (ms', False) \<Longrightarrow> GetMVInitialRoundBroadcast v = (r, w) \<Longrightarrow> outs = [] \<or> outs = [BcastAux r w []] \<Longrightarrow>
     bc_step sys g (g\<lparr>nodes := (nodes g)(p := (sc, ms')), signed := signed g \<union> signedBy p outs\<rparr>)"
| rounds: "p \<notin> faulty sys \<Longrightarrow> mvAllowed sys = Some B \<Longrightarrow>
     checkRounds (configs sys p) (memberCount (configs sys p) - faultCount (configs sys p)) (faultCount (configs sys p)) r (nodes g p) []
       = Some (Inr (st', outs)) \<Longrightarrow>
     bc_step sys g (g\<lparr>nodes := (nodes g)(p := st'), signed := signed g \<union> signedBy p outs\<rparr>)"
| byzantine: "p \<in> faulty sys \<Longrightarrow> bc_step sys g (g\<lparr>signed := insert (p, r, v) (signed g)\<rparr>)"

inductive reachable :: "'p bc_system \<Rightarrow> 'p bc_global \<Rightarrow> bool" for sys where
  init: "reachable sys (initGlobal sys)"
| step: "reachable sys g \<Longrightarrow> bc_step sys g g' \<Longrightarrow> reachable sys g'"

section \<open>What has been signed\<close>

definition support :: "'p bc_system \<Rightarrow> ('p \<times> nat \<times> bool) set \<Rightarrow> nat \<Rightarrow> bool \<Rightarrow> 'p set" where
  "support sys S r v = {q \<in> members sys. (q, r, v) \<in> S}"

definition sysT :: "'p bc_system \<Rightarrow> int" where
  "sysT sys = GetOneThirdBottom (int (card (members sys)))"

definition sysNmt :: "'p bc_system \<Rightarrow> int" where
  "sysNmt sys = int (card (members sys)) - sysT sys"

text \<open>A quorum of signatures for a value in a round.\<close>

definition quorum :: "'p bc_system \<Rightarrow> ('p \<times> nat \<times> bool) set \<Rightarrow> nat \<Rightarrow> bool \<Rightarrow> bool" where
  "quorum sys S r v \<longleftrightarrow> sysNmt sys \<le> int (card (support sys S r v))"

text \<open>The validity rule of \<open>getValids\<close>, over all signatures made instead of those received.\<close>

definition baseValid :: "'p bc_system \<Rightarrow> ('p \<times> nat \<times> bool) set \<Rightarrow> bool \<Rightarrow> bool" where
  "baseValid sys S v \<longleftrightarrow> (case mvAllowed sys of None \<Rightarrow> sysT sys < int (card (support sys S 0 v)) | Some B \<Rightarrow> v \<in> B)"

definition gvalid :: "'p bc_system \<Rightarrow> ('p \<times> nat \<times> bool) set \<Rightarrow> nat \<Rightarrow> bool \<Rightarrow> bool" where
  "gvalid sys S r v \<longleftrightarrow>
     (if r = 0 then True
      else if r = 1 then baseValid sys S v
      else (r = 2 \<and> v \<and> baseValid sys S v) \<or>
           (if v = odd (r - 1) then quorum sys S (r - 2) v else quorum sys S (r - 1) v))"

lemma support_mono: "S \<subseteq> S' \<Longrightarrow> support sys S r v \<subseteq> support sys S' r v"
  by (auto simp: support_def)

lemma finite_support: "wf_system sys \<Longrightarrow> finite (support sys S r v)"
  by (simp add: support_def wf_system_def)

lemma card_support_mono:
  "wf_system sys \<Longrightarrow> S \<subseteq> S' \<Longrightarrow> card (support sys S r v) \<le> card (support sys S' r v)"
  by (intro card_mono finite_support support_mono)

lemma quorum_mono: "wf_system sys \<Longrightarrow> S \<subseteq> S' \<Longrightarrow> quorum sys S r v \<Longrightarrow> quorum sys S' r v"
  using card_support_mono [of sys S S' r v] by (simp add: quorum_def)

lemma baseValid_mono: "wf_system sys \<Longrightarrow> S \<subseteq> S' \<Longrightarrow> baseValid sys S v \<Longrightarrow> baseValid sys S' v"
  using card_support_mono [of sys S S' 0 v] by (auto simp: baseValid_def split: option.splits)

lemma gvalid_mono: "wf_system sys \<Longrightarrow> S \<subseteq> S' \<Longrightarrow> gvalid sys S r v \<Longrightarrow> gvalid sys S' r v"
  using baseValid_mono [of sys S S' v] quorum_mono [of sys S S' "r - 2" v] quorum_mono [of sys S S' "r - 1" v]
  by (auto simp: gvalid_def split: if_splits)

text \<open>A quorum contains a correct signer, and two quorums share one.\<close>

lemma sys_bounds:
  assumes "wf_system sys"
  shows "0 \<le> sysT sys" "2 * sysT sys < sysNmt sys" "sysT sys < sysNmt sys"
proof -
  have pos: "0 < int (card (members sys))" using assms by (auto simp: wf_system_def card_gt_0_iff)
  show "0 \<le> sysT sys" "2 * sysT sys < sysNmt sys" "sysT sys < sysNmt sys"
    using one_third.faults_nonneg [OF pos] one_third.quorum_minus_faults [OF pos] one_third.quorum_gt_faults [OF pos]
    by (simp_all add: sysT_def sysNmt_def)
qed

lemma correct_supporter:
  assumes "wf_system sys" "sysT sys < int (card (support sys S r v))"
  obtains p where "p \<in> members sys" "p \<notin> faulty sys" "(p, r, v) \<in> S"
  using one_third.quorum_has_correct [of "members sys" "faulty sys" "support sys S r v"] assms
  by (auto simp: wf_system_def sysT_def support_def)

lemma quorum_correct_supporter:
  assumes "wf_system sys" "quorum sys S r v"
  obtains p where "p \<in> members sys" "p \<notin> faulty sys" "(p, r, v) \<in> S"
proof -
  have "sysT sys < int (card (support sys S r v))"
    using assms sys_bounds(3) [OF assms(1)] by (simp add: quorum_def)
  from correct_supporter [OF assms(1) this] that show thesis by blast
qed

lemma quorums_intersect:
  assumes "wf_system sys" "quorum sys S r v" "quorum sys S r v'"
  obtains p where "p \<notin> faulty sys" "(p, r, v) \<in> S" "(p, r, v') \<in> S"
proof -
  have "support sys S r v \<subseteq> members sys" "support sys S r v' \<subseteq> members sys" by (auto simp: support_def)
  then obtain p where "p \<in> support sys S r v" "p \<in> support sys S r v'" "p \<notin> faulty sys"
    using one_third.quorum_intersect [of "members sys" "support sys S r v" "support sys S r v'" "faulty sys"] assms
    by (auto simp: wf_system_def quorum_def sysNmt_def sysT_def)
  with that show thesis by (auto simp: support_def)
qed

section \<open>Agreement of what can be decided\<close>

text \<open>
  The signing discipline of correct processes: one value per round, after round 0 only
  values that are valid in their round, and under a multi-value reduction none in round 0.
\<close>

definition disciplined :: "'p bc_system \<Rightarrow> ('p \<times> nat \<times> bool) set \<Rightarrow> bool" where
  "disciplined sys S \<longleftrightarrow> (\<forall>p. p \<notin> faulty sys \<longrightarrow>
     (\<forall>r v v'. (p, r, v) \<in> S \<longrightarrow> (p, r, v') \<in> S \<longrightarrow> v = v') \<and>
     (\<forall>r v. (p, Suc r, v) \<in> S \<longrightarrow> gvalid sys S (Suc r) v) \<and> (\<forall>v. mvAllowed sys \<noteq> None \<longrightarrow> (p, 0, v) \<notin> S))"

lemma disciplined_one: "disciplined sys S \<Longrightarrow> p \<notin> faulty sys \<Longrightarrow> (p, r, v) \<in> S \<Longrightarrow> (p, r, v') \<in> S \<Longrightarrow> v = v'"
  unfolding disciplined_def by blast

lemma disciplined_valid:
  "disciplined sys S \<Longrightarrow> p \<notin> faulty sys \<Longrightarrow> (p, r, v) \<in> S \<Longrightarrow> gvalid sys S r v"
  by (cases r) (simp add: gvalid_def, unfold disciplined_def, blast)

text \<open>The rule by which a round decides its value.\<close>

definition gdecidable :: "'p bc_system \<Rightarrow> ('p \<times> nat \<times> bool) set \<Rightarrow> nat \<Rightarrow> bool" where
  "gdecidable sys S r \<longleftrightarrow> 0 < r \<and> gvalid sys S r (odd r) \<and> quorum sys S r (odd r)"

text \<open>Once a round has a quorum for its value, the other value is never valid again.\<close>

lemma other_value_dead:
  assumes wf: "wf_system sys" and dis: "disciplined sys S" and r: "0 < r" and q: "quorum sys S r (odd r)"
  shows "r < r' \<Longrightarrow> \<not> gvalid sys S r' (even r)"
proof (induction r' rule: less_induct)
  case (less r')
  have noq: "\<not> quorum sys S k (even r)" if k: "r \<le> k" "k < r'" for k
  proof
    assume qk: "quorum sys S k (even r)"
    show False
    proof (cases "k = r")
      case True
      then obtain p where "p \<notin> faulty sys" "(p, r, odd r) \<in> S" "(p, r, even r) \<in> S"
        using quorums_intersect [OF wf q] qk by blast
      then show False using disciplined_one [OF dis] by blast
    next
      case False
      obtain p where "p \<notin> faulty sys" "(p, k, even r) \<in> S" using quorum_correct_supporter [OF wf qk] .
      from disciplined_valid [OF dis this] show False using less.IH [of k] k False by simp
    qed
  qed
  show ?case
  proof
    assume v: "gvalid sys S r' (even r)"
    consider "r' = Suc r" | "Suc r < r'" using less.prems by linarith
    then show False
    proof cases
      case 1
      then show False using v r noq [of r] by (auto simp: gvalid_def split: if_splits)
    next
      case 2
      then have "r \<le> r' - 2" "r' - 2 < r'" "r \<le> r' - 1" "r' - 1 < r'" "2 < r'" using r by auto
      then show False using v noq [of "r' - 2"] noq [of "r' - 1"] by (auto simp: gvalid_def split: if_splits)
    qed
  qed
qed

lemma gdecidable_agree:
  assumes wf: "wf_system sys" and dis: "disciplined sys S" and a: "gdecidable sys S r" and b: "gdecidable sys S r'"
  shows "odd r = odd r'"
proof -
  have *: "odd a = odd b" if "gdecidable sys S a" "gdecidable sys S b" "a < b" for a b
  proof (rule ccontr)
    assume "odd a \<noteq> odd b"
    then have "odd b = even a" by blast
    then have "gvalid sys S b (even a)" using that(2) unfolding gdecidable_def by simp
    then show False using other_value_dead [OF wf dis _ _ that(3)] that(1) unfolding gdecidable_def by blast
  qed
  consider "r < r'" | "r = r'" | "r' < r" by linarith
  then show ?thesis using *[OF a b] *[OF b a, symmetric] by cases simp_all
qed

lemma gvalid_source:
  assumes "0 < r" "gvalid sys S r v"
  shows "baseValid sys S v \<or> (\<exists>k < r. quorum sys S k v)"
proof -
  have "r - 2 < r" "r - 1 < r" using assms(1) by auto
  then have "quorum sys S (r - 2) v \<Longrightarrow> \<exists>k < r. quorum sys S k v" "quorum sys S (r - 1) v \<Longrightarrow> \<exists>k < r. quorum sys S k v"
    by blast+
  then show ?thesis using assms unfolding gvalid_def by (simp only: split: if_splits) blast+
qed

text \<open>A valid value was signed by a correct process in round 0, or declared valid by the reduction.\<close>

lemma gvalid_base:
  assumes wf: "wf_system sys" and dis: "disciplined sys S"
  shows "0 < r \<Longrightarrow> gvalid sys S r v \<Longrightarrow> baseValid sys S v \<or> (mvAllowed sys = None \<and> (\<exists>p. p \<in> members sys \<and> p \<notin> faulty sys \<and> (p, 0, v) \<in> S))"
proof (induction r rule: less_induct)
  case (less r)
  consider (base) "baseValid sys S v" | (quor) k where "k < r" "quorum sys S k v"
    using gvalid_source [OF less.prems] by blast
  then show ?case
  proof cases
    case (quor k)
    obtain p where p: "p \<in> members sys" "p \<notin> faulty sys" "(p, k, v) \<in> S"
      using quorum_correct_supporter [OF wf quor(2)] .
    show ?thesis
    proof (cases "k = 0")
      case True
      moreover from True have "mvAllowed sys = None" using dis p by (auto simp: disciplined_def)
      ultimately show ?thesis using p by blast
    next
      case False
      then show ?thesis using less.IH [OF quor(1)] disciplined_valid [OF dis p(2,3)] by simp
    qed
  qed simp
qed

lemma gvalid_origin:
  assumes wf: "wf_system sys" and dis: "disciplined sys S" and "mvAllowed sys = None" "0 < r" "gvalid sys S r v"
  shows "\<exists>p. p \<in> members sys \<and> p \<notin> faulty sys \<and> (p, 0, v) \<in> S"
proof -
  have "\<exists>p. p \<in> members sys \<and> p \<notin> faulty sys \<and> (p, 0, v) \<in> S" if "baseValid sys S v"
    using correct_supporter [OF wf, of S 0 v] that assms(3) by (metis baseValid_def option.simps(4))
  then show ?thesis using gvalid_base [OF wf dis assms(4,5)] by blast
qed

section \<open>The invariant\<close>

definition nodeInv ::
    "'p bc_system \<Rightarrow> ('p \<times> nat \<times> bool) set \<Rightarrow> ('p \<times> bool) set \<Rightarrow> 'p \<Rightarrow> 'p bc_state \<Rightarrow> bool" where
  "nodeInv sys S P p st \<longleftrightarrow>
     wf_ms (snd st) \<and> isMv (snd st) = (mvAllowed sys \<noteq> None) \<and>
     (\<forall>B. mvAllowed sys = Some B \<longrightarrow> (mv0Valid (snd st) \<longrightarrow> False \<in> B) \<and> (mv1Valid (snd st) \<longrightarrow> True \<in> B)) \<and> decidedOk (sysNmt sys) (sysT sys) (fst st) (snd st) \<and>
     (\<forall>r v. signers (Sms (snd st)) (r, v) \<subseteq> support sys S r v) \<and>
     (\<forall>v. (p, 0, v) \<in> S \<longrightarrow> GotProposal (fst st) \<and> (p, v) \<in> P) \<and>
     (\<forall>k v. (p, Suc k, v) \<in> S \<longrightarrow> sentProposal (getAuxRoundStruct (snd st) k))"

definition globalInv :: "'p bc_system \<Rightarrow> 'p bc_global \<Rightarrow> bool" where
  "globalInv sys g \<longleftrightarrow> disciplined sys (signed g) \<and>
     (\<forall>p. p \<notin> faulty sys \<longrightarrow> nodeInv sys (signed g) (proposals g) p (nodes g p))"

lemma sys_config:
  assumes "wf_system sys"
  shows "faultCount (configs sys p) = sysT sys" "memberCount (configs sys p) - sysT sys = sysNmt sys"
    "goodParams (configs sys p) (sysNmt sys) (sysT sys)" "faultCount (configs sys p) < memberCount (configs sys p)"
  using assms sys_bounds [OF assms] by (auto simp: wf_system_def sysT_def sysNmt_def goodParams_def)

lemma nodeInv_BinNums:
  assumes "wf_system sys" "nodeInv sys S P p (sc, ms)"
  shows "BinNums (getAuxRoundStruct ms r) v \<le> int (card (support sys S r v))"
proof -
  have "card (signers (Sms ms) (r, v)) \<le> card (support sys S r v)"
    using assms by (intro card_mono finite_support) (simp_all add: nodeInv_def)
  then show ?thesis using assms(2) wf_ms_BinNums [of ms r v] by (simp add: nodeInv_def)
qed

lemma getValids_gvalid:
  assumes wf: "wf_system sys" and inv: "nodeInv sys S P p (sc, ms)"
    and v: "getValids (sysNmt sys) (sysT sys) r ms v"
  shows "gvalid sys S r v"
proof -
  note le = nodeInv_BinNums [OF wf inv]
  have mv: "isMv ms = (mvAllowed sys \<noteq> None)" "\<And>B. mvAllowed sys = Some B \<Longrightarrow> (mv0Valid ms \<longrightarrow> False \<in> B) \<and> (mv1Valid ms \<longrightarrow> True \<in> B)"
    using inv by (simp_all add: nodeInv_def)
  have q: "sysNmt sys \<le> BinNums (getAuxRoundStruct ms k) v \<Longrightarrow> quorum sys S k v" for k
    using le [of k v] by (simp add: quorum_def)
  have h: "baseValid sys S v" if "if isMv ms then (if v then mv1Valid ms else mv0Valid ms) else sysT sys < BinNums (getAuxRoundStruct ms 0) v"
    using that le [of 0 v] mv by (auto simp: baseValid_def split: option.splits if_splits)
  show ?thesis
  proof (cases "r \<le> 1")
    case True
    then consider "r = 0" | "r = 1" by linarith
    then show ?thesis using v h by cases (simp_all add: getValids_def gvalid_def split: if_splits)
  next
    case False
    then have "(r = 2 \<and> v \<and> (if isMv ms then mv1Valid ms else sysT sys < BinNums (getAuxRoundStruct ms 0) v)) \<or>
        (if v = odd (r - 1) then sysNmt sys \<le> BinNums (getAuxRoundStruct ms (r - 2)) v
         else sysNmt sys \<le> BinNums (getAuxRoundStruct ms (r - 1)) v)"
      using v by (cases v; cases "odd (r - 1)") (auto simp: getValids_def Let_def)
    then show ?thesis using False q h by (auto simp: gvalid_def split: if_splits)
  qed
qed

lemma decidable_gdecidable:
  assumes wf: "wf_system sys" and inv: "nodeInv sys S P p (sc, ms)"
    and d: "decidable (sysNmt sys) (sysT sys) r ms"
  shows "gdecidable sys S r"
  using d getValids_gvalid [OF wf inv, of r "odd r"] nodeInv_BinNums [OF wf inv, of r "odd r"]
  unfolding decidable_def gdecidable_def quorum_def by (meson order_trans)

text \<open>A correct node whose process follows the invariant never has a reason to panic.\<close>

lemma nodeInv_ready:
  assumes wf: "wf_system sys" and dis: "disciplined sys S" and inv: "nodeInv sys S P p st"
  shows "readyState (configs sys p) (sysNmt sys) (sysT sys) st"
proof -
  obtain sc ms where st: "st = (sc, ms)" by (cases st)
  note inv' = inv [unfolded st]
  have "safeMs (sysNmt sys) (sysT sys) ms"
    unfolding safeMs_def
  proof (intro conjI allI impI)
    fix r r'
    assume "decidable (sysNmt sys) (sysT sys) r ms" "decidable (sysNmt sys) (sysT sys) r' ms"
    then show "odd r = odd r'" using gdecidable_agree [OF wf dis] decidable_gdecidable [OF wf inv'] by blast
  next
    fix r
    assume "decidable (sysNmt sys) (sysT sys) r ms"
    then have q: "quorum sys S r (odd r)" using decidable_gdecidable [OF wf inv'] by (simp add: gdecidable_def)
    show "BinNums (getAuxRoundStruct ms r) (even r) < sysNmt sys"
    proof (rule ccontr)
      assume "\<not> BinNums (getAuxRoundStruct ms r) (even r) < sysNmt sys"
      then have "quorum sys S r (even r)"
        using nodeInv_BinNums [OF wf inv', of r "even r"] by (simp add: quorum_def)
      then obtain q where "q \<notin> faulty sys" "(q, r, odd r) \<in> S" "(q, r, even r) \<in> S"
        using quorums_intersect [OF wf q] by blast
      then show False using disciplined_one [OF dis] by blast
    qed
  qed
  moreover have "mvOk (sysT sys) ms" unfolding mvOk_def
  proof (intro impI allI)
    fix v assume "isMv ms"
    then have "mvAllowed sys \<noteq> None" using inv' by (simp add: nodeInv_def)
    then have "support sys S 0 v \<subseteq> faulty sys" using dis by (auto simp: disciplined_def support_def)
    then have "card (support sys S 0 v) \<le> card (faulty sys)" using wf by (intro card_mono) (simp_all add: wf_system_def)
    then show "BinNums (getAuxRoundStruct ms 0) v \<le> sysT sys"
      using nodeInv_BinNums [OF wf inv', of 0 v] wf by (simp add: wf_system_def sysT_def)
  qed
  ultimately show ?thesis using inv' st sys_config(3) [OF wf] by (simp add: readyState_def nodeInv_def)
qed

section \<open>Preservation\<close>

lemma disciplined_extend:
  assumes wf: "wf_system sys" and dis: "disciplined sys S"
    and one: "\<And>r v v'. p \<notin> faulty sys \<Longrightarrow> (p, r, v) \<in> T \<Longrightarrow> (p, r, v') \<in> S \<union> T \<Longrightarrow> v = v'"
    and val: "\<And>r v. p \<notin> faulty sys \<Longrightarrow> (p, Suc r, v) \<in> T \<Longrightarrow> gvalid sys S (Suc r) v"
    and zero: "\<And>v. p \<notin> faulty sys \<Longrightarrow> (p, 0, v) \<in> T \<Longrightarrow> mvAllowed sys = None"
    and T: "\<And>q r v. (q, r, v) \<in> T \<Longrightarrow> q = p \<or> q \<in> faulty sys"
  shows "disciplined sys (S \<union> T)"
  unfolding disciplined_def
proof (intro allI impI conjI)
  fix q r v v'
  assume q: "q \<notin> faulty sys" "(q, r, v) \<in> S \<union> T" "(q, r, v') \<in> S \<union> T"
  then consider "(q, r, v) \<in> S" "(q, r, v') \<in> S" | "q = p" "(q, r, v) \<in> T" | "q = p" "(q, r, v') \<in> T"
    using T by blast
  then show "v = v'" using disciplined_one [OF dis q(1)] one q by cases blast+
next
  fix q r v
  assume "q \<notin> faulty sys" "(q, Suc r, v) \<in> S \<union> T"
  then have "gvalid sys S (Suc r) v" using disciplined_valid [OF dis] val T by blast
  then show "gvalid sys (S \<union> T) (Suc r) v" using gvalid_mono [OF wf] by blast
next
  fix q v
  assume q: "q \<notin> faulty sys" "mvAllowed sys \<noteq> None"
  then have "(q, 0, v) \<notin> S" using dis by (auto simp: disciplined_def)
  moreover have "(q, 0, v) \<notin> T"
  proof
    assume "(q, 0, v) \<in> T"
    then have "q = p" "(p, 0, v) \<in> T" using T [of q 0 v] q(1) by simp_all
    then show False using zero [of v] q by simp
  qed
  ultimately show "(q, 0, v) \<notin> S \<union> T" by simp
qed

lemma nodeInv_mono:
  assumes "nodeInv sys S P p st" "S \<subseteq> S'" "P \<subseteq> P'" "\<And>r v. (p, r, v) \<in> S' \<Longrightarrow> (p, r, v) \<in> S"
  shows "nodeInv sys S' P' p st"
proof -
  have "signers (Sms (snd st)) (r, v) \<subseteq> support sys S' r v" for r v
    using assms(1) support_mono [OF assms(2), of sys r v] unfolding nodeInv_def by blast
  then show ?thesis using assms unfolding nodeInv_def by blast
qed

text \<open>
  One correct process moves from \<open>nodes g p\<close> to \<open>st'\<close> and signs \<open>T\<close>: what is left to
  show for the invariant.
\<close>

lemma globalInv_update:
  assumes inv: "globalInv sys g" and wf: "wf_system sys"
    and dis: "disciplined sys (signed g \<union> T)" and T: "\<And>q r v. (q, r, v) \<in> T \<Longrightarrow> q = p"
    and node: "p \<notin> faulty sys \<Longrightarrow> nodeInv sys (signed g \<union> T) (proposals g \<union> P) p st'"
    and g': "nodes g' = (nodes g)(p := st')" "signed g' = signed g \<union> T" "proposals g' = proposals g \<union> P"
  shows "globalInv sys g'"
  unfolding globalInv_def
proof (intro conjI allI impI)
  show "disciplined sys (signed g')" using dis g' by simp
  fix q
  assume q: "q \<notin> faulty sys"
  show "nodeInv sys (signed g') (proposals g') q (nodes g' q)"
  proof (cases "q = p")
    case True
    then show ?thesis using node q g' by simp
  next
    case False
    have "nodeInv sys (signed g) (proposals g) q (nodes g q)" using inv q by (simp add: globalInv_def)
    moreover have "(q, r, v) \<in> signed g'" "(q, r, v) \<notin> signed g \<Longrightarrow> False" if "(q, r, v) \<in> signed g'" for r v
      using that T False g' by blast+
    ultimately show ?thesis
      using False g' by (auto intro: nodeInv_mono)
  qed
qed

lemma processed_preserves:
  assumes wf: "wf_system sys" and inv: "globalInv sys g" and p: "p \<notin> faulty sys"
    and pr: "processed (configs sys p) (nodes g p) (Some (Inr (st', outs, b, c)))"
    and g': "g' = g\<lparr>nodes := (nodes g)(p := st'), signed := signed g \<union> signedBy p outs\<rparr>"
  shows "globalInv sys g'"
proof -
  let ?S = "signed g" and ?st = "nodes g p" and ?T = "signedBy p outs"
  have ni: "nodeInv sys ?S (proposals g) p ?st" and dis: "disciplined sys ?S"
    using inv p by (simp_all add: globalInv_def)
  have le: "loopEffect (sysNmt sys) (sysT sys) (snd ?st) (snd st') outs" and ie: "itemEffect (sysNmt sys) (sysT sys) ?st st'"
    using pr sys_config [OF wf, of p] by (cases st'; simp add: processed_def Let_def)+
  have T: "\<exists>k. r = Suc k \<and> \<not> sentProposal (getAuxRoundStruct (snd ?st) k) \<and> sentProposal (getAuxRoundStruct (snd st') k) \<and>
      gvalid sys ?S (Suc k) v \<and> q = p" if "(q, r, v) \<in> ?T" for q r v
  proof -
    from that obtain pf where pf: "q = p" "BcastAux r v pf \<in> set outs" by (auto simp: signedBy_def)
    then obtain k where k: "r = Suc k" "\<not> sentProposal (getAuxRoundStruct (snd ?st) k)"
      "sentProposal (getAuxRoundStruct (snd st') k)" "getValids (sysNmt sys) (sysT sys) (Suc k) (snd ?st) v"
      using le unfolding loopEffect_def by blast
    have "gvalid sys ?S (Suc k) v"
      using getValids_gvalid [OF wf _ k(4), of ?S "proposals g" p "fst ?st"] ni by simp
    with pf(1) k show ?thesis by blast
  qed
  have uniq: "v = v'" if "(p, r, v) \<in> ?T" "(p, r, v') \<in> ?T" for r v v'
    using that le unfolding signedBy_def loopEffect_def by blast
  have fresh: "(p, r, v') \<notin> ?S" if "(p, r, v) \<in> ?T" for r v v'
    using T [OF that] ni unfolding nodeInv_def by blast
  have sc: "sameCounts (snd ?st) (snd st')" "sameStore (snd ?st) (snd st')"
    "finite (dom (auxValues (snd ?st))) \<longrightarrow> finite (dom (auxValues (snd st')))"
    "\<And>k. sentProposal (getAuxRoundStruct (snd ?st) k) \<Longrightarrow> sentProposal (getAuxRoundStruct (snd st') k)"
    using le by (simp_all add: loopEffect_def)
  have wfms: "wf_ms (snd ?st)" using ni by (simp add: nodeInv_def)
  have wf': "wf_ms (snd st')" using wf_ms_frame [OF wfms sc(1,2)] sc(3) wfms by (simp add: wf_ms_def)
  have sgn: "signers (Sms (snd st')) (r, v) \<subseteq> support sys (?S \<union> ?T) r v" for r v
    using ni sc(2) support_mono [of ?S "?S \<union> ?T" sys r v] unfolding nodeInv_def sameStore_def by fastforce
  have zero: "GotProposal (fst st') \<and> (p, v) \<in> proposals g" if "(p, 0, v) \<in> ?S \<union> ?T" for v
    using that T ni ie unfolding nodeInv_def itemEffect_def by blast
  have sent: "sentProposal (getAuxRoundStruct (snd st') k)" if "(p, Suc k, v) \<in> ?S \<union> ?T" for k v
    using that T ni sc(4) unfolding nodeInv_def by blast
  have "nodeInv sys (?S \<union> ?T) (proposals g \<union> {}) p st'"
    using wf' ni ie sc(1) sgn zero sent by (simp add: nodeInv_def itemEffect_def sameCounts_def)
  moreover have "disciplined sys (?S \<union> ?T)"
    by (rule disciplined_extend [OF wf dis]) (use uniq fresh T in blast)+
  ultimately show ?thesis
    by (intro globalInv_update [OF inv wf, where T = ?T and P = "{}" and p = p]) (use T g' in auto)
qed

lemma propose_preserves:
  assumes wf: "wf_system sys" and inv: "globalInv sys g" and p: "p \<notin> faulty sys"
    and mv: "mvAllowed sys = None" and pr: "ItemGotProposal (configs sys p) v (nodes g p) = Inr (st', outs)"
    and g': "g' = g\<lparr>nodes := (nodes g)(p := st'), signed := signed g \<union> signedBy p outs,
                    proposals := insert (p, v) (proposals g)\<rparr>"
  shows "globalInv sys g'"
proof -
  let ?S = "signed g" and ?T = "signedBy p outs"
  obtain sc ms where st: "nodes g p = (sc, ms)" by (cases "nodes g p")
  have ni: "nodeInv sys ?S (proposals g) p (sc, ms)" and dis: "disciplined sys ?S"
    using inv p st by (auto simp: globalInv_def)
  have st': "st' = (sc\<lparr>GotProposal := True\<rparr>, ms)" "\<not> GotProposal sc" "outs = [] \<or> outs = [BcastAux 0 v []]"
    using pr st by (auto simp: ItemGotProposal_def AbsGotProposal_def bind_res_Inr_iff split: if_splits)
  have T: "?T \<subseteq> {(p, 0, v)}" using st'(3) by (auto simp: signedBy_def)
  have fresh: "(p, 0, w) \<notin> ?S" for w using ni st'(2) unfolding nodeInv_def by auto
  have sgn: "signers (Sms ms) (r, w) \<subseteq> support sys (?S \<union> ?T) r w" for r w
    using ni support_mono [of ?S "?S \<union> ?T" sys r w] unfolding nodeInv_def by fastforce
  have "nodeInv sys (?S \<union> ?T) (proposals g \<union> {(p, v)}) p st'"
    using ni sgn fresh T st'(1) unfolding nodeInv_def by (auto simp: decidedOk_def)
  moreover have "disciplined sys (?S \<union> ?T)"
    by (rule disciplined_extend [OF wf dis]) (use T fresh mv in blast)+
  ultimately show ?thesis
    by (intro globalInv_update [OF inv wf, where T = ?T and P = "{(p, v)}" and p = p]) (use T g' in auto)
qed

lemma getValids_mono:
  assumes "\<And>r v. BinNums (getAuxRoundStruct ms r) v \<le> BinNums (getAuxRoundStruct ms' r) v"
    and "isMv ms' = isMv ms" "mv0Valid ms \<longrightarrow> mv0Valid ms'" "mv1Valid ms \<longrightarrow> mv1Valid ms'"
    and "getValids nmt t r ms v"
  shows "getValids nmt t r ms' v"
proof -
  have up: "k \<le> BinNums (getAuxRoundStruct ms r) v \<Longrightarrow> k \<le> BinNums (getAuxRoundStruct ms' r) v"
    "k < BinNums (getAuxRoundStruct ms r) v \<Longrightarrow> k < BinNums (getAuxRoundStruct ms' r) v" for k r v
    using assms(1) [of r v] by linarith+
  consider "r = 0" | "r = 1" | "1 < r" by linarith
  then show ?thesis
  proof cases
    case 3
    define md where "md = odd (r - 1)"
    show ?thesis
      using 3 assms(3-5) up unfolding getValids_def Let_def md_def [symmetric] assms(2)
      by (simp only: split: if_splits) blast+
  qed (use assms(2-5) up in \<open>simp_all add: getValids_def split: if_splits\<close>)
qed

lemma decidedOk_mono:
  assumes le: "\<And>r v. BinNums (getAuxRoundStruct ms r) v \<le> BinNums (getAuxRoundStruct ms' r) v"
    and eq: "isMv ms' = isMv ms" "mv0Valid ms \<longrightarrow> mv0Valid ms'" "mv1Valid ms \<longrightarrow> mv1Valid ms'"
    and d: "decidedOk nmt t sc ms"
  shows "decidedOk nmt t sc ms'"
  using d getValids_mono [OF le eq] le unfolding decidedOk_def decidable_def by (meson order_trans)

lemma receive_preserves:
  assumes wf: "wf_system sys" and inv: "globalInv sys g" and p: "p \<notin> faulty sys" and st: "nodes g p = (sc, ms)"
    and pl: "plain_sigs sigs"
    and chk: "\<And>si. si \<in> set sigs \<Longrightarrow> chk si \<Longrightarrow> si_pub si \<in> members sys \<and> (si_pub si, r, v) \<in> signed g"
    and got: "GotMsg chk r v sigs ms = (ms', res)"
    and g': "g' = g\<lparr>nodes := (nodes g)(p := (sc, ms'))\<rparr>"
  shows "globalInv sys g'"
proof -
  let ?S = "signed g"
  have ni: "nodeInv sys ?S (proposals g) p (sc, ms)" and dis: "disciplined sys ?S"
    using inv p st by (auto simp: globalInv_def)
  have wfms: "wf_ms ms" using ni by (simp add: nodeInv_def)
  note s = GotMsg_spec [OF got wfms pl]
  have new: "newSigners chk r v sigs ms \<subseteq> support sys ?S r v"
    using chk by (auto simp: newSigners_def support_def)
  have sgn: "signers (Sms ms') (r', v') \<subseteq> support sys ?S r' v'" for r' v'
    using s(1) ni new unfolding nodeInv_def by (auto split: if_splits)
  have le: "BinNums (getAuxRoundStruct ms r') v' \<le> BinNums (getAuxRoundStruct ms' r') v'" for r' v'
    using s(1) card_mono [OF finite_signers(1), of "signers (Sms ms) (r', v')" "Sms ms'" "(r', v')"]
    unfolding wf_ms_BinNums [OF wfms] wf_ms_BinNums [OF s(4)] by auto
  have "nodeInv sys (?S \<union> {}) (proposals g \<union> {}) p (sc, ms')"
    using s(4-8) ni sgn decidedOk_mono [OF le s(6)] by (auto simp: nodeInv_def)
  then show ?thesis
    using dis by (intro globalInv_update [OF inv wf, where T = "{}" and P = "{}" and p = p]) (use g' in auto)
qed

lemma globalInv_init: "globalInv sys (initGlobal sys)"
  by (simp add: globalInv_def initGlobal_def disciplined_def nodeInv_def NewMessageState_def GenerateNewItem_def
      decidedOk_def wf_ms_new [unfolded NewMessageState_def])

lemma start_preserves:
  assumes wf: "wf_system sys" and inv: "globalInv sys g" and p: "p \<notin> faulty sys" and st: "nodes g p = (sc, ms)"
    and g': "g' = g\<lparr>nodes := (nodes g)(p := (Start (configs sys p) sc, ms))\<rparr>"
  shows "globalInv sys g'"
proof -
  have ni: "nodeInv sys (signed g) (proposals g) p (sc, ms)" and dis: "disciplined sys (signed g)"
    using inv p st by (auto simp: globalInv_def)
  have "nodeInv sys (signed g \<union> {}) (proposals g \<union> {}) p (Start (configs sys p) sc, ms)"
    using ni by (auto simp: nodeInv_def Start_def Let_def decidedOk_def)
  then show ?thesis
    using dis by (intro globalInv_update [OF inv wf, where T = "{}" and P = "{}" and p = p]) (use g' in auto)
qed

lemma byzantine_preserves:
  assumes wf: "wf_system sys" and inv: "globalInv sys g" and p: "p \<in> faulty sys"
  shows "globalInv sys (g\<lparr>signed := insert (p, r, v) (signed g)\<rparr>)"
proof -
  have dis: "disciplined sys (signed g \<union> {(p, r, v)})"
  proof (rule disciplined_extend [OF wf, where p = p])
    show "disciplined sys (signed g)" using inv by (simp add: globalInv_def)
  qed (use p in auto)
  then show ?thesis
    using p by (intro globalInv_update [OF inv wf dis, where P = "{}" and p = p and st' = "nodes g p"]) auto
qed

lemma set_valid_preserves:
  assumes wf: "wf_system sys" and inv: "globalInv sys g" and p: "p \<notin> faulty sys" and st: "nodes g p = (sc, ms)"
    and mv: "mvAllowed sys = Some B" "v \<in> B"
    and g': "g' = g\<lparr>nodes := (nodes g)(p := (sc, if v then SetMv1Valid ms else SetMv0Valid ms))\<rparr>"
  shows "globalInv sys g'"
proof -
  let ?ms = "if v then SetMv1Valid ms else SetMv0Valid ms"
  have ni: "nodeInv sys (signed g) (proposals g) p (sc, ms)" and dis: "disciplined sys (signed g)"
    using inv p st by (auto simp: globalInv_def)
  have eq: "getAuxRoundStruct ?ms = getAuxRoundStruct ms" "Sms ?ms = Sms ms" "isMv ?ms = isMv ms" "auxValues ?ms = auxValues ms"
    "mv0Valid ms \<longrightarrow> mv0Valid ?ms" "mv1Valid ms \<longrightarrow> mv1Valid ?ms"
    "mv0Valid ?ms \<longrightarrow> mv0Valid ms \<or> \<not> v" "mv1Valid ?ms \<longrightarrow> mv1Valid ms \<or> v"
    by (auto simp: SetMv1Valid_def SetMv0Valid_def getAuxRoundStruct_def fun_eq_iff)
  have "decidedOk (sysNmt sys) (sysT sys) sc ?ms"
    using decidedOk_mono [of ms ?ms "sysNmt sys" "sysT sys" sc] ni eq by (simp add: nodeInv_def)
  moreover have "(mv0Valid ?ms \<longrightarrow> False \<in> B) \<and> (mv1Valid ?ms \<longrightarrow> True \<in> B)" using ni mv eq(7,8) by (auto simp: nodeInv_def)
  ultimately have "nodeInv sys (signed g \<union> {}) (proposals g \<union> {}) p (sc, ?ms)"
    using ni eq(1-4) mv(1) unfolding nodeInv_def wf_ms_def snd_conv fst_conv by simp
  then show ?thesis
    using dis by (intro globalInv_update [OF inv wf, where T = "{}" and P = "{}" and p = p]) (use g' in auto)
qed

lemma mv_send_preserves:
  assumes wf: "wf_system sys" and inv: "globalInv sys g" and p: "p \<notin> faulty sys" and st: "nodes g p = (sc, ms)"
    and mv: "mvAllowed sys = Some B" "v \<in> B" and s: "SentProposal 0 True ms = (ms', False)"
    and o: "outs = [] \<or> outs = [BcastAux 1 v []]"
    and g': "g' = g\<lparr>nodes := (nodes g)(p := (sc, ms')), signed := signed g \<union> signedBy p outs\<rparr>"
  shows "globalInv sys g'"
proof -
  let ?S = "signed g" and ?T = "signedBy p outs"
  have ni: "nodeInv sys ?S (proposals g) p (sc, ms)" and dis: "disciplined sys ?S"
    using inv p st by (auto simp: globalInv_def)
  have ms': "ms' = setAux ms 0 ((getAuxRoundStruct ms 0)\<lparr>sentProposal := True\<rparr>)" "\<not> sentProposal (getAuxRoundStruct ms 0)"
    using s by (auto simp: SentProposal_def Let_def)
  have sc: "sameCounts ms ms'" by (simp add: ms'(1))
  have T: "?T \<subseteq> {(p, 1, v)}" using o by (auto simp: signedBy_def)
  have fresh: "(p, 1, w) \<notin> ?S" for w using ni ms'(2) unfolding nodeInv_def by (metis One_nat_def snd_conv)
  have sgn: "signers (Sms ms') (r, w) \<subseteq> support sys (?S \<union> ?T) r w" for r w
    using ni support_mono [of ?S "?S \<union> ?T" sys r w] ms'(1) unfolding nodeInv_def by fastforce
  have sent: "sentProposal (getAuxRoundStruct ms' k)" if "(p, Suc k, w) \<in> ?S \<union> ?T" for k w
    using that T ni ms'(1) unfolding nodeInv_def by auto
  have d: "decidedOk (sysNmt sys) (sysT sys) sc ms'"
    using ni decidable_sameCounts [OF sc] by (simp add: nodeInv_def decidedOk_def)
  have zero: "(p, 0, w) \<notin> ?S \<union> ?T" for w using dis p mv(1) T by (auto simp: disciplined_def)
  have "nodeInv sys (?S \<union> ?T) (proposals g \<union> {}) p (sc, ms')"
    using ni sgn sent zero d ms'(1) unfolding nodeInv_def by (simp add: wf_ms_setSent)
  moreover have "disciplined sys (?S \<union> ?T)"
  proof (rule disciplined_extend [OF wf dis])
    show "gvalid sys ?S (Suc r) w" if "(p, Suc r, w) \<in> ?T" for r w
      using that T mv by (auto simp: gvalid_def baseValid_def)
    show "mvAllowed sys = None" if "(p, 0, w) \<in> ?T" for w using subsetD [OF T that] by simp
    show "w = w'" if "(p, r, w) \<in> ?T" "(p, r, w') \<in> ?S \<union> ?T" for r w w'
    proof -
      have r: "r = 1" "w = v" using subsetD [OF T that(1)] by simp_all
      have "(p, 1, w') \<in> ?S \<or> (p, 1, w') \<in> ?T" using that(2) unfolding r(1) by (simp only: Un_iff)
      then have "(p, 1, w') \<in> ?T" using fresh [of w'] by blast
      from subsetD [OF T this] show ?thesis using r(2) by simp
    qed
    show "q = p \<or> q \<in> faulty sys" if "(q, r, w) \<in> ?T" for q r w using that T by blast
  qed
  ultimately show ?thesis
    by (intro globalInv_update [OF inv wf, where T = ?T and P = "{}" and p = p]) (use T g' in auto)
qed

lemma rounds_processed:
  assumes wf: "wf_system sys" and inv: "globalInv sys g" and p: "p \<notin> faulty sys"
    and r: "checkRounds (configs sys p) (memberCount (configs sys p) - faultCount (configs sys p)) (faultCount (configs sys p)) r (nodes g p) []
      = Some (Inr (st', outs))"
  shows "processed (configs sys p) (nodes g p) (Some (Inr (st', outs, True, True)))"
proof -
  let ?t = "faultCount (configs sys p)" and ?nmt = "memberCount (configs sys p) - faultCount (configs sys p)"
  have n: "nodeInv sys (signed g) (proposals g) p (nodes g p)" using inv p by (simp add: globalInv_def)
  have "wf_ms (snd (nodes g p))" "-1 \<le> Decided (fst (nodes g p))" "0 < ?nmt"
    using n decidedOk_ge sys_config(4) [OF wf] by (auto simp: nodeInv_def)
  then obtain res where "checkRounds (configs sys p) ?nmt ?t r (nodes g p) [] = Some res" "loopResult (configs sys p) ?nmt ?t (nodes g p) [] res"
    using checkRounds_total [of "nodes g p" ?nmt "configs sys p" ?t r "[]"] by blast
  with r have "loopResult (configs sys p) ?nmt ?t (nodes g p) [] (Inr (st', outs))" by simp
  from processed_loop [OF this, of True True] show ?thesis by simp
qed

lemma bc_step_preserves:
  assumes step: "bc_step sys g g'" and wf: "wf_system sys" and inv: "globalInv sys g"
  shows "globalInv sys g'"
  using step
proof cases
  case (aux p r st' outs pr fw)
  have n: "nodeInv sys (signed g) (proposals g) p (nodes g p)" using inv aux(2) by (simp add: globalInv_def)
  have "processed (configs sys p) (nodes g p) (ProcessAux (configs sys p) r (nodes g p))"
    using n decidedOk_ge sys_config(4) [OF wf] by (intro ProcessAux_processed) (auto simp: nodeInv_def)
  then show ?thesis using processed_preserves [OF wf inv aux(2) _ aux(1)] aux(3) by simp
next
  case (timeout p r st' outs pr fw)
  have n: "nodeInv sys (signed g) (proposals g) p (nodes g p)" using inv timeout(2) by (simp add: globalInv_def)
  have "processed (configs sys p) (nodes g p) (ProcessTimeout (configs sys p) r (nodes g p))"
    using n decidedOk_ge sys_config(4) [OF wf] by (intro ProcessTimeout_processed) (auto simp: nodeInv_def)
  then show ?thesis using processed_preserves [OF wf inv timeout(2) _ timeout(1)] timeout(3) by simp
next
  case (start p sc ms)
  then show ?thesis using start_preserves [OF wf inv] by blast
next
  case (propose p v st' outs)
  then show ?thesis using propose_preserves [OF wf inv] by blast
next
  case (set_valid p B v sc ms)
  then show ?thesis using set_valid_preserves [OF wf inv] by blast
next
  case (mv_send p B v sc ms ms' r w outs)
  then have "r = 1" "w = v" by (simp_all add: GetMVInitialRoundBroadcast_def)
  then show ?thesis using mv_send_preserves [OF wf inv mv_send(2,5,3,4,6)] mv_send(1,8) by simp
next
  case (rounds p B r st' outs)
  then show ?thesis using processed_preserves [OF wf inv rounds(2) rounds_processed [OF wf inv rounds(2,4)] rounds(1)] by blast
next
  case (receive p sc ms sigs chk r v ms' res)
  show ?thesis by (rule receive_preserves [OF wf inv receive(2-4) _ receive(6,1)]) (use receive(5) in blast)
next
  case (byzantine p r v)
  then show ?thesis using byzantine_preserves [OF wf inv] by blast
qed

lemma reachable_globalInv:
  assumes "reachable sys g" "wf_system sys"
  shows "globalInv sys g"
  using assms(1) by induction (auto intro: globalInv_init bc_step_preserves assms(2))

section \<open>Executable runs\<close>

text \<open>Runs as lists of actions; an action that is not possible leaves the state as it is.\<close>

datatype 'p action =
    ActStart 'p | ActPropose 'p bool | ActReceive 'p nat bool "'p sig_item list"
  | ActAux 'p nat | ActTimeout 'p nat | ActByzantine 'p nat bool

definition putNode :: "'p \<Rightarrow> 'p bc_state \<Rightarrow> 'p out list \<Rightarrow> ('p \<times> bool) list \<Rightarrow> 'p bc_global \<Rightarrow> 'p bc_global" where
  "putNode p st outs prop g = g\<lparr>nodes := (nodes g)(p := st), signed := signed g \<union> signedBy p outs,
     proposals := set prop \<union> proposals g\<rparr>"

fun exec :: "'p bc_system \<Rightarrow> 'p action \<Rightarrow> 'p bc_global \<Rightarrow> 'p bc_global" where
  "exec sys (ActStart p) g =
     (if p \<in> faulty sys then g
      else putNode p (Start (configs sys p) (fst (nodes g p)), snd (nodes g p)) [] [] g)"
| "exec sys (ActPropose p v) g =
     (if p \<in> faulty sys \<or> mvAllowed sys \<noteq> None then g
      else (case ItemGotProposal (configs sys p) v (nodes g p) of
              Inl e \<Rightarrow> g | Inr (st', outs) \<Rightarrow> putNode p st' outs [(p, v)] g))"
| "exec sys (ActReceive p r v sigs) g =
     (if p \<in> faulty sys \<or> \<not> plain_sigs sigs then g
      else putNode p (fst (nodes g p),
             fst (GotMsg (\<lambda>si. si_pub si \<in> members sys \<and> (si_pub si, r, v) \<in> signed g) r v sigs (snd (nodes g p)))) [] [] g)"
| "exec sys (ActAux p r) g =
     (if p \<in> faulty sys then g
      else (case ProcessAux (configs sys p) r (nodes g p) of
              Some (Inr (st', outs, pr, fw)) \<Rightarrow> putNode p st' outs [] g | _ \<Rightarrow> g))"
| "exec sys (ActTimeout p r) g =
     (if p \<in> faulty sys then g
      else (case ProcessTimeout (configs sys p) r (nodes g p) of
              Some (Inr (st', outs, pr, fw)) \<Rightarrow> putNode p st' outs [] g | _ \<Rightarrow> g))"
| "exec sys (ActByzantine p r v) g =
     (if p \<in> faulty sys then g\<lparr>signed := insert (p, r, v) (signed g)\<rparr> else g)"

lemma signedBy_Nil [simp]: "signedBy p [] = {}"
  by (simp add: signedBy_def)

lemma putNode_nop: "putNode p st [] [] g = g\<lparr>nodes := (nodes g)(p := st)\<rparr>"
  by (simp add: putNode_def)

lemma putNode_outs: "putNode p st outs [] g = g\<lparr>nodes := (nodes g)(p := st), signed := signed g \<union> signedBy p outs\<rparr>"
  by (simp add: putNode_def)

lemma exec_step: "exec sys a g = g \<or> bc_step sys g (exec sys a g)"
proof (cases a)
  case (ActStart p)
  then show ?thesis using bc_step.start [of p sys g "fst (nodes g p)" "snd (nodes g p)"] by (simp add: putNode_nop)
next
  case (ActPropose p v)
  then show ?thesis
    using bc_step.propose [of p sys v g] by (auto simp: putNode_def split: sum.splits)
next
  case (ActReceive p r v sigs)
  let ?chk = "\<lambda>si. si_pub si \<in> members sys \<and> (si_pub si, r, v) \<in> signed g"
  show ?thesis
    using bc_step.receive [of p sys g "fst (nodes g p)" "snd (nodes g p)" sigs ?chk r v
        "fst (GotMsg ?chk r v sigs (snd (nodes g p)))" "snd (GotMsg ?chk r v sigs (snd (nodes g p)))"] ActReceive
    by (simp add: putNode_nop)
next
  case (ActAux p r)
  then show ?thesis
    using bc_step.aux [of p sys r g] by (auto simp: putNode_outs split: option.splits sum.splits)
next
  case (ActTimeout p r)
  then show ?thesis
    using bc_step.timeout [of p sys r g] by (auto simp: putNode_outs split: option.splits sum.splits)
next
  case (ActByzantine p r v)
  then show ?thesis using bc_step.byzantine [of p sys g r v] by simp
qed

lemma exec_reachable: "reachable sys g \<Longrightarrow> reachable sys (fold (exec sys) as g)"
proof (induction as arbitrary: g)
  case (Cons a as)
  have "reachable sys (exec sys a g)" using exec_step [of sys a g] Cons.prems reachable.step by metis
  then show ?case using Cons.IH by simp
qed simp

text \<open>
  A run of four members, the last one faulty, and an observer that is not a member; the observer's
  identifier is 4. The faulty member signs both values in round 0.
\<close>

definition demoConfig :: "nat \<Rightarrow> nat bc_config" where
  "demoConfig p = \<lparr>memberCount = 4, faultCount = 1, myPub = p, memberLocal = (p < 4), randMember = \<lambda>_ _. True,
     StopOnCommit = SendProof, IncludeProofs = True\<rparr>"

definition demoSystem :: "nat bc_system" where
  "demoSystem = \<lparr>members = {0, 1, 2, 3}, faulty = {3}, configs = demoConfig, mvAllowed = None\<rparr>"

definition demoSig :: "nat \<Rightarrow> nat sig_item" where
  "demoSig p = \<lparr>si_pub = p, si_members = 1, si_sig = p\<rparr>"

definition demoRound :: "nat \<Rightarrow> bool \<Rightarrow> nat list \<Rightarrow> nat action list" where
  "demoRound r v ps = map (\<lambda>p. ActReceive p r v (map demoSig ps)) [0, 1, 2, 4] @ map (\<lambda>p. ActAux p r) [0, 1, 2, 4]"

definition demoRun :: "nat action list" where
  "demoRun = map ActStart [0, 1, 2, 4] @ map (\<lambda>p. ActPropose p True) [0, 1, 2] @
     [ActByzantine 3 0 True, ActByzantine 3 0 False] @ demoRound 0 True [0, 1, 3] @ demoRound 1 True [0, 1, 2]"

definition demoFinal :: "nat bc_global" where
  "demoFinal = fold (exec demoSystem) demoRun (initGlobal demoSystem)"

fun auxSent :: "'p \<Rightarrow> 'p out list \<Rightarrow> ('p \<times> nat \<times> bool) list" where
  "auxSent p [] = []"
| "auxSent p (BcastAux r v pf # outs) = (p, r, v) # auxSent p outs"
| "auxSent p (BcastProof pf # outs) = auxSent p outs"
| "auxSent p (StartTimer r # outs) = auxSent p outs"

lemma signedBy_code [code]: "signedBy p outs = set (auxSent p outs)"
proof -
  have "(q, r, v) \<in> set (auxSent p outs) \<longleftrightarrow> q = p \<and> (\<exists>pf. BcastAux r v pf \<in> set outs)" for q r v
    by (induction p outs rule: auxSent.induct) auto
  then show ?thesis by (auto simp: signedBy_def)
qed

declare checkRounds.simps [code]

lemma demo_wf: "wf_system demoSystem"
  by (simp add: wf_system_def demoSystem_def demoConfig_def GetOneThirdBottom_def)

lemma demo_reachable: "reachable demoSystem demoFinal"
  unfolding demoFinal_def by (rule exec_reachable) (rule reachable.init)

lemma demo_decided:
  "map (\<lambda>p. GetDecision (fst (nodes demoFinal p))) [0, 4] = [Inr 1, Inr 1]"
  by code_simp

lemma demo_correct: "0 \<notin> faulty demoSystem" "4 \<notin> faulty demoSystem"
  by (simp_all add: demoSystem_def)

section \<open>Main results\<close>

lemma decision_gdecidable:
  assumes reach: "reachable sys g" and wf: "wf_system sys" and p: "p \<notin> faulty sys"
    and d: "GetDecision (fst (nodes g p)) = Inr a"
  obtains r where "gdecidable sys (signed g) r" "a = of_bool (odd r)"
proof -
  have n: "nodeInv sys (signed g) (proposals g) p (nodes g p)"
    using reachable_globalInv [OF reach wf] p by (simp add: globalInv_def)
  let ?sc = "fst (nodes g p)" and ?ms = "snd (nodes g p)"
  have "Decided ?sc \<noteq> -1" "a = Decided ?sc" using d by (auto simp: GetDecision_def split: if_splits)
  then have "a = of_bool (odd (decidedRound ?sc))" "decidable (sysNmt sys) (sysT sys) (decidedRound ?sc) ?ms"
    using n by (simp_all add: nodeInv_def decidedOk_def)
  moreover from decidable_gdecidable [OF wf _ this(2)] n have "gdecidable sys (signed g) (decidedRound ?sc)"
    by (metis prod.collapse)
  ultimately show thesis using that by blast
qed

lemma decisions_agree:
  assumes "reachable sys g" "wf_system sys" "p \<notin> faulty sys" "q \<notin> faulty sys"
    and "GetDecision (fst (nodes g p)) = Inr a" "GetDecision (fst (nodes g q)) = Inr b"
  shows "a = b"
proof -
  have dis: "disciplined sys (signed g)" using reachable_globalInv [OF assms(1,2)] by (simp add: globalInv_def)
  obtain r where r: "gdecidable sys (signed g) r" "a = of_bool (odd r)"
    using decision_gdecidable [OF assms(1-3,5)] .
  obtain r' where r': "gdecidable sys (signed g) r'" "b = of_bool (odd r')"
    using decision_gdecidable [OF assms(1,2,4,6)] .
  from gdecidable_agree [OF assms(2) dis r(1) r'(1)] r(2) r'(2) show ?thesis by simp
qed

text \<open>
  C1 (agreement). In every reachable state of a system with at most \<open>GetOneThirdBottom n\<close> faulty members,
  whatever the faulty members sign and in whatever order messages and timeouts arrive, no two
  correct processes have decided different values.
\<close>

theorem bincons1_agreement:
  assumes "reachable sys g" "wf_system sys" "p \<notin> faulty sys" "q \<notin> faulty sys"
    and "GetDecision (fst (nodes g p)) = Inr a" "GetDecision (fst (nodes g q)) = Inr b"
  shows "a = b"
  by (rule decisions_agree [OF assms])

theorem bincons1_agreement_witness:
  "GetDecision (fst (nodes demoFinal 0)) = Inr 1 \<and> GetDecision (fst (nodes demoFinal 4)) = Inr 1 \<and>
   GetDecision (fst (nodes demoFinal 0)) = GetDecision (fst (nodes demoFinal 4))"
  using bincons1_agreement [OF demo_reachable demo_wf demo_correct, of 1 1] demo_decided by simp

text \<open>
  C2 (validity). In a consensus of its own, a value decided by a correct process was proposed by a correct member: some
  correct process received it as its proposal.
\<close>

theorem bincons1_validity:
  assumes "reachable sys g" "wf_system sys" "p \<notin> faulty sys" "GetDecision (fst (nodes g p)) = Inr a" "mvAllowed sys = None"
  shows "\<exists>q v. q \<in> members sys \<and> q \<notin> faulty sys \<and> (q, v) \<in> proposals g \<and> a = of_bool v"
proof -
  have inv: "globalInv sys g" using reachable_globalInv [OF assms(1,2)] .
  then have dis: "disciplined sys (signed g)" by (simp add: globalInv_def)
  obtain r where r: "gdecidable sys (signed g) r" "a = of_bool (odd r)" using decision_gdecidable [OF assms(1-4)] .
  then obtain q where q: "q \<in> members sys" "q \<notin> faulty sys" "(q, 0, odd r) \<in> signed g"
    using gvalid_origin [OF assms(2) dis assms(5)] unfolding gdecidable_def by blast
  then have "(q, odd r) \<in> proposals g" using inv unfolding globalInv_def nodeInv_def by blast
  with q r show ?thesis by blast
qed

theorem bincons1_validity_witness:
  "\<exists>q v. q \<in> members demoSystem \<and> q \<notin> faulty demoSystem \<and> (q, v) \<in> proposals demoFinal \<and> (1::int) = of_bool v"
  using bincons1_validity [OF demo_reachable demo_wf demo_correct(2), of 1] demo_decided by (simp add: demoSystem_def)

lemma handlers_return:
  assumes "reachable sys g" "wf_system sys" "p \<notin> faulty sys"
  shows "(\<exists>res. ProcessAux (configs sys p) r (nodes g p) = Some (Inr res)) \<and>
    (\<exists>res. ProcessTimeout (configs sys p) r (nodes g p) = Some (Inr res))"
proof -
  have inv: "globalInv sys g" using reachable_globalInv [OF assms(1,2)] .
  then have n: "nodeInv sys (signed g) (proposals g) p (nodes g p)" using assms(3) by (simp add: globalInv_def)
  then have "readyState (configs sys p) (sysNmt sys) (sysT sys) (nodes g p)"
    using nodeInv_ready [OF assms(2) _ n] inv by (simp add: globalInv_def)
  moreover have "processed (configs sys p) (nodes g p) (ProcessAux (configs sys p) r (nodes g p))"
    "processed (configs sys p) (nodes g p) (ProcessTimeout (configs sys p) r (nodes g p))"
    using n decidedOk_ge sys_config(4) [OF assms(2)]
    by (auto intro!: ProcessAux_processed ProcessTimeout_processed simp: nodeInv_def)
  ultimately show ?thesis
    using sys_config [OF assms(2), of p] by (auto simp: processed_def Let_def is_ok_iff)
qed

text \<open>
  C3 (no panic, and termination of the round loop). In every reachable state, processing a message or a timeout of any round at
  a correct process returns a result: the loop over rounds ends, and none of the calls to
  \<^verbatim>\<open>panic\<close> in \<^verbatim>\<open>CheckRound\<close>, \<^verbatim>\<open>checkDone\<close>, \<^verbatim>\<open>GenerateProofs\<close> and \<^verbatim>\<open>GetProofs\<close> is reached.
\<close>

theorem bincons1_no_panic:
  assumes "reachable sys g" "wf_system sys" "p \<notin> faulty sys"
  shows "(\<exists>res. ProcessAux (configs sys p) r (nodes g p) = Some (Inr res)) \<and>
    (\<exists>res. ProcessTimeout (configs sys p) r (nodes g p) = Some (Inr res))"
  by (rule handlers_return [OF assms])

theorem bincons1_no_panic_witness:
  "(\<exists>res. ProcessAux (configs demoSystem 0) 2 (nodes demoFinal 0) = Some (Inr res)) \<and>
   (\<exists>res. ProcessTimeout (configs demoSystem 0) 2 (nodes demoFinal 0) = Some (Inr res))"
  using bincons1_no_panic [OF demo_reachable demo_wf demo_correct(1), of 2] .

lemma step_itemEffect:
  assumes wf: "wf_system sys" and inv: "globalInv sys g" and p: "p \<notin> faulty sys"
    and pr: "processed (configs sys p) (nodes g p) (Some (Inr (st', outs, b, c)))"
  shows "itemEffect (sysNmt sys) (sysT sys) (nodes g p) st'"
  using pr sys_config [OF wf, of p] by (cases st') (simp add: processed_def Let_def)

lemma node_processed:
  assumes wf: "wf_system sys" and inv: "globalInv sys g" and p: "p \<notin> faulty sys"
  shows "processed (configs sys p) (nodes g p) (ProcessAux (configs sys p) r (nodes g p))"
    "processed (configs sys p) (nodes g p) (ProcessTimeout (configs sys p) r (nodes g p))"
proof -
  have "nodeInv sys (signed g) (proposals g) p (nodes g p)" using inv p by (simp add: globalInv_def)
  then show "processed (configs sys p) (nodes g p) (ProcessAux (configs sys p) r (nodes g p))"
    "processed (configs sys p) (nodes g p) (ProcessTimeout (configs sys p) r (nodes g p))"
    using decidedOk_ge sys_config(4) [OF wf]
    by (auto intro!: ProcessAux_processed ProcessTimeout_processed simp: nodeInv_def)
qed

text \<open>
  C4 (integrity). A decision is final: no later step of the system, of this process or of another,
  changes the decision of a correct process.
\<close>

theorem bincons1_integrity:
  assumes "reachable sys g" "wf_system sys" "p \<notin> faulty sys" "bc_step sys g g'"
    and "GetDecision (fst (nodes g p)) = Inr a"
  shows "GetDecision (fst (nodes g' p)) = Inr a"
proof -
  have inv: "globalInv sys g" using reachable_globalInv [OF assms(1,2)] .
  have "Decided (fst (nodes g p)) = a" "a \<noteq> -1" using assms(5) by (auto simp: GetDecision_def split: if_splits)
  moreover have "Decided (fst (nodes g' p)) = Decided (fst (nodes g p))" if d: "Decided (fst (nodes g p)) \<noteq> -1"
    using assms(4)
  proof cases
    case (aux q r st' outs pr fw)
    then have "itemEffect (sysNmt sys) (sysT sys) (nodes g q) st'"
      using step_itemEffect [OF assms(2) inv aux(2)] node_processed(1) [OF assms(2) inv aux(2), of r] by simp
    then show ?thesis using aux d by (auto simp: itemEffect_def)
  next
    case (timeout q r st' outs pr fw)
    then have "itemEffect (sysNmt sys) (sysT sys) (nodes g q) st'"
      using step_itemEffect [OF assms(2) inv timeout(2)] node_processed(2) [OF assms(2) inv timeout(2), of r] by simp
    then show ?thesis using timeout d by (auto simp: itemEffect_def)
  next
    case (rounds q B r st' outs)
    have "itemEffect (sysNmt sys) (sysT sys) (nodes g q) st'"
      using step_itemEffect [OF assms(2) inv rounds(2) rounds_processed [OF assms(2) inv rounds(2,4)]] .
    then show ?thesis using rounds(1) d by (auto simp: itemEffect_def)
  next
    case (propose q v st' outs)
    then show ?thesis
      by (auto simp: ItemGotProposal_def AbsGotProposal_def bind_res_Inr_iff split: if_splits prod.splits)
  qed (auto simp: Start_def Let_def)
  ultimately show ?thesis by (simp add: GetDecision_def)
qed

theorem bincons1_integrity_witness:
  "GetDecision (fst (nodes (demoFinal\<lparr>signed := insert (3, 1, False) (signed demoFinal)\<rparr>) 0)) = Inr 1"
proof (rule bincons1_integrity [OF demo_reachable demo_wf demo_correct(1)])
  show "bc_step demoSystem demoFinal (demoFinal\<lparr>signed := insert (3, 1, False) (signed demoFinal)\<rparr>)"
    by (rule bc_step.byzantine) (simp add: demoSystem_def)
  show "GetDecision (fst (nodes demoFinal 0)) = Inr 1" using demo_decided by simp
qed

end
