(* ===== verification/BinCons1_Client.thy ===== *)
theory BinCons1_Client
  imports BinCons1_System
begin

text \<open>
  \<^verbatim>\<open>BinCons1\<close> as the binary consensus of a multi-value reduction: what the reduction may do with the item and its message
  state, as a relation between states of one process, and that a reduction which keeps to it gets all that was shown of
  the runs of the binary consensus.
\<close>

text \<open>\<open>B\<close> are the values that the reduction may declare valid for round 1.\<close>

inductive binMoves :: "'p bc_config \<Rightarrow> bool set \<Rightarrow> 'p bc_state \<Rightarrow> 'p out list \<Rightarrow> 'p bc_state \<Rightarrow> bool" for cfg B where
  refl: "binMoves cfg B st [] st"
| set_valid: "v \<in> B \<Longrightarrow> binMoves cfg B (sc, ms) [] (sc, if v then SetMv1Valid ms else SetMv0Valid ms)"
| send: "v \<in> B \<Longrightarrow> SentProposal 0 True ms = (ms', False) \<Longrightarrow> GetMVInitialRoundBroadcast v = (r, w) \<Longrightarrow>
    outs = [] \<or> outs = [BcastAux r w []] \<Longrightarrow> binMoves cfg B (sc, ms) outs (sc, ms')"
| rounds: "checkRounds cfg (memberCount cfg - faultCount cfg) (faultCount cfg) r st [] = Some (Inr (st', outs)) \<Longrightarrow> binMoves cfg B st outs st'"
| aux: "ProcessAux cfg r st = Some (Inr (st', outs, pr, fw)) \<Longrightarrow> binMoves cfg B st outs st'"
| timeout: "ProcessTimeout cfg r st = Some (Inr (st', outs, pr, fw)) \<Longrightarrow> binMoves cfg B st outs st'"
| trans: "binMoves cfg B st outs st' \<Longrightarrow> binMoves cfg B st' outs' st'' \<Longrightarrow> binMoves cfg B st (outs @ outs') st''"

definition binUpdate :: "'p \<Rightarrow> 'p bc_state \<Rightarrow> 'p out list \<Rightarrow> 'p bc_global \<Rightarrow> 'p bc_global" where
  "binUpdate p st outs g = g\<lparr>nodes := (nodes g)(p := st), signed := signed g \<union> signedBy p outs\<rparr>"

lemma binUpdate_same: "nodes g p = st \<Longrightarrow> binUpdate p st [] g = g"
  by (auto simp: binUpdate_def fun_upd_idem)

lemma signedBy_append: "signedBy p (a @ b) = signedBy p a \<union> signedBy p b"
  by (auto simp: signedBy_def)

lemma binUpdate_trans: "binUpdate p st' b (binUpdate p st a g) = binUpdate p st' (a @ b) g"
  by (simp add: binUpdate_def signedBy_append Un_assoc)

text \<open>A process that sends again its message for round 1 leaves the state as it is.\<close>

lemma SentProposal_again: "SentProposal 0 True ms = (ms', True) \<Longrightarrow> ms' = ms"
  by (cases ms) (auto simp: SentProposal_def setAux_def getAuxRoundStruct_def emptyAux_def Let_def fun_upd_idem_iff split: option.splits)

lemma client_reachable:
  assumes "binMoves (configs sys p) B st outs st'" "reachable sys g" "p \<notin> faulty sys" "mvAllowed sys = Some B" "nodes g p = st"
  shows "reachable sys (binUpdate p st' outs g)"
  using assms
proof (induction arbitrary: g)
  case (refl st)
  then show ?case by (simp add: binUpdate_same)
next
  case (set_valid v sc ms)
  have "bc_step sys g (g\<lparr>nodes := (nodes g)(p := (sc, if v then SetMv1Valid ms else SetMv0Valid ms))\<rparr>)"
    using bc_step.set_valid [OF set_valid(3,4,1,5)] .
  then show ?case using reachable.step [OF set_valid(2)] by (simp add: binUpdate_def)
next
  case (send v ms ms' r w outs sc)
  from reachable.step [OF send(5) bc_step.mv_send [OF send(6,7,1,8,2,3,4)]] show ?case by (simp add: binUpdate_def)
next
  case (rounds r st st' outs)
  from rounds(1) have "checkRounds (configs sys p) (memberCount (configs sys p) - faultCount (configs sys p)) (faultCount (configs sys p)) r (nodes g p) []
      = Some (Inr (st', outs))" unfolding rounds(5) .
  from reachable.step [OF rounds(2) bc_step.rounds [OF rounds(3,4) this]] show ?case by (simp add: binUpdate_def)
next
  case (aux r st st' outs pr fw)
  from aux(1) have "ProcessAux (configs sys p) r (nodes g p) = Some (Inr (st', outs, pr, fw))" unfolding aux(5) .
  from reachable.step [OF aux(2) bc_step.aux [OF aux(3) this]] show ?case by (simp add: binUpdate_def)
next
  case (timeout r st st' outs pr fw)
  from timeout(1) have "ProcessTimeout (configs sys p) r (nodes g p) = Some (Inr (st', outs, pr, fw))" unfolding timeout(5) .
  from reachable.step [OF timeout(2) bc_step.timeout [OF timeout(3) this]] show ?case by (simp add: binUpdate_def)
next
  case (trans st outs st' outs' st'')
  have "reachable sys (binUpdate p st' outs g)" using trans.IH(1) trans.prems by blast
  from trans.IH(2) [OF this trans.prems(2,3)] have "reachable sys (binUpdate p st'' outs' (binUpdate p st' outs g))"
    by (simp add: binUpdate_def)
  then show ?case by (simp add: binUpdate_trans)
qed

text \<open>The loop over the rounds returns at every point of a reachable run.\<close>

lemma client_rounds:
  assumes "reachable sys g" "wf_system sys" "p \<notin> faulty sys" "nodes g p = st"
  shows "\<exists>st' outs. checkRounds (configs sys p) (memberCount (configs sys p) - faultCount (configs sys p)) (faultCount (configs sys p)) r st []
    = Some (Inr (st', outs))"
proof -
  let ?t = "faultCount (configs sys p)" and ?nmt = "memberCount (configs sys p) - faultCount (configs sys p)"
  have inv: "globalInv sys g" using reachable_globalInv [OF assms(1,2)] .
  then have n: "nodeInv sys (signed g) (proposals g) p st" using assms(3,4) by (auto simp: globalInv_def)
  have "wf_ms (snd st)" "-1 \<le> Decided (fst st)" "0 < ?nmt" using n decidedOk_ge sys_config(4) [OF assms(2)] by (auto simp: nodeInv_def)
  then obtain res where c: "checkRounds (configs sys p) ?nmt ?t r st [] = Some res" "loopResult (configs sys p) ?nmt ?t st [] res"
    using checkRounds_total [of st ?nmt "configs sys p" ?t r "[]"] by blast
  have "readyState (configs sys p) ?nmt ?t st"
    using nodeInv_ready [OF assms(2) _ n] inv sys_config [OF assms(2), of p] by (simp add: globalInv_def)
  then have "is_ok res" using c(2) by (simp add: loopResult_def)
  then show ?thesis using c(1) by (auto simp: is_ok_iff)
qed

text \<open>A value decided under a reduction is one that the reduction declared valid.\<close>

lemma client_validity:
  assumes "reachable sys g" "wf_system sys" "p \<notin> faulty sys" "GetDecision (fst (nodes g p)) = Inr a" "mvAllowed sys = Some B"
  shows "\<exists>v \<in> B. a = of_bool v"
proof -
  have "disciplined sys (signed g)" using reachable_globalInv [OF assms(1,2)] by (simp add: globalInv_def)
  moreover obtain r where r: "gdecidable sys (signed g) r" "a = of_bool (odd r)" using decision_gdecidable [OF assms(1-4)] .
  ultimately have "baseValid sys (signed g) (odd r)"
    using gvalid_base [OF assms(2), of "signed g" r "odd r"] assms(5) by (simp add: gdecidable_def)
  then show ?thesis using r(2) assms(5) by (auto simp: baseValid_def)
qed

section \<open>The interface of a reduction\<close>

text \<open>
  A reduction keeps the items of the binary consensus in its own states; \<open>view\<close> reads them off. What it promises is that its
  runs are runs of the binary consensus for every set of values that covers those it declares valid (\<open>allowed\<close>). It gets that the binary
  decisions of correct processes agree and are in every such set.
\<close>

locale mv_reduction =
  fixes binSys :: "'s \<Rightarrow> bool set \<Rightarrow> 'p bc_system"
    and view :: "'g \<Rightarrow> 'p bc_global"
    and runs :: "'s \<Rightarrow> 'g \<Rightarrow> bool"
    and allowed :: "'s \<Rightarrow> 'g \<Rightarrow> bool set \<Rightarrow> bool"
  assumes run: "runs s g \<Longrightarrow> allowed s g B \<Longrightarrow> reachable (binSys s B) (view g)"
    and wf: "runs s g \<Longrightarrow> wf_system (binSys s B)"
    and mode: "mvAllowed (binSys s B) = Some B"
    and covered: "allowed s g UNIV"
begin

lemma agreement:
  assumes "runs s g" "p \<notin> faulty (binSys s UNIV)" "q \<notin> faulty (binSys s UNIV)"
    and "GetDecision (fst (nodes (view g) p)) = Inr a" "GetDecision (fst (nodes (view g) q)) = Inr b"
  shows "a = b"
  by (rule decisions_agree [OF run [OF assms(1) covered] wf [OF assms(1)] assms(2-5)])

lemma decided_allowed:
  assumes "runs s g" "allowed s g B" "p \<notin> faulty (binSys s B)" "GetDecision (fst (nodes (view g) p)) = Inr a"
  shows "\<exists>v \<in> B. a = of_bool v"
  by (rule client_validity [OF run [OF assms(1,2)] wf [OF assms(1)] assms(3,4) mode])

end

end
