(* ===== verification/MvCons1.thy ===== *)
theory MvCons1
  imports BinCons1 RbBcast1
begin

text \<open>
  The multi-value consensus \<^verbatim>\<open>src/consensus/cons/mvcons1/mv_cons1.go\<close> with its message state
  \<^verbatim>\<open>mv_cons1_message_state.go\<close>, a reduction to the binary consensus \<^verbatim>\<open>BinCons1\<close>. The coordinator broadcasts its
  proposal, processes echo its hash, or a zero hash after a timeout. A hash with \<open>n - t\<close> echoes makes the value 1 valid in
  the binary consensus; its decision 1 decides the proposal of that hash, 0 decides nothing.

  The Go code keeps the messages of the reduction and those of the binary consensus in one store. Their hashes and identifiers are
  different, and the operations of the store work on one hash and one identifier, so there is a store for each here. The
  binary consensus is \<^verbatim>\<open>BinCons1\<close> (\<^verbatim>\<open>MvBinCons1Type\<close>).
\<close>

section \<open>Data\<close>

text \<open>
  The records extend those of \<^verbatim>\<open>RbBcast1\<close>, which hold the fields of \<^verbatim>\<open>AbsConsItem\<close> and \<^verbatim>\<open>AbsMVRecover\<close>;
  \<open>decisionHashBytes\<close> is \<^verbatim>\<open>decisionHash\<close>, \<open>decisionPub\<close> is \<^verbatim>\<open>proposerPub\<close>, \<open>myProposal\<close>, \<open>rbGotProposal\<close>,
  \<open>rbDecided\<close> and \<open>totalEchoMsgCount\<close> are not used. An item of \<^verbatim>\<open>sortedInitHashes\<close> is the sender and the proposal.
\<close>

record ('p, 'v, 'h) mvMessageState = "('p, 'v, 'h) rbMessageState" +
  mvBinMs :: "'p MessageState"

record ('p, 'v, 'h) MvCons1 = "('p, 'v, 'h) RbBcast1" +
  binCons :: BinCons1
  sortedInitHashes :: "('p \<times> 'v) list"
  initTimer :: bool
  echoTimer :: bool
  echoTimeOutState :: TimeoutState
  initTimeoutState :: TimeoutState

type_synonym ('p, 'v, 'h) mv_state = "('p, 'v, 'h) MvCons1 \<times> ('p, 'v, 'h) mvMessageState"

type_synonym ('p, 'v, 'h) echo_signed = "('p, ('v, 'h) rbMsg, rbMsgID) signed_msg"

record ('p, 'v, 'h) mv_config = "('p, 'v, 'h) rb_config" +
  binConfig :: "'p bc_config"
  zeroHash :: 'h
  validHashLen :: "'h \<Rightarrow> bool" \<comment> \<open>the hash has the length \<^verbatim>\<open>GetHashLen()\<close>\<close>
  echoMember :: "'h \<Rightarrow> bool" \<comment> \<open>\<^verbatim>\<open>CheckRandMember\<close> accepts the node for the echo\<close>
  waitForRndCoord :: bool \<comment> \<open>\<^verbatim>\<open>ShouldWaitForRndCoord\<close>\<close>
  VRFID :: "'p \<Rightarrow> nat"
  mvIncludeProofs :: bool

datatype ('p, 'v, 'h) mv_out =
    MvOut "('v, 'h) rb_out"
  | BinOut "'p out" "('p, 'v, 'h) echo_signed list" \<comment> \<open>with echoes as proofs\<close>
  | StartInitTimer
  | StartEchoTimer

text \<open>The part of the state that is the binary consensus.\<close>

definition binState :: "('p, 'v, 'h) mv_state \<Rightarrow> 'p bc_state" where
  "binState st = (binCons (fst st), mvBinMs (snd st))"

definition setBin :: "'p bc_state \<Rightarrow> ('p, 'v, 'h) mv_state \<Rightarrow> ('p, 'v, 'h) mv_state" where
  "setBin b st = ((fst st)\<lparr>binCons := fst b\<rparr>, (snd st)\<lparr>mvBinMs := snd b\<rparr>)"

section \<open>The message state\<close>

definition mvNewMessageState :: "('p, 'v, 'h) mvMessageState" where
  "mvNewMessageState = \<lparr>rbSms = newSignedMsgMap, supportedEchoHash = None, totalEchoMsgCount = 0, mvBinMs = NewMessageState True\<rparr>"

definition mvGotInit ::
    "('p sig_item \<Rightarrow> bool) \<Rightarrow> ('p, 'v, 'h) mv_config \<Rightarrow> nat \<Rightarrow> 'v \<Rightarrow> 'p sig_item list \<Rightarrow> ('p, 'v, 'h) mvMessageState
     \<Rightarrow> ('p, 'v, 'h) mvMessageState \<times> 'p res" where
  "mvGotInit chk cfg round v sigs ms =
     (if round \<noteq> 0 then (ms, Inl ErrInvalidRound)
      else if length sigs \<noteq> 1 then (ms, Inl ErrInvalidSig)
      else (case GotSignedMsg chk (rbSms ms) \<lparr>sm_hash = MvInit round v, sm_msgid = InitID round, sm_sigs = sigs\<rparr> of
              (sms', sm', Inl e) \<Rightarrow> (ms\<lparr>rbSms := sms'\<rparr>, Inl e)
            | (sms', sm', Inr _) \<Rightarrow>
                (let ms1 = ms\<lparr>rbSms := sms'\<rparr>
                 in if \<not> isCoord cfg (si_pub (hd (sm_sigs sm'))) then (ms1, Inl ErrInvalidRoundCoord)
                    else (ms1, Inr (si_pub (hd (sm_sigs sm')))))))"

definition mvGotEcho ::
    "('p sig_item \<Rightarrow> bool) \<Rightarrow> nat \<Rightarrow> 'h \<Rightarrow> 'p sig_item list \<Rightarrow> ('p, 'v, 'h) mvMessageState
     \<Rightarrow> ('p, 'v, 'h) mvMessageState \<times> unit res" where
  "mvGotEcho chk round h sigs ms =
     (if round \<noteq> 0 then (ms, Inl ErrInvalidRound)
      else (case GotSignedMsg chk (rbSms ms) \<lparr>sm_hash = MvEcho round h, sm_msgid = EchoID round, sm_sigs = sigs\<rparr> of
              (sms', sm', Inl e) \<Rightarrow> (ms\<lparr>rbSms := sms'\<rparr>, Inl e)
            | (sms', sm', Inr _) \<Rightarrow> (ms\<lparr>rbSms := sms'\<rparr>, Inr ())))"

text \<open>A message of the binary consensus.\<close>

definition mvGotBin ::
    "('p sig_item \<Rightarrow> bool) \<Rightarrow> nat \<Rightarrow> bool \<Rightarrow> 'p sig_item list \<Rightarrow> ('p, 'v, 'h) mvMessageState
     \<Rightarrow> ('p, 'v, 'h) mvMessageState \<times> unit res" where
  "mvGotBin chk round val sigs ms = (case GotMsg chk round val sigs (mvBinMs ms) of (b, r) \<Rightarrow> (ms\<lparr>mvBinMs := b\<rparr>, r))"

definition setEchoHash :: "'h \<Rightarrow> ('p, 'v, 'h) mvMessageState \<Rightarrow> ('p, 'v, 'h) mvMessageState res" where
  "setEchoHash h ms =
     (if supportedEchoHash ms \<noteq> None \<and> supportedEchoHash ms \<noteq> Some h then Inl (Panic ''tried to support different echo hashes'')
      else Inr (ms\<lparr>supportedEchoHash := Some h\<rparr>))"

definition generateMvProofs ::
    "('p, 'v, 'h) mv_config \<Rightarrow> int \<Rightarrow> ('p, 'v, 'h) mvMessageState \<Rightarrow> (('p, 'v, 'h) mvMessageState \<times> ('p, 'v, 'h) echo_signed list) res" where
  "generateMvProofs cfg sigCount ms =
     (case supportedEchoHash ms of
        None \<Rightarrow> Inl (Panic ''tried to get proofs for an echo message before sending the hash'')
      | Some h \<Rightarrow>
          (case SetupSignedMessage (rbSms ms) \<lparr>sm_hash = MvEcho 0 h, sm_msgid = EchoID 0, sm_sigs = []\<rparr> (rbMyPub cfg) None sigCount of
             (sms', Inl e) \<Rightarrow> Inl e
           | (sms', Inr sm) \<Rightarrow>
               if int (length (sm_sigs sm)) < rbMemberCount cfg - rbFaultCount cfg then Inl ErrNotEnoughSigs
               else Inr (ms\<lparr>rbSms := sms'\<rparr>, [sm])))"

text \<open>
  \<^verbatim>\<open>GenerateProofs\<close> of this message state: the echoes for the value 1 in round 2, else what the binary consensus returns. The binary
  consensus does not call it, since \<^verbatim>\<open>GetBinMsgState\<close> gives it its own message state.
\<close>

definition mvGenerateProofs ::
    "('p, 'v, 'h) mv_config \<Rightarrow> int \<Rightarrow> nat \<Rightarrow> bool \<Rightarrow> ('p, 'v, 'h) mvMessageState
     \<Rightarrow> (('p, 'v, 'h) mvMessageState \<times> (('p, 'v, 'h) echo_signed list + 'p aux_signed list)) res" where
  "mvGenerateProofs cfg sigCount round binVal ms =
     (if round = 2 \<and> binVal then bind_res (generateMvProofs cfg sigCount ms) (\<lambda>(ms', prfs). Inr (ms', Inl prfs))
      else (case GenerateProofs (binConfig cfg) sigCount round binVal (mvBinMs ms) of
              (b, Inl e) \<Rightarrow> Inl e
            | (b, Inr prfs) \<Rightarrow> Inr (ms\<lparr>mvBinMs := b\<rparr>, Inr prfs)))"

section \<open>The item\<close>

definition mvHasValidStarted :: "('p, 'v, 'h) MvCons1 \<Rightarrow> bool" where
  "mvHasValidStarted sc \<longleftrightarrow> validatedInitHashes sc \<noteq> []"

definition mvGenerateNewItem :: "('p, 'v, 'h) MvCons1" where
  "mvGenerateNewItem = \<lparr>rbStarted = False, rbNeedsProposal = False, rbGotProposal = False, rbDecided = False, myProposal = None,
     decisionHashBytes = None, decisionInitMsg = None, decisionPub = None, validatedInitHashes = [], sentEcho = False,
     sentRequestRecover = False, requestedRecover = (\<lambda>_. None), requestRecoverTimer = False, binCons = GenerateNewItem,
     sortedInitHashes = [], initTimer = False, echoTimer = False, echoTimeOutState = TimeoutNotSent, initTimeoutState = TimeoutNotSent\<rparr>"

definition mvHasDecided :: "('p, 'v, 'h) MvCons1 \<Rightarrow> bool res" where
  "mvHasDecided sc =
     (if Decided (binCons sc) = -1 then Inr False
      else if Decided (binCons sc) = 0 then Inr True
      else if Decided (binCons sc) = 1 then Inr (decisionInitMsg sc \<noteq> None)
      else Inl (Panic ''invalid decided''))"

text \<open>The decision is the sender and the proposal, or nothing.\<close>

definition mvGetDecision :: "('p, 'v, 'h) MvCons1 \<Rightarrow> ('p option \<times> 'v) option res" where
  "mvGetDecision sc =
     (if Decided (binCons sc) = 0 then Inr None
      else if Decided (binCons sc) = 1 then
        (case decisionInitMsg sc of Some v \<Rightarrow> Inr (Some (decisionPub sc, v)) | None \<Rightarrow> Inl (Panic ''should have decided''))
      else Inl (Panic ''should have decided''))"

definition mvStopTimers :: "('p, 'v, 'h) MvCons1 \<Rightarrow> ('p, 'v, 'h) MvCons1" where
  "mvStopTimers sc = StopRecoverTimeout (sc\<lparr>initTimer := False, echoTimer := False\<rparr>)"

definition mvStart :: "('p, 'v, 'h) mv_config \<Rightarrow> ('p, 'v, 'h) MvCons1 \<Rightarrow> ('p, 'v, 'h) MvCons1 \<times> ('p, 'v, 'h) mv_out list" where
  "mvStart cfg sc =
     (let sc1 = sc\<lparr>rbStarted := True\<rparr>
      in if rbMemberLocal cfg then
           (let sc2 = (if isCoord cfg (rbMyPub cfg) then sc1\<lparr>rbNeedsProposal := True\<rparr> else sc1)
            in (sc2\<lparr>initTimer := True, initTimeoutState := TimeoutSent\<rparr>, [StartInitTimer]))
         else (sc1, []))"

definition mvItemGotProposal :: "'v \<Rightarrow> ('p, 'v, 'h) MvCons1 \<Rightarrow> ('p, 'v, 'h) mv_out list" where
  "mvItemGotProposal v sc = (if sentEcho sc then [] else [MvOut (BcastInit v)])"

definition checkEchoTimeoutPassed :: "('p, 'v, 'h) MvCons1 \<Rightarrow> ('p, 'v, 'h) MvCons1 \<times> bool" where
  "checkEchoTimeoutPassed sc =
     (if echoTimeOutState sc = TimeoutPassed \<or> CanSkipMvTimeout (binCons sc) then (sc\<lparr>initTimeoutState := TimeoutPassed\<rparr>, True)
      else (sc, False))"

definition checkInitTimeoutPassed :: "('p, 'v, 'h) MvCons1 \<Rightarrow> ('p, 'v, 'h) MvCons1 \<times> bool" where
  "checkInitTimeoutPassed sc = (let sc1 = fst (checkEchoTimeoutPassed sc) in (sc1, initTimeoutState sc1 = TimeoutPassed))"

definition mvBroadcastEcho :: "('p, 'v, 'h) mv_config \<Rightarrow> 'h \<Rightarrow> ('p, 'v, 'h) MvCons1 \<Rightarrow> ('p, 'v, 'h) MvCons1 \<times> ('p, 'v, 'h) mv_out list" where
  "mvBroadcastEcho cfg h sc =
     (sc\<lparr>sentEcho := True\<rparr>, if rbMemberLocal cfg \<and> echoMember cfg h then [MvOut (BcastEcho h)] else [])"

text \<open>\<^verbatim>\<open>checkSendEcho\<close>: an echo of the first proposal, and when the timeout has passed without one, of the zero hash together with
  the value 0 for round 1 of the binary consensus.\<close>

definition echoProposal :: "('p, 'v, 'h) mv_config \<Rightarrow> ('p, 'v, 'h) MvCons1 \<Rightarrow> ('p, 'v, 'h) MvCons1 \<times> ('p, 'v, 'h) mv_out list" where
  "echoProposal cfg sc =
     (if sentEcho sc then (sc, [])
      else (case sortedInitHashes sc of
              [] \<Rightarrow> (sc, [])
            | (pub, v) # _ \<Rightarrow>
                if waitForRndCoord cfg then
                  (case checkInitTimeoutPassed sc of (sc1, passed) \<Rightarrow>
                     if passed then mvBroadcastEcho cfg (GetHash cfg v) sc1 else (sc1, []))
                else mvBroadcastEcho cfg (GetHash cfg v) sc))"

definition echoZero ::
    "('p, 'v, 'h) mv_config \<Rightarrow> ('p, 'v, 'h) mv_state \<Rightarrow> ('p, 'v, 'h) mv_state \<times> ('p, 'v, 'h) mv_out list" where
  "echoZero cfg st =
     (case st of (sc, ms) \<Rightarrow>
        (case checkInitTimeoutPassed sc of (sc1, passed) \<Rightarrow>
           if passed \<and> \<not> sentEcho sc1 then
             (case SentProposal 0 True (mvBinMs ms) of (b, sent) \<Rightarrow>
                if sent then ((sc1, ms\<lparr>mvBinMs := b\<rparr>), [])
                else (case mvBroadcastEcho cfg (zeroHash cfg) sc1 of (sc2, outs) \<Rightarrow>
                        (case GetMVInitialRoundBroadcast False of (r, w) \<Rightarrow>
                           ((sc2, ms\<lparr>mvBinMs := b\<rparr>), outs @ [BinOut (BcastAux r w []) []]))))
           else ((sc1, ms), [])))"

definition checkSendEcho ::
    "('p, 'v, 'h) mv_config \<Rightarrow> ('p, 'v, 'h) mv_state \<Rightarrow> ('p, 'v, 'h) mv_state \<times> ('p, 'v, 'h) mv_out list" where
  "checkSendEcho cfg st =
     (case st of (sc, ms) \<Rightarrow>
        (case echoProposal cfg sc of (sc1, outs1) \<Rightarrow>
           (case echoZero cfg (sc1, ms) of (st2, outs2) \<Rightarrow> (st2, outs1 @ outs2))))"

text \<open>
  \<^verbatim>\<open>checkEchoState\<close> visits the stored echoes in the order of a Go map: \<open>hs\<close> below lists their hashes in the order of the visit.
  Nothing is assumed of \<open>hs\<close> in what is shown, so all orders are covered.
\<close>

text \<open>The message for round 1 of the binary consensus that supports 1, once, and with the echoes as proofs if configured.\<close>

definition supportOne ::
    "('p, 'v, 'h) mv_config \<Rightarrow> ('p, 'v, 'h) mvMessageState \<Rightarrow> (('p, 'v, 'h) mvMessageState \<times> ('p, 'v, 'h) mv_out list) res" where
  "supportOne cfg ms =
     (case SentProposal 0 True (mvBinMs ms) of (b, sent) \<Rightarrow>
        let ms1 = ms\<lparr>mvBinMs := b\<rparr>
        in if sent then Inr (ms1, [])
           else (case GetMVInitialRoundBroadcast True of (r, w) \<Rightarrow>
             if rbMemberLocal cfg \<and> randMember (binConfig cfg) r w then
               (if mvIncludeProofs cfg then
                  (case generateMvProofs cfg (rbMemberCount cfg - rbFaultCount cfg) ms1 of
                     Inl e \<Rightarrow> Inl (Panic ''generateMvProofs'')
                   | Inr (ms2, prfs) \<Rightarrow> Inr (ms2, [BinOut (BcastAux r w []) prfs]))
                else Inr (ms1, [BinOut (BcastAux r w []) []]))
             else Inr (ms1, [])))"

text \<open>The decision of the hash: its proposal is delivered, or the recovery of the proposal is started.\<close>

definition decideHash ::
    "('p, 'v, 'h) mv_config \<Rightarrow> 'h \<Rightarrow> ('p, 'v, 'h) MvCons1 \<Rightarrow> (('p, 'v, 'h) MvCons1 \<times> ('p, 'v, 'h) mv_out list) res" where
  "decideHash cfg h sc =
     (if decisionInitMsg sc \<noteq> None then
        (if decisionHashBytes sc \<noteq> Some h then Inl (Panic ''Got different decisions'') else Inr (sc, []))
      else if \<not> validHashLen cfg h then Inl (Panic ''Got invalid hash len'')
      else
        (let sc1 = sc\<lparr>decisionHashBytes := Some h\<rparr>
         in case map_of (validatedInitHashes sc1) h of
              Some (pub, v) \<Rightarrow> Inr (mvStopTimers (sc1\<lparr>decisionInitMsg := Some v, decisionPub := Some pub\<rparr>), [])
            | None \<Rightarrow> (case StartRecoverTimeout sc1 of (sc2, outs) \<Rightarrow> Inr (sc2, map MvOut outs))))"

definition echoHash ::
    "('p, 'v, 'h) mv_config \<Rightarrow> 'h \<Rightarrow> ('p, 'v, 'h) mv_state \<Rightarrow> (('p, 'v, 'h) mv_state \<times> ('p, 'v, 'h) mv_out list) res" where
  "echoHash cfg h st =
     (case st of (sc, ms) \<Rightarrow>
        if rbMemberCount cfg - rbFaultCount cfg \<le> getSigCountMsg (rbSms ms) (MvEcho 0 h) \<and> h \<noteq> zeroHash cfg then
          bind_res (setEchoHash h (ms\<lparr>mvBinMs := SetMv1Valid (mvBinMs ms)\<rparr>)) (\<lambda>ms1.
            bind_res (supportOne cfg ms1) (\<lambda>(ms2, outs1).
              bind_res (decideHash cfg h (sc\<lparr>echoTimeOutState := TimeoutPassed\<rparr>)) (\<lambda>(sc2, outs2).
                Inr ((sc2, ms2), outs1 @ outs2))))
        else Inr (st, []))"

fun echoLoop ::
    "('p, 'v, 'h) mv_config \<Rightarrow> 'h list \<Rightarrow> ('p, 'v, 'h) mv_state \<Rightarrow> (('p, 'v, 'h) mv_state \<times> ('p, 'v, 'h) mv_out list) res" where
  "echoLoop cfg [] st = Inr (st, [])"
| "echoLoop cfg (h # hs) st =
     bind_res (echoHash cfg h st) (\<lambda>(st1, outs1). bind_res (echoLoop cfg hs st1) (\<lambda>(st2, outs2). Inr (st2, outs1 @ outs2)))"

definition sendEchoTimeout :: "('p, 'v, 'h) MvCons1 \<Rightarrow> (('p, 'v, 'h) MvCons1 \<times> ('p, 'v, 'h) mv_out list) res" where
  "sendEchoTimeout sc =
     (if echoTimeOutState sc = TimeoutNotSent then
        bind_res (mvHasDecided sc) (\<lambda>dec.
          if \<not> dec \<and> \<not> CanSkipMvTimeout (binCons sc)
          then Inr (sc\<lparr>echoTimeOutState := TimeoutSent, echoTimer := True\<rparr>, [StartEchoTimer]) else Inr (sc, []))
      else Inr (sc, []))"

text \<open>After the echo timeout the value 0 is valid for round 1, and is supported if nothing was supported before.\<close>

definition supportZero ::
    "('p, 'v, 'h) mv_config \<Rightarrow> ('p, 'v, 'h) mv_state \<Rightarrow> ('p, 'v, 'h) mv_state \<times> ('p, 'v, 'h) mv_out list" where
  "supportZero cfg st =
     (case st of (sc, ms) \<Rightarrow>
        (case checkEchoTimeoutPassed sc of (sc1, passed) \<Rightarrow>
           if passed then
             (case SentProposal 0 True (mvBinMs ms) of (b, sent) \<Rightarrow>
                (case GetMVInitialRoundBroadcast False of (r, w) \<Rightarrow>
                   ((sc1, ms\<lparr>mvBinMs := SetMv0Valid b\<rparr>),
                    if \<not> sent \<and> rbMemberLocal cfg \<and> randMember (binConfig cfg) r w then [BinOut (BcastAux r w []) []] else [])))
           else ((sc1, ms), [])))"

text \<open>The rounds of the binary consensus, from round 1.\<close>

definition runRounds ::
    "('p, 'v, 'h) mv_config \<Rightarrow> ('p, 'v, 'h) mv_state \<Rightarrow> (('p, 'v, 'h) mv_state \<times> ('p, 'v, 'h) mv_out list) res option" where
  "runRounds cfg st =
     (if Decided (fst (binState st)) = -1 then
        map_option (\<lambda>r. bind_res r (\<lambda>(b, outs). Inr (setBin b st, map (\<lambda>x. BinOut x []) outs)))
          (checkRounds (binConfig cfg) (rbMemberCount cfg - rbFaultCount cfg) (rbFaultCount cfg) 1 (binState st) [])
      else Some (Inr (st, [])))"

definition checkEnoughBin :: "int \<Rightarrow> ('p, 'v, 'h) mvMessageState \<Rightarrow> bool" where
  "checkEnoughBin nmt ms \<longleftrightarrow> nmt \<le> GetValidMessageCount 1 (mvBinMs ms)"

text \<open>The part of \<^verbatim>\<open>checkEchoState\<close> before the rounds.\<close>

definition echoPhase ::
    "('p, 'v, 'h) mv_config \<Rightarrow> 'h list \<Rightarrow> ('p, 'v, 'h) mv_state \<Rightarrow> (('p, 'v, 'h) mv_state \<times> ('p, 'v, 'h) mv_out list) res" where
  "echoPhase cfg hs st =
     bind_res (echoLoop cfg hs st) (\<lambda>((sc1, ms1), outs1).
       bind_res (sendEchoTimeout sc1) (\<lambda>(sc2, outs2).
         case supportZero cfg (sc2, ms1) of (st3, outs3) \<Rightarrow> Inr (st3, outs1 @ outs2 @ outs3)))"

definition checkEchoState ::
    "('p, 'v, 'h) mv_config \<Rightarrow> 'h list \<Rightarrow> ('p, 'v, 'h) mv_state \<Rightarrow> (('p, 'v, 'h) mv_state \<times> ('p, 'v, 'h) mv_out list) res option" where
  "checkEchoState cfg hs st =
     (let nmt = rbMemberCount cfg - rbFaultCount cfg
      in if Decided (binCons (fst st)) = 0 then Some (Inr (st, []))
         else if nmt \<le> getSigCountMsgID (rbSms (snd st)) (EchoID 0) \<or> checkEnoughBin nmt (snd st) then
           (case echoPhase cfg hs st of
              Inl e \<Rightarrow> Some (Inl e)
            | Inr (st1, outs1) \<Rightarrow>
                map_option (\<lambda>r. bind_res r (\<lambda>((sc2, ms2), outs2).
                    Inr ((if Decided (binCons sc2) > -1 then mvStopTimers sc2 else sc2, ms2), outs1 @ outs2)))
                  (runRounds cfg st1))
         else Some (Inr (st, [])))"

section \<open>The cases of \<open>ProcessMessage\<close>\<close>

text \<open>Run the echo phase and the rounds after another step.\<close>

definition thenEchoState ::
    "('p, 'v, 'h) mv_config \<Rightarrow> 'h list \<Rightarrow> ('p, 'v, 'h) mv_state \<times> ('p, 'v, 'h) mv_out list
     \<Rightarrow> (('p, 'v, 'h) mv_state \<times> ('p, 'v, 'h) mv_out list) res option" where
  "thenEchoState cfg hs r =
     map_option (\<lambda>x. bind_res x (\<lambda>(st, outs). Inr (st, snd r @ outs))) (checkEchoState cfg hs (fst r))"

text \<open>
  \<^verbatim>\<open>sort.Sort\<close> on the identifiers of the senders: any sorted permutation, \<open>l'\<close> when it is one.
\<close>

definition sortVRF :: "('p, 'v, 'h) mv_config \<Rightarrow> ('p \<times> 'v) list \<Rightarrow> ('p \<times> 'v) list \<Rightarrow> ('p \<times> 'v) list" where
  "sortVRF cfg l' l =
     (if mset l' = mset l \<and> sorted (map (VRFID cfg \<circ> fst) l') then l' else sort_key (VRFID cfg \<circ> fst) l)"

definition mvProcessInit ::
    "('p, 'v, 'h) mv_config \<Rightarrow> 'h list \<Rightarrow> ('p \<times> 'v) list \<Rightarrow> 'p \<Rightarrow> 'v \<Rightarrow> ('p, 'v, 'h) mv_state
     \<Rightarrow> (('p, 'v, 'h) mv_state \<times> ('p, 'v, 'h) mv_out list) res option" where
  "mvProcessInit cfg hs l' pub v st =
     (case st of (sc, ms) \<Rightarrow>
        if \<not> isCoord cfg pub then Some (Inl (Panic ''should have handled this in GotMsg''))
        else
          (let sc1 = sc\<lparr>validatedInitHashes := AList.update (GetHash cfg v) (pub, v) (validatedInitHashes sc),
                        sortedInitHashes := sortVRF cfg l' (sortedInitHashes sc @ [(pub, v)])\<rparr>
           in map_option (\<lambda>r. bind_res r (\<lambda>((sc2, ms2), outs).
                  case SendRecover sc2 of (sc3, outs') \<Rightarrow> Inr ((sc3, ms2), outs @ map MvOut outs')))
                (thenEchoState cfg hs (checkSendEcho cfg (sc1, ms)))))"

definition mvProcessEcho ::
    "('p, 'v, 'h) mv_config \<Rightarrow> 'h list \<Rightarrow> ('p, 'v, 'h) mv_state \<Rightarrow> (('p, 'v, 'h) mv_state \<times> ('p, 'v, 'h) mv_out list) res option" where
  "mvProcessEcho cfg hs st = checkEchoState cfg hs st"

definition mvProcessInitTimeout :: "('p, 'v, 'h) mv_config \<Rightarrow> ('p, 'v, 'h) mv_state \<Rightarrow> ('p, 'v, 'h) mv_state \<times> ('p, 'v, 'h) mv_out list" where
  "mvProcessInitTimeout cfg st =
     (case st of (sc, ms) \<Rightarrow>
        if Decided (binCons sc) > -1 then (st, []) else checkSendEcho cfg (sc\<lparr>initTimeoutState := TimeoutPassed\<rparr>, ms))"

definition mvProcessEchoTimeout ::
    "('p, 'v, 'h) mv_config \<Rightarrow> 'h list \<Rightarrow> ('p, 'v, 'h) mv_state \<Rightarrow> (('p, 'v, 'h) mv_state \<times> ('p, 'v, 'h) mv_out list) res option" where
  "mvProcessEchoTimeout cfg hs st =
     (case st of (sc, ms) \<Rightarrow>
        if Decided (binCons sc) > -1 then Some (Inr (st, [])) else checkEchoState cfg hs (sc\<lparr>echoTimeOutState := TimeoutPassed\<rparr>, ms))"

definition mvProcessRecoverTimeout :: "('p, 'v, 'h) mv_state \<Rightarrow> ('p, 'v, 'h) mv_state \<times> ('p, 'v, 'h) mv_out list" where
  "mvProcessRecoverTimeout st =
     (case st of (sc, ms) \<Rightarrow>
        if decisionInitMsg sc = None then (case BroadcastRequestRecover sc of (sc1, outs) \<Rightarrow> ((sc1, ms), map MvOut outs)) else (st, []))"

definition mvProcessRequestRecover :: "'h \<Rightarrow> nat \<Rightarrow> ('p, 'v, 'h) mv_state \<Rightarrow> ('p, 'v, 'h) mv_state \<times> ('p, 'v, 'h) mv_out list" where
  "mvProcessRequestRecover h chan st =
     (case st of (sc, ms) \<Rightarrow> (case GotRequestRecover h chan sc of (sc1, outs) \<Rightarrow> ((sc1, ms), map MvOut outs)))"

text \<open>A message or a timeout of the binary consensus: \<open>r\<close> is what the binary consensus returns.\<close>

definition mvProcessBin ::
    "('p, 'v, 'h) mv_config \<Rightarrow> 'h list \<Rightarrow> ('p bc_state \<times> 'p out list \<times> bool \<times> bool) res option \<Rightarrow> ('p, 'v, 'h) mv_state
     \<Rightarrow> (('p, 'v, 'h) mv_state \<times> ('p, 'v, 'h) mv_out list) res option" where
  "mvProcessBin cfg hs r st =
     (case r of None \<Rightarrow> None
      | Some (Inl e) \<Rightarrow> Some (Inl e)
      | Some (Inr (b, outs, pr, fw)) \<Rightarrow> thenEchoState cfg hs (setBin b st, map (\<lambda>x. BinOut x []) outs))"

definition mvProcessAux ::
    "('p, 'v, 'h) mv_config \<Rightarrow> 'h list \<Rightarrow> nat \<Rightarrow> ('p, 'v, 'h) mv_state \<Rightarrow> (('p, 'v, 'h) mv_state \<times> ('p, 'v, 'h) mv_out list) res option" where
  "mvProcessAux cfg hs round st = mvProcessBin cfg hs (ProcessAux (binConfig cfg) round (binState st)) st"

definition mvProcessBinTimeout ::
    "('p, 'v, 'h) mv_config \<Rightarrow> 'h list \<Rightarrow> nat \<Rightarrow> ('p, 'v, 'h) mv_state \<Rightarrow> (('p, 'v, 'h) mv_state \<times> ('p, 'v, 'h) mv_out list) res option" where
  "mvProcessBinTimeout cfg hs round st = mvProcessBin cfg hs (ProcessTimeout (binConfig cfg) round (binState st)) st"

end
