(* ===== verification/MvCons1_System.thy ===== *)
theory MvCons1_System
  imports MvCons1 BinCons1_Client RbBcast2_System
begin

text \<open>
  Runs of the multi-value consensus by many processes, fewer than a third of the members faulty, on the same assumptions as for the
  binary consensus and the broadcasts. Each run is also a run of the binary consensus, so that agreement on the binary decision carries
  over, and with the quorums of echoes gives agreement on the decided proposal.
\<close>

section \<open>The system\<close>

record ('p, 'v, 'h) mv_system =
  mvRb :: "('p, 'v, 'h) rb_system" \<comment> \<open>members, faulty members, coordinators, hash function\<close>
  mvZero :: 'h
  mvConfigs :: "'p \<Rightarrow> ('p, 'v, 'h) mv_config"

record ('p, 'v, 'h) mv_global =
  mvNodes :: "'p \<Rightarrow> ('p, 'v, 'h) mv_state"
  mvEchoed :: "('p \<times> 'h) set"
  mvInited :: "('p \<times> 'v) set"
  mvAux :: "('p \<times> nat \<times> bool) set"
  mvProposals :: "('p \<times> 'v) set"

abbreviation mvFaulty :: "('p, 'v, 'h) mv_system \<Rightarrow> 'p set" where
  "mvFaulty sys \<equiv> rbFaulty (mvRb sys)"

text \<open>The configurations agree, and a hash has the right length.\<close>

definition wf_mv :: "('p, 'v, 'h) mv_system \<Rightarrow> bool" where
  "wf_mv sys \<longleftrightarrow> wf_rb (mvRb sys) \<and>
     (\<forall>p. rbMemberCount (mvConfigs sys p) = int (card (rbMembers (mvRb sys))) \<and> rbFaultCount (mvConfigs sys p) = rbT (mvRb sys) \<and>
          isCoord (mvConfigs sys p) = rbCoord (mvRb sys) \<and> GetHash (mvConfigs sys p) = rbHash (mvRb sys) \<and> zeroHash (mvConfigs sys p) = mvZero sys \<and>
          (\<forall>v. validHashLen (mvConfigs sys p) (rbHash (mvRb sys) v)) \<and>
          memberCount (binConfig (mvConfigs sys p)) = int (card (rbMembers (mvRb sys))) \<and> faultCount (binConfig (mvConfigs sys p)) = rbT (mvRb sys))"

definition mvInit :: "('p, 'v, 'h) mv_global" where
  "mvInit = \<lparr>mvNodes = \<lambda>_. (mvGenerateNewItem, mvNewMessageState), mvEchoed = {}, mvInited = {}, mvAux = {}, mvProposals = {}\<rparr>"

text \<open>The signatures that come with the outputs.\<close>

definition mvOuts :: "('p, 'v, 'h) mv_out list \<Rightarrow> ('v, 'h) rb_out list" where
  "mvOuts outs = concat (map (\<lambda>x. case x of MvOut y \<Rightarrow> [y] | _ \<Rightarrow> []) outs)"

definition binOuts :: "('p, 'v, 'h) mv_out list \<Rightarrow> 'p out list" where
  "binOuts outs = concat (map (\<lambda>x. case x of BinOut y _ \<Rightarrow> [y] | _ \<Rightarrow> []) outs)"

definition mvSend :: "'p \<Rightarrow> ('p, 'v, 'h) mv_state \<Rightarrow> ('p, 'v, 'h) mv_out list \<Rightarrow> ('p, 'v, 'h) mv_global \<Rightarrow> ('p, 'v, 'h) mv_global" where
  "mvSend p st outs g = g\<lparr>mvNodes := (mvNodes g)(p := st), mvEchoed := mvEchoed g \<union> echoesOf p (mvOuts outs),
     mvInited := mvInited g \<union> initsOf p (mvOuts outs), mvAux := mvAux g \<union> signedBy p (binOuts outs)\<rparr>"

text \<open>The stored echoes may be visited in any order \<open>hs\<close>; that some are left out is allowed as well.\<close>

inductive mv_step :: "('p, 'v, 'h) mv_system \<Rightarrow> ('p, 'v, 'h) mv_global \<Rightarrow> ('p, 'v, 'h) mv_global \<Rightarrow> bool" for sys where
  start: "p \<notin> mvFaulty sys \<Longrightarrow> mvNodes g p = (sc, ms) \<Longrightarrow> mvStart (mvConfigs sys p) sc = (sc', outs) \<Longrightarrow> mv_step sys g (mvSend p (sc', ms) outs g)"
| propose: "p \<notin> mvFaulty sys \<Longrightarrow> mvNodes g p = (sc, ms) \<Longrightarrow>
     mv_step sys g ((mvSend p (sc, ms) (mvItemGotProposal v sc) g)\<lparr>mvProposals := insert (p, v) (mvProposals g)\<rparr>)"
| init: "p \<notin> mvFaulty sys \<Longrightarrow> mvNodes g p = (sc, ms) \<Longrightarrow> plain_sigs sigs \<Longrightarrow>
     (\<And>si. si \<in> set sigs \<Longrightarrow> chk si \<Longrightarrow> (si_pub si, v) \<in> mvInited g) \<Longrightarrow>
     mvGotInit chk (mvConfigs sys p) r v sigs ms = (ms', Inr pub) \<Longrightarrow>
     mvProcessInit (mvConfigs sys p) hs l' pub v (sc, ms') = Some (Inr (st', outs)) \<Longrightarrow> mv_step sys g (mvSend p st' outs g)"
| init_reject: "p \<notin> mvFaulty sys \<Longrightarrow> mvNodes g p = (sc, ms) \<Longrightarrow> plain_sigs sigs \<Longrightarrow>
     mvGotInit chk (mvConfigs sys p) r v sigs ms = (ms', Inl e) \<Longrightarrow> mv_step sys g (mvSend p (sc, ms') [] g)"
| got_echo: "p \<notin> mvFaulty sys \<Longrightarrow> mvNodes g p = (sc, ms) \<Longrightarrow> plain_sigs sigs \<Longrightarrow>
     (\<And>si. si \<in> set sigs \<Longrightarrow> chk si \<Longrightarrow> si_pub si \<in> rbMembers (mvRb sys) \<and> (si_pub si, h) \<in> mvEchoed g) \<Longrightarrow>
     mvGotEcho chk r h sigs ms = (ms', res) \<Longrightarrow> mv_step sys g (mvSend p (sc, ms') [] g)"
| got_bin: "p \<notin> mvFaulty sys \<Longrightarrow> mvNodes g p = (sc, ms) \<Longrightarrow> plain_sigs sigs \<Longrightarrow>
     (\<And>si. si \<in> set sigs \<Longrightarrow> chk si \<Longrightarrow> si_pub si \<in> rbMembers (mvRb sys) \<and> (si_pub si, r, v) \<in> mvAux g) \<Longrightarrow>
     mvGotBin chk r v sigs ms = (ms', res) \<Longrightarrow> mv_step sys g (mvSend p (sc, ms') [] g)"
| echo: "p \<notin> mvFaulty sys \<Longrightarrow>
     mvProcessEcho (mvConfigs sys p) hs (mvNodes g p) = Some (Inr (st', outs)) \<Longrightarrow> mv_step sys g (mvSend p st' outs g)"
| aux: "p \<notin> mvFaulty sys \<Longrightarrow>
     mvProcessAux (mvConfigs sys p) hs r (mvNodes g p) = Some (Inr (st', outs)) \<Longrightarrow> mv_step sys g (mvSend p st' outs g)"
| bin_timeout: "p \<notin> mvFaulty sys \<Longrightarrow>
     mvProcessBinTimeout (mvConfigs sys p) hs r (mvNodes g p) = Some (Inr (st', outs)) \<Longrightarrow> mv_step sys g (mvSend p st' outs g)"
| echo_timeout: "p \<notin> mvFaulty sys \<Longrightarrow>
     mvProcessEchoTimeout (mvConfigs sys p) hs (mvNodes g p) = Some (Inr (st', outs)) \<Longrightarrow> mv_step sys g (mvSend p st' outs g)"
| init_timeout: "p \<notin> mvFaulty sys \<Longrightarrow> mvProcessInitTimeout (mvConfigs sys p) (mvNodes g p) = (st', outs) \<Longrightarrow> mv_step sys g (mvSend p st' outs g)"
| recover_timeout: "p \<notin> mvFaulty sys \<Longrightarrow> mvProcessRecoverTimeout (mvNodes g p) = (st', outs) \<Longrightarrow> mv_step sys g (mvSend p st' outs g)"
| request: "p \<notin> mvFaulty sys \<Longrightarrow> mvProcessRequestRecover h c (mvNodes g p) = (st', outs) \<Longrightarrow> mv_step sys g (mvSend p st' outs g)"
| byz_echo: "p \<in> mvFaulty sys \<Longrightarrow> mv_step sys g (g\<lparr>mvEchoed := insert (p, h) (mvEchoed g)\<rparr>)"
| byz_init: "p \<in> mvFaulty sys \<Longrightarrow> mv_step sys g (g\<lparr>mvInited := insert (p, v) (mvInited g)\<rparr>)"
| byz_aux: "p \<in> mvFaulty sys \<Longrightarrow> mv_step sys g (g\<lparr>mvAux := insert (p, r, v) (mvAux g)\<rparr>)"

inductive mv_reachable :: "('p, 'v, 'h) mv_system \<Rightarrow> ('p, 'v, 'h) mv_global \<Rightarrow> bool" for sys where
  init: "mv_reachable sys mvInit"
| step: "mv_reachable sys g \<Longrightarrow> mv_step sys g g' \<Longrightarrow> mv_reachable sys g'"

section \<open>The invariant of a correct process\<close>

text \<open>What a correct process may echo: the zero hash, or the hash of a proposal that a coordinator signed.\<close>

definition echoable :: "('p, 'v, 'h) mv_system \<Rightarrow> ('p \<times> 'v) set \<Rightarrow> 'h \<Rightarrow> bool" where
  "echoable sys I h \<longleftrightarrow> h = mvZero sys \<or> (\<exists>pub v. rbCoord (mvRb sys) pub \<and> (pub, v) \<in> I \<and> h = rbHash (mvRb sys) v)"

definition mvSigned :: "('p, 'v, 'h) mv_system \<Rightarrow> ('p \<times> 'h) set \<Rightarrow> ('p \<times> 'v) set \<Rightarrow> ('p \<times> 'v) set \<Rightarrow> 'p \<Rightarrow> bool \<Rightarrow> bool" where
  "mvSigned sys E I P p sent \<longleftrightarrow>
     (\<forall>h. (p, h) \<in> E \<longrightarrow> sent \<and> echoable sys I h) \<and>
     (\<forall>h h'. (p, h) \<in> E \<longrightarrow> (p, h') \<in> E \<longrightarrow> h = h') \<and> (\<forall>v. (p, v) \<in> I \<longrightarrow> (p, v) \<in> P)"

definition mvNodeInv :: "('p, 'v, 'h) mv_system \<Rightarrow> ('p \<times> 'h) set \<Rightarrow> ('p \<times> 'v) set \<Rightarrow> ('p \<times> 'v) set \<Rightarrow> 'p \<Rightarrow> ('p, 'v, 'h) mv_state \<Rightarrow> bool" where
  "mvNodeInv sys E I P p st \<longleftrightarrow>
     (case st of (sc, ms) \<Rightarrow> storeInv (mvRb sys) E ms \<and> itemInv (mvRb sys) I (supportedEchoHash ms) sc \<and> mvSigned sys E I P p (sentEcho sc) \<and>
        (\<forall>(pub, v) \<in> set (sortedInitHashes sc). rbCoord (mvRb sys) pub \<and> (pub, v) \<in> I))"

definition mvInv :: "('p, 'v, 'h) mv_system \<Rightarrow> ('p, 'v, 'h) mv_global \<Rightarrow> bool" where
  "mvInv sys g \<longleftrightarrow> (\<forall>p. p \<notin> mvFaulty sys \<longrightarrow> mvNodeInv sys (mvEchoed g) (mvInited g) (mvProposals g) p (mvNodes g p))"

lemma echoable_mono: "echoable sys I h \<Longrightarrow> I \<subseteq> I' \<Longrightarrow> echoable sys I' h"
  unfolding echoable_def by blast

lemma mvSigned_mono:
  assumes "mvSigned sys E I P p s" "P \<subseteq> P'" "I \<subseteq> I'" "\<And>h. (p, h) \<in> E' \<Longrightarrow> (p, h) \<in> E" "\<And>v. (p, v) \<in> I' \<Longrightarrow> (p, v) \<in> I"
  shows "mvSigned sys E' I' P' p s"
  using assms echoable_mono [OF _ assms(3)] unfolding mvSigned_def by (meson subsetD)

lemma mvNodeInv_mono:
  assumes "mvNodeInv sys E I P p st" "E \<subseteq> E'" "I \<subseteq> I'" "P \<subseteq> P'" "\<And>h. (p, h) \<in> E' \<Longrightarrow> (p, h) \<in> E" "\<And>v. (p, v) \<in> I' \<Longrightarrow> (p, v) \<in> I"
  shows "mvNodeInv sys E' I' P' p st"
proof -
  obtain sc ms where st: "st = (sc, ms)" by (cases st)
  have i: "storeInv (mvRb sys) E ms" "itemInv (mvRb sys) I (supportedEchoHash ms) sc" "mvSigned sys E I P p (sentEcho sc)"
    "\<forall>(pub, v) \<in> set (sortedInitHashes sc). rbCoord (mvRb sys) pub \<and> (pub, v) \<in> I"
    using assms(1) by (simp_all add: mvNodeInv_def st)
  have "\<forall>(pub, v) \<in> set (sortedInitHashes sc). rbCoord (mvRb sys) pub \<and> (pub, v) \<in> I'" using i(4) assms(3) by fast
  then show ?thesis unfolding mvNodeInv_def st prod.case
    using storeInv_mono [OF i(1) assms(2)] itemInv_mono [OF i(2) assms(3)] mvSigned_mono [OF i(3) assms(4,3,5,6)] by (intro conjI)
qed

lemma mvNodeInvD:
  assumes "mvNodeInv sys E I P p (sc, ms)"
  shows "storeInv (mvRb sys) E ms" "itemInv (mvRb sys) I (supportedEchoHash ms) sc" "mvSigned sys E I P p (sentEcho sc)"
    "\<forall>(pub, v) \<in> set (sortedInitHashes sc). rbCoord (mvRb sys) pub \<and> (pub, v) \<in> I"
  using assms by (simp_all add: mvNodeInv_def)

lemma mvInv_once: "mvInv sys g \<Longrightarrow> onceEach (mvRb sys) (mvEchoed g)"
  unfolding onceEach_def mvInv_def mvNodeInv_def mvSigned_def by (fastforce split: prod.splits)

section \<open>Steps of one process\<close>

lemma mvOuts_simps [simp]:
  "mvOuts [] = []" "mvOuts (a @ b) = mvOuts a @ mvOuts b" "mvOuts (MvOut y # l) = y # mvOuts l" "mvOuts (BinOut x e # l) = mvOuts l"
  "mvOuts (StartInitTimer # l) = mvOuts l" "mvOuts (StartEchoTimer # l) = mvOuts l"
  by (simp_all add: mvOuts_def)

lemma binOuts_simps [simp]:
  "binOuts [] = []" "binOuts (a @ b) = binOuts a @ binOuts b" "binOuts (MvOut y # l) = binOuts l" "binOuts (BinOut x e # l) = x # binOuts l"
  "binOuts (StartInitTimer # l) = binOuts l" "binOuts (StartEchoTimer # l) = binOuts l"
  by (simp_all add: binOuts_def)

lemma outs_map [simp]: "mvOuts (map MvOut l) = l" "binOuts (map MvOut l) = []" "mvOuts (map (\<lambda>x. BinOut x []) k) = []" "binOuts (map (\<lambda>x. BinOut x []) k) = k"
  by (induction l; simp)+ (induction k; simp)+

lemma outsOf_Nil [simp]: "echoesOf p [] = {}" "initsOf p [] = {}" "signedBy p [] = {}"
  by (simp_all add: echoesOf_def initsOf_def signedBy_def)

text \<open>Which values the reduction may declare valid: always 0, and 1 when a proposal has a quorum of echoes.\<close>

definition mvBase :: "('p, 'v, 'h) mv_system \<Rightarrow> ('p \<times> 'h) set \<Rightarrow> bool set \<Rightarrow> bool" where
  "mvBase sys E B \<longleftrightarrow> False \<in> B \<and> ((\<exists>h. h \<noteq> mvZero sys \<and> echoQuorum (mvRb sys) E h) \<longrightarrow> True \<in> B)"

lemma mvBase_mono: "mvBase sys E' B \<Longrightarrow> E \<subseteq> E' \<Longrightarrow> mvBase sys E B"
  using echoQuorum_mono [of "mvRb sys" E _ E'] unfolding mvBase_def by metis

text \<open>The invariant is kept, no init message is sent, and the binary consensus is used as it may be.\<close>

definition mvStepOk ::
    "('p, 'v, 'h) mv_system \<Rightarrow> ('p \<times> 'h) set \<Rightarrow> ('p \<times> 'v) set \<Rightarrow> ('p \<times> 'v) set \<Rightarrow> 'p \<Rightarrow> ('p, 'v, 'h) mv_state \<Rightarrow>
     ('p, 'v, 'h) mv_out list \<Rightarrow> ('p, 'v, 'h) mv_state \<Rightarrow> bool" where
  "mvStepOk sys E I P p st outs st' \<longleftrightarrow>
     mvNodeInv sys (E \<union> echoesOf p (mvOuts outs)) I P p st' \<and> initsOf p (mvOuts outs) = {} \<and>
     (\<forall>B. mvBase sys (E \<union> echoesOf p (mvOuts outs)) B \<longrightarrow>
        binMoves (binConfig (mvConfigs sys p)) B (binState st) (binOuts outs) (binState st'))"

lemma mvStepOk_trans:
  assumes "mvStepOk sys E I P p st o1 st1" "mvStepOk sys (E \<union> echoesOf p (mvOuts o1)) I P p st1 o2 st2"
  shows "mvStepOk sys E I P p st (o1 @ o2) st2"
proof -
  let ?E1 = "E \<union> echoesOf p (mvOuts o1)" and ?E2 = "E \<union> echoesOf p (mvOuts (o1 @ o2))"
  have eq: "?E1 \<union> echoesOf p (mvOuts o2) = ?E2" by (simp add: Un_assoc)
  have "binMoves (binConfig (mvConfigs sys p)) B (binState st) (binOuts (o1 @ o2)) (binState st2)" if b: "mvBase sys ?E2 B" for B
  proof -
    have "mvBase sys ?E1 B" using mvBase_mono [OF b] by auto
    then have "binMoves (binConfig (mvConfigs sys p)) B (binState st) (binOuts o1) (binState st1)"
      "binMoves (binConfig (mvConfigs sys p)) B (binState st1) (binOuts o2) (binState st2)"
      using assms b unfolding mvStepOk_def eq by blast+
    then show ?thesis by (simp add: binMoves.trans)
  qed
  then show ?thesis using assms unfolding mvStepOk_def eq by simp
qed

lemma mvStepOk_refl: "mvNodeInv sys E I P p st \<Longrightarrow> mvStepOk sys E I P p st [] st"
  by (simp add: mvStepOk_def binMoves.refl)

text \<open>Steps that do not touch the binary consensus and send nothing that is signed.\<close>

lemma mvStepOk_quiet:
  assumes "mvNodeInv sys E I P p st'" "binState st' = binState st" "echoesOf p (mvOuts outs) = {}" "initsOf p (mvOuts outs) = {}" "binOuts outs = []"
  shows "mvStepOk sys E I P p st outs st'"
  using assms by (simp add: mvStepOk_def binMoves.refl)

text \<open>Changes of the item that the invariant does not look at.\<close>

definition mvSame :: "('p, 'v, 'h) MvCons1 \<Rightarrow> ('p, 'v, 'h) MvCons1 \<Rightarrow> bool" where
  "mvSame sc sc' \<longleftrightarrow> validatedInitHashes sc' = validatedInitHashes sc \<and> sentEcho sc' = sentEcho sc \<and> decisionHashBytes sc' = decisionHashBytes sc \<and>
     decisionInitMsg sc' = decisionInitMsg sc \<and> decisionPub sc' = decisionPub sc \<and> binCons sc' = binCons sc \<and>
     sortedInitHashes sc' = sortedInitHashes sc"

lemma mvNodeInv_same: "mvNodeInv sys E I P p (sc, ms) \<Longrightarrow> mvSame sc sc' \<Longrightarrow> mvNodeInv sys E I P p (sc', ms)"
  by (simp add: mvNodeInv_def itemInv_def mvSame_def)

lemma mvNodeInv_bin: "mvNodeInv sys E I P p (sc, ms) \<Longrightarrow> mvNodeInv sys E I P p (sc, ms\<lparr>mvBinMs := b\<rparr>)"
  by (simp add: mvNodeInv_def storeInv_def wf_rbms_def)

lemma more_binCons: "RbBcast1.more sc' = RbBcast1.more sc \<Longrightarrow> binCons sc' = binCons sc \<and> sortedInitHashes sc' = sortedInitHashes sc"
  by (cases sc; cases sc') simp

lemma rbKeeps_mvSame: "rbKeeps sc sc' \<Longrightarrow> mvSame sc sc'"
  using more_binCons by (auto simp: rbKeeps_def mvSame_def)

lemma timeoutPassed_same: "mvSame sc (fst (checkEchoTimeoutPassed sc))" "mvSame sc (fst (checkInitTimeoutPassed sc))"
  by (auto simp: checkInitTimeoutPassed_def checkEchoTimeoutPassed_def mvSame_def Let_def)

lemma mvStopTimers_same: "mvSame sc (mvStopTimers sc)"
  by (simp add: mvStopTimers_def StopRecoverTimeout_def mvSame_def)

lemma mvSame_trans: "mvSame a b \<Longrightarrow> mvSame b c \<Longrightarrow> mvSame a c"
  by (simp add: mvSame_def)

lemma mvSame_refl [simp]: "mvSame sc sc"
  by (simp add: mvSame_def)

text \<open>The echo of a process.\<close>

lemma mvBroadcastEcho_inv:
  assumes inv: "mvNodeInv sys E I P p (sc, ms)" and ns: "\<not> sentEcho sc" and h: "echoable sys I h"
    and b: "mvBroadcastEcho cfg h sc = (sc', outs)"
  shows "mvNodeInv sys (E \<union> echoesOf p (mvOuts outs)) I P p (sc', ms)" "initsOf p (mvOuts outs) = {}" "binOuts outs = []" "binCons sc' = binCons sc"
proof -
  note i = mvNodeInvD [OF inv]
  have no: "(p, h') \<notin> E" for h' using i(3) ns by (auto simp: mvSigned_def)
  have sc': "sc' = sc\<lparr>sentEcho := True\<rparr>" and o: "outs = [MvOut (BcastEcho h)] \<or> outs = []" using b by (auto simp: mvBroadcastEcho_def split: if_splits)
  show "initsOf p (mvOuts outs) = {}" "binOuts outs = []" "binCons sc' = binCons sc" using o sc' by (auto simp: initsOf_def)
  have e: "echoesOf p (mvOuts outs) \<subseteq> {(p, h)}" using o by (auto simp: echoesOf_def)
  have "h' = h" if "(p, h') \<in> E \<union> echoesOf p (mvOuts outs)" for h' using that no e by auto
  then have "mvSigned sys (E \<union> echoesOf p (mvOuts outs)) I P p True"
    using i(3) h unfolding mvSigned_def by metis
  moreover have "storeInv (mvRb sys) (E \<union> echoesOf p (mvOuts outs)) ms" using storeInv_mono [OF i(1)] by simp
  ultimately show "mvNodeInv sys (E \<union> echoesOf p (mvOuts outs)) I P p (sc', ms)" using i(2,4) sc' by (simp add: mvNodeInv_def itemInv_def)
qed

lemma echoProposal_ok:
  assumes inv: "mvNodeInv sys E I P p (sc, ms)" and wf: "wf_mv sys" and e: "echoProposal (mvConfigs sys p) sc = (sc', outs)"
  shows "mvStepOk sys E I P p (sc, ms) outs (sc', ms)"
proof -
  have send: "mvStepOk sys E I P p (sc, ms) outs (sc', ms)"
    if s: "mvSame sc sc1" "\<not> sentEcho sc" "mvBroadcastEcho (mvConfigs sys p) (GetHash (mvConfigs sys p) v) sc1 = (sc', outs)"
      "sortedInitHashes sc = (pub, v) # l" for sc1 v pub l
  proof -
    have "GetHash (mvConfigs sys p) v = rbHash (mvRb sys) v" using wf by (simp add: wf_mv_def)
    moreover have "rbCoord (mvRb sys) pub" "(pub, v) \<in> I" using mvNodeInvD(4) [OF inv] s(4) by fastforce+
    ultimately have "echoable sys I (GetHash (mvConfigs sys p) v)" unfolding echoable_def by blast
    moreover have "\<not> sentEcho sc1" using s(1,2) by (simp add: mvSame_def)
    ultimately have b: "mvNodeInv sys (E \<union> echoesOf p (mvOuts outs)) I P p (sc', ms)" "initsOf p (mvOuts outs) = {}" "binOuts outs = []"
      "binCons sc' = binCons sc1" using mvBroadcastEcho_inv [OF mvNodeInv_same [OF inv s(1)] _ _ s(3)] by blast+
    then show ?thesis using s(1) by (simp add: mvStepOk_def binMoves.refl binState_def mvSame_def)
  qed
  have quiet: "mvStepOk sys E I P p (sc, ms) [] (sc1, ms)" if "mvSame sc sc1" for sc1
    using mvStepOk_quiet [OF mvNodeInv_same [OF inv that]] that by (simp add: binState_def mvSame_def)
  obtain sc1 b where c: "checkInitTimeoutPassed sc = (sc1, b)" by (cases "checkInitTimeoutPassed sc")
  have s1: "mvSame sc sc1" using timeoutPassed_same(2) [of sc] c by simp
  show ?thesis
    using e c quiet [OF mvSame_refl] quiet [OF s1] send [OF mvSame_refl] send [OF s1]
    by (auto simp: echoProposal_def split: if_splits list.splits)
qed

lemma echoZero_ok:
  assumes inv: "mvNodeInv sys E I P p (sc, ms)" and wf: "wf_mv sys" and e: "echoZero (mvConfigs sys p) (sc, ms) = (st', outs)"
  shows "mvStepOk sys E I P p (sc, ms) outs st'"
proof -
  obtain sc1 b where c: "checkInitTimeoutPassed sc = (sc1, b)" by (cases "checkInitTimeoutPassed sc")
  have s1: "mvSame sc sc1" using timeoutPassed_same(2) [of sc] c by simp
  note inv1 = mvNodeInv_same [OF inv s1]
  obtain bm sent where sp: "SentProposal 0 True (mvBinMs ms) = (bm, sent)" by (cases "SentProposal 0 True (mvBinMs ms)")
  obtain sc2 o2 where be: "mvBroadcastEcho (mvConfigs sys p) (zeroHash (mvConfigs sys p)) sc1 = (sc2, o2)"
    by (cases "mvBroadcastEcho (mvConfigs sys p) (zeroHash (mvConfigs sys p)) sc1")
  show ?thesis
  proof (cases "b \<and> \<not> sentEcho sc1")
    case False
    then have "st' = (sc1, ms)" "outs = []" using e c by (auto simp: echoZero_def)
    then show ?thesis using mvStepOk_quiet [OF inv1] s1 by (simp add: binState_def mvSame_def)
  next
    case True
    show ?thesis
    proof (cases sent)
      case s: True
      then have "bm = mvBinMs ms" using SentProposal_again [of "mvBinMs ms" bm] sp by simp
      then have "st' = (sc1, ms)" "outs = []" using e c True sp s by (auto simp: echoZero_def)
      then show ?thesis using mvStepOk_quiet [OF inv1] s1 by (simp add: binState_def mvSame_def)
    next
      case False
      have st': "st' = (sc2, ms\<lparr>mvBinMs := bm\<rparr>)" "outs = o2 @ [BinOut (BcastAux 1 False []) []]"
        using e c True sp False be by (auto simp: echoZero_def GetMVInitialRoundBroadcast_def)
      have z: "zeroHash (mvConfigs sys p) = mvZero sys" using wf by (simp add: wf_mv_def)
      have "\<not> sentEcho sc1" using True by simp
      have ez: "echoable sys I (zeroHash (mvConfigs sys p))" using z by (simp add: echoable_def)
      note m = mvBroadcastEcho_inv [OF inv1 \<open>\<not> sentEcho sc1\<close> ez be]
      have "binMoves (binConfig (mvConfigs sys p)) B (binCons sc, mvBinMs ms) [BcastAux 1 False []] (binCons sc, bm)" if "False \<in> B" for B
        using binMoves.send [OF that, of "mvBinMs ms" bm 1 False] sp False by (simp add: GetMVInitialRoundBroadcast_def)
      then show ?thesis
        using m mvNodeInv_bin [OF m(1)] s1 unfolding mvStepOk_def st' by (simp add: binState_def mvBase_def mvSame_def)
    qed
  qed
qed

lemma checkSendEcho_ok:
  assumes inv: "mvNodeInv sys E I P p st" and wf: "wf_mv sys" and e: "checkSendEcho (mvConfigs sys p) st = (st', outs)"
  shows "mvStepOk sys E I P p st outs st'"
proof -
  obtain sc ms where st: "st = (sc, ms)" by (cases st)
  obtain sc1 o1 where a: "echoProposal (mvConfigs sys p) sc = (sc1, o1)" by (cases "echoProposal (mvConfigs sys p) sc")
  obtain o2 where b: "echoZero (mvConfigs sys p) (sc1, ms) = (st', o2)" "outs = o1 @ o2"
    using e st a by (auto simp: checkSendEcho_def split: prod.splits)
  have 1: "mvStepOk sys E I P p (sc, ms) o1 (sc1, ms)" using echoProposal_ok [OF inv [unfolded st] wf a] .
  have "mvNodeInv sys (E \<union> echoesOf p (mvOuts o1)) I P p (sc1, ms)" using 1 by (simp add: mvStepOk_def)
  from mvStepOk_trans [OF 1 echoZero_ok [OF this wf b(1)]] show ?thesis by (simp add: b(2) st)
qed

lemma SetupSignedMessage_store:
  assumes "SetupSignedMessage (rbSms ms) sm pid mySig k = (sms', r)" "storeInv R E ms"
  shows "storeInv R E (ms\<lparr>rbSms := sms'\<rparr>)"
  using SetupSignedMessage_frame [OF assms(1)] assms(2) by (simp add: storeInv_def wf_rbms_def)

lemma generateMvProofs_store:
  assumes "generateMvProofs cfg k ms = Inr (ms', prfs)" "storeInv R E ms"
  shows "storeInv R E ms'" "supportedEchoHash ms' = supportedEchoHash ms" "mvBinMs ms' = mvBinMs ms"
  using assms SetupSignedMessage_store [OF _ assms(2)]
  by (auto simp: generateMvProofs_def split: option.splits sum.splits prod.splits if_splits)

lemma supportOne_ok:
  assumes s: "supportOne cfg ms = Inr (ms', outs)" and st: "storeInv R E ms"
  shows "storeInv R E ms'" "supportedEchoHash ms' = supportedEchoHash ms" "mvOuts outs = []"
    "True \<in> B \<Longrightarrow> binMoves bcfg B (sc, mvBinMs ms) (binOuts outs) (sc, mvBinMs ms')"
proof -
  obtain b sent where sp: "SentProposal 0 True (mvBinMs ms) = (b, sent)" by (cases "SentProposal 0 True (mvBinMs ms)")
  have st1: "storeInv R E (ms\<lparr>mvBinMs := b\<rparr>)" using st by (simp add: storeInv_def wf_rbms_def)
  have "storeInv R E ms' \<and> supportedEchoHash ms' = supportedEchoHash ms \<and> mvBinMs ms' = b \<and> mvOuts outs = [] \<and>
      (if sent then binOuts outs = [] else binOuts outs = [] \<or> binOuts outs = [BcastAux 1 True []])"
    using s sp st1 generateMvProofs_store [OF _ st1]
    by (auto simp: supportOne_def Let_def GetMVInitialRoundBroadcast_def split: if_splits sum.splits prod.splits)
  then have r: "storeInv R E ms'" "supportedEchoHash ms' = supportedEchoHash ms" "mvBinMs ms' = b" "mvOuts outs = []"
    "if sent then binOuts outs = [] else binOuts outs = [] \<or> binOuts outs = [BcastAux 1 True []]" by blast+
  then show "storeInv R E ms'" "supportedEchoHash ms' = supportedEchoHash ms" "mvOuts outs = []" by blast+
  show "binMoves bcfg B (sc, mvBinMs ms) (binOuts outs) (sc, mvBinMs ms')" if B: "True \<in> B"
  proof (cases sent)
    case True
    then have "b = mvBinMs ms" using SentProposal_again [of "mvBinMs ms" b] sp by simp
    then show ?thesis using r(3,5) True by (simp add: binMoves.refl)
  next
    case False
    then show ?thesis using binMoves.send [OF B, of "mvBinMs ms" b 1 True "binOuts outs"] sp r(3,5) by (simp add: GetMVInitialRoundBroadcast_def)
  qed
qed

lemma decideHash_ok:
  assumes d: "decideHash cfg h sc = Inr (sc', outs)" and i: "itemInv R I (Some h) sc"
  shows "itemInv R I (Some h) sc'" "sentEcho sc' = sentEcho sc" "binCons sc' = binCons sc \<and> sortedInitHashes sc' = sortedInitHashes sc"
    "echoesOf p (mvOuts outs) = {}" "initsOf p (mvOuts outs) = {}" "binOuts outs = []"
proof -
  let ?sc1 = "sc\<lparr>decisionHashBytes := Some h\<rparr>"
  have "itemInv R I (Some h) sc' \<and> sentEcho sc' = sentEcho sc \<and> binCons sc' = binCons sc \<and> sortedInitHashes sc' = sortedInitHashes sc \<and> quiet (mvOuts outs) \<and> binOuts outs = []"
  proof (cases "decisionInitMsg sc = None")
    case False
    then show ?thesis using d i by (auto simp: decideHash_def split: if_splits)
  next
    case True
    then have i1: "itemInv R I (Some h) ?sc1" using i by (simp add: itemInv_def)
    show ?thesis
    proof (cases "map_of (validatedInitHashes sc) h")
      case None
      obtain sc2 o2 where t: "StartRecoverTimeout ?sc1 = (sc2, o2)" by (cases "StartRecoverTimeout ?sc1")
      have r: "sc' = sc2" "outs = map MvOut o2" using d True None t by (auto simp: decideHash_def split: if_splits)
      have k: "rbKeeps ?sc1 sc2" "quiet o2" using recover_keeps(4) [OF t] by simp_all
      have "itemInv R I (Some h) sc2" using i1 k(1) by (simp add: itemInv_def rbKeeps_def)
      then show ?thesis using r k rbKeeps_mvSame [OF k(1)] by (simp add: mvSame_def)
    next
      case (Some pv)
      obtain pub v where pv: "pv = (pub, v)" by (cases pv)
      let ?sc2 = "?sc1\<lparr>decisionInitMsg := Some v, decisionPub := Some pub\<rparr>"
      have r: "sc' = mvStopTimers ?sc2" "outs = []" using d True Some pv by (auto simp: decideHash_def split: if_splits)
      have "(h, pub, v) \<in> set (validatedInitHashes sc)" using map_of_SomeD [OF Some] pv by simp
      then have "h = rbHash R v" "rbCoord R pub" "(pub, v) \<in> I" using i by (fastforce simp: itemInv_def)+
      then have "itemInv R I (Some h) ?sc2" using i1 by (simp add: itemInv_def)
      then show ?thesis using r mvStopTimers_same [of ?sc2] by (simp add: itemInv_def mvSame_def)
    qed
  qed
  then show "itemInv R I (Some h) sc'" "sentEcho sc' = sentEcho sc" "binCons sc' = binCons sc \<and> sortedInitHashes sc' = sortedInitHashes sc"
    "echoesOf p (mvOuts outs) = {}" "initsOf p (mvOuts outs) = {}" "binOuts outs = []" by simp_all
qed

lemma storeInv_count:
  assumes "storeInv R E ms" "rbNmt R \<le> getSigCountMsg (rbSms ms) (MvEcho 0 h)"
  shows "rbNmt R \<le> int (card (signers (rbSms ms) (MvEcho 0 h)))" "echoQuorum R E h"
proof -
  have "getSigCountMsg (rbSms ms) (MvEcho 0 h) = int (card (signers (rbSms ms) (MvEcho 0 h)))"
    using assms(1) getSigCountMsg_card [of "rbSms ms"] by (simp add: storeInv_def wf_rbms_def)
  then show "rbNmt R \<le> int (card (signers (rbSms ms) (MvEcho 0 h)))" using assms(2) by simp
  then show "echoQuorum R E h" using assms(1) unfolding echoQuorum_def storeInv_def by blast
qed

lemma wf_mvD:
  assumes "wf_mv sys"
  shows "wf_rb (mvRb sys)" "rbMemberCount (mvConfigs sys p) - rbFaultCount (mvConfigs sys p) = rbNmt (mvRb sys)"
    "rbFaultCount (mvConfigs sys p) = rbT (mvRb sys)" "zeroHash (mvConfigs sys p) = mvZero sys"
    "rbMemberCount (mvConfigs sys p) - rbFaultCount (mvConfigs sys p) = memberCount (binConfig (mvConfigs sys p)) - faultCount (binConfig (mvConfigs sys p))"
    "rbFaultCount (mvConfigs sys p) = faultCount (binConfig (mvConfigs sys p))"
    "isCoord (mvConfigs sys p) = rbCoord (mvRb sys)" "GetHash (mvConfigs sys p) = rbHash (mvRb sys)"
  using assms by (auto simp: wf_mv_def rbNmt_def)

lemma echoHash_ok:
  assumes inv: "mvNodeInv sys E I P p st" and wf: "wf_mv sys" and e: "echoHash (mvConfigs sys p) h st = Inr (st', outs)"
  shows "mvStepOk sys E I P p st outs st'"
proof -
  obtain sc ms where st: "st = (sc, ms)" by (cases st)
  note i = mvNodeInvD [OF inv [unfolded st]]
  show ?thesis
  proof (cases "rbNmt (mvRb sys) \<le> getSigCountMsg (rbSms ms) (MvEcho 0 h) \<and> h \<noteq> mvZero sys")
    case False
    then have "st' = st" "outs = []" using e st wf_mvD(2,4) [OF wf] by (auto simp: echoHash_def)
    then show ?thesis using mvStepOk_refl [OF inv] by simp
  next
    case True
    let ?ms1 = "ms\<lparr>mvBinMs := SetMv1Valid (mvBinMs ms), supportedEchoHash := Some h\<rparr>"
    let ?sc1 = "sc\<lparr>echoTimeOutState := TimeoutPassed\<rparr>"
    obtain ms2 o1 sc2 o2 where r: "supportedEchoHash ms = None \<or> supportedEchoHash ms = Some h" "supportOne (mvConfigs sys p) ?ms1 = Inr (ms2, o1)"
      "decideHash (mvConfigs sys p) h ?sc1 = Inr (sc2, o2)" "st' = (sc2, ms2)" "outs = o1 @ o2"
      using e st True wf_mvD(2,4) [OF wf] by (auto simp: echoHash_def setEchoHash_def bind_res_Inr_iff split: if_splits)
    note c = storeInv_count [OF i(1) conjunct1 [OF True]]
    have s1: "storeInv (mvRb sys) E ?ms1" using i(1) c(1) by (simp add: storeInv_def wf_rbms_def)
    note so = supportOne_ok [OF r(2) s1]
    have "itemInv (mvRb sys) I (Some h) ?sc1" using i(2) r(1) by (auto simp: itemInv_def)
    note d = decideHash_ok [OF r(3) this]
    have o: "echoesOf p (mvOuts outs) = {}" "initsOf p (mvOuts outs) = {}" "binOuts outs = binOuts o1" using so(3) d(4-6) r(5) by simp_all
    have "binMoves (binConfig (mvConfigs sys p)) B (binCons sc, mvBinMs ms) (binOuts o1) (binCons sc, mvBinMs ms2)" if "mvBase sys E B" for B
    proof -
      have B: "True \<in> B" using that c(2) True unfolding mvBase_def by blast
      have "binMoves (binConfig (mvConfigs sys p)) B (binCons sc, mvBinMs ms) [] (binCons sc, SetMv1Valid (mvBinMs ms))"
        using binMoves.set_valid [OF B, where sc = "binCons sc" and ms = "mvBinMs ms"] by simp
      from binMoves.trans [OF this] so(4) [OF B, of _ "binCons sc"] show ?thesis by simp
    qed
    moreover have "mvNodeInv sys E I P p (sc2, ms2)" using so(1,2) d(1-3) i(3,4) by (simp add: mvNodeInv_def)
    ultimately show ?thesis using d(3) unfolding mvStepOk_def o r(4) by (simp add: st binState_def)
  qed
qed

lemma echoLoop_ok:
  assumes "mvNodeInv sys E I P p st" "wf_mv sys" "echoLoop (mvConfigs sys p) hs st = Inr (st', outs)"
  shows "mvStepOk sys E I P p st outs st'"
  using assms(1,3)
proof (induction hs arbitrary: E st outs)
  case Nil
  then show ?case by (simp add: mvStepOk_refl)
next
  case (Cons h hs)
  obtain st1 o1 o2 where r: "echoHash (mvConfigs sys p) h st = Inr (st1, o1)" "echoLoop (mvConfigs sys p) hs st1 = Inr (st', o2)" "outs = o1 @ o2"
    using Cons.prems(2) by (auto simp: bind_res_Inr_iff)
  have 1: "mvStepOk sys E I P p st o1 st1" using echoHash_ok [OF Cons.prems(1) assms(2) r(1)] .
  then have "mvNodeInv sys (E \<union> echoesOf p (mvOuts o1)) I P p st1" by (simp add: mvStepOk_def)
  from mvStepOk_trans [OF 1 Cons.IH [OF this r(2)]] show ?case by (simp add: r(3))
qed

lemma sendEchoTimeout_same: "sendEchoTimeout sc = Inr (sc', outs) \<Longrightarrow> mvSame sc sc' \<and> mvOuts outs = [] \<and> binOuts outs = []"
  by (auto simp: sendEchoTimeout_def bind_res_Inr_iff mvSame_def split: if_splits)

lemma supportZero_ok:
  assumes inv: "mvNodeInv sys E I P p (sc, ms)" and e: "supportZero (mvConfigs sys p) (sc, ms) = (st', outs)"
  shows "mvStepOk sys E I P p (sc, ms) outs st'"
proof -
  obtain sc1 passed where c: "checkEchoTimeoutPassed sc = (sc1, passed)" by (cases "checkEchoTimeoutPassed sc")
  have s1: "mvSame sc sc1" using timeoutPassed_same(1) [of sc] c by simp
  note inv1 = mvNodeInv_same [OF inv s1]
  obtain bm sent where sp: "SentProposal 0 True (mvBinMs ms) = (bm, sent)" by (cases "SentProposal 0 True (mvBinMs ms)")
  show ?thesis
  proof (cases passed)
    case False
    then have "st' = (sc1, ms)" "outs = []" using e c by (simp_all add: supportZero_def)
    then show ?thesis using mvStepOk_quiet [OF inv1] s1 by (simp add: binState_def mvSame_def)
  next
    case True
    have st': "st' = (sc1, ms\<lparr>mvBinMs := SetMv0Valid bm\<rparr>)" and o: "mvOuts outs = []"
      "binOuts outs = [] \<or> (\<not> sent \<and> binOuts outs = [BcastAux 1 False []])"
      using e c True sp by (auto simp: supportZero_def GetMVInitialRoundBroadcast_def split: if_splits)
    have "binMoves (binConfig (mvConfigs sys p)) B (binCons sc, mvBinMs ms) (binOuts outs) (binCons sc, SetMv0Valid bm)" if B: "False \<in> B" for B
    proof -
      have "binMoves (binConfig (mvConfigs sys p)) B (binCons sc, mvBinMs ms) (binOuts outs) (binCons sc, bm)"
      proof (cases sent)
        case True
        then have "bm = mvBinMs ms" using SentProposal_again [of "mvBinMs ms" bm] sp by simp
        then show ?thesis using o(2) True by (simp add: binMoves.refl)
      next
        case False
        then show ?thesis using binMoves.send [OF B, of "mvBinMs ms" bm 1 False "binOuts outs"] sp o(2) by (simp add: GetMVInitialRoundBroadcast_def)
      qed
      from binMoves.trans [OF this binMoves.set_valid [OF B]] show ?thesis by simp
    qed
    then show ?thesis using mvNodeInv_bin [OF inv1] s1 unfolding mvStepOk_def st' o(1) by (simp add: binState_def mvBase_def mvSame_def)
  qed
qed

lemma echoPhase_ok:
  assumes inv: "mvNodeInv sys E I P p st" and wf: "wf_mv sys" and e: "echoPhase (mvConfigs sys p) hs st = Inr (st', outs)"
  shows "mvStepOk sys E I P p st outs st'"
proof -
  obtain sc1 ms1 o1 sc2 o2 o3 where r: "echoLoop (mvConfigs sys p) hs st = Inr ((sc1, ms1), o1)" "sendEchoTimeout sc1 = Inr (sc2, o2)"
    "supportZero (mvConfigs sys p) (sc2, ms1) = (st', o3)" "outs = (o1 @ o2) @ o3"
  proof -
    obtain sc1 ms1 o1 sc2 o2 where a: "echoLoop (mvConfigs sys p) hs st = Inr ((sc1, ms1), o1)" "sendEchoTimeout sc1 = Inr (sc2, o2)"
      using e by (auto simp: echoPhase_def bind_res_Inr_iff)
    then show ?thesis using e that [OF a] by (cases "supportZero (mvConfigs sys p) (sc2, ms1)") (auto simp: echoPhase_def)
  qed
  have 1: "mvStepOk sys E I P p st o1 (sc1, ms1)" using echoLoop_ok [OF inv wf r(1)] .
  let ?E1 = "E \<union> echoesOf p (mvOuts o1)"
  have i1: "mvNodeInv sys ?E1 I P p (sc1, ms1)" using 1 by (simp add: mvStepOk_def)
  note s = sendEchoTimeout_same [OF r(2)]
  have i2: "mvNodeInv sys ?E1 I P p (sc2, ms1)" using mvNodeInv_same [OF i1] s by blast
  have "mvStepOk sys ?E1 I P p (sc1, ms1) o2 (sc2, ms1)" using mvStepOk_quiet [OF i2] s by (simp add: binState_def mvSame_def)
  from mvStepOk_trans [OF 1 this] have 2: "mvStepOk sys E I P p st (o1 @ o2) (sc2, ms1)" .
  then have "mvNodeInv sys (E \<union> echoesOf p (mvOuts (o1 @ o2))) I P p (sc2, ms1)" by (simp add: mvStepOk_def)
  from mvStepOk_trans [OF 2 supportZero_ok [OF this r(3)]] show ?thesis unfolding r(4) .
qed

lemma mvNodeInv_setBin: "mvNodeInv sys E I P p st \<Longrightarrow> mvNodeInv sys E I P p (setBin b st)"
  by (cases st) (simp add: mvNodeInv_def setBin_def storeInv_def wf_rbms_def itemInv_def)

lemma binState_setBin [simp]: "binState (setBin b st) = b"
  by (simp add: binState_def setBin_def)

lemma runRounds_ok:
  assumes inv: "mvNodeInv sys E I P p st" and wf: "wf_mv sys" and e: "runRounds (mvConfigs sys p) st = Some (Inr (st', outs))"
  shows "mvStepOk sys E I P p st outs st'"
proof (cases "Decided (fst (binState st)) = -1")
  case False
  then show ?thesis using e mvStepOk_refl [OF inv] by (simp add: runRounds_def)
next
  case True
  let ?b = "binConfig (mvConfigs sys p)"
  obtain b o1 where r: "checkRounds ?b (memberCount ?b - faultCount ?b) (faultCount ?b) 1 (binState st) [] = Some (Inr (b, o1))"
    "st' = setBin b st" "outs = map (\<lambda>x. BinOut x []) o1"
    using e True wf_mvD(5,6) [OF wf, of p] by (auto simp: runRounds_def bind_res_Inr_iff)
  have "binMoves ?b B (binState st) o1 b" for B using binMoves.rounds [OF r(1)] .
  then show ?thesis using mvNodeInv_setBin [OF inv] by (simp add: mvStepOk_def r(2,3))
qed

lemma checkEchoState_ok:
  assumes inv: "mvNodeInv sys E I P p st" and wf: "wf_mv sys" and e: "checkEchoState (mvConfigs sys p) hs st = Some (Inr (st', outs))"
  shows "mvStepOk sys E I P p st outs st'"
proof -
  consider (same) "st' = st" "outs = []"
    | (run) st1 o1 sc2 ms2 o2 where "echoPhase (mvConfigs sys p) hs st = Inr (st1, o1)" "runRounds (mvConfigs sys p) st1 = Some (Inr ((sc2, ms2), o2))"
      "st' = (if Decided (binCons sc2) > -1 then mvStopTimers sc2 else sc2, ms2)" "outs = o1 @ o2"
    using e by (auto simp: checkEchoState_def Let_def bind_res_Inr_iff split: if_splits sum.splits)
  then show ?thesis
  proof cases
    case same
    then show ?thesis using mvStepOk_refl [OF inv] by simp
  next
    case run
    have 1: "mvStepOk sys E I P p st o1 st1" using echoPhase_ok [OF inv wf run(1)] .
    then have "mvNodeInv sys (E \<union> echoesOf p (mvOuts o1)) I P p st1" by (simp add: mvStepOk_def)
    from mvStepOk_trans [OF 1 runRounds_ok [OF this wf run(2)]] have 2: "mvStepOk sys E I P p st outs (sc2, ms2)" by (simp add: run(4))
    have "mvSame sc2 (fst st')" "snd st' = ms2" using run(3) mvStopTimers_same [of sc2] by simp_all
    then have "mvNodeInv sys (E \<union> echoesOf p (mvOuts outs)) I P p st'" "binState st' = binState (sc2, ms2)"
      using 2 mvNodeInv_same [of sys _ I P p sc2 ms2 "fst st'"] by (cases st'; simp add: mvStepOk_def binState_def mvSame_def)+
    then show ?thesis using 2 by (simp add: mvStepOk_def)
  qed
qed

section \<open>The handlers\<close>

lemma mvGotInit_inv:
  assumes inv: "mvNodeInv sys E I P p (sc, ms)" and got: "mvGotInit chk cfg r v sigs ms = (ms', res)" and pl: "plain_sigs sigs"
  shows "mvNodeInv sys E I P p (sc, ms')" "mvBinMs ms' = mvBinMs ms" "\<not> panics res"
    "res = Inr pub \<Longrightarrow> isCoord cfg pub \<and> (\<exists>si \<in> set sigs. chk si \<and> si_pub si = pub)"
proof -
  note i = mvNodeInvD [OF inv]
  have wf: "wf_rbms (rbNmt (mvRb sys)) ms" using i(1) by (simp add: storeInv_def)
  let ?sm = "\<lparr>sm_hash = MvInit r v, sm_msgid = InitID r, sm_sigs = sigs\<rparr>"
  obtain sms' sm' rr where g: "GotSignedMsg chk (rbSms ms) ?sm = (sms', sm', rr)" by (metis prod_cases3)
  have pre: "wf_sms (rbSms ms)" "plain_sms (rbSms ms)" "plain_sigs (sm_sigs ?sm)" "unsignedMsgMap (rbSms ms) (sm_hash ?sm) = None"
    using wf pl by (simp_all add: wf_rbms_def)
  note s = GotSignedMsg_spec [OF g pre]
  have ms': "ms' = ms \<or> ms' = ms\<lparr>rbSms := sms'\<rparr>"
    using got g by (auto simp: mvGotInit_def Let_def split: sum.splits if_splits)
  have sg: "signers sms' (MvEcho 0 h) = signers (rbSms ms) (MvEcho 0 h)" for h using s(4) by simp
  have "storeInv (mvRb sys) E (ms\<lparr>rbSms := sms'\<rparr>)" using i(1) wf s(1-3) sg by (simp add: storeInv_def wf_rbms_def)
  then show "mvNodeInv sys E I P p (sc, ms')" using ms' inv by (auto simp: mvNodeInv_def)
  show "mvBinMs ms' = mvBinMs ms" using ms' by auto
  show "\<not> panics res" using got g s(8) by (auto simp: mvGotInit_def Let_def panics_Inl split: sum.splits if_splits)
  show "isCoord cfg pub \<and> (\<exists>si \<in> set sigs. chk si \<and> si_pub si = pub)" if r: "res = Inr pub"
  proof -
    obtain x where x: "rr = Inr x" "isCoord cfg pub" "pub = si_pub (hd (sm_sigs sm'))"
      using got g r by (auto simp: mvGotInit_def Let_def split: sum.splits if_splits)
    have "sm_sigs sm' \<noteq> []" using GotSignedMsg_length(1) g x(1) by blast
    then have "hd (sm_sigs sm') \<in> set (sm_sigs sm')" by simp
    with GotSignedMsg_sigs [of chk "rbSms ms" ?sm sms' sm' x] g x show ?thesis by auto
  qed
qed

lemma mvGotEcho_inv:
  assumes inv: "mvNodeInv sys E I P p (sc, ms)" and got: "mvGotEcho chk r h sigs ms = (ms', res)" and pl: "plain_sigs sigs"
    and made: "\<And>si. si \<in> set sigs \<Longrightarrow> chk si \<Longrightarrow> si_pub si \<in> rbMembers (mvRb sys) \<and> (si_pub si, h) \<in> E"
  shows "mvNodeInv sys E I P p (sc, ms')" "mvBinMs ms' = mvBinMs ms" "\<not> panics res"
proof -
  note i = mvNodeInvD [OF inv]
  have wf: "wf_rbms (rbNmt (mvRb sys)) ms" using i(1) by (simp add: storeInv_def)
  let ?sm = "\<lparr>sm_hash = MvEcho r h, sm_msgid = EchoID r, sm_sigs = sigs\<rparr>"
  obtain sms' sm' rr where g: "GotSignedMsg chk (rbSms ms) ?sm = (sms', sm', rr)" by (metis prod_cases3)
  have pre: "wf_sms (rbSms ms)" "plain_sms (rbSms ms)" "plain_sigs (sm_sigs ?sm)" "unsignedMsgMap (rbSms ms) (sm_hash ?sm) = None"
    using wf pl by (simp_all add: wf_rbms_def)
  note s = GotSignedMsg_spec [OF g pre]
  have ms': "ms' = ms \<or> ms' = ms\<lparr>rbSms := sms'\<rparr>"
    using got g by (auto simp: mvGotEcho_def split: sum.splits if_splits)
  have sub: "signers sms' (MvEcho 0 h') \<subseteq> {q \<in> rbMembers (mvRb sys). (q, h') \<in> E}" for h'
  proof -
    have "signers (rbSms ms) (MvEcho 0 h') \<subseteq> {q \<in> rbMembers (mvRb sys). (q, h') \<in> E}" using i(1) by (simp add: storeInv_def)
    then show ?thesis using s(4) made by (fastforce split: if_splits)
  qed
  have mono: "card (signers (rbSms ms) (MvEcho 0 h')) \<le> card (signers sms' (MvEcho 0 h'))" for h'
    using s(4) by (intro card_mono) auto
  have "rbNmt (mvRb sys) \<le> int (card (signers sms' (MvEcho 0 h')))" if "supportedEchoHash ms = Some h'" for h'
    using wf mono [of h'] that by (auto simp: wf_rbms_def)
  then have "storeInv (mvRb sys) E (ms\<lparr>rbSms := sms'\<rparr>)" using sub wf s(1-3) by (simp add: storeInv_def wf_rbms_def)
  then show "mvNodeInv sys E I P p (sc, ms')" using ms' inv by (auto simp: mvNodeInv_def)
  show "mvBinMs ms' = mvBinMs ms" using ms' by auto
  show "\<not> panics res" using got g s(8) by (auto simp: mvGotEcho_def panics_Inl split: sum.splits if_splits)
qed

lemma thenEchoState_ok:
  assumes 1: "mvStepOk sys E I P p st o1 st1" and wf: "wf_mv sys" and e: "thenEchoState (mvConfigs sys p) hs (st1, o1) = Some (Inr (st', outs))"
  shows "mvStepOk sys E I P p st outs st'"
proof -
  obtain o2 where r: "checkEchoState (mvConfigs sys p) hs st1 = Some (Inr (st', o2))" "outs = o1 @ o2"
    using e by (auto simp: thenEchoState_def bind_res_Inr_iff)
  have "mvNodeInv sys (E \<union> echoesOf p (mvOuts o1)) I P p st1" using 1 by (simp add: mvStepOk_def)
  from mvStepOk_trans [OF 1 checkEchoState_ok [OF this wf r(1)]] show ?thesis by (simp add: r(2))
qed

lemma sortVRF_set: "set (sortVRF cfg l' l) = set l"
  by (auto simp: sortVRF_def dest: mset_eq_setD)

lemma mvNodeInv_newInit:
  assumes "mvNodeInv sys E I P p (sc, ms)" "rbCoord (mvRb sys) pub" "(pub, v) \<in> I" "set l = insert (pub, v) (set (sortedInitHashes sc))"
  shows "mvNodeInv sys E I P p (sc\<lparr>validatedInitHashes := AList.update (rbHash (mvRb sys) v) (pub, v) (validatedInitHashes sc), sortedInitHashes := l\<rparr>, ms)"
  using mvNodeInvD [OF assms(1)] itemInv_init [OF mvNodeInvD(2) [OF assms(1)] assms(2,3)] assms(2-4) by (simp add: mvNodeInv_def itemInv_def)

lemma mvProcessInit_ok:
  assumes inv: "mvNodeInv sys E I P p (sc, ms)" and wf: "wf_mv sys" and i: "(pub, v) \<in> I"
    and e: "mvProcessInit (mvConfigs sys p) hs l' pub v (sc, ms) = Some (Inr (st', outs))"
  shows "mvStepOk sys E I P p (sc, ms) outs st'"
proof -
  note w = wf_mvD [OF wf]
  let ?l = "sortVRF (mvConfigs sys p) l' (sortedInitHashes sc @ [(pub, v)])"
  let ?sc1 = "sc\<lparr>validatedInitHashes := AList.update (rbHash (mvRb sys) v) (pub, v) (validatedInitHashes sc), sortedInitHashes := ?l\<rparr>"
  obtain st1 o1 where c: "checkSendEcho (mvConfigs sys p) (?sc1, ms) = (st1, o1)" by (cases "checkSendEcho (mvConfigs sys p) (?sc1, ms)")
  have co: "rbCoord (mvRb sys) pub" using e w(7) by (auto simp: mvProcessInit_def split: if_splits)
  obtain sc2 ms2 o2 where t: "thenEchoState (mvConfigs sys p) hs (st1, o1) = Some (Inr ((sc2, ms2), o2))"
    using e w(7,8) co c by (auto simp: mvProcessInit_def Let_def bind_res_Inr_iff)
  obtain sc3 o3 where s: "SendRecover sc2 = (sc3, o3)" by (cases "SendRecover sc2")
  have r: "st' = (sc3, ms2)" "outs = o2 @ map MvOut o3" using e w(7,8) co c t s by (auto simp: mvProcessInit_def Let_def)
  have i1: "mvNodeInv sys E I P p (?sc1, ms)" using mvNodeInv_newInit [OF inv co i, of ?l] by (simp add: sortVRF_set)
  have "mvStepOk sys E I P p (?sc1, ms) o2 (sc2, ms2)" using thenEchoState_ok [OF checkSendEcho_ok [OF i1 wf c] wf t] .
  then have 2: "mvStepOk sys E I P p (sc, ms) o2 (sc2, ms2)" by (simp add: mvStepOk_def binState_def)
  have k: "rbKeeps sc2 sc3" "quiet o3" using recover_keeps(1) [OF s] by simp_all
  have n2: "mvNodeInv sys (E \<union> echoesOf p (mvOuts o2)) I P p (sc2, ms2)" using 2 by (simp add: mvStepOk_def)
  have "mvStepOk sys (E \<union> echoesOf p (mvOuts o2)) I P p (sc2, ms2) (map MvOut o3) (sc3, ms2)"
    using mvStepOk_quiet [OF mvNodeInv_same [OF n2 rbKeeps_mvSame [OF k(1)]]] k rbKeeps_mvSame [OF k(1)] by (simp add: binState_def mvSame_def)
  from mvStepOk_trans [OF 2 this] show ?thesis by (simp add: r)
qed

lemma mvProcessBin_ok:
  assumes inv: "mvNodeInv sys E I P p st" and wf: "wf_mv sys" and e: "mvProcessBin (mvConfigs sys p) hs r st = Some (Inr (st', outs))"
    and b: "\<And>B b o' pr fw. r = Some (Inr (b, o', pr, fw)) \<Longrightarrow> binMoves (binConfig (mvConfigs sys p)) B (binState st) o' b"
  shows "mvStepOk sys E I P p st outs st'"
proof -
  obtain bs o1 pr fw where r: "r = Some (Inr (bs, o1, pr, fw))" "thenEchoState (mvConfigs sys p) hs (setBin bs st, map (\<lambda>x. BinOut x []) o1) = Some (Inr (st', outs))"
    using e by (auto simp: mvProcessBin_def split: option.splits sum.splits prod.splits)
  have "mvStepOk sys E I P p st (map (\<lambda>x. BinOut x []) o1) (setBin bs st)"
    using mvNodeInv_setBin [OF inv] b [OF r(1)] by (simp add: mvStepOk_def)
  from thenEchoState_ok [OF this wf r(2)] show ?thesis .
qed

lemma mvProcessAux_ok:
  assumes "mvNodeInv sys E I P p st" "wf_mv sys"
  shows "mvProcessAux (mvConfigs sys p) hs r st = Some (Inr (st', outs)) \<Longrightarrow> mvStepOk sys E I P p st outs st'"
    "mvProcessBinTimeout (mvConfigs sys p) hs r st = Some (Inr (st', outs)) \<Longrightarrow> mvStepOk sys E I P p st outs st'"
  using mvProcessBin_ok [OF assms] binMoves.aux binMoves.timeout unfolding mvProcessAux_def mvProcessBinTimeout_def by blast+

lemma mvProcessTimeouts_ok:
  assumes inv: "mvNodeInv sys E I P p st" and wf: "wf_mv sys"
  shows "mvProcessInitTimeout (mvConfigs sys p) st = (st', outs) \<Longrightarrow> mvStepOk sys E I P p st outs st'"
    "mvProcessEchoTimeout (mvConfigs sys p) hs st = Some (Inr (st', outs)) \<Longrightarrow> mvStepOk sys E I P p st outs st'"
proof -
  obtain sc ms where st: "st = (sc, ms)" by (cases st)
  have upd: "mvStepOk sys E I P p st outs st'" if "mvStepOk sys E I P p (sc1, ms) outs st'" "binCons sc1 = binCons sc" for sc1
    using that by (simp add: mvStepOk_def binState_def st)
  have same: "mvNodeInv sys E I P p (sc\<lparr>initTimeoutState := TimeoutPassed\<rparr>, ms)" "mvNodeInv sys E I P p (sc\<lparr>echoTimeOutState := TimeoutPassed\<rparr>, ms)"
    using mvNodeInv_same [OF inv [unfolded st]] by (simp_all add: mvSame_def)
  show "mvStepOk sys E I P p st outs st'" if "mvProcessInitTimeout (mvConfigs sys p) st = (st', outs)"
    using that mvStepOk_refl [OF inv] checkSendEcho_ok [OF same(1) wf] upd by (auto simp: mvProcessInitTimeout_def st split: if_splits)
  show "mvStepOk sys E I P p st outs st'" if "mvProcessEchoTimeout (mvConfigs sys p) hs st = Some (Inr (st', outs))"
  proof (cases "Decided (binCons sc) > -1")
    case True
    then show ?thesis using that mvStepOk_refl [OF inv] by (simp add: mvProcessEchoTimeout_def st)
  next
    case False
    then have "checkEchoState (mvConfigs sys p) hs (sc\<lparr>echoTimeOutState := TimeoutPassed\<rparr>, ms) = Some (Inr (st', outs))"
      using that by (simp add: mvProcessEchoTimeout_def st)
    from upd [OF checkEchoState_ok [OF same(2) wf this]] show ?thesis by simp
  qed
qed

lemma mvProcessRecover_ok:
  assumes inv: "mvNodeInv sys E I P p st"
  shows "mvProcessRecoverTimeout st = (st', outs) \<Longrightarrow> mvStepOk sys E I P p st outs st'"
    "mvProcessRequestRecover h c st = (st', outs) \<Longrightarrow> mvStepOk sys E I P p st outs st'"
proof -
  obtain sc ms where st: "st = (sc, ms)" by (cases st)
  have k: "mvStepOk sys E I P p st (map MvOut o1) (sc1, ms)" if "rbKeeps sc sc1 \<and> quiet o1" for sc1 o1
    using mvStepOk_quiet [OF mvNodeInv_same [OF inv [unfolded st] rbKeeps_mvSame], of sc1] that rbKeeps_mvSame [of sc sc1]
    by (simp add: st binState_def mvSame_def)
  show "mvStepOk sys E I P p st outs st'" if "mvProcessRecoverTimeout st = (st', outs)"
    using that mvStepOk_refl [OF inv] k recover_keeps(3) [of sc] by (auto simp: mvProcessRecoverTimeout_def st split: if_splits prod.splits)
  show "mvStepOk sys E I P p st outs st'" if "mvProcessRequestRecover h c st = (st', outs)"
    using that k recover_keeps(2) [of h c sc] by (auto simp: mvProcessRequestRecover_def st split: prod.splits)
qed

end
