(* ===== verification/MvCons1_Runs.thy ===== *)
theory MvCons1_Runs
  imports MvCons1_System
begin

text \<open>
  The runs of the multi-value consensus: the invariant holds in all of them, and each is a run of the binary consensus under
  a reduction; the handlers of a correct process return and do not panic.
\<close>

section \<open>Steps of a run\<close>

definition mvLocal :: "('p, 'v, 'h) mv_system \<Rightarrow> ('p, 'v, 'h) mv_global \<Rightarrow> 'p \<Rightarrow> ('p, 'v, 'h) mv_state \<Rightarrow> ('p, 'v, 'h) mv_out list \<Rightarrow> ('p \<times> 'v) set \<Rightarrow> bool" where
  "mvLocal sys g p st' outs P' \<longleftrightarrow> p \<notin> mvFaulty sys \<and> mvProposals g \<subseteq> P' \<and>
     mvNodeInv sys (mvEchoed g \<union> echoesOf p (mvOuts outs)) (mvInited g \<union> initsOf p (mvOuts outs)) P' p st' \<and>
     (\<forall>B. mvBase sys (mvEchoed g \<union> echoesOf p (mvOuts outs)) B \<longrightarrow>
        binMoves (binConfig (mvConfigs sys p)) B (binState (mvNodes g p)) (binOuts outs) (binState st'))"

lemma mvStepOk_local:
  assumes "mvStepOk sys (mvEchoed g) (mvInited g) (mvProposals g) p (mvNodes g p) outs st'" "p \<notin> mvFaulty sys"
  shows "mvLocal sys g p st' outs (mvProposals g)"
  using assms by (simp add: mvStepOk_def mvLocal_def)

lemma mvStepOk_bin:
  assumes "mvStepOk sys E I P p st1 outs st'" "binState st1 = binState st"
  shows "mvStepOk sys E I P p st outs st'"
  using assms by (simp add: mvStepOk_def)

lemma propose_local:
  assumes i: "mvNodeInv sys (mvEchoed g) (mvInited g) (mvProposals g) p (sc, ms)" and p: "p \<notin> mvFaulty sys" "mvNodes g p = (sc, ms)"
  shows "mvLocal sys g p (sc, ms) (mvItemGotProposal v sc) (insert (p, v) (mvProposals g))"
proof -
  let ?o = "mvOuts (mvItemGotProposal v sc)"
  have o: "echoesOf p ?o = {}" "initsOf p ?o \<subseteq> {(p, v)}" "binOuts (mvItemGotProposal v sc) = []"
    by (auto simp: mvItemGotProposal_def echoesOf_def initsOf_def)
  note n = mvNodeInvD [OF i]
  have "itemInv (mvRb sys) (mvInited g \<union> initsOf p ?o) (supportedEchoHash ms) sc" using itemInv_mono [OF n(2)] by simp
  moreover have "mvSigned sys (mvEchoed g) (mvInited g \<union> initsOf p ?o) (insert (p, v) (mvProposals g)) p (sentEcho sc)"
    using n(3) o(2) echoable_mono [of sys "mvInited g"] by (auto simp: mvSigned_def)
  moreover have "\<forall>(pub, w) \<in> set (sortedInitHashes sc). rbCoord (mvRb sys) pub \<and> (pub, w) \<in> mvInited g \<union> initsOf p ?o"
    using n(4) by fast
  ultimately show ?thesis using n(1) p o(1,3) unfolding mvLocal_def by (simp add: mvNodeInv_def binMoves.refl subset_insertI)
qed

lemma mv_step_split:
  assumes step: "mv_step sys g g'" and wf: "wf_mv sys" and inv: "mvInv sys g"
  shows "(\<exists>p st' outs P'. mvLocal sys g p st' outs P' \<and> g' = (mvSend p st' outs g)\<lparr>mvProposals := P'\<rparr>) \<or>
    (\<exists>p sc ms sigs chk r v ms' res. p \<notin> mvFaulty sys \<and> mvNodes g p = (sc, ms) \<and> plain_sigs sigs \<and>
       (\<forall>si. si \<in> set sigs \<longrightarrow> chk si \<longrightarrow> si_pub si \<in> rbMembers (mvRb sys) \<and> (si_pub si, r, v) \<in> mvAux g) \<and>
       mvGotBin chk r v sigs ms = (ms', res) \<and> g' = mvSend p (sc, ms') [] g) \<or>
    (\<exists>p \<in> mvFaulty sys. (\<exists>h. g' = g\<lparr>mvEchoed := insert (p, h) (mvEchoed g)\<rparr>) \<or> (\<exists>v. g' = g\<lparr>mvInited := insert (p, v) (mvInited g)\<rparr>) \<or>
       (\<exists>r v. g' = g\<lparr>mvAux := insert (p, r, v) (mvAux g)\<rparr>))"
    (is "?L \<or> ?B \<or> ?F")
proof -
  let ?ok = "\<lambda>p. mvStepOk sys (mvEchoed g) (mvInited g) (mvProposals g) p (mvNodes g p)"
  have node: "mvNodeInv sys (mvEchoed g) (mvInited g) (mvProposals g) p (mvNodes g p)" if "p \<notin> mvFaulty sys" for p
    using inv that by (simp add: mvInv_def)
  have localI: ?L if "mvLocal sys g p st' outs P'" "g' = (mvSend p st' outs g)\<lparr>mvProposals := P'\<rparr>" for p st' outs P'
    using that by (intro exI conjI)
  have send: ?L if "?ok p outs st'" "p \<notin> mvFaulty sys" "g' = mvSend p st' outs g" for p outs st'
    by (rule localI [OF mvStepOk_local [OF that(1,2)]]) (simp add: that(3) mvSend_def)
  from step show ?thesis
  proof cases
    case (start p sc ms sc' outs)
    have s: "mvSame sc sc'" "mvOuts outs = []" "binOuts outs = []"
      using start(4) by (auto simp: mvStart_def mvSame_def Let_def split: if_splits)
    have "?ok p outs (sc', ms)" unfolding start(3) using s mvNodeInv_same [OF node [OF start(2), unfolded start(3)] s(1)]
      by (intro mvStepOk_quiet) (simp_all add: binState_def mvSame_def)
    from send [OF this start(2,1)] show ?thesis ..
  next
    case (propose p sc ms v)
    from localI [OF propose_local [OF node [OF propose(2), unfolded propose(3)] propose(2,3)] propose(1)] show ?thesis ..
  next
    case (init p sc ms sigs chk v r ms' pub hs l' st' outs)
    note n = mvGotInit_inv [OF node [OF init(2), unfolded init(3)] init(6,4)]
    have "(pub, v) \<in> mvInited g" using n(4) [OF HOL.refl] init(5) by blast
    from mvStepOk_bin [OF mvProcessInit_ok [OF n(1) wf this init(7)], of "(sc, ms)"]
    have "?ok p outs st'" using n(2) unfolding init(3) by (simp add: binState_def)
    from send [OF this init(2,1)] show ?thesis ..
  next
    case (init_reject p sc ms sigs chk r v ms' e)
    note n = mvGotInit_inv [OF node [OF init_reject(2), unfolded init_reject(3)] init_reject(5,4)]
    have "?ok p [] (sc, ms')" using mvStepOk_quiet [OF n(1)] n(2) unfolding init_reject(3) by (simp add: binState_def)
    from send [OF this init_reject(2,1)] show ?thesis ..
  next
    case (got_echo p sc ms sigs chk h r ms' res)
    note n = mvGotEcho_inv [OF node [OF got_echo(2), unfolded got_echo(3)] got_echo(6,4,5)]
    have "?ok p [] (sc, ms')" using mvStepOk_quiet [OF n(1)] n(2) unfolding got_echo(3) by (simp add: binState_def)
    from send [OF this got_echo(2,1)] show ?thesis ..
  next
    case (got_bin p sc ms sigs chk r v ms' res)
    have "\<forall>si. si \<in> set sigs \<longrightarrow> chk si \<longrightarrow> si_pub si \<in> rbMembers (mvRb sys) \<and> (si_pub si, r, v) \<in> mvAux g" using got_bin(5) by simp
    with got_bin(1-4,6) have ?B by (intro exI conjI)
    then show ?thesis by (intro disjI2 disjI1)
  next
    case (echo p hs st' outs)
    from checkEchoState_ok [OF node [OF echo(2)] wf echo(3) [unfolded mvProcessEcho_def]] show ?thesis
      by (intro disjI1 send [OF _ echo(2,1)])
  next
    case (aux p hs r st' outs)
    from mvProcessAux_ok(1) [OF node [OF aux(2)] wf aux(3)] show ?thesis
      by (intro disjI1 send [OF _ aux(2,1)])
  next
    case (bin_timeout p hs r st' outs)
    from mvProcessAux_ok(2) [OF node [OF bin_timeout(2)] wf bin_timeout(3)] show ?thesis
      by (intro disjI1 send [OF _ bin_timeout(2,1)])
  next
    case (echo_timeout p hs st' outs)
    from mvProcessTimeouts_ok(2) [OF node [OF echo_timeout(2)] wf echo_timeout(3)] show ?thesis
      by (intro disjI1 send [OF _ echo_timeout(2,1)])
  next
    case (init_timeout p st' outs)
    from mvProcessTimeouts_ok(1) [OF node [OF init_timeout(2)] wf init_timeout(3)] show ?thesis
      by (intro disjI1 send [OF _ init_timeout(2,1)])
  next
    case (recover_timeout p st' outs)
    from mvProcessRecover_ok(1) [OF node [OF recover_timeout(2)] recover_timeout(3)] show ?thesis
      by (intro disjI1 send [OF _ recover_timeout(2,1)])
  next
    case (request p h c st' outs)
    from mvProcessRecover_ok(2) [OF node [OF request(2)] request(3)] show ?thesis
      by (intro disjI1 send [OF _ request(2,1)])
  next
    case (byz_echo p h)
    then have ?F by (intro bexI [of _ p] disjI1 exI)
    then show ?thesis by (intro disjI2)
  next
    case (byz_init p v)
    then have ?F by (intro bexI [of _ p] disjI1 [THEN disjI2] exI)
    then show ?thesis by (intro disjI2)
  next
    case (byz_aux p r v)
    then have ?F by (intro bexI [of _ p] disjI2 exI)
    then show ?thesis by (intro disjI2)
  qed
qed

section \<open>The invariant\<close>

lemma mvInv_send:
  assumes inv: "mvInv sys g" and l: "mvLocal sys g p st' outs P'"
  shows "mvInv sys ((mvSend p st' outs g)\<lparr>mvProposals := P'\<rparr>)"
proof -
  let ?g = "mvSend p st' outs g"
  have "mvNodeInv sys (mvEchoed ?g) (mvInited ?g) P' q (mvNodes ?g q)" if q: "q \<notin> mvFaulty sys" for q
  proof (cases "q = p")
    case False
    have "mvNodeInv sys (mvEchoed g) (mvInited g) (mvProposals g) q (mvNodes g q)" using inv q by (simp add: mvInv_def)
    then have "mvNodeInv sys (mvEchoed ?g) (mvInited ?g) P' q (mvNodes g q)"
      by (rule mvNodeInv_mono) (use l False in \<open>auto simp: mvLocal_def mvSend_def echoesOf_def initsOf_def\<close>)
    then show ?thesis using False by (simp add: mvSend_def)
  qed (use l in \<open>simp add: mvSend_def mvLocal_def\<close>)
  then show ?thesis by (simp add: mvInv_def mvSend_def)
qed

lemma mvInv_bin:
  assumes "mvInv sys g" "mvNodes g p = (sc, ms)" "mvGotBin chk r v sigs ms = (ms', res)"
  shows "mvInv sys (mvSend p (sc, ms') [] g)"
proof -
  obtain b where "ms' = ms\<lparr>mvBinMs := b\<rparr>" using assms(3) by (auto simp: mvGotBin_def split: prod.splits)
  then show ?thesis using assms(1,2) mvNodeInv_bin [of sys _ _ _ p sc ms b] by (auto simp: mvInv_def mvSend_def)
qed

lemma mvInv_step:
  assumes step: "mv_step sys g g'" and wf: "wf_mv sys" and inv: "mvInv sys g"
  shows "mvInv sys g'"
  using mv_step_split [OF assms]
proof (elim disjE exE conjE bexE)
  fix p st' outs P' assume "mvLocal sys g p st' outs P'" "g' = (mvSend p st' outs g)\<lparr>mvProposals := P'\<rparr>"
  then show ?thesis using mvInv_send [OF inv] by simp
next
  fix p sc ms sigs chk r v ms' res
  assume "mvNodes g p = (sc, ms)" "mvGotBin chk r v sigs ms = (ms', res)" "g' = mvSend p (sc, ms') [] g"
  then show ?thesis using mvInv_bin [OF inv] by simp
qed (use inv in \<open>auto simp: mvInv_def intro: mvNodeInv_mono\<close>)

lemma mvInv_reachable: "mv_reachable sys g \<Longrightarrow> wf_mv sys \<Longrightarrow> mvInv sys g"
proof (induction rule: mv_reachable.induct)
  case init
  then show ?case
    by (simp add: mvInv_def mvInit_def mvNodeInv_def storeInv_def itemInv_def mvSigned_def mvGenerateNewItem_def mvNewMessageState_def wf_rbms_def)
next
  case (step g g')
  then show ?case using mvInv_step by blast
qed

section \<open>The run of the binary consensus\<close>

definition binSystem :: "('p, 'v, 'h) mv_system \<Rightarrow> bool set \<Rightarrow> 'p bc_system" where
  "binSystem sys B = \<lparr>members = rbMembers (mvRb sys), faulty = mvFaulty sys, configs = \<lambda>p. binConfig (mvConfigs sys p), mvAllowed = Some B\<rparr>"

definition binGlobal :: "('p, 'v, 'h) mv_global \<Rightarrow> 'p bc_global" where
  "binGlobal g = \<lparr>nodes = \<lambda>p. binState (mvNodes g p), signed = mvAux g, proposals = {}\<rparr>"

lemma binSystem_simps [simp]:
  "members (binSystem sys B) = rbMembers (mvRb sys)" "faulty (binSystem sys B) = mvFaulty sys"
  "configs (binSystem sys B) p = binConfig (mvConfigs sys p)" "mvAllowed (binSystem sys B) = Some B"
  by (simp_all add: binSystem_def)

lemma binGlobal_simps [simp]:
  "nodes (binGlobal g) p = binState (mvNodes g p)" "signed (binGlobal g) = mvAux g" "proposals (binGlobal g) = {}"
  by (simp_all add: binGlobal_def)

lemma wf_binSystem: "wf_mv sys \<Longrightarrow> wf_system (binSystem sys B)"
  by (simp add: wf_mv_def wf_rb_def wf_system_def rbT_def)

lemma binGlobal_send: "binGlobal ((mvSend p st' outs g)\<lparr>mvProposals := P'\<rparr>) = binUpdate p (binState st') (binOuts outs) (binGlobal g)"
  by (auto simp: binGlobal_def mvSend_def binUpdate_def)

lemma binGlobal_send_same: "binGlobal (mvSend p st' outs g) = binUpdate p (binState st') (binOuts outs) (binGlobal g)"
  by (auto simp: binGlobal_def mvSend_def binUpdate_def)

lemma mvEchoed_mono: "mv_step sys g g' \<Longrightarrow> mvEchoed g \<subseteq> mvEchoed g'"
  by (induction rule: mv_step.induct) (auto simp: mvSend_def)

lemma run_of_binary:
  assumes "mv_reachable sys g" "wf_mv sys" "mvBase sys (mvEchoed g) B"
  shows "reachable (binSystem sys B) (binGlobal g)"
  using assms
proof (induction rule: mv_reachable.induct)
  case init
  show ?case using reachable.init [of "binSystem sys B"]
    by (simp add: binGlobal_def mvInit_def initGlobal_def binState_def mvGenerateNewItem_def mvNewMessageState_def)
next
  case (step g g')
  have b: "mvBase sys (mvEchoed g) B" using mvBase_mono [OF step.prems(2) mvEchoed_mono [OF step.hyps(2)]] .
  note r = step.IH [OF step.prems(1) b]
  have inv: "mvInv sys g" using mvInv_reachable [OF step.hyps(1) step.prems(1)] .
  from mv_step_split [OF step.hyps(2) step.prems(1) inv] show ?case
  proof (elim disjE exE conjE bexE)
    fix p st' outs P' assume l: "mvLocal sys g p st' outs P'" and g': "g' = (mvSend p st' outs g)\<lparr>mvProposals := P'\<rparr>"
    have "mvBase sys (mvEchoed g \<union> echoesOf p (mvOuts outs)) B" using step.prems(2) g' by (simp add: mvSend_def)
    then have "binMoves (configs (binSystem sys B) p) B (binState (mvNodes g p)) (binOuts outs) (binState st')" using l by (simp add: mvLocal_def)
    from client_reachable [OF this r] l show ?thesis unfolding g' binGlobal_send by (simp add: mvLocal_def)
  next
    fix p sc ms sigs chk rd v ms' res
    assume a: "p \<notin> mvFaulty sys" "mvNodes g p = (sc, ms)" "plain_sigs sigs"
      "\<forall>si. si \<in> set sigs \<longrightarrow> chk si \<longrightarrow> si_pub si \<in> rbMembers (mvRb sys) \<and> (si_pub si, rd, v) \<in> mvAux g"
      "mvGotBin chk rd v sigs ms = (ms', res)" "g' = mvSend p (sc, ms') [] g"
    obtain b where b: "GotMsg chk rd v sigs (mvBinMs ms) = (b, res)" "ms' = ms\<lparr>mvBinMs := b\<rparr>"
      using a(5) by (auto simp: mvGotBin_def split: prod.splits)
    have "bc_step (binSystem sys B) (binGlobal g) ((binGlobal g)\<lparr>nodes := (nodes (binGlobal g))(p := (binCons sc, b))\<rparr>)"
      by (rule bc_step.receive [OF _ _ a(3) _ b(1)]) (use a in \<open>simp_all add: binState_def\<close>)
    moreover have "binGlobal g' = (binGlobal g)\<lparr>nodes := (nodes (binGlobal g))(p := (binCons sc, b))\<rparr>"
      unfolding a(6) binGlobal_send_same by (simp add: binUpdate_def binState_def b(2))
    ultimately show ?thesis using reachable.step [OF r] by simp
  next
    fix p rd v assume "p \<in> mvFaulty sys" "g' = g\<lparr>mvAux := insert (p, rd, v) (mvAux g)\<rparr>"
    then show ?thesis using reachable.step [OF r bc_step.byzantine [of p "binSystem sys B" "binGlobal g" rd v]] by (simp add: binGlobal_def)
  qed (use r in \<open>simp_all add: binGlobal_def\<close>)
qed

lemma mvBase_UNIV [simp]: "mvBase sys E UNIV"
  by (simp add: mvBase_def)

interpretation mv1: mv_reduction binSystem binGlobal "\<lambda>sys g. mv_reachable sys g \<and> wf_mv sys" "\<lambda>sys g. mvBase sys (mvEchoed g)"
  by unfold_locales (auto simp: run_of_binary wf_binSystem)

section \<open>No panic\<close>

text \<open>What holds of a correct process at every point inside a handler.\<close>

definition mvSafe :: "('p, 'v, 'h) mv_system \<Rightarrow> ('p \<times> 'h) set \<Rightarrow> ('p \<times> 'v) set \<Rightarrow> ('p \<times> 'v) set \<Rightarrow> 'p \<Rightarrow> ('p, 'v, 'h) mv_state \<Rightarrow> bool" where
  "mvSafe sys E I P p st \<longleftrightarrow> wf_mv sys \<and> p \<notin> mvFaulty sys \<and> mvNodeInv sys E I P p st \<and> onceEach (mvRb sys) E \<and>
     (\<forall>q h. q \<notin> mvFaulty sys \<longrightarrow> (q, h) \<in> E \<longrightarrow> echoable sys I h) \<and>
     (\<exists>G. reachable (binSystem sys UNIV) G \<and> nodes G p = binState st)"

lemma mvSafe_step:
  assumes s: "mvSafe sys E I P p st" and ok: "mvStepOk sys E I P p st outs st'"
  shows "mvSafe sys (E \<union> echoesOf p (mvOuts outs)) I P p st'"
proof -
  let ?E = "E \<union> echoesOf p (mvOuts outs)"
  obtain G where G: "reachable (binSystem sys UNIV) G" "nodes G p = binState st" using s by (auto simp: mvSafe_def)
  have p: "p \<notin> mvFaulty sys" and wf: "wf_mv sys" using s by (simp_all add: mvSafe_def)
  have n: "mvNodeInv sys ?E I P p st'" using ok by (simp add: mvStepOk_def)
  then have sg: "mvSigned sys ?E I P p (sentEcho (fst st'))" using mvNodeInvD(3) by (metis prod.collapse)
  have other: "(q, h) \<in> E" if "q \<noteq> p" "(q, h) \<in> ?E" for q h using that by (auto simp: echoesOf_def)
  have "onceEach (mvRb sys) ?E"
    using s sg other unfolding onceEach_def mvSafe_def mvSigned_def by metis
  moreover have "echoable sys I h" if "q \<notin> mvFaulty sys" "(q, h) \<in> ?E" for q h
    using s sg other that unfolding mvSafe_def mvSigned_def by metis
  moreover have "binMoves (configs (binSystem sys UNIV) p) UNIV (binState st) (binOuts outs) (binState st')" using ok by (simp add: mvStepOk_def)
  from client_reachable [OF this G(1) _ _ G(2)] p
  have "reachable (binSystem sys UNIV) (binUpdate p (binState st') (binOuts outs) G)" by simp
  then have "\<exists>G. reachable (binSystem sys UNIV) G \<and> nodes G p = binState st'" by (intro exI conjI) (auto simp: binUpdate_def)
  ultimately show ?thesis using wf p n unfolding mvSafe_def by blast
qed

lemma mvSafe_quorum:
  assumes "mvSafe sys E I P p st"
  shows "echoQuorum (mvRb sys) E h \<Longrightarrow> echoQuorum (mvRb sys) E h' \<Longrightarrow> h = h'" "echoQuorum (mvRb sys) E h \<Longrightarrow> echoable sys I h"
proof -
  have wf: "wf_rb (mvRb sys)" using assms wf_mvD(1) by (auto simp: mvSafe_def)
  show "echoQuorum (mvRb sys) E h \<Longrightarrow> echoQuorum (mvRb sys) E h' \<Longrightarrow> h = h'" using echoQuorum_agree [OF wf] assms by (auto simp: mvSafe_def)
  show "echoable sys I h" if "echoQuorum (mvRb sys) E h"
  proof -
    obtain S where S: "S \<subseteq> {q \<in> rbMembers (mvRb sys). (q, h) \<in> E}" "rbNmt (mvRb sys) \<le> int (card S)" using \<open>echoQuorum (mvRb sys) E h\<close> by (auto simp: echoQuorum_def)
    then obtain q where "q \<in> S" "q \<notin> mvFaulty sys" using has_correct [OF wf, of S] rb_thresholds(2) [OF wf] by auto
    then show ?thesis using S(1) assms by (auto simp: mvSafe_def)
  qed
qed

lemma supportOne_total:
  assumes st: "storeInv R E ms" and h: "supportedEchoHash ms = Some h" and cfg: "rbMemberCount cfg - rbFaultCount cfg = rbNmt R" "0 < rbNmt R"
  shows "\<exists>x. supportOne cfg ms = Inr x"
proof -
  obtain b sent where sp: "SentProposal 0 True (mvBinMs ms) = (b, sent)" by (cases "SentProposal 0 True (mvBinMs ms)")
  let ?sm = "\<lparr>sm_hash = MvEcho 0 h, sm_msgid = EchoID 0, sm_sigs = []\<rparr> :: ('a, 'b, 'c) echo_signed"
  obtain sms' r where s: "SetupSignedMessage (rbSms ms) ?sm (rbMyPub cfg) None (rbNmt R) = (sms', r)"
    by (cases "SetupSignedMessage (rbSms ms) ?sm (rbMyPub cfg) None (rbNmt R)")
  have w: "wf_sms (rbSms ms)" "unsignedMsgMap (rbSms ms) (sm_hash ?sm) = None" "rbNmt R \<le> int (card (signers (rbSms ms) (sm_hash ?sm)))"
    using st h by (simp_all add: storeInv_def wf_rbms_def)
  obtain l where l: "r = Inr (?sm\<lparr>sm_sigs := l\<rparr>)" "int (length l) = rbNmt R" using SetupSignedMessage_proof [OF w(1,2) cfg(2) w(3) s] by blast
  have "\<exists>x. generateMvProofs cfg (rbMemberCount cfg - rbFaultCount cfg) (ms\<lparr>mvBinMs := b\<rparr>) = Inr x"
    using s l h cfg(1) by (simp add: generateMvProofs_def)
  then show ?thesis using sp by (auto simp: supportOne_def Let_def split: prod.splits)
qed

lemma echoHash_total:
  assumes s: "mvSafe sys E I P p st"
  shows "\<exists>x. echoHash (mvConfigs sys p) h st = Inr x"
proof -
  obtain sc ms where st: "st = (sc, ms)" by (cases st)
  have wf: "wf_mv sys" and inv: "mvNodeInv sys E I P p (sc, ms)" using s st by (simp_all add: mvSafe_def)
  note i = mvNodeInvD [OF inv] and w = wf_mvD [OF wf]
  show ?thesis
  proof (cases "rbNmt (mvRb sys) \<le> getSigCountMsg (rbSms ms) (MvEcho 0 h) \<and> h \<noteq> mvZero sys")
    case False
    then show ?thesis using w(2,4) by (auto simp: echoHash_def st)
  next
    case True
    note c = storeInv_count [OF i(1) conjunct1 [OF True]]
    have sup: "supportedEchoHash ms = None \<or> supportedEchoHash ms = Some h"
      using storeInv_echoQuorum [OF i(1)] mvSafe_quorum(1) [OF s _ c(2)] by (cases "supportedEchoHash ms") auto
    let ?ms1 = "ms\<lparr>mvBinMs := SetMv1Valid (mvBinMs ms), supportedEchoHash := Some h\<rparr>"
    let ?sc1 = "sc\<lparr>echoTimeOutState := TimeoutPassed\<rparr>"
    have s1: "storeInv (mvRb sys) E ?ms1" using i(1) c(1) by (simp add: storeInv_def wf_rbms_def)
    have "0 < rbNmt (mvRb sys)" using rb_thresholds [OF w(1)] by simp
    then obtain ms2 o1 where so: "supportOne (mvConfigs sys p) ?ms1 = Inr (ms2, o1)" using supportOne_total [OF s1 _ w(2)] by fastforce
    have "echoable sys I h" using mvSafe_quorum(2) [OF s c(2)] .
    then have v: "validHashLen (mvConfigs sys p) h" using True wf by (auto simp: echoable_def wf_mv_def)
    have "decisionInitMsg sc \<noteq> None \<Longrightarrow> decisionHashBytes sc = Some h" using i(2) sup by (auto simp: itemInv_def)
    then have "\<exists>x. decideHash (mvConfigs sys p) h ?sc1 = Inr x" using v by (auto simp: decideHash_def Let_def split: option.splits prod.splits)
    then show ?thesis using True sup so w(2,4) by (auto simp: echoHash_def setEchoHash_def st)
  qed
qed

lemma echoLoop_total: "mvSafe sys E I P p st \<Longrightarrow> \<exists>x. echoLoop (mvConfigs sys p) hs st = Inr x"
proof (induction hs arbitrary: E st)
  case (Cons h hs)
  obtain st1 o1 where h: "echoHash (mvConfigs sys p) h st = Inr (st1, o1)" using echoHash_total [OF Cons.prems] by fastforce
  have "mvNodeInv sys E I P p st" "wf_mv sys" using Cons.prems by (simp_all add: mvSafe_def)
  from mvSafe_step [OF Cons.prems echoHash_ok [OF this h]] show ?case using Cons.IH h by fastforce
qed simp

lemma mvSafe_decided:
  assumes "mvSafe sys E I P p st"
  shows "Decided (binCons (fst st)) \<in> {-1, 0, 1}"
proof (cases "Decided (binCons (fst st)) = -1")
  case False
  obtain G where G: "reachable (binSystem sys UNIV) G" "nodes G p = binState st" and a: "wf_mv sys" "p \<notin> mvFaulty sys"
    using assms by (auto simp: mvSafe_def)
  have "GetDecision (fst (nodes G p)) = Inr (Decided (binCons (fst st)))" using False G(2) by (simp add: GetDecision_def binState_def)
  then show ?thesis using client_validity [OF G(1) wf_binSystem [OF a(1)], of p _ UNIV] a(2) by auto
qed simp

lemma mvHasDecided_total: "mvSafe sys E I P p (sc, ms) \<Longrightarrow> \<exists>b. mvHasDecided sc = Inr b"
  using mvSafe_decided [of sys E I P p "(sc, ms)"] by (auto simp: mvHasDecided_def)

lemma echoPhase_total:
  assumes s: "mvSafe sys E I P p st"
  shows "\<exists>x. echoPhase (mvConfigs sys p) hs st = Inr x"
proof -
  have i: "mvNodeInv sys E I P p st" "wf_mv sys" using s by (simp_all add: mvSafe_def)
  obtain sc1 ms1 o1 where l: "echoLoop (mvConfigs sys p) hs st = Inr ((sc1, ms1), o1)" using echoLoop_total [OF s, of hs] by fastforce
  obtain b where "mvHasDecided sc1 = Inr b" using mvHasDecided_total [OF mvSafe_step [OF s echoLoop_ok [OF i l]]] by blast
  then have "\<exists>x. sendEchoTimeout sc1 = Inr x" by (simp add: sendEchoTimeout_def)
  then show ?thesis using l by (auto simp: echoPhase_def split: prod.splits)
qed

lemma runRounds_total:
  assumes s: "mvSafe sys E I P p st"
  shows "\<exists>x. runRounds (mvConfigs sys p) st = Some (Inr x)"
proof -
  obtain G where G: "reachable (binSystem sys UNIV) G" "nodes G p = binState st" and a: "wf_mv sys" "p \<notin> mvFaulty sys"
    using s by (auto simp: mvSafe_def)
  let ?b = "binConfig (mvConfigs sys p)"
  obtain b o1 where "checkRounds ?b (memberCount ?b - faultCount ?b) (faultCount ?b) 1 (binState st) [] = Some (Inr (b, o1))"
    using client_rounds [OF G(1) wf_binSystem [OF a(1)] _ G(2), of 1] a(2) by auto
  then show ?thesis using wf_mvD(5,6) [OF a(1), of p] by (simp add: runRounds_def)
qed

lemma checkEchoState_total:
  assumes s: "mvSafe sys E I P p st"
  shows "\<exists>x. checkEchoState (mvConfigs sys p) hs st = Some (Inr x)"
proof -
  have i: "mvNodeInv sys E I P p st" "wf_mv sys" using s by (simp_all add: mvSafe_def)
  obtain st1 o1 where e: "echoPhase (mvConfigs sys p) hs st = Inr (st1, o1)" using echoPhase_total [OF s, of hs] by fastforce
  obtain sc2 ms2 o2 where "runRounds (mvConfigs sys p) st1 = Some (Inr ((sc2, ms2), o2))"
    using runRounds_total [OF mvSafe_step [OF s echoPhase_ok [OF i e]]] by fastforce
  then show ?thesis using e by (simp add: checkEchoState_def Let_def)
qed

lemma thenEchoState_total:
  assumes s: "mvSafe sys E I P p st" and ok: "mvStepOk sys E I P p st o1 st1"
  shows "\<exists>st2 o2. thenEchoState (mvConfigs sys p) hs (st1, o1) = Some (Inr (st2, o2))"
  using checkEchoState_total [OF mvSafe_step [OF s ok], of hs] by (auto simp: thenEchoState_def)

lemma mvProcessBin_total:
  assumes s: "mvSafe sys E I P p st"
  shows "\<exists>x. mvProcessAux (mvConfigs sys p) hs r st = Some (Inr x)" "\<exists>x. mvProcessBinTimeout (mvConfigs sys p) hs r st = Some (Inr x)"
proof -
  obtain G where G: "reachable (binSystem sys UNIV) G" "nodes G p = binState st" and a: "wf_mv sys" "p \<notin> mvFaulty sys"
    and i: "mvNodeInv sys E I P p st" using s by (auto simp: mvSafe_def)
  let ?b = "binConfig (mvConfigs sys p)"
  have ok: "\<exists>x. mvProcessBin (mvConfigs sys p) hs res st = Some (Inr x)"
    if r: "res = Some (Inr (b, o1, pr, fw))" "\<And>B. binMoves ?b B (binState st) o1 b" for res b o1 pr fw
  proof -
    have "mvStepOk sys E I P p st (map (\<lambda>x. BinOut x []) o1) (setBin b st)" using mvNodeInv_setBin [OF i] r(2) by (simp add: mvStepOk_def)
    from thenEchoState_total [OF s this, of hs] show ?thesis using r(1) by (auto simp: mvProcessBin_def)
  qed
  have h: "\<exists>x. ProcessAux ?b r (binState st) = Some (Inr x)" "\<exists>x. ProcessTimeout ?b r (binState st) = Some (Inr x)"
    using handlers_return [OF G(1) wf_binSystem [OF a(1)], of p r] a(2) G(2) by simp_all
  from h(1) obtain b o1 pr fw where A: "ProcessAux ?b r (binState st) = Some (Inr (b, o1, pr, fw))" by auto
  from h(2) obtain b' o1' pr' fw' where T: "ProcessTimeout ?b r (binState st) = Some (Inr (b', o1', pr', fw'))" by auto
  show "\<exists>x. mvProcessAux (mvConfigs sys p) hs r st = Some (Inr x)"
    unfolding mvProcessAux_def by (rule ok [OF A binMoves.aux [OF A]])
  show "\<exists>x. mvProcessBinTimeout (mvConfigs sys p) hs r st = Some (Inr x)"
    unfolding mvProcessBinTimeout_def by (rule ok [OF T binMoves.timeout [OF T]])
qed

lemma mvSafe_same:
  assumes "mvSafe sys E I P p (sc, ms)" "mvSame sc sc'"
  shows "mvSafe sys E I P p (sc', ms)"
proof -
  have "mvNodeInv sys E I P p (sc', ms)" using mvNodeInv_same [OF _ assms(2)] assms(1) by (simp add: mvSafe_def)
  moreover have "binState (sc', ms) = binState (sc, ms)" using assms(2) by (simp add: binState_def mvSame_def)
  ultimately show ?thesis using assms(1) by (simp add: mvSafe_def)
qed

lemma mvProcessInit_total:
  assumes s: "mvSafe sys E I P p (sc, ms)" and c: "rbCoord (mvRb sys) pub" and i: "(pub, v) \<in> I"
  shows "\<exists>x. mvProcessInit (mvConfigs sys p) hs l' pub v (sc, ms) = Some (Inr x)"
proof -
  have n: "mvNodeInv sys E I P p (sc, ms)" and wf: "wf_mv sys" using s by (simp_all add: mvSafe_def)
  let ?l = "sortVRF (mvConfigs sys p) l' (sortedInitHashes sc @ [(pub, v)])"
  let ?sc1 = "sc\<lparr>validatedInitHashes := AList.update (rbHash (mvRb sys) v) (pub, v) (validatedInitHashes sc), sortedInitHashes := ?l\<rparr>"
  have n1: "mvNodeInv sys E I P p (?sc1, ms)" using mvNodeInv_newInit [OF n c i, of ?l] by (simp add: sortVRF_set)
  then have s1: "mvSafe sys E I P p (?sc1, ms)" using s by (simp add: mvSafe_def binState_def)
  obtain st2 o2 where e: "checkSendEcho (mvConfigs sys p) (?sc1, ms) = (st2, o2)" by (cases "checkSendEcho (mvConfigs sys p) (?sc1, ms)")
  obtain sc3 ms3 o3 where "thenEchoState (mvConfigs sys p) hs (st2, o2) = Some (Inr ((sc3, ms3), o3))"
    using thenEchoState_total [OF s1 checkSendEcho_ok [OF n1 wf e], of hs] by fastforce
  then show ?thesis using e c wf_mvD(7,8) [OF wf, of p] by (simp add: mvProcessInit_def Let_def split: prod.splits)
qed

lemma mvInv_safe:
  assumes "mv_reachable sys g" "wf_mv sys" "p \<notin> mvFaulty sys"
  shows "mvSafe sys (mvEchoed g) (mvInited g) (mvProposals g) p (mvNodes g p)"
proof -
  have inv: "mvInv sys g" using mvInv_reachable [OF assms(1,2)] .
  then have "echoable sys (mvInited g) h" if "q \<notin> mvFaulty sys" "(q, h) \<in> mvEchoed g" for q h
    using that mvNodeInvD(3) unfolding mvInv_def mvSigned_def by (metis prod.collapse)
  moreover have "reachable (binSystem sys UNIV) (binGlobal g)" using run_of_binary [OF assms(1,2)] by simp
  then have "\<exists>G. reachable (binSystem sys UNIV) G \<and> nodes G p = binState (mvNodes g p)" by (intro exI conjI) auto
  ultimately show ?thesis using assms inv mvInv_once [OF inv] unfolding mvSafe_def mvInv_def by blast
qed

end
