(* ===== verification/MvCons1_Results.thy ===== *)
theory MvCons1_Results
  imports MvCons1_Runs
begin

text \<open>
  What the multi-value consensus guarantees in every run: agreement, validity, that the decision 1 of the binary consensus names
  one proposal, and the absence of panics. A run that is evaluated shows that the hypotheses can hold.
\<close>

section \<open>Executable runs\<close>

datatype ('p, 'v, 'h) mv_action =
    AStart 'p | APropose 'p 'v | AInit 'p "'h list" 'v "'p sig_item list" | AGotEcho 'p 'h "'p sig_item list" | AGotBin 'p nat bool "'p sig_item list"
  | AEcho 'p "'h list" | AAux 'p "'h list" nat | AByzEcho 'p 'h

definition mvRan :: "'p \<Rightarrow> (('p, 'v, 'h) mv_state \<times> ('p, 'v, 'h) mv_out list) res option \<Rightarrow> ('p, 'v, 'h) mv_global \<Rightarrow> ('p, 'v, 'h) mv_global" where
  "mvRan p r g = (case r of Some (Inr (st', outs)) \<Rightarrow> mvSend p st' outs g | _ \<Rightarrow> g)"

fun mvExec :: "('p, 'v, 'h) mv_system \<Rightarrow> ('p, 'v, 'h) mv_action \<Rightarrow> ('p, 'v, 'h) mv_global \<Rightarrow> ('p, 'v, 'h) mv_global" where
  "mvExec sys (AStart p) g =
     (if p \<in> mvFaulty sys then g
      else (case mvStart (mvConfigs sys p) (fst (mvNodes g p)) of (sc', outs) \<Rightarrow> mvSend p (sc', snd (mvNodes g p)) outs g))"
| "mvExec sys (APropose p v) g =
     (if p \<in> mvFaulty sys then g
      else (mvSend p (fst (mvNodes g p), snd (mvNodes g p)) (mvItemGotProposal v (fst (mvNodes g p))) g)\<lparr>mvProposals := insert (p, v) (mvProposals g)\<rparr>)"
| "mvExec sys (AInit p hs v sigs) g =
     (if p \<in> mvFaulty sys \<or> \<not> plain_sigs sigs then g
      else (case mvGotInit (\<lambda>si. (si_pub si, v) \<in> mvInited g) (mvConfigs sys p) 0 v sigs (snd (mvNodes g p)) of
              (ms', Inl e) \<Rightarrow> mvSend p (fst (mvNodes g p), ms') [] g
            | (ms', Inr pub) \<Rightarrow> mvRan p (mvProcessInit (mvConfigs sys p) hs [] pub v (fst (mvNodes g p), ms')) g))"
| "mvExec sys (AGotEcho p h sigs) g =
     (if p \<in> mvFaulty sys \<or> \<not> plain_sigs sigs then g
      else mvSend p (fst (mvNodes g p), fst (mvGotEcho (\<lambda>si. si_pub si \<in> rbMembers (mvRb sys) \<and> (si_pub si, h) \<in> mvEchoed g) 0 h sigs (snd (mvNodes g p)))) [] g)"
| "mvExec sys (AGotBin p r v sigs) g =
     (if p \<in> mvFaulty sys \<or> \<not> plain_sigs sigs then g
      else mvSend p (fst (mvNodes g p), fst (mvGotBin (\<lambda>si. si_pub si \<in> rbMembers (mvRb sys) \<and> (si_pub si, r, v) \<in> mvAux g) r v sigs (snd (mvNodes g p)))) [] g)"
| "mvExec sys (AEcho p hs) g = (if p \<in> mvFaulty sys then g else mvRan p (mvProcessEcho (mvConfigs sys p) hs (mvNodes g p)) g)"
| "mvExec sys (AAux p hs r) g = (if p \<in> mvFaulty sys then g else mvRan p (mvProcessAux (mvConfigs sys p) hs r (mvNodes g p)) g)"
| "mvExec sys (AByzEcho p h) g = (if p \<in> mvFaulty sys then g\<lparr>mvEchoed := insert (p, h) (mvEchoed g)\<rparr> else g)"

lemma mvRan_step: "(\<And>st' outs. r = Some (Inr (st', outs)) \<Longrightarrow> mv_step sys g (mvSend p st' outs g)) \<Longrightarrow> mvRan p r g = g \<or> mv_step sys g (mvRan p r g)"
  by (auto simp: mvRan_def split: option.splits sum.splits)

lemma mvExec_step: "mvExec sys a g = g \<or> mv_step sys g (mvExec sys a g)"
proof (cases a)
  case (AStart p)
  obtain sc' outs where "mvStart (mvConfigs sys p) (fst (mvNodes g p)) = (sc', outs)" by (cases "mvStart (mvConfigs sys p) (fst (mvNodes g p))")
  then show ?thesis using AStart mv_step.start [of p sys g "fst (mvNodes g p)" "snd (mvNodes g p)" sc' outs] by simp
next
  case (APropose p v)
  then show ?thesis using mv_step.propose [of p sys g "fst (mvNodes g p)" "snd (mvNodes g p)" v] by simp
next
  case (AInit p hs v sigs)
  let ?chk = "\<lambda>si. (si_pub si, v) \<in> mvInited g" and ?sc = "fst (mvNodes g p)" and ?ms = "snd (mvNodes g p)"
  obtain ms' res where gi: "mvGotInit ?chk (mvConfigs sys p) 0 v sigs ?ms = (ms', res)" by (cases "mvGotInit ?chk (mvConfigs sys p) 0 v sigs ?ms")
  show ?thesis
  proof (cases res)
    case (Inl e)
    then show ?thesis using AInit gi mv_step.init_reject [of p sys g ?sc ?ms sigs ?chk 0 v ms' e] by simp
  next
    case (Inr pub)
    have "mvRan p (mvProcessInit (mvConfigs sys p) hs [] pub v (?sc, ms')) g = g \<or>
        mv_step sys g (mvRan p (mvProcessInit (mvConfigs sys p) hs [] pub v (?sc, ms')) g)" if "p \<notin> mvFaulty sys" "plain_sigs sigs"
      using that gi Inr by (intro mvRan_step mv_step.init [of p sys g ?sc ?ms sigs ?chk v 0 ms' pub hs "[]"]) simp_all
    then show ?thesis using AInit gi Inr by simp
  qed
next
  case (AGotEcho p h sigs)
  let ?chk = "\<lambda>si. si_pub si \<in> rbMembers (mvRb sys) \<and> (si_pub si, h) \<in> mvEchoed g"
  show ?thesis using AGotEcho mv_step.got_echo [of p sys g "fst (mvNodes g p)" "snd (mvNodes g p)" sigs ?chk h 0, OF _ _ _ _ surjective_pairing] by simp
next
  case (AGotBin p r v sigs)
  let ?chk = "\<lambda>si. si_pub si \<in> rbMembers (mvRb sys) \<and> (si_pub si, r, v) \<in> mvAux g"
  show ?thesis using AGotBin mv_step.got_bin [of p sys g "fst (mvNodes g p)" "snd (mvNodes g p)" sigs ?chk r v, OF _ _ _ _ surjective_pairing] by simp
next
  case (AEcho p hs)
  then show ?thesis using mvRan_step [OF mv_step.echo [of p sys hs g]] by simp
next
  case (AAux p hs r)
  then show ?thesis using mvRan_step [OF mv_step.aux [of p sys hs r g]] by simp
qed (auto intro: mv_step.byz_echo)

lemma mvExec_reachable: "mv_reachable sys g \<Longrightarrow> mv_reachable sys (fold (mvExec sys) as g)"
proof (induction as arbitrary: g)
  case (Cons a as)
  have "mv_reachable sys (mvExec sys a g)" using mvExec_step [of sys a g] Cons.prems mv_reachable.step by metis
  then show ?case using Cons.IH by simp
qed simp

text \<open>
  The members of \<open>rbDemo\<close>. Member 0 is the coordinator and member 3 is faulty. Process 2 does not get the init message: the echoes of the
  others make it support 1, and it decides 1 in the binary consensus without having the proposal; processes 0 and 1 decide the proposal 7.
\<close>

definition mvDemoConfig :: "nat \<Rightarrow> (nat, nat, nat) mv_config" where
  "mvDemoConfig p = \<lparr>rbMemberCount = 4, rbFaultCount = 1, rbMyPub = p, rbMemberLocal = True, isCoord = \<lambda>q. q = 0, GetHash = \<lambda>v. v,
     emptyProposal = \<lambda>v. v = 0, commitMember = \<lambda>_. True, binConfig = demoConfig p, zeroHash = 0, validHashLen = \<lambda>_. True, echoMember = \<lambda>_. True, waitForRndCoord = False,
     VRFID = \<lambda>q. q, mvIncludeProofs = True\<rparr>"

definition mvDemo :: "(nat, nat, nat) mv_system" where
  "mvDemo = \<lparr>mvRb = rbDemo, mvZero = 0, mvConfigs = mvDemoConfig\<rparr>"

definition mvDemoRun :: "(nat, nat, nat) mv_action list" where
  "mvDemoRun = [AStart 0, APropose 0 7] @ map (\<lambda>p. AInit p [] 7 [rbDemoSig 0]) [0, 1] @ [AByzEcho 3 7, AByzEcho 3 8] @
     map (\<lambda>p. AGotEcho p 7 (map rbDemoSig [0, 1, 3])) [0, 1, 2] @ map (\<lambda>p. AEcho p [7]) [0, 1, 2] @
     map (\<lambda>p. AGotBin p 1 True (map rbDemoSig [0, 1, 2])) [0, 1, 2] @ map (\<lambda>p. AAux p [7] 1) [0, 1, 2]"

definition mvDemoFinal :: "(nat, nat, nat) mv_global" where
  "mvDemoFinal = fold (mvExec mvDemo) mvDemoRun mvInit"

lemma mvDemo_wf: "wf_mv mvDemo"
  using rbDemo_wf by (simp add: wf_mv_def mvDemo_def mvDemoConfig_def rbDemo_def demoConfig_def rbT_def GetOneThirdBottom_def)

lemma mvDemo_reachable: "mv_reachable mvDemo mvDemoFinal"
  unfolding mvDemoFinal_def by (rule mvExec_reachable) (rule mv_reachable.init)

lemma mvDemo_correct: "0 \<notin> mvFaulty mvDemo" "1 \<notin> mvFaulty mvDemo" "2 \<notin> mvFaulty mvDemo"
  by (simp_all add: mvDemo_def rbDemo_def)

lemma mvDemo_decided:
  "map (\<lambda>p. mvGetDecision (fst (mvNodes mvDemoFinal p))) [0, 1] = [Inr (Some (Some 0, 7)), Inr (Some (Some 0, 7))]"
  "map (\<lambda>p. Decided (binCons (fst (mvNodes mvDemoFinal p)))) [0, 1, 2] = [1, 1, 1]"
  by code_simp+

lemma mvDemo_decisions:
  "mvGetDecision (fst (mvNodes mvDemoFinal 0)) = Inr (Some (Some 0, 7))" "mvGetDecision (fst (mvNodes mvDemoFinal 1)) = Inr (Some (Some 0, 7))"
  using mvDemo_decided(1) by simp_all

section \<open>Main results\<close>

lemma mv_decided:
  assumes "mv_reachable sys g" "wf_mv sys" "p \<notin> mvFaulty sys" "mvGetDecision (fst (mvNodes g p)) = Inr d"
  shows "GetDecision (fst (nodes (binGlobal g) p)) = Inr (of_bool (d \<noteq> None))"
    "d = Some (pub, v) \<Longrightarrow> \<exists>c. pub = Some c \<and> rbCoord (mvRb sys) c \<and> (c, v) \<in> mvInited g \<and> echoQuorum (mvRb sys) (mvEchoed g) (rbHash (mvRb sys) v)"
proof -
  obtain sc ms where st: "mvNodes g p = (sc, ms)" by (cases "mvNodes g p")
  have "mvNodeInv sys (mvEchoed g) (mvInited g) (mvProposals g) p (sc, ms)" using mvInv_reachable [OF assms(1,2)] assms(3) st by (auto simp: mvInv_def)
  note i = mvNodeInvD [OF this]
  show "GetDecision (fst (nodes (binGlobal g) p)) = Inr (of_bool (d \<noteq> None))"
    using assms(4) by (auto simp: mvGetDecision_def GetDecision_def binState_def st split: if_splits option.splits)
  show "\<exists>c. pub = Some c \<and> rbCoord (mvRb sys) c \<and> (c, v) \<in> mvInited g \<and> echoQuorum (mvRb sys) (mvEchoed g) (rbHash (mvRb sys) v)" if "d = Some (pub, v)"
  proof -
    have "decisionInitMsg sc = Some v" "decisionPub sc = pub"
      using assms(4) that by (auto simp: mvGetDecision_def st split: if_splits option.splits)
    then show ?thesis using i(2) storeInv_echoQuorum [OF i(1)] by (auto simp: itemInv_def)
  qed
qed

text \<open>
  C14 (run of the binary consensus). Every run of the multi-value consensus, seen at the binary items, their stores and their messages, is a run
  of the binary consensus with the same processes, in which only 0, and 1 when a proposal has \<open>n - t\<close> echoes, are declared valid for round 1.
\<close>

theorem mv1_refines_bincons1:
  assumes "mv_reachable sys g" "wf_mv sys"
  shows "reachable (binSystem sys (insert False {v. v \<and> (\<exists>h. h \<noteq> mvZero sys \<and> echoQuorum (mvRb sys) (mvEchoed g) h)})) (binGlobal g)"
  by (rule mv1.run [OF conjI [OF assms]]) (simp add: mvBase_def)

theorem mv1_refines_bincons1_witness:
  "reachable (binSystem mvDemo (insert False {v. v \<and> (\<exists>h. h \<noteq> mvZero mvDemo \<and> echoQuorum (mvRb mvDemo) (mvEchoed mvDemoFinal) h)})) (binGlobal mvDemoFinal) \<and>
   map (\<lambda>p. Decided (fst (nodes (binGlobal mvDemoFinal) p))) [0, 1, 2] = [1, 1, 1]"
  using mv1_refines_bincons1 [OF mvDemo_reachable mvDemo_wf] mvDemo_decided(2) by (simp add: binState_def)

text \<open>
  C13 (agreement). Two correct processes that decided decided the same: both nothing, or both a proposal with the same hash.
\<close>

theorem mv1_agreement:
  assumes "mv_reachable sys g" "wf_mv sys" "p \<notin> mvFaulty sys" "q \<notin> mvFaulty sys"
    and "mvGetDecision (fst (mvNodes g p)) = Inr a" "mvGetDecision (fst (mvNodes g q)) = Inr b"
  shows "map_option (rbHash (mvRb sys) \<circ> snd) a = map_option (rbHash (mvRb sys) \<circ> snd) b"
proof -
  note a = mv_decided [OF assms(1-3,5)] and b = mv_decided [OF assms(1,2,4,6)]
  have "of_bool (a \<noteq> None) = (of_bool (b \<noteq> None) :: int)"
    using mv1.agreement [OF conjI [OF assms(1,2)] _ _ a(1) b(1)] assms(3,4) by simp
  then have n: "a \<noteq> None \<longleftrightarrow> b \<noteq> None" by (simp only: of_bool_eq_iff)
  show ?thesis
  proof (cases a)
    case None
    then show ?thesis using n by (cases b) simp_all
  next
    case (Some x)
    then obtain y where y: "b = Some y" using n by auto
    obtain pub v pub' w where xy: "x = (pub, v)" "y = (pub', w)" by (cases x; cases y)
    have "echoQuorum (mvRb sys) (mvEchoed g) (rbHash (mvRb sys) v)" "echoQuorum (mvRb sys) (mvEchoed g) (rbHash (mvRb sys) w)"
      using a(2) [of pub v] b(2) [of pub' w] Some y xy by auto
    then have "rbHash (mvRb sys) v = rbHash (mvRb sys) w" using mvSafe_quorum(1) [OF mvInv_safe [OF assms(1-3)]] by blast
    then show ?thesis using Some y xy by simp
  qed
qed

theorem mv1_agreement_witness:
  "mvGetDecision (fst (mvNodes mvDemoFinal 0)) = Inr (Some (Some 0, 7)) \<and> mvGetDecision (fst (mvNodes mvDemoFinal 1)) = Inr (Some (Some 0, 7)) \<and>
   map_option (rbHash (mvRb mvDemo) \<circ> snd) (Some (Some (0::nat), 7)) = map_option (rbHash (mvRb mvDemo) \<circ> snd) (Some (Some (0::nat), 7))"
  using mv1_agreement [OF mvDemo_reachable mvDemo_wf mvDemo_correct(1,2) mvDemo_decisions] mvDemo_decisions by simp

text \<open>
  C16 (validity). A decided proposal was signed by a coordinator, has \<open>n - t\<close> echoes, and was proposed if this coordinator is correct.
\<close>

theorem mv1_validity:
  assumes "mv_reachable sys g" "wf_mv sys" "p \<notin> mvFaulty sys" "mvGetDecision (fst (mvNodes g p)) = Inr (Some (pub, v))"
  shows "\<exists>c. pub = Some c \<and> rbCoord (mvRb sys) c \<and> (c, v) \<in> mvInited g \<and> (c \<in> mvFaulty sys \<or> (c, v) \<in> mvProposals g) \<and>
    echoQuorum (mvRb sys) (mvEchoed g) (rbHash (mvRb sys) v)"
proof -
  obtain c where c: "pub = Some c" "rbCoord (mvRb sys) c" "(c, v) \<in> mvInited g" "echoQuorum (mvRb sys) (mvEchoed g) (rbHash (mvRb sys) v)"
    using mv_decided(2) [OF assms HOL.refl] by blast
  have "(c, v) \<in> mvProposals g" if "c \<notin> mvFaulty sys"
  proof -
    have "mvNodeInv sys (mvEchoed g) (mvInited g) (mvProposals g) c (mvNodes g c)" using mvInv_reachable [OF assms(1,2)] that by (simp add: mvInv_def)
    then show ?thesis using mvNodeInvD(3) c(3) unfolding mvSigned_def by (metis prod.collapse)
  qed
  then show ?thesis using c by blast
qed

theorem mv1_validity_witness:
  "\<exists>c. Some 0 = Some c \<and> rbCoord (mvRb mvDemo) c \<and> (c, 7) \<in> mvInited mvDemoFinal \<and> (c, 7) \<in> mvProposals mvDemoFinal \<and>
     echoQuorum (mvRb mvDemo) (mvEchoed mvDemoFinal) 7"
proof -
  have h: "rbHash (mvRb mvDemo) 7 = 7" by (simp add: mvDemo_def rbDemo_def)
  from mv1_validity [OF mvDemo_reachable mvDemo_wf mvDemo_correct(2) mvDemo_decisions(2)] show ?thesis using mvDemo_correct(1) unfolding h by simp
qed

text \<open>
  C15 (the decision 1 names one proposal). When the binary consensus of a correct process decides 1, also while the process has not received
  the proposal, there is exactly one hash with \<open>n - t\<close> echoes, and it is the hash of a proposal that a coordinator signed.
\<close>

theorem mv1_decision_recoverable:
  assumes "mv_reachable sys g" "wf_mv sys" "p \<notin> mvFaulty sys" "Decided (binCons (fst (mvNodes g p))) = 1"
  shows "\<exists>c v. rbCoord (mvRb sys) c \<and> (c, v) \<in> mvInited g \<and>
    {h. h \<noteq> mvZero sys \<and> echoQuorum (mvRb sys) (mvEchoed g) h} = {rbHash (mvRb sys) v}"
proof -
  let ?Q = "\<lambda>h. h \<noteq> mvZero sys \<and> echoQuorum (mvRb sys) (mvEchoed g) h"
  let ?B = "{v. v \<longrightarrow> (\<exists>h. ?Q h)}"
  have B: "mvBase sys (mvEchoed g) ?B" by (simp add: mvBase_def)
  have "GetDecision (fst (nodes (binGlobal g) p)) = Inr 1" using assms(4) by (simp add: GetDecision_def binState_def)
  then obtain h where h: "?Q h" using mv1.decided_allowed [OF conjI [OF assms(1,2)] B, of p 1] assms(3) by auto
  note s = mvInv_safe [OF assms(1-3)]
  obtain c v where c: "rbCoord (mvRb sys) c" "(c, v) \<in> mvInited g" "h = rbHash (mvRb sys) v"
    using mvSafe_quorum(2) [OF s] h unfolding echoable_def by blast
  have "{h. ?Q h} = {h}" using mvSafe_quorum(1) [OF s] h by blast
  then show ?thesis using c by blast
qed

theorem mv1_decision_recoverable_witness:
  "decisionInitMsg (fst (mvNodes mvDemoFinal 2)) = None \<and> Decided (binCons (fst (mvNodes mvDemoFinal 2))) = 1 \<and>
   (\<exists>c v. rbCoord (mvRb mvDemo) c \<and> (c, v) \<in> mvInited mvDemoFinal \<and>
     {h. h \<noteq> mvZero mvDemo \<and> echoQuorum (mvRb mvDemo) (mvEchoed mvDemoFinal) h} = {rbHash (mvRb mvDemo) v})"
proof -
  have d: "Decided (binCons (fst (mvNodes mvDemoFinal 2))) = 1" using mvDemo_decided(2) by simp
  have "decisionInitMsg (fst (mvNodes mvDemoFinal 2)) = None" by code_simp
  then show ?thesis using d mv1_decision_recoverable [OF mvDemo_reachable mvDemo_wf mvDemo_correct(3) d] by blast
qed

text \<open>
  C17 (no panic). In every reachable state, at a correct process, whatever the order in which the stored echoes are visited: the processing of
  echoes, of messages and timeouts of the binary consensus and of the echo timeout returns and does not panic. Neither does receiving an init
  message or echoes that were signed, and an accepted init message is processed. An item that has decided has a decision to return.
\<close>

theorem mv1_no_panic:
  assumes "mv_reachable sys g" "wf_mv sys" "p \<notin> mvFaulty sys" "mvNodes g p = (sc, ms)" "plain_sigs sigs"
    and "\<forall>si. si \<in> set sigs \<longrightarrow> chk si \<longrightarrow> (si_pub si, v) \<in> mvInited g"
    and "\<forall>si. si \<in> set sigs \<longrightarrow> chk' si \<longrightarrow> si_pub si \<in> rbMembers (mvRb sys) \<and> (si_pub si, h) \<in> mvEchoed g"
  shows "(\<exists>x. mvProcessEcho (mvConfigs sys p) hs (sc, ms) = Some (Inr x)) \<and> (\<exists>x. mvProcessAux (mvConfigs sys p) hs r (sc, ms) = Some (Inr x)) \<and>
    (\<exists>x. mvProcessBinTimeout (mvConfigs sys p) hs r (sc, ms) = Some (Inr x)) \<and> (\<exists>x. mvProcessEchoTimeout (mvConfigs sys p) hs (sc, ms) = Some (Inr x)) \<and>
    \<not> panics (snd (mvGotEcho chk' r h sigs ms)) \<and>
    (case mvGotInit chk (mvConfigs sys p) r v sigs ms of
       (ms', Inl e) \<Rightarrow> \<not> panics (Inl e :: unit res)
     | (ms', Inr pub) \<Rightarrow> \<exists>x. mvProcessInit (mvConfigs sys p) hs l' pub v (sc, ms') = Some (Inr x)) \<and>
    (\<exists>b. mvHasDecided sc = Inr b \<and> (\<not> b \<or> (\<exists>d. mvGetDecision sc = Inr d)))"
proof (intro conjI)
  have s: "mvSafe sys (mvEchoed g) (mvInited g) (mvProposals g) p (sc, ms)" using mvInv_safe [OF assms(1-3)] assms(4) by simp
  then have n: "mvNodeInv sys (mvEchoed g) (mvInited g) (mvProposals g) p (sc, ms)" by (simp add: mvSafe_def)
  show "\<exists>x. mvProcessEcho (mvConfigs sys p) hs (sc, ms) = Some (Inr x)" unfolding mvProcessEcho_def by (rule checkEchoState_total [OF s])
  show "\<exists>x. mvProcessAux (mvConfigs sys p) hs r (sc, ms) = Some (Inr x)" "\<exists>x. mvProcessBinTimeout (mvConfigs sys p) hs r (sc, ms) = Some (Inr x)"
    by (rule mvProcessBin_total [OF s])+
  have "mvSame sc (sc\<lparr>echoTimeOutState := TimeoutPassed\<rparr>)" by (simp add: mvSame_def)
  from checkEchoState_total [OF mvSafe_same [OF s this], of hs] show "\<exists>x. mvProcessEchoTimeout (mvConfigs sys p) hs (sc, ms) = Some (Inr x)"
    by (simp add: mvProcessEchoTimeout_def)
  show "\<not> panics (snd (mvGotEcho chk' r h sigs ms))" by (rule mvGotEcho_inv(3) [OF n surjective_pairing assms(5)]) (use assms(7) in blast)
  obtain ms' res where got: "mvGotInit chk (mvConfigs sys p) r v sigs ms = (ms', res)" by (cases "mvGotInit chk (mvConfigs sys p) r v sigs ms")
  note gi = mvGotInit_inv [OF n got assms(5)]
  have s': "mvSafe sys (mvEchoed g) (mvInited g) (mvProposals g) p (sc, ms')" using s gi(1,2) by (simp add: mvSafe_def binState_def)
  have "\<exists>x. mvProcessInit (mvConfigs sys p) hs l' pub v (sc, ms') = Some (Inr x)" if "res = Inr pub" for pub
    using mvProcessInit_total [OF s'] gi(4) [OF that] assms(6) wf_mvD(7) [OF assms(2), of p] by auto
  then show "case mvGotInit chk (mvConfigs sys p) r v sigs ms of
       (ms', Inl e) \<Rightarrow> \<not> panics (Inl e :: unit res)
     | (ms', Inr pub) \<Rightarrow> \<exists>x. mvProcessInit (mvConfigs sys p) hs l' pub v (sc, ms') = Some (Inr x)"
    using got gi(3) by (cases res) (simp_all add: panics_Inl)
  show "\<exists>b. mvHasDecided sc = Inr b \<and> (\<not> b \<or> (\<exists>d. mvGetDecision sc = Inr d))"
    using mvSafe_decided [OF s] by (auto simp: mvHasDecided_def mvGetDecision_def)
qed

theorem mv1_no_panic_witness:
  "(\<exists>x. mvProcessEcho (mvConfigs mvDemo 2) [7, 8] (mvNodes mvDemoFinal 2) = Some (Inr x)) \<and>
   (\<exists>x. mvProcessAux (mvConfigs mvDemo 2) [8, 7] 2 (mvNodes mvDemoFinal 2) = Some (Inr x)) \<and>
   \<not> panics (snd (mvGotEcho (\<lambda>si. si_pub si = 3) 2 8 [rbDemoSig 3] (snd (mvNodes mvDemoFinal 2))))"
proof -
  obtain sc ms where st: "mvNodes mvDemoFinal 2 = (sc, ms)" by (cases "mvNodes mvDemoFinal 2")
  have pl: "plain_sigs [rbDemoSig 3]" by code_simp
  have "(3, 8) \<in> mvEchoed mvDemoFinal" by code_simp
  then have m: "\<forall>si. si \<in> set [rbDemoSig 3] \<longrightarrow> si_pub si = 3 \<longrightarrow> si_pub si \<in> rbMembers (mvRb mvDemo) \<and> (si_pub si, 8) \<in> mvEchoed mvDemoFinal"
    by (simp add: mvDemo_def rbDemo_def)
  have i: "\<forall>si. si \<in> set [rbDemoSig 3] \<longrightarrow> False \<longrightarrow> (si_pub si, 9) \<in> mvInited mvDemoFinal" by simp
  note t = mv1_no_panic [OF mvDemo_reachable mvDemo_wf mvDemo_correct(3) st pl i m]
  show ?thesis using t [of "[7, 8]" 2] t [of "[8, 7]" 2] unfolding st by simp
qed

end
