(* ===== verification/Uvarint.thy ===== *)
theory Uvarint
  imports Prelude
begin

text \<open>
  Model of the variable length integer encoding: \<^verbatim>\<open>binary.PutUvarint\<close> of the Go library, and
  \<^verbatim>\<open>EncodeUvarint\<close>, \<^verbatim>\<open>AppendUvarint\<close>, \<^verbatim>\<open>ReadUvarint\<close>, \<^verbatim>\<open>ReadUvarintByteReader\<close>,
  \<^verbatim>\<open>ReadBytes\<close>, \<^verbatim>\<open>EncodeHelper\<close> and \<^verbatim>\<open>DecodeHelper\<close> of
  \<^verbatim>\<open>src/consensus/utils/utils.go\<close>. A writer is the list of bytes written so far, a reader the list of bytes
  not yet read; a read at the end of the input fails with \<open>EOF\<close>.
\<close>

unbundle bit_operations_syntax

section \<open>Encoding\<close>

lemma drop_bit_7_less: "\<not> x < (128 :: uint64) \<Longrightarrow> unat (drop_bit 7 x) < unat x"
  by (simp add: unat_drop_bit_eq drop_bit_nat_def word_less_nat_alt not_less div_less_dividend)

function PutUvarint :: "uint64 \<Rightarrow> byte list" where
  "PutUvarint x =
     (if x < 128 then [ucast x] else (ucast x OR 128) # PutUvarint (drop_bit 7 x))"
  by pat_completeness auto
termination
  by (relation "measure unat") (auto intro: drop_bit_7_less)

declare PutUvarint.simps [simp del]

definition AppendUvarint :: "uint64 \<Rightarrow> byte list \<Rightarrow> nat \<times> byte list" where
  "AppendUvarint v byt = (length (PutUvarint v), byt @ PutUvarint v)"

section \<open>Decoding\<close>

text \<open>The loop of \<^verbatim>\<open>ReadUvarint\<close>; the result is the value, the bytes read and the rest of the input.\<close>

fun readUvarintLoop ::
    "byte list \<Rightarrow> uint64 \<Rightarrow> nat \<Rightarrow> nat \<Rightarrow> nat \<Rightarrow> (uint64 \<times> nat \<times> byte list) res" where
  "readUvarintLoop [] x s i n = Inl EOF"
| "readUvarintLoop (b # bs) x s i n =
     (if b < 128 then
        (if i > 9 \<or> (i = 9 \<and> b > 1) then Inl ErrInvalidVarint
         else Inr (x OR push_bit s (ucast b), Suc n, bs))
      else readUvarintLoop bs (x OR push_bit s (ucast (b AND 127))) (s + 7) (Suc i) (Suc n))"

definition ReadUvarint :: "byte list \<Rightarrow> (uint64 \<times> nat \<times> byte list) res" where
  "ReadUvarint r = readUvarintLoop r 0 0 0 0"

definition ReadBytes :: "int \<Rightarrow> byte list \<Rightarrow> (nat \<times> byte list \<times> byte list) res" where
  "ReadBytes n r =
     (if n < 0 then Inl (Panic ''makeslice: len out of range'')
      else if n > 0 \<and> r = [] then Inl EOF
      else if length r < nat n then Inl ErrInvalidBuffSize
      else Inr (nat n, take (nat n) r, drop (nat n) r))"

definition EncodeHelper :: "byte list \<Rightarrow> byte list" where
  "EncodeHelper arr = PutUvarint (of_nat (length arr)) @ arr"

definition DecodeHelper :: "byte list \<Rightarrow> (nat \<times> byte list \<times> byte list) res" where
  "DecodeHelper r =
     bind_res (ReadUvarint r) (\<lambda>(size, n, r1).
       if size = 0 then Inr (n, [], r1)
       else bind_res (ReadBytes (sint size) r1) (\<lambda>(n1, buff, r2). Inr (n + n1, buff, r2)))"

section \<open>Round trips\<close>

lemma low_byte: "x < (128 :: uint64) \<Longrightarrow> (ucast x :: byte) < 128" "x < (128 :: uint64) \<Longrightarrow> ucast (ucast x :: byte) = x"
proof -
  assume x: "x < 128"
  have "unat x < 128" using x by (simp add: word_less_nat_alt)
  then have u: "unat (ucast x :: byte) = unat x" by (simp add: unsigned_ucast_eq unsigned_take_bit_eq take_bit_nat_eq_self)
  then show "(ucast x :: byte) < 128" using \<open>unat x < 128\<close> by (simp add: word_less_nat_alt)
  show "ucast (ucast x :: byte) = x"
    using u \<open>unat x < 128\<close> by (intro word_unat_eq_iff [THEN iffD2]) (simp add: unsigned_ucast_eq unsigned_take_bit_eq take_bit_nat_eq_self)
qed

lemma high_byte: "\<not> (ucast x OR 128 :: byte) < 128"
  using le_word_or1 [of "128 :: byte" "ucast x"] by (simp add: or.commute not_less)

lemma split_seven:
  "(ucast ((ucast x OR 128 :: byte) AND 127) :: uint64) OR push_bit 7 (drop_bit 7 x) = (x :: uint64)"
proof (rule bit_eqI)
  fix n
  assume "possible_bit TYPE(uint64) n"
  then have n: "n < 64" by simp
  have "bit (127 :: byte) n \<longleftrightarrow> n < 7" "\<not> (bit (128 :: byte) n \<and> n < 7)"
    using mask_eq_exp_minus_1 [of 7, where 'a = "8 word"] bit_mask_iff [of 7 n, where 'a = "8 word"]
    by (auto simp: bit_exp_iff [of 7, where 'a = "8 word", simplified])
  then show "bit ((ucast ((ucast x OR 128 :: byte) AND 127) :: uint64) OR push_bit 7 (drop_bit 7 x)) n = bit x n"
    using n by (auto simp: bit_or_iff bit_and_iff bit_ucast_iff bit_push_bit_iff bit_drop_bit_eq)
qed

lemma readUvarintLoop_Put:
  "i \<le> 9 \<Longrightarrow> unat v < 2 ^ (64 - 7 * i) \<Longrightarrow>
   readUvarintLoop (PutUvarint v @ rest) x (7 * i) i n = Inr (x OR push_bit (7 * i) v, n + length (PutUvarint v), rest)"
proof (induction v arbitrary: x i n rule: PutUvarint.induct)
  case (1 v)
  show ?case
  proof (cases "v < 128")
    case True
    have "\<not> (i = 9 \<and> (ucast v :: byte) > 1)"
    proof
      assume a: "i = 9 \<and> (ucast v :: byte) > 1"
      then have "unat v < 2" using "1.prems"(2) by simp
      then have "unat (ucast v :: byte) < 2" by (simp add: unsigned_ucast_eq unsigned_take_bit_eq take_bit_nat_eq_self)
      with a show False by (simp add: word_less_nat_alt)
    qed
    then show ?thesis using True "1.prems"(1) low_byte [OF True] by (subst (1 2) PutUvarint.simps) auto
  next
    case False
    have "128 \<le> unat v" using False by (simp add: word_less_nat_alt not_less)
    then have i: "i < 9" using "1.prems" by (cases "i = 9") auto
    have "unat (drop_bit 7 v) = unat v div 128" by (simp only: unat_drop_bit_eq drop_bit_nat_def) simp
    moreover have "unat v < 2 ^ (64 - 7 * Suc i) * 128"
    proof -
      have "(2::nat) ^ (64 - 7 * i) = 2 ^ ((64 - 7 * Suc i) + 7)" using i by (intro arg_cong2 [where f = power]) auto
      then show ?thesis using "1.prems"(2) by (simp only: power_add) simp
    qed
    ultimately have lt: "unat (drop_bit 7 v) < 2 ^ (64 - 7 * Suc i)" by (simp add: div_less_iff_less_mult)
    have eq: "(y OR push_bit (7 * i) (ucast ((ucast v OR 128 :: byte) AND 127))) OR push_bit (7 + 7 * i) (drop_bit 7 v)
        = y OR push_bit (7 * i) v" for y :: uint64
    proof -
      let ?a = "ucast ((ucast v OR 128 :: byte) AND 127) :: uint64"
      have "push_bit (7 * i) v = push_bit (7 * i) (?a OR push_bit 7 (drop_bit 7 v))" by (simp only: split_seven)
      also have "\<dots> = push_bit (7 * i) ?a OR push_bit (7 + 7 * i) (drop_bit 7 v)"
        by (simp only: push_bit_or push_bit_push_bit add.commute)
      finally show ?thesis by (simp only: or.assoc)
    qed
    show ?thesis
      using "1.IH" [OF False, of "Suc i" "x OR push_bit (7 * i) (ucast ((ucast v OR 128 :: byte) AND 127))" "Suc n"] i lt
      by (subst (1 2) PutUvarint.simps) (simp add: False high_byte eq add.commute)
  qed
qed

lemma ReadUvarint_Put [simp]: "ReadUvarint (PutUvarint v @ rest) = Inr (v, length (PutUvarint v), rest)"
proof -
  have "unat v < 2 ^ (64 - 7 * 0)" using unsigned_less [of v] by simp
  from readUvarintLoop_Put [OF _ this, of rest 0 0] show ?thesis by (simp add: ReadUvarint_def)
qed

lemma readUvarintLoop_consumes:
  "readUvarintLoop r x s i n = Inr (v, n', r') \<Longrightarrow> length r' + n' = length r + n \<and> n < n'"
proof (induction r x s i n rule: readUvarintLoop.induct)
  case (2 b bs x s i n)
  then show ?case by (cases "b < 128") (fastforce split: if_splits)+
qed simp

lemma ReadUvarint_consumes:
  "ReadUvarint r = Inr (v, n, r') \<Longrightarrow> length r' + n = length r" "ReadUvarint r = Inr (v, n, r') \<Longrightarrow> length r' < length r"
  using readUvarintLoop_consumes [of r 0 0 0 0 v n r'] by (simp_all add: ReadUvarint_def)

lemma ReadUvarint_Nil [simp]: "ReadUvarint [] = Inl EOF"
  by (simp add: ReadUvarint_def)

lemma length_PutUvarint_bits: "unat v < 2 ^ (7 * Suc k) \<Longrightarrow> length (PutUvarint v) \<le> Suc k"
proof (induction k arbitrary: v)
  case 0
  then have "v < 128" by (simp add: word_less_nat_alt)
  then show ?case by (subst PutUvarint.simps) simp
next
  case (Suc k)
  have "unat (drop_bit 7 v) = unat v div 2 ^ 7" by (simp add: unat_drop_bit_eq drop_bit_nat_def)
  also have "\<dots> < 2 ^ (7 * Suc k)" using Suc.prems by (intro less_mult_imp_div_less) (simp add: power_add mult.commute)
  finally show ?case using Suc.IH by (subst PutUvarint.simps) simp
qed

lemma length_PutUvarint: "length (PutUvarint v) \<le> 10"
  using length_PutUvarint_bits [of v 9] unsigned_less [of v, where 'a = nat] by simp

lemma length_concat_PutUvarint: "length (concat (map (\<lambda>nxt. PutUvarint (f nxt)) l)) \<le> 10 * length l"
proof (induction l)
  case (Cons a l)
  then show ?case using length_PutUvarint [of "f a"] by simp
qed simp

lemma PutUvarint_ne [simp]: "PutUvarint v \<noteq> []"
  by (subst PutUvarint.simps) simp

lemma DecodeHelper_Encode:
  assumes "length arr < 2 ^ 63"
  shows "DecodeHelper (EncodeHelper arr @ rest) = Inr (length (EncodeHelper arr), arr, rest)"
proof (cases "arr = []")
  case True
  then show ?thesis by (simp add: DecodeHelper_def EncodeHelper_def)
next
  case False
  let ?v = "of_nat (length arr) :: uint64"
  have u: "unat ?v = length arr" using assms by (simp add: unat_of_nat take_bit_nat_eq_self)
  then have "?v \<noteq> 0" using False by (metis length_0_conv unat_0)
  moreover have "sint ?v = int (length arr)"
    using assms u by (simp add: sint_uint uint_nat signed_take_bit_eq_if_positive bit_iff_odd take_bit_int_eq_self)
  ultimately show ?thesis using False by (simp add: DecodeHelper_def EncodeHelper_def ReadBytes_def)
qed

text \<open>
  \<^verbatim>\<open>DecodeHelper\<close> reads back what \<^verbatim>\<open>EncodeHelper\<close> wrote, reports the number
  of bytes of the encoding, and leaves the rest of the input unread.
\<close>

lemma DecodeHelper_EncodeHelper:
  assumes "length arr < 2 ^ 63"
  shows "DecodeHelper (EncodeHelper arr @ rest) = Inr (length (EncodeHelper arr), arr, rest)"
  using assms by (rule DecodeHelper_Encode)

text \<open>
  A length prefix of \<open>2 ^ 63\<close> or more, which is a valid varint, makes \<^verbatim>\<open>DecodeHelper\<close>
  panic: \<^verbatim>\<open>int(size)\<close> is negative and \<^verbatim>\<open>ReadBytes\<close> allocates a slice of that size.
\<close>

lemma DecodeHelper_panics:
  assumes "2 ^ 63 \<le> unat v"
  shows "panics (DecodeHelper (PutUvarint v @ rest))"
proof -
  have "2 ^ 63 \<le> uint v"
  proof -
    have "int (2 ^ 63) \<le> int (unat v)" using assms by (simp only: of_nat_le_iff)
    then show ?thesis by simp
  qed
  then have "uint v div 2 ^ 63 = 1"
    using unsigned_less [of v, where 'a = int] by (intro int_div_pos_eq [where r = "uint v - 2 ^ 63"]) simp_all
  then have neg: "sint v < 0" by (simp add: sint_uint bit_iff_odd)
  have "v \<noteq> 0" using assms by auto
  with neg show ?thesis by (simp add: DecodeHelper_def ReadBytes_def)
qed

end
