(* ===== verification/Asset.thy ===== *)
theory Asset
  imports Currency Uvarint "HOL-Library.List_Lexorder"
begin

text \<open>
  The assets of \<^verbatim>\<open>src/consensus/statemachine/asset\<close>: accounts that hold assets with unique identifiers (\<^verbatim>\<open>account.go\<close>), transfers
  that consume assets and create others (\<^verbatim>\<open>asset_transfer.go\<close>, \<^verbatim>\<open>account_table.go\<close>), and the two kinds of assets
  (\<^verbatim>\<open>value_asset.go\<close>, \<^verbatim>\<open>direct_asset.go\<close>). An identifier is a slice of bytes; \<^verbatim>\<open>bytes.Compare\<close> is the
  lexicographic order. Keys and signatures are those of \<open>keyOps\<close>, the hash function is a parameter \<open>H\<close>.

  Go sorts with \<^verbatim>\<open>sort.Sort\<close>, which does not keep the order of equal elements. Where it is used here, equal elements are
  equal byte slices or lead to an error whatever their order, so the stable \<open>sort_key\<close> stands for it.
\<close>

section \<open>Assets and accounts\<close>

datatype AssetInterface = BasicAsset "byte list" | DirectAsset "byte list" | ValueAsset "byte list" uint64

fun GetID :: "AssetInterface \<Rightarrow> byte list" where
  "GetID (BasicAsset i) = i"
| "GetID (DirectAsset i) = i"
| "GetID (ValueAsset i v) = i"

record 'p AssetAccount =
  aaPub :: 'p
  Assets :: "AssetInterface list"

definition NewAssetAccount :: "'p \<Rightarrow> 'p AssetAccount" where
  "NewAssetAccount pub = \<lparr>aaPub = pub, Assets = []\<rparr>"

text \<open>\<^verbatim>\<open>sort.Search\<close>: the first index for which \<open>f\<close> holds, by bisection.\<close>

function sortSearch :: "(nat \<Rightarrow> bool) \<Rightarrow> nat \<Rightarrow> nat \<Rightarrow> nat" where
  "sortSearch f i j =
     (if i < j then
        (let h = (i + j) div 2 in if \<not> f h then sortSearch f (h + 1) j else sortSearch f i h)
      else i)"
  by pat_completeness auto
termination by (relation "measure (\<lambda>(f, i, j). j - i)") auto

declare sortSearch.simps [simp del]

text \<open>The search for an identifier in a sorted slice, as both \<^verbatim>\<open>CheckAssets\<close> and \<^verbatim>\<open>ConsumeAssets\<close> have it.\<close>

definition findKey :: "byte list \<Rightarrow> byte list list \<Rightarrow> nat option" where
  "findKey h keys =
     (let idx = sortSearch (\<lambda>n. h \<le> keys ! n) 0 (length keys)
      in if idx = length keys then None else if h \<noteq> keys ! idx then None else Some idx)"

fun hasDuplicates :: "byte list list \<Rightarrow> bool" where
  "hasDuplicates (a # b # l) = (a = b \<or> hasDuplicates (b # l))"
| "hasDuplicates l = False"

definition AddAsset :: "AssetInterface \<Rightarrow> 'p AssetAccount \<Rightarrow> 'p AssetAccount res" where
  "AddAsset asset aa =
     (let l = sort_key GetID (Assets aa @ [asset])
      in if hasDuplicates (map GetID l) then Inl (Panic ''duplicate assets'') else Inr (aa\<lparr>Assets := l\<rparr>))"

fun consumedIdxs :: "byte list list \<Rightarrow> byte list list \<Rightarrow> nat \<Rightarrow> nat list res" where
  "consumedIdxs [] keys nxtIdx = Inr []"
| "consumedIdxs (nxt # sorted') keys nxtIdx =
     (case findKey nxt (drop nxtIdx keys) of
        None \<Rightarrow> Inl (Panic ''asset not found'')
      | Some idx \<Rightarrow> bind_res (consumedIdxs sorted' keys (nxtIdx + idx)) (\<lambda>l. Inr ((nxtIdx + idx) # l)))"

fun remainAssets :: "nat \<Rightarrow> 'a list \<Rightarrow> nat list \<Rightarrow> 'a list" where
  "remainAssets i [] idxs = []"
| "remainAssets i (nxt # l) [] = nxt # remainAssets (i + 1) l []"
| "remainAssets i (nxt # l) (x # idxs) = (if i = x then remainAssets (i + 1) l idxs else nxt # remainAssets (i + 1) l (x # idxs))"

definition ConsumeAssets :: "byte list list \<Rightarrow> 'p AssetAccount \<Rightarrow> 'p AssetAccount res" where
  "ConsumeAssets assetIDs aa =
     bind_res (consumedIdxs (sort assetIDs) (map GetID (Assets aa)) 0) (\<lambda>idxs.
       let l = remainAssets 0 (Assets aa) idxs
       in if int (length l) \<noteq> int (length (Assets aa)) - int (length assetIDs) then Inl (Panic ''bad consume'')
          else Inr (aa\<lparr>Assets := l\<rparr>))"

text \<open>
  The loop of \<^verbatim>\<open>CheckAssets\<close> over the identifiers with their positions, sorted; \<open>ret\<close> is the slice of results. The
  \<^verbatim>\<open>sort.IsSorted\<close> right after the sort always holds and is left out.
\<close>

fun checkLoop :: "(nat \<times> byte list) list \<Rightarrow> AssetInterface list \<Rightarrow> AssetInterface option list \<Rightarrow> AssetInterface option list res" where
  "checkLoop [] accountAssets ret = Inr ret"
| "checkLoop ((i, nxt) # remain) accountAssets ret =
     (case findKey nxt (map GetID accountAssets) of
        None \<Rightarrow> Inl ErrAssetNotFound
      | Some idx \<Rightarrow>
          if findKey nxt (map snd remain) \<noteq> None then Inl ErrAssetNotUnique
          else checkLoop remain (drop idx accountAssets) (ret[i := Some (accountAssets ! idx)]))"

definition CheckAssets :: "byte list list \<Rightarrow> 'p AssetAccount \<Rightarrow> AssetInterface list res" where
  "CheckAssets toCheck aa =
     (if toCheck = [] then Inr []
      else if length (Assets aa) < length toCheck then Inl ErrTooManyAssets
      else bind_res (checkLoop (sort_key snd (enumerate 0 toCheck)) (Assets aa) (replicate (length toCheck) None)) (\<lambda>ret.
             case those ret of None \<Rightarrow> Inl (Panic ''nil pointer'') | Some l \<Rightarrow> Inr l))"

section \<open>Transfers\<close>

record ('p, 's) AssetTransfer =
  trSender :: "'p option"
  trInputs :: "byte list list"
  trOutputs :: "AssetInterface list"
  trReceivers :: "'p list"
  trSignature :: "'s option"
  trSignedBytes :: "byte list option"

abbreviation MaxAdditionalIndices :: nat where "MaxAdditionalIndices \<equiv> 99"

text \<open>The constant \<^verbatim>\<open>config.SignCausalAssets\<close>.\<close>

definition SignCausalAssets :: bool where
  "SignCausalAssets = False"

definition assetsUnique :: "AssetInterface list \<Rightarrow> unit res" where
  "assetsUnique assets = (if hasDuplicates (map GetID (sort_key GetID assets)) then Inl ErrNonUniqueAssets else Inr ())"

definition CheckFormat :: "('p, 'q, 's, 'k) keyOps \<Rightarrow> ('p, 's) AssetTransfer \<Rightarrow> unit res" where
  "CheckFormat K at =
     (case trSender at of
        None \<Rightarrow> Inl ErrNoSender
      | Some sender \<Rightarrow> bind_res (pubString K sender) (\<lambda>_.
          if length (trInputs at) > MaxAdditionalIndices \<or> length (trInputs at) = 0 then Inl ErrInvalidAssetCount
          else if length (trOutputs at) > MaxAdditionalIndices then Inl ErrInvalidAssetCount
          else if SignCausalAssets \<and> trSignature at = None then Inl ErrNoSignature
          else if length (trOutputs at) \<noteq> length (trReceivers at) then Inl ErrInvalidAssetCount
          else assetsUnique (trOutputs at)))"

definition trSignedMessage :: "('p, 's) AssetTransfer \<Rightarrow> byte list res" where
  "trSignedMessage tx = (case trSignedBytes tx of None \<Rightarrow> Inl (Panic ''0'') | Some [] \<Rightarrow> Inl (Panic ''0'') | Some b \<Rightarrow> Inr b)"

abbreviation HashLen :: nat where "HashLen \<equiv> 32"

definition assetEncode :: "AssetInterface \<Rightarrow> byte list res" where
  "assetEncode a =
     (if length (GetID a) \<noteq> HashLen then Inl ErrInvalidHashSize
      else Inr (GetID a @ (case a of ValueAsset _ v \<Rightarrow> EncodeUint64 v | _ \<Rightarrow> [])))"

fun encodeAll :: "('a \<Rightarrow> byte list res) \<Rightarrow> 'a list \<Rightarrow> byte list res" where
  "encodeAll f [] = Inr []"
| "encodeAll f (x # l) = bind_res (f x) (\<lambda>b. bind_res (encodeAll f l) (\<lambda>rest. Inr (b @ rest)))"

definition trEncodeSignedBytes :: "('p, 'q, 's, 'k) keyOps \<Rightarrow> ('p, 's) AssetTransfer \<Rightarrow> ('p, 's) AssetTransfer res" where
  "trEncodeSignedBytes K at =
     (case trSender at of
        None \<Rightarrow> Inl (Panic ''nil pointer'')
      | Some sender \<Rightarrow> bind_res (pubEncode K sender) (\<lambda>snd_bytes.
          if length (trInputs at) > MaxAdditionalIndices \<or> length (trInputs at) = 0 then Inl (Panic ''encoding invalid asset transfer'')
          else if length (trOutputs at) > MaxAdditionalIndices \<or> length (trOutputs at) \<noteq> length (trReceivers at)
          then Inl (Panic ''encoding invalid asset transfer'')
          else bind_res (encodeAll assetEncode (trOutputs at)) (\<lambda>outs. bind_res (encodeAll (pubEncode K) (trReceivers at)) (\<lambda>rcvs.
            Inr (at\<lparr>trSignedBytes := Some (snd_bytes @ PutUvarint (word_of_nat (length (trInputs at))) @ concat (trInputs at) @
              PutUvarint (word_of_nat (length (trOutputs at))) @ outs @ rcvs)\<rparr>)))))"

section \<open>The account table\<close>

record AssetStats =
  AssetConsumedCount :: uint64
  AssetGeneratedCount :: uint64
  FailedAssetGeneratedCount :: uint64
  ValueTransferred :: uint64
  asFailedValidations :: uint64
  asPassedValidations :: uint64

record ('k, 'p) assetTable =
  accountMap :: "'k \<rightharpoonup> 'p AssetAccount"
  startedRecordingStats :: bool
  asStats :: AssetStats

definition newAssetStats :: AssetStats where
  "newAssetStats = \<lparr>AssetConsumedCount = 0, AssetGeneratedCount = 0, FailedAssetGeneratedCount = 0, ValueTransferred = 0,
     asFailedValidations = 0, asPassedValidations = 0\<rparr>"

definition NewAssetTable :: "('k, 'p) assetTable" where
  "NewAssetTable = \<lparr>accountMap = (\<lambda>_. None), startedRecordingStats = False, asStats = newAssetStats\<rparr>"

definition StartRecordingStats :: "('k, 'p) assetTable \<Rightarrow> ('k, 'p) assetTable" where
  "StartRecordingStats at = at\<lparr>startedRecordingStats := True\<rparr>"

definition recordStats :: "(AssetStats \<Rightarrow> AssetStats) \<Rightarrow> ('k, 'p) assetTable \<Rightarrow> ('k, 'p) assetTable" where
  "recordStats f at = (if startedRecordingStats at then at\<lparr>asStats := f (asStats at)\<rparr> else at)"

text \<open>The result is the string of the key, which stands for the pointer to the account, and the account.\<close>

definition assetGetAccount :: "('p, 'q, 's, 'k) keyOps \<Rightarrow> 'p \<Rightarrow> ('k, 'p) assetTable \<Rightarrow> ('k, 'p) assetTable \<times> ('k \<times> 'p AssetAccount) res" where
  "assetGetAccount K pub at =
     (case pubString K pub of
        Inl e \<Rightarrow> (at, Inl e)
      | Inr str \<Rightarrow>
          (case accountMap at str of
             Some acc \<Rightarrow> (at, Inr (str, acc))
           | None \<Rightarrow> (at\<lparr>accountMap := (accountMap at)(str \<mapsto> NewAssetAccount pub)\<rparr>, Inr (str, NewAssetAccount pub))))"

definition assetGetAccountInfo :: "('p, 'q, 's, 'k) keyOps \<Rightarrow> 'p \<Rightarrow> ('k, 'p) assetTable \<Rightarrow> ('k, 'p) assetTable \<times> nat res" where
  "assetGetAccountInfo K pub at = then_do (assetGetAccount K pub at) (\<lambda>(str, acc) at1. (at1, Inr (length (Assets acc))))"

text \<open>An operation on the account behind a pointer.\<close>

definition updateAccount :: "'k \<Rightarrow> 'p AssetAccount res \<Rightarrow> ('k, 'p) assetTable \<Rightarrow> ('k, 'p) assetTable \<times> unit res" where
  "updateAccount str r at = (case r of Inl e \<Rightarrow> (at, Inl e) | Inr acc \<Rightarrow> (at\<lparr>accountMap := (accountMap at)(str \<mapsto> acc)\<rparr>, Inr ()))"

text \<open>The calls \<^verbatim>\<open>acc, err := at.GetAccount(pub); if err != nil { panic(err) }\<close>; a nil key is a nil pointer.\<close>

definition mustAccount :: "('p, 'q, 's, 'k) keyOps \<Rightarrow> 'p option \<Rightarrow> ('k, 'p) assetTable \<Rightarrow> ('k, 'p) assetTable \<times> ('k \<times> 'p AssetAccount) res" where
  "mustAccount K pub at =
     (case pub of
        None \<Rightarrow> (at, Inl (Panic ''nil pointer''))
      | Some p \<Rightarrow> (case assetGetAccount K p at of (at1, Inl _) \<Rightarrow> (at1, Inl (Panic ''GetAccount'')) | r \<Rightarrow> r))"

type_synonym 'p checkOutputs = "'p AssetAccount \<Rightarrow> AssetInterface list \<Rightarrow> AssetInterface list \<Rightarrow> unit res"

definition trCheck :: "('p, 'q, 's, 'k) keyOps \<Rightarrow> 'p checkOutputs \<Rightarrow> bool \<Rightarrow> ('p, 's) AssetTransfer \<Rightarrow> ('k, 'p) assetTable \<Rightarrow>
    ('k, 'p) assetTable \<times> unit res" where
  "trCheck K checkFunc validateSig tr at =
     then_do (at, CheckFormat K tr) (\<lambda>_ at0.
       case trSender tr of
         None \<Rightarrow> (at0, Inl (Panic ''nil pointer''))
       | Some sender \<Rightarrow> then_do (assetGetAccount K sender at0) (\<lambda>(str, acc) at1.
           then_do (at1, CheckAssets (trInputs tr) acc) (\<lambda>inputAssets at2.
             then_do (at2, if validateSig then
                 bind_res (trSignedMessage tr) (\<lambda>msg. case verifySig K sender msg (trSignature tr) of (valid, err) \<Rightarrow>
                   if errPanics err then Inl (the err)
                   else if \<not> valid then Inl ErrSignatureInvalid else (case err of Some e \<Rightarrow> Inl e | None \<Rightarrow> Inr ()))
                 else Inr ()) (\<lambda>_ at3. (at3, checkFunc acc inputAssets (trOutputs tr))))))"

text \<open>
  \<^verbatim>\<open>ValidateTransfer\<close> is the check with the deferred function that counts its result. When the check panics the function
  runs with \<^verbatim>\<open>err == nil\<close> and counts a passed validation; so does that of \<^verbatim>\<open>GenerateAssetTransfer\<close>.
\<close>

definition ValidateTransfer :: "('p, 'q, 's, 'k) keyOps \<Rightarrow> 'p checkOutputs \<Rightarrow> bool \<Rightarrow> ('p, 's) AssetTransfer \<Rightarrow> ('k, 'p) assetTable \<Rightarrow>
    ('k, 'p) assetTable \<times> unit res" where
  "ValidateTransfer K checkFunc validateSig tr at =
     (case trCheck K checkFunc validateSig tr at of
        (at1, Inr _) \<Rightarrow> (recordStats (\<lambda>st. st\<lparr>asPassedValidations := asPassedValidations st + 1\<rparr>) at1, Inr ())
      | (at1, Inl e) \<Rightarrow>
          (recordStats (\<lambda>st. if panics (Inl e :: unit res) then st\<lparr>asPassedValidations := asPassedValidations st + 1\<rparr>
             else st\<lparr>asFailedValidations := asFailedValidations st + 1\<rparr>) at1, Inl e))"

fun addOutputs :: "('p, 'q, 's, 'k) keyOps \<Rightarrow> AssetInterface list \<Rightarrow> 'p list \<Rightarrow> ('k, 'p) assetTable \<Rightarrow> ('k, 'p) assetTable \<times> unit res" where
  "addOutputs K [] receivers at = (at, Inr ())"
| "addOutputs K (nxt # outputs) [] at = (at, Inl (Panic ''index out of range''))"
| "addOutputs K (nxt # outputs) (r # receivers) at =
     then_do (mustAccount K (Some r) at) (\<lambda>(str, acc) at1.
       then_do (updateAccount str (AddAsset nxt acc) at1) (\<lambda>_ at2. addOutputs K outputs receivers at2))"

definition ConsumeTransfer :: "('p, 'q, 's, 'k) keyOps \<Rightarrow> ('p, 's) AssetTransfer \<Rightarrow> ('k, 'p) assetTable \<Rightarrow> ('k, 'p) assetTable \<times> unit res" where
  "ConsumeTransfer K tr at =
     then_do (mustAccount K (trSender tr) at) (\<lambda>(str, acc) at1.
       then_do (updateAccount str (ConsumeAssets (trInputs tr) acc) at1) (\<lambda>_ at2.
         then_do (addOutputs K (trOutputs tr) (trReceivers tr) at2) (\<lambda>_ at3.
           (recordStats (\<lambda>st. st\<lparr>AssetConsumedCount := AssetConsumedCount st + word_of_nat (length (trInputs tr))\<rparr>) at3, Inr ()))))"

definition SendToSelf :: "('p, 'q, 's, 'k) keyOps \<Rightarrow> 'p \<Rightarrow> byte list list \<Rightarrow> (AssetInterface list \<Rightarrow> AssetInterface list res) \<Rightarrow>
    ('p, 's) AssetTransfer \<Rightarrow> ('k, 'p) assetTable \<Rightarrow> ('k, 'p) assetTable \<times> ('p, 's) AssetTransfer res" where
  "SendToSelf K pub hashes sts tr at =
     then_do (mustAccount K (Some pub) at) (\<lambda>(str, acc) at1.
       then_do (at1, case CheckAssets hashes acc of Inl _ \<Rightarrow> Inl (Panic ''CheckAssets'') | Inr ins \<Rightarrow> Inr ins) (\<lambda>ins at2.
         then_do (at2, sts ins) (\<lambda>outputs at3.
           let tr1 = tr\<lparr>trSender := Some pub, trInputs := hashes, trOutputs := outputs, trReceivers := replicate (length outputs) pub\<rparr>
           in then_do (ConsumeTransfer K tr1 at3) (\<lambda>_ at4. (at4, Inr tr1)))))"

definition buildTransfer :: "('p, 'q, 's, 'k) keyOps \<Rightarrow> 'q \<Rightarrow> AssetInterface list \<Rightarrow> AssetInterface list \<Rightarrow> 'p list \<Rightarrow> 'p checkOutputs \<Rightarrow>
    ('k, 'p) assetTable \<Rightarrow> ('k, 'p) assetTable \<times> ('p, 's) AssetTransfer res" where
  "buildTransfer K sender inputAssets outPuts recipiants checkFunc at =
     (let tx = \<lparr>trSender = Some (privPub K sender), trInputs = map GetID inputAssets, trOutputs = outPuts, trReceivers = recipiants,
                trSignature = None, trSignedBytes = None\<rparr>
      in then_do (at, bind_res (trEncodeSignedBytes K tx) (\<lambda>tx1. bind_res (trSignedMessage tx1) (\<lambda>msg.
             bind_res (privSign K sender msg) (\<lambda>asig. bind_res (CheckFormat K (tx1\<lparr>trSignature := Some asig\<rparr>)) (\<lambda>_.
               Inr (tx1\<lparr>trSignature := Some asig\<rparr>)))))) (\<lambda>tx2 at1.
           then_do (ValidateTransfer K checkFunc False tx2 at1) (\<lambda>_ at2. (at2, Inr tx2))))"

definition GenerateAssetTransfer :: "('p, 'q, 's, 'k) keyOps \<Rightarrow> 'q \<Rightarrow> AssetInterface list \<Rightarrow> AssetInterface list \<Rightarrow> 'p list \<Rightarrow> 'p checkOutputs \<Rightarrow>
    ('k, 'p) assetTable \<Rightarrow> ('k, 'p) assetTable \<times> ('p, 's) AssetTransfer res" where
  "GenerateAssetTransfer K sender inputAssets outPuts recipiants checkFunc at =
     (case buildTransfer K sender inputAssets outPuts recipiants checkFunc at of
        (at1, Inr tx) \<Rightarrow> (recordStats (\<lambda>st. st\<lparr>AssetGeneratedCount := AssetGeneratedCount st + 1\<rparr>) at1, Inr tx)
      | (at1, Inl e) \<Rightarrow>
          (recordStats (\<lambda>st. if panics (Inl e :: unit res) then st\<lparr>AssetGeneratedCount := AssetGeneratedCount st + 1\<rparr>
             else st\<lparr>FailedAssetGeneratedCount := FailedAssetGeneratedCount st + 1\<rparr>) at1, Inl e))"

section \<open>Assets with a value\<close>

definition Uint64ToBytes :: "uint64 \<Rightarrow> byte list" where
  "Uint64ToBytes v = PutUvarint v"

definition InternalNewValueAsset :: "(byte list \<Rightarrow> byte list) \<Rightarrow> uint64 \<Rightarrow> uint64 \<Rightarrow> byte list \<Rightarrow> AssetInterface" where
  "InternalNewValueAsset H val pid instanceID = ValueAsset (H (Uint64ToBytes pid @ instanceID)) val"

text \<open>The assets made of a list of values, each with its index.\<close>

definition newValueAssets :: "(byte list \<Rightarrow> byte list) \<Rightarrow> uint64 list \<Rightarrow> byte list \<Rightarrow> AssetInterface list" where
  "newValueAssets H vals instanceID = map (\<lambda>(i, nxt). InternalNewValueAsset H nxt (word_of_nat i) instanceID) (enumerate 0 vals)"

definition GenInitialValueAssets :: "(byte list \<Rightarrow> byte list) \<Rightarrow> uint64 list \<Rightarrow> byte list \<Rightarrow> AssetInterface list" where
  "GenInitialValueAssets H vals instanceID = newValueAssets H vals instanceID"

definition computeOutputHash :: "(byte list \<Rightarrow> byte list) \<Rightarrow> AssetInterface list \<Rightarrow> byte list" where
  "computeOutputHash H inputs = H (concat (map GetID inputs))"

text \<open>The type assertion \<^verbatim>\<open>nxt.(*ValueAsset)\<close>.\<close>

fun assetVal :: "AssetInterface \<Rightarrow> uint64 res" where
  "assetVal (ValueAsset i v) = Inr v"
| "assetVal _ = Inl (Panic ''interface conversion'')"

fun assetVals :: "AssetInterface list \<Rightarrow> uint64 list res" where
  "assetVals [] = Inr []"
| "assetVals (nxt # l) = bind_res (assetVal nxt) (\<lambda>v. bind_res (assetVals l) (\<lambda>vs. Inr (v # vs)))"

text \<open>The loops over the values that stop with an error at a zero.\<close>

fun nonZeroVals :: "go_error \<Rightarrow> AssetInterface list \<Rightarrow> uint64 list res" where
  "nonZeroVals e [] = Inr []"
| "nonZeroVals e (nxt # l) = bind_res (assetVal nxt) (\<lambda>v. if v = 0 then Inl e else bind_res (nonZeroVals e l) (\<lambda>vs. Inr (v # vs)))"

definition CheckValueOutputFunc :: "(byte list \<Rightarrow> byte list) \<Rightarrow> 'p checkOutputs" where
  "CheckValueOutputFunc H account inputs outputs =
     bind_res (assetVals inputs) (\<lambda>sendAmmounts.
       if CheckOverflow sendAmmounts then Inl ErrOverflow
       else bind_res (nonZeroVals ErrZeroOutput outputs) (\<lambda>outputAmmounts.
         if SumUint64 sendAmmounts < SumUint64 outputAmmounts then Inl ErrNotEnoughInputValue
         else (let inputHash = H (concat (map GetID inputs))
               in if \<forall>(i, nxt) \<in> set (enumerate 0 outputs). GetID nxt = H (Uint64ToBytes (word_of_nat i) @ inputHash) then Inr ()
                  else Inl ErrInvalidOutputAsset)))"

text \<open>The check for a zero output looks at the inputs again.\<close>

definition GenValueAssetOutput :: "(byte list \<Rightarrow> byte list) \<Rightarrow> AssetInterface list \<Rightarrow> 'p list \<Rightarrow> uint64 list \<Rightarrow> AssetInterface list res" where
  "GenValueAssetOutput H assets receivers amounts =
     (if length receivers \<noteq> length amounts then Inl (Panic ''invalid outputs'')
      else bind_res (nonZeroVals (Panic ''zero value input'') assets) (\<lambda>sendAmmounts.
        if CheckOverflow sendAmmounts then Inl (Panic ''inputs would create overflow'')
        else if 0 \<in> set sendAmmounts then Inl (Panic ''zero output'')
        else if SumUint64 sendAmmounts < SumUint64 amounts then Inl (Panic ''not enough input'')
        else Inr (newValueAssets H amounts (computeOutputHash H assets))))"

definition ValueSendToSelf :: "(byte list \<Rightarrow> byte list) \<Rightarrow> AssetInterface list \<Rightarrow> AssetInterface list res" where
  "ValueSendToSelf H inputs =
     (let inputHash = computeOutputHash H inputs in bind_res (assetVals inputs) (\<lambda>vs. Inr (newValueAssets H vs inputHash)))"

text \<open>\<open>r\<close> is what \<^verbatim>\<open>rand.Intn\<close> returns; \<open>None\<close> is a nil transfer. An error of the generation is a panic.\<close>

definition mustGenerate :: "('k, 'p) assetTable \<times> ('p, 's) AssetTransfer res \<Rightarrow> ('k, 'p) assetTable \<times> ('p, 's) AssetTransfer option res" where
  "mustGenerate r = (case r of (at, Inl e) \<Rightarrow> (at, Inl (Panic ''GenerateAssetTransfer'')) | (at, Inr tr) \<Rightarrow> (at, Inr (Some tr)))"

definition GenValueAssetTransfer :: "(byte list \<Rightarrow> byte list) \<Rightarrow> nat \<Rightarrow> ('p, 'q, 's, 'k) keyOps \<Rightarrow> 'q \<Rightarrow> 'p list \<Rightarrow> ('k, 'p) assetTable \<Rightarrow>
    ('k, 'p) assetTable \<times> ('p, 's) AssetTransfer option res" where
  "GenValueAssetTransfer H r K priv participants at =
     then_do (mustAccount K (Some (privPub K priv)) at) (\<lambda>(str, acc) at1.
       if Assets acc = [] then (at1, Inr None)
       else then_do (at1, assetVals (Assets acc)) (\<lambda>vs at2.
         if participants = [] then (at2, Inl (Panic ''invalid argument to Intn''))
         else
           (let recipiants = [participants ! (r mod length participants), privPub K priv];
                amounts = [1, SumUint64 vs - 1]
            in then_do (at2, GenValueAssetOutput H (Assets acc) recipiants amounts) (\<lambda>outputs at3.
                 mustGenerate (GenerateAssetTransfer K priv (Assets acc) outputs recipiants (CheckValueOutputFunc H) at3)))))"

section \<open>Direct assets\<close>

definition CreateInitialDirectAsset :: "(byte list \<Rightarrow> byte list) \<Rightarrow> byte list \<Rightarrow> byte list \<Rightarrow> AssetInterface" where
  "CreateInitialDirectAsset H assetName instanceID = DirectAsset (H (assetName @ instanceID))"

definition GenDirectAssetOutput :: "(byte list \<Rightarrow> byte list) \<Rightarrow> AssetInterface list \<Rightarrow> AssetInterface list" where
  "GenDirectAssetOutput H assets = map (\<lambda>nxt. DirectAsset (H (GetID nxt))) assets"

fun isDirect :: "AssetInterface \<Rightarrow> bool" where
  "isDirect (DirectAsset i) = True"
| "isDirect _ = False"

fun checkDirect :: "(byte list \<Rightarrow> byte list) \<Rightarrow> AssetInterface list \<Rightarrow> AssetInterface list \<Rightarrow> unit res" where
  "checkDirect H (a # inputs) (b # outputs) =
     (if \<not> isDirect a \<or> \<not> isDirect b then Inl (Panic ''interface conversion'')
      else if H (GetID a) \<noteq> GetID b then Inl ErrInvalidOutputAsset else checkDirect H inputs outputs)"
| "checkDirect H _ _ = Inr ()"

definition CheckDirectOutputFunc :: "(byte list \<Rightarrow> byte list) \<Rightarrow> 'p checkOutputs" where
  "CheckDirectOutputFunc H account inputs outputs =
     (if length inputs \<noteq> length outputs then Inl ErrInvalidAssetCount else checkDirect H inputs outputs)"

definition DirectSendToSelf :: "(byte list \<Rightarrow> byte list) \<Rightarrow> AssetInterface list \<Rightarrow> AssetInterface list res" where
  "DirectSendToSelf H inputs = Inr (map (\<lambda>nxt. DirectAsset (H (GetID nxt))) inputs)"

text \<open>The inputs are all assets of the account, the output is made of the first.\<close>

definition GenDirectAssetTransfer :: "(byte list \<Rightarrow> byte list) \<Rightarrow> ('p, 'q, 's, 'k) keyOps \<Rightarrow> 'q \<Rightarrow> ('k, 'p) assetTable \<Rightarrow>
    ('k, 'p) assetTable \<times> ('p, 's) AssetTransfer option res" where
  "GenDirectAssetTransfer H K priv at =
     then_do (mustAccount K (Some (privPub K priv)) at) (\<lambda>(str, acc) at1.
       if Assets acc = [] then (at1, Inr None)
       else mustGenerate (GenerateAssetTransfer K priv (Assets acc) (GenDirectAssetOutput H (take 1 (Assets acc))) [privPub K priv]
              (CheckDirectOutputFunc H) at1))"

section \<open>Decided transfers\<close>

text \<open>What \<^verbatim>\<open>HasDecided\<close> of \<^verbatim>\<open>asset_proposer.go\<close> does with the table for a decided transfer: an error of the validation is a panic.\<close>

definition decideTransfer :: "('p, 'q, 's, 'k) keyOps \<Rightarrow> 'p checkOutputs \<Rightarrow> ('p, 's) AssetTransfer \<Rightarrow> ('k, 'p) assetTable \<Rightarrow> ('k, 'p) assetTable \<times> unit res" where
  "decideTransfer K checkFunc tr at =
     (case ValidateTransfer K checkFunc False tr at of
        (at1, Inl _) \<Rightarrow> (at1, Inl (Panic ''ValidateTransfer''))
      | (at1, Inr _) \<Rightarrow> ConsumeTransfer K tr at1)"

end
