(* ===== verification/Asset_Table.thy ===== *)
theory Asset_Table
  imports Asset
begin

text \<open>
  What the operations on assets do: the binary searches and the sorted slices of an account compute set operations on the identifiers, the
  table is the set of pairs of a key and an asset it owns, and a validated transfer is consumed without panic and moves exactly its assets. The
  last part is proved for every rule about inputs and outputs that does not look at the account, and holds for both rules of the code.
\<close>

section \<open>Searching and sorting\<close>

lemma sortSearch_spec:
  assumes "\<forall>a b. a \<le> b \<longrightarrow> b < n \<longrightarrow> f a \<longrightarrow> f b" "i \<le> j" "j \<le> n" "\<forall>k < i. \<not> f k" "\<forall>k. j \<le> k \<longrightarrow> k < n \<longrightarrow> f k"
  shows "sortSearch f i j \<le> n \<and> (\<forall>k < sortSearch f i j. \<not> f k) \<and> (\<forall>k. sortSearch f i j \<le> k \<longrightarrow> k < n \<longrightarrow> f k)"
  using assms
proof (induction f i j rule: sortSearch.induct)
  case (1 f i j)
  let ?h = "(i + j) div 2"
  show ?case
  proof (cases "i < j")
    case True
    then have h: "i \<le> ?h" "?h < j" by auto
    show ?thesis
    proof (cases "f ?h")
      case f: True
      have "\<forall>k. ?h \<le> k \<longrightarrow> k < n \<longrightarrow> f k" using "1.prems"(1) [rule_format, of ?h] f by simp
      then have "sortSearch f i ?h \<le> n \<and> (\<forall>k < sortSearch f i ?h. \<not> f k) \<and> (\<forall>k. sortSearch f i ?h \<le> k \<longrightarrow> k < n \<longrightarrow> f k)"
        by (intro "1.IH"(2) [OF True refl _ "1.prems"(1) h(1) _ "1.prems"(4)]) (use f h(2) "1.prems"(3) in auto)
      then show ?thesis using sortSearch.simps [of f i j] True f by (simp add: Let_def)
    next
      case f: False
      have "\<forall>k < ?h + 1. \<not> f k"
      proof (intro allI impI)
        fix k assume "k < ?h + 1"
        then have "k \<le> ?h" "?h < n" using h "1.prems"(3) by simp_all
        then show "\<not> f k" using "1.prems"(1) [rule_format, of k ?h] f by auto
      qed
      then have "sortSearch f (?h + 1) j \<le> n \<and> (\<forall>k < sortSearch f (?h + 1) j. \<not> f k) \<and> (\<forall>k. sortSearch f (?h + 1) j \<le> k \<longrightarrow> k < n \<longrightarrow> f k)"
        by (intro "1.IH"(1) [OF True refl f "1.prems"(1) _ "1.prems"(3) _ "1.prems"(5)]) (use h(2) in auto)
      then show ?thesis using sortSearch.simps [of f i j] True f by (simp add: Let_def)
    qed
  next
    case False
    then have "i = j" "sortSearch f i j = i" using "1.prems"(2) sortSearch.simps [of f i j] by simp_all
    then show ?thesis using "1.prems"(3-5) by simp
  qed
qed

text \<open>On a sorted slice the search finds the first position of the identifier, if it is there.\<close>

lemma findKey_spec:
  assumes "sorted keys"
  shows "findKey h keys = Some i \<Longrightarrow> i < length keys \<and> keys ! i = h \<and> (\<forall>k < i. keys ! k < h)"
    "findKey h keys = None \<longleftrightarrow> h \<notin> set keys"
proof -
  let ?f = "\<lambda>n. h \<le> keys ! n" and ?n = "length keys"
  let ?i = "sortSearch ?f 0 ?n"
  have m: "\<forall>a b. a \<le> b \<longrightarrow> b < ?n \<longrightarrow> ?f a \<longrightarrow> ?f b" using assms by (meson order_trans sorted_nth_mono)
  have "?i \<le> ?n \<and> (\<forall>k < ?i. \<not> h \<le> keys ! k) \<and> (\<forall>k. ?i \<le> k \<longrightarrow> k < ?n \<longrightarrow> h \<le> keys ! k)"
    by (rule sortSearch_spec [OF m]) simp_all
  then have s: "?i \<le> ?n" "\<And>k. k < ?i \<Longrightarrow> keys ! k < h" "\<And>k. ?i \<le> k \<Longrightarrow> k < ?n \<Longrightarrow> h \<le> keys ! k"
    unfolding not_le by simp_all
  show "findKey h keys = Some i \<Longrightarrow> i < length keys \<and> keys ! i = h \<and> (\<forall>k < i. keys ! k < h)"
    using s(1,2) by (auto simp: findKey_def Let_def split: if_splits)
  show "findKey h keys = None \<longleftrightarrow> h \<notin> set keys"
  proof
    assume "findKey h keys = None"
    then have n: "?i = ?n \<or> h \<noteq> keys ! ?i" by (simp add: findKey_def Let_def split: if_splits)
    show "h \<notin> set keys"
    proof
      assume "h \<in> set keys"
      then obtain k where k: "k < ?n" "keys ! k = h" by (auto simp: in_set_conv_nth)
      then have le: "?i \<le> k" using s(2) [of k] by (meson less_irrefl not_le)
      then have "h \<le> keys ! ?i" using s(3) [of ?i] k(1) by simp
      moreover have "keys ! ?i \<le> h" using sorted_nth_mono [OF assms le] k by simp
      ultimately show False using n le k(1) by auto
    qed
  next
    assume "h \<notin> set keys"
    then have "?i = ?n \<or> h \<noteq> keys ! ?i" using s(1) nth_mem [of ?i keys] by (metis le_neq_implies_less)
    then show "findKey h keys = None" by (auto simp: findKey_def Let_def)
  qed
qed

lemma hasDuplicates_sorted: "sorted l \<Longrightarrow> hasDuplicates l \<longleftrightarrow> \<not> distinct l"
proof (induction l rule: hasDuplicates.induct)
  case (1 a b l)
  then show ?case by (auto simp: order.antisym)
qed simp_all

text \<open>The slice of an account: sorted by identifiers, which are different.\<close>

definition wfAssets :: "AssetInterface list \<Rightarrow> bool" where
  "wfAssets l \<longleftrightarrow> sorted (map GetID l) \<and> distinct (map GetID l)"

lemma wfAssets_Nil [simp]: "wfAssets []"
  by (simp add: wfAssets_def)

lemma wfAssets_inj: "wfAssets l \<Longrightarrow> inj_on GetID (set l)"
  by (simp add: wfAssets_def distinct_map)

text \<open>Such a slice is determined by its elements.\<close>

lemma wfAssets_eq:
  assumes "wfAssets l" "wfAssets l'" "set l = set l'"
  shows "l = l'"
proof -
  have "map GetID l = map GetID l'" using assms by (intro sorted_distinct_set_unique) (auto simp: wfAssets_def)
  moreover have "inj_on GetID (set l \<union> set l')" using wfAssets_inj [OF assms(1)] assms(3) by simp
  ultimately show ?thesis using map_inj_on by blast
qed

lemma wfAssets_filter: "wfAssets l \<Longrightarrow> wfAssets (filter P l)"
  by (simp add: wfAssets_def sorted_filter distinct_map_filter)

lemma AddAsset_spec:
  assumes "wfAssets (Assets aa)" "GetID a \<notin> GetID ` set (Assets aa)"
  shows "\<exists>l. AddAsset a aa = Inr (aa\<lparr>Assets := l\<rparr>) \<and> wfAssets l \<and> set l = insert a (set (Assets aa))"
proof -
  let ?l = "sort_key GetID (Assets aa @ [a])"
  have m: "mset ?l = mset (Assets aa @ [a])" by (rule mset_sort)
  then have "mset (map GetID ?l) = mset (map GetID (Assets aa @ [a]))" by (metis mset_map)
  moreover have "distinct (map GetID (Assets aa @ [a]))" using assms by (simp add: wfAssets_def)
  ultimately have d: "distinct (map GetID ?l)" using mset_eq_imp_distinct_iff by metis
  have s: "sorted (map GetID ?l)" by simp
  have "AddAsset a aa = Inr (aa\<lparr>Assets := ?l\<rparr>)" using hasDuplicates_sorted [OF s] d by (simp add: AddAsset_def Let_def)
  moreover have "wfAssets ?l" unfolding wfAssets_def using s d by blast
  moreover have "set ?l = insert a (set (Assets aa))" by auto
  ultimately show ?thesis by blast
qed

section \<open>Consuming and checking assets of an account\<close>

lemma consumedIdxs_spec:
  assumes "sorted keys" "distinct keys" "sorted hs" "distinct hs" "set hs \<subseteq> set (drop n keys)"
  shows "\<exists>idxs. consumedIdxs hs keys n = Inr idxs \<and> map ((!) keys) idxs = hs \<and> sorted_wrt (<) idxs \<and> (\<forall>x \<in> set idxs. n \<le> x \<and> x < length keys)"
  using assms(3-5)
proof (induction hs arbitrary: n)
  case (Cons h hs)
  have s: "sorted (drop n keys)" using assms(1) by (rule sorted_wrt_drop)
  obtain idx where f: "findKey h (drop n keys) = Some idx" using findKey_spec(2) [OF s, of h] Cons.prems(3) by auto
  have i: "n + idx < length keys" "keys ! (n + idx) = h" using findKey_spec(1) [OF s f] by (auto simp: add.commute)
  have "h' \<in> set (drop (n + idx) keys)" if h': "h' \<in> set hs" for h'
  proof -
    have "h < h'" using Cons.prems(1,2) h' by (metis distinct.simps(2) le_neq_trans sorted_simps(2))
    have "h' \<in> set (drop n keys)" using Cons.prems(3) h' by auto
    then obtain k where k: "k < length (drop n keys)" "drop n keys ! k = h'" by (metis in_set_conv_nth)
    then have k': "n + k < length keys" "keys ! (n + k) = h'" by auto
    have "idx \<le> k"
    proof (rule ccontr)
      assume "\<not> idx \<le> k"
      then have "keys ! (n + k) \<le> keys ! (n + idx)" using sorted_nth_mono [OF assms(1), of "n + k" "n + idx"] i(1) by simp
      then show False using i(2) k'(2) \<open>h < h'\<close> by simp
    qed
    then have "drop (n + idx) keys ! (k - idx) = h'" "k - idx < length (drop (n + idx) keys)" using k' by auto
    then show ?thesis by (metis nth_mem)
  qed
  then obtain idxs where x: "consumedIdxs hs keys (n + idx) = Inr idxs" "map ((!) keys) idxs = hs" "sorted_wrt (<) idxs"
    "\<forall>x \<in> set idxs. n + idx \<le> x \<and> x < length keys" using Cons.IH [of "n + idx"] Cons.prems(1,2) by auto
  have "n + idx \<noteq> x" if "x \<in> set idxs" for x using x(2) i(2) that Cons.prems(2) by auto
  then have "\<forall>x \<in> set idxs. n + idx < x" using x(4) by (metis le_neq_implies_less)
  then show ?case using f x i by (intro exI [of _ "(n + idx) # idxs"]) auto
qed simp

lemma remainAssets_filter:
  "sorted_wrt (<) idxs \<Longrightarrow> \<forall>x \<in> set idxs. i \<le> x \<Longrightarrow> remainAssets i l idxs = map snd (filter (\<lambda>(k, a). k \<notin> set idxs) (enumerate i l))"
proof (induction i l idxs rule: remainAssets.induct)
  case (3 i nxt l x idxs)
  have ge: "Suc i \<le> k" if "(k, a) \<in> set (enumerate (Suc i) l)" for k a using that by (auto simp: in_set_enumerate_eq)
  show ?case
  proof (cases "i = x")
    case True
    then have "remainAssets (i + 1) l idxs = map snd (filter (\<lambda>(k, a). k \<notin> set idxs) (enumerate (Suc i) l))"
      using 3 by (simp add: Suc_le_eq)
    also have "filter (\<lambda>(k, a). k \<notin> set idxs) (enumerate (Suc i) l) = filter (\<lambda>(k, a). k \<notin> set (x # idxs)) (enumerate (Suc i) l)"
      using ge True by (intro filter_cong) fastforce+
    finally show ?thesis using True by simp
  next
    case False
    then have "i < x" using 3 by simp
    then have "i \<notin> set (x # idxs)" "\<forall>y \<in> set (x # idxs). i + 1 \<le> y" using "3.prems"(1) by fastforce+
    then show ?thesis using "3.IH"(2) [OF False "3.prems"(1)] False by simp
  qed
qed simp_all

lemma filter_enumerate:
  "\<forall>k < length l. P (i + k) \<longleftrightarrow> Q (l ! k) \<Longrightarrow> map snd (filter (\<lambda>(k, a). P k) (enumerate i l)) = filter Q l"
proof (induction l arbitrary: i)
  case (Cons a l)
  have 0: "P i \<longleftrightarrow> Q a" using Cons.prems by (metis add.right_neutral length_greater_0_conv list.distinct(1) nth_Cons_0)
  have "\<forall>k < length l. P (Suc i + k) \<longleftrightarrow> Q (l ! k)" using Cons.prems by fastforce
  from Cons.IH [OF this] 0 show ?case by simp
qed simp

lemma ConsumeAssets_spec:
  assumes "wfAssets (Assets aa)" "distinct ids" "set ids \<subseteq> GetID ` set (Assets aa)"
  shows "ConsumeAssets ids aa = Inr (aa\<lparr>Assets := filter (\<lambda>a. GetID a \<notin> set ids) (Assets aa)\<rparr>)"
proof -
  let ?keys = "map GetID (Assets aa)"
  have w: "sorted ?keys" "distinct ?keys" using assms(1) by (simp_all add: wfAssets_def)
  obtain idxs where x: "consumedIdxs (sort ids) ?keys 0 = Inr idxs" "map ((!) ?keys) idxs = sort ids" "sorted_wrt (<) idxs"
    "\<forall>x \<in> set idxs. x < length ?keys" using consumedIdxs_spec [OF w, of "sort ids" 0] assms(2,3) by auto
  have "set (map ((!) ?keys) idxs) = set ids" unfolding x(2) by simp
  then have s: "(!) ?keys ` set idxs = set ids" by simp
  have "k \<notin> set idxs \<longleftrightarrow> GetID (Assets aa ! k) \<notin> set ids" if k: "k < length (Assets aa)" for k
  proof -
    have "k \<in> set idxs \<longleftrightarrow> ?keys ! k \<in> (!) ?keys ` set idxs"
      using nth_eq_iff_index_eq [OF w(2)] x(4) k by (auto simp del: nth_map)
    then show ?thesis unfolding s using k by simp
  qed
  then have r: "remainAssets 0 (Assets aa) idxs = filter (\<lambda>a. GetID a \<notin> set ids) (Assets aa)"
    using remainAssets_filter [OF x(3), of 0 "Assets aa"] filter_enumerate [of "Assets aa" "\<lambda>k. k \<notin> set idxs" 0 "\<lambda>a. GetID a \<notin> set ids"] by simp
  have "distinct (Assets aa)" using w(2) by (simp add: distinct_map)
  then have "length (filter (\<lambda>a. GetID a \<in> set ids) (Assets aa)) = card {a \<in> set (Assets aa). GetID a \<in> set ids}"
    by (simp add: distinct_card [symmetric] distinct_length_filter Int_def conj_commute)
  also have "\<dots> = card (GetID ` {a \<in> set (Assets aa). GetID a \<in> set ids})"
    using wfAssets_inj [OF assms(1)] by (intro card_image [symmetric]) (auto simp: inj_on_def)
  also have "GetID ` {a \<in> set (Assets aa). GetID a \<in> set ids} = set ids" using assms(3) by auto
  finally have "length (filter (\<lambda>a. GetID a \<in> set ids) (Assets aa)) = length ids" using assms(2) by (simp add: distinct_card)
  then have "int (length (filter (\<lambda>a. GetID a \<notin> set ids) (Assets aa))) = int (length (Assets aa)) - int (length ids)"
    using sum_length_filter_compl [of "\<lambda>a. GetID a \<in> set ids" "Assets aa"] by simp
  then show ?thesis using x(1) r by (simp add: ConsumeAssets_def Let_def)
qed

text \<open>The loop of \<^verbatim>\<open>CheckAssets\<close>, on the rest \<open>assets\<close> of the slice \<open>L\<close> of the account.\<close>

lemma wfAssets_drop: "wfAssets l \<Longrightarrow> wfAssets (drop n l)"
  by (simp add: wfAssets_def drop_map [symmetric] sorted_wrt_drop)

lemma find_asset:
  assumes "wfAssets L" "a \<in> set L"
  shows "List.find (\<lambda>x. GetID x = GetID a) L = Some a"
proof -
  have "List.find (\<lambda>x. GetID x = GetID a) L \<noteq> None" using assms(2) by (auto simp: find_None_iff)
  then obtain b where b: "List.find (\<lambda>x. GetID x = GetID a) L = Some b" by blast
  then have "b \<in> set L" "GetID b = GetID a" by (auto simp: find_Some_iff)
  then show ?thesis using b inj_onD [OF wfAssets_inj [OF assms(1)]] assms(2) by blast
qed

lemma rest_keys:
  assumes w: "wfAssets assets" and i: "idx < length assets" and h: "GetID (assets ! idx) < h"
  shows "h \<in> GetID ` set (drop idx assets) \<longleftrightarrow> h \<in> GetID ` set assets"
proof
  show "h \<in> GetID ` set assets" if "h \<in> GetID ` set (drop idx assets)" using that by (meson image_mono set_drop_subset subsetD)
next
  assume "h \<in> GetID ` set assets"
  then obtain k where k: "k < length assets" "GetID (assets ! k) = h" by (auto simp: in_set_conv_nth)
  have "idx \<le> k"
  proof (rule ccontr)
    assume "\<not> idx \<le> k"
    then have "map GetID assets ! k \<le> map GetID assets ! idx" using w i by (intro sorted_nth_mono) (simp_all add: wfAssets_def)
    then show False using i k h by simp
  qed
  then have "drop idx assets ! (k - idx) = assets ! k" "k - idx < length (drop idx assets)" using k(1) by auto
  then show "h \<in> GetID ` set (drop idx assets)" using k(2) by (metis image_eqI nth_mem)
qed

lemma checkLoop_spec:
  assumes "wfAssets L"
  shows "wfAssets assets \<Longrightarrow> set assets \<subseteq> set L \<Longrightarrow> sorted (map snd ps) \<Longrightarrow>
    checkLoop ps assets ret = Inr r \<longleftrightarrow> distinct (map snd ps) \<and> set (map snd ps) \<subseteq> GetID ` set assets \<and>
      r = fold (\<lambda>(i, h) r. r[i := List.find (\<lambda>a. GetID a = h) L]) ps ret"
proof (induction ps arbitrary: assets ret)
  case (Cons p ps)
  obtain i h where p: "p = (i, h)" by (cases p)
  have s: "sorted (map GetID assets)" "sorted (map snd ps)" using Cons.prems by (simp_all add: wfAssets_def)
  show ?case
  proof (cases "h \<in> GetID ` set assets \<and> h \<notin> set (map snd ps)")
    case False
    then have "\<not> (checkLoop (p # ps) assets ret = Inr r)"
      using findKey_spec(2) [OF s(1), of h] findKey_spec(2) [OF s(2), of h] p by (auto split: option.splits)
    then show ?thesis using False p by auto
  next
    case True
    obtain idx where f: "findKey h (map GetID assets) = Some idx" using findKey_spec(2) [OF s(1), of h] True by auto
    have x: "idx < length assets" "GetID (assets ! idx) = h" using findKey_spec(1) [OF s(1) f] by auto
    have fd: "List.find (\<lambda>a. GetID a = h) L = Some (assets ! idx)" using find_asset [OF assms subsetD [OF Cons.prems(2) nth_mem [OF x(1)]]] x(2) by simp
    have "h < h'" if "h' \<in> set (map snd ps)" for h' using that True Cons.prems(3) p by (auto simp: le_less)
    then have k: "set (map snd ps) \<subseteq> GetID ` set (drop idx assets) \<longleftrightarrow> set (map snd ps) \<subseteq> GetID ` set assets"
      using rest_keys [OF Cons.prems(1) x(1)] x(2) by (meson subset_iff)
    have "set (drop idx assets) \<subseteq> set L" using Cons.prems(2) set_drop_subset [of idx assets] by blast
    note ih = Cons.IH [OF wfAssets_drop [OF Cons.prems(1)] this s(2)]
    have "checkLoop (p # ps) assets ret = checkLoop ps (drop idx assets) (ret[i := Some (assets ! idx)])"
      using f findKey_spec(2) [OF s(2), of h] True p by simp
    then show ?thesis using ih k True p fd by simp
  qed
qed auto

lemma fold_updates:
  "distinct (map fst ps) \<Longrightarrow> i < length r \<Longrightarrow>
   fold (\<lambda>(i, h) r. r[i := g h]) ps r ! i = (case map_of ps i of None \<Rightarrow> r ! i | Some h \<Rightarrow> g h)"
proof (induction ps arbitrary: r)
  case (Cons p ps)
  obtain j h where p: "p = (j, h)" by (cases p)
  show ?case
  proof (cases "i = j")
    case True
    then have "map_of ps i = None" using Cons.prems(1) p by (simp add: map_of_eq_None_iff)
    then show ?thesis using Cons p True by simp
  qed (use Cons p in \<open>simp split: option.splits\<close>)
qed simp

lemma CheckAssets_spec:
  assumes w: "wfAssets (Assets aa)"
  shows "CheckAssets ids aa = Inr r \<longleftrightarrow> distinct ids \<and> set r \<subseteq> set (Assets aa) \<and> map GetID r = ids"
proof (cases "distinct ids \<and> set ids \<subseteq> GetID ` set (Assets aa) \<and> ids \<noteq> []")
  case False
  let ?ps = "sort_key snd (enumerate 0 ids)"
  have "mset (map snd ?ps) = mset ids" by (metis map_snd_enumerate mset_map mset_sort)
  then have d: "distinct (map snd ?ps) \<longleftrightarrow> distinct ids" "set (map snd ?ps) = set ids" by (metis mset_eq_imp_distinct_iff, metis mset_eq_setD)
  have c: "checkLoop ?ps (Assets aa) ret = Inr x \<Longrightarrow> distinct ids \<and> set ids \<subseteq> GetID ` set (Assets aa)" for ret x
    using checkLoop_spec [OF w w order_refl, of ?ps ret x] d by simp
  show ?thesis
  proof (cases "ids = []")
    case True
    then show ?thesis by (auto simp: CheckAssets_def)
  next
    case ne: False
    then have "CheckAssets ids aa \<noteq> Inr r" using c False by (auto simp: CheckAssets_def bind_res_Inr_iff)
    moreover have "set ids \<subseteq> GetID ` set (Assets aa)" if "set r \<subseteq> set (Assets aa)" "map GetID r = ids" using that by (metis image_mono list.set_map)
    ultimately show ?thesis using False ne by blast
  qed
next
  case True
  let ?ps = "sort_key snd (enumerate 0 ids)" and ?f = "\<lambda>h. List.find (\<lambda>a. GetID a = h) (Assets aa)" and ?n = "length ids"
  have "mset (map snd ?ps) = mset ids" by (metis map_snd_enumerate mset_map mset_sort)
  then have d: "distinct (map snd ?ps)" "set (map snd ?ps) = set ids" using True by (metis mset_eq_imp_distinct_iff, metis mset_eq_setD)
  have "mset (map fst ?ps) = mset (map fst (enumerate 0 ids))" by (metis mset_map mset_sort)
  then have df: "distinct (map fst ?ps)" using mset_eq_imp_distinct_iff [of "map fst ?ps" "map fst (enumerate 0 ids)"] by simp
  have m: "map_of ?ps i = Some (ids ! i)" if "i < ?n" for i
    using map_of_is_SomeI [OF df] that by (simp add: in_set_enumerate_eq)
  let ?r = "fold (\<lambda>(i, h) r. r[i := ?f h]) ?ps (replicate ?n None)"
  have len: "length (fold (\<lambda>(i, h) r. r[i := ?f h]) ps r0) = length r0" for ps r0
    by (induction ps arbitrary: r0) (auto split: prod.splits)
  have "?r = map ?f ids" using fold_updates [OF df, of _ "replicate ?n None" ?f] m len by (intro nth_equalityI) simp_all
  then have cl: "checkLoop ?ps (Assets aa) (replicate ?n None) = Inr (map ?f ids)"
    using checkLoop_spec [OF w w order_refl, of ?ps "replicate ?n None" "map ?f ids"] d True by simp
  have get: "?f h = Some (the (?f h)) \<and> GetID (the (?f h)) = h \<and> the (?f h) \<in> set (Assets aa)" if h: "h \<in> set ids" for h
  proof -
    have "h \<in> GetID ` set (Assets aa)" using True h by auto
    then obtain a where "a \<in> set (Assets aa)" "GetID a = h" by auto
    then show ?thesis using find_asset [OF w, of a] by simp
  qed
  have "card (set ids) \<le> card (GetID ` set (Assets aa))" using True by (intro card_mono) auto
  then have le: "length ids \<le> length (Assets aa)" using True card_image_le [of "set (Assets aa)" GetID] card_length [of "Assets aa"]
    by (simp add: distinct_card)
  have "\<forall>h \<in> set ids. ?f h \<noteq> None" using get by (metis option.distinct(1))
  then have "those (map ?f ids) = Some (map (the \<circ> ?f) ids)" by (simp add: those_map)
  then have "CheckAssets ids aa = Inr (map (the \<circ> ?f) ids)" using cl le True by (simp add: CheckAssets_def)
  moreover have "map (the \<circ> ?f) ids = r \<longleftrightarrow> set r \<subseteq> set (Assets aa) \<and> map GetID r = ids"
  proof
    assume "map (the \<circ> ?f) ids = r"
    then show "set r \<subseteq> set (Assets aa) \<and> map GetID r = ids" using get by (auto simp: map_idI)
  next
    assume r: "set r \<subseteq> set (Assets aa) \<and> map GetID r = ids"
    then have "map (the \<circ> ?f) ids = map ((the \<circ> ?f) \<circ> GetID) r" by auto
    also have "\<dots> = r" using r find_asset [OF w] by (intro map_idI) auto
    finally show "map (the \<circ> ?f) ids = r" .
  qed
  ultimately show ?thesis using True by auto
qed

section \<open>The table as a set of owned assets\<close>

definition assetsAt :: "('k, 'p) assetTable \<Rightarrow> 'k \<Rightarrow> AssetInterface list" where
  "assetsAt at k = (case accountMap at k of None \<Rightarrow> [] | Some acc \<Rightarrow> Assets acc)"

definition owned :: "('k, 'p) assetTable \<Rightarrow> ('k \<times> AssetInterface) set" where
  "owned at = {(k, a). a \<in> set (assetsAt at k)}"

definition wfTable :: "('k, 'p) assetTable \<Rightarrow> bool" where
  "wfTable at \<longleftrightarrow> (\<forall>k. wfAssets (assetsAt at k))"

text \<open>The table is determined, up to empty accounts, by what is owned.\<close>

lemma owned_assetsAt:
  assumes "wfTable at" "wfTable at'" "owned at = owned at'"
  shows "assetsAt at k = assetsAt at' k"
proof -
  have "set (assetsAt at k) = set (assetsAt at' k)" using assms(3) unfolding owned_def by blast
  then show ?thesis using wfAssets_eq assms(1,2) by (auto simp: wfTable_def)
qed

text \<open>The abstract transfer: the inputs of the sender go, the outputs come to their receivers.\<close>

definition applyTransfer :: "'k \<Rightarrow> byte list list \<Rightarrow> ('k \<times> AssetInterface) set \<Rightarrow> ('k \<times> AssetInterface) set \<Rightarrow> ('k \<times> AssetInterface) set" where
  "applyTransfer str ids outs O' = {(k, a) \<in> O'. \<not> (k = str \<and> GetID a \<in> set ids)} \<union> outs"

text \<open>No receiver holds an asset with the identifier of one of its outputs.\<close>

definition freshOutputs :: "('k \<times> AssetInterface) set \<Rightarrow> ('k \<times> AssetInterface) set \<Rightarrow> bool" where
  "freshOutputs outs O' \<longleftrightarrow> (\<forall>(k, a) \<in> outs. \<forall>(k', a') \<in> O'. k' = k \<longrightarrow> GetID a' \<noteq> GetID a)"

lemma assetsAt_update: "assetsAt (at\<lparr>accountMap := (accountMap at)(str \<mapsto> acc)\<rparr>) k = (if k = str then Assets acc else assetsAt at k)"
  by (simp add: assetsAt_def)

lemma recordStats_assetsAt [simp]: "assetsAt (recordStats f at) = assetsAt at"
  by (rule ext) (simp add: recordStats_def assetsAt_def)

lemma assetGetAccount_spec:
  assumes "pubString K pub = Inr str" and "assetGetAccount K pub at = (at1, res)"
  shows "\<exists>acc. res = Inr (str, acc) \<and> Assets acc = assetsAt at str \<and> assetsAt at1 = assetsAt at"
  using assms by (auto simp: assetGetAccount_def assetsAt_def NewAssetAccount_def fun_eq_iff split: option.splits)

lemma mustAccount_spec:
  assumes "pubString K pub = Inr str" and "mustAccount K (Some pub) at = (at1, res)"
  shows "\<exists>acc. res = Inr (str, acc) \<and> Assets acc = assetsAt at str \<and> assetsAt at1 = assetsAt at"
proof -
  obtain at2 r where g: "assetGetAccount K pub at = (at2, r)" by (cases "assetGetAccount K pub at")
  from assetGetAccount_spec [OF assms(1) g] show ?thesis using assms(2) g by (auto simp: mustAccount_def)
qed

lemma owned_update:
  assumes "assetsAt at1 = assetsAt at" "at2 = at1\<lparr>accountMap := (accountMap at1)(str \<mapsto> acc)\<rparr>"
  shows "owned at2 = {(k, a) \<in> owned at. k \<noteq> str} \<union> {str} \<times> set (Assets acc)" "wfTable at \<Longrightarrow> wfAssets (Assets acc) \<Longrightarrow> wfTable at2"
  using assms by (auto simp: owned_def wfTable_def assetsAt_update split: if_splits)

lemma addOutputs_spec:
  assumes "wfTable at" "pubStrings K receivers = Inr strs" "length outputs = length receivers" "distinct (map GetID outputs)"
    "freshOutputs (set (zip strs outputs)) (owned at)"
  shows "\<exists>at'. addOutputs K outputs receivers at = (at', Inr ()) \<and> wfTable at' \<and> owned at' = owned at \<union> set (zip strs outputs)"
  using assms
proof (induction outputs arbitrary: receivers strs at)
  case (Cons nxt outputs)
  obtain r rs where rs: "receivers = r # rs" using Cons.prems(3) by (cases receivers) simp_all
  obtain str ss where ss: "pubString K r = Inr str" "pubStrings K rs = Inr ss" "strs = str # ss"
    using Cons.prems(2) rs by (auto simp: bind_res_Inr_iff)
  obtain at1 res where m: "mustAccount K (Some r) at = (at1, res)" by (cases "mustAccount K (Some r) at")
  obtain acc where acc: "res = Inr (str, acc)" "Assets acc = assetsAt at str" "assetsAt at1 = assetsAt at" using mustAccount_spec [OF ss(1) m] by blast
  have w: "wfAssets (Assets acc)" using Cons.prems(1) acc(2) by (simp add: wfTable_def)
  have own: "a \<in> set (Assets acc) \<longleftrightarrow> (str, a) \<in> owned at" for a by (simp add: owned_def acc(2))
  have "GetID nxt \<notin> GetID ` set (Assets acc)" using Cons.prems(5) ss(3) own by (fastforce simp: freshOutputs_def)
  then obtain l where l: "AddAsset nxt acc = Inr (acc\<lparr>Assets := l\<rparr>)" "wfAssets l" "set l = insert nxt (set (Assets acc))"
    using AddAsset_spec [OF w] by blast
  let ?at2 = "at1\<lparr>accountMap := (accountMap at1)(str \<mapsto> acc\<lparr>Assets := l\<rparr>)\<rparr>"
  have w2: "wfTable ?at2" using owned_update(2) [OF acc(3) HOL.refl] Cons.prems(1) l(2) by simp
  have o2: "owned ?at2 = insert (str, nxt) (owned at)" using owned_update(1) [OF acc(3) HOL.refl] l(3) own by auto
  have f2: "freshOutputs (set (zip ss outputs)) (owned ?at2)"
  proof -
    have "GetID nxt \<noteq> GetID a" if "(k, a) \<in> set (zip ss outputs)" for k a using that Cons.prems(4) by (auto dest: set_zip_rightD)
    then show ?thesis using Cons.prems(5) ss(3) by (auto simp: freshOutputs_def o2)
  qed
  obtain at' where "addOutputs K outputs rs ?at2 = (at', Inr ())" "wfTable at'" "owned at' = owned ?at2 \<union> set (zip ss outputs)"
    using Cons.IH [OF w2 ss(2) _ _ f2] Cons.prems(3,4) rs by auto
  then show ?case using rs ss(3) m acc(1) l(1) o2 by (simp add: updateAccount_def)
qed simp

lemma ConsumeTransfer_spec:
  assumes wf: "wfTable at" and s: "trSender tr = Some sender" "pubString K sender = Inr str" and r: "pubStrings K (trReceivers tr) = Inr strs"
    and len: "length (trOutputs tr) = length (trReceivers tr)" and d: "distinct (map GetID (trOutputs tr))" "distinct (trInputs tr)"
    and ins: "set (trInputs tr) \<subseteq> GetID ` set (assetsAt at str)"
    and fr: "freshOutputs (set (zip strs (trOutputs tr))) (applyTransfer str (trInputs tr) {} (owned at))"
  shows "\<exists>at'. ConsumeTransfer K tr at = (at', Inr ()) \<and> wfTable at' \<and>
    owned at' = applyTransfer str (trInputs tr) (set (zip strs (trOutputs tr))) (owned at)"
proof -
  obtain at1 res where m: "mustAccount K (Some sender) at = (at1, res)" by (cases "mustAccount K (Some sender) at")
  obtain acc where acc: "res = Inr (str, acc)" "Assets acc = assetsAt at str" "assetsAt at1 = assetsAt at" using mustAccount_spec [OF s(2) m] by blast
  have w: "wfAssets (Assets acc)" using wf acc(2) by (simp add: wfTable_def)
  let ?l = "filter (\<lambda>a. GetID a \<notin> set (trInputs tr)) (Assets acc)"
  have c: "ConsumeAssets (trInputs tr) acc = Inr (acc\<lparr>Assets := ?l\<rparr>)" using ConsumeAssets_spec [OF w d(2)] ins acc(2) by simp
  let ?at2 = "at1\<lparr>accountMap := (accountMap at1)(str \<mapsto> acc\<lparr>Assets := ?l\<rparr>)\<rparr>"
  have w2: "wfTable ?at2" using owned_update(2) [OF acc(3) HOL.refl] wf wfAssets_filter [OF w] by simp
  have own: "a \<in> set (Assets acc) \<longleftrightarrow> (str, a) \<in> owned at" for a by (simp add: owned_def acc(2))
  have o2: "owned ?at2 = applyTransfer str (trInputs tr) {} (owned at)"
    using owned_update(1) [OF acc(3) HOL.refl] own by (auto simp: applyTransfer_def)
  obtain at3 where a: "addOutputs K (trOutputs tr) (trReceivers tr) ?at2 = (at3, Inr ())" "wfTable at3"
    "owned at3 = owned ?at2 \<union> set (zip strs (trOutputs tr))"
    using addOutputs_spec [OF w2 r len d(1)] fr o2 by auto
  have "wfTable (recordStats f at3)" "owned (recordStats f at3) = owned at3" for f using a(2) by (simp_all add: wfTable_def owned_def)
  then show ?thesis using s(1) m acc(1) c a(1,3) o2 by (simp add: ConsumeTransfer_def updateAccount_def applyTransfer_def)
qed

section \<open>Validation\<close>

lemma assetsUnique_iff: "assetsUnique l = Inr u \<longleftrightarrow> distinct (map GetID l)"
proof -
  have "mset (map GetID (sort_key GetID l)) = mset (map GetID l)" by (metis mset_map mset_sort)
  then have "distinct (map GetID (sort_key GetID l)) \<longleftrightarrow> distinct (map GetID l)" using mset_eq_imp_distinct_iff by blast
  then show ?thesis using hasDuplicates_sorted [of "map GetID (sort_key GetID l)"] by (simp add: assetsUnique_def)
qed

lemma CheckFormatD:
  assumes "CheckFormat K tr = Inr u"
  shows "length (trOutputs tr) = length (trReceivers tr)" "distinct (map GetID (trOutputs tr))" "trInputs tr \<noteq> []"
    "\<exists>sender str. trSender tr = Some sender \<and> pubString K sender = Inr str"
  using assms by (auto simp: CheckFormat_def bind_res_Inr_iff assetsUnique_iff split: option.splits if_splits)

text \<open>The transfer \<open>tr\<close> of the sender \<open>str\<close> is acceptable where the pairs \<open>O'\<close> are owned, and its inputs are the assets \<open>r\<close>.\<close>

definition acceptable ::
    "('p, 'q, 's, 'k) keyOps \<Rightarrow> 'p checkOutputs \<Rightarrow> ('p, 's) AssetTransfer \<Rightarrow> 'k \<Rightarrow> AssetInterface list \<Rightarrow> ('k \<times> AssetInterface) set \<Rightarrow> bool" where
  "acceptable K cf tr str r O' \<longleftrightarrow> CheckFormat K tr = Inr () \<and> (\<exists>sender. trSender tr = Some sender \<and> pubString K sender = Inr str) \<and>
     distinct (trInputs tr) \<and> (\<forall>a \<in> set r. (str, a) \<in> O') \<and> map GetID r = trInputs tr \<and> (\<forall>acc. cf acc r (trOutputs tr) = Inr ())"

lemma consume_acceptable:
  assumes wf: "wfTable at" and a: "acceptable K cf tr str r (owned at)" and rs: "pubStrings K (trReceivers tr) = Inr strs"
    and fr: "freshOutputs (set (zip strs (trOutputs tr))) (applyTransfer str (trInputs tr) {} (owned at))"
  shows "\<exists>at'. ConsumeTransfer K tr at = (at', Inr ()) \<and> wfTable at' \<and>
    owned at' = applyTransfer str (trInputs tr) (set (zip strs (trOutputs tr))) (owned at)"
proof -
  obtain sender where s: "trSender tr = Some sender" "pubString K sender = Inr str" using a by (auto simp: acceptable_def)
  have f: "CheckFormat K tr = Inr ()" "distinct (trInputs tr)" using a by (simp_all add: acceptable_def)
  have "set (trInputs tr) = GetID ` set r" using a unfolding acceptable_def by (metis list.set_map)
  moreover have "set r \<subseteq> set (assetsAt at str)" using a by (auto simp: acceptable_def owned_def)
  ultimately have "set (trInputs tr) \<subseteq> GetID ` set (assetsAt at str)" by auto
  from ConsumeTransfer_spec [OF wf s rs CheckFormatD(1,2) [OF f(1)] f(2) this fr] show ?thesis .
qed

text \<open>What the table relies on of the rule for inputs and outputs: it does not look at the account.\<close>

locale transfer_rule =
  fixes cf :: "'p checkOutputs"
  assumes account_free: "cf acc = cf acc'"
begin

lemma validate_acceptable:
  assumes wf: "wfTable at" and v: "ValidateTransfer K cf vs tr at = (at1, Inr u)"
  shows "assetsAt at1 = assetsAt at \<and> (\<exists>str r. acceptable K cf tr str r (owned at))"
proof -
  obtain at2 u' where c: "trCheck K cf vs tr at = (at2, Inr u')" "assetsAt at1 = assetsAt at2"
    using v by (auto simp: ValidateTransfer_def split: prod.splits sum.splits)
  then have f: "CheckFormat K tr = Inr ()" by (cases "CheckFormat K tr") (simp_all add: trCheck_def)
  obtain sender str where s: "trSender tr = Some sender" "pubString K sender = Inr str" using CheckFormatD(4) [OF f] by blast
  obtain at3 res where g: "assetGetAccount K sender at = (at3, res)" by (cases "assetGetAccount K sender at")
  obtain acc where acc: "res = Inr (str, acc)" "Assets acc = assetsAt at str" "assetsAt at3 = assetsAt at" using assetGetAccount_spec [OF s(2) g] by blast
  have w: "wfAssets (Assets acc)" using wf acc(2) by (simp add: wfTable_def)
  obtain r where r: "CheckAssets (trInputs tr) acc = Inr r" "cf acc r (trOutputs tr) = Inr ()" "at2 = at3"
    using c(1) f s g acc(1) by (auto simp: trCheck_def then_do_Inr_iff)
  have "distinct (trInputs tr)" "set r \<subseteq> set (Assets acc)" "map GetID r = trInputs tr" using CheckAssets_spec [OF w] r(1) by auto
  moreover have "cf acc' r (trOutputs tr) = Inr ()" for acc' using account_free [of acc' acc] r(2) by simp
  ultimately have "acceptable K cf tr str r (owned at)" using f s acc(2) by (auto simp: acceptable_def owned_def)
  then show ?thesis using c(2) r(3) acc(3) by auto
qed

lemma acceptable_validate:
  assumes wf: "wfTable at" and a: "acceptable K cf tr str r (owned at)"
  shows "\<exists>at1. ValidateTransfer K cf False tr at = (at1, Inr ()) \<and> assetsAt at1 = assetsAt at"
proof -
  obtain sender where s: "trSender tr = Some sender" "pubString K sender = Inr str" using a by (auto simp: acceptable_def)
  obtain at3 res where g: "assetGetAccount K sender at = (at3, res)" by (cases "assetGetAccount K sender at")
  obtain acc where acc: "res = Inr (str, acc)" "Assets acc = assetsAt at str" "assetsAt at3 = assetsAt at" using assetGetAccount_spec [OF s(2) g] by blast
  have w: "wfAssets (Assets acc)" using wf acc(2) by (simp add: wfTable_def)
  have "CheckAssets (trInputs tr) acc = Inr r" using CheckAssets_spec [OF w, of "trInputs tr" r] a acc(2) by (auto simp: acceptable_def owned_def)
  then have "trCheck K cf False tr at = (at3, Inr ())" using a s g acc(1) by (simp add: trCheck_def acceptable_def)
  then show ?thesis using acc(3) by (simp add: ValidateTransfer_def)
qed

lemma decide_acceptable:
  assumes wf: "wfTable at" and a: "acceptable K cf tr str r (owned at)" and rs: "pubStrings K (trReceivers tr) = Inr strs"
    and fr: "freshOutputs (set (zip strs (trOutputs tr))) (applyTransfer str (trInputs tr) {} (owned at))"
  shows "\<exists>at'. decideTransfer K cf tr at = (at', Inr ()) \<and> wfTable at' \<and>
    owned at' = applyTransfer str (trInputs tr) (set (zip strs (trOutputs tr))) (owned at)"
proof -
  obtain at1 where v: "ValidateTransfer K cf False tr at = (at1, Inr ())" "assetsAt at1 = assetsAt at" using acceptable_validate [OF wf a] by blast
  have t: "wfTable at1" "owned at1 = owned at" using v(2) wf by (simp_all add: wfTable_def owned_def)
  show ?thesis using consume_acceptable [OF t(1) _ rs, unfolded t(2), OF a fr] v(1) by (simp add: decideTransfer_def)
qed

end

interpretation value_rule: transfer_rule "CheckValueOutputFunc H" for H
  by unfold_locales (simp add: CheckValueOutputFunc_def fun_eq_iff)

interpretation direct_rule: transfer_rule "CheckDirectOutputFunc H" for H
  by unfold_locales (simp add: CheckDirectOutputFunc_def fun_eq_iff)

text \<open>The two rules of the repository.\<close>

definition assetRule :: "(byte list \<Rightarrow> byte list) \<Rightarrow> 'p checkOutputs \<Rightarrow> bool" where
  "assetRule H cf \<longleftrightarrow> cf = CheckValueOutputFunc H \<or> cf = CheckDirectOutputFunc H"

lemma rule_facts:
  assumes "assetRule H cf" "wfTable at"
  shows "ValidateTransfer K cf vs tr at = (at1, Inr u) \<Longrightarrow> assetsAt at1 = assetsAt at \<and> (\<exists>str r. acceptable K cf tr str r (owned at))"
    "acceptable K cf tr str r (owned at) \<Longrightarrow> pubStrings K (trReceivers tr) = Inr strs \<Longrightarrow>
     freshOutputs (set (zip strs (trOutputs tr))) (applyTransfer str (trInputs tr) {} (owned at)) \<Longrightarrow>
     \<exists>at'. decideTransfer K cf tr at = (at', Inr ()) \<and> wfTable at' \<and>
       owned at' = applyTransfer str (trInputs tr) (set (zip strs (trOutputs tr))) (owned at)"
  using assms value_rule.validate_acceptable direct_rule.validate_acceptable value_rule.decide_acceptable direct_rule.decide_acceptable
  unfolding assetRule_def by metis+

end
