(* ===== verification/Asset_Results.thy ===== *)
theory Asset_Results
  imports Asset_Table Currency_Table
begin

text \<open>
  What the asset transfers guarantee: a validated transfer moves exactly its assets, transfers with different inputs commute, and
  the value of all assets does not grow, unless the outputs of a transfer overflow, which the check of the code does not exclude.
\<close>

section \<open>Values\<close>

fun worth :: "AssetInterface \<Rightarrow> nat" where
  "worth (ValueAsset i v) = unat v"
| "worth _ = 0"

definition totalWorth :: "('k \<times> AssetInterface) set \<Rightarrow> nat" where
  "totalWorth O' = (\<Sum>(k, a) \<in> O'. worth a)"

lemma assetVal_worth: "assetVal a = Inr v \<Longrightarrow> unat v = worth a"
  by (cases a) simp_all

lemma assetVals_worth: "assetVals l = Inr vs \<Longrightarrow> map unat vs = map worth l"
  by (induction l arbitrary: vs) (auto simp: bind_res_Inr_iff assetVal_worth)

lemma nonZeroVals_worth: "nonZeroVals e l = Inr vs \<Longrightarrow> map unat vs = map worth l"
  by (induction l arbitrary: vs) (auto simp: bind_res_Inr_iff assetVal_worth split: if_splits)

lemma CheckValueOutputFunc_worth:
  assumes "CheckValueOutputFunc H acc ins outs = Inr u"
  shows "(\<Sum>a \<leftarrow> outs. worth a) mod 2 ^ 64 \<le> (\<Sum>a \<leftarrow> ins. worth a)"
proof -
  obtain vs ws where v: "assetVals ins = Inr vs" "nonZeroVals ErrZeroOutput outs = Inr ws" "\<not> CheckOverflow vs" "\<not> SumUint64 vs < SumUint64 ws"
    using assms by (auto simp: CheckValueOutputFunc_def bind_res_Inr_iff split: if_splits)
  have "unat (SumUint64 ws) \<le> unat (SumUint64 vs)" using v(4) by (simp add: word_le_nat_alt not_less)
  then have "sum_list (map unat ws) mod 2 ^ 64 \<le> sum_list (map unat vs)" using v(3) by (simp add: unat_SumUint64 CheckOverflow_iff not_le)
  then show ?thesis unfolding assetVals_worth [OF v(1)] nonZeroVals_worth [OF v(2)] .
qed

text \<open>The value of all assets changes by that of the outputs and the inputs.\<close>

lemma totalWorth_transfer:
  assumes wf: "wfTable at" and a: "acceptable K cf tr str r (owned at)" and len: "length strs = length (trOutputs tr)"
    and fr: "freshOutputs (set (zip strs (trOutputs tr))) (applyTransfer str (trInputs tr) {} (owned at))" and fin: "finite (owned at)"
  shows "totalWorth (applyTransfer str (trInputs tr) (set (zip strs (trOutputs tr))) (owned at)) + (\<Sum>a \<leftarrow> r. worth a) =
    totalWorth (owned at) + (\<Sum>a \<leftarrow> trOutputs tr. worth a)"
proof -
  let ?ids = "set (trInputs tr)" and ?outs = "set (zip strs (trOutputs tr))"
  let ?keep = "{(k, a) \<in> owned at. \<not> (k = str \<and> GetID a \<in> ?ids)}" and ?gone = "{str} \<times> set r"
  have ids: "?ids = GetID ` set r" using a unfolding acceptable_def by (metis list.set_map)
  have r: "set r \<subseteq> set (assetsAt at str)" using a by (auto simp: acceptable_def owned_def)
  have inj: "inj_on GetID (set (assetsAt at str))" using wf wfAssets_inj by (auto simp: wfTable_def)
  have "a \<in> set r" if t: "(str, a) \<in> owned at" "GetID a \<in> ?ids" for a
  proof -
    obtain b where "b \<in> set r" "GetID b = GetID a" using t(2) ids by auto
    then show ?thesis using inj_onD [OF inj, of b a] r t(1) by (auto simp: owned_def)
  qed
  then have split: "owned at = ?keep \<union> ?gone" "?keep \<inter> ?gone = {}" using r ids by (auto simp: owned_def)
  have "distinct (map GetID r)" using a by (simp add: acceptable_def)
  then have "distinct r" by (simp add: distinct_map)
  then have g: "totalWorth ?gone = (\<Sum>a \<leftarrow> r. worth a)"
    by (simp add: totalWorth_def sum.cartesian_product [symmetric] sum_list_distinct_conv_sum_set)
  have "CheckFormat K tr = Inr ()" using a by (simp add: acceptable_def)
  then have "distinct (trOutputs tr)" using CheckFormatD(2) by (metis distinct_map)
  then have "distinct (zip strs (trOutputs tr))" by (simp add: distinct_zipI2)
  then have "totalWorth ?outs = (\<Sum>(k, a) \<leftarrow> zip strs (trOutputs tr). worth a)" by (simp add: totalWorth_def sum_list_distinct_conv_sum_set)
  also have "map (\<lambda>(k, a). worth a) (zip strs (trOutputs tr)) = map worth (map snd (zip strs (trOutputs tr)))" by (simp add: case_prod_beta)
  finally have o: "totalWorth ?outs = (\<Sum>a \<leftarrow> trOutputs tr. worth a)" using len by simp
  have "?keep \<inter> ?outs = {}" using fr by (fastforce simp: freshOutputs_def applyTransfer_def)
  moreover have "finite ?keep" using fin by (rule rev_finite_subset) auto
  ultimately have "totalWorth (?keep \<union> ?outs) = totalWorth ?keep + totalWorth ?outs" by (simp add: totalWorth_def sum.union_disjoint)
  moreover have "totalWorth (owned at) = totalWorth ?keep + totalWorth ?gone"
    unfolding totalWorth_def by (subst split(1), rule sum.union_disjoint) (use \<open>finite ?keep\<close> split(2) in auto)
  ultimately show ?thesis using g o by (simp add: applyTransfer_def)
qed

section \<open>One transfer\<close>

lemma acceptable_str: "acceptable K cf tr str r O' \<Longrightarrow> trSender tr = Some sender \<Longrightarrow> pubString K sender = Inr str' \<Longrightarrow> str' = str"
  by (auto simp: acceptable_def)

lemma validated:
  assumes "wfTable at" "assetRule H cf" "ValidateTransfer K cf vs tr at = (at1, Inr u)" "trSender tr = Some sender" "pubString K sender = Inr str"
  obtains r where "wfTable at1" "owned at1 = owned at" "acceptable K cf tr str r (owned at)"
proof -
  obtain str' r where a: "acceptable K cf tr str' r (owned at)" "assetsAt at1 = assetsAt at" using rule_facts(1) [OF assms(2,1,3)] by blast
  moreover have "str' = str" using acceptable_str [OF a(1) assms(4,5)] by simp
  ultimately show thesis using that assms(1) by (simp add: wfTable_def owned_def)
qed

text \<open>
  C38 (a validated transfer). When \<^verbatim>\<open>ValidateTransfer\<close> accepts a transfer, with or without the check of the signature, the keys of its receivers
  have strings, and no receiver holds an asset with the identifier of an output it gets, then \<^verbatim>\<open>ConsumeTransfer\<close> does not panic:
  the inputs, all owned by the sender, are gone, the outputs are with their receivers, everything else is as before, and the accounts are
  sorted with unique identifiers. The validation does not check the two conditions on the receivers; without them the code panics.
\<close>

theorem asset_transfer_moves:
  assumes "wfTable at" "assetRule H cf" "ValidateTransfer K cf vs tr at = (at1, Inr u)"
    and "trSender tr = Some sender" "pubString K sender = Inr str" "pubStrings K (trReceivers tr) = Inr strs"
    and "freshOutputs (set (zip strs (trOutputs tr))) (applyTransfer str (trInputs tr) {} (owned at))"
  shows "\<exists>at2. ConsumeTransfer K tr at1 = (at2, Inr ()) \<and> wfTable at2 \<and>
    owned at2 = applyTransfer str (trInputs tr) (set (zip strs (trOutputs tr))) (owned at) \<and>
    set (trInputs tr) \<subseteq> {GetID a | a. (str, a) \<in> owned at}"
proof -
  obtain r where a: "wfTable at1" "owned at1 = owned at" "acceptable K cf tr str r (owned at)" using validated [OF assms(1-5)] .
  have "set (trInputs tr) = GetID ` set r" using a(3) unfolding acceptable_def by (metis list.set_map)
  then have "set (trInputs tr) \<subseteq> {GetID a | a. (str, a) \<in> owned at}" using a(3) by (auto simp: acceptable_def)
  then show ?thesis using consume_acceptable [OF a(1) _ assms(6), unfolded a(2), OF a(3) assms(7)] by auto
qed

text \<open>
  C40 (value of a transfer). A transfer of value assets that is validated, on the same conditions about its receivers, is consumed and leaves the
  value of all assets as it was or smaller, or its outputs are together worth \<open>2 ^ 64\<close> or more.
\<close>

theorem asset_value_bound:
  fixes K :: "('p, 'q, 's, 'k) keyOps"
  assumes "wfTable at" "finite (owned at)" "ValidateTransfer K (CheckValueOutputFunc H) vs tr at = (at1, Inr u)"
    and "trSender tr = Some sender" "pubString K sender = Inr str" "pubStrings K (trReceivers tr) = Inr strs"
    and "freshOutputs (set (zip strs (trOutputs tr))) (applyTransfer str (trInputs tr) {} (owned at))"
  shows "\<exists>at2. ConsumeTransfer K tr at1 = (at2, Inr ()) \<and>
    (totalWorth (owned at2) \<le> totalWorth (owned at) \<or> 2 ^ 64 \<le> (\<Sum>a \<leftarrow> trOutputs tr. worth a))"
proof -
  have cr: "assetRule H (CheckValueOutputFunc H)" by (simp add: assetRule_def)
  obtain r where a: "wfTable at1" "owned at1 = owned at" "acceptable K (CheckValueOutputFunc H) tr str r (owned at)"
    using validated [OF assms(1) cr assms(3-5)] .
  obtain at2 where d: "ConsumeTransfer K tr at1 = (at2, Inr ())"
    "owned at2 = applyTransfer str (trInputs tr) (set (zip strs (trOutputs tr))) (owned at)"
    using consume_acceptable [OF a(1) _ assms(6), unfolded a(2), OF a(3) assms(7)] by blast
  have f: "CheckFormat K tr = Inr ()" and c: "\<forall>acc :: 'p AssetAccount. CheckValueOutputFunc H acc r (trOutputs tr) = Inr ()"
    using a(3) by (simp_all add: acceptable_def)
  have "length strs = length (trOutputs tr)" using pubStrings_length [OF assms(6)] CheckFormatD(1) [OF f] by simp
  then have "totalWorth (owned at2) + (\<Sum>a \<leftarrow> r. worth a) = totalWorth (owned at) + (\<Sum>a \<leftarrow> trOutputs tr. worth a)"
    using totalWorth_transfer [OF assms(1) a(3) _ _ assms(2)] assms(7) d(2) by simp
  moreover have "(\<Sum>a \<leftarrow> trOutputs tr. worth a) mod 2 ^ 64 \<le> (\<Sum>a \<leftarrow> r. worth a)" using CheckValueOutputFunc_worth [OF spec [OF c]] .
  ultimately have "totalWorth (owned at2) \<le> totalWorth (owned at) \<or> 2 ^ 64 \<le> (\<Sum>a \<leftarrow> trOutputs tr. worth a)"
    by (cases "2 ^ 64 \<le> (\<Sum>a \<leftarrow> trOutputs tr. worth a)") auto
  then show ?thesis using d(1) by blast
qed

section \<open>Two transfers\<close>

lemma acceptable_after:
  assumes "acceptable K cf tr str r O'" "set (trInputs tr) \<inter> set ids = {}"
  shows "acceptable K cf tr str r (applyTransfer str' ids outs O')"
proof -
  have "GetID a \<notin> set ids" if "a \<in> set r" for a
  proof -
    have "GetID a \<in> set (map GetID r)" using that by simp
    then show ?thesis using assms unfolding acceptable_def by auto
  qed
  then show ?thesis using assms(1) by (auto simp: acceptable_def applyTransfer_def)
qed

lemma freshOutputs_mono: "freshOutputs outs O' \<Longrightarrow> O'' \<subseteq> O' \<Longrightarrow> freshOutputs outs O''"
  by (fastforce simp: freshOutputs_def)

lemma freshOutputs_Un: "freshOutputs outs (A \<union> B) \<longleftrightarrow> freshOutputs outs A \<and> freshOutputs outs B"
  unfolding freshOutputs_def by blast

lemma applyTransfer_sub: "applyTransfer str ids outs O' \<subseteq> O' \<union> outs"
  by (auto simp: applyTransfer_def)

text \<open>The outputs of one transfer are not among the inputs of the other.\<close>

lemma acceptable_outputs:
  assumes "acceptable K cf tr str r O'" "freshOutputs outs O'" "(k, a) \<in> outs"
  shows "\<not> (k = str \<and> GetID a \<in> set (trInputs tr))"
proof
  assume k: "k = str \<and> GetID a \<in> set (trInputs tr)"
  then have "GetID a \<in> set (map GetID r)" using assms(1) by (simp add: acceptable_def)
  then obtain b where "b \<in> set r" "GetID b = GetID a" by auto
  moreover from this have "(str, b) \<in> O'" using assms(1) by (simp add: acceptable_def)
  ultimately show False using assms(2,3) k by (fastforce simp: freshOutputs_def)
qed

lemma decide_both:
  assumes wf: "wfTable at" and cr: "assetRule H cf" and a: "acceptable K cf tr1 s1 r1 (owned at)" "acceptable K cf tr2 s2 r2 (owned at)"
    and ps: "pubStrings K (trReceivers tr1) = Inr strs1" "pubStrings K (trReceivers tr2) = Inr strs2"
    and dis: "set (trInputs tr1) \<inter> set (trInputs tr2) = {}"
    and fr: "freshOutputs (set (zip strs1 (trOutputs tr1))) (owned at)"
      "freshOutputs (set (zip strs2 (trOutputs tr2))) (owned at \<union> set (zip strs1 (trOutputs tr1)))"
  shows "\<exists>at1 at2. decideTransfer K cf tr1 at = (at1, Inr ()) \<and> decideTransfer K cf tr2 at1 = (at2, Inr ()) \<and> wfTable at2 \<and>
    owned at2 = applyTransfer s2 (trInputs tr2) (set (zip strs2 (trOutputs tr2)))
      (applyTransfer s1 (trInputs tr1) (set (zip strs1 (trOutputs tr1))) (owned at))"
proof -
  let ?o1 = "set (zip strs1 (trOutputs tr1))" and ?o2 = "set (zip strs2 (trOutputs tr2))"
  have "freshOutputs ?o1 (applyTransfer s1 (trInputs tr1) {} (owned at))"
    using freshOutputs_mono [OF fr(1)] applyTransfer_sub [of s1 "trInputs tr1" "{}" "owned at"] by simp
  from rule_facts(2) [OF cr wf a(1) ps(1) this] obtain at1 where 1: "decideTransfer K cf tr1 at = (at1, Inr ())" "wfTable at1"
    "owned at1 = applyTransfer s1 (trInputs tr1) ?o1 (owned at)" by blast
  have a2: "acceptable K cf tr2 s2 r2 (owned at1)" unfolding 1(3) using acceptable_after [OF a(2)] dis by blast
  have "applyTransfer s2 (trInputs tr2) {} (owned at1) \<subseteq> owned at \<union> ?o1"
    unfolding 1(3) using applyTransfer_sub [of s2 "trInputs tr2" "{}"] applyTransfer_sub [of s1 "trInputs tr1" ?o1 "owned at"] by blast
  from rule_facts(2) [OF cr 1(2) a2 ps(2) freshOutputs_mono [OF fr(2) this]] 1 show ?thesis by auto
qed

text \<open>
  C39 (independent transfers commute). Let two transfers both be validated in a table and have no input in common, let the keys of their
  receivers have strings, and let every output have an identifier that its receiver neither holds nor gets from the other transfer. Then they
  can be decided in either order: neither order panics, and both leave the same assets in every account. This is what lets the nodes of the
  causally ordered state machine process decisions in different orders. The code checks neither condition on the receivers.
\<close>

theorem asset_commute:
  assumes "wfTable at" "assetRule H cf"
    and "ValidateTransfer K cf False tr1 at = (x1, Inr u1)" "ValidateTransfer K cf False tr2 at = (x2, Inr u2)"
    and "pubStrings K (trReceivers tr1) = Inr strs1" "pubStrings K (trReceivers tr2) = Inr strs2"
    and "set (trInputs tr1) \<inter> set (trInputs tr2) = {}"
    and "freshOutputs (set (zip strs1 (trOutputs tr1))) (owned at \<union> set (zip strs2 (trOutputs tr2)))"
      "freshOutputs (set (zip strs2 (trOutputs tr2))) (owned at \<union> set (zip strs1 (trOutputs tr1)))"
  shows "\<exists>at1 at2 at3 at4. decideTransfer K cf tr1 at = (at1, Inr ()) \<and> decideTransfer K cf tr2 at1 = (at2, Inr ()) \<and>
    decideTransfer K cf tr2 at = (at3, Inr ()) \<and> decideTransfer K cf tr1 at3 = (at4, Inr ()) \<and> assetsAt at2 = assetsAt at4"
proof -
  let ?o1 = "set (zip strs1 (trOutputs tr1))" and ?o2 = "set (zip strs2 (trOutputs tr2))"
  obtain s1 r1 where a1: "acceptable K cf tr1 s1 r1 (owned at)" using rule_facts(1) [OF assms(2,1,3)] by blast
  obtain s2 r2 where a2: "acceptable K cf tr2 s2 r2 (owned at)" using rule_facts(1) [OF assms(2,1,4)] by blast
  have f: "freshOutputs ?o1 (owned at)" "freshOutputs ?o2 (owned at)" using assms(8,9) by (simp_all add: freshOutputs_Un)
  obtain at1 at2 where o: "decideTransfer K cf tr1 at = (at1, Inr ())" "decideTransfer K cf tr2 at1 = (at2, Inr ())" "wfTable at2"
    "owned at2 = applyTransfer s2 (trInputs tr2) ?o2 (applyTransfer s1 (trInputs tr1) ?o1 (owned at))"
    using decide_both [OF assms(1,2) a1 a2 assms(5-7) f(1) assms(9)] by blast
  have "set (trInputs tr2) \<inter> set (trInputs tr1) = {}" using assms(7) by blast
  from decide_both [OF assms(1,2) a2 a1 assms(6,5) this f(2) assms(8)]
  obtain at3 at4 where o': "decideTransfer K cf tr2 at = (at3, Inr ())" "decideTransfer K cf tr1 at3 = (at4, Inr ())" "wfTable at4"
    "owned at4 = applyTransfer s1 (trInputs tr1) ?o1 (applyTransfer s2 (trInputs tr2) ?o2 (owned at))" by blast
  have "owned at2 = owned at4"
    unfolding o(4) o'(4) using acceptable_outputs [OF a1 f(2)] acceptable_outputs [OF a2 f(1)] by (auto simp: applyTransfer_def)
  then have "assetsAt at2 = assetsAt at4" using owned_assetsAt [OF o(3) o'(3)] by (simp add: fun_eq_iff)
  then show ?thesis using o(1,2) o'(1,2) by blast
qed

section \<open>Examples\<close>

text \<open>
  An account with two assets, one of value \<open>5\<close> and one of value \<open>1\<close>, and the transfers that split one of them between the keys
  \<open>2\<close> and \<open>3\<close>. The hash function of the examples is the identity.
\<close>

definition demoAssets :: "(nat, nat) assetTable" where
  "demoAssets = \<lparr>accountMap = [1 \<mapsto> \<lparr>aaPub = 1, Assets = [ValueAsset [9] 5, ValueAsset [10] 1]\<rparr>], startedRecordingStats = True,
     asStats = newAssetStats\<rparr>"

definition demoTransfer :: "byte \<Rightarrow> uint64 \<Rightarrow> uint64 \<Rightarrow> (nat, nat) AssetTransfer" where
  "demoTransfer i v w = \<lparr>trSender = Some 1, trInputs = [[i]], trOutputs = newValueAssets id [v, w] [i], trReceivers = [2, 3], trSignature = None,
     trSignedBytes = None\<rparr>"

abbreviation demoValidate :: "(nat, nat) AssetTransfer \<Rightarrow> (nat, nat) assetTable \<times> unit res" where
  "demoValidate tr \<equiv> ValidateTransfer demoKeys (CheckValueOutputFunc id) False tr demoAssets"

declare sortSearch.simps [code]

lemma demo_assetsAt: "assetsAt demoAssets k = (if k = 1 then [ValueAsset [9] 5, ValueAsset [10] 1] else [])"
  by (simp add: demoAssets_def assetsAt_def)

lemma demo_owned: "owned demoAssets = {(1, ValueAsset [9] 5), (1, ValueAsset [10] 1)}"
  by (auto simp: owned_def demo_assetsAt split: if_splits)

lemma demo_wfTable: "wfTable demoAssets"
  by (simp add: wfTable_def demo_assetsAt wfAssets_def)

lemma demo_rule: "assetRule id (CheckValueOutputFunc id)"
  by (simp add: assetRule_def)

lemma demo_valid: "snd (demoValidate (demoTransfer 9 3 2)) = Inr ()" "snd (demoValidate (demoTransfer 10 18446744073709551615 2)) = Inr ()"
  by code_simp+

lemma demo_transfer:
  "trSender (demoTransfer i v w) = Some 1" "pubString demoKeys 1 = Inr 1" "pubStrings demoKeys (trReceivers (demoTransfer i v w)) = Inr [2, 3]"
  "trInputs (demoTransfer i v w) = [[i]]"
  by (simp_all add: demoTransfer_def demoKeys_def)

lemma demo_outputs: "trOutputs (demoTransfer i v w) = [ValueAsset [0, i] v, ValueAsset [1, i] w]"
proof -
  have "Uint64ToBytes 0 = [0]" "Uint64ToBytes 1 = [1]" by code_simp+
  then show ?thesis by (simp add: demoTransfer_def newValueAssets_def InternalNewValueAsset_def enumerate_eq_zip)
qed

lemma demo_validate:
  "demoValidate (demoTransfer 9 3 2) = (fst (demoValidate (demoTransfer 9 3 2)), Inr ())"
  "demoValidate (demoTransfer 10 18446744073709551615 2) = (fst (demoValidate (demoTransfer 10 18446744073709551615 2)), Inr ())"
  using demo_valid by (simp_all add: prod_eq_iff)

lemma demo_fresh: "freshOutputs (set (zip [2, 3] (trOutputs (demoTransfer i v w)))) (applyTransfer 1 [[i]] {} (owned demoAssets))"
  by (simp add: freshOutputs_def applyTransfer_def demo_owned demo_outputs)

theorem asset_transfer_moves_witness:
  "\<exists>at2. ConsumeTransfer demoKeys (demoTransfer 9 3 2) (fst (demoValidate (demoTransfer 9 3 2))) = (at2, Inr ()) \<and> wfTable at2 \<and>
    owned at2 = {(1, ValueAsset [10] 1), (2, ValueAsset [0, 9] 3), (3, ValueAsset [1, 9] 2)}"
proof -
  have "applyTransfer 1 [[9]] (set (zip [2, 3] (trOutputs (demoTransfer 9 3 2)))) (owned demoAssets) =
      {(1, ValueAsset [10] 1), (2, ValueAsset [0, 9] 3), (3, ValueAsset [1, 9] 2)}"
    by (auto simp: applyTransfer_def demo_owned demo_outputs)
  then show ?thesis
    using asset_transfer_moves [OF demo_wfTable demo_rule demo_validate(1) demo_transfer(1,2,3)] demo_fresh [of 9 3 2] unfolding demo_transfer(4) by metis
qed

theorem asset_value_bound_witness:
  "\<exists>at2. ConsumeTransfer demoKeys (demoTransfer 9 3 2) (fst (demoValidate (demoTransfer 9 3 2))) = (at2, Inr ()) \<and> totalWorth (owned at2) \<le> 6"
proof -
  have "finite (owned demoAssets)" "totalWorth (owned demoAssets) = 6" by (simp_all add: demo_owned totalWorth_def)
  moreover have "(\<Sum>a \<leftarrow> trOutputs (demoTransfer 9 3 2). worth a) = 5" by (simp add: demo_outputs)
  ultimately show ?thesis
    using asset_value_bound [OF demo_wfTable _ demo_validate(1) demo_transfer(1,2,3)] demo_fresh [of 9 3 2] by (simp add: demo_transfer(4))
qed

theorem asset_commute_witness:
  "\<exists>at1 at2 at3 at4. decideTransfer demoKeys (CheckValueOutputFunc id) (demoTransfer 9 3 2) demoAssets = (at1, Inr ()) \<and>
    decideTransfer demoKeys (CheckValueOutputFunc id) (demoTransfer 10 18446744073709551615 2) at1 = (at2, Inr ()) \<and>
    decideTransfer demoKeys (CheckValueOutputFunc id) (demoTransfer 10 18446744073709551615 2) demoAssets = (at3, Inr ()) \<and>
    decideTransfer demoKeys (CheckValueOutputFunc id) (demoTransfer 9 3 2) at3 = (at4, Inr ()) \<and> assetsAt at2 = assetsAt at4"
  by (rule asset_commute [OF demo_wfTable demo_rule demo_validate demo_transfer(3) demo_transfer(3)])
    (simp_all add: demo_transfer(4) freshOutputs_def demo_owned demo_outputs)

text \<open>
  The check of a transfer of value assets sums up its outputs with 64 bits and does not look for an overflow: a
  transfer of an asset of value \<open>1\<close> into assets of value \<open>2 ^ 64 - 1\<close> and \<open>2\<close> is validated and consumed.
\<close>

lemma asset_value_inflation:
  "\<exists>at1 at2. demoValidate (demoTransfer 10 18446744073709551615 2) = (at1, Inr ()) \<and>
    ConsumeTransfer demoKeys (demoTransfer 10 18446744073709551615 2) at1 = (at2, Inr ()) \<and>
    totalWorth (owned demoAssets) = 6 \<and> totalWorth (owned at2) = 2 ^ 64 + 6"
proof -
  let ?tr = "demoTransfer 10 18446744073709551615 2"
  obtain s r where a: "acceptable demoKeys (CheckValueOutputFunc id) ?tr s r (owned demoAssets)"
    using rule_facts(1) [OF demo_rule demo_wfTable demo_validate(2)] by blast
  then have [simp]: "s = 1" using acceptable_str [OF a demo_transfer(1,2)] by simp
  obtain at2 where d: "decideTransfer demoKeys (CheckValueOutputFunc id) ?tr demoAssets = (at2, Inr ())"
    "owned at2 = applyTransfer 1 [[10]] (set (zip [2, 3] (trOutputs ?tr))) (owned demoAssets)"
    using rule_facts(2) [OF demo_rule demo_wfTable a demo_transfer(3)] demo_fresh [of 10] by (auto simp: demo_transfer(4))
  have "owned at2 = {(1, ValueAsset [9] 5), (2, ValueAsset [0, 10] 18446744073709551615), (3, ValueAsset [1, 10] 2)}"
    unfolding d(2) by (auto simp: applyTransfer_def demo_owned demo_outputs)
  then have "totalWorth (owned at2) = 2 ^ 64 + 6" by (simp add: totalWorth_def)
  moreover have "totalWorth (owned demoAssets) = 6" by (simp add: demo_owned totalWorth_def)
  moreover have "ConsumeTransfer demoKeys ?tr (fst (demoValidate ?tr)) = (at2, Inr ())"
    using d(1) by (subst (asm) decideTransfer_def, subst (asm) demo_validate(2)) simp
  ultimately show ?thesis using demo_validate(2) by blast
qed

text \<open>A receiver whose key has no string: the transfer is validated, and consuming it panics.\<close>

lemma asset_receiver_panics:
  "let K = demoKeys\<lparr>pubString := (\<lambda>p. if p = 3 then Inl ErrInvalidBuffSize else Inr p)\<rparr>;
       r = ValidateTransfer K (CheckValueOutputFunc id) False (demoTransfer 9 3 2) demoAssets
   in snd r = Inr () \<and> panics (snd (ConsumeTransfer K (demoTransfer 9 3 2) (fst r)))"
  by code_simp

end
