(* ===== verification/BitIDHelpers.thy ===== *)
theory BitIDHelpers
  imports Prelude
begin

text \<open>
  Model of \<^verbatim>\<open>src/consensus/auth/bitid/newbitidinterface.go\<close>: the interface
  \<^verbatim>\<open>NewBitIDInterface\<close> of sorted collections of member indices (which members signed a
  multi-signature), and the functions that combine two or more of them through their iterators.

  The interface is a record of functions over an arbitrary type \<open>'b\<close> of bit identifiers and \<open>'it\<close> of
  iterators. \<^verbatim>\<open>NextID\<close> returns \<open>None\<close> for its error (no more items) and otherwise the next
  item and the advanced iterator; the Go variables \<^verbatim>\<open>nxt\<close> and \<^verbatim>\<open>err\<close> of a loop are
  one value of type \<open>(int \<times> 'it) option\<close>. The loops are partial functions into \<open>option\<close>, so that a
  loop that does not end is the value \<open>None\<close>. The pools of reusable objects (\<^verbatim>\<open>DoneFunc\<close>) are not
  modelled.
\<close>

section \<open>The interface\<close>

record ('b, 'it) bid_ops =
  NewBid :: 'b
  SetInitialSize :: "int \<Rightarrow> 'b \<Rightarrow> 'b"
  AppendItem :: "int \<Rightarrow> 'b \<Rightarrow> 'b res"
  NewIterator :: "'b \<Rightarrow> 'it"
  NextID :: "'it \<Rightarrow> (int \<times> 'it) option"
  GetBasicInfo :: "'b \<Rightarrow> int \<times> int \<times> int \<times> int"

definition bidCount :: "('b, 'it) bid_ops \<Rightarrow> 'b \<Rightarrow> int" where
  "bidCount ops b = fst (snd (snd (GetBasicInfo ops b)))"

abbreviation firstID :: "('b, 'it) bid_ops \<Rightarrow> 'b \<Rightarrow> (int \<times> 'it) option" where
  "firstID ops b \<equiv> NextID ops (NewIterator ops b)"

section \<open>Operations on iterators\<close>

text \<open>\<open>for nxt == val && err == nil { nxt, err = iter.NextID() }\<close>\<close>

partial_function (option) skipEqual ::
    "('b, 'it) bid_ops \<Rightarrow> int \<Rightarrow> (int \<times> 'it) option \<Rightarrow> (int \<times> 'it) option option" where
  "skipEqual ops v cur =
     (case cur of None \<Rightarrow> Some None
      | Some (nxt, it) \<Rightarrow> if nxt = v then skipEqual ops v (NextID ops it) else Some cur)"

text \<open>The last loop of \<^verbatim>\<open>GetNewItemsHelper\<close>, then its main loop.\<close>

partial_function (option) newItemsRest ::
    "('b, 'it) bid_ops \<Rightarrow> (int \<times> 'it) option \<Rightarrow> int \<Rightarrow> 'b \<Rightarrow> 'b res option" where
  "newItemsRest ops cur2 lastAdded ret =
     (case cur2 of None \<Rightarrow> Some (Inr ret)
      | Some (nxt2, it2) \<Rightarrow>
          if lastAdded \<noteq> nxt2 then
            (case AppendItem ops nxt2 ret of Inl e \<Rightarrow> Some (Inl e)
             | Inr ret' \<Rightarrow> newItemsRest ops (NextID ops it2) nxt2 ret')
          else newItemsRest ops (NextID ops it2) lastAdded ret)"

partial_function (option) newItemsLoop ::
    "('b, 'it) bid_ops \<Rightarrow> (int \<times> 'it) option \<Rightarrow> (int \<times> 'it) option \<Rightarrow> int \<Rightarrow> 'b \<Rightarrow> 'b res option" where
  "newItemsLoop ops cur1 cur2 lastAdded ret =
     (case (cur1, cur2) of
        (Some (nxt1, it1), Some (nxt2, it2)) \<Rightarrow>
          if nxt1 > nxt2 then
            (if lastAdded \<noteq> nxt2 then
               (case AppendItem ops nxt2 ret of Inl e \<Rightarrow> Some (Inl e)
                | Inr ret' \<Rightarrow> newItemsLoop ops cur1 (NextID ops it2) nxt2 ret')
             else newItemsLoop ops cur1 (NextID ops it2) lastAdded ret)
          else if nxt1 < nxt2 then newItemsLoop ops (NextID ops it1) cur2 lastAdded ret
          else (case skipEqual ops nxt1 cur1 of None \<Rightarrow> None
                | Some cur1' \<Rightarrow> (case skipEqual ops nxt2 cur2 of None \<Rightarrow> None
                    | Some cur2' \<Rightarrow> newItemsLoop ops cur1' cur2' lastAdded ret))
      | _ \<Rightarrow> newItemsRest ops cur2 lastAdded ret)"

definition GetNewItemsHelper :: "('b, 'it) bid_ops \<Rightarrow> 'b \<Rightarrow> 'b \<Rightarrow> 'b res option" where
  "GetNewItemsHelper ops b1 b2 =
     newItemsLoop ops (firstID ops b1) (firstID ops b2) (-1) (SetInitialSize ops (bidCount ops b2) (NewBid ops))"

partial_function (option) hasNewLoop ::
    "('b, 'it) bid_ops \<Rightarrow> (int \<times> 'it) option \<Rightarrow> (int \<times> 'it) option \<Rightarrow> bool option" where
  "hasNewLoop ops cur1 cur2 =
     (case (cur1, cur2) of
        (Some (nxt1, it1), Some (nxt2, it2)) \<Rightarrow>
          if nxt1 > nxt2 then Some True
          else if nxt1 < nxt2 then hasNewLoop ops (NextID ops it1) cur2
          else (case skipEqual ops nxt1 cur1 of None \<Rightarrow> None
                | Some cur1' \<Rightarrow> (case skipEqual ops nxt2 cur2 of None \<Rightarrow> None
                    | Some cur2' \<Rightarrow> hasNewLoop ops cur1' cur2'))
      | _ \<Rightarrow> Some (cur2 \<noteq> None))"

definition HasNewItemsHelper :: "('b, 'it) bid_ops \<Rightarrow> 'b \<Rightarrow> 'b \<Rightarrow> bool option" where
  "HasNewItemsHelper ops b1 b2 = hasNewLoop ops (firstID ops b1) (firstID ops b2)"

text \<open>\<open>err != nil || nxt > v\<close>, \<open>nxt < v && err == nil\<close>, \<open>nxt, err = iter.NextID()\<close> and the skipping of the head's value.\<close>

definition past :: "int \<Rightarrow> (int \<times> 'it) option \<Rightarrow> bool" where
  "past v cur = (case cur of None \<Rightarrow> True | Some (nxt, _) \<Rightarrow> nxt > v)"

definition before :: "int \<Rightarrow> (int \<times> 'it) option \<Rightarrow> bool" where
  "before v cur = (case cur of None \<Rightarrow> False | Some (nxt, _) \<Rightarrow> nxt < v)"

definition advance :: "('b, 'it) bid_ops \<Rightarrow> (int \<times> 'it) option \<Rightarrow> (int \<times> 'it) option" where
  "advance ops cur = (case cur of None \<Rightarrow> None | Some (_, it) \<Rightarrow> NextID ops it)"

definition skipHead :: "('b, 'it) bid_ops \<Rightarrow> (int \<times> 'it) option \<Rightarrow> (int \<times> 'it) option option" where
  "skipHead ops cur = (case cur of None \<Rightarrow> Some None | Some (nxt, _) \<Rightarrow> skipEqual ops nxt cur)"

partial_function (option) hasNewBothLoop ::
    "('b, 'it) bid_ops \<Rightarrow> (int \<times> 'it) option \<Rightarrow> (int \<times> 'it) option \<Rightarrow> (int \<times> 'it) option \<Rightarrow> bool option" where
  "hasNewBothLoop ops cur1 cur2 cur3 =
     (case cur3 of None \<Rightarrow> Some False
      | Some (nxt3, it3) \<Rightarrow>
          if cur1 = None \<and> cur2 = None then Some True
          else if past nxt3 cur1 \<and> past nxt3 cur2 then Some True
          else if before nxt3 cur1 then hasNewBothLoop ops (advance ops cur1) cur2 cur3
          else if before nxt3 cur2 then hasNewBothLoop ops cur1 (advance ops cur2) cur3
          else Option.bind (skipHead ops cur1) (\<lambda>cur1'. Option.bind (skipHead ops cur2) (\<lambda>cur2'.
                 Option.bind (skipHead ops cur3) (\<lambda>cur3'. hasNewBothLoop ops cur1' cur2' cur3'))))"

definition HasNewItemsBothHelper :: "('b, 'it) bid_ops \<Rightarrow> 'b \<Rightarrow> 'b \<Rightarrow> 'b \<Rightarrow> bool option" where
  "HasNewItemsBothHelper ops b1 b2 b3 = hasNewBothLoop ops (firstID ops b1) (firstID ops b2) (firstID ops b3)"

partial_function (option) intersectLoop ::
    "('b, 'it) bid_ops \<Rightarrow> (int \<times> 'it) option \<Rightarrow> (int \<times> 'it) option \<Rightarrow> int list \<Rightarrow> int list option" where
  "intersectLoop ops cur1 cur2 ret =
     (case (cur1, cur2) of
        (Some (nxt1, it1), Some (nxt2, it2)) \<Rightarrow>
          if nxt1 > nxt2 then intersectLoop ops cur1 (NextID ops it2) ret
          else if nxt1 < nxt2 then intersectLoop ops (NextID ops it1) cur2 ret
          else intersectLoop ops (NextID ops it1) (NextID ops it2) (ret @ [nxt1])
      | _ \<Rightarrow> Some ret)"

definition CheckIntersectionHelper :: "('b, 'it) bid_ops \<Rightarrow> 'b \<Rightarrow> 'b \<Rightarrow> int list option" where
  "CheckIntersectionHelper ops b1 b2 = intersectLoop ops (firstID ops b1) (firstID ops b2) []"

partial_function (option) hasIntersectLoop ::
    "('b, 'it) bid_ops \<Rightarrow> (int \<times> 'it) option \<Rightarrow> (int \<times> 'it) option \<Rightarrow> bool option" where
  "hasIntersectLoop ops cur1 cur2 =
     (case (cur1, cur2) of
        (Some (nxt1, it1), Some (nxt2, it2)) \<Rightarrow>
          if nxt1 > nxt2 then hasIntersectLoop ops cur1 (NextID ops it2)
          else if nxt1 < nxt2 then hasIntersectLoop ops (NextID ops it1) cur2
          else Some True
      | _ \<Rightarrow> Some False)"

definition HasIntersectionHelper :: "('b, 'it) bid_ops \<Rightarrow> 'b \<Rightarrow> 'b \<Rightarrow> bool option" where
  "HasIntersectionHelper ops b1 b2 = hasIntersectLoop ops (firstID ops b1) (firstID ops b2)"

partial_function (option) intersectCountLoop ::
    "('b, 'it) bid_ops \<Rightarrow> (int \<times> 'it) option \<Rightarrow> (int \<times> 'it) option \<Rightarrow> int \<Rightarrow> int option" where
  "intersectCountLoop ops cur1 cur2 ret =
     (case (cur1, cur2) of
        (Some (nxt1, it1), Some (nxt2, it2)) \<Rightarrow>
          if nxt1 > nxt2 then intersectCountLoop ops cur1 (NextID ops it2) ret
          else if nxt1 < nxt2 then intersectCountLoop ops (NextID ops it1) cur2 ret
          else intersectCountLoop ops (NextID ops it1) (NextID ops it2) (ret + 1)
      | _ \<Rightarrow> Some ret)"

definition HasIntersectionCountHelper :: "('b, 'it) bid_ops \<Rightarrow> 'b \<Rightarrow> 'b \<Rightarrow> int option" where
  "HasIntersectionCountHelper ops b1 b2 = intersectCountLoop ops (firstID ops b1) (firstID ops b2) 0"

datatype SafeSubType = NotSafe | NonIntersecting | NonIntersectingAndEmpty

partial_function (option) appendRest ::
    "('b, 'it) bid_ops \<Rightarrow> (int \<times> 'it) option \<Rightarrow> 'b \<Rightarrow> 'b res option" where
  "appendRest ops cur ret =
     (case cur of None \<Rightarrow> Some (Inr ret)
      | Some (nxt, it) \<Rightarrow>
          (case AppendItem ops nxt ret of Inl e \<Rightarrow> Some (Inl e) | Inr ret' \<Rightarrow> appendRest ops (NextID ops it) ret'))"

partial_function (option) subLoop ::
    "('b, 'it) bid_ops \<Rightarrow> SafeSubType \<Rightarrow> (int \<times> 'it) option \<Rightarrow> (int \<times> 'it) option \<Rightarrow> 'b \<Rightarrow> 'b res option" where
  "subLoop ops safeSub cur1 cur2 ret =
     (case (cur1, cur2) of
        (Some (nxt1, it1), Some (nxt2, it2)) \<Rightarrow>
          if nxt1 > nxt2 then
            (if safeSub \<noteq> NotSafe then Some (Inl ErrInvalidBitIDSub)
             else subLoop ops safeSub cur1 (NextID ops it2) ret)
          else if nxt2 > nxt1 then
            (case AppendItem ops nxt1 ret of Inl e \<Rightarrow> Some (Inl e)
             | Inr ret' \<Rightarrow> subLoop ops safeSub (NextID ops it1) cur2 ret')
          else subLoop ops safeSub (NextID ops it1) (NextID ops it2) ret
      | (None, Some _) \<Rightarrow> if safeSub \<noteq> NotSafe then Some (Inl ErrInvalidBitIDSub) else Some (Inr ret)
      | (_, None) \<Rightarrow> appendRest ops cur1 ret)"

definition SubHelper :: "('b, 'it) bid_ops \<Rightarrow> 'b \<Rightarrow> 'b \<Rightarrow> SafeSubType \<Rightarrow> 'b res option" where
  "SubHelper ops b1 b2 safeSub =
     (let b1Size = bidCount ops b1; b2Size = bidCount ops b2
      in if (safeSub = NonIntersectingAndEmpty \<and> b2Size \<ge> b1Size) \<or> (safeSub = NonIntersecting \<and> b2Size > b1Size)
         then Some (Inl ErrInvalidBitIDSub)
         else subLoop ops safeSub (firstID ops b1) (firstID ops b2) (SetInitialSize ops b1Size (NewBid ops)))"

text \<open>\<^verbatim>\<open>findHepler\<close>: the loop body does not call \<^verbatim>\<open>NextID\<close>.\<close>

partial_function (option) findLoop :: "('b, 'it) bid_ops \<Rightarrow> int \<Rightarrow> (int \<times> 'it) option \<Rightarrow> bool option" where
  "findLoop ops v cur =
     (case cur of None \<Rightarrow> Some False
      | Some (nxt, it) \<Rightarrow> if nxt = v then Some True else findLoop ops v cur)"

definition findHepler :: "('b, 'it) bid_ops \<Rightarrow> int \<Rightarrow> 'b \<Rightarrow> bool option" where
  "findHepler ops v b1 = findLoop ops v (firstID ops b1)"

partial_function (option) toSliceLoop :: "('b, 'it) bid_ops \<Rightarrow> (int \<times> 'it) option \<Rightarrow> int list \<Rightarrow> int list option" where
  "toSliceLoop ops cur ret =
     (case cur of None \<Rightarrow> Some ret | Some (nxt, it) \<Rightarrow> toSliceLoop ops (NextID ops it) (ret @ [nxt]))"

definition toSliceHelper :: "('b, 'it) bid_ops \<Rightarrow> 'b \<Rightarrow> int list option" where
  "toSliceHelper ops b1 = toSliceLoop ops (firstID ops b1) []"

text \<open>One step of the loops of \<^verbatim>\<open>AddHelper\<close>: the new bit identifier and \<^verbatim>\<open>lastAdded\<close>.\<close>

definition addItem :: "('b, 'it) bid_ops \<Rightarrow> bool \<Rightarrow> bool \<Rightarrow> int \<Rightarrow> int \<Rightarrow> 'b \<Rightarrow> (int \<times> 'b) res" where
  "addItem ops allowDuplicates errorOnDuplicate nxt lastAdded ret =
     (if errorOnDuplicate \<and> lastAdded = nxt then Inl ErrIntersectingBitIDs
      else if allowDuplicates \<or> lastAdded \<noteq> nxt then
        bind_res (AppendItem ops nxt ret) (\<lambda>ret'. Inr (nxt, ret'))
      else Inr (lastAdded, ret))"

partial_function (option) addRest ::
    "('b, 'it) bid_ops \<Rightarrow> bool \<Rightarrow> bool \<Rightarrow> (int \<times> 'it) option \<Rightarrow> int \<Rightarrow> 'b \<Rightarrow> (int \<times> 'b) res option" where
  "addRest ops ad ed cur lastAdded ret =
     (case cur of None \<Rightarrow> Some (Inr (lastAdded, ret))
      | Some (nxt, it) \<Rightarrow>
          (case addItem ops ad ed nxt lastAdded ret of Inl e \<Rightarrow> Some (Inl e)
           | Inr (lastAdded', ret') \<Rightarrow> addRest ops ad ed (NextID ops it) lastAdded' ret'))"

partial_function (option) addLoop ::
    "('b, 'it) bid_ops \<Rightarrow> bool \<Rightarrow> bool \<Rightarrow> (int \<times> 'it) option \<Rightarrow> (int \<times> 'it) option \<Rightarrow> int \<Rightarrow> 'b \<Rightarrow> 'b res option" where
  "addLoop ops ad ed cur1 cur2 lastAdded ret =
     (case (cur1, cur2) of
        (Some (nxt1, it1), Some (nxt2, it2)) \<Rightarrow>
          if nxt1 \<ge> nxt2 then
            (case addItem ops ad ed nxt2 lastAdded ret of Inl e \<Rightarrow> Some (Inl e)
             | Inr (lastAdded', ret') \<Rightarrow> addLoop ops ad ed cur1 (NextID ops it2) lastAdded' ret')
          else
            (case addItem ops ad ed nxt1 lastAdded ret of Inl e \<Rightarrow> Some (Inl e)
             | Inr (lastAdded', ret') \<Rightarrow> addLoop ops ad ed (NextID ops it1) cur2 lastAdded' ret')
      | _ \<Rightarrow>
          (case addRest ops ad ed cur1 lastAdded ret of None \<Rightarrow> None
           | Some (Inl e) \<Rightarrow> Some (Inl e)
           | Some (Inr (lastAdded', ret')) \<Rightarrow>
               map_option (\<lambda>r. bind_res r (\<lambda>(_, ret''). Inr ret'')) (addRest ops ad ed cur2 lastAdded' ret')))"

definition AddHelper :: "('b, 'it) bid_ops \<Rightarrow> 'b \<Rightarrow> 'b \<Rightarrow> bool \<Rightarrow> bool \<Rightarrow> 'b res option" where
  "AddHelper ops b1 b2 allowDuplicates errorOnDuplicate =
     addLoop ops allowDuplicates errorOnDuplicate (firstID ops b1) (firstID ops b2) (-1)
       (SetInitialSize ops (bidCount ops b1 + bidCount ops b2) (NewBid ops))"

text \<open>\<^verbatim>\<open>AddHelperSet\<close>: the active iterators with their current values.\<close>

definition remIter :: "nat \<Rightarrow> 'a list \<Rightarrow> 'a list" where
  "remIter idx iv = butlast (iv[idx := last iv])"

fun minLoop :: "(int \<times> 'it) list \<Rightarrow> nat \<Rightarrow> int \<Rightarrow> nat \<Rightarrow> nat" where
  "minLoop [] i best idx = idx"
| "minLoop ((v, it) # iv) i best idx = (if v < best then minLoop iv (Suc i) v i else minLoop iv (Suc i) best idx)"

definition getMinIdx :: "(int \<times> 'it) list \<Rightarrow> nat" where
  "getMinIdx iv = minLoop iv 0 (fst (hd iv)) 0"

partial_function (option) addSetLoop ::
    "('b, 'it) bid_ops \<Rightarrow> bool \<Rightarrow> bool \<Rightarrow> (int \<times> 'it) list \<Rightarrow> int \<Rightarrow> 'b \<Rightarrow> 'b res option" where
  "addSetLoop ops ad ed idxs prev ret =
     (if idxs = [] then Some (Inr ret)
      else
        (let nxt = getMinIdx idxs; val = fst (idxs ! nxt); it = snd (idxs ! nxt)
         in if val = prev \<and> ed then Some (Inl ErrIntersectingBitIDs)
            else (case (if val = prev \<and> \<not> ad then Inr ret else AppendItem ops val ret) of
                    Inl e \<Rightarrow> Some (Inl e)
                  | Inr ret' \<Rightarrow>
                      (case NextID ops it of
                         None \<Rightarrow> addSetLoop ops ad ed (remIter nxt idxs) val ret'
                       | Some (nxtV, it') \<Rightarrow> addSetLoop ops ad ed (idxs[nxt := (nxtV, it')]) val ret'))))"

definition AddHelperSet :: "('b, 'it) bid_ops \<Rightarrow> bool \<Rightarrow> bool \<Rightarrow> 'b list \<Rightarrow> 'b res option" where
  "AddHelperSet ops allowDuplicates errorOnDuplicate bids =
     addSetLoop ops allowDuplicates errorOnDuplicate (List.map_filter (firstID ops) bids) (-1) (NewBid ops)"

section \<open>Sorted lists\<close>

declare skipEqual.simps [code] and newItemsRest.simps [code] and newItemsLoop.simps [code] and hasNewLoop.simps [code] and
  hasNewBothLoop.simps [code] and intersectLoop.simps [code] and hasIntersectLoop.simps [code] and intersectCountLoop.simps [code] and
  appendRest.simps [code] and subLoop.simps [code] and findLoop.simps [code] and toSliceLoop.simps [code] and
  addRest.simps [code] and addLoop.simps [code] and addSetLoop.simps [code]

lemma set_dropWhile_eq: "sorted xs \<Longrightarrow> (\<And>x. x \<in> set xs \<Longrightarrow> v \<le> x) \<Longrightarrow> set (dropWhile (\<lambda>x. x = v) xs) = set xs - {v :: int}"
proof (induction xs)
  case (Cons x xs)
  then show ?case by (cases "x = v") fastforce+
qed simp

lemma sorted_dropWhile [simp]: "sorted xs \<Longrightarrow> sorted (dropWhile P xs)"
  by (simp add: sorted_wrt_dropWhile)

lemma length_dropWhile_Cons: "P x \<Longrightarrow> length (dropWhile P (x # xs)) < length (x # xs)"
  using length_dropWhile_le [of P xs] by (simp add: less_Suc_eq_le)

text \<open>When a subtraction is refused: \<open>ys\<close> is not contained in \<open>xs\<close>, or nothing would be left.\<close>

definition subFails :: "SafeSubType \<Rightarrow> int list \<Rightarrow> int list \<Rightarrow> bool" where
  "subFails safeSub xs ys \<longleftrightarrow> (safeSub \<noteq> NotSafe \<and> \<not> mset ys \<subseteq># mset xs) \<or>
     (safeSub = NonIntersectingAndEmpty \<and> mset xs = mset ys)"

section \<open>The contract of an implementation\<close>

text \<open>
  What the helpers need of an implementation. \<open>items\<close> is the abstraction, \<open>remaining\<close> the items an
  iterator has not yet returned, \<open>dups\<close> tells whether the implementation stores duplicates.
\<close>

definition goInt :: "int \<Rightarrow> bool" where
  "goInt v \<longleftrightarrow> 0 \<le> v \<and> v < 2 ^ 63"

lemma goInt_word: "goInt v \<Longrightarrow> sint (of_int v :: uint64) = v" "goInt v \<Longrightarrow> uint (of_int v :: uint64) = v"
  by (simp_all add: goInt_def sint_uint uint_word_of_int signed_take_bit_eq_if_positive bit_iff_odd take_bit_int_eq_self)

locale bid_iterator =
  fixes ops :: "('b, 'it) bid_ops"
    and items :: "'b \<Rightarrow> int list"
    and remaining :: "'it \<Rightarrow> int list"
    and inv :: "'b \<Rightarrow> bool"
  assumes next_None: "NextID ops it = None \<Longrightarrow> remaining it = []"
    and next_Some: "NextID ops it = Some (v, it') \<Longrightarrow> remaining it = v # remaining it'"
    and iter_items: "inv b \<Longrightarrow> remaining (NewIterator ops b) = items b"
    and count_items: "inv b \<Longrightarrow> bidCount ops b = int (length (items b))"
    and items_sorted: "inv b \<Longrightarrow> sorted (items b)"
    and items_int: "inv b \<Longrightarrow> v \<in> set (items b) \<Longrightarrow> goInt v"
begin

text \<open>The items from the cursor of a loop on.\<close>

definition curItems :: "(int \<times> 'it) option \<Rightarrow> int list" where
  "curItems cur = (case cur of None \<Rightarrow> [] | Some (v, it) \<Rightarrow> v # remaining it)"

lemma curItems_simps [simp]: "curItems None = []" "curItems (Some (v, it)) = v # remaining it"
  by (simp_all add: curItems_def)

lemma curItems_next [simp]: "curItems (NextID ops it) = remaining it"
  using next_None [of it] next_Some [of it] by (cases "NextID ops it") auto

lemma curItems_first: "inv b \<Longrightarrow> curItems (firstID ops b) = items b"
  by (simp add: iter_items)

lemma curItems_empty_iff: "curItems cur = [] \<longleftrightarrow> cur = None"
  by (cases cur) auto

lemma skipEqual_spec: "\<exists>cur'. skipEqual ops v cur = Some cur' \<and> curItems cur' = dropWhile (\<lambda>x. x = v) (curItems cur)"
proof (induction "length (curItems cur)" arbitrary: cur rule: less_induct)
  case less
  show ?case
  proof (cases cur)
    case None
    then show ?thesis by (subst skipEqual.simps) simp
  next
    case (Some p)
    obtain nxt it where p: "cur = Some (nxt, it)" using Some by (cases p) auto
    show ?thesis
    proof (cases "nxt = v")
      case True
      have "\<exists>cur'. skipEqual ops v (NextID ops it) = Some cur' \<and> curItems cur' = dropWhile (\<lambda>x. x = v) (curItems (NextID ops it))"
        using p by (intro less) simp
      with True p show ?thesis by (subst skipEqual.simps) simp
    next
      case False
      with p show ?thesis by (subst skipEqual.simps) simp
    qed
  qed
qed

lemma skipHead_spec:
  "\<exists>cur'. skipHead ops cur = Some cur' \<and> curItems cur' = dropWhile (\<lambda>x. x = hd (curItems cur)) (curItems cur)"
  using skipEqual_spec [of "hd (curItems cur)" cur] by (cases cur) (auto simp: skipHead_def)

end

context bid_iterator
begin

lemma two_cursors:
  obtains (none1) "cx = None" | (none2) "cy = None"
  | (some) v1 it1 v2 it2 where "cx = Some (v1, it1)" "cy = Some (v2, it2)"
  by (cases cx; cases cy) auto

lemma hasNewLoop_spec:
  "sorted (curItems cur1) \<Longrightarrow> sorted (curItems cur2) \<Longrightarrow>
   hasNewLoop ops cur1 cur2 = Some (\<not> set (curItems cur2) \<subseteq> set (curItems cur1))"
proof (induction "length (curItems cur1) + length (curItems cur2)" arbitrary: cur1 cur2 rule: less_induct)
  case less
  show ?case
  proof (cases rule: two_cursors [where cx = cur1 and cy = cur2])
    case none1
    then show ?thesis by (subst hasNewLoop.simps) (auto simp: curItems_def split: option.splits)
  next
    case none2
    then show ?thesis by (subst hasNewLoop.simps) (auto split: option.splits)
  next
    case (some v1 it1 v2 it2)
    consider "v1 > v2" | "v1 < v2" | "v1 = v2" by linarith
    then show ?thesis
    proof cases
      case 1
      then have "v2 \<notin> set (curItems cur1)" using less.prems(1) some by auto
      with 1 some show ?thesis by (subst hasNewLoop.simps) auto
    next
      case 2
      then have "hasNewLoop ops (NextID ops it1) cur2 = Some (\<not> set (curItems cur2) \<subseteq> set (remaining it1))"
        using less.hyps [of "NextID ops it1" cur2] less.prems some by simp
      moreover have "v1 \<notin> set (curItems cur2)" using less.prems(2) some 2 by auto
      ultimately show ?thesis using some 2 by (subst hasNewLoop.simps) auto
    next
      case 3
      obtain c1 where c1: "skipEqual ops v1 cur1 = Some c1" "curItems c1 = dropWhile (\<lambda>x. x = v1) (curItems cur1)"
        using skipEqual_spec by blast
      obtain c2 where c2: "skipEqual ops v1 cur2 = Some c2" "curItems c2 = dropWhile (\<lambda>x. x = v1) (curItems cur2)"
        using skipEqual_spec by blast
      have "set (curItems c1) = set (curItems cur1) - {v1}" "set (curItems c2) = set (curItems cur2) - {v1}"
        unfolding c1 c2 using less.prems some 3 by (auto intro!: set_dropWhile_eq)
      moreover have "length (curItems c1) < length (curItems cur1)" "length (curItems c2) < length (curItems cur2)"
        unfolding c1 c2 using some 3 length_dropWhile_Cons by fastforce+
      then have "hasNewLoop ops c1 c2 = Some (\<not> set (curItems c2) \<subseteq> set (curItems c1))"
        using less.prems c1 c2 by (intro less.hyps) auto
      ultimately show ?thesis using some 3 c1 c2 by (subst hasNewLoop.simps) auto
    qed
  qed
qed

lemma HasNewItemsHelper_spec:
  "inv b1 \<Longrightarrow> inv b2 \<Longrightarrow> HasNewItemsHelper ops b1 b2 = Some (\<not> set (items b2) \<subseteq> set (items b1))"
  unfolding HasNewItemsHelper_def by (subst hasNewLoop_spec) (simp_all add: iter_items items_sorted)

lemma hasIntersectLoop_spec:
  "sorted (curItems cur1) \<Longrightarrow> sorted (curItems cur2) \<Longrightarrow>
   hasIntersectLoop ops cur1 cur2 = Some (set (curItems cur1) \<inter> set (curItems cur2) \<noteq> {})"
proof (induction "length (curItems cur1) + length (curItems cur2)" arbitrary: cur1 cur2 rule: less_induct)
  case less
  show ?case
  proof (cases rule: two_cursors [where cx = cur1 and cy = cur2])
    case (some v1 it1 v2 it2)
    consider "v1 > v2" | "v1 < v2" | "v1 = v2" by linarith
    then show ?thesis
    proof cases
      case 1
      then have "v2 \<notin> set (curItems cur1)" using less.prems(1) some by auto
      moreover have "hasIntersectLoop ops cur1 (NextID ops it2) = Some (set (curItems cur1) \<inter> set (remaining it2) \<noteq> {})"
        using less.hyps [of cur1 "NextID ops it2"] less.prems some by simp
      ultimately show ?thesis using 1 some by (subst hasIntersectLoop.simps) auto
    next
      case 2
      then have "v1 \<notin> set (curItems cur2)" using less.prems(2) some by auto
      moreover have "hasIntersectLoop ops (NextID ops it1) cur2 = Some (set (remaining it1) \<inter> set (curItems cur2) \<noteq> {})"
        using less.hyps [of "NextID ops it1" cur2] less.prems some by simp
      ultimately show ?thesis using 2 some by (subst hasIntersectLoop.simps) auto
    next
      case 3
      then show ?thesis using some by (subst hasIntersectLoop.simps) auto
    qed
  qed (subst hasIntersectLoop.simps, auto split: option.splits)+
qed

lemma HasIntersectionHelper_spec:
  "inv b1 \<Longrightarrow> inv b2 \<Longrightarrow> HasIntersectionHelper ops b1 b2 = Some (set (items b1) \<inter> set (items b2) \<noteq> {})"
  unfolding HasIntersectionHelper_def by (subst hasIntersectLoop_spec) (simp_all add: iter_items items_sorted)

end

context bid_iterator
begin

text \<open>The three ways a loop over two sorted cursors goes on, in terms of multisets.\<close>

lemma inter_step:
  assumes "sorted (v1 # xs)" "sorted (v2 # ys)"
  shows "v1 > v2 \<Longrightarrow> mset (v1 # xs) \<inter># mset (v2 # ys) = mset (v1 # xs) \<inter># mset ys"
    and "v1 < v2 \<Longrightarrow> mset (v1 # xs) \<inter># mset (v2 # ys) = mset xs \<inter># mset (v2 # ys)"
    and "mset (v1 # xs) \<inter># mset (v1 # ys) = add_mset v1 (mset xs \<inter># mset ys)"
proof -
  assume "v1 > v2"
  then have "v2 \<notin># mset (v1 # xs)" using assms(1) by auto
  then show "mset (v1 # xs) \<inter># mset (v2 # ys) = mset (v1 # xs) \<inter># mset ys"
    by (metis inter_add_right1 mset.simps(2))
next
  assume "v1 < v2"
  then have "v1 \<notin># mset (v2 # ys)" using assms(2) by auto
  then show "mset (v1 # xs) \<inter># mset (v2 # ys) = mset xs \<inter># mset (v2 # ys)"
    by (metis inter_add_left1 mset.simps(2))
qed simp

lemma intersectLoop_spec:
  "sorted (curItems cur1) \<Longrightarrow> sorted (curItems cur2) \<Longrightarrow>
   \<exists>zs. intersectLoop ops cur1 cur2 ret = Some (ret @ zs) \<and>
     mset zs = mset (curItems cur1) \<inter># mset (curItems cur2) \<and> sorted zs"
proof (induction "length (curItems cur1) + length (curItems cur2)" arbitrary: cur1 cur2 ret rule: less_induct)
  case less
  show ?case
  proof (cases rule: two_cursors [where cx = cur1 and cy = cur2])
    case (some v1 it1 v2 it2)
    note st = inter_step [OF less.prems [unfolded some curItems_simps]]
    consider "v1 > v2" | "v1 < v2" | "v1 = v2" by linarith
    then show ?thesis
    proof cases
      case 1
      then show ?thesis using less.hyps [of cur1 "NextID ops it2" ret] less.prems some st(1)
        by (subst intersectLoop.simps) simp
    next
      case 2
      then show ?thesis using less.hyps [of "NextID ops it1" cur2 ret] less.prems some st(2)
        by (subst intersectLoop.simps) simp
    next
      case 3
      obtain zs where zs: "intersectLoop ops (NextID ops it1) (NextID ops it2) (ret @ [v1]) = Some (ret @ v1 # zs)"
        "mset zs = mset (remaining it1) \<inter># mset (remaining it2)" "sorted zs"
        using less.hyps [of "NextID ops it1" "NextID ops it2" "ret @ [v1]"] less.prems some by auto
      have "set zs \<subseteq> set (remaining it1)"
        using zs(2) by (metis inter_subset_eq_union multiset_inter_commute set_mset_mset set_mset_mono subset_mset.inf_le1)
      then have "sorted (v1 # zs)" using zs(3) less.prems(1) some by auto
      moreover have "mset (v1 # zs) = mset (curItems cur1) \<inter># mset (curItems cur2)" using zs(2) some 3 by simp
      moreover have "intersectLoop ops cur1 cur2 ret = Some (ret @ v1 # zs)"
        using zs(1) some 3 by (subst intersectLoop.simps) simp
      ultimately show ?thesis by blast
    qed
  qed (subst intersectLoop.simps, auto split: option.splits)+
qed

lemma CheckIntersectionHelper_spec:
  "inv b1 \<Longrightarrow> inv b2 \<Longrightarrow>
   CheckIntersectionHelper ops b1 b2 = Some (sorted_list_of_multiset (mset (items b1) \<inter># mset (items b2)))"
proof -
  assume b: "inv b1" "inv b2"
  obtain zs where "CheckIntersectionHelper ops b1 b2 = Some zs" "mset zs = mset (items b1) \<inter># mset (items b2)" "sorted zs"
    using intersectLoop_spec [of "firstID ops b1" "firstID ops b2" "[]"] b
    by (auto simp: CheckIntersectionHelper_def iter_items items_sorted)
  then show ?thesis by (metis sorted_list_of_multiset_mset sorted_sort_id)
qed

lemma intersectCountLoop_spec:
  "sorted (curItems cur1) \<Longrightarrow> sorted (curItems cur2) \<Longrightarrow>
   intersectCountLoop ops cur1 cur2 ret = Some (ret + int (size (mset (curItems cur1) \<inter># mset (curItems cur2))))"
proof (induction "length (curItems cur1) + length (curItems cur2)" arbitrary: cur1 cur2 ret rule: less_induct)
  case less
  show ?case
  proof (cases rule: two_cursors [where cx = cur1 and cy = cur2])
    case (some v1 it1 v2 it2)
    note st = inter_step [OF less.prems [unfolded some curItems_simps]]
    consider "v1 > v2" | "v1 < v2" | "v1 = v2" by linarith
    then show ?thesis
    proof cases
      case 1
      then show ?thesis using less.hyps [of cur1 "NextID ops it2" ret] less.prems some st(1)
        by (subst intersectCountLoop.simps) simp
    next
      case 2
      then show ?thesis using less.hyps [of "NextID ops it1" cur2 ret] less.prems some st(2)
        by (subst intersectCountLoop.simps) simp
    next
      case 3
      then show ?thesis using less.hyps [of "NextID ops it1" "NextID ops it2" "ret + 1"] less.prems some
        by (subst intersectCountLoop.simps) simp
    qed
  qed (subst intersectCountLoop.simps, auto split: option.splits)+
qed

lemma HasIntersectionCountHelper_spec:
  "inv b1 \<Longrightarrow> inv b2 \<Longrightarrow>
   HasIntersectionCountHelper ops b1 b2 = Some (int (size (mset (items b1) \<inter># mset (items b2))))"
  unfolding HasIntersectionCountHelper_def
  by (subst intersectCountLoop_spec) (simp_all add: iter_items items_sorted)

lemma toSliceLoop_spec: "toSliceLoop ops cur ret = Some (ret @ curItems cur)"
proof (induction "length (curItems cur)" arbitrary: cur ret rule: less_induct)
  case less
  then show ?case
    by (subst toSliceLoop.simps) (auto split: option.splits)
qed

lemma toSliceHelper_spec: "inv b \<Longrightarrow> toSliceHelper ops b = Some (items b)"
  by (simp add: toSliceHelper_def toSliceLoop_spec iter_items)

end

text \<open>
  An implementation that can be built by appending in ascending order; \<open>build\<close> holds for the bit identifiers that
  accept a further item (a decoded one need not), \<open>dups n\<close> for those that may hold \<open>n\<close> items that are not all distinct.
\<close>

locale bid_builder = bid_iterator ops items remaining inv
  for ops :: "('b, 'it) bid_ops" and items :: "'b \<Rightarrow> int list" and remaining :: "'it \<Rightarrow> int list" and inv :: "'b \<Rightarrow> bool" +
  fixes build :: "'b \<Rightarrow> bool" and dups :: "nat \<Rightarrow> bool"
  assumes build_inv: "build b \<Longrightarrow> inv b"
    and dups_mono: "dups k \<Longrightarrow> m \<le> k \<Longrightarrow> dups m"
    and new_inv: "build (NewBid ops)" "items (NewBid ops) = []"
    and initial_inv: "0 \<le> n \<Longrightarrow> build (SetInitialSize ops n (NewBid ops))"
      "0 \<le> n \<Longrightarrow> items (SetInitialSize ops n (NewBid ops)) = []"
    and append_inv: "build b \<Longrightarrow> goInt v \<Longrightarrow> (\<And>x. x \<in> set (items b) \<Longrightarrow> x \<le> v) \<Longrightarrow>
      dups (Suc (length (items b))) \<or> v \<notin> set (items b) \<and> distinct (items b) \<Longrightarrow>
      \<exists>b'. AppendItem ops v b = Inr b' \<and> build b' \<and> items b' = items b @ [v]"
    and items_distinct: "inv b \<Longrightarrow> dups (length (items b)) \<or> distinct (items b)"
begin

lemma count_initial: "inv b \<Longrightarrow> 0 \<le> bidCount ops b"
  by (simp add: count_items)

text \<open>The result under construction: its last item is \<open>lastAdded\<close> and nothing to come is smaller.\<close>

definition building :: "'b \<Rightarrow> int \<Rightarrow> int list \<Rightarrow> bool" where
  "building ret lastAdded xs \<longleftrightarrow> build ret \<and> sorted_wrt (<) (items ret) \<and>
     lastAdded = (if items ret = [] then -1 else last (items ret)) \<and>
     (\<forall>x \<in> set xs. goInt x \<and> (\<forall>y \<in> set (items ret). y \<le> x))"

lemma building_mem:
  assumes "building ret la xs" "v \<in> set xs"
  shows "v = la \<longleftrightarrow> v \<in> set (items ret)"
proof (cases "items ret" rule: rev_cases)
  case Nil
  then show ?thesis using assms by (auto simp: building_def goInt_def)
next
  case (snoc ys y)
  then show ?thesis using assms by (fastforce simp: building_def sorted_wrt_append)
qed

lemma building_append:
  assumes b: "building ret la (v # xs)" and "la \<noteq> v" "sorted (v # xs)"
  obtains ret' where "AppendItem ops v ret = Inr ret'" "building ret' v xs" "items ret' = items ret @ [v]"
proof -
  have v: "build ret" "goInt v" "\<And>y. y \<in> set (items ret) \<Longrightarrow> y \<le> v" using b by (auto simp: building_def)
  have nin: "v \<notin> set (items ret)" using building_mem [OF b, of v] assms(2) by auto
  obtain ret' where r: "AppendItem ops v ret = Inr ret'" "build ret'" "items ret' = items ret @ [v]"
    using append_inv [OF v] nin b by (auto simp: building_def strict_sorted_iff)
  have "\<forall>y \<in> set (items ret). y < v" using v(3) nin by (metis order_le_less)
  then have "building ret' v xs" using b r assms(3) by (auto simp: building_def sorted_wrt_append)
  with r that show thesis by blast
qed

lemma building_drop: "building ret la (v # xs) \<Longrightarrow> building ret la xs"
  by (simp add: building_def)

lemma newItemsRest_spec:
  "sorted (curItems cur) \<Longrightarrow> building ret la (curItems cur) \<Longrightarrow>
   \<exists>ret' la'. newItemsRest ops cur la ret = Some (Inr ret') \<and> building ret' la' [] \<and>
     set (items ret') = set (items ret) \<union> set (curItems cur)"
proof (induction "length (curItems cur)" arbitrary: cur ret la rule: less_induct)
  case less
  show ?case
  proof (cases cur)
    case None
    then show ?thesis using less.prems by (subst newItemsRest.simps) auto
  next
    case (Some p)
    obtain v it where p: "cur = Some (v, it)" using Some by (cases p) auto
    have b: "building ret la (v # remaining it)" "sorted (v # remaining it)" using less.prems p by simp_all
    show ?thesis
    proof (cases "la = v")
      case True
      then have "v \<in> set (items ret)" using building_mem [OF b(1), of v] by auto
      moreover obtain ret' la' where "newItemsRest ops (NextID ops it) la ret = Some (Inr ret')" "building ret' la' []"
        "set (items ret') = set (items ret) \<union> set (remaining it)"
        using less.hyps [of "NextID ops it" ret la] building_drop [OF b(1)] b(2) p by auto
      ultimately show ?thesis using p True by (subst newItemsRest.simps) (auto intro!: exI [of _ la'])
    next
      case False
      obtain r where r: "AppendItem ops v ret = Inr r" "building r v (remaining it)" "items r = items ret @ [v]"
        using building_append [OF b(1) False b(2)] .
      obtain ret' la' where "newItemsRest ops (NextID ops it) v r = Some (Inr ret')" "building ret' la' []"
        "set (items ret') = set (items r) \<union> set (remaining it)"
        using less.hyps [of "NextID ops it" r v] r(2) b(2) p by auto
      with r p False show ?thesis by (subst newItemsRest.simps) (auto intro!: exI [of _ la'])
    qed
  qed
qed

end

context bid_builder
begin

lemma newItemsLoop_spec:
  "sorted (curItems cur1) \<Longrightarrow> sorted (curItems cur2) \<Longrightarrow> building ret la (curItems cur2) \<Longrightarrow>
   \<exists>ret' la'. newItemsLoop ops cur1 cur2 la ret = Some (Inr ret') \<and> building ret' la' [] \<and>
     set (items ret') = set (items ret) \<union> (set (curItems cur2) - set (curItems cur1))"
proof (induction "length (curItems cur1) + length (curItems cur2)" arbitrary: cur1 cur2 ret la rule: less_induct)
  case less
  show ?case
  proof (cases rule: two_cursors [where cx = cur1 and cy = cur2])
    case none1
    then show ?thesis using newItemsRest_spec [OF less.prems(2,3)] by (subst newItemsLoop.simps) (auto split: option.splits)
  next
    case none2
    then show ?thesis using less.prems(3) newItemsRest_spec [OF less.prems(2,3)]
      by (subst newItemsLoop.simps) (auto split: option.splits)
  next
    case (some v1 it1 v2 it2)
    have b: "building ret la (v2 # remaining it2)" "sorted (v2 # remaining it2)" "sorted (v1 # remaining it1)"
      using less.prems some by simp_all
    consider "v1 > v2" "la = v2" | "v1 > v2" "la \<noteq> v2" | "v1 < v2" | "v1 = v2" by linarith
    then show ?thesis
    proof cases
      case 1
      have "v2 \<in> set (items ret)" using building_mem [OF b(1), of v2] 1 by auto
      moreover obtain ret' la' where "newItemsLoop ops cur1 (NextID ops it2) la ret = Some (Inr ret')" "building ret' la' []"
        "set (items ret') = set (items ret) \<union> (set (remaining it2) - set (curItems cur1))"
        using less.hyps [of cur1 "NextID ops it2" ret la] less.prems building_drop [OF b(1)] b(2) some by auto
      ultimately show ?thesis using some 1 by (subst newItemsLoop.simps) (auto intro!: exI [of _ la'])
    next
      case 2
      have nin: "v2 \<notin> set (curItems cur1)" using b(3) 2 some by auto
      obtain r where r: "AppendItem ops v2 ret = Inr r" "building r v2 (remaining it2)" "items r = items ret @ [v2]"
        using building_append [OF b(1) 2(2) b(2)] .
      obtain ret' la' where "newItemsLoop ops cur1 (NextID ops it2) v2 r = Some (Inr ret')" "building ret' la' []"
        "set (items ret') = set (items r) \<union> (set (remaining it2) - set (curItems cur1))"
        using less.hyps [of cur1 "NextID ops it2" r v2] less.prems r(2) b(2) some by auto
      with r nin some 2 show ?thesis by (subst newItemsLoop.simps) (auto intro!: exI [of _ la'])
    next
      case 3
      have nin: "v1 \<notin> set (curItems cur2)" using b(2) 3 some by auto
      obtain ret' la' where "newItemsLoop ops (NextID ops it1) cur2 la ret = Some (Inr ret')" "building ret' la' []"
        "set (items ret') = set (items ret) \<union> (set (curItems cur2) - set (remaining it1))"
        using less.hyps [of "NextID ops it1" cur2 ret la] less.prems some by auto
      with nin some 3 show ?thesis by (subst newItemsLoop.simps) (auto intro!: exI [of _ la'])
    next
      case 4
      obtain c1 where c1: "skipEqual ops v1 cur1 = Some c1" "curItems c1 = dropWhile (\<lambda>x. x = v1) (curItems cur1)"
        using skipEqual_spec by blast
      obtain c2 where c2: "skipEqual ops v1 cur2 = Some c2" "curItems c2 = dropWhile (\<lambda>x. x = v1) (curItems cur2)"
        using skipEqual_spec by blast
      have s: "set (curItems c1) = set (curItems cur1) - {v1}" "set (curItems c2) = set (curItems cur2) - {v1}"
        unfolding c1 c2 using less.prems some 4 by (auto intro!: set_dropWhile_eq)
      have "length (curItems c1) < length (curItems cur1)" "length (curItems c2) < length (curItems cur2)"
        unfolding c1 c2 using some 4 length_dropWhile_Cons by fastforce+
      moreover have "building ret la (curItems c2)" using less.prems(3) s(2) by (auto simp: building_def)
      ultimately obtain ret' la' where "newItemsLoop ops c1 c2 la ret = Some (Inr ret')" "building ret' la' []"
        "set (items ret') = set (items ret) \<union> (set (curItems c2) - set (curItems c1))"
        using less.hyps [of c1 c2 ret la] less.prems c1 c2 by auto
      moreover have "set (curItems c2) - set (curItems c1) = set (curItems cur2) - set (curItems cur1)"
        using s some 4 by auto
      ultimately show ?thesis using some 4 c1 c2 by (subst newItemsLoop.simps) (auto intro!: exI [of _ la'])
    qed
  qed
qed

lemma sorted_wrt_less_unique: "sorted_wrt (<) (xs :: int list) \<Longrightarrow> xs = sorted_list_of_set (set xs)"
  by (simp add: sorted_list_of_set.idem_if_sorted_distinct strict_sorted_iff)

lemma building_new:
  assumes "0 \<le> n" "\<And>x. x \<in> set xs \<Longrightarrow> goInt x"
  shows "building (SetInitialSize ops n (NewBid ops)) (-1) xs" "building (NewBid ops) (-1) xs"
  using assms initial_inv [of n] new_inv by (auto simp: building_def)

lemma GetNewItemsHelper_spec:
  assumes "inv b1" "inv b2"
  shows "\<exists>ret. GetNewItemsHelper ops b1 b2 = Some (Inr ret) \<and> build ret \<and>
    items ret = sorted_list_of_set (set (items b2) - set (items b1))"
proof -
  let ?r = "SetInitialSize ops (bidCount ops b2) (NewBid ops)"
  have "building ?r (-1) (items b2)" using building_new(1) count_initial assms items_int by blast
  moreover have "items ?r = []" using initial_inv(2) count_initial assms by blast
  ultimately obtain ret la where r: "GetNewItemsHelper ops b1 b2 = Some (Inr ret)" "building ret la []"
    "set (items ret) = set (items b2) - set (items b1)"
    using newItemsLoop_spec [of "firstID ops b1" "firstID ops b2" ?r "-1"] assms
    by (auto simp: GetNewItemsHelper_def iter_items items_sorted)
  then show ?thesis using sorted_wrt_less_unique [of "items ret"] r(3) by (simp add: building_def)
qed

end

context bid_builder
begin

text \<open>A result to which all of \<open>xs\<close> can be appended.\<close>

definition appendable :: "'b \<Rightarrow> int list \<Rightarrow> bool" where
  "appendable ret xs \<longleftrightarrow> build ret \<and> sorted (items ret @ xs) \<and> (\<forall>x \<in> set xs. goInt x) \<and>
     (dups (length (items ret @ xs)) \<or> distinct (items ret @ xs))"

lemma appendable_append:
  assumes "appendable ret (v # xs)"
  obtains ret' where "AppendItem ops v ret = Inr ret'" "appendable ret' xs" "items ret' = items ret @ [v]"
proof -
  have "build ret" "goInt v" "\<And>x. x \<in> set (items ret) \<Longrightarrow> x \<le> v"
    using assms by (auto simp: appendable_def sorted_append)
  moreover have "dups (Suc (length (items ret))) \<or> v \<notin> set (items ret) \<and> distinct (items ret)"
    using assms dups_mono [of "length (items ret @ v # xs)" "Suc (length (items ret))"] unfolding appendable_def by auto
  ultimately obtain ret' where r: "AppendItem ops v ret = Inr ret'" "build ret'" "items ret' = items ret @ [v]"
    using append_inv by metis
  with assms have "appendable ret' xs" by (auto simp: appendable_def)
  with r that show thesis by blast
qed

lemma appendable_drop: "appendable ret (v # xs) \<Longrightarrow> appendable ret xs"
  using dups_mono [of "length (items ret @ v # xs)" "length (items ret @ xs)"] by (auto simp: appendable_def sorted_append)

lemma appendRest_spec:
  "appendable ret (curItems cur) \<Longrightarrow>
   \<exists>ret'. appendRest ops cur ret = Some (Inr ret') \<and> build ret' \<and> items ret' = items ret @ curItems cur"
proof (induction "length (curItems cur)" arbitrary: cur ret rule: less_induct)
  case less
  show ?case
  proof (cases cur)
    case None
    then show ?thesis using less.prems by (subst appendRest.simps) (simp add: appendable_def)
  next
    case (Some p)
    obtain v it where p: "cur = Some (v, it)" using Some by (cases p) auto
    obtain r where r: "AppendItem ops v ret = Inr r" "appendable r (remaining it)" "items r = items ret @ [v]"
      using appendable_append [of ret v "remaining it"] less.prems p by auto
    then show ?thesis using less.hyps [of "NextID ops it" r] p by (subst appendRest.simps) auto
  qed
qed

lemma diff_step:
  assumes "sorted (v1 # xs)" "sorted (v2 # ys)"
  shows "v1 > v2 \<Longrightarrow> mset (v1 # xs) - mset (v2 # ys) = mset (v1 # xs) - mset ys"
    and "v1 > v2 \<Longrightarrow> \<not> mset (v2 # ys) \<subseteq># mset (v1 # xs)"
    and "v1 < v2 \<Longrightarrow> mset (v1 # xs) - mset (v2 # ys) = add_mset v1 (mset xs - mset (v2 # ys))"
    and "v1 < v2 \<Longrightarrow> mset (v2 # ys) \<subseteq># mset (v1 # xs) \<longleftrightarrow> mset (v2 # ys) \<subseteq># mset xs"
proof -
  assume "v1 > v2"
  then have n: "v2 \<notin># mset (v1 # xs)" using assms(1) by auto
  then show "mset (v1 # xs) - mset (v2 # ys) = mset (v1 # xs) - mset ys"
    by (metis diff_add_mset_swap diff_single_trivial mset.simps(2) minus_add_mset_if_not_in_lhs)
  show "\<not> mset (v2 # ys) \<subseteq># mset (v1 # xs)" using n by (metis list.set_intros(1) mset_subset_eqD set_mset_mset)
next
  assume "v1 < v2"
  then have n: "v1 \<notin># mset (v2 # ys)" using assms(2) by auto
  then show "mset (v1 # xs) - mset (v2 # ys) = add_mset v1 (mset xs - mset (v2 # ys))"
    by (simp add: add_mset_diff_bothsides)
  show "mset (v2 # ys) \<subseteq># mset (v1 # xs) \<longleftrightarrow> mset (v2 # ys) \<subseteq># mset xs"
    using n by (metis add_mset_remove_trivial diff_single_trivial mset.simps(2) subset_eq_diff_conv add_mset_add_single)
qed

end

context bid_builder
begin

definition subResult :: "SafeSubType \<Rightarrow> 'b \<Rightarrow> int list \<Rightarrow> int list \<Rightarrow> 'b res option \<Rightarrow> bool" where
  "subResult safeSub ret xs ys r \<longleftrightarrow>
     (if safeSub \<noteq> NotSafe \<and> \<not> mset ys \<subseteq># mset xs then r = Some (Inl ErrInvalidBitIDSub)
      else \<exists>ret'. r = Some (Inr ret') \<and> build ret' \<and> mset (items ret') = mset (items ret) + (mset xs - mset ys))"

lemma subResult_cong:
  assumes "subResult s r xs' ys' x" "s \<noteq> NotSafe \<Longrightarrow> mset ys \<subseteq># mset xs \<longleftrightarrow> mset ys' \<subseteq># mset xs'"
    and "mset (items r) + (mset xs' - mset ys') = mset (items ret) + (mset xs - mset ys)"
  shows "subResult s ret xs ys x"
  using assms unfolding subResult_def by (cases "s = NotSafe") (simp_all only: simp_thms split: if_splits)

lemma subLoop_spec:
  "appendable ret (curItems cur1) \<Longrightarrow> sorted (curItems cur2) \<Longrightarrow>
   subResult safeSub ret (curItems cur1) (curItems cur2) (subLoop ops safeSub cur1 cur2 ret)"
proof (induction "length (curItems cur1) + length (curItems cur2)" arbitrary: cur1 cur2 ret rule: less_induct)
  case less
  show ?case
  proof (cases rule: two_cursors [where cx = cur1 and cy = cur2])
    case none1
    then show ?thesis using less.prems(1)
      by (subst subLoop.simps, subst appendRest.simps) (auto simp: subResult_def appendable_def split: option.splits)
  next
    case none2
    then show ?thesis using appendRest_spec [OF less.prems(1)]
      by (subst subLoop.simps) (auto simp: subResult_def split: option.splits)
  next
    case (some v1 it1 v2 it2)
    have a: "appendable ret (v1 # remaining it1)" "sorted (v1 # remaining it1)" "sorted (v2 # remaining it2)"
      using less.prems some by (auto simp: appendable_def sorted_append)
    note st = diff_step [OF a(2,3)]
    consider "v1 > v2" | "v1 < v2" | "v1 = v2" by linarith
    then show ?thesis
    proof cases
      case 1
      show ?thesis
      proof (cases "safeSub = NotSafe")
        case True
        have "subResult safeSub ret (curItems cur1) (remaining it2) (subLoop ops safeSub cur1 (NextID ops it2) ret)"
          using less.hyps [of cur1 "NextID ops it2" ret] less.prems some by simp
        from subResult_cong [OF this, of "curItems cur2" "curItems cur1" ret] show ?thesis
          using some 1 True st(1) by (subst subLoop.simps) simp
      next
        case False
        then show ?thesis using some 1 st(2) by (subst subLoop.simps) (simp add: subResult_def)
      qed
    next
      case 2
      obtain r where r: "AppendItem ops v1 ret = Inr r" "appendable r (remaining it1)" "items r = items ret @ [v1]"
        using appendable_append [OF a(1)] .
      have "subResult safeSub r (remaining it1) (curItems cur2) (subLoop ops safeSub (NextID ops it1) cur2 r)"
        using less.hyps [of "NextID ops it1" cur2 r] less.prems(2) some r(2) by simp
      from subResult_cong [OF this, of "curItems cur2" "curItems cur1" ret] show ?thesis
        using some 2 st(3,4) r by (subst subLoop.simps) simp
    next
      case 3
      have "subResult safeSub ret (remaining it1) (remaining it2) (subLoop ops safeSub (NextID ops it1) (NextID ops it2) ret)"
        using less.hyps [of "NextID ops it1" "NextID ops it2" ret] appendable_drop [OF a(1)] a(3) some by simp
      from subResult_cong [OF this, of "curItems cur2" "curItems cur1" ret] show ?thesis
        using some 3 by (subst subLoop.simps) simp
    qed
  qed
qed

lemma appendable_new:
  assumes "inv b" "0 \<le> n"
  shows "appendable (SetInitialSize ops n (NewBid ops)) (items b)"
  using assms initial_inv items_sorted items_int items_distinct by (auto simp: appendable_def)

lemma SubHelper_spec:
  assumes b: "inv b1" "inv b2"
  shows "subFails safeSub (items b1) (items b2) \<Longrightarrow> SubHelper ops b1 b2 safeSub = Some (Inl ErrInvalidBitIDSub)"
    and "\<not> subFails safeSub (items b1) (items b2) \<Longrightarrow>
      \<exists>ret. SubHelper ops b1 b2 safeSub = Some (Inr ret) \<and> build ret \<and> mset (items ret) = mset (items b1) - mset (items b2)"
proof -
  let ?r = "SetInitialSize ops (bidCount ops b1) (NewBid ops)"
  have r: "subResult s ?r (items b1) (items b2) (subLoop ops s (firstID ops b1) (firstID ops b2) ?r)" "items ?r = []" for s
    using subLoop_spec [of ?r "firstID ops b1" "firstID ops b2" s] appendable_new [OF b(1)] b count_initial initial_inv
    by (simp_all add: iter_items items_sorted)
  have small: "\<not> mset (items b2) \<subseteq># mset (items b1)" if "bidCount ops b2 > bidCount ops b1"
    using that b size_mset_mono [of "mset (items b2)" "mset (items b1)"] by (auto simp: count_items)
  have same: "bidCount ops b2 \<ge> bidCount ops b1 \<longleftrightarrow> mset (items b1) = mset (items b2)" if "mset (items b2) \<subseteq># mset (items b1)"
  proof (cases "mset (items b1) = mset (items b2)")
    case True
    then show ?thesis using b mset_eq_length [OF True] by (simp add: count_items)
  next
    case False
    then have "mset (items b2) \<subset># mset (items b1)" using that by (simp add: subset_mset.less_le)
    from mset_subset_size [OF this] show ?thesis using b False by (simp add: count_items)
  qed
  show "\<exists>ret. SubHelper ops b1 b2 safeSub = Some (Inr ret) \<and> build ret \<and> mset (items ret) = mset (items b1) - mset (items b2)"
    if "\<not> subFails safeSub (items b1) (items b2)"
    using r(1) [of safeSub] r(2) that same small
    by (auto simp: SubHelper_def subResult_def subFails_def Let_def split: if_splits)
  show "SubHelper ops b1 b2 safeSub = Some (Inl ErrInvalidBitIDSub)" if "subFails safeSub (items b1) (items b2)"
    using r(1) [of safeSub] that same small
    by (auto simp: SubHelper_def subResult_def subFails_def Let_def split: if_splits)
qed

end

section \<open>Adding\<close>

text \<open>The order in which \<^verbatim>\<open>AddHelper\<close> visits the items of its arguments, and a left to right pass over a list.\<close>

fun mergeOrder :: "int list \<Rightarrow> int list \<Rightarrow> int list" where
  "mergeOrder [] ys = ys"
| "mergeOrder xs [] = xs"
| "mergeOrder (x # xs) (y # ys) = (if x \<ge> y then y # mergeOrder (x # xs) ys else x # mergeOrder xs (y # ys))"

fun addAll :: "('b, 'it) bid_ops \<Rightarrow> bool \<Rightarrow> bool \<Rightarrow> int list \<Rightarrow> int \<Rightarrow> 'b \<Rightarrow> (int \<times> 'b) res" where
  "addAll ops ad ed [] la ret = Inr (la, ret)"
| "addAll ops ad ed (z # zs) la ret = bind_res (addItem ops ad ed z la ret) (\<lambda>(la', ret'). addAll ops ad ed zs la' ret')"

lemma mset_mergeOrder [simp]: "mset (mergeOrder xs ys) = mset xs + mset ys"
  by (induction xs ys rule: mergeOrder.induct) auto

lemma set_mergeOrder [simp]: "set (mergeOrder xs ys) = set xs \<union> set ys"
  by (metis mset_mergeOrder set_mset_mset set_mset_union)

lemma sorted_mergeOrder: "sorted xs \<Longrightarrow> sorted ys \<Longrightarrow> sorted (mergeOrder xs ys)"
  by (induction xs ys rule: mergeOrder.induct) auto

lemma mergeOrder_Nil [simp]: "mergeOrder xs [] = xs"
  by (cases xs) simp_all

context bid_iterator
begin

lemma addRest_spec: "addRest ops ad ed cur la ret = Some (addAll ops ad ed (curItems cur) la ret)"
proof (induction "length (curItems cur)" arbitrary: cur la ret rule: less_induct)
  case less
  show ?case
  proof (cases cur)
    case (Some p)
    obtain v it where p: "cur = Some (v, it)" using Some by (cases p) auto
    show ?thesis
    proof (cases "addItem ops ad ed v la ret")
      case (Inr q)
      obtain la' ret' where "addItem ops ad ed v la ret = Inr (la', ret')" using Inr by (cases q) auto
      with p show ?thesis using less.hyps [of "NextID ops it" la' ret'] by (subst addRest.simps) simp
    qed (subst addRest.simps, simp add: p)
  qed (subst addRest.simps, simp)
qed

lemma addLoop_spec:
  "addLoop ops ad ed cur1 cur2 la ret =
     Some (bind_res (addAll ops ad ed (mergeOrder (curItems cur1) (curItems cur2)) la ret) (\<lambda>(la', ret'). Inr ret'))"
proof (induction "length (curItems cur1) + length (curItems cur2)" arbitrary: cur1 cur2 la ret rule: less_induct)
  case less
  show ?case
  proof (cases rule: two_cursors [where cx = cur1 and cy = cur2])
    case none1
    then show ?thesis
      by (subst addLoop.simps) (simp add: addRest_spec split: option.splits)
  next
    case none2
    then show ?thesis
      by (subst addLoop.simps)
        (auto simp: addRest_spec bind_res_def split: option.splits sum.splits prod.splits)
  next
    case (some v1 it1 v2 it2)
    define v where "v = (if v1 \<ge> v2 then v2 else v1)"
    show ?thesis
    proof (cases "addItem ops ad ed v la ret")
      case (Inl e)
      then show ?thesis using some by (subst addLoop.simps) (auto simp: v_def split: if_splits)
    next
      case (Inr q)
      obtain la' ret' where "addItem ops ad ed v la ret = Inr (la', ret')" using Inr by (cases q) auto
      then show ?thesis
        using some less.hyps [of cur1 "NextID ops it2" la' ret'] less.hyps [of "NextID ops it1" cur2 la' ret']
        by (subst addLoop.simps) (auto simp: v_def split: if_splits)
    qed
  qed
qed

lemma AddHelper_addAll:
  "inv b1 \<Longrightarrow> inv b2 \<Longrightarrow> AddHelper ops b1 b2 ad ed =
     Some (bind_res (addAll ops ad ed (mergeOrder (items b1) (items b2)) (-1)
       (SetInitialSize ops (bidCount ops b1 + bidCount ops b2) (NewBid ops))) (\<lambda>(la', ret'). Inr ret'))"
  by (simp add: AddHelper_def addLoop_spec iter_items)

end

context bid_builder
begin

lemma addAll_dups:
  "appendable ret zs \<Longrightarrow> \<exists>la' ret'. addAll ops True False zs la ret = Inr (la', ret') \<and> build ret' \<and> items ret' = items ret @ zs"
proof (induction zs arbitrary: la ret)
  case Nil
  then show ?case by (simp add: appendable_def)
next
  case (Cons z zs)
  obtain r where r: "AppendItem ops z ret = Inr r" "appendable r zs" "items r = items ret @ [z]"
    using appendable_append [OF Cons.prems] .
  then show ?case using Cons.IH [OF r(2), of z] by (auto simp: addItem_def)
qed

lemma addAll_nodups:
  "sorted zs \<Longrightarrow> building ret la zs \<Longrightarrow>
   \<exists>la' ret'. addAll ops False False zs la ret = Inr (la', ret') \<and> building ret' la' [] \<and> set (items ret') = set (items ret) \<union> set zs"
proof (induction zs arbitrary: la ret)
  case (Cons z zs)
  show ?case
  proof (cases "la = z")
    case True
    then have "z \<in> set (items ret)" using building_mem [OF Cons.prems(2), of z] by auto
    then show ?thesis using Cons.IH [OF _ building_drop [OF Cons.prems(2)]] Cons.prems(1) True
      by (auto simp: addItem_def)
  next
    case False
    obtain r where r: "AppendItem ops z ret = Inr r" "building r z zs" "items r = items ret @ [z]"
      using building_append [OF Cons.prems(2) False Cons.prems(1)] .
    then show ?thesis using Cons.IH [OF _ r(2)] Cons.prems(1) False by (auto simp: addItem_def)
  qed
qed simp

lemma addAll_error:
  "sorted zs \<Longrightarrow> building ret la zs \<Longrightarrow>
   (if la \<in> set zs \<or> \<not> distinct zs then addAll ops ad True zs la ret = Inl ErrIntersectingBitIDs
    else \<exists>la' ret'. addAll ops ad True zs la ret = Inr (la', ret') \<and> building ret' la' [] \<and> set (items ret') = set (items ret) \<union> set zs)"
proof (induction zs arbitrary: la ret)
  case (Cons z zs)
  show ?case
  proof (cases "la = z")
    case True
    then show ?thesis by (simp add: addItem_def)
  next
    case False
    obtain r where r: "AppendItem ops z ret = Inr r" "building r z zs" "items r = items ret @ [z]"
      using building_append [OF Cons.prems(2) False Cons.prems(1)] .
    have "la \<notin> set zs"
    proof
      assume "la \<in> set zs"
      moreover from this have "la \<in> set (items ret)" using building_mem [OF Cons.prems(2), of la] by auto
      ultimately have "la \<le> z" "z \<le> la" using Cons.prems by (auto simp: building_def)
      with False show False by simp
    qed
    then show ?thesis using Cons.IH [OF _ r(2)] Cons.prems(1) False r by (auto simp: addItem_def)
  qed
qed simp

end

context bid_builder
begin

lemma AddHelper_spec:
  assumes b: "inv b1" "inv b2"
  shows "dups (length (items b1) + length (items b2)) \<Longrightarrow> \<exists>ret. AddHelper ops b1 b2 True False = Some (Inr ret) \<and> build ret \<and> mset (items ret) = mset (items b1) + mset (items b2)"
    and "\<exists>ret. AddHelper ops b1 b2 False False = Some (Inr ret) \<and> build ret \<and>
      items ret = sorted_list_of_set (set (items b1) \<union> set (items b2))"
    and "\<not> distinct (items b1 @ items b2) \<Longrightarrow> AddHelper ops b1 b2 ad True = Some (Inl ErrIntersectingBitIDs)"
    and "distinct (items b1 @ items b2) \<Longrightarrow> \<exists>ret. AddHelper ops b1 b2 ad True = Some (Inr ret) \<and> build ret \<and>
      items ret = sorted_list_of_set (set (items b1) \<union> set (items b2))"
proof -
  let ?r = "SetInitialSize ops (bidCount ops b1 + bidCount ops b2) (NewBid ops)"
  let ?z = "mergeOrder (items b1) (items b2)"
  have n: "0 \<le> bidCount ops b1 + bidCount ops b2" using count_initial b by fastforce
  have z: "sorted ?z" "\<And>x. x \<in> set ?z \<Longrightarrow> goInt x" using sorted_mergeOrder items_sorted items_int b by auto
  have r: "building ?r (-1) ?z" "items ?r = []" using building_new(1) [OF n, of ?z] z(2) initial_inv(2) [OF n] by blast+
  have nz: "-1 \<notin> set ?z" using z(2) by (force simp: goInt_def)
  have d: "distinct ?z = distinct (items b1 @ items b2)"
    by (metis mset_append mset_eq_imp_distinct_iff mset_mergeOrder)
  have strict: "items ret = sorted_list_of_set (set ?z)" if "building ret la []" "set (items ret) = set ?z" for ret la
    using sorted_wrt_less_unique [of "items ret"] that by (simp add: building_def)
  note eq = AddHelper_addAll [OF b]
  show "\<exists>ret. AddHelper ops b1 b2 True False = Some (Inr ret) \<and> build ret \<and> mset (items ret) = mset (items b1) + mset (items b2)"
    if "dups (length (items b1) + length (items b2))"
  proof -
    have "length ?z = length (items b1) + length (items b2)" by (metis mset_mergeOrder size_mset size_union)
    then have "appendable ?r ?z" unfolding appendable_def using that z r(2) initial_inv(1) [OF n] by simp
    from addAll_dups [OF this, of "-1"] show ?thesis using r(2) unfolding eq by auto
  qed
  show "\<exists>ret. AddHelper ops b1 b2 False False = Some (Inr ret) \<and> build ret \<and>
      items ret = sorted_list_of_set (set (items b1) \<union> set (items b2))"
    using addAll_nodups [OF z(1) r(1)] strict r(2) unfolding eq by (fastforce simp: building_def)
  show "AddHelper ops b1 b2 ad True = Some (Inl ErrIntersectingBitIDs)" if "\<not> distinct (items b1 @ items b2)"
    using addAll_error [OF z(1) r(1), of ad] that d unfolding eq by simp
  show "\<exists>ret. AddHelper ops b1 b2 ad True = Some (Inr ret) \<and> build ret \<and>
      items ret = sorted_list_of_set (set (items b1) \<union> set (items b2))" if "distinct (items b1 @ items b2)"
  proof -
    have "distinct ?z" using that d by simp
    then obtain la' ret' where "addAll ops ad True ?z (-1) ?r = Inr (la', ret')" "building ret' la' []" "set (items ret') = set ?z"
      using addAll_error [OF z(1) r(1), of ad] nz r(2) by auto
    then show ?thesis using strict unfolding eq by (fastforce simp: building_def)
  qed
qed

end

subsection \<open>Adding several bit identifiers\<close>

lemma minLoop_spec:
  assumes "idx < i" "i + length iv = length jv" "\<forall>k < length iv. jv ! (i + k) = iv ! k"
    "best = fst (jv ! idx)" "\<forall>k < i. best \<le> fst (jv ! k)"
  shows "minLoop iv i best idx < length jv" "\<forall>k < length jv. fst (jv ! minLoop iv i best idx) \<le> fst (jv ! k)"
proof -
  have "minLoop iv i best idx < length jv \<and> (\<forall>k < length jv. fst (jv ! minLoop iv i best idx) \<le> fst (jv ! k))"
    using assms
  proof (induction iv i best idx rule: minLoop.induct)
    case (2 v it iv i best idx)
    have v: "jv ! i = (v, it)" using "2.prems"(3) by (metis add_0_right length_greater_0_conv list.discI nth_Cons_0)
    have shift: "\<forall>k < length iv. jv ! (Suc i + k) = iv ! k"
      using "2.prems"(3) by (metis Suc_less_eq add_Suc_shift length_Cons nth_Cons_Suc)
    show ?case
    proof (cases "v < best")
      case True
      then have "\<forall>k < Suc i. v \<le> fst (jv ! k)" using "2.prems"(5) v by (auto simp: less_Suc_eq)
      then show ?thesis using "2.IH"(1) [OF True] "2.prems"(2) shift v True by simp
    next
      case False
      then have "\<forall>k < Suc i. best \<le> fst (jv ! k)" using "2.prems"(5) v by (auto simp: less_Suc_eq)
      then show ?thesis using "2.IH"(2) [OF False] "2.prems"(1,2,4) shift False by simp
    qed
  qed simp
  then show "minLoop iv i best idx < length jv" "\<forall>k < length jv. fst (jv ! minLoop iv i best idx) \<le> fst (jv ! k)"
    by simp_all
qed

lemma getMinIdx_spec:
  assumes "iv \<noteq> []"
  shows "getMinIdx iv < length iv" "x \<in> set iv \<Longrightarrow> fst (iv ! getMinIdx iv) \<le> fst x"
proof -
  obtain a l where iv: "iv = a # l" using assms by (cases iv) auto
  obtain v it where a: "a = (v, it)" by (cases a)
  have eq: "getMinIdx iv = minLoop l 1 v 0" by (simp add: getMinIdx_def iv a)
  have "0 < (1::nat)" "1 + length l = length iv" "\<forall>k < length l. iv ! (1 + k) = l ! k" "v = fst (iv ! 0)"
    "\<forall>k < 1. v \<le> fst (iv ! k)"
    using iv a by simp_all
  note m' = minLoop_spec [OF this]
  then show "getMinIdx iv < length iv" using eq by simp
  show "fst (iv ! getMinIdx iv) \<le> fst x" if "x \<in> set iv"
    using m'(2) eq that by (metis in_set_conv_nth)
qed

lemma mset_remIter: "i < length xs \<Longrightarrow> mset (remIter i xs) = mset xs - {#xs ! i#}"
  by (simp add: remIter_def mset_swap_last)

context bid_iterator
begin

definition curBag :: "(int \<times> 'it) list \<Rightarrow> int multiset" where
  "curBag idxs = \<Sum>\<^sub># (image_mset (\<lambda>(v, it). mset (v # remaining it)) (mset idxs))"

lemma addSetLoop_spec:
  "\<forall>(v, it) \<in> set idxs. sorted (v # remaining it) \<Longrightarrow>
   \<exists>zs. sorted zs \<and> mset zs = curBag idxs \<and>
     addSetLoop ops ad ed idxs prev ret = Some (bind_res (addAll ops ad ed zs prev ret) (\<lambda>(la', ret'). Inr ret'))"
proof (induction "size (curBag idxs)" arbitrary: idxs prev ret rule: less_induct)
  case less
  show ?case
  proof (cases "idxs = []")
    case True
    then show ?thesis by (subst addSetLoop.simps) (simp add: curBag_def)
  next
    case False
    let ?i = "getMinIdx idxs"
    obtain v it where vi: "idxs ! ?i = (v, it)" by (cases "idxs ! ?i")
    have i: "?i < length idxs" "(v, it) \<in> set idxs" using getMinIdx_spec(1) [OF False] vi by (metis nth_mem)+
    define B where "B = mset idxs - {#(v, it)#}"
    have B: "mset idxs = add_mset (v, it) B" using i by (simp add: B_def)
    have vmin: "v \<le> x" if "x \<in># curBag idxs" for x
    proof -
      obtain w jt where w: "(w, jt) \<in> set idxs" "x \<in> set (w # remaining jt)"
        using \<open>x \<in># curBag idxs\<close> by (auto simp: curBag_def)
      have "v \<le> w" using getMinIdx_spec(2) [OF False w(1)] vi by simp
      moreover have "w \<le> x" using less.prems w by fastforce
      ultimately show ?thesis by simp
    qed
    define idxs' where "idxs' = (case NextID ops it of None \<Rightarrow> remIter ?i idxs | Some p \<Rightarrow> idxs[?i := p])"
    have bag: "curBag idxs = add_mset v (curBag idxs')"
    proof (cases "NextID ops it")
      case None
      then have "mset idxs' = B" using mset_remIter [OF i(1)] vi by (simp add: idxs'_def B_def)
      then show ?thesis using next_None [OF None] by (simp add: curBag_def B)
    next
      case (Some p)
      obtain w jt where p: "p = (w, jt)" by (cases p)
      then have "mset idxs' = add_mset (w, jt) B" using mset_update [OF i(1)] vi Some by (simp add: idxs'_def B_def)
      then show ?thesis using next_Some [of it w jt] Some p by (simp add: curBag_def B)
    qed
    have srt: "\<forall>(v, it) \<in> set idxs'. sorted (v # remaining it)"
    proof -
      have "sorted (remaining it)" using less.prems i(2) by auto
      moreover have "set idxs' \<subseteq> set idxs \<union> set_option (NextID ops it)"
      proof (cases "NextID ops it")
        case None
        then have "set_mset (mset idxs') \<subseteq> set_mset (mset idxs)" using mset_remIter [OF i(1)] vi
          by (auto simp: idxs'_def dest: in_diffD)
        with None show ?thesis by simp
      next
        case (Some p)
        then show ?thesis using set_update_subset_insert [of idxs ?i p] by (auto simp: idxs'_def)
      qed
      moreover have "case p of (v, it) \<Rightarrow> sorted (v # remaining it)" if "NextID ops it = Some p" for p
        using calculation(1) next_Some [of it "fst p" "snd p"] that by (cases p) simp
      ultimately show ?thesis using less.prems by fastforce
    qed
    have smaller: "size (curBag idxs') < size (curBag idxs)" using bag by simp
    have step: "addSetLoop ops ad ed idxs prev ret =
        (case addItem ops ad ed v prev ret of Inl e \<Rightarrow> Some (Inl e) | Inr (la', ret') \<Rightarrow> addSetLoop ops ad ed idxs' v ret')"
      using False vi by (subst addSetLoop.simps)
        (auto simp: Let_def addItem_def idxs'_def bind_res_def split: option.splits sum.splits prod.splits)
    have la: "la' = v" if "addItem ops ad ed v prev ret = Inr (la', ret')" for la' ret'
      using that by (auto simp: addItem_def bind_res_Inr_iff split: if_splits)
    define ret0 where "ret0 = (case addItem ops ad ed v prev ret of Inl _ \<Rightarrow> ret | Inr (_, r) \<Rightarrow> r)"
    obtain zs where zs: "sorted zs" "mset zs = curBag idxs'"
      and eq: "addSetLoop ops ad ed idxs' v ret0 = Some (bind_res (addAll ops ad ed zs v ret0) (\<lambda>(la', ret'). Inr ret'))"
      using less.hyps [OF smaller srt, of v ret0] by blast
    have "sorted (v # zs)" using zs vmin bag by (metis insert_iff set_mset_add_mset_insert set_mset_mset sorted_simps(2))
    moreover have "mset (v # zs) = curBag idxs" using zs(2) bag by simp
    moreover have "addSetLoop ops ad ed idxs prev ret = Some (bind_res (addAll ops ad ed (v # zs) prev ret) (\<lambda>(la', ret'). Inr ret'))"
      using step eq la by (cases "addItem ops ad ed v prev ret") (auto simp: ret0_def)
    ultimately show ?thesis by blast
  qed
qed

end

context bid_iterator
begin

lemma curBag_first:
  "(\<And>b. b \<in> set bids \<Longrightarrow> inv b) \<Longrightarrow> curBag (List.map_filter (firstID ops) bids) = (\<Sum>b \<leftarrow> bids. mset (items b))"
proof (induction bids)
  case (Cons b bids)
  have "mset (items b) = (case firstID ops b of None \<Rightarrow> {#} | Some (v, it) \<Rightarrow> mset (v # remaining it))"
    using Cons.prems [of b] next_None next_Some iter_items by (fastforce split: option.splits)
  then show ?case
    using Cons by (auto simp: curBag_def List.map_filter_simps split: option.splits)
qed (simp add: curBag_def List.map_filter_simps)

lemma first_sorted:
  assumes "\<And>b. b \<in> set bids \<Longrightarrow> inv b"
  shows "\<forall>(v, it) \<in> set (List.map_filter (firstID ops) bids). sorted (v # remaining it)"
proof -
  have "sorted (v # remaining it)" if "b \<in> set bids" "firstID ops b = Some (v, it)" for b v it
    using next_Some [OF that(2)] assms [OF that(1)] iter_items items_sorted by metis
  then show ?thesis by (auto simp: List.map_filter_def)
qed

lemma AddHelperSet_addAll:
  assumes "\<And>b. b \<in> set bids \<Longrightarrow> inv b"
  obtains zs where "sorted zs" "mset zs = (\<Sum>b \<leftarrow> bids. mset (items b))"
    "AddHelperSet ops ad ed bids = Some (bind_res (addAll ops ad ed zs (-1) (NewBid ops)) (\<lambda>(la', ret'). Inr ret'))"
proof -
  obtain zs where "sorted zs" "mset zs = curBag (List.map_filter (firstID ops) bids)"
    "addSetLoop ops ad ed (List.map_filter (firstID ops) bids) (-1) (NewBid ops) =
       Some (bind_res (addAll ops ad ed zs (-1) (NewBid ops)) (\<lambda>(la', ret'). Inr ret'))"
    using addSetLoop_spec first_sorted assms by blast
  then show thesis using that curBag_first assms by (metis AddHelperSet_def)
qed

lemma hasNewBothLoop_spec:
  "sorted (curItems cur1) \<Longrightarrow> sorted (curItems cur2) \<Longrightarrow> sorted (curItems cur3) \<Longrightarrow>
   \<exists>r. hasNewBothLoop ops cur1 cur2 cur3 = Some r \<and>
     (\<not> set (curItems cur3) \<subseteq> set (curItems cur1) \<union> set (curItems cur2) \<longrightarrow> r)"
proof (induction "length (curItems cur1) + length (curItems cur2) + length (curItems cur3)"
    arbitrary: cur1 cur2 cur3 rule: less_induct)
  case less
  let ?X = "set (curItems cur1)" and ?Y = "set (curItems cur2)" and ?Z = "set (curItems cur3)"
  show ?case
  proof (cases cur3)
    case None
    then show ?thesis by (subst hasNewBothLoop.simps) (auto intro: exI [of _ False])
  next
    case (Some p)
    obtain v3 it3 where c3: "cur3 = Some (v3, it3)" using Some by (cases p) auto
    consider "(cur1 = None \<and> cur2 = None) \<or> (past v3 cur1 \<and> past v3 cur2)"
      | (b1) "\<not> (past v3 cur1 \<and> past v3 cur2)" "before v3 cur1"
      | (b2) "\<not> (past v3 cur1 \<and> past v3 cur2)" "\<not> before v3 cur1" "before v3 cur2"
      | (eq) "\<not> (past v3 cur1 \<and> past v3 cur2)" "\<not> before v3 cur1" "\<not> before v3 cur2"
      by blast
    then show ?thesis
    proof cases
      case 1
      then show ?thesis using c3 by (subst hasNewBothLoop.simps) auto
    next
      case b1
      then obtain v it where c1: "cur1 = Some (v, it)" "v < v3" by (auto simp: before_def split: option.splits)
      then obtain r where "hasNewBothLoop ops (NextID ops it) cur2 cur3 = Some r" "\<not> ?Z \<subseteq> set (remaining it) \<union> ?Y \<longrightarrow> r"
        using less.hyps [of "NextID ops it" cur2 cur3] less.prems by auto
      then show ?thesis using b1 c1 c3 by (subst hasNewBothLoop.simps) (auto simp: advance_def)
    next
      case b2
      then obtain v it where c2: "cur2 = Some (v, it)" "v < v3" by (auto simp: before_def split: option.splits)
      then obtain r where "hasNewBothLoop ops cur1 (NextID ops it) cur3 = Some r" "\<not> ?Z \<subseteq> ?X \<union> set (remaining it) \<longrightarrow> r"
        using less.hyps [of cur1 "NextID ops it" cur3] less.prems by auto
      then show ?thesis using b2 c2 c3 by (subst hasNewBothLoop.simps) (auto simp: advance_def)
    next
      case eq
      obtain d1 where d1: "skipHead ops cur1 = Some d1" "curItems d1 = dropWhile (\<lambda>x. x = hd (curItems cur1)) (curItems cur1)"
        using skipHead_spec by blast
      obtain d2 where d2: "skipHead ops cur2 = Some d2" "curItems d2 = dropWhile (\<lambda>x. x = hd (curItems cur2)) (curItems cur2)"
        using skipHead_spec by blast
      obtain d3 where d3: "skipHead ops cur3 = Some d3" "curItems d3 = dropWhile (\<lambda>x. x = hd (curItems cur3)) (curItems cur3)"
        using skipHead_spec by blast
      have v3: "v3 \<in> ?X \<union> ?Y"
        using eq by (auto simp: past_def before_def split: option.splits)
      have z: "set (curItems d3) = ?Z - {v3}"
        unfolding d3(2) using less.prems(3) c3 by (auto intro!: set_dropWhile_eq)
      have l: "length (curItems d3) < length (curItems cur3)"
        unfolding d3(2) using c3 length_dropWhile_Cons [of "\<lambda>x. x = v3" v3 "remaining it3"] by simp
      have "length (curItems d1) \<le> length (curItems cur1)" "length (curItems d2) \<le> length (curItems cur2)"
        unfolding d1(2) d2(2) by (rule length_dropWhile_le)+
      with l have lt: "length (curItems d1) + length (curItems d2) + length (curItems d3) <
        length (curItems cur1) + length (curItems cur2) + length (curItems cur3)" by linarith
      have "sorted (curItems d1)" "sorted (curItems d2)" "sorted (curItems d3)"
        unfolding d1(2) d2(2) d3(2) using less.prems by simp_all
      from less.hyps [OF lt this] obtain r where r: "hasNewBothLoop ops d1 d2 d3 = Some r"
        "\<not> set (curItems d3) \<subseteq> set (curItems d1) \<union> set (curItems d2) \<longrightarrow> r" by blast
      have "set (curItems d1) \<subseteq> ?X" "set (curItems d2) \<subseteq> ?Y"
        unfolding d1(2) d2(2) using set_dropWhileD by fastforce+
      with r z v3 eq c3 d1(1) d2(1) d3(1) show ?thesis by (subst hasNewBothLoop.simps) auto
    qed
  qed
qed

lemma HasNewItemsBothHelper_spec:
  assumes "inv b1" "inv b2" "inv b3"
  obtains r where "HasNewItemsBothHelper ops b1 b2 b3 = Some r"
    "\<not> set (items b3) \<subseteq> set (items b1) \<union> set (items b2) \<Longrightarrow> r"
  using hasNewBothLoop_spec [of "firstID ops b1" "firstID ops b2" "firstID ops b3"] assms
  by (auto simp: HasNewItemsBothHelper_def iter_items items_sorted)

lemma findLoop_diverges: "nxt \<noteq> v \<Longrightarrow> findLoop ops v (Some (nxt, it)) = None"
proof (rule ccontr)
  assume ne: "nxt \<noteq> v" and "findLoop ops v (Some (nxt, it)) \<noteq> None"
  then obtain y where y: "findLoop ops v (Some (nxt, it)) = Some y" by auto
  have "case cur of None \<Rightarrow> True | Some (n, _) \<Rightarrow> n = v" if "findLoop ops v cur = Some y" for cur y
  proof (rule findLoop.raw_induct [where P = "\<lambda>ops v cur y. case cur of None \<Rightarrow> True | Some (n, _) \<Rightarrow> n = v", OF _ that])
    fix findLoop :: "('b, 'it) bid_ops \<Rightarrow> int \<Rightarrow> (int \<times> 'it) option \<Rightarrow> bool option" and ops v cur y
    assume IH: "\<And>ops v cur y. findLoop ops v cur = Some y \<Longrightarrow> case cur of None \<Rightarrow> True | Some (n, _) \<Rightarrow> n = v"
      and step: "(case cur of None \<Rightarrow> Some False | Some (nxt, it) \<Rightarrow> if nxt = v then Some True else findLoop ops v cur) = Some y"
    show "case cur of None \<Rightarrow> True | Some (n, _) \<Rightarrow> n = v"
    proof (cases "findLoop ops v cur = Some y")
      case True
      then show ?thesis by (rule IH)
    next
      case False
      then show ?thesis using step by (auto split: option.splits if_splits)
    qed
  qed
  from this [OF y] ne show False by simp
qed

lemma findHepler_spec:
  assumes "inv b"
  shows "findHepler ops v b =
    (case items b of [] \<Rightarrow> Some False | x # xs \<Rightarrow> if x = v then Some True else None)"
proof (cases "firstID ops b")
  case None
  then show ?thesis using next_None [OF None] iter_items [OF assms]
    by (simp add: findHepler_def) (subst findLoop.simps, simp)
next
  case (Some p)
  obtain x it where p: "p = (x, it)" by (cases p)
  then have "items b = x # remaining it" using next_Some Some iter_items [OF assms] by simp
  then show ?thesis
    using Some p findLoop_diverges [of x v it] by (cases "x = v") (simp_all add: findHepler_def, subst findLoop.simps, simp)
qed

end

context bid_builder
begin

lemma AddHelperSet_spec:
  assumes bids: "\<And>b. b \<in> set bids \<Longrightarrow> inv b"
  shows "dups (\<Sum>b \<leftarrow> bids. length (items b)) \<Longrightarrow> \<exists>ret. AddHelperSet ops True False bids = Some (Inr ret) \<and> build ret \<and>
      mset (items ret) = (\<Sum>b \<leftarrow> bids. mset (items b))"
    and "\<exists>ret. AddHelperSet ops False False bids = Some (Inr ret) \<and> build ret \<and>
      items ret = sorted_list_of_set (\<Union>b \<in> set bids. set (items b))"
proof -
  have zset: "set zs = (\<Union>b \<in> set bids. set (items b))" if "mset zs = (\<Sum>b \<leftarrow> bids. mset (items b))" for zs
  proof -
    have "set_mset (\<Sum>b \<leftarrow> bids. mset (items b)) = (\<Union>b \<in> set bids. set (items b))" by (induction bids) auto
    then show ?thesis using that by (metis set_mset_mset)
  qed
  have zint: "goInt x" if "mset zs = (\<Sum>b \<leftarrow> bids. mset (items b))" "x \<in> set zs" for zs x
    using zset [OF that(1)] that(2) bids items_int by auto
  show "\<exists>ret. AddHelperSet ops True False bids = Some (Inr ret) \<and> build ret \<and>
      mset (items ret) = (\<Sum>b \<leftarrow> bids. mset (items b))" if "dups (\<Sum>b \<leftarrow> bids. length (items b))"
  proof -
    obtain zs where zs: "sorted zs" "mset zs = (\<Sum>b \<leftarrow> bids. mset (items b))"
      "AddHelperSet ops True False bids = Some (bind_res (addAll ops True False zs (-1) (NewBid ops)) (\<lambda>(la', ret'). Inr ret'))"
      using AddHelperSet_addAll [OF bids] .
    have "size (\<Sum>b \<leftarrow> bids. mset (items b)) = (\<Sum>b \<leftarrow> bids. length (items b))" by (induction bids) simp_all
    then have "length zs = (\<Sum>b \<leftarrow> bids. length (items b))" using zs(2) by (metis size_mset)
    then have "appendable (NewBid ops) zs" unfolding appendable_def using that zs zint new_inv by simp
    from addAll_dups [OF this, of "-1"] zs new_inv show ?thesis by auto
  qed
  show "\<exists>ret. AddHelperSet ops False False bids = Some (Inr ret) \<and> build ret \<and>
      items ret = sorted_list_of_set (\<Union>b \<in> set bids. set (items b))"
  proof -
    obtain zs where zs: "sorted zs" "mset zs = (\<Sum>b \<leftarrow> bids. mset (items b))"
      "AddHelperSet ops False False bids = Some (bind_res (addAll ops False False zs (-1) (NewBid ops)) (\<lambda>(la', ret'). Inr ret'))"
      using AddHelperSet_addAll [OF bids] .
    have "building (NewBid ops) (-1) zs" using building_new(2) [of 0 zs] zint [OF zs(2)] by simp
    from addAll_nodups [OF zs(1) this] obtain la' ret' where r: "addAll ops False False zs (-1) (NewBid ops) = Inr (la', ret')"
      "building ret' la' []" "set (items ret') = set zs" using new_inv by auto
    then have "build ret'" "items ret' = sorted_list_of_set (\<Union>b \<in> set bids. set (items b))"
      using sorted_wrt_less_unique [of "items ret'"] zset [OF zs(2)] by (simp_all add: building_def)
    with r(1) zs(3) show ?thesis by auto
  qed
qed

end

end
