(* ===== verification/Bits.thy ===== *)
theory Bits
  imports Prelude
begin

text \<open>
  Byte slices as strings of bits, least significant bit of the first byte first, with the functions of Go's
  \<^verbatim>\<open>math/bits\<close> that the bit identifiers use. \<^verbatim>\<open>src/consensus/auth/bitid/pbitid.go\<close> and
  \<^verbatim>\<open>src/consensus/auth/bitid/bitid.go\<close> store their items in this form.
\<close>

unbundle bit_operations_syntax

section \<open>\<^verbatim>\<open>math/bits\<close>\<close>

definition TrailingZeros8 :: "byte \<Rightarrow> nat" where
  "TrailingZeros8 b = length (takeWhile (\<lambda>i. \<not> bit b i) [0..<8])"

definition LeadingZeros8 :: "byte \<Rightarrow> nat" where
  "LeadingZeros8 b = length (takeWhile (\<lambda>i. \<not> bit b i) (rev [0..<8]))"

definition OnesCount8 :: "byte \<Rightarrow> nat" where
  "OnesCount8 b = length (filter (bit b) [0..<8])"

section \<open>Bits of a buffer\<close>

definition bits_of :: "byte list \<Rightarrow> bool list" where
  "bits_of buff = concat (map (\<lambda>b. map (bit b) [0..<8]) buff)"

lemma bits_of_simps [simp]:
  "bits_of [] = []" "bits_of (b # bs) = map (bit b) [0..<8] @ bits_of bs" "bits_of (xs @ ys) = bits_of xs @ bits_of ys"
  by (simp_all add: bits_of_def del: upt_Suc)

lemma length_bits_of [simp]: "length (bits_of buff) = 8 * length buff"
  by (induction buff) simp_all

lemma nth_bits_of: "i < 8 * length buff \<Longrightarrow> bits_of buff ! i = bit (buff ! (i div 8)) (i mod 8)"
proof (induction buff arbitrary: i)
  case (Cons b bs)
  show ?case
  proof (cases "i < 8")
    case True
    then show ?thesis by (simp add: nth_append del: upt_Suc)
  next
    case False
    then have "i div 8 = Suc ((i - 8) div 8)" "i mod 8 = (i - 8) mod 8" by (simp_all add: le_div_geq le_mod_geq)
    then show ?thesis using False Cons by (simp add: nth_append del: upt_Suc)
  qed
qed simp

lemma bits_of_zero [simp]: "bits_of (replicate n 0) = replicate (8 * n) False"
  by (rule nth_equalityI) (simp_all add: nth_bits_of less_mult_imp_div_less mult.commute)

lemma bits_of_set:
  assumes "i < 8 * length buff"
  shows "bits_of (buff[i div 8 := push_bit (i mod 8) 1 OR buff ! (i div 8)]) = (bits_of buff)[i := True]"
proof (rule nth_equalityI)
  fix k
  assume "k < length (bits_of (buff[i div 8 := push_bit (i mod 8) 1 OR buff ! (i div 8)]))"
  then have k: "k < 8 * length buff" "k mod 8 < 8" by simp_all
  have bit: "bit (push_bit (i mod 8) (1 :: byte)) n \<longleftrightarrow> n = i mod 8" if "n < 8" for n
    using that by (auto simp: bit_exp_iff)
  have eq: "k = i \<longleftrightarrow> k div 8 = i div 8 \<and> k mod 8 = i mod 8" by (metis div_mult_mod_eq)
  let ?b = "buff[i div 8 := push_bit (i mod 8) 1 OR buff ! (i div 8)]"
  have l: "k div 8 < length buff" using k by simp
  have "bits_of ?b ! k = bit (?b ! (k div 8)) (k mod 8)" using k(1) by (simp only: nth_bits_of length_list_update)
  also have "\<dots> \<longleftrightarrow> k div 8 = i div 8 \<and> k mod 8 = i mod 8 \<or> bit (buff ! (k div 8)) (k mod 8)"
    using l bit [OF k(2)] by (cases "k div 8 = i div 8") (simp_all add: bit_or_iff)
  also have "\<dots> \<longleftrightarrow> (bits_of buff)[i := True] ! k"
    unfolding eq [symmetric] using nth_bits_of [OF k(1)] k(1) by (cases "k = i") simp_all
  finally show "bits_of ?b ! k = (bits_of buff)[i := True] ! k" .
qed simp

lemma and_bit_iff: "i < 8 \<Longrightarrow> (b AND push_bit i 1 :: byte) \<noteq> 0 \<longleftrightarrow> bit b i"
proof -
  assume i: "i < 8"
  have n: "bit (b AND push_bit i 1) n \<longleftrightarrow> bit b i \<and> n = i" for n
    using i by (cases "n = i") (simp_all add: bit_and_iff bit_exp_iff)
  show ?thesis
  proof
    assume "b AND push_bit i 1 \<noteq> 0"
    then obtain k where "bit (b AND push_bit i 1) k" by (metis bit_0_eq bit_eqI bot_apply bot_bool_def)
    then show "bit b i" using n by blast
  next
    assume "bit b i"
    then have "bit (b AND push_bit i 1) i" using n by blast
    then show "b AND push_bit i 1 \<noteq> 0" by (metis bit_0_eq bot_apply bot_bool_def)
  qed
qed

end
