(* ===== verification/BitID.thy ===== *)
theory BitID
  imports BitIDHelpers Uvarint Bits SortedSlices Numbers
begin

text \<open>
  The bit identifier stored as a bitmap, \<^verbatim>\<open>src/consensus/auth/bitid/bitid.go\<close>. In the code \<^verbatim>\<open>Buff\<close> is the
  slice \<^verbatim>\<open>encodeBuff[1:]\<close>; the model keeps both and a write to one is a write to the other. The lists and counts
  that the code computes lazily are fields of the state, and an operation that fills them returns the new state.
\<close>

section \<open>Data\<close>

record BitID =
  Buff :: "byte list"
  encodeBuff :: "byte list"
  bi_str :: "byte list"
  itemList :: "int list option"
  bi_numItems :: int
  bi_min :: int
  bi_max :: int

record BitIDIterator =
  bit_bid :: BitID
  bit_iterIdx :: nat

text \<open>The codes of \<^verbatim>\<open>types.BitIDBasic\<close> and \<^verbatim>\<open>types.BitIDSingle\<close>.\<close>

abbreviation BitIDBasic :: byte where "BitIDBasic \<equiv> 5"
abbreviation BitIDSingle :: byte where "BitIDSingle \<equiv> 6"

text \<open>The value \<^verbatim>\<open>&BitID{}\<close>, and the one that \<^verbatim>\<open>New\<close> returns.\<close>

definition emptyBitID :: BitID where
  "emptyBitID = \<lparr>Buff = [], encodeBuff = [], bi_str = [], itemList = None, bi_numItems = 0, bi_min = 0, bi_max = 0\<rparr>"

definition BitNew :: BitID where
  "BitNew = emptyBitID\<lparr>bi_numItems := -1\<rparr>"

text \<open>\<^verbatim>\<open>&BitID{Buff: encBuff[1:], encodeBuff: encBuff, numItems: -1}\<close> after trimming, with the code of a bitmap first.\<close>

definition newSingle :: "byte list \<Rightarrow> BitID" where
  "newSingle buff =
     (let encBuff = TrimZeros (BitIDSingle # buff) 1
      in emptyBitID\<lparr>Buff := tl encBuff, encodeBuff := encBuff, bi_numItems := -1\<rparr>)"

section \<open>Counting and listing\<close>

text \<open>The loop of \<^verbatim>\<open>get1Count\<close>; the state is \<^verbatim>\<open>foundMin\<close>, \<^verbatim>\<open>min\<close>, \<^verbatim>\<open>max\<close> and \<^verbatim>\<open>count\<close>.\<close>

fun get1CountLoop :: "byte list \<Rightarrow> int \<Rightarrow> bool \<Rightarrow> int \<Rightarrow> int \<Rightarrow> int \<Rightarrow> int \<times> int \<times> int" where
  "get1CountLoop [] i foundMin mn mx cnt = (mn, mx, cnt)"
| "get1CountLoop (b # buff) i foundMin mn mx cnt =
     (let z = TrailingZeros8 b;
          found = (\<not> foundMin \<and> z < 8);
          mn1 = (if found then i * 8 + int z else mn);
          z1 = LeadingZeros8 b;
          mx1 = (if z1 < 8 then i * 8 + (7 - int z1) else mx)
      in get1CountLoop buff (i + 1) (foundMin \<or> found) mn1 mx1 (cnt + int (OnesCount8 b)))"

definition get1Count :: "byte list \<Rightarrow> int \<times> int \<times> int" where
  "get1Count buff = get1CountLoop buff 0 False 0 0 0"

definition GetNumItems :: "BitID \<Rightarrow> int \<times> BitID" where
  "GetNumItems bid =
     (let bid1 = (if bi_numItems bid = -1
                  then (case get1Count (Buff bid) of (mn, mx, cnt) \<Rightarrow> bid\<lparr>bi_min := mn, bi_max := mx, bi_numItems := cnt\<rparr>)
                  else bid)
      in (bi_numItems bid1, bid1))"

definition BitGetBasicInfo :: "BitID \<Rightarrow> (int \<times> int \<times> int \<times> int) \<times> BitID" where
  "BitGetBasicInfo bid =
     (let bid1 = snd (GetNumItems bid) in ((bi_min bid1, bi_max bid1, bi_numItems bid1, bi_numItems bid1), bid1))"

text \<open>The tests of the eight bits of a byte, as \<^verbatim>\<open>GetItemList\<close> and \<^verbatim>\<open>innerAddLoop\<close> do them.\<close>

definition innerAddLoop :: "int \<Rightarrow> byte \<Rightarrow> int list \<Rightarrow> int list" where
  "innerAddLoop i b itemsList =
     fold (\<lambda>k l. if b AND push_bit k 1 > 0 then l @ [i * 8 + int k] else l) [0..<8] itemsList"

fun itemListLoop :: "byte list \<Rightarrow> int \<Rightarrow> int list \<Rightarrow> int list" where
  "itemListLoop [] i items = items"
| "itemListLoop (nxt # arr) i items = itemListLoop arr (i + 1) (if nxt = 0 then items else innerAddLoop i nxt items)"

definition GetItemList :: "BitID \<Rightarrow> int list \<times> BitID" where
  "GetItemList bid =
     (case itemList bid of Some l \<Rightarrow> (l, bid)
      | None \<Rightarrow>
          (let bid1 = snd (GetNumItems bid); items = itemListLoop (Buff bid) 0 []
           in (items, bid1\<lparr>itemList := Some items, bi_numItems := int (length items)\<rparr>)))"

function BitNextLoop :: "byte list \<Rightarrow> nat \<Rightarrow> (int \<times> nat) option" where
  "BitNextLoop buff idx =
     (if idx div 8 \<ge> length buff then None
      else if push_bit (idx mod 8) 1 AND buff ! (idx div 8) = 0 then BitNextLoop buff (idx + 1)
      else Some (int idx, idx + 1))"
  by pat_completeness auto
termination
  by (relation "measure (\<lambda>(buff, idx). 8 * length buff - idx)") auto

declare BitNextLoop.simps [simp del]

definition BitNextID :: "BitIDIterator \<Rightarrow> (int \<times> BitIDIterator) option" where
  "BitNextID iter =
     (case BitNextLoop (Buff (bit_bid iter)) (bit_iterIdx iter) of None \<Rightarrow> None
      | Some (nxt, idx) \<Rightarrow> Some (nxt, iter\<lparr>bit_iterIdx := idx\<rparr>))"

definition BitNewIterator :: "BitID \<Rightarrow> BitIDIterator" where
  "BitNewIterator bid = \<lparr>bit_bid = bid, bit_iterIdx = 0\<rparr>"

section \<open>Membership and insertion\<close>

definition BitCheckBitID :: "int \<Rightarrow> BitID \<Rightarrow> bool res" where
  "BitCheckBitID ID bid =
     (if ID < 0 then (if ID > -8 \<and> Buff bid = [] then Inr False else Inl (Panic ''invalid mod''))
      else
        (let idx = nat ID div 8
         in if idx \<ge> length (Buff bid) then Inr False
            else Inr (Buff bid ! idx AND push_bit (nat ID mod 8) 1 > 0)))"

definition AddBitID :: "int \<Rightarrow> bool \<Rightarrow> BitID \<Rightarrow> (bool \<times> BitID) res" where
  "AddBitID ID allowDup bid =
     (if allowDup then Inl (Panic ''single bitid cant be used with duplicates'')
      else bind_res (BitCheckBitID ID bid) (\<lambda>found.
        if found then Inr (False, bid)
        else if ID < 0 then Inl (Panic ''bad mod'')
        else
          (let idx = nat ID div 8;
               bid1 = (if idx \<ge> length (Buff bid)
                       then (let enc = encodeBuff bid @ replicate (idx + 6 - length (Buff bid)) 0
                             in bid\<lparr>encodeBuff := enc, Buff := tl enc\<rparr>)
                       else bid);
               b = Buff bid1 ! idx OR push_bit (nat ID mod 8) 1;
               bid2 = bid1\<lparr>bi_str := [], Buff := (Buff bid1)[idx := b], encodeBuff := (encodeBuff bid1)[idx + 1 := b]\<rparr>
           in bind_res (case itemList bid2 of None \<Rightarrow> Inr None
                        | Some l \<Rightarrow> bind_res (InsertInSortedSlice l ID 0) (\<lambda>(l', _). Inr (Some l'))) (\<lambda>l.
                let bid3 = bid2\<lparr>itemList := l\<rparr>
                in Inr (True,
                     if bi_numItems bid3 \<noteq> -1
                     then bid3\<lparr>bi_numItems := bi_numItems bid3 + 1, bi_min := (if bi_min bid3 > ID then ID else bi_min bid3),
                               bi_max := (if bi_max bid3 < ID then ID else bi_max bid3)\<rparr>
                     else bid3)))))"

text \<open>
  Go's division rounds towards zero. For \<^verbatim>\<open>v\<close> of -16 or less the code panics; the helpers pass an item or a number of
  items, which is not negative.
\<close>

definition BitSetInitialSize :: "int \<Rightarrow> BitID \<Rightarrow> BitID" where
  "BitSetInitialSize v bid =
     (let q = (if v < 0 then - (- v div 8) else v div 8); enc = replicate (nat (q + 1 + 1)) 0 in bid\<lparr>encodeBuff := enc, Buff := tl enc\<rparr>)"

definition BitAppendItem :: "int \<Rightarrow> BitID \<Rightarrow> BitID res" where
  "BitAppendItem v bid = bind_res (AddBitID v False bid) (\<lambda>(_, bid1). Inr bid1)"

definition BitMakeCopy :: "BitID \<Rightarrow> BitID \<times> BitID" where
  "BitMakeCopy bid =
     (let (n, bid1) = GetNumItems bid
      in (if n = 0 then emptyBitID else bid1\<lparr>Buff := tl (encodeBuff bid1), itemList := None\<rparr>, bid1))"

definition bitid_ops :: "(BitID, BitIDIterator) bid_ops" where
  "bitid_ops = \<lparr>NewBid = BitNew, SetInitialSize = BitSetInitialSize, AppendItem = BitAppendItem,
     NewIterator = BitNewIterator, NextID = BitNextID, GetBasicInfo = \<lambda>bid. fst (BitGetBasicInfo bid)\<rparr>"

section \<open>Set operations\<close>

definition maxBuffLen :: "BitID list \<Rightarrow> nat" where
  "maxBuffLen bList = fold (\<lambda>bid m. if m < length (Buff bid) then length (Buff bid) else m) bList 0"

definition MergeBitIDList :: "BitID list \<Rightarrow> BitID" where
  "MergeBitIDList bList =
     newSingle (map (\<lambda>i. fold (\<lambda>bid b. if i < length (Buff bid) then b OR Buff bid ! i else b) bList 0) [0..<maxBuffLen bList])"

definition BitGetNewItems :: "BitID \<Rightarrow> BitID \<Rightarrow> BitID" where
  "BitGetNewItems bid bid2 =
     (let n = max (length (Buff bid)) (length (Buff bid2)); stop = min (length (Buff bid)) (length (Buff bid2))
      in newSingle (map (\<lambda>i. if i < stop then (Buff bid ! i XOR Buff bid2 ! i) AND Buff bid2 ! i
                             else if i < length (Buff bid2) then Buff bid2 ! i else 0) [0..<n]))"

definition MergeBitID :: "BitID \<Rightarrow> BitID \<Rightarrow> BitID" where
  "MergeBitID bid1 bid2 =
     (let (longBid, shortBid) = (if length (Buff bid1) > length (Buff bid2) then (Buff bid1, Buff bid2) else (Buff bid2, Buff bid1))
      in newSingle (map (\<lambda>i. if i < length shortBid then shortBid ! i OR longBid ! i else longBid ! i) [0..<length longBid]))"

definition SubBitID :: "BitID \<Rightarrow> BitID \<Rightarrow> BitID" where
  "SubBitID bid1 bid2 =
     newSingle (map (\<lambda>i. if i < min (length (Buff bid1)) (length (Buff bid2))
                         then (Buff bid2 ! i AND Buff bid1 ! i) XOR Buff bid1 ! i else Buff bid1 ! i) [0..<length (Buff bid1)])"

definition HasNewItems :: "BitID \<Rightarrow> BitID \<Rightarrow> bool" where
  "HasNewItems bid other =
     (let stop = min (length (Buff bid)) (length (Buff other))
      in (\<exists>i \<in> set [0..<stop]. length (innerAddLoop (int i) ((Buff bid ! i AND Buff other ! i) XOR Buff other ! i) []) > 0) \<or>
         (\<exists>i \<in> set [stop..<length (Buff other)]. length (innerAddLoop (int i) (Buff other ! i) []) > 0))"

definition HasIntersection :: "BitID \<Rightarrow> BitID \<Rightarrow> bool" where
  "HasIntersection bid other =
     (\<exists>i \<in> set [0..<min (length (Buff bid)) (length (Buff other))].
        length (innerAddLoop (int i) (Buff bid ! i AND Buff other ! i) []) > 0)"

definition CheckIntersection :: "BitID \<Rightarrow> BitID \<Rightarrow> int list" where
  "CheckIntersection bid other =
     fold (\<lambda>i l. innerAddLoop (int i) (Buff bid ! i AND Buff other ! i) l) [0..<min (length (Buff bid)) (length (Buff other))] []"

section \<open>Construction and encoding\<close>

text \<open>The inner loop of \<^verbatim>\<open>fromInts\<close>: the items up to \<open>i\<close>; the state is the rest of the items, \<^verbatim>\<open>prv\<close> and \<^verbatim>\<open>cur\<close>.\<close>

fun fromIntsByte :: "int list \<Rightarrow> int \<Rightarrow> int \<Rightarrow> byte \<Rightarrow> (int list \<times> int \<times> byte) res" where
  "fromIntsByte [] i prv cur = Inr ([], prv, cur)"
| "fromIntsByte (nxt # items) i prv cur =
     (if nxt > i then Inr (nxt # items, prv, cur)
      else if nxt < 0 then Inl ErrUnsortedBitID
      else if nxt = prv then fromIntsByte items i prv cur
      else if nxt < prv then Inl ErrUnsortedBitID
      else fromIntsByte items i nxt (cur + push_bit (nat nxt mod 8) 1))"

fun fromIntsBytes :: "nat \<Rightarrow> int list \<Rightarrow> int \<Rightarrow> int \<Rightarrow> byte list \<Rightarrow> byte list res" where
  "fromIntsBytes 0 items i prv ret = Inr ret"
| "fromIntsBytes (Suc n) items i prv ret =
     bind_res (fromIntsByte items i prv 0) (\<lambda>(items1, prv1, cur). fromIntsBytes n items1 (i + 8) prv1 (ret @ [cur]))"

definition fromInts :: "int list \<Rightarrow> BitID \<Rightarrow> BitID res" where
  "fromInts items bid =
     (if items = [] then Inr (bid\<lparr>encodeBuff := [BitIDBasic], bi_numItems := -1\<rparr>)
      else if last items < 0 \<or> last items \<ge> 2 ^ 15 - 1 then Inl ErrUnsortedBitID
      else bind_res (fromIntsBytes (nat (last items) div 8 + 1) items 7 (-1) []) (\<lambda>ret.
             Inr (bid\<lparr>Buff := ret, bi_numItems := int (length items), bi_min := hd items, bi_max := last items,
                      encodeBuff := BitIDSingle # ret, itemList := Some items\<rparr>)))"

definition CreateBitIDFromInts :: "int list \<Rightarrow> BitID res" where
  "CreateBitIDFromInts items = fromInts items emptyBitID"

definition CreateBitIDFromBytes :: "byte list \<Rightarrow> BitID res" where
  "CreateBitIDFromBytes arr = (if length arr \<ge> (2 ^ 15 - 1) div 8 then Inl ErrTooLargeBitID else Inr (newSingle arr))"

definition DoEncode :: "BitID \<Rightarrow> byte list \<times> BitID" where
  "DoEncode bid =
     (let (n, bid1) = GetNumItems bid
      in if int (length (Buff bid1)) \<le> n * 4 then (encodeBuff bid1, bid1)
         else (let (l, bid2) = GetItemList bid1
               in (BitIDBasic # concat (map (\<lambda>nxt. PutUvarint (of_int nxt)) l), bid2)))"

text \<open>\<^verbatim>\<open>binary.Uvarint\<close>: the value and the number of bytes, 0 for a short input, negative for an overflow.\<close>

fun uvarintLoop :: "byte list \<Rightarrow> uint64 \<Rightarrow> nat \<Rightarrow> nat \<Rightarrow> uint64 \<times> int" where
  "uvarintLoop [] x s i = (0, 0)"
| "uvarintLoop (b # buf) x s i =
     (if b < 128 then
        (if i > 9 \<or> (i = 9 \<and> b > 1) then (0, - int (i + 1)) else (x OR push_bit s (ucast b), int (i + 1)))
      else uvarintLoop buf (x OR push_bit s (ucast (b AND 127))) (s + 7) (i + 1))"

definition Uvarint_go :: "byte list \<Rightarrow> uint64 \<times> int" where
  "Uvarint_go buf = uvarintLoop buf 0 0 0"

lemma uvarintLoop_nonpos: "snd (uvarintLoop buf x s i) \<le> 0 \<Longrightarrow> fst (uvarintLoop buf x s i) = 0"
  by (induction buf x s i rule: uvarintLoop.induct) (auto split: if_splits)

text \<open>The loop of \<^verbatim>\<open>doDecode\<close> for a list of varints. A negative \<^verbatim>\<open>pos\<close> makes the slice expression panic.\<close>

function decodeBasicLoop :: "byte list \<Rightarrow> int \<Rightarrow> int \<Rightarrow> int list \<Rightarrow> int list res" where
  "decodeBasicLoop buff pos prv l =
     (if pos < int (length buff) then
        (if pos < 0 then Inl (Panic ''slice bounds out of range'')
         else (case Uvarint_go (drop (nat pos) buff) of (v, n) \<Rightarrow>
                 if sint v < 0 \<or> sint v \<le> prv then Inl ErrUnsortedBitID
                 else decodeBasicLoop buff (pos + n) (sint v) (l @ [sint v])))
      else Inr l)"
  by pat_completeness auto
termination
proof (relation "measures [\<lambda>(buff, pos, prv, l). if prv < 0 then 1 else 0, \<lambda>(buff, pos, prv, l). nat (int (length buff) - pos)]")
  fix buff :: "byte list" and pos prv n :: int and l :: "int list" and v
  assume a: "pos < int (length buff)" "\<not> pos < 0" "(v, n) = Uvarint_go (drop (nat pos) buff)" "\<not> (sint v < 0 \<or> sint v \<le> prv)"
  show "((buff, pos + n, sint v, l @ [sint v]), buff, pos, prv, l)
    \<in> measures [\<lambda>(buff, pos, prv, l). if prv < 0 then 1 else 0, \<lambda>(buff, pos, prv, l). nat (int (length buff) - pos)]"
  proof (cases "n \<le> 0")
    case True
    then have "v = 0" using a(3) uvarintLoop_nonpos [of "drop (nat pos) buff" 0 0 0] by (simp add: Uvarint_go_def prod_eq_iff)
    then show ?thesis using a by auto
  next
    case False
    then show ?thesis using a by auto
  qed
qed simp

declare decodeBasicLoop.simps [simp del]

definition doDecode :: "byte list \<Rightarrow> BitID \<Rightarrow> BitID res" where
  "doDecode buff bid =
     (case buff of [] \<Rightarrow> Inl ErrInvalidBitID
      | t # _ \<Rightarrow>
          if t = BitIDSingle then
            (let enc = TrimZeros buff 1 in Inr (bid\<lparr>Buff := tl enc, encodeBuff := enc, bi_numItems := -1\<rparr>))
          else if t = BitIDBasic then
            bind_res (decodeBasicLoop buff 1 (-1) []) (\<lambda>l. if \<not> sorted l then Inl ErrInvalidBitID else fromInts l bid)
          else Inl ErrInvalidBitID)"

definition DecodeBitID :: "byte list \<Rightarrow> BitID res" where
  "DecodeBitID buff = doDecode buff emptyBitID"

definition BitEncode :: "BitID \<Rightarrow> byte list \<times> BitID" where
  "BitEncode bid = (case DoEncode bid of (enc, bid1) \<Rightarrow> (EncodeHelper enc, bid1))"

definition BitDecode :: "byte list \<Rightarrow> BitID \<Rightarrow> (nat \<times> BitID \<times> byte list) res" where
  "BitDecode r bid =
     bind_res (DecodeHelper r) (\<lambda>(n, buff, r1). bind_res (doDecode buff bid) (\<lambda>bid1. Inr (n, bid1, r1)))"

definition BitGetStr :: "BitID \<Rightarrow> byte list \<times> BitID" where
  "BitGetStr bid =
     (if bi_str bid = [] then (case DoEncode bid of (enc, bid1) \<Rightarrow> (enc, bid1\<lparr>bi_str := enc\<rparr>)) else (bi_str bid, bid))"

section \<open>The items of a bitmap\<close>

definition byteItems :: "int \<Rightarrow> byte \<Rightarrow> int list" where
  "byteItems i b = map (\<lambda>k. i * 8 + int k) (filter (bit b) [0..<8])"

fun bitItemsFrom :: "byte list \<Rightarrow> int \<Rightarrow> int list" where
  "bitItemsFrom [] i = []"
| "bitItemsFrom (b # buff) i = byteItems i b @ bitItemsFrom buff (i + 1)"

definition bitItems :: "byte list \<Rightarrow> int list" where
  "bitItems buff = bitItemsFrom buff 0"

definition testBit :: "byte list \<Rightarrow> nat \<Rightarrow> bool" where
  "testBit buff i \<longleftrightarrow> i div 8 < length buff \<and> bit (buff ! (i div 8)) (i mod 8)"

lemma byteItems_zero [simp]: "byteItems i 0 = []"
  by (simp add: byteItems_def)

lemma byteItems_mem: "v \<in> set (byteItems i b) \<longleftrightarrow> i * 8 \<le> v \<and> v < i * 8 + 8 \<and> bit b (nat (v - i * 8))"
proof -
  have "v \<in> set (byteItems i b) \<longleftrightarrow> (\<exists>k < 8. bit b k \<and> v = i * 8 + int k)" by (auto simp: byteItems_def simp del: upt_Suc)
  also have "\<dots> \<longleftrightarrow> i * 8 \<le> v \<and> v < i * 8 + 8 \<and> bit b (nat (v - i * 8))"
    by (auto intro!: exI [of _ "nat (v - i * 8)"])
  finally show ?thesis .
qed

lemma byteItems_sorted: "sorted_wrt (<) (byteItems i b)"
  by (simp add: byteItems_def sorted_wrt_map sorted_wrt_filter sorted_wrt_upt del: upt_Suc)

lemma testBit_Cons: "testBit (b # buff) (n + 8) = testBit buff n"
proof -
  have "(n + 8) div 8 = Suc (n div 8)" "(n + 8) mod 8 = n mod 8" by presburger+
  then show ?thesis by (simp only: testBit_def) simp
qed

lemma bitItemsFrom_mem:
  "v \<in> set (bitItemsFrom buff i) \<longleftrightarrow> i * 8 \<le> v \<and> testBit buff (nat (v - i * 8))"
proof (induction buff arbitrary: i)
  case Nil
  then show ?case by (simp add: testBit_def)
next
  case (Cons b buff)
  show ?case
  proof (cases "v < i * 8 + 8")
    case True
    have "nat (v - i * 8) div 8 = 0" "nat (v - i * 8) mod 8 = nat (v - i * 8)" if "i * 8 \<le> v" using that True by simp_all
    then show ?thesis using True Cons.IH [of "i + 1"] by (auto simp: byteItems_mem testBit_def)
  next
    case False
    then have "nat (v - i * 8) = nat (v - (i + 1) * 8) + 8" by (simp add: algebra_simps)
    then have "testBit (b # buff) (nat (v - i * 8)) = testBit buff (nat (v - (i + 1) * 8))" by (simp only: testBit_Cons)
    then show ?thesis using False Cons.IH [of "i + 1"] by (auto simp: byteItems_mem)
  qed
qed

lemma bitItemsFrom_sorted: "sorted_wrt (<) (bitItemsFrom buff i)"
proof (induction buff arbitrary: i)
  case (Cons b buff)
  have "x < y" if "x \<in> set (byteItems i b)" "y \<in> set (bitItemsFrom buff (i + 1))" for x y
    using that by (simp add: byteItems_mem bitItemsFrom_mem)
  then show ?case using Cons byteItems_sorted by (simp add: sorted_wrt_append)
qed simp

lemma bitItems_mem: "v \<in> set (bitItems buff) \<longleftrightarrow> 0 \<le> v \<and> testBit buff (nat v)"
  using bitItemsFrom_mem [of v buff 0] by (simp add: bitItems_def)

lemma bitItems_sorted: "sorted_wrt (<) (bitItems buff)" "sorted (bitItems buff)" "distinct (bitItems buff)"
  using bitItemsFrom_sorted [of buff 0] by (simp_all add: bitItems_def strict_sorted_iff)

lemma bitItems_unique: "sorted_wrt (<) l \<Longrightarrow> set l = set (bitItems buff) \<Longrightarrow> bitItems buff = l"
  using bitItems_sorted(1) [of buff] by (metis strict_sorted_equal)

lemma bitItems_set: "set (bitItems buff) = A \<Longrightarrow> bitItems buff = sorted_list_of_set A"
  using bitItems_sorted(2,3) [of buff] sorted_list_of_set.idem_if_sorted_distinct by metis

lemma testBit_append_zeros [simp]: "testBit (buff @ replicate k 0) i = testBit buff i"
proof (cases "i div 8 < length buff + k")
  case True
  then show ?thesis by (cases "i div 8 < length buff") (auto simp: testBit_def nth_append)
qed (simp add: testBit_def)

lemma bitItems_append_zeros [simp]: "bitItems (buff @ replicate k 0) = bitItems buff"
  by (rule bitItems_unique [OF bitItems_sorted(1)]) (auto simp: bitItems_mem)

lemma innerAddLoop_eq: "innerAddLoop i b l = l @ byteItems i b"
proof -
  have "fold (\<lambda>k l. if b AND push_bit k 1 > 0 then l @ [i * 8 + int k] else l) ks l =
      l @ map (\<lambda>k. i * 8 + int k) (filter (bit b) ks)" if "\<forall>k \<in> set ks. k < 8" for ks l
    using that
  proof (induction ks arbitrary: l)
    case (Cons k ks)
    have "b AND push_bit k 1 > 0 \<longleftrightarrow> bit b k" using and_bit_iff [of k b] Cons.prems by (simp only: word_gt_0) simp
    then show ?case using Cons by (simp del: push_bit_of_1)
  qed simp
  then show ?thesis unfolding innerAddLoop_def byteItems_def by (simp del: upt_Suc)
qed

lemma itemListLoop_eq: "itemListLoop buff i l = l @ bitItemsFrom buff i"
  by (induction buff arbitrary: i l) (simp_all add: innerAddLoop_eq)

section \<open>Counting\<close>

lemma hd_filter_takeWhile: "filter P xs \<noteq> [] \<Longrightarrow> hd (filter P xs) = xs ! length (takeWhile (\<lambda>x. \<not> P x) xs)"
  by (induction xs) auto

lemma takeWhile_length_iff: "length (takeWhile (\<lambda>x. \<not> P x) xs) < length xs \<longleftrightarrow> filter P xs \<noteq> []"
  by (induction xs) auto

lemma TrailingZeros8_spec: "TrailingZeros8 b < 8 \<longleftrightarrow> byteItems i b \<noteq> []" "byteItems i b \<noteq> [] \<Longrightarrow> hd (byteItems i b) = i * 8 + int (TrailingZeros8 b)"
proof -
  show 1: "TrailingZeros8 b < 8 \<longleftrightarrow> byteItems i b \<noteq> []"
    using takeWhile_length_iff [of "bit b" "[0..<8]"] by (simp add: TrailingZeros8_def byteItems_def del: upt_Suc)
  show "byteItems i b \<noteq> [] \<Longrightarrow> hd (byteItems i b) = i * 8 + int (TrailingZeros8 b)"
    using 1 hd_filter_takeWhile [of "bit b" "[0..<8]"] by (simp add: TrailingZeros8_def byteItems_def hd_map del: upt_Suc)
qed

lemma LeadingZeros8_spec: "LeadingZeros8 b < 8 \<longleftrightarrow> byteItems i b \<noteq> []" "byteItems i b \<noteq> [] \<Longrightarrow> last (byteItems i b) = i * 8 + (7 - int (LeadingZeros8 b))"
proof -
  have ne: "filter (bit b) (rev [0..<8]) \<noteq> [] \<longleftrightarrow> byteItems i b \<noteq> []" by (simp add: byteItems_def filter_empty_conv del: upt_Suc)
  show 1: "LeadingZeros8 b < 8 \<longleftrightarrow> byteItems i b \<noteq> []"
    using takeWhile_length_iff [of "bit b" "rev [0..<8]"] ne by (simp add: LeadingZeros8_def del: upt_Suc)
  assume b: "byteItems i b \<noteq> []"
  have "last (filter (bit b) [0..<8]) = hd (filter (bit b) (rev [0..<8]))" by (simp add: hd_rev rev_filter [symmetric] del: upt_Suc)
  also have "\<dots> = rev [0..<8] ! LeadingZeros8 b" using hd_filter_takeWhile [of "bit b" "rev [0..<8]"] b ne by (simp add: LeadingZeros8_def del: upt_Suc)
  also have "\<dots> = 7 - LeadingZeros8 b" using 1 b by (simp add: rev_nth del: upt_Suc)
  finally show "last (byteItems i b) = i * 8 + (7 - int (LeadingZeros8 b))"
    using b 1 by (simp add: byteItems_def last_map of_nat_diff del: upt_Suc)
qed

lemma get1CountLoop_spec:
  "get1CountLoop buff i found mn mx cnt =
     (if found \<or> bitItemsFrom buff i = [] then mn else hd (bitItemsFrom buff i),
      if bitItemsFrom buff i = [] then mx else last (bitItemsFrom buff i),
      cnt + int (length (bitItemsFrom buff i)))"
proof (induction buff arbitrary: i found mn mx cnt)
  case (Cons b buff)
  have len: "OnesCount8 b = length (byteItems i b)" by (simp add: OnesCount8_def byteItems_def del: upt_Suc)
  show ?case
    using TrailingZeros8_spec(1) [of b i] TrailingZeros8_spec(2) [of i b] LeadingZeros8_spec(1) [of b i] LeadingZeros8_spec(2) [of i b] Cons.IH len
    by (cases "byteItems i b = []") (auto simp: Let_def)
qed simp

lemma get1Count_spec:
  "get1Count buff = (if bitItems buff = [] then (0, 0, 0) else (hd (bitItems buff), last (bitItems buff), int (length (bitItems buff))))"
  by (simp add: get1Count_def get1CountLoop_spec bitItems_def)

section \<open>Iteration\<close>

definition bitRest :: "BitIDIterator \<Rightarrow> int list" where
  "bitRest it = filter (\<lambda>v. int (bit_iterIdx it) \<le> v) (bitItems (Buff (bit_bid it)))"

lemma filter_next:
  "sorted_wrt (<) (xs :: int list) \<Longrightarrow>
   filter (\<lambda>v. k \<le> v) xs = (if k \<in> set xs then k # filter (\<lambda>v. k + 1 \<le> v) xs else filter (\<lambda>v. k + 1 \<le> v) xs)"
proof (induction xs)
  case (Cons a xs)
  show ?case
  proof (cases "a = k")
    case True
    have "filter (\<lambda>v. k \<le> v) xs = xs" "filter (\<lambda>v. k + 1 \<le> v) xs = xs" using Cons.prems True by (auto simp: filter_id_conv)
    then show ?thesis using True Cons by auto
  qed (use Cons in auto)
qed simp

lemma testBit_and:
  "idx div 8 < length buff \<Longrightarrow> push_bit (idx mod 8) 1 AND buff ! (idx div 8) = 0 \<longleftrightarrow> \<not> testBit buff idx"
  using and_bit_iff [of "idx mod 8" "buff ! (idx div 8)"] by (auto simp: testBit_def and.commute)

lemma BitNextLoop_spec:
  "case BitNextLoop buff idx of None \<Rightarrow> filter (\<lambda>v. int idx \<le> v) (bitItems buff) = []
   | Some (v, idx') \<Rightarrow> filter (\<lambda>v. int idx \<le> v) (bitItems buff) = v # filter (\<lambda>v. int idx' \<le> v) (bitItems buff)"
proof (induction buff idx rule: BitNextLoop.induct)
  case (1 buff idx)
  show ?case
  proof (cases "length buff \<le> idx div 8")
    case True
    have "v < int idx" if "v \<in> set (bitItems buff)" for v
    proof -
      have "nat v div 8 < idx div 8" "0 \<le> v" using that True by (auto simp: bitItems_mem testBit_def)
      then have "nat v < idx" by (meson div_le_mono leD leI)
      then show ?thesis using \<open>0 \<le> v\<close> by linarith
    qed
    then show ?thesis using True by (subst BitNextLoop.simps) (force simp: filter_empty_conv)
  next
    case False
    note next_ = filter_next [OF bitItems_sorted(1), of "int idx" buff]
    have mem: "int idx \<in> set (bitItems buff) \<longleftrightarrow> \<not> push_bit (idx mod 8) 1 AND buff ! (idx div 8) = 0"
      using testBit_and [of idx buff] False by (simp add: bitItems_mem)
    have suc: "int (idx + 1) = int idx + 1" by simp
    show ?thesis
    proof (cases "push_bit (idx mod 8) 1 AND buff ! (idx div 8) = 0")
      case True
      then show ?thesis using 1 [OF False True] False next_ mem unfolding suc
        by (subst BitNextLoop.simps) (simp only: if_False if_True simp_thms)
    next
      case nz: False
      then show ?thesis using False next_ mem unfolding suc
        by (subst BitNextLoop.simps) (simp only: if_False if_True simp_thms option.case prod.case suc)
    qed
  qed
qed

lemma BitNextID_spec:
  "case BitNextID it of None \<Rightarrow> bitRest it = [] | Some (v, it') \<Rightarrow> bitRest it = v # bitRest it'"
  using BitNextLoop_spec [where buff = "Buff (bit_bid it)" and idx = "bit_iterIdx it"]
  by (cases "BitNextLoop (Buff (bit_bid it)) (bit_iterIdx it)") (auto simp: BitNextID_def bitRest_def)

section \<open>Insertion\<close>

definition bitInv :: "BitID \<Rightarrow> bool" where
  "bitInv bid \<longleftrightarrow> (itemList bid = None \<or> itemList bid = Some (bitItems (Buff bid))) \<and>
     (bi_numItems bid = -1 \<or> bi_numItems bid = int (length (bitItems (Buff bid)))) \<and>
     (\<forall>v \<in> set (bitItems (Buff bid)). goInt v)"

definition bitBuild :: "BitID \<Rightarrow> bool" where
  "bitBuild bid \<longleftrightarrow> bitInv bid \<and> Buff bid = tl (encodeBuff bid)"

lemma GetNumItems_spec:
  assumes "bitInv bid"
  shows "fst (GetNumItems bid) = int (length (bitItems (Buff bid)))" "bitInv (snd (GetNumItems bid))"
    "Buff (snd (GetNumItems bid)) = Buff bid" "encodeBuff (snd (GetNumItems bid)) = encodeBuff bid"
  using assms by (auto simp: GetNumItems_def get1Count_spec bitInv_def Let_def)

lemma GetItemList_spec:
  assumes "bitInv bid"
  shows "fst (GetItemList bid) = bitItems (Buff bid)" "bitInv (snd (GetItemList bid))" "Buff (snd (GetItemList bid)) = Buff bid"
  using assms GetNumItems_spec [OF assms] by (auto simp: GetItemList_def itemListLoop_eq bitInv_def Let_def bitItems_def)

lemma BitCheckBitID_spec: "0 \<le> v \<Longrightarrow> BitCheckBitID v bid = Inr (v \<in> set (bitItems (Buff bid)))"
  using and_bit_iff [of "nat v mod 8" "Buff bid ! (nat v div 8)"]
  by (auto simp: BitCheckBitID_def Let_def bitItems_mem testBit_def word_gt_0 simp del: push_bit_of_1)

lemma testBit_set:
  assumes "i div 8 < length buff"
  shows "testBit (buff[i div 8 := buff ! (i div 8) OR push_bit (i mod 8) 1]) k \<longleftrightarrow> k = i \<or> testBit buff k"
proof -
  have bit: "bit (push_bit (i mod 8) (1 :: byte)) n \<longleftrightarrow> n = i mod 8" if "n < 8" for n
    using that by (auto simp: bit_exp_iff)
  have eq: "k = i \<longleftrightarrow> k div 8 = i div 8 \<and> k mod 8 = i mod 8" by (metis div_mult_mod_eq)
  show ?thesis
    using assms bit [of "k mod 8"] unfolding eq by (cases "k div 8 = i div 8") (auto simp: testBit_def bit_or_iff)
qed

lemma insert_bitItems:
  assumes "0 \<le> v" "v \<notin> set (bitItems buff)" "set (bitItems buff') = insert v (set (bitItems buff))"
  shows "\<exists>pos. InsertInSortedSlice (bitItems buff) v 0 = Inr (bitItems buff', pos)"
    "length (bitItems buff') = length (bitItems buff) + 1"
proof -
  have s: "sorted (insertAt (SearchInts (bitItems buff) v) v (bitItems buff))"
    "mset (insertAt (SearchInts (bitItems buff) v) v (bitItems buff)) = add_mset v (mset (bitItems buff))"
    "SearchInts (bitItems buff) v \<le> length (bitItems buff)"
    using insertAt_search [OF bitItems_sorted(2) [of buff], of 0 v] by simp_all
  let ?l = "insertAt (SearchInts (bitItems buff) v) v (bitItems buff)"
  have "set ?l = set (bitItems buff')" using s(2) assms(3) by (metis set_mset_add_mset_insert set_mset_mset)
  moreover have "distinct ?l" using s(2) assms(2) bitItems_sorted(3) [of buff]
    by (metis distinct.simps(2) mset.simps(2) mset_eq_imp_distinct_iff)
  ultimately have l: "bitItems buff' = ?l" using s(1) by (intro bitItems_unique) (simp_all add: strict_sorted_iff)
  have "insertAt (length (bitItems buff)) v (bitItems buff) = bitItems buff @ [v]" by (simp add: insertAt_eq)
  then show "\<exists>pos. InsertInSortedSlice (bitItems buff) v 0 = Inr (bitItems buff', pos)"
    unfolding l by (cases "bitItems buff = []") (auto simp: InsertInSortedSlice_def Let_def SearchInts_def searchLoop.simps)
  show "length (bitItems buff') = length (bitItems buff) + 1"
    unfolding l by (metis s(2) size_mset size_add_mset Suc_eq_plus1)
qed

lemma AddBitID_spec:
  assumes b: "bitBuild bid" and v: "goInt v"
  shows "\<exists>bid'. AddBitID v False bid = Inr (v \<notin> set (bitItems (Buff bid)), bid') \<and> bitBuild bid' \<and>
    set (bitItems (Buff bid')) = insert v (set (bitItems (Buff bid)))"
proof (cases "v \<in> set (bitItems (Buff bid))")
  case True
  then show ?thesis using b v by (simp add: AddBitID_def BitCheckBitID_spec goInt_def insert_absorb)
next
  case False
  have v0: "0 \<le> v" using v by (simp add: goInt_def)
  let ?idx = "nat v div 8"
  define enc where "enc = (if ?idx \<ge> length (Buff bid) then encodeBuff bid @ replicate (?idx + 6 - length (Buff bid)) 0 else encodeBuff bid)"
  obtain k where k: "tl enc = Buff bid @ replicate k 0"
  proof (cases "encodeBuff bid")
    case Nil
    then have "Buff bid = []" using b by (simp add: bitBuild_def)
    then show ?thesis using Nil that [of "?idx + 5"] that [of 0] by (cases "?idx \<ge> length (Buff bid)") (simp_all add: enc_def)
  next
    case (Cons h t)
    then have "Buff bid = t" using b by (simp add: bitBuild_def)
    then show ?thesis using Cons that [of "?idx + 6 - length t"] that [of 0] by (cases "?idx \<ge> length (Buff bid)") (simp_all add: enc_def)
  qed
  have idx: "?idx < length (tl enc)"
    using b by (cases "?idx \<ge> length (Buff bid)"; cases "encodeBuff bid") (auto simp: enc_def bitBuild_def)
  let ?b = "tl enc ! ?idx OR push_bit (nat v mod 8) 1"
  let ?buff = "(tl enc)[?idx := ?b]"
  have set: "set (bitItems ?buff) = insert v (set (bitItems (Buff bid)))"
  proof (rule set_eqI)
    fix x
    have "testBit ?buff (nat x) \<longleftrightarrow> nat x = nat v \<or> testBit (Buff bid) (nat x)"
      using testBit_set [OF idx] k by simp
    then show "x \<in> set (bitItems ?buff) \<longleftrightarrow> x \<in> insert v (set (bitItems (Buff bid)))"
      using v0 by (auto simp: bitItems_mem)
  qed
  note ins = insert_bitItems [OF v0 False set]
  have tl: "tl (enc[?idx + 1 := ?b]) = ?buff" using idx by (cases enc) simp_all
  define bid1 where "bid1 = bid\<lparr>encodeBuff := enc, Buff := tl enc\<rparr>"
  have grow: "(if ?idx \<ge> length (Buff bid)
      then (let e = encodeBuff bid @ replicate (?idx + 6 - length (Buff bid)) 0 in bid\<lparr>encodeBuff := e, Buff := tl e\<rparr>)
      else bid) = bid1"
    using b by (cases bid) (simp add: bid1_def enc_def bitBuild_def Let_def)
  define bid2 where "bid2 = bid1\<lparr>bi_str := [], Buff := ?buff, encodeBuff := enc[?idx + 1 := ?b]\<rparr>"
  have f: "itemList bid2 = itemList bid" "bi_numItems bid2 = bi_numItems bid" "Buff bid2 = ?buff" "encodeBuff bid2 = enc[?idx + 1 := ?b]"
    by (simp_all add: bid2_def bid1_def)
  have upd: "bid1\<lparr>bi_str := [], Buff := (Buff bid1)[?idx := Buff bid1 ! ?idx OR push_bit (nat v mod 8) 1],
      encodeBuff := (encodeBuff bid1)[?idx + 1 := Buff bid1 ! ?idx OR push_bit (nat v mod 8) 1]\<rparr> = bid2"
    by (simp add: bid2_def bid1_def)
  let ?fin = "\<lambda>l. let bid3 = bid2\<lparr>itemList := l\<rparr> in if bi_numItems bid3 \<noteq> -1
      then bid3\<lparr>bi_numItems := bi_numItems bid3 + 1, bi_min := (if bi_min bid3 > v then v else bi_min bid3),
                bi_max := (if bi_max bid3 < v then v else bi_max bid3)\<rparr>
      else bid3"
  have "BitCheckBitID v bid = Inr False" using False v0 by (simp add: BitCheckBitID_spec)
  then have step: "AddBitID v False bid = bind_res (case itemList bid2 of None \<Rightarrow> Inr None
      | Some l \<Rightarrow> bind_res (InsertInSortedSlice l v 0) (\<lambda>(l', _). Inr (Some l'))) (\<lambda>l. Inr (True, ?fin l))"
    using v0 unfolding AddBitID_def Let_def [of "nat v div 8"] grow Let_def [of bid1] Let_def [of "Buff bid1 ! ?idx OR _"] upd Let_def [of bid2]
    by (simp add: Let_def)
  have num: "bi_numItems bid = -1 \<or> bi_numItems bid + 1 = int (length (bitItems ?buff))"
    using b ins(2) by (auto simp: bitBuild_def bitInv_def)
  have goint: "\<forall>x \<in> set (bitItems ?buff). goInt x" using b v unfolding set by (auto simp: bitBuild_def bitInv_def)
  have fin: "bitBuild (?fin l) \<and> Buff (?fin l) = ?buff" if "l = None \<or> l = Some (bitItems ?buff)" for l
    using that num goint tl f by (auto simp: bitBuild_def bitInv_def Let_def)
  show ?thesis
  proof (cases "itemList bid")
    case None
    then show ?thesis using step fin [of None] set False f by auto
  next
    case (Some l)
    then have "l = bitItems (Buff bid)" using b by (auto simp: bitBuild_def bitInv_def)
    then show ?thesis using step fin [of "Some (bitItems ?buff)"] set False f Some ins(1) by auto
  qed
qed

interpretation bit_bid: bid_builder bitid_ops "\<lambda>b. bitItems (Buff b)" bitRest bitInv bitBuild "\<lambda>_. False"
proof unfold_locales
  fix it it' :: BitIDIterator and b :: BitID and v n :: int
  show "NextID bitid_ops it = None \<Longrightarrow> bitRest it = []" "NextID bitid_ops it = Some (v, it') \<Longrightarrow> bitRest it = v # bitRest it'"
    using BitNextID_spec [of it] by (simp_all add: bitid_ops_def)
  have "filter (\<lambda>v. 0 \<le> v) (bitItems (Buff b)) = bitItems (Buff b)" by (simp add: filter_id_conv bitItems_mem)
  then show "bitRest (NewIterator bitid_ops b) = bitItems (Buff b)"
    by (simp add: bitid_ops_def BitNewIterator_def bitRest_def)
  show "bitInv b \<Longrightarrow> bidCount bitid_ops b = int (length (bitItems (Buff b)))"
    using GetNumItems_spec(1) [of b] by (simp add: bitid_ops_def bidCount_def BitGetBasicInfo_def GetNumItems_def Let_def)
  show "sorted (bitItems (Buff b))" by (rule bitItems_sorted)
  show "bitInv b \<Longrightarrow> v \<in> set (bitItems (Buff b)) \<Longrightarrow> goInt v" by (simp add: bitInv_def)
  show "bitBuild b \<Longrightarrow> bitInv b" by (simp add: bitBuild_def)
  have zero: "bitItems (replicate k 0) = []" for k using bitItems_append_zeros [of "[]" k] by (simp add: bitItems_def)
  show "bitBuild (NewBid bitid_ops)" "bitItems (Buff (NewBid bitid_ops)) = []"
    "bitBuild (SetInitialSize bitid_ops n (NewBid bitid_ops))" "bitItems (Buff (SetInitialSize bitid_ops n (NewBid bitid_ops))) = []"
    using zero [of 0] zero by (simp_all add: bitid_ops_def BitNew_def emptyBitID_def BitSetInitialSize_def bitBuild_def bitInv_def Let_def)
  show "False \<or> distinct (bitItems (Buff b))" by (simp add: bitItems_sorted)
  show "\<exists>b'. AppendItem bitid_ops v b = Inr b' \<and> bitBuild b' \<and> bitItems (Buff b') = bitItems (Buff b) @ [v]"
    if a: "bitBuild b" "goInt v" "\<And>x. x \<in> set (bitItems (Buff b)) \<Longrightarrow> x \<le> v"
      "False \<or> v \<notin> set (bitItems (Buff b)) \<and> distinct (bitItems (Buff b))"
  proof -
    obtain b' where b': "AddBitID v False b = Inr (v \<notin> set (bitItems (Buff b)), b')" "bitBuild b'"
      "set (bitItems (Buff b')) = insert v (set (bitItems (Buff b)))"
      using AddBitID_spec [OF a(1,2)] by blast
    have "\<forall>x \<in> set (bitItems (Buff b)). x < v" using a(3,4) by (metis order_le_less)
    then have "sorted_wrt (<) (bitItems (Buff b) @ [v])"
      using bitItems_sorted(1) [of "Buff b"] by (simp add: sorted_wrt_append)
    then have "bitItems (Buff b') = bitItems (Buff b) @ [v]" using b'(3) by (intro bitItems_unique) auto
    then show ?thesis using b' by (simp add: bitid_ops_def BitAppendItem_def)
  qed
qed simp

section \<open>Set operations\<close>

lemma newSingle_spec: "bitItems (Buff (newSingle buff)) = bitItems buff" "Buff (newSingle buff) = tl (encodeBuff (newSingle buff))"
  "itemList (newSingle buff) = None" "bi_numItems (newSingle buff) = -1"
proof -
  obtain k where k: "BitIDSingle # buff = TrimZeros (BitIDSingle # buff) 1 @ replicate k 0"
    "1 \<le> length (TrimZeros (BitIDSingle # buff) 1)"
    using TrimZeros_split [of "BitIDSingle # buff" 1] by auto
  then have "buff = tl (TrimZeros (BitIDSingle # buff) 1) @ replicate k 0"
    by (metis list.sel(3) list.size(3) not_one_le_zero tl_append2)
  then have "bitItems buff = bitItems (tl (TrimZeros (BitIDSingle # buff) 1))" by (metis bitItems_append_zeros)
  then show "bitItems (Buff (newSingle buff)) = bitItems buff" by (simp add: newSingle_def Let_def)
qed (simp_all add: newSingle_def Let_def emptyBitID_def)

lemma newSingle_build: "\<forall>v \<in> set (bitItems buff). goInt v \<Longrightarrow> bitBuild (newSingle buff)"
  using newSingle_spec [of buff] by (simp add: bitBuild_def bitInv_def)

lemma testBit_map: "testBit (map f [0..<n]) i \<longleftrightarrow> i div 8 < n \<and> bit (f (i div 8)) (i mod 8)"
  by (auto simp: testBit_def)

lemma MergeBitID_set:
  "set (bitItems (Buff (MergeBitID b1 b2))) = set (bitItems (Buff b1)) \<union> set (bitItems (Buff b2))"
proof (cases "length (Buff b1) > length (Buff b2)")
  case True
  then show ?thesis unfolding MergeBitID_def Let_def if_P [OF True] prod.case set_eq_iff newSingle_spec(1) bitItems_mem Un_iff testBit_map
    by (auto simp: testBit_def bit_or_iff split: if_splits)
next
  case False
  then show ?thesis unfolding MergeBitID_def Let_def if_not_P [OF False] prod.case set_eq_iff newSingle_spec(1) bitItems_mem Un_iff testBit_map
    by (auto simp: testBit_def bit_or_iff split: if_splits)
qed

lemma SubBitID_set:
  "set (bitItems (Buff (SubBitID b1 b2))) = set (bitItems (Buff b1)) - set (bitItems (Buff b2))"
  unfolding SubBitID_def set_eq_iff newSingle_spec(1) bitItems_mem Diff_iff testBit_map
  by (auto simp: testBit_def bit_and_iff bit_xor_iff split: if_splits)

lemma BitGetNewItems_set:
  "set (bitItems (Buff (BitGetNewItems b1 b2))) = set (bitItems (Buff b2)) - set (bitItems (Buff b1))"
  unfolding BitGetNewItems_def Let_def set_eq_iff newSingle_spec(1) bitItems_mem Diff_iff testBit_map
  by (auto simp: testBit_def bit_and_iff bit_xor_iff split: if_splits)

lemma bit_fold_or:
  "bit (fold (\<lambda>bid b. if i < length (Buff bid) then b OR Buff bid ! i else b) bList c) k \<longleftrightarrow>
   bit c k \<or> (\<exists>bid \<in> set bList. i < length (Buff bid) \<and> bit (Buff bid ! i) k)"
  by (induction bList arbitrary: c) (auto simp: bit_or_iff)

lemma maxBuffLen_le: "bid \<in> set bList \<Longrightarrow> length (Buff bid) \<le> maxBuffLen bList"
proof -
  have mono: "m \<le> fold (\<lambda>bid m. if m < length (Buff bid) then length (Buff bid) else m) l m" for l m
    by (induction l arbitrary: m) (auto, meson le_trans less_imp_le)
  have "bid \<in> set l \<Longrightarrow> length (Buff bid) \<le> fold (\<lambda>bid m. if m < length (Buff bid) then length (Buff bid) else m) l m" for l m
  proof (induction l arbitrary: m)
    case (Cons a l)
    then show ?case using mono [of "if m < length (Buff a) then length (Buff a) else m" l] by (cases "bid = a") (auto split: if_splits)
  qed simp
  then show "bid \<in> set bList \<Longrightarrow> length (Buff bid) \<le> maxBuffLen bList" by (simp add: maxBuffLen_def)
qed

lemma MergeBitIDList_set: "set (bitItems (Buff (MergeBitIDList bList))) = (\<Union>b \<in> set bList. set (bitItems (Buff b)))"
proof (rule set_eqI)
  fix v
  have "v \<in> set (bitItems (Buff (MergeBitIDList bList))) \<longleftrightarrow>
      0 \<le> v \<and> nat v div 8 < maxBuffLen bList \<and> (\<exists>bid \<in> set bList. nat v div 8 < length (Buff bid) \<and> bit (Buff bid ! (nat v div 8)) (nat v mod 8))"
    by (simp add: MergeBitIDList_def newSingle_spec(1) bitItems_mem testBit_map bit_fold_or)
  also have "\<dots> \<longleftrightarrow> v \<in> (\<Union>b \<in> set bList. set (bitItems (Buff b)))"
    using maxBuffLen_le by (fastforce simp: bitItems_mem testBit_def)
  finally show "v \<in> set (bitItems (Buff (MergeBitIDList bList))) \<longleftrightarrow> v \<in> (\<Union>b \<in> set bList. set (bitItems (Buff b)))" .
qed

lemma byteItems_nonempty: "0 < length (innerAddLoop i b []) \<longleftrightarrow> (\<exists>k < 8. bit b k)"
  by (auto simp: innerAddLoop_eq byteItems_def filter_empty_conv simp del: upt_Suc)

lemma bitItems_index: "v \<in> set (bitItems buff) \<longleftrightarrow> (\<exists>i k. i < length buff \<and> k < 8 \<and> bit (buff ! i) k \<and> v = int (i * 8 + k))"
proof
  assume "v \<in> set (bitItems buff)"
  then have "nat v div 8 < length buff" "bit (buff ! (nat v div 8)) (nat v mod 8)" "v = int (nat v div 8 * 8 + nat v mod 8)"
    by (simp_all add: bitItems_mem testBit_def)
  then show "\<exists>i k. i < length buff \<and> k < 8 \<and> bit (buff ! i) k \<and> v = int (i * 8 + k)" by (metis mod_less_divisor zero_less_numeral)
qed (auto simp: bitItems_mem testBit_def nat_add_distrib nat_mult_distrib)

lemma HasIntersection_spec: "HasIntersection b1 b2 \<longleftrightarrow> set (bitItems (Buff b1)) \<inter> set (bitItems (Buff b2)) \<noteq> {}"
proof -
  have "HasIntersection b1 b2 \<longleftrightarrow> (\<exists>i k. i < length (Buff b1) \<and> i < length (Buff b2) \<and> k < 8 \<and> bit (Buff b1 ! i) k \<and> bit (Buff b2 ! i) k)"
    unfolding HasIntersection_def byteItems_nonempty by (auto simp: bit_and_iff)
  also have "\<dots> \<longleftrightarrow> (\<exists>v. v \<in> set (bitItems (Buff b1)) \<and> v \<in> set (bitItems (Buff b2)))"
  proof
    assume "\<exists>i k. i < length (Buff b1) \<and> i < length (Buff b2) \<and> k < 8 \<and> bit (Buff b1 ! i) k \<and> bit (Buff b2 ! i) k"
    then show "\<exists>v. v \<in> set (bitItems (Buff b1)) \<and> v \<in> set (bitItems (Buff b2))" using bitItems_index by blast
  next
    assume "\<exists>v. v \<in> set (bitItems (Buff b1)) \<and> v \<in> set (bitItems (Buff b2))"
    then obtain v where "testBit (Buff b1) (nat v)" "testBit (Buff b2) (nat v)" by (auto simp: bitItems_mem)
    then show "\<exists>i k. i < length (Buff b1) \<and> i < length (Buff b2) \<and> k < 8 \<and> bit (Buff b1 ! i) k \<and> bit (Buff b2 ! i) k"
      unfolding testBit_def by (metis mod_less_divisor zero_less_numeral)
  qed
  finally show ?thesis by auto
qed

lemma split_range:
  fixes a b :: nat
  shows "(\<exists>i \<in> set [0..<min a b]. \<exists>k < 8. Q i k \<and> \<not> R i k) \<or> (\<exists>i \<in> set [min a b..<b]. \<exists>k < 8. Q i k) \<longleftrightarrow>
    (\<exists>i k. i < b \<and> k < (8 :: nat) \<and> Q i k \<and> \<not> (i < a \<and> R i k))" (is "?l \<longleftrightarrow> ?r")
proof
  assume ?l
  then show ?r
  proof
    assume "\<exists>i \<in> set [0..<min a b]. \<exists>k < 8. Q i k \<and> \<not> R i k"
    then show ?r by auto
  next
    assume "\<exists>i \<in> set [min a b..<b]. \<exists>k < 8. Q i k"
    then obtain i k where "i \<in> set [min a b..<b]" "k < 8" "Q i k" by blast
    moreover from this(1) have "i < b" "\<not> i < a" by (simp_all add: min_def split: if_splits)
    ultimately show ?r by blast
  qed
next
  assume ?r
  then obtain i k where ik: "i < b" "k < 8" "Q i k" "\<not> (i < a \<and> R i k)" by blast
  show ?l
  proof (cases "i < a")
    case True
    then have "i \<in> set [0..<min a b]" using ik by simp
    then show ?l using ik True by blast
  next
    case False
    then have "i \<in> set [min a b..<b]" using ik by simp
    then show ?l using ik by blast
  qed
qed

lemma HasNewItems_spec: "HasNewItems b1 b2 \<longleftrightarrow> \<not> set (bitItems (Buff b2)) \<subseteq> set (bitItems (Buff b1))"
proof -
  have bx: "bit ((x AND y) XOR y) k \<longleftrightarrow> bit y k \<and> \<not> bit x k" for x y :: byte and k
    by (auto simp: bit_and_iff bit_xor_iff)
  have "HasNewItems b1 b2 \<longleftrightarrow>
      (\<exists>i k. i < length (Buff b2) \<and> k < 8 \<and> bit (Buff b2 ! i) k \<and> \<not> (i < length (Buff b1) \<and> bit (Buff b1 ! i) k))"
    unfolding HasNewItems_def Let_def byteItems_nonempty bx by (rule split_range)
  also have "\<dots> \<longleftrightarrow> (\<exists>v. v \<in> set (bitItems (Buff b2)) \<and> v \<notin> set (bitItems (Buff b1)))"
  proof
    assume "\<exists>i k. i < length (Buff b2) \<and> k < 8 \<and> bit (Buff b2 ! i) k \<and> \<not> (i < length (Buff b1) \<and> bit (Buff b1 ! i) k)"
    then obtain i k where ik: "i < length (Buff b2)" "k < 8" "bit (Buff b2 ! i) k" "\<not> (i < length (Buff b1) \<and> bit (Buff b1 ! i) k)" by blast
    then have "int (i * 8 + k) \<in> set (bitItems (Buff b2))" "int (i * 8 + k) \<notin> set (bitItems (Buff b1))"
      by (auto simp: bitItems_mem testBit_def nat_add_distrib nat_mult_distrib)
    then show "\<exists>v. v \<in> set (bitItems (Buff b2)) \<and> v \<notin> set (bitItems (Buff b1))" by blast
  next
    assume "\<exists>v. v \<in> set (bitItems (Buff b2)) \<and> v \<notin> set (bitItems (Buff b1))"
    then obtain v where "testBit (Buff b2) (nat v)" "\<not> testBit (Buff b1) (nat v)" by (auto simp: bitItems_mem)
    then show "\<exists>i k. i < length (Buff b2) \<and> k < 8 \<and> bit (Buff b2 ! i) k \<and> \<not> (i < length (Buff b1) \<and> bit (Buff b1 ! i) k)"
      unfolding testBit_def by (metis mod_less_divisor zero_less_numeral)
  qed
  finally show ?thesis by auto
qed

lemma CheckIntersection_spec:
  "CheckIntersection b1 b2 = sorted_list_of_set (set (bitItems (Buff b1)) \<inter> set (bitItems (Buff b2)))"
proof -
  let ?n = "min (length (Buff b1)) (length (Buff b2))" and ?f = "\<lambda>i. Buff b1 ! i AND Buff b2 ! i"
  have "fold (\<lambda>i l. innerAddLoop (int i) (f i) l) [0..<n] [] = bitItems (map f [0..<n])" for f n
  proof (induction n)
    case (Suc n)
    have "bitItemsFrom (xs @ [b]) i = bitItemsFrom xs i @ byteItems (i + int (length xs)) b" for xs b i
      by (induction xs arbitrary: i) (simp_all add: algebra_simps)
    then show ?case using Suc by (simp add: innerAddLoop_eq bitItems_def)
  qed (simp add: bitItems_def)
  then have "CheckIntersection b1 b2 = bitItems (map ?f [0..<?n])" by (simp add: CheckIntersection_def)
  moreover have "set (bitItems (map ?f [0..<?n])) = set (bitItems (Buff b1)) \<inter> set (bitItems (Buff b2))"
    unfolding set_eq_iff bitItems_mem Int_iff testBit_map by (auto simp: testBit_def bit_and_iff)
  ultimately show ?thesis using bitItems_set by metis
qed

section \<open>Construction\<close>

lemma add_bit: "m < 8 \<Longrightarrow> \<not> bit (cur :: byte) m \<Longrightarrow> bit (cur + push_bit m 1) k \<longleftrightarrow> bit cur k \<or> k = m"
proof -
  assume m: "m < 8" "\<not> bit cur m"
  have "cur AND push_bit m 1 = 0" using and_bit_iff [of m cur] m by blast
  then have "cur + push_bit m 1 = cur OR push_bit m 1" by (rule disjunctive_add_eq_or)
  then show ?thesis using m(1) by (auto simp: bit_or_iff bit_exp_iff)
qed

lemma fromIntsByte_spec:
  assumes "sorted items" "\<forall>v \<in> set items. prv \<le> v \<and> 8 * j \<le> v" "0 \<le> j" "\<forall>k < 8. bit cur k \<longrightarrow> 8 * j + int k \<le> prv"
    "8 * j \<le> prv \<longrightarrow> bit cur (nat (prv - 8 * j))" "prv \<le> 8 * j + 7"
  shows "\<exists>prv' cur'. fromIntsByte items (8 * j + 7) prv cur = Inr (dropWhile (\<lambda>v. v \<le> 8 * j + 7) items, prv', cur') \<and>
    (\<forall>k < 8. bit cur' k \<longleftrightarrow> bit cur k \<or> 8 * j + int k \<in> set items) \<and> prv' \<le> 8 * j + 7"
  using assms
proof (induction items arbitrary: prv cur)
  case (Cons nxt items)
  show ?case
  proof (cases "nxt \<le> 8 * j + 7")
    case False
    then have "8 * j + int k \<notin> set (nxt # items)" if "k < 8" for k using that Cons.prems(1) by auto
    then show ?thesis using False Cons.prems(6) by auto
  next
    case le: True
    have nxt: "0 \<le> nxt" "prv \<le> nxt" "8 * j \<le> nxt" using Cons.prems(2,3) by auto
    define m where "m = nat (nxt - 8 * j)"
    have m: "m < 8" "nxt = 8 * j + int m" using nxt(3) le by (simp_all add: m_def)
    have mod: "nat nxt mod 8 = m"
    proof -
      have "nat nxt = 8 * nat j + m" using m(2) Cons.prems(3) by (simp add: nat_add_distrib nat_mult_distrib)
      then show ?thesis using m(1) by simp
    qed
    show ?thesis
    proof (cases "nxt = prv")
      case True
      have set: "8 * j + int k \<in> set (nxt # items) \<longleftrightarrow> k = m \<or> 8 * j + int k \<in> set items" for k using m(2) by auto
      have "bit cur m" using Cons.prems(5) nxt(3) True by (simp add: m_def)
      obtain prv' cur' where "fromIntsByte items (8 * j + 7) prv cur = Inr (dropWhile (\<lambda>v. v \<le> 8 * j + 7) items, prv', cur')"
        "\<forall>k < 8. bit cur' k \<longleftrightarrow> bit cur k \<or> 8 * j + int k \<in> set items" "prv' \<le> 8 * j + 7"
        using Cons.IH [of prv cur] Cons.prems by auto
      then show ?thesis unfolding set using True nxt(1) le \<open>bit cur m\<close> by auto
    next
      case False
      have "\<not> bit cur m" using Cons.prems(4) m nxt(2) False by force
      note ab = add_bit [OF m(1) this]
      have "\<forall>k < 8. bit (cur + push_bit m 1) k \<longrightarrow> 8 * j + int k \<le> nxt"
        unfolding ab using Cons.prems(4) m(2) nxt(2) by (auto intro: order_trans)
      moreover have "8 * j \<le> nxt \<longrightarrow> bit (cur + push_bit m 1) (nat (nxt - 8 * j))" unfolding ab by (simp add: m_def)
      moreover have "\<forall>v \<in> set items. nxt \<le> v \<and> 8 * j \<le> v" using Cons.prems(1,2) by simp
      ultimately obtain prv' cur' where r: "fromIntsByte items (8 * j + 7) nxt (cur + push_bit m 1) =
          Inr (dropWhile (\<lambda>v. v \<le> 8 * j + 7) items, prv', cur')"
        "\<forall>k < 8. bit cur' k \<longleftrightarrow> bit (cur + push_bit m 1) k \<or> 8 * j + int k \<in> set items" "prv' \<le> 8 * j + 7"
        using Cons.IH [of nxt "cur + push_bit m 1"] Cons.prems(1,3) le by auto
      have "fromIntsByte (nxt # items) (8 * j + 7) prv cur = Inr (dropWhile (\<lambda>v. v \<le> 8 * j + 7) (nxt # items), prv', cur')"
        using r(1) le nxt(1,2) False mod by (simp del: push_bit_of_1)
      moreover have "\<forall>k < 8. bit cur' k \<longleftrightarrow> bit cur k \<or> 8 * j + int k \<in> set (nxt # items)"
        using r(2) m(2) unfolding ab by auto
      ultimately show ?thesis using r(3) by blast
    qed
  qed
qed simp

lemma fromIntsBytes_spec:
  assumes "sorted items" "\<forall>v \<in> set items. 8 * j \<le> v \<and> v < 8 * (j + int n)" "0 \<le> j" "prv < 8 * j"
  shows "\<exists>bs. fromIntsBytes n items (8 * j + 7) prv ret = Inr (ret @ bs) \<and> length bs = n \<and> set (bitItemsFrom bs j) = set items"
  using assms
proof (induction n arbitrary: items j prv ret)
  case 0
  then show ?case by (cases items) auto
next
  case (Suc n)
  obtain prv' cur where c: "fromIntsByte items (8 * j + 7) prv 0 = Inr (dropWhile (\<lambda>v. v \<le> 8 * j + 7) items, prv', cur)"
    "\<forall>k < 8. bit cur k \<longleftrightarrow> 8 * j + int k \<in> set items" "prv' \<le> 8 * j + 7"
    using fromIntsByte_spec [of items prv j 0] Suc.prems by force
  let ?r = "dropWhile (\<lambda>v. v \<le> 8 * j + 7) items"
  have r: "set ?r = {v \<in> set items. 8 * j + 7 < v}"
  proof -
    have "sorted l \<Longrightarrow> set (dropWhile (\<lambda>v. v \<le> b) l) = {v \<in> set l. b < v}" for l and b :: int
      by (induction l) auto
    then show ?thesis using Suc.prems(1) by blast
  qed
  have "\<forall>v \<in> set ?r. 8 * (j + 1) \<le> v \<and> v < 8 * (j + 1 + int n)" unfolding r using Suc.prems(2) by auto
  moreover have "sorted ?r" using Suc.prems(1) by simp
  ultimately obtain bs where b: "fromIntsBytes n ?r (8 * (j + 1) + 7) prv' (ret @ [cur]) = Inr ((ret @ [cur]) @ bs)" "length bs = n"
    "set (bitItemsFrom bs (j + 1)) = set ?r"
    using Suc.IH [of ?r "j + 1" prv' "ret @ [cur]"] Suc.prems(3) c(3) by auto
  have e: "8 * (j + 1) + 7 = 8 * j + 7 + 8" by simp
  have "v \<in> set (byteItems j cur) \<longleftrightarrow> v \<in> set items \<and> v \<le> 8 * j + 7" for v
  proof
    assume "v \<in> set (byteItems j cur)"
    then have v: "j * 8 \<le> v" "v < j * 8 + 8" "bit cur (nat (v - j * 8))" by (simp_all add: byteItems_mem)
    then have "8 * j + int (nat (v - j * 8)) \<in> set items" using c(2) by auto
    then show "v \<in> set items \<and> v \<le> 8 * j + 7" using v by simp
  next
    assume v: "v \<in> set items \<and> v \<le> 8 * j + 7"
    then have "8 * j \<le> v" using Suc.prems(2) by auto
    then have "nat (v - 8 * j) < 8" "8 * j + int (nat (v - 8 * j)) = v" using v by auto
    then have "bit cur (nat (v - 8 * j))" using c(2) v by metis
    then show "v \<in> set (byteItems j cur)" using v \<open>8 * j \<le> v\<close> by (simp add: byteItems_mem algebra_simps)
  qed
  then have "set (bitItemsFrom (cur # bs) j) = set items" using b(3) r by force
  moreover have "fromIntsBytes (Suc n) items (8 * j + 7) prv ret = Inr (ret @ cur # bs)"
    using c(1) b(1) unfolding e by simp
  ultimately show ?case using b(2) by (intro exI [of _ "cur # bs"]) simp
qed

lemma fromInts_spec:
  assumes "sorted items" "items \<noteq> []" "\<forall>v \<in> set items. 0 \<le> v" "last items < 2 ^ 15 - 1"
  shows "\<exists>bs. fromInts items bid = Inr (bid\<lparr>Buff := bs, bi_numItems := int (length items), bi_min := hd items, bi_max := last items,
      encodeBuff := BitIDSingle # bs, itemList := Some items\<rparr>) \<and> set (bitItems bs) = set items"
proof -
  have "v \<le> last items" if "v \<in> set items" for v
    using that assms(1,2) by (cases items rule: rev_cases) (auto simp: sorted_append)
  moreover have l: "0 \<le> last items" using assms(2,3) by simp
  moreover have "last items < 8 * int (nat (last items) div 8 + 1)"
  proof -
    have "nat (last items) < 8 * (nat (last items) div 8 + 1)" by simp
    then have "int (nat (last items)) < int (8 * (nat (last items) div 8 + 1))" by (simp only: of_nat_less_iff)
    then show ?thesis using l by simp
  qed
  ultimately have "\<forall>v \<in> set items. 8 * 0 \<le> v \<and> v < 8 * (0 + int (nat (last items) div 8 + 1))"
    using assms(3) by (metis add_0 le_less_trans mult_zero_right)
  from fromIntsBytes_spec [OF assms(1) this, of "-1" "[]"] obtain bs where
    "fromIntsBytes (nat (last items) div 8 + 1) items 7 (-1) [] = Inr bs" "set (bitItems bs) = set items"
    by (auto simp: bitItems_def)
  moreover have "\<not> (last items < 0 \<or> last items \<ge> 2 ^ 15 - 1)" using l assms(4) by simp
  ultimately show ?thesis using assms(2) by (simp only: fromInts_def if_False bind_res_simps) blast
qed

section \<open>Encoding\<close>

lemma uvarintLoop_read:
  "readUvarintLoop r x s i n = Inr (v, n', r') \<Longrightarrow> uvarintLoop r x s i = (v, int i + (int n' - int n))"
proof (induction r x s i n rule: readUvarintLoop.induct)
  case (2 b bs x s i n)
  then show ?case by (cases "b < 128") (auto split: if_splits)
qed simp

lemma Uvarint_go_Put: "Uvarint_go (PutUvarint v @ rest) = (v, int (length (PutUvarint v)))"
  using uvarintLoop_read [of "PutUvarint v @ rest" 0 0 0 0 v "length (PutUvarint v)" rest] ReadUvarint_Put [of v rest]
  by (simp add: Uvarint_go_def ReadUvarint_def)

lemma decodeBasicLoop_encode:
  assumes "sorted_wrt (<) l" "\<forall>v \<in> set l. goInt v \<and> prv < v"
  shows "decodeBasicLoop (pre @ concat (map (\<lambda>nxt. PutUvarint (of_int nxt)) l)) (int (length pre)) prv acc = Inr (acc @ l)"
  using assms
proof (induction l arbitrary: pre prv acc)
  case Nil
  then show ?case by (subst decodeBasicLoop.simps) simp
next
  case (Cons v l)
  let ?put = "PutUvarint (of_int v)" and ?rest = "concat (map (\<lambda>nxt. PutUvarint (of_int nxt)) l)"
  have v: "sint (of_int v :: uint64) = v" "0 \<le> v" "prv < v" using goInt_word(1) [of v] Cons.prems by (auto simp: goInt_def)
  have pos: "\<not> int (length ?put) + k \<le> 0" if "0 \<le> k" for k
    using that length_greater_0_conv [of ?put] by (simp add: PutUvarint_ne del: length_greater_0_conv)
  have "decodeBasicLoop (pre @ ?put @ ?rest) (int (length pre)) prv acc =
      decodeBasicLoop (pre @ ?put @ ?rest) (int (length pre) + int (length ?put)) v (acc @ [v])"
    using v by (subst decodeBasicLoop.simps) (simp add: Uvarint_go_Put not_less pos)
  also have "\<dots> = Inr ((acc @ [v]) @ l)"
    using Cons.IH [of v "pre @ ?put" "acc @ [v]"] Cons.prems by simp
  finally show ?case by simp
qed

lemma doDecode_DoEncode:
  assumes b: "bitBuild bid" "encodeBuff bid = BitIDSingle # Buff bid" and small: "\<forall>v \<in> set (bitItems (Buff bid)). v < 2 ^ 15 - 1"
  shows "\<exists>bid'. doDecode (fst (DoEncode bid)) emptyBitID = Inr bid' \<and> bitInv bid' \<and> bitItems (Buff bid') = bitItems (Buff bid)"
proof -
  have inv: "bitInv bid" using b(1) by (simp add: bitBuild_def)
  obtain n bid1 where g: "GetNumItems bid = (n, bid1)" by (cases "GetNumItems bid")
  have n: "n = int (length (bitItems (Buff bid)))" "bitInv bid1" "Buff bid1 = Buff bid" "encodeBuff bid1 = encodeBuff bid"
    using GetNumItems_spec [OF inv] g by simp_all
  show ?thesis
  proof (cases "int (length (Buff bid)) \<le> n * 4")
    case True
    then have e: "fst (DoEncode bid) = BitIDSingle # Buff bid" using g n b(2) by (simp add: DoEncode_def)
    have "doDecode (BitIDSingle # Buff bid) emptyBitID = Inr (newSingle (Buff bid))"
      by (simp add: doDecode_def newSingle_def Let_def)
    then show ?thesis unfolding e using newSingle_build [of "Buff bid"] newSingle_spec(1) [of "Buff bid"] inv
      by (simp add: bitInv_def bitBuild_def)
  next
    case False
    let ?l = "bitItems (Buff bid)"
    have e: "fst (DoEncode bid) = [BitIDBasic] @ concat (map (\<lambda>nxt. PutUvarint (of_int nxt)) ?l)"
      using False g n GetItemList_spec(1) [OF n(2)] by (simp add: DoEncode_def split_beta)
    have "\<forall>v \<in> set ?l. goInt v \<and> - 1 < v" using inv by (auto simp: bitInv_def goInt_def)
    from decodeBasicLoop_encode [OF bitItems_sorted(1) this, of "[BitIDBasic]" "[]"]
    have d: "doDecode (fst (DoEncode bid)) emptyBitID = fromInts ?l emptyBitID"
      unfolding e by (simp add: doDecode_def bitItems_sorted)
    show ?thesis
    proof (cases "?l = []")
      case True
      then show ?thesis unfolding d by (simp add: fromInts_def emptyBitID_def bitInv_def bitItems_def)
    next
      case ne: False
      obtain bs where bs: "fromInts ?l emptyBitID = Inr (emptyBitID\<lparr>Buff := bs, bi_numItems := int (length ?l), bi_min := hd ?l,
          bi_max := last ?l, encodeBuff := BitIDSingle # bs, itemList := Some ?l\<rparr>)" "set (bitItems bs) = set ?l"
        using fromInts_spec [OF bitItems_sorted(2) ne, of emptyBitID] small last_in_set [OF ne] by (auto simp: bitItems_mem)
      then have "bitItems bs = ?l" by (intro bitItems_unique) (simp_all add: bitItems_sorted)
      then show ?thesis unfolding d using bs inv by (simp add: bitInv_def)
    qed
  qed
qed

lemma length_DoEncode:
  assumes "bitInv bid" "encodeBuff bid = BitIDSingle # Buff bid"
  shows "length (fst (DoEncode bid)) \<le> 1 + 10 * length (bitItems (Buff bid))"
proof -
  obtain n bid1 where g: "GetNumItems bid = (n, bid1)" by (cases "GetNumItems bid")
  have n: "n = int (length (bitItems (Buff bid)))" "bitInv bid1" "Buff bid1 = Buff bid" "encodeBuff bid1 = encodeBuff bid"
    using GetNumItems_spec [OF assms(1)] g by simp_all
  show ?thesis using g n assms(2) GetItemList_spec(1) [OF n(2)] length_concat_PutUvarint [of of_int "bitItems (Buff bid)"]
    by (auto simp: DoEncode_def split_beta)
qed

lemma CreateBitIDFromInts_built:
  assumes "sorted_wrt (<) items" "items \<noteq> []" "\<forall>v \<in> set items. 0 \<le> v \<and> v < 2 ^ 15 - 1"
  obtains bid where "CreateBitIDFromInts items = Inr bid" "bitBuild bid" "bitItems (Buff bid) = items"
    "encodeBuff bid = BitIDSingle # Buff bid" "bi_numItems bid = int (length items)" "bi_min bid = hd items" "bi_max bid = last items"
proof -
  have "sorted items" using assms(1) by (simp add: strict_sorted_iff)
  then obtain bs where bs: "fromInts items emptyBitID = Inr (emptyBitID\<lparr>Buff := bs, bi_numItems := int (length items), bi_min := hd items,
      bi_max := last items, encodeBuff := BitIDSingle # bs, itemList := Some items\<rparr>)" "set (bitItems bs) = set items"
    using fromInts_spec [of items emptyBitID] assms(2,3) last_in_set [OF assms(2)] by blast
  then have "bitItems bs = items" using assms(1) by (intro bitItems_unique) simp_all
  moreover have "\<forall>v \<in> set items. goInt v" using assms(3) by (auto simp: goInt_def)
  ultimately show thesis using that bs by (simp add: CreateBitIDFromInts_def bitBuild_def bitInv_def)
qed

section \<open>Theorems\<close>

text \<open>
  C22 (bitmap algebra). Merging, subtracting and selecting the new items of bitmaps, byte by byte and with trailing zeros cut,
  are union, difference and reverse difference of the sets of items, and the tests and the intersection list agree with them.
\<close>

theorem BitID_algebra:
  "set (bitItems (Buff (MergeBitID b1 b2))) = set (bitItems (Buff b1)) \<union> set (bitItems (Buff b2)) \<and>
   set (bitItems (Buff (MergeBitIDList bList))) = (\<Union>b \<in> set bList. set (bitItems (Buff b))) \<and>
   set (bitItems (Buff (SubBitID b1 b2))) = set (bitItems (Buff b1)) - set (bitItems (Buff b2)) \<and>
   set (bitItems (Buff (BitGetNewItems b1 b2))) = set (bitItems (Buff b2)) - set (bitItems (Buff b1)) \<and>
   (HasNewItems b1 b2 \<longleftrightarrow> \<not> set (bitItems (Buff b2)) \<subseteq> set (bitItems (Buff b1))) \<and>
   (HasIntersection b1 b2 \<longleftrightarrow> set (bitItems (Buff b1)) \<inter> set (bitItems (Buff b2)) \<noteq> {}) \<and>
   CheckIntersection b1 b2 = sorted_list_of_set (set (bitItems (Buff b1)) \<inter> set (bitItems (Buff b2)))"
  by (simp only: MergeBitID_set MergeBitIDList_set SubBitID_set BitGetNewItems_set HasNewItems_spec HasIntersection_spec
      CheckIntersection_spec simp_thms)

text \<open>
  \<^verbatim>\<open>AddBitID\<close> of a member index adds exactly that item, grows the bitmap where needed,
  keeps the lazily computed list and count right, and reports whether the item was new.
\<close>

lemma AddBitID_correct:
  assumes "bitBuild bid" "goInt v"
  shows "\<exists>bid'. AddBitID v False bid = Inr (v \<notin> set (bitItems (Buff bid)), bid') \<and> bitBuild bid' \<and>
    set (bitItems (Buff bid')) = insert v (set (bitItems (Buff bid))) \<and> BitCheckBitID v bid' = Inr True \<and>
    fst (GetItemList bid') = bitItems (Buff bid') \<and> fst (GetNumItems bid') = int (length (bitItems (Buff bid')))"
proof -
  obtain bid' where b: "AddBitID v False bid = Inr (v \<notin> set (bitItems (Buff bid)), bid')" "bitBuild bid'"
    "set (bitItems (Buff bid')) = insert v (set (bitItems (Buff bid)))" using AddBitID_spec [OF assms] by blast
  then have "bitInv bid'" by (simp add: bitBuild_def)
  then show ?thesis using b assms(2) GetItemList_spec(1) GetNumItems_spec(1) BitCheckBitID_spec [of v bid'] by (auto simp: goInt_def)
qed

text \<open>
  \<^verbatim>\<open>CreateBitIDFromInts\<close> of a strictly sorted slice of integers up to \<open>2 ^ 15 - 2\<close> gives
  a bitmap with exactly these items, whose minimum, maximum and count are those of the slice.
\<close>

lemma CreateBitIDFromInts_spec:
  assumes "sorted_wrt (<) items" "items \<noteq> []" "\<forall>v \<in> set items. 0 \<le> v \<and> v < 2 ^ 15 - 1"
  shows "\<exists>bid. CreateBitIDFromInts items = Inr bid \<and> bitBuild bid \<and> bitItems (Buff bid) = items \<and>
    fst (BitGetBasicInfo bid) = (hd items, last items, int (length items), int (length items))"
proof -
  obtain bid where "CreateBitIDFromInts items = Inr bid" "bitBuild bid" "bitItems (Buff bid) = items"
    "bi_numItems bid = int (length items)" "bi_min bid = hd items" "bi_max bid = last items"
    using CreateBitIDFromInts_built [OF assms] .
  then show ?thesis by (auto simp: BitGetBasicInfo_def GetNumItems_def Let_def)
qed

lemma BitDecode_encoded:
  assumes "doDecode (fst (DoEncode bid)) emptyBitID = Inr bid'" "length (fst (DoEncode bid)) < 2 ^ 63"
  shows "BitDecode (fst (BitEncode bid) @ rest) emptyBitID = Inr (length (fst (BitEncode bid)), bid', rest)"
  using assms(1) DecodeHelper_Encode [OF assms(2), of rest] by (simp add: BitDecode_def BitEncode_def split_beta)

lemma few_items:
  assumes "sorted_wrt (<) items" "\<forall>v \<in> set items. 0 \<le> v \<and> v < (2 ^ 15 - 1 :: int)"
  shows "length items \<le> 2 ^ 15"
proof -
  have "card (set items) \<le> card {0..<2 ^ 15 - 1 :: int}" using assms(2) by (intro card_mono) auto
  then show ?thesis using assms(1) by (simp add: strict_sorted_iff distinct_card)
qed

text \<open>
  C23 (bitmap encoding). \<^verbatim>\<open>CreateBitIDFromInts\<close> accepts every strictly sorted slice of integers from \<open>0\<close> to \<open>2 ^ 15 - 2\<close>, the range it
  checks for, and decoding the encoding of the bitmap it returns, whichever of the two formats \<^verbatim>\<open>DoEncode\<close> chooses, gives a
  bit identifier with exactly these items, reads exactly the bytes of the encoding and leaves what follows. Bitmaps that were built with
  \<^verbatim>\<open>SetInitialSize\<close> and \<^verbatim>\<open>AppendItem\<close> are not covered: they may not be decodable (\<open>built_BitID_not_decodable\<close> below).
\<close>

theorem BitDecode_BitEncode:
  assumes "sorted_wrt (<) items" "\<forall>v \<in> set items. 0 \<le> v \<and> v < 2 ^ 15 - 1"
  shows "\<exists>bid bid'. CreateBitIDFromInts items = Inr bid \<and>
    BitDecode (fst (BitEncode bid) @ rest) emptyBitID = Inr (length (fst (BitEncode bid)), bid', rest) \<and> bitInv bid' \<and> bitItems (Buff bid') = items"
proof (cases "items = []")
  case True
  let ?bid = "emptyBitID\<lparr>encodeBuff := [BitIDBasic], bi_numItems := -1\<rparr>"
  have e: "fst (DoEncode ?bid) = [BitIDBasic]" by code_simp
  have "doDecode [BitIDBasic] emptyBitID = Inr ?bid" by code_simp
  then have "BitDecode (fst (BitEncode ?bid) @ rest) emptyBitID = Inr (length (fst (BitEncode ?bid)), ?bid, rest)"
    by (intro BitDecode_encoded) (simp_all add: e)
  moreover have "CreateBitIDFromInts items = Inr ?bid" using True by (simp add: CreateBitIDFromInts_def fromInts_def)
  moreover have "bitItems (Buff ?bid) = items" "bitInv ?bid" using True by (simp_all add: emptyBitID_def bitInv_def bitItems_def)
  ultimately show ?thesis by blast
next
  case False
  obtain bid where b: "CreateBitIDFromInts items = Inr bid" "bitBuild bid" "bitItems (Buff bid) = items" "encodeBuff bid = BitIDSingle # Buff bid"
    using CreateBitIDFromInts_built [OF assms(1) False assms(2)] by blast
  obtain bid' where d: "doDecode (fst (DoEncode bid)) emptyBitID = Inr bid'" "bitInv bid'" "bitItems (Buff bid') = items"
    using doDecode_DoEncode [OF b(2,4)] b(3) assms(2) by auto
  have "length (fst (DoEncode bid)) \<le> 1 + 10 * length items" using length_DoEncode [OF _ b(4)] b(2,3) by (simp add: bitBuild_def)
  then have "length (fst (DoEncode bid)) < 2 ^ 63" using few_items [OF assms] by simp
  from BitDecode_encoded [OF d(1) this, of rest] b(1) d(2,3) show ?thesis by blast
qed

theorem BitDecode_BitEncode_witness:
  "\<exists>bid bid'. CreateBitIDFromInts [0, 2, 900] = Inr bid \<and>
     BitDecode (fst (BitEncode bid) @ [1]) emptyBitID = Inr (length (fst (BitEncode bid)), bid', [1]) \<and> bitItems (Buff bid') = [0, 2, 900]"
  using BitDecode_BitEncode [of "[0, 2, 900]" "[1]"] by auto

text \<open>
  A bitmap that is built with \<^verbatim>\<open>SetInitialSize\<close> and \<^verbatim>\<open>AppendItem\<close>, as the helpers do, keeps the type byte 0
  of its fresh buffer: the encoding of a dense one is rejected by the decoder.
\<close>

theorem built_BitID_not_decodable:
  "bind_res (BitAppendItem 1 (BitSetInitialSize 1 BitNew)) (\<lambda>b. Inr (fst (DoEncode b))) = Inr [0, 2] \<and>
   DecodeBitID [0, 2] = Inl ErrInvalidBitID"
  by code_simp

text \<open>An overlong varint moves the position before the start of the buffer, and the decoder panics.\<close>

theorem doDecode_panics: "panics (DecodeBitID [5, 128, 128, 128, 128, 128, 128, 128, 128, 128, 2])"
  by code_simp

text \<open>
  The construction from integers does not notice an item that is larger than the last one: it returns a bit identifier without
  that item whose count says two.
\<close>

theorem fromInts_unsorted:
  "bind_res (CreateBitIDFromInts [9, 3]) (\<lambda>b. Inr (bitItems (Buff b), bi_numItems b)) = Inr ([], 2)"
  by code_simp

text \<open>Duplicates are dropped from the bits and kept in the count and in the list.\<close>

theorem fromInts_duplicates:
  "bind_res (CreateBitIDFromInts [4, 4]) (\<lambda>b. Inr (bitItems (Buff b), bi_numItems b, fst (GetItemList b))) = Inr ([4], 2, [4, 4])"
  by code_simp

end
