(* ===== verification/SliceBitID.thy ===== *)
theory SliceBitID
  imports BitIDHelpers Uvarint SortedSlices
begin

text \<open>
  The bit identifier stored as a sorted slice: \<^verbatim>\<open>src/consensus/auth/bitid/sliceBitID.go\<close>, with
  \<^verbatim>\<open>uvarintEncode\<close> of \<^verbatim>\<open>utils.go\<close>. The iterator object that a bit identifier keeps for reuse is
  not modelled: \<^verbatim>\<open>NewIterator\<close> returns a fresh or a reset one in every case.
\<close>

section \<open>Data and operations\<close>

record SliceBitID =
  sli_items :: "int list"
  nonDuplicateCount :: int

record sliceBitIDIter =
  iter_items :: "int list"
  iter_idx :: nat

definition NewSliceBitIDFromInts :: "int list \<Rightarrow> SliceBitID" where
  "NewSliceBitIDFromInts from = \<lparr>sli_items = from, nonDuplicateCount = GetUniqueCount from\<rparr>"

definition SliceNew :: SliceBitID where
  "SliceNew = \<lparr>sli_items = [], nonDuplicateCount = 0\<rparr>"

definition SliceSetInitialSize :: "int \<Rightarrow> SliceBitID \<Rightarrow> SliceBitID" where
  "SliceSetInitialSize v bid = bid\<lparr>sli_items := []\<rparr>"

definition SliceDone :: "SliceBitID \<Rightarrow> SliceBitID" where
  "SliceDone bid = bid\<lparr>sli_items := [], nonDuplicateCount := 0\<rparr>"

definition SliceAppendItem :: "int \<Rightarrow> SliceBitID \<Rightarrow> SliceBitID" where
  "SliceAppendItem v bid =
     (let bid1 = (if sli_items bid = [] \<or> v \<noteq> last (sli_items bid)
                  then bid\<lparr>nonDuplicateCount := nonDuplicateCount bid + 1\<rparr> else bid)
      in bid1\<lparr>sli_items := sli_items bid1 @ [v]\<rparr>)"

definition SliceNewIterator :: "SliceBitID \<Rightarrow> sliceBitIDIter" where
  "SliceNewIterator bid = \<lparr>iter_items = sli_items bid, iter_idx = 0\<rparr>"

definition SliceNextID :: "sliceBitIDIter \<Rightarrow> (int \<times> sliceBitIDIter) option" where
  "SliceNextID iter =
     (if iter_idx iter \<ge> length (iter_items iter) then None
      else Some (iter_items iter ! iter_idx iter, iter\<lparr>iter_idx := iter_idx iter + 1\<rparr>))"

definition SliceGetBasicInfo :: "SliceBitID \<Rightarrow> int \<times> int \<times> int \<times> int" where
  "SliceGetBasicInfo bid =
     (if sli_items bid = [] then (0, 0, 0, 0)
      else (hd (sli_items bid), last (sli_items bid), int (length (sli_items bid)), nonDuplicateCount bid))"

definition slice_ops :: "(SliceBitID, sliceBitIDIter) bid_ops" where
  "slice_ops = \<lparr>NewBid = SliceNew, SetInitialSize = SliceSetInitialSize, AppendItem = \<lambda>v b. Inr (SliceAppendItem v b),
     NewIterator = SliceNewIterator, NextID = SliceNextID, GetBasicInfo = SliceGetBasicInfo\<rparr>"

definition SliceCheckBitID :: "int \<Rightarrow> SliceBitID \<Rightarrow> bool" where
  "SliceCheckBitID v bid =
     (let idx = SearchInts (sli_items bid) v
      in idx < length (sli_items bid) \<and> sli_items bid ! idx = v)"

definition uvarintEncode :: "int list \<Rightarrow> byte list" where
  "uvarintEncode l = PutUvarint (of_nat (length l)) @ concat (map (\<lambda>nxt. PutUvarint (of_int nxt)) l)"

definition SliceEncode :: "SliceBitID \<Rightarrow> byte list" where
  "SliceEncode bid = uvarintEncode (sli_items bid)"

text \<open>The loop of \<^verbatim>\<open>Decode\<close>; the third argument is \<^verbatim>\<open>prev\<close>.\<close>

fun sliceDecodeLoop :: "nat \<Rightarrow> byte list \<Rightarrow> int \<Rightarrow> SliceBitID \<Rightarrow> nat \<Rightarrow> (SliceBitID \<times> nat \<times> byte list) res" where
  "sliceDecodeLoop 0 r prev bid n = Inr (bid, n, r)"
| "sliceDecodeLoop (Suc k) r prev bid n =
     bind_res (ReadUvarint r) (\<lambda>(nxt, n1, r1).
       let val = sint nxt
       in if val < 0 then Inl ErrUnsortedBitID
          else
            (let bid1 = (if val \<noteq> prev then bid\<lparr>nonDuplicateCount := nonDuplicateCount bid + 1\<rparr> else bid)
             in sliceDecodeLoop k r1 (if val \<noteq> prev then val else prev)
                  (bid1\<lparr>sli_items := sli_items bid1 @ [val]\<rparr>) (n + n1)))"

definition SliceDecode :: "byte list \<Rightarrow> SliceBitID \<Rightarrow> (SliceBitID \<times> nat \<times> byte list) res" where
  "SliceDecode r bid =
     bind_res (ReadUvarint r) (\<lambda>(numItems, n1, r1).
       if numItems > 65535 then Inl ErrTooLargeBitID
       else sliceDecodeLoop (unat numItems) r1 (-1) (bid\<lparr>sli_items := []\<rparr>) n1)"

section \<open>The slice implements the interface\<close>

definition sliceInv :: "SliceBitID \<Rightarrow> bool" where
  "sliceInv bid \<longleftrightarrow> sorted (sli_items bid) \<and> (\<forall>v \<in> set (sli_items bid). goInt v) \<and>
     nonDuplicateCount bid = int (card (set (sli_items bid)))"

definition iterRest :: "sliceBitIDIter \<Rightarrow> int list" where
  "iterRest it = drop (iter_idx it) (iter_items it)"

lemma SliceAppendItem_spec:
  assumes "sliceInv b" "goInt v" "\<And>x. x \<in> set (sli_items b) \<Longrightarrow> x \<le> v"
  shows "sliceInv (SliceAppendItem v b)" "sli_items (SliceAppendItem v b) = sli_items b @ [v]"
proof -
  show "sli_items (SliceAppendItem v b) = sli_items b @ [v]" by (simp add: SliceAppendItem_def Let_def)
  have "v \<in> set (sli_items b) \<longleftrightarrow> sli_items b \<noteq> [] \<and> v = last (sli_items b)"
  proof (cases "sli_items b" rule: rev_cases)
    case (snoc xs x)
    then show ?thesis using assms(1,3) by (fastforce simp: sliceInv_def sorted_append)
  qed simp
  then show "sliceInv (SliceAppendItem v b)"
    using assms by (auto simp: SliceAppendItem_def Let_def sliceInv_def sorted_append insert_absorb)
qed

interpretation slice_bid: bid_builder slice_ops sli_items iterRest sliceInv sliceInv "\<lambda>_. True"
proof unfold_locales
  fix it v it' b n
  show "NextID slice_ops it = None \<Longrightarrow> iterRest it = []"
    by (simp add: slice_ops_def SliceNextID_def iterRest_def split: if_splits)
  show "NextID slice_ops it = Some (v, it') \<Longrightarrow> iterRest it = v # iterRest it'"
    by (auto simp: slice_ops_def SliceNextID_def iterRest_def Cons_nth_drop_Suc split: if_splits)
  show "sliceInv b \<Longrightarrow> iterRest (NewIterator slice_ops b) = sli_items b"
    by (simp add: slice_ops_def SliceNewIterator_def iterRest_def)
  show "sliceInv b \<Longrightarrow> bidCount slice_ops b = int (length (sli_items b))"
    by (simp add: slice_ops_def bidCount_def SliceGetBasicInfo_def)
  show "sliceInv b \<Longrightarrow> sorted (sli_items b)" "sliceInv b \<Longrightarrow> v \<in> set (sli_items b) \<Longrightarrow> goInt v"
    by (simp_all add: sliceInv_def)
  show "sliceInv (NewBid slice_ops)" "sli_items (NewBid slice_ops) = []"
    "sliceInv (SetInitialSize slice_ops n (NewBid slice_ops))" "sli_items (SetInitialSize slice_ops n (NewBid slice_ops)) = []"
    by (simp_all add: slice_ops_def SliceNew_def SliceSetInitialSize_def sliceInv_def)
  show "\<exists>b'. AppendItem slice_ops v b = Inr b' \<and> sliceInv b' \<and> sli_items b' = sli_items b @ [v]"
    if "sliceInv b" "goInt v" "\<And>x. x \<in> set (sli_items b) \<Longrightarrow> x \<le> v"
    using SliceAppendItem_spec [OF that] by (simp add: slice_ops_def)
qed simp_all

lemma NewSliceBitIDFromInts_inv: "sorted l \<Longrightarrow> (\<forall>v \<in> set l. goInt v) \<Longrightarrow> sliceInv (NewSliceBitIDFromInts l)"
  by (simp add: sliceInv_def NewSliceBitIDFromInts_def GetUniqueCount_card)

section \<open>Encoding\<close>

lemma sliceDecodeLoop_encode:
  assumes "sorted (sli_items bid @ l)" "\<forall>v \<in> set l. goInt v" "nonDuplicateCount bid = int (card (set (sli_items bid)))"
    "prev = (if sli_items bid = [] then -1 else last (sli_items bid))"
  shows "sliceDecodeLoop (length l) (concat (map (\<lambda>nxt. PutUvarint (of_int nxt)) l) @ rest) prev bid n =
    Inr (\<lparr>sli_items = sli_items bid @ l, nonDuplicateCount = int (card (set (sli_items bid @ l)))\<rparr>,
         n + length (concat (map (\<lambda>nxt. PutUvarint (of_int nxt)) l)), rest)"
  using assms
proof (induction l arbitrary: bid prev n)
  case (Cons v l)
  have v: "goInt v" "\<And>x. x \<in> set (sli_items bid) \<Longrightarrow> x \<le> v" using Cons.prems by (auto simp: sorted_append)
  have mem: "v = prev \<longleftrightarrow> v \<in> set (sli_items bid)"
  proof (cases "sli_items bid" rule: rev_cases)
    case Nil
    then show ?thesis using Cons.prems(4) v(1) by (auto simp: goInt_def)
  next
    case (snoc xs x)
    then show ?thesis using Cons.prems(1,4) by (fastforce simp: sorted_append)
  qed
  let ?b = "\<lparr>sli_items = sli_items bid @ [v],
    nonDuplicateCount = (if v \<noteq> prev then nonDuplicateCount bid + 1 else nonDuplicateCount bid)\<rparr>"
  have "nonDuplicateCount ?b = int (card (set (sli_items ?b)))"
    using mem Cons.prems(3) by (auto simp: insert_absorb)
  then have IH: "sliceDecodeLoop (length l) (concat (map (\<lambda>nxt. PutUvarint (of_int nxt)) l) @ rest) v ?b (n + length (PutUvarint (of_int v))) =
    Inr (\<lparr>sli_items = sli_items ?b @ l, nonDuplicateCount = int (card (set (sli_items ?b @ l)))\<rparr>,
         n + length (PutUvarint (of_int v)) + length (concat (map (\<lambda>nxt. PutUvarint (of_int nxt)) l)), rest)"
    using Cons.prems by (intro Cons.IH) auto
  have "\<not> sint (of_int v :: uint64) < 0" "sint (of_int v :: uint64) = v" using goInt_word(1) [OF v(1)] v(1) by (auto simp: goInt_def)
  then show ?case using IH by (cases "v = prev") (simp_all add: Let_def, cases bid, simp, cases bid, simp)
qed simp

text \<open>
  \<^verbatim>\<open>SliceBitID.Decode\<close> of an encoded bit identifier returns it, whatever follows in the
  input: the encoding is prefix free. The reader must be a fresh bit identifier.
\<close>

lemma SliceDecode_SliceEncode:
  assumes "sliceInv bid" "length (sli_items bid) \<le> 65535" "nonDuplicateCount b0 = 0"
  shows "SliceDecode (SliceEncode bid @ rest) b0 = Inr (bid, length (SliceEncode bid), rest)"
proof -
  let ?n = "of_nat (length (sli_items bid)) :: uint64"
  have u: "unat ?n = length (sli_items bid)" using assms(2) by (simp add: unat_of_nat take_bit_nat_eq_self)
  then have "\<not> ?n > 65535" using assms(2) by (simp add: word_less_nat_alt)
  moreover have "bid = \<lparr>sli_items = sli_items bid, nonDuplicateCount = int (card (set (sli_items bid)))\<rparr>"
    using assms(1) by (cases bid) (simp add: sliceInv_def)
  ultimately show ?thesis
    using sliceDecodeLoop_encode [of "b0\<lparr>sli_items := []\<rparr>" "sli_items bid" "-1" rest "length (PutUvarint ?n)"] assms(1,3) u
    by (simp add: SliceDecode_def SliceEncode_def uvarintEncode_def sliceInv_def)
qed

section \<open>The helpers on slices\<close>

text \<open>
  \<^verbatim>\<open>SubHelper\<close> always returns: with the multiset difference of the items when the
  requested safety holds, and with \<^verbatim>\<open>ErrInvalidBitIDSub\<close> otherwise.
\<close>

lemma Slice_SubHelper:
  assumes "sliceInv b1" "sliceInv b2"
  shows "if subFails safeSub (sli_items b1) (sli_items b2)
    then SubHelper slice_ops b1 b2 safeSub = Some (Inl ErrInvalidBitIDSub)
    else \<exists>ret. SubHelper slice_ops b1 b2 safeSub = Some (Inr ret) \<and> sliceInv ret \<and>
           mset (sli_items ret) = mset (sli_items b1) - mset (sli_items b2)"
  using slice_bid.SubHelper_spec [OF assms] by simp

text \<open>
  \<^verbatim>\<open>AddHelper\<close> always returns: with the multiset sum when duplicates are allowed, with the sorted
  union without duplicates when they are not, and with \<^verbatim>\<open>ErrIntersectingBitIDs\<close> exactly when duplicates are an
  error and there is one.
\<close>

lemma Slice_AddHelper:
  assumes "sliceInv b1" "sliceInv b2"
  shows "if errOnDup
    then (if distinct (sli_items b1 @ sli_items b2)
          then \<exists>ret. AddHelper slice_ops b1 b2 allowDup True = Some (Inr ret) \<and> sliceInv ret \<and>
                 sli_items ret = sorted_list_of_set (set (sli_items b1) \<union> set (sli_items b2))
          else AddHelper slice_ops b1 b2 allowDup True = Some (Inl ErrIntersectingBitIDs))
    else \<exists>ret. AddHelper slice_ops b1 b2 allowDup False = Some (Inr ret) \<and> sliceInv ret \<and>
           (if allowDup then mset (sli_items ret) = mset (sli_items b1) + mset (sli_items b2)
            else sli_items ret = sorted_list_of_set (set (sli_items b1) \<union> set (sli_items b2)))"
  using slice_bid.AddHelper_spec [OF assms] by (cases allowDup) (simp_all only: if_True if_False split: if_splits, blast+)

text \<open>
  \<^verbatim>\<open>AddHelperSet\<close>, which merges any number of bit identifiers by repeatedly taking the smallest
  head, returns the multiset sum, or the sorted union without duplicates.
\<close>

lemma Slice_AddHelperSet:
  assumes "\<forall>b \<in> set bids. sliceInv b"
  shows "\<exists>ret. AddHelperSet slice_ops allowDup False bids = Some (Inr ret) \<and> sliceInv ret \<and>
    (if allowDup then mset (sli_items ret) = (\<Sum>b \<leftarrow> bids. mset (sli_items b))
     else sli_items ret = sorted_list_of_set (\<Union>b \<in> set bids. set (sli_items b)))"
  using slice_bid.AddHelperSet_spec [OF bspec [OF assms]] by (cases allowDup) simp_all

text \<open>
  \<^verbatim>\<open>GetNewItemsHelper\<close> returns the items of the second bit identifier that the first one lacks,
  each once and in ascending order, and \<^verbatim>\<open>HasNewItemsHelper\<close> tells whether there is one.
\<close>

lemma Slice_newItems:
  assumes "sliceInv b1" "sliceInv b2"
  shows "(\<exists>ret. GetNewItemsHelper slice_ops b1 b2 = Some (Inr ret) \<and> sliceInv ret \<and>
      sli_items ret = sorted_list_of_set (set (sli_items b2) - set (sli_items b1))) \<and>
    HasNewItemsHelper slice_ops b1 b2 = Some (\<not> set (sli_items b2) \<subseteq> set (sli_items b1))"
  using slice_bid.GetNewItemsHelper_spec [OF assms] slice_bid.HasNewItemsHelper_spec [OF assms] by blast

text \<open>
  The three intersection helpers return the multiset intersection as a sorted list, its size, and
  whether it is empty.
\<close>

lemma Slice_intersection:
  assumes "sliceInv b1" "sliceInv b2"
  shows "CheckIntersectionHelper slice_ops b1 b2 = Some (sorted_list_of_multiset (mset (sli_items b1) \<inter># mset (sli_items b2))) \<and>
    HasIntersectionCountHelper slice_ops b1 b2 = Some (int (size (mset (sli_items b1) \<inter># mset (sli_items b2)))) \<and>
    HasIntersectionHelper slice_ops b1 b2 = Some (set (sli_items b1) \<inter> set (sli_items b2) \<noteq> {})"
  using slice_bid.CheckIntersectionHelper_spec [OF assms] slice_bid.HasIntersectionCountHelper_spec [OF assms]
    slice_bid.HasIntersectionHelper_spec [OF assms] by blast

text \<open>
  The binary search of \<^verbatim>\<open>CheckBitID\<close> finds exactly the items of the bit identifier.
\<close>

lemma SliceCheckBitID_iff:
  assumes "sliceInv bid"
  shows "SliceCheckBitID v bid \<longleftrightarrow> v \<in> set (sli_items bid)"
  using SearchInts_found [of "sli_items bid" v] assms by (simp add: SliceCheckBitID_def sliceInv_def Let_def)

section \<open>Where the code falls short of its contract\<close>

text \<open>\<^verbatim>\<open>Decode\<close> accepts items in any order, although every other operation relies on the order.\<close>

theorem SliceDecode_unsorted:
  "SliceDecode [2, 5, 3] SliceNew = Inr (\<lparr>sli_items = [5, 3], nonDuplicateCount = 2\<rparr>, 3, []) \<and>
   \<not> SliceCheckBitID 5 \<lparr>sli_items = [5, 3], nonDuplicateCount = 2\<rparr>"
  by code_simp

text \<open>
  \<^verbatim>\<open>HasNewItemsBothHelper\<close> reports a new item whenever one of the first two bit identifiers is exhausted, even if
  the third one only holds items of the first two.
\<close>

theorem HasNewItemsBothHelper_overreports:
  "HasNewItemsBothHelper slice_ops (NewSliceBitIDFromInts [1]) (NewSliceBitIDFromInts [2]) (NewSliceBitIDFromInts [1, 2]) = Some True"
  by code_simp

text \<open>\<^verbatim>\<open>findHepler\<close> does not advance its iterator: it does not return unless the first item is the one searched.\<close>

theorem findHepler_diverges: "findHepler slice_ops 2 (NewSliceBitIDFromInts [1, 2]) = None"
proof -
  have "sliceInv (NewSliceBitIDFromInts [1, 2])" by (rule NewSliceBitIDFromInts_inv) (simp_all add: goInt_def)
  then show ?thesis using slice_bid.findHepler_spec [of "NewSliceBitIDFromInts [1, 2]" 2] by (simp add: NewSliceBitIDFromInts_def)
qed

end
