(* ===== verification/MultiBitID.thy ===== *)
theory MultiBitID
  imports BitID SliceBitID
begin

text \<open>
  The bit identifier with duplicates, \<^verbatim>\<open>src/consensus/auth/bitid/multibitid.go\<close> and
  \<^verbatim>\<open>multibitidhelpers.go\<close>: a sorted slice of items that is encoded as the bitmap of its distinct items followed by
  the surplus copies. A nil slice \<^verbatim>\<open>encode\<close> is \<open>None\<close>, which the code tells apart from an empty one.
\<close>

section \<open>Data and operations\<close>

record MultiBitID =
  mu_items :: "int list"
  mu_encode :: "byte list option"
  mu_str :: "byte list"
  uniqueItemCount :: int

abbreviation BitIDMulti :: byte where "BitIDMulti \<equiv> 4"

definition MuNew :: MultiBitID where
  "MuNew = \<lparr>mu_items = [], mu_encode = None, mu_str = [], uniqueItemCount = 0\<rparr>"

definition CreateMultiBitIDFromInts :: "int list \<Rightarrow> MultiBitID res" where
  "CreateMultiBitIDFromInts items =
     (if \<not> sorted items then Inl ErrUnsortedBitID
      else if items \<noteq> [] \<and> hd items < 0 then Inl ErrInvalidBitID
      else Inr (MuNew\<lparr>uniqueItemCount := GetUniqueCount items, mu_items := items\<rparr>))"

text \<open>\<^verbatim>\<open>DoMakeCopy\<close> allocates the copy of \<^verbatim>\<open>encode\<close>, which is therefore never nil.\<close>

definition MuDoMakeCopy :: "MultiBitID \<Rightarrow> MultiBitID" where
  "MuDoMakeCopy bid = bid\<lparr>mu_encode := Some (case mu_encode bid of None \<Rightarrow> [] | Some e \<Rightarrow> e)\<rparr>"

definition MuMakeCopy :: "MultiBitID \<Rightarrow> MultiBitID" where
  "MuMakeCopy bid = MuNew\<lparr>uniqueItemCount := uniqueItemCount bid, mu_items := mu_items bid\<rparr>"

definition MuNewIterator :: "MultiBitID \<Rightarrow> sliceBitIDIter" where
  "MuNewIterator bid = \<lparr>iter_items = mu_items bid, iter_idx = 0\<rparr>"

definition MuGetBasicInfo :: "MultiBitID \<Rightarrow> int \<times> int \<times> int \<times> int" where
  "MuGetBasicInfo bid =
     (if mu_items bid = [] then (0, 0, 0, 0)
      else (hd (mu_items bid), last (mu_items bid), int (length (mu_items bid)), uniqueItemCount bid))"

definition MuSetInitialSize :: "int \<Rightarrow> MultiBitID \<Rightarrow> MultiBitID" where
  "MuSetInitialSize v bid = bid\<lparr>mu_items := []\<rparr>"

definition MuAppendItem :: "int \<Rightarrow> MultiBitID \<Rightarrow> MultiBitID" where
  "MuAppendItem v bid =
     (let bid1 = (if mu_items bid = [] \<or> v \<noteq> last (mu_items bid)
                  then bid\<lparr>uniqueItemCount := uniqueItemCount bid + 1\<rparr> else bid)
      in bid1\<lparr>mu_items := mu_items bid1 @ [v]\<rparr>)"

definition multi_ops :: "(MultiBitID, sliceBitIDIter) bid_ops" where
  "multi_ops = \<lparr>NewBid = MuNew, SetInitialSize = MuSetInitialSize, AppendItem = \<lambda>v b. Inr (MuAppendItem v b),
     NewIterator = MuNewIterator, NextID = SliceNextID, GetBasicInfo = MuGetBasicInfo\<rparr>"

text \<open>\<^verbatim>\<open>NextID\<close> of the other interface; the state of its iterator is the index.\<close>

definition MuNextID :: "MultiBitID \<Rightarrow> nat \<Rightarrow> (int \<times> nat) option" where
  "MuNextID bid iterIdx = (if iterIdx \<ge> length (mu_items bid) then None else Some (mu_items bid ! iterIdx, iterIdx + 1))"

section \<open>Encoding\<close>

definition MuDoEncode :: "MultiBitID \<Rightarrow> (byte list \<times> MultiBitID) res" where
  "MuDoEncode bid =
     (if mu_items bid = [] then Inr ([], bid)
      else (case mu_encode bid of Some e \<Rightarrow> Inr (e, bid)
            | None \<Rightarrow>
                bind_res (GetDuplicates (mu_items bid)) (\<lambda>(nonDuplicates, duplicates).
                  case CreateBitIDFromInts nonDuplicates of Inl err \<Rightarrow> Inl (Panic ''invalid items'')
                  | Inr prebids \<Rightarrow>
                      (let prebid = fst (DoEncode prebids);
                           enc = concat (map (\<lambda>nxt. PutUvarint (of_int nxt)) duplicates);
                           fullEnc = BitIDMulti # leBytes 4 (of_nat (length prebid) :: uint32) @ prebid @ enc
                       in Inr (fullEnc, bid\<lparr>mu_encode := Some fullEnc\<rparr>)))))"

text \<open>
  The loop over the surplus copies in \<^verbatim>\<open>doDecode\<close>. It does not check the number of bytes read: \<open>None\<close> is a loop that
  never returns.
\<close>

partial_function (option) dupDecodeLoop :: "byte list \<Rightarrow> int \<Rightarrow> int list \<Rightarrow> int list res option" where
  "dupDecodeLoop buff pos duplicates =
     (if pos < int (length buff) then
        (if pos < 0 then Some (Inl (Panic ''slice bounds out of range''))
         else (case Uvarint_go (drop (nat pos) buff) of (v, n) \<Rightarrow> dupDecodeLoop buff (pos + n) (duplicates @ [sint v])))
      else Some (Inr duplicates))"

declare dupDecodeLoop.simps [code]

definition MuDoDecode :: "byte list \<Rightarrow> MultiBitID \<Rightarrow> MultiBitID res option" where
  "MuDoDecode buff bid =
     (if buff = [] then Some (Inr bid)
      else if length buff < 5 then Some (Inl ErrInvalidBitID)
      else if hd buff \<noteq> BitIDMulti then Some (Inl ErrInvalidBitIDEncoding)
      else
        (let prebidEnd = unat (leVal (take 4 (tl buff)) :: uint32) + 5
         in if length buff < prebidEnd then Some (Inl ErrInvalidBitID)
            else (case DecodeBitID (drop 5 (take prebidEnd buff)) of Inl e \<Rightarrow> Some (Inl e)
                  | Inr prebid \<Rightarrow>
                      (case dupDecodeLoop buff (int prebidEnd) [] of None \<Rightarrow> None
                       | Some (Inl e) \<Rightarrow> Some (Inl e)
                       | Some (Inr duplicates) \<Rightarrow>
                           if \<not> sorted duplicates then Some (Inl ErrInvalidBitID)
                           else
                             (let preItems = fst (GetItemList prebid)
                              in Some (Inr (bid\<lparr>uniqueItemCount := int (length preItems), mu_items := SortSorted preItems duplicates,
                                               mu_encode := Some buff, mu_str := buff\<rparr>)))))))"

definition DecodeMultiBitID :: "byte list \<Rightarrow> MultiBitID res option" where
  "DecodeMultiBitID buff = MuDoDecode buff MuNew"

definition MuEncode :: "MultiBitID \<Rightarrow> (byte list \<times> MultiBitID) res" where
  "MuEncode bid = bind_res (MuDoEncode bid) (\<lambda>(enc, bid1). Inr (EncodeHelper enc, bid1))"

definition MuDecode :: "byte list \<Rightarrow> MultiBitID \<Rightarrow> (nat \<times> MultiBitID \<times> byte list) res option" where
  "MuDecode r bid =
     (case DecodeHelper r of Inl e \<Rightarrow> Some (Inl e)
      | Inr (n, buff, r1) \<Rightarrow> map_option (\<lambda>x. bind_res x (\<lambda>bid1. Inr (n, bid1, r1))) (MuDoDecode buff bid))"

definition MuGetStr :: "MultiBitID \<Rightarrow> (byte list \<times> MultiBitID) res" where
  "MuGetStr bid =
     (if mu_str bid = [] then
        bind_res (if mu_encode bid = None then bind_res (MuDoEncode bid) (\<lambda>(_, b). Inr b) else Inr bid) (\<lambda>bid1.
          let s = (case mu_encode bid1 of None \<Rightarrow> [] | Some e \<Rightarrow> e) in Inr (s, bid1\<lparr>mu_str := s\<rparr>))
      else Inr (mu_str bid, bid))"

section \<open>Set operations\<close>

text \<open>
  The loops move through the second slice: \<open>part\<close> is \<^verbatim>\<open>partialItemList\<close>, the part that is still to be searched. A step
  drops the items before the position found; \<open>drop\<close> past the end is the empty slice, as the code has it.
\<close>

definition searchHit :: "int list \<Rightarrow> int \<Rightarrow> bool" where
  "searchHit part nxt = (SearchInts part nxt < length part \<and> part ! SearchInts part nxt = nxt)"

fun muHasNewLoop :: "int list \<Rightarrow> int list \<Rightarrow> bool" where
  "muHasNewLoop [] part = False"
| "muHasNewLoop (nxt # other) part =
     (if \<not> searchHit part nxt then True else muHasNewLoop other (drop (SearchInts part nxt) part))"

definition MuHasNewItems :: "MultiBitID \<Rightarrow> MultiBitID \<Rightarrow> bool" where
  "MuHasNewItems bid other = muHasNewLoop (mu_items other) (mu_items bid)"

fun muNewItemsLoop :: "int list \<Rightarrow> int list \<Rightarrow> int list \<Rightarrow> int list" where
  "muNewItemsLoop [] part newItemList = newItemList"
| "muNewItemsLoop (nxt # other) part newItemList =
     muNewItemsLoop other (drop (SearchInts part nxt) part) (if searchHit part nxt then newItemList else appendNew nxt newItemList)"

definition MuGetNewItems :: "MultiBitID \<Rightarrow> MultiBitID \<Rightarrow> MultiBitID" where
  "MuGetNewItems bid other = MuNew\<lparr>mu_items := muNewItemsLoop (mu_items other) (mu_items bid) []\<rparr>"

fun muHasIntersectLoop :: "int list \<Rightarrow> int list \<Rightarrow> bool" where
  "muHasIntersectLoop [] part = False"
| "muHasIntersectLoop (nxt # l) part =
     (if searchHit part nxt then True
      else if SearchInts part nxt < length part then muHasIntersectLoop l (drop (SearchInts part nxt) part) else False)"

definition MuHasIntersection :: "MultiBitID \<Rightarrow> MultiBitID \<Rightarrow> bool" where
  "MuHasIntersection bid other = muHasIntersectLoop (mu_items bid) (mu_items other)"

fun muIntersectLoop :: "int list \<Rightarrow> int list \<Rightarrow> int list \<Rightarrow> int list" where
  "muIntersectLoop [] part newItemList = newItemList"
| "muIntersectLoop (nxt # l) part newItemList =
     (let hit = searchHit part nxt;
          rest = (if hit then SearchInts part nxt + 1 else SearchInts part nxt);
          out = (if hit then newItemList @ [nxt] else newItemList)
      in if rest < length part then muIntersectLoop l (drop rest part) out else out)"

definition MuCheckIntersection :: "MultiBitID \<Rightarrow> MultiBitID \<Rightarrow> int list" where
  "MuCheckIntersection bid other = muIntersectLoop (mu_items bid) (mu_items other) []"

definition MuCheckBitID :: "int \<Rightarrow> MultiBitID \<Rightarrow> bool" where
  "MuCheckBitID ID bid = searchHit (mu_items bid) ID"

definition MuAddBitID :: "int \<Rightarrow> bool \<Rightarrow> nat \<Rightarrow> MultiBitID \<Rightarrow> (bool \<times> nat \<times> MultiBitID) res" where
  "MuAddBitID ID allowDup iterIdx bid =
     (if allowDup then
        bind_res (InsertInSortedSlice (mu_items bid) ID iterIdx) (\<lambda>(l, idx).
          Inr (True, idx, bid\<lparr>mu_items := l, mu_encode := None\<rparr>))
      else
        bind_res (InsertIfNotFound (mu_items bid) ID iterIdx) (\<lambda>(l, idx, inserted).
          Inr (inserted, idx, if inserted then bid\<lparr>mu_items := l, mu_encode := None\<rparr> else bid\<lparr>mu_items := l\<rparr>)))"

definition MergeMultiBitID :: "MultiBitID \<Rightarrow> MultiBitID \<Rightarrow> MultiBitID" where
  "MergeMultiBitID bid1 bid2 = MuNew\<lparr>mu_items := SortSorted (mu_items bid1) (mu_items bid2)\<rparr>"

definition MergeMultiBitIDList :: "MultiBitID list \<Rightarrow> MultiBitID" where
  "MergeMultiBitIDList bidList = MuNew\<lparr>mu_items := SortSortedList (map mu_items bidList)\<rparr>"

text \<open>A nil argument is \<open>None\<close>.\<close>

definition MergeMultiBitIDNoDup :: "MultiBitID option \<Rightarrow> MultiBitID option \<Rightarrow> MultiBitID" where
  "MergeMultiBitIDNoDup bid1 bid2 =
     (let l1 = (case bid1 of None \<Rightarrow> [] | Some b \<Rightarrow> mu_items b); l2 = (case bid2 of None \<Rightarrow> [] | Some b \<Rightarrow> mu_items b)
      in MuNew\<lparr>mu_items := SortSortedNoDuplicates l1 l2\<rparr>)"

fun muSubLoop :: "int list \<Rightarrow> int list \<Rightarrow> int list \<Rightarrow> int list" where
  "muSubLoop [] part newItemList = newItemList"
| "muSubLoop (nxt # l) part newItemList =
     (let hit = searchHit part nxt;
          rest = (if hit then SearchInts part nxt + 1 else SearchInts part nxt)
      in muSubLoop l (drop rest part) (if hit then newItemList else newItemList @ [nxt]))"

definition SubMultiBitID :: "MultiBitID \<Rightarrow> MultiBitID \<Rightarrow> MultiBitID" where
  "SubMultiBitID bid1 bid2 = MuNew\<lparr>mu_items := muSubLoop (mu_items bid1) (mu_items bid2) []\<rparr>"

section \<open>The set operations\<close>

lemma searchHit_iff [simp]: "sorted part \<Longrightarrow> searchHit part v \<longleftrightarrow> v \<in> set part"
  by (simp add: searchHit_def SearchInts_found)

text \<open>A search cuts the sorted slice before the smallest item that is not less than the one searched.\<close>

lemma search_cases:
  assumes "sorted part"
  obtains (miss) A B where "part = A @ B" "drop (SearchInts part v) part = B" "\<forall>x \<in> set A. x < v" "\<forall>x \<in> set B. v < x"
      "v \<notin> set part" "sorted B"
    | (hit) A B where "part = A @ v # B" "drop (SearchInts part v) part = v # B" "drop (Suc (SearchInts part v)) part = B"
      "\<forall>x \<in> set A. x < v" "\<forall>x \<in> set B. v \<le> x" "v \<in> set part" "sorted B"
proof -
  let ?A = "takeWhile (\<lambda>x. x < v) part" and ?B = "dropWhile (\<lambda>x. x < v) part"
  have p: "part = ?A @ ?B" "drop (SearchInts part v) part = ?B" "\<forall>x \<in> set ?A. x < v"
    using drop_SearchInts [OF assms] by (auto dest: set_takeWhileD)
  have s: "sorted ?B" using assms by (rule sorted_dropWhile)
  show thesis
  proof (cases ?B)
    case Nil
    then show thesis using miss [OF p] p(1,3) by (metis empty_iff empty_set append_Nil2 less_irrefl s)
  next
    case (Cons y B)
    have y: "v \<le> y" using hd_dropWhile [of "\<lambda>x. x < v" part] Cons by simp
    then have ge: "\<forall>x \<in> set ?B. v \<le> x" using s Cons by auto
    show thesis
    proof (cases "y = v")
      case True
      have "drop (Suc (SearchInts part v)) part = B" using p(2) Cons by (metis drop_Suc list.sel(3) tl_drop)
      then show thesis using hit [of ?A B] True Cons p s ge by (metis list.set_intros sorted_wrt.simps(2) in_set_conv_decomp)
    next
      case False
      then have "\<forall>x \<in> set ?B. v < x" using y s Cons by force
      moreover from this have "v \<notin> set part" using p(1,3) by (metis Un_iff less_irrefl set_append)
      ultimately show thesis using miss [OF p] s by blast
    qed
  qed
qed

lemma searchHit_iff' : "sorted part \<Longrightarrow> v \<le> w \<Longrightarrow> w \<in> set (drop (SearchInts part v) part) \<longleftrightarrow> w \<in> set part"
  by (rule search_cases [of part v]) auto

lemma sorted_drop_search: "sorted part \<Longrightarrow> sorted (drop n part)"
  by (rule sorted_wrt_drop)

lemma muHasNewLoop_spec: "sorted other \<Longrightarrow> sorted part \<Longrightarrow> muHasNewLoop other part \<longleftrightarrow> \<not> set other \<subseteq> set part"
proof (induction other arbitrary: part)
  case (Cons v other)
  then have "set other \<subseteq> set (drop (SearchInts part v) part) \<longleftrightarrow> set other \<subseteq> set part"
    using searchHit_iff' [of part v] by (simp add: subset_iff)
  then show ?case using Cons by (simp add: sorted_drop_search)
qed simp

lemma muNewItemsLoop_spec:
  "sorted other \<Longrightarrow> sorted part \<Longrightarrow> muNewItemsLoop other part acc = fold appendNew (filter (\<lambda>v. v \<notin> set part) other) acc"
proof (induction other arbitrary: part acc)
  case (Cons v other)
  then have "filter (\<lambda>w. w \<notin> set (drop (SearchInts part v) part)) other = filter (\<lambda>w. w \<notin> set part) other"
    using searchHit_iff' [of part v] by (intro filter_cong) auto
  then show ?case using Cons by (simp add: sorted_drop_search)
qed simp

lemma muHasIntersectLoop_Nil [simp]: "\<not> muHasIntersectLoop l []"
  by (cases l) (simp_all add: searchHit_def)

lemma muIntersectLoop_Nil [simp]: "muIntersectLoop l [] acc = acc"
  by (cases l) (simp_all add: searchHit_def)

lemma muHasIntersectLoop_spec: "sorted l \<Longrightarrow> sorted part \<Longrightarrow> muHasIntersectLoop l part \<longleftrightarrow> set l \<inter> set part \<noteq> {}"
proof (induction l arbitrary: part)
  case (Cons v l)
  have IH: "muHasIntersectLoop l (drop (SearchInts part v) part) \<longleftrightarrow> set l \<inter> set part \<noteq> {}"
    using Cons searchHit_iff' [of part v] by (simp add: sorted_drop_search) (metis disjoint_iff)
  show ?case using Cons.prems IH by (cases "SearchInts part v < length part") auto
qed simp

lemma muIntersectLoop_step:
  "muIntersectLoop (v # l) part acc =
     (if searchHit part v then muIntersectLoop l (drop (Suc (SearchInts part v)) part) (acc @ [v])
      else muIntersectLoop l (drop (SearchInts part v) part) acc)"
  by (simp add: Let_def)

declare muIntersectLoop.simps(2) [simp del]

lemma mset_disjoint_prefix:
  assumes "\<And>x. x \<in># A \<Longrightarrow> x \<notin># L"
  shows "L \<inter># (A + B) = L \<inter># B" "L - (A + B) = L - B"
proof -
  have "count L x = 0 \<or> count A x = 0" for x using assms [of x] by (meson not_in_iff)
  then show "L \<inter># (A + B) = L \<inter># B" "L - (A + B) = L - B"
    by (intro multiset_eqI; metis (no_types) add_0 count_diff count_inter_mset count_union diff_0_eq_0 min_0L)+
qed

lemma mset_search_step:
  assumes "sorted (v # l)" "\<forall>x \<in> set A. x < v"
  shows "v \<notin> set B \<Longrightarrow> mset (v # l) \<inter># mset (A @ B) = mset l \<inter># mset B"
    "mset (v # l) \<inter># mset (A @ v # B) = add_mset v (mset l \<inter># mset B)"
    "v \<notin> set B \<Longrightarrow> mset (v # l) - mset (A @ B) = add_mset v (mset l - mset B)"
    "mset (v # l) - mset (A @ v # B) = mset l - mset B"
proof -
  have "x \<notin># mset (v # l)" if "x \<in># mset A" for x using assms that by force
  note d = mset_disjoint_prefix [where A = "mset A", OF this]
  show "v \<notin> set B \<Longrightarrow> mset (v # l) \<inter># mset (A @ B) = mset l \<inter># mset B"
    "mset (v # l) \<inter># mset (A @ v # B) = add_mset v (mset l \<inter># mset B)"
    "v \<notin> set B \<Longrightarrow> mset (v # l) - mset (A @ B) = add_mset v (mset l - mset B)"
    "mset (v # l) - mset (A @ v # B) = mset l - mset B"
    using d(1) [of "mset B"] d(1) [of "mset (v # B)"] d(2) [of "mset B"] d(2) [of "mset (v # B)"]
    by (simp_all add: inter_add_left1 add_mset_diff_bothsides)
qed

lemma muIntersectLoop_spec:
  assumes "sorted l" "sorted part" "sorted acc" "\<And>x y. x \<in> set acc \<Longrightarrow> y \<in> set l \<Longrightarrow> x \<le> y"
  shows "sorted (muIntersectLoop l part acc) \<and> mset (muIntersectLoop l part acc) = mset acc + (mset l \<inter># mset part)"
  using assms
proof (induction l arbitrary: part acc)
  case (Cons v l)
  from Cons.prems(2) show ?case
  proof (cases rule: search_cases [of part v])
    case (miss A B)
    then have "v \<notin> set B" by auto
    then show ?thesis using miss Cons mset_search_step(1) [OF Cons.prems(1) miss(3)] by (simp add: muIntersectLoop_step)
  next
    case (hit A B)
    then have "sorted (muIntersectLoop l B (acc @ [v])) \<and> mset (muIntersectLoop l B (acc @ [v])) = mset (acc @ [v]) + (mset l \<inter># mset B)"
      using Cons.prems by (intro Cons.IH) (auto simp: sorted_append)
    then show ?thesis using hit Cons.prems mset_search_step(2) [OF Cons.prems(1) hit(4)] by (simp add: muIntersectLoop_step)
  qed
qed simp

lemma muSubLoop_spec:
  assumes "sorted l" "sorted part" "sorted acc" "\<And>x y. x \<in> set acc \<Longrightarrow> y \<in> set l \<Longrightarrow> x \<le> y"
  shows "sorted (muSubLoop l part acc) \<and> mset (muSubLoop l part acc) = mset acc + (mset l - mset part)"
  using assms
proof (induction l arbitrary: part acc)
  case (Cons v l)
  from Cons.prems(2) show ?case
  proof (cases rule: search_cases [of part v])
    case (miss A B)
    then have "v \<notin> set B" by auto
    moreover have "sorted (muSubLoop l B (acc @ [v])) \<and> mset (muSubLoop l B (acc @ [v])) = mset (acc @ [v]) + (mset l - mset B)"
      using miss Cons.prems by (intro Cons.IH) (auto simp: sorted_append)
    ultimately show ?thesis using miss Cons.prems mset_search_step(3) [OF Cons.prems(1) miss(3)] by simp
  next
    case (hit A B)
    then show ?thesis using Cons mset_search_step(4) [OF Cons.prems(1) hit(4)] by simp
  qed
qed simp

section \<open>The slice with duplicates implements the interface\<close>

definition muInv :: "MultiBitID \<Rightarrow> bool" where
  "muInv bid \<longleftrightarrow> sorted (mu_items bid) \<and> (\<forall>v \<in> set (mu_items bid). goInt v)"

definition muBuild :: "MultiBitID \<Rightarrow> bool" where
  "muBuild bid \<longleftrightarrow> muInv bid \<and> uniqueItemCount bid = int (card (set (mu_items bid)))"

lemma MuAppendItem_spec:
  assumes "muBuild b" "goInt v" "\<And>x. x \<in> set (mu_items b) \<Longrightarrow> x \<le> v"
  shows "muBuild (MuAppendItem v b)" "mu_items (MuAppendItem v b) = mu_items b @ [v]"
proof -
  show "mu_items (MuAppendItem v b) = mu_items b @ [v]" by (simp add: MuAppendItem_def Let_def)
  have "v \<in> set (mu_items b) \<longleftrightarrow> mu_items b \<noteq> [] \<and> v = last (mu_items b)"
  proof (cases "mu_items b" rule: rev_cases)
    case (snoc xs x)
    then show ?thesis using assms(1,3) by (fastforce simp: muBuild_def muInv_def sorted_append)
  qed simp
  then show "muBuild (MuAppendItem v b)"
    using assms by (auto simp: MuAppendItem_def Let_def muBuild_def muInv_def sorted_append insert_absorb)
qed

interpretation multi_bid: bid_builder multi_ops mu_items iterRest muInv muBuild "\<lambda>_. True"
proof unfold_locales
  fix it v it' b n
  show "NextID multi_ops it = None \<Longrightarrow> iterRest it = []" "NextID multi_ops it = Some (v, it') \<Longrightarrow> iterRest it = v # iterRest it'"
    using slice_bid.next_None [of it] slice_bid.next_Some [of it v it'] by (simp_all add: multi_ops_def slice_ops_def)
  show "muInv b \<Longrightarrow> iterRest (NewIterator multi_ops b) = mu_items b"
    by (simp add: multi_ops_def MuNewIterator_def iterRest_def)
  show "muInv b \<Longrightarrow> bidCount multi_ops b = int (length (mu_items b))"
    by (simp add: multi_ops_def bidCount_def MuGetBasicInfo_def)
  show "muInv b \<Longrightarrow> sorted (mu_items b)" "muInv b \<Longrightarrow> v \<in> set (mu_items b) \<Longrightarrow> goInt v" "muBuild b \<Longrightarrow> muInv b"
    by (simp_all add: muInv_def muBuild_def)
  show "muBuild (NewBid multi_ops)" "mu_items (NewBid multi_ops) = []"
    "muBuild (SetInitialSize multi_ops n (NewBid multi_ops))" "mu_items (SetInitialSize multi_ops n (NewBid multi_ops)) = []"
    by (simp_all add: multi_ops_def MuNew_def MuSetInitialSize_def muBuild_def muInv_def)
  show "\<exists>b'. AppendItem multi_ops v b = Inr b' \<and> muBuild b' \<and> mu_items b' = mu_items b @ [v]"
    if "muBuild b" "goInt v" "\<And>x. x \<in> set (mu_items b) \<Longrightarrow> x \<le> v"
    using MuAppendItem_spec [OF that] by (simp add: multi_ops_def)
qed simp_all

section \<open>Encoding and decoding\<close>

lemma dupDecodeLoop_encode:
  assumes "\<forall>v \<in> set l. goInt v"
  shows "dupDecodeLoop (pre @ concat (map (\<lambda>nxt. PutUvarint (of_int nxt)) l)) (int (length pre)) acc = Some (Inr (acc @ l))"
  using assms
proof (induction l arbitrary: pre acc)
  case Nil
  then show ?case by (subst dupDecodeLoop.simps) simp
next
  case (Cons v l)
  let ?put = "PutUvarint (of_int v)" and ?rest = "concat (map (\<lambda>nxt. PutUvarint (of_int nxt)) l)"
  have v: "sint (of_int v :: uint64) = v" using goInt_word(1) [of v] Cons.prems by simp
  have pos: "\<not> int (length ?put) + k \<le> 0" if "0 \<le> k" for k
    using that length_greater_0_conv [of ?put] by (simp add: PutUvarint_ne del: length_greater_0_conv)
  have "dupDecodeLoop (pre @ ?put @ ?rest) (int (length pre)) acc =
      dupDecodeLoop (pre @ ?put @ ?rest) (int (length pre) + int (length ?put)) (acc @ [v])"
    using v by (subst dupDecodeLoop.simps) (simp add: Uvarint_go_Put not_less pos)
  also have "\<dots> = Some (Inr ((acc @ [v]) @ l))" using Cons.IH [of "pre @ ?put" "acc @ [v]"] Cons.prems by simp
  finally show ?case by simp
qed

lemma small_distinct_length:
  assumes "distinct l" "\<forall>v \<in> set l. 0 \<le> v \<and> v < (2 ^ 15 - 1 :: int)"
  shows "length l < 2 ^ 15"
proof -
  have "card (set l) \<le> card {0..<2 ^ 15 - 1 :: int}" using assms(2) by (intro card_mono) auto
  then show ?thesis using distinct_card [OF assms(1)] by simp
qed

lemma leVal_length: "n < 2 ^ 32 \<Longrightarrow> unat (leVal (leBytes 4 (of_nat n :: uint32)) :: uint32) = n"
  by (simp add: leVal_leBytes unat_of_nat take_bit_word_eq_self)

lemma DecodeMultiBitID_parts:
  assumes "length sz = 4" "unat (leVal sz :: uint32) = length pre" "DecodeBitID pre = Inr pb" "sorted dup"
    and d: "dupDecodeLoop (BitIDMulti # sz @ pre @ enc) (int (length pre + 5)) [] = Some (Inr dup)"
  shows "DecodeMultiBitID (BitIDMulti # sz @ pre @ enc) =
    Some (Inr (MuNew\<lparr>uniqueItemCount := int (length (fst (GetItemList pb))), mu_items := SortSorted (fst (GetItemList pb)) dup,
      mu_encode := Some (BitIDMulti # sz @ pre @ enc), mu_str := BitIDMulti # sz @ pre @ enc\<rparr>))"
proof -
  let ?e = "BitIDMulti # sz @ pre @ enc"
  have "drop 5 (take (length pre + 5) ?e) = pre" "take 4 (tl ?e) = sz" "hd ?e = BitIDMulti" "\<not> length ?e < 5"
    "\<not> length ?e < length pre + 5" "?e \<noteq> []"
    using assms(1) by (simp_all add: numeral_eq_Suc take_Cons' drop_Cons')
  then show ?thesis unfolding DecodeMultiBitID_def MuDoDecode_def Let_def using assms by (simp only: if_False sum.case option.case refl not_True_eq_False)
qed

lemma MuDoDecode_MuDoEncode:
  assumes "muInv bid" "mu_encode bid = None" "\<forall>v \<in> set (mu_items bid). v < 2 ^ 15 - 1"
  obtains e bid1 where "MuDoEncode bid = Inr (e, bid1)" "length e \<le> 2 ^ 19 + 10 * length (mu_items bid)"
    "\<exists>bid2. DecodeMultiBitID e = Some (Inr bid2) \<and> mu_items bid2 = mu_items bid \<and> muBuild bid2"
proof (cases "mu_items bid = []")
  case True
  then show thesis using that [of "[]" bid] by (simp add: MuDoEncode_def DecodeMultiBitID_def MuDoDecode_def MuNew_def muBuild_def muInv_def)
next
  case False
  let ?nd = "sorted_list_of_set (set (mu_items bid))"
  have inv: "sorted (mu_items bid)" "\<forall>v \<in> set (mu_items bid). goInt v" using assms(1) by (simp_all add: muInv_def)
  obtain dup where dup: "GetDuplicates (mu_items bid) = Inr (?nd, dup)" "sorted dup" "mset ?nd + mset dup = mset (mu_items bid)"
    using GetDuplicates_split [OF inv(1) False] .
  have nd: "sorted_wrt (<) ?nd" "?nd \<noteq> []" "\<forall>v \<in> set ?nd. 0 \<le> v \<and> v < 2 ^ 15 - 1"
    using assms(3) inv(2) False by (auto simp: goInt_def)
  obtain pb where pb: "CreateBitIDFromInts ?nd = Inr pb" "bitBuild pb" "bitItems (Buff pb) = ?nd" "encodeBuff pb = BitIDSingle # Buff pb"
    using CreateBitIDFromInts_built [OF nd] .
  let ?pre = "fst (DoEncode pb)" and ?enc = "concat (map (\<lambda>nxt. PutUvarint (of_int nxt)) dup)"
  let ?e = "BitIDMulti # leBytes 4 (of_nat (length ?pre) :: uint32) @ ?pre @ ?enc"
  have pre: "length ?pre \<le> 1 + 10 * 2 ^ 15"
    using length_DoEncode [of pb] pb small_distinct_length [of ?nd] nd(3) by (simp add: bitBuild_def)
  have len: "length (leBytes 4 (of_nat (length ?pre) :: uint32)) = 4" by (simp add: leBytes_def)
  obtain pb' where pb': "doDecode ?pre emptyBitID = Inr pb'" "bitInv pb'" "bitItems (Buff pb') = ?nd"
    using doDecode_DoEncode [OF pb(2,4)] pb(3) nd(3) by (metis (no_types, lifting))
  have "set dup \<subseteq> set (mu_items bid)" using arg_cong [OF dup(3), of set_mset] by auto
  then have gd: "\<forall>v \<in> set dup. goInt v" using inv(2) by blast
  have d: "dupDecodeLoop ?e (int (length ?pre + 5)) [] = Some (Inr dup)"
    using dupDecodeLoop_encode [OF gd, of "BitIDMulti # leBytes 4 (of_nat (length ?pre) :: uint32) @ ?pre" "[]"] len
    by (simp add: add.commute)
  have "DecodeMultiBitID ?e = Some (Inr (MuNew\<lparr>uniqueItemCount := int (length ?nd), mu_items := SortSorted ?nd dup,
      mu_encode := Some ?e, mu_str := ?e\<rparr>))"
    using DecodeMultiBitID_parts [OF len _ _ dup(2) d, of pb'] leVal_length [of "length ?pre"] pre pb'(1) GetItemList_spec(1) [OF pb'(2)] pb'(3)
    by (simp add: DecodeBitID_def)
  moreover have "SortSorted ?nd dup = mu_items bid"
    using SortSorted_sort [of ?nd dup] dup(2,3) inv(1) by (simp add: properties_for_sort)
  moreover have "length ?e \<le> 2 ^ 19 + 10 * length (mu_items bid)"
  proof -
    have "length dup \<le> length (mu_items bid)" using arg_cong [OF dup(3), of size] by simp
    then show ?thesis using pre len length_concat_PutUvarint [of of_int dup] by simp
  qed
  moreover have "MuDoEncode bid = Inr (?e, bid\<lparr>mu_encode := Some ?e\<rparr>)"
    using False assms(2) dup(1) pb(1) by (simp add: MuDoEncode_def Let_def)
  ultimately show thesis using that inv by (auto simp: muBuild_def muInv_def)
qed

section \<open>Theorems\<close>

text \<open>
  C25 (algebra of bit identifiers with duplicates). The loops that search forward through the second slice compute: the
  distinct items that the other has and this one lacks, whether there is one, the multiset intersection, whether it is empty,
  membership, the multiset difference, the multiset sum of two or any number of bit identifiers, and their union.
\<close>

theorem MultiBitID_algebra:
  assumes "muInv b1" "muInv b2"
  shows "mu_items (MuGetNewItems b1 b2) = sorted_list_of_set (set (mu_items b2) - set (mu_items b1)) \<and>
    (MuHasNewItems b1 b2 \<longleftrightarrow> \<not> set (mu_items b2) \<subseteq> set (mu_items b1)) \<and>
    MuCheckIntersection b1 b2 = sorted_list_of_multiset (mset (mu_items b1) \<inter># mset (mu_items b2)) \<and>
    (MuHasIntersection b1 b2 \<longleftrightarrow> set (mu_items b1) \<inter> set (mu_items b2) \<noteq> {}) \<and>
    (MuCheckBitID v b1 \<longleftrightarrow> v \<in> set (mu_items b1)) \<and>
    mu_items (SubMultiBitID b1 b2) = sorted_list_of_multiset (mset (mu_items b1) - mset (mu_items b2)) \<and>
    mu_items (MergeMultiBitID b1 b2) = sorted_list_of_multiset (mset (mu_items b1) + mset (mu_items b2)) \<and>
    mu_items (MergeMultiBitIDList bs) = sorted_list_of_multiset (\<Sum>b \<leftarrow> bs. mset (mu_items b)) \<and>
    mu_items (MergeMultiBitIDNoDup (Some b1) (Some b2)) = sorted_list_of_set (set (mu_items b1) \<union> set (mu_items b2))"
proof -
  have s: "sorted (mu_items b1)" "sorted (mu_items b2)" using assms by (simp_all add: muInv_def)
  have sl: "l = sorted_list_of_multiset M" if "sorted l" "mset l = M" for l :: "int list" and M
    using that by (metis sorted_list_of_multiset_mset sorted_sort_id)
  have "sorted_wrt (<) (muNewItemsLoop (mu_items b2) (mu_items b1) [])"
    "set (muNewItemsLoop (mu_items b2) (mu_items b1) []) = set (mu_items b2) - set (mu_items b1)"
    using s by (auto simp: muNewItemsLoop_spec set_fold_appendNew sorted_wrt_filter intro!: sorted_fold_appendNew)
  then have "mu_items (MuGetNewItems b1 b2) = sorted_list_of_set (set (mu_items b2) - set (mu_items b1))"
    by (simp add: MuGetNewItems_def sorted_list_of_set_eqI)
  moreover have "MuCheckIntersection b1 b2 = sorted_list_of_multiset (mset (mu_items b1) \<inter># mset (mu_items b2))"
    using muIntersectLoop_spec [OF s, of "[]"] by (simp add: MuCheckIntersection_def sl)
  moreover have "mu_items (SubMultiBitID b1 b2) = sorted_list_of_multiset (mset (mu_items b1) - mset (mu_items b2))"
    using muSubLoop_spec [OF s, of "[]"] by (simp add: SubMultiBitID_def sl)
  moreover have "mu_items (MergeMultiBitID b1 b2) = sorted_list_of_multiset (mset (mu_items b1) + mset (mu_items b2))"
    using SortSorted_mset [of "mu_items b1" "mu_items b2"] SortSorted_sorted [OF s] by (simp add: MergeMultiBitID_def sl)
  moreover have "mset (concat (map mu_items bs)) = (\<Sum>b \<leftarrow> bs. mset (mu_items b))" by (induction bs) simp_all
  then have "mu_items (MergeMultiBitIDList bs) = sorted_list_of_multiset (\<Sum>b \<leftarrow> bs. mset (mu_items b))"
    by (simp add: MergeMultiBitIDList_def SortSortedList_def sl)
  moreover have "mu_items (MergeMultiBitIDNoDup (Some b1) (Some b2)) = sorted_list_of_set (set (mu_items b1) \<union> set (mu_items b2))"
    using SortSortedNoDuplicates_set [OF s] by (simp add: MergeMultiBitIDNoDup_def)
  ultimately show ?thesis using s
    by (simp add: MuHasNewItems_def muHasNewLoop_spec MuHasIntersection_def muHasIntersectLoop_spec MuCheckBitID_def)
qed

theorem MultiBitID_algebra_witness:
  "mu_items (SubMultiBitID (MuNew\<lparr>mu_items := [1, 4, 4, 6]\<rparr>) (MuNew\<lparr>mu_items := [4, 5]\<rparr>)) = [1, 4, 6] \<and>
   MuCheckIntersection (MuNew\<lparr>mu_items := [1, 4, 4, 6]\<rparr>) (MuNew\<lparr>mu_items := [4, 5]\<rparr>) = [4]"
proof -
  let ?b1 = "MuNew\<lparr>mu_items := [1, 4, 4, 6]\<rparr>" and ?b2 = "MuNew\<lparr>mu_items := [4, 5]\<rparr>"
  have "muInv ?b1" "muInv ?b2" by (simp_all add: muInv_def goInt_def)
  moreover have "sorted_list_of_multiset (mset [1, 4, 4, 6] - mset [4, 5]) = [1, 4, 6 :: int]"
    "sorted_list_of_multiset (mset [1, 4, 4, 6] \<inter># mset [4, 5]) = [4 :: int]" by code_simp+
  ultimately show ?thesis using MultiBitID_algebra [of ?b1 ?b2] by simp
qed

text \<open>
  \<^verbatim>\<open>Decode\<close> of an encoding made by \<^verbatim>\<open>Encode\<close>, followed by any bytes, always
  returns; it restores the items with their multiplicities and counts the distinct ones.
\<close>

lemma MuDecode_MuEncode:
  assumes "muInv bid" "mu_encode bid = None" "\<forall>v \<in> set (mu_items bid). v < 2 ^ 15 - 1" "length (mu_items bid) < 2 ^ 58"
  shows "\<exists>e bid1 bid2. MuEncode bid = Inr (e, bid1) \<and> MuDecode (e @ rest) MuNew = Some (Inr (length e, bid2, rest)) \<and>
    mu_items bid2 = mu_items bid \<and> uniqueItemCount bid2 = int (card (set (mu_items bid)))"
proof -
  obtain e bid1 bid2 where e: "MuDoEncode bid = Inr (e, bid1)" "length e \<le> 2 ^ 19 + 10 * length (mu_items bid)"
    "DecodeMultiBitID e = Some (Inr bid2)" "mu_items bid2 = mu_items bid" "muBuild bid2"
    using MuDoDecode_MuDoEncode [OF assms(1-3)] by metis
  have "length e < 2 ^ 63" using e(2) assms(4) by simp
  from DecodeHelper_Encode [OF this, of rest] show ?thesis using e
    by (simp add: MuEncode_def MuDecode_def DecodeMultiBitID_def muBuild_def)
qed

section \<open>Where the code falls short of its contract\<close>

text \<open>
  A varint cut off at the end of the input moves the position by zero bytes: the loop over the surplus copies never ends.
  The eight bytes below make \<^verbatim>\<open>DecodeMultiBitID\<close> run forever.
\<close>

lemma dupDecodeLoop_returns:
  assumes "dupDecodeLoop buff pos l = Some r"
  shows "\<not> (0 \<le> pos \<and> pos < int (length buff) \<and> snd (Uvarint_go (drop (nat pos) buff)) = 0)"
proof (rule dupDecodeLoop.raw_induct [OF _ assms,
      where P = "\<lambda>buff pos l r. \<not> (0 \<le> pos \<and> pos < int (length buff) \<and> snd (Uvarint_go (drop (nat pos) buff)) = 0)"])
  fix f and buff :: "byte list" and pos :: int and l :: "int list" and r :: "int list res"
  assume "\<And>buff pos l r. f buff pos l = Some r \<Longrightarrow> \<not> (0 \<le> pos \<and> pos < int (length buff) \<and> snd (Uvarint_go (drop (nat pos) buff)) = 0)"
    and "(if pos < int (length buff) then
            (if pos < 0 then Some (Inl (Panic ''slice bounds out of range''))
             else (case Uvarint_go (drop (nat pos) buff) of (v, n) \<Rightarrow> f buff (pos + n) (l @ [sint v])))
          else Some (Inr l)) = Some r"
  then show "\<not> (0 \<le> pos \<and> pos < int (length buff) \<and> snd (Uvarint_go (drop (nat pos) buff)) = 0)"
    by (fastforce split: if_splits prod.splits)
qed

theorem DecodeMultiBitID_diverges: "DecodeMultiBitID [4, 1, 0, 0, 0, 5, 128] = None"
proof -
  have "snd (Uvarint_go (drop 6 [4, 1, 0, 0, 0, 5, 128])) = 0" by code_simp
  then have "dupDecodeLoop [4, 1, 0, 0, 0, 5, 128] 6 [] = None"
    using dupDecodeLoop_returns [of "[4, 1, 0, 0, 0, 5, 128]" 6 "[]"] by (cases "dupDecodeLoop [4, 1, 0, 0, 0, 5, 128] 6 []") auto
  moreover have "unat (leVal (take 4 (tl [4, 1, 0, 0, 0, 5, 128 :: byte])) :: uint32) = 1" by code_simp
  moreover have "DecodeBitID [5] = Inr (emptyBitID\<lparr>encodeBuff := [5], bi_numItems := -1\<rparr>)" by code_simp
  ultimately show ?thesis by (simp add: DecodeMultiBitID_def MuDoDecode_def)
qed

text \<open>A copy made before the first encoding holds an empty encoding that is not nil, and encodes to nothing.\<close>

theorem MuDoMakeCopy_loses:
  "bind_res (CreateMultiBitIDFromInts [1, 2]) (\<lambda>b. bind_res (MuDoEncode (MuDoMakeCopy b)) (\<lambda>(e, _). Inr e)) = Inr []"
  by code_simp

text \<open>\<^verbatim>\<open>AppendItem\<close> keeps the encoding made before it, and \<^verbatim>\<open>AddBitID\<close> the string.\<close>

theorem MuAppendItem_stale:
  "bind_res (MuDoEncode (MuNew\<lparr>mu_items := [1]\<rparr>)) (\<lambda>(e, b). bind_res (MuDoEncode (MuAppendItem 2 b)) (\<lambda>(e', _). Inr (e = e'))) = Inr True"
  by code_simp

theorem MuAddBitID_stale_str:
  "bind_res (MuGetStr (MuNew\<lparr>mu_items := [1]\<rparr>)) (\<lambda>(s, b). bind_res (MuAddBitID 2 True 0 b) (\<lambda>(_, _, b').
     bind_res (MuGetStr b') (\<lambda>(s', _). Inr (mu_items b', s = s')))) = Inr ([1, 2], True)"
  by code_simp

text \<open>A merge does not count the distinct items, which \<^verbatim>\<open>GetBasicInfo\<close> then returns as zero.\<close>

theorem MergeMultiBitID_unique:
  "MuGetBasicInfo (MergeMultiBitID (MuNew\<lparr>mu_items := [1]\<rparr>) (MuNew\<lparr>mu_items := [2]\<rparr>)) = (1, 2, 2, 0)"
  by code_simp

end
