(* ===== verification/Pbitid.thy ===== *)
theory Pbitid
  imports BitIDHelpers Uvarint Bits
begin

text \<open>
  The bit identifier stored as a unary bit string, \<^verbatim>\<open>src/consensus/auth/bitid/pbitid.go\<close>: a zero bit advances the
  current value, a one bit is an occurrence of it. The iterator object that a bit identifier keeps for reuse is not
  modelled: \<^verbatim>\<open>NewIterator\<close> returns a fresh or a reset one in every case.
\<close>

section \<open>Data and operations\<close>

record Pbitid =
  pb_buff :: "byte list"
  pb_str :: "byte list"
  lastIdx :: nat
  numItems :: int
  pb_min :: int
  pb_max :: int
  pb_uniqueCount :: int

record pbitidIter =
  pi_buff :: "byte list"
  iterIdx :: nat
  currentVal :: int
  prevVal :: bool

definition PNew :: Pbitid where
  "PNew = \<lparr>pb_buff = [], pb_str = [], lastIdx = 0, numItems = 0, pb_min = 0, pb_max = 0, pb_uniqueCount = 0\<rparr>"

function growLoop :: "byte list \<Rightarrow> nat \<Rightarrow> byte list" where
  "growLoop buff currentIndex =
     (if currentIndex div 8 \<ge> length buff then growLoop (buff @ [0]) currentIndex else buff)"
  by pat_completeness auto
termination
  by (relation "measure (\<lambda>(buff, i). Suc (i div 8) - length buff)") auto

declare growLoop.simps [simp del]

definition appendZero :: "byte list \<Rightarrow> nat \<Rightarrow> nat \<Rightarrow> byte list \<times> nat" where
  "appendZero buff cnt currentIndex = (growLoop buff (currentIndex + cnt), currentIndex + cnt)"

definition appendOne :: "byte list \<Rightarrow> nat \<Rightarrow> (byte list \<times> nat) res" where
  "appendOne buff currentIndex =
     (let pos = currentIndex div 8;
          buff1 = (if pos \<ge> length buff then buff @ [0] else buff)
      in if pos \<ge> length buff1 then Inl (Panic ''index out of range'')
         else Inr (buff1[pos := push_bit (currentIndex mod 8) 1 OR buff1 ! pos], currentIndex + 1))"

definition PAppendItem :: "int \<Rightarrow> Pbitid \<Rightarrow> Pbitid res" where
  "PAppendItem nxt bid =
     (let cnt = nxt - pb_max bid
      in if cnt < 0 then Inl (Panic ''invalid order'')
         else
           (let bid1 = (if numItems bid = 0 then bid\<lparr>pb_min := nxt\<rparr> else bid);
                (buff1, idx1) = appendZero (pb_buff bid1) (nat cnt) (lastIdx bid1)
            in bind_res (appendOne buff1 idx1) (\<lambda>(buff2, idx2).
                 let bid2 = bid1\<lparr>pb_buff := buff2, lastIdx := idx2\<rparr>;
                     bid3 = (if pb_max bid2 \<noteq> nxt \<or> numItems bid2 = 0
                             then bid2\<lparr>pb_uniqueCount := pb_uniqueCount bid2 + 1\<rparr> else bid2)
                 in Inr (bid3\<lparr>numItems := numItems bid3 + 1, pb_max := nxt\<rparr>))))"

fun pAppendAll :: "int list \<Rightarrow> Pbitid \<Rightarrow> Pbitid res" where
  "pAppendAll [] ret = Inr ret"
| "pAppendAll (nxt # l) ret = bind_res (PAppendItem nxt ret) (pAppendAll l)"

definition NewPbitidFromInts :: "int list \<Rightarrow> Pbitid res" where
  "NewPbitidFromInts items =
     (if items = [] then Inr PNew
      else if last items < 0 \<or> last items \<ge> 2 ^ 32 - 1 then Inl (Panic ''bit id not sorted'')
      else bind_res (pAppendAll items (PNew\<lparr>pb_min := hd items\<rparr>)) (\<lambda>ret.
             if numItems ret \<noteq> int (length items) then Inl (Panic ''invalid num items'')
             else if pb_max ret \<noteq> last items then Inl (Panic ''invalid max'')
             else Inr ret))"

definition PSetInitialSize :: "int \<Rightarrow> Pbitid \<Rightarrow> Pbitid" where
  "PSetInitialSize v bid = bid"

definition PDoMakeCopy :: "Pbitid \<Rightarrow> Pbitid" where
  "PDoMakeCopy bid = bid"

definition PDone :: "Pbitid \<Rightarrow> Pbitid" where
  "PDone bid = bid\<lparr>pb_buff := [], pb_uniqueCount := 0, numItems := 0, pb_max := 0, lastIdx := 0, pb_min := 0, pb_str := []\<rparr>"

definition PGetStr :: "Pbitid \<Rightarrow> byte list \<times> Pbitid" where
  "PGetStr bid =
     (let bid1 = (if pb_str bid = [] then bid\<lparr>pb_str := pb_buff bid\<rparr> else bid) in (pb_str bid1, bid1))"

definition PGetBasicInfo :: "Pbitid \<Rightarrow> int \<times> int \<times> int \<times> int" where
  "PGetBasicInfo bid = (pb_min bid, pb_max bid, numItems bid, pb_uniqueCount bid)"

definition PNewIterator :: "Pbitid \<Rightarrow> pbitidIter" where
  "PNewIterator bid = \<lparr>pi_buff = pb_buff bid, iterIdx = 0, currentVal = 0, prevVal = False\<rparr>"

definition iterBit :: "pbitidIter \<Rightarrow> byte" where
  "iterBit iter = push_bit (iterIdx iter mod 8) 1 AND pi_buff iter ! (iterIdx iter div 8)"

function PNextID :: "pbitidIter \<Rightarrow> (int \<times> pbitidIter) option" where
  "PNextID iter =
     (if iterIdx iter div 8 \<ge> length (pi_buff iter) then None
      else if iterBit iter = 0
        then PNextID (iter\<lparr>currentVal := currentVal iter + 1, iterIdx := iterIdx iter + 1, prevVal := False\<rparr>)
        else Some (currentVal iter, iter\<lparr>iterIdx := iterIdx iter + 1, prevVal := True\<rparr>))"
  by pat_completeness auto
termination
  by (relation "measure (\<lambda>iter. 8 * length (pi_buff iter) - iterIdx iter)") auto

declare PNextID.simps [simp del]

definition nextIndex :: "pbitidIter \<Rightarrow> (int \<times> pbitidIter) option" where
  "nextIndex iter =
     (if iterIdx iter div 8 \<ge> length (pi_buff iter) then None
      else if iterBit iter = 0
        then Some (currentVal iter, iter\<lparr>currentVal := currentVal iter + 1, iterIdx := iterIdx iter + 1, prevVal := False\<rparr>)
        else Some (currentVal iter, iter\<lparr>iterIdx := iterIdx iter + 1, prevVal := True\<rparr>))"

text \<open>One turn of the inner loop of \<^verbatim>\<open>construct\<close>; the state is the bit identifier, \<^verbatim>\<open>maxIdx\<close> and \<^verbatim>\<open>prev0\<close>.\<close>

definition constructBit :: "bool \<Rightarrow> Pbitid \<times> int \<times> bool \<Rightarrow> Pbitid \<times> int \<times> bool" where
  "constructBit one = (\<lambda>(bid, maxIdx, prev0).
     if one then
       (let bid1 = bid\<lparr>numItems := numItems bid + 1\<rparr>;
            bid2 = (if prev0 then bid1\<lparr>pb_uniqueCount := pb_uniqueCount bid1 + 1, pb_max := maxIdx\<rparr> else bid1)
        in (bid2, maxIdx, False))
     else (bid, maxIdx + 1, True))"

fun constructLoop :: "byte list \<Rightarrow> bool \<Rightarrow> Pbitid \<times> int \<times> bool \<Rightarrow> Pbitid" where
  "constructLoop [] gotMin (bid, maxIdx, prev0) = bid"
| "constructLoop (b # bs) gotMin (bid, maxIdx, prev0) =
     (let z = TrailingZeros8 b;
          found = (\<not> gotMin \<and> z < 8);
          bid1 = (if found then bid\<lparr>pb_min := maxIdx + int z\<rparr> else bid)
      in constructLoop bs (gotMin \<or> found)
           (fold (\<lambda>i. constructBit (b AND push_bit i 1 \<noteq> 0)) [0..<8] (bid1, maxIdx, prev0)))"

definition construct :: "Pbitid \<Rightarrow> Pbitid" where
  "construct bid =
     (if pb_buff bid = [] then bid\<lparr>numItems := 0\<rparr>
      else constructLoop (pb_buff bid) False (bid\<lparr>numItems := 0\<rparr>, 0, True))"

definition PEncode :: "Pbitid \<Rightarrow> byte list" where
  "PEncode bid = EncodeHelper (pb_buff bid)"

definition PDecode :: "byte list \<Rightarrow> Pbitid \<Rightarrow> (nat \<times> Pbitid \<times> byte list) res" where
  "PDecode r bid =
     bind_res (DecodeHelper r) (\<lambda>(n, buff, r1). Inr (n, construct (bid\<lparr>pb_buff := buff\<rparr>), r1))"

definition p_ops :: "(Pbitid, pbitidIter) bid_ops" where
  "p_ops = \<lparr>NewBid = PNew, SetInitialSize = PSetInitialSize, AppendItem = PAppendItem,
     NewIterator = PNewIterator, NextID = PNextID, GetBasicInfo = PGetBasicInfo\<rparr>"

section \<open>Growing the buffer\<close>

lemma growLoop_eq: "growLoop buff i = buff @ replicate (Suc (i div 8) - length buff) 0"
proof (induction buff i rule: growLoop.induct)
  case (1 buff i)
  show ?case
  proof (cases "length buff \<le> i div 8")
    case True
    then have "Suc (i div 8) - length buff = Suc (Suc (i div 8) - length (buff @ [0]))" by simp
    then show ?thesis using 1 [OF True] True by (subst growLoop.simps) simp
  qed (subst growLoop.simps, simp)
qed

section \<open>The items of a bit string\<close>

fun pitems :: "bool list \<Rightarrow> int \<Rightarrow> int list" where
  "pitems [] v = []"
| "pitems (one # bs) v = (if one then v # pitems bs v else pitems bs (v + 1))"

definition zeros :: "bool list \<Rightarrow> nat" where
  "zeros bs = length (filter Not bs)"

lemma pitems_append: "pitems (xs @ ys) v = pitems xs v @ pitems ys (v + int (zeros xs))"
  by (induction xs arbitrary: v) (auto simp: zeros_def algebra_simps)

lemma pitems_falses [simp]: "pitems (replicate n False) v = []" "zeros (replicate n False) = n"
  by (induction n arbitrary: v) (auto simp: zeros_def)

lemma pitems_noOnes: "True \<notin> set bs \<Longrightarrow> pitems bs v = []"
  by (induction bs arbitrary: v) auto

lemma pitems_ge: "x \<in> set (pitems bs v) \<Longrightarrow> v \<le> x"
  by (induction bs arbitrary: v) (auto split: if_splits, fastforce)

lemma pitems_sorted: "sorted (pitems bs v)"
  by (induction bs arbitrary: v) (auto dest: pitems_ge)

lemma pitems_le: "x \<in> set (pitems bs v) \<Longrightarrow> x \<le> v + int (zeros bs)"
  by (induction bs arbitrary: v) (auto simp: zeros_def split: if_splits, fastforce)

definition pItems :: "Pbitid \<Rightarrow> int list" where
  "pItems bid = pitems (bits_of (pb_buff bid)) 0"

definition pRest :: "pbitidIter \<Rightarrow> int list" where
  "pRest it = pitems (drop (iterIdx it) (bits_of (pi_buff it))) (currentVal it)"

lemma iterBit_iff:
  "iterIdx it div 8 < length (pi_buff it) \<Longrightarrow> iterBit it = 0 \<longleftrightarrow> \<not> bits_of (pi_buff it) ! iterIdx it"
  using and_bit_iff [of "iterIdx it mod 8" "pi_buff it ! (iterIdx it div 8)"] nth_bits_of [of "iterIdx it" "pi_buff it"]
  by (simp add: iterBit_def and.commute) blast

lemma pRest_step:
  assumes "iterIdx it div 8 < length (pi_buff it)"
  shows "pRest it = (if iterBit it = 0 then pRest (it\<lparr>currentVal := currentVal it + 1, iterIdx := iterIdx it + 1, prevVal := p\<rparr>)
    else currentVal it # pRest (it\<lparr>iterIdx := iterIdx it + 1, prevVal := q\<rparr>))"
proof -
  have "iterIdx it < length (bits_of (pi_buff it))" using assms by simp
  then have "drop (iterIdx it) (bits_of (pi_buff it)) =
      bits_of (pi_buff it) ! iterIdx it # drop (iterIdx it + 1) (bits_of (pi_buff it))"
    by (simp add: Cons_nth_drop_Suc)
  then show ?thesis using iterBit_iff [OF assms] by (simp add: pRest_def)
qed

lemma PNextID_spec:
  "case PNextID it of None \<Rightarrow> pRest it = [] | Some (v, it') \<Rightarrow> pRest it = v # pRest it'"
proof (induction it rule: PNextID.induct)
  case (1 it)
  show ?case
  proof (cases "length (pi_buff it) \<le> iterIdx it div 8")
    case True
    then have "length (bits_of (pi_buff it)) \<le> iterIdx it" by simp
    then show ?thesis using True by (subst PNextID.simps) (simp add: pRest_def)
  next
    case False
    show ?thesis
    proof (cases "iterBit it = 0")
      case True
      then show ?thesis using 1 [OF False True] False pRest_step [of it False True]
        by (subst PNextID.simps) (auto split: option.splits)
    next
      case nz: False
      then show ?thesis using False pRest_step [of it False True] by (subst PNextID.simps) simp
    qed
  qed
qed

text \<open>
  \<^verbatim>\<open>nextIndex\<close> visits the same bits as \<^verbatim>\<open>NextID\<close>, stopping at the zero bits as well.
\<close>

lemma nextIndex_spec:
  "nextIndex it = None \<Longrightarrow> pRest it = []"
  "nextIndex it = Some (v, it') \<Longrightarrow> v = currentVal it \<and> pRest it = (if prevVal it' then v # pRest it' else pRest it')"
proof -
  show "nextIndex it = None \<Longrightarrow> pRest it = []"
    by (auto simp: nextIndex_def pRest_def split: if_splits)
  show "nextIndex it = Some (v, it') \<Longrightarrow> v = currentVal it \<and> pRest it = (if prevVal it' then v # pRest it' else pRest it')"
    using pRest_step [of it False True] by (auto simp: nextIndex_def split: if_splits)
qed

section \<open>The bit string implements the interface\<close>

text \<open>
  \<open>pInv\<close>: the counters agree with the bits. \<open>pBuild\<close>: moreover \<open>lastIdx\<close> is the end of the used bits, so
  that an item can be appended.
\<close>

definition pInv :: "Pbitid \<Rightarrow> bool" where
  "pInv bid \<longleftrightarrow> numItems bid = int (length (pItems bid)) \<and> pb_uniqueCount bid = int (card (set (pItems bid))) \<and>
     (pItems bid \<noteq> [] \<longrightarrow> pb_min bid = hd (pItems bid) \<and> pb_max bid = last (pItems bid)) \<and>
     (\<forall>v \<in> set (pItems bid). goInt v)"

definition pBuild :: "Pbitid \<Rightarrow> bool" where
  "pBuild bid \<longleftrightarrow> pInv bid \<and> (pItems bid = [] \<longrightarrow> pb_max bid = 0) \<and> lastIdx bid \<le> 8 * length (pb_buff bid) \<and>
     int (zeros (take (lastIdx bid) (bits_of (pb_buff bid)))) = pb_max bid \<and>
     True \<notin> set (drop (lastIdx bid) (bits_of (pb_buff bid)))"

lemma pItems_prefix:
  assumes "True \<notin> set (drop n (bits_of (pb_buff bid)))"
  shows "pItems bid = pitems (take n (bits_of (pb_buff bid))) 0"
  using pitems_append [of "take n (bits_of (pb_buff bid))" "drop n (bits_of (pb_buff bid))" 0] pitems_noOnes [OF assms]
  by (simp add: pItems_def)

text \<open>The buffer after the two appends: the used bits, the new zeros, the new one, and padding.\<close>

lemma append_bits:
  assumes "True \<notin> set (drop i (bits_of buff))" "i \<le> 8 * length buff"
  shows "\<exists>buff2. appendOne (fst (appendZero buff cnt i)) (snd (appendZero buff cnt i)) = Inr (buff2, i + cnt + 1) \<and>
    i + cnt + 1 \<le> 8 * length buff2 \<and>
    take (i + cnt + 1) (bits_of buff2) = take i (bits_of buff) @ replicate cnt False @ [True] \<and>
    True \<notin> set (drop (i + cnt + 1) (bits_of buff2))"
proof -
  let ?j = "i + cnt"
  define g where "g = growLoop buff ?j"
  have g: "g = buff @ replicate (Suc (?j div 8) - length buff) 0" by (simp add: g_def growLoop_eq)
  have len: "?j div 8 < length g" using g by simp
  then have lenb: "?j < 8 * length g" by linarith
  have "True \<notin> set (drop i (bits_of g))" using assms g by (simp add: in_set_replicate)
  then have all: "drop i (bits_of g) = replicate (8 * length g - i) False"
    by (metis (full_types) length_bits_of length_drop replicate_eqI)
  have "take i (bits_of g) = take i (bits_of buff)" using g assms(2) by simp
  then have bg: "bits_of g = take i (bits_of buff) @ replicate (8 * length g - i) False"
    using all append_take_drop_id [of i "bits_of g"] by simp
  also have "8 * length g - i = cnt + Suc (8 * length g - i - cnt - 1)" using lenb by simp
  finally have bg': "bits_of g = (take i (bits_of buff) @ replicate cnt False) @ False # replicate (8 * length g - i - cnt - 1) False"
    by (simp only: replicate_add replicate_Suc append_assoc)
  let ?b = "g[?j div 8 := push_bit (?j mod 8) 1 OR g ! (?j div 8)]"
  have "length (take i (bits_of buff) @ replicate cnt False) = ?j" using assms(2) by simp
  then have "bits_of ?b = (take i (bits_of buff) @ replicate cnt False) @ True # replicate (8 * length g - i - cnt - 1) False"
    unfolding bits_of_set [OF lenb] bg' by (simp only: list_update_append less_irrefl diff_self_eq_0 if_False) simp
  then have b: "bits_of ?b = (take i (bits_of buff) @ replicate cnt False @ [True]) @ replicate (8 * length g - i - cnt - 1) False"
    by simp
  have l: "length (take i (bits_of buff) @ replicate cnt False @ [True]) = ?j + 1" using assms(2) by simp
  have "take (?j + 1) (bits_of ?b) = take i (bits_of buff) @ replicate cnt False @ [True]"
    "True \<notin> set (drop (?j + 1) (bits_of ?b))"
    unfolding b by (simp_all only: take_append drop_append l) (simp_all add: l [simplified] in_set_replicate)
  moreover have "appendOne (fst (appendZero buff cnt i)) (snd (appendZero buff cnt i)) = Inr (?b, i + cnt + 1)"
    using len by (simp add: appendOne_def appendZero_def Let_def flip: g_def)
  moreover have "i + cnt + 1 \<le> 8 * length ?b" using lenb by simp
  ultimately show ?thesis by blast
qed

lemma PAppendItem_spec:
  assumes b: "pBuild bid" and v: "goInt v" "\<And>x. x \<in> set (pItems bid) \<Longrightarrow> x \<le> v"
  shows "\<exists>bid'. PAppendItem v bid = Inr bid' \<and> pBuild bid' \<and> pItems bid' = pItems bid @ [v]"
proof -
  let ?used = "take (lastIdx bid) (bits_of (pb_buff bid))"
  have pre: "pItems bid = pitems ?used 0" using b pItems_prefix by (simp add: pBuild_def)
  have max: "pb_max bid = int (zeros ?used)" "lastIdx bid \<le> 8 * length (pb_buff bid)" using b by (simp_all add: pBuild_def)
  have ge: "\<not> v - pb_max bid < 0"
    using b v(1) v(2) [OF last_in_set] by (cases "pItems bid = []") (simp_all add: pBuild_def pInv_def goInt_def)
  have mem: "v \<notin> set (pItems bid) \<longleftrightarrow> pb_max bid \<noteq> v \<or> numItems bid = 0"
  proof (cases "pItems bid" rule: rev_cases)
    case (snoc xs x)
    then show ?thesis using b v(2) pitems_sorted [of "bits_of (pb_buff bid)" 0]
      by (fastforce simp: pBuild_def pInv_def sorted_append simp flip: pItems_def)
  qed (use b in \<open>simp add: pBuild_def pInv_def\<close>)
  obtain buff2 where buff2: "appendOne (fst (appendZero (pb_buff bid) (nat (v - pb_max bid)) (lastIdx bid)))
      (snd (appendZero (pb_buff bid) (nat (v - pb_max bid)) (lastIdx bid))) = Inr (buff2, lastIdx bid + nat (v - pb_max bid) + 1)"
    and used: "lastIdx bid + nat (v - pb_max bid) + 1 \<le> 8 * length buff2"
      "take (lastIdx bid + nat (v - pb_max bid) + 1) (bits_of buff2) = ?used @ replicate (nat (v - pb_max bid)) False @ [True]"
      "True \<notin> set (drop (lastIdx bid + nat (v - pb_max bid) + 1) (bits_of buff2))"
    using append_bits [of "lastIdx bid" "pb_buff bid" "nat (v - pb_max bid)"] b by (auto simp: pBuild_def)
  define bid' where "bid' = bid\<lparr>pb_min := (if numItems bid = 0 then v else pb_min bid), pb_buff := buff2,
    lastIdx := lastIdx bid + nat (v - pb_max bid) + 1, numItems := numItems bid + 1, pb_max := v,
    pb_uniqueCount := (if v \<notin> set (pItems bid) then pb_uniqueCount bid + 1 else pb_uniqueCount bid)\<rparr>"
  have r: "PAppendItem v bid = Inr bid'"
    using ge buff2 unfolding PAppendItem_def bid'_def mem by (cases "pb_max bid = v") (simp_all add: Let_def split_beta)
  have "True \<notin> set (drop (lastIdx bid') (bits_of (pb_buff bid')))" using used(3) by (simp add: bid'_def)
  from pItems_prefix [OF this] have items: "pItems bid' = pItems bid @ [v]"
    using used(2) pre max ge by (simp add: bid'_def pitems_append)
  moreover have "pBuild bid'"
    using b v used ge max items unfolding pBuild_def pInv_def items
    by (auto simp: bid'_def zeros_def insert_absorb hd_append)
  ultimately show ?thesis using r by blast
qed

interpretation p_bid: bid_builder p_ops pItems pRest pInv pBuild "\<lambda>_. True"
proof unfold_locales
  fix it v it' b n
  show "NextID p_ops it = None \<Longrightarrow> pRest it = []" "NextID p_ops it = Some (v, it') \<Longrightarrow> pRest it = v # pRest it'"
    using PNextID_spec [of it] by (simp_all add: p_ops_def)
  show "pRest (NewIterator p_ops b) = pItems b"
    by (simp add: p_ops_def PNewIterator_def pRest_def pItems_def)
  show "pInv b \<Longrightarrow> bidCount p_ops b = int (length (pItems b))"
    by (simp add: p_ops_def bidCount_def PGetBasicInfo_def pInv_def)
  show "sorted (pItems b)" by (simp add: pItems_def pitems_sorted)
  show "pInv b \<Longrightarrow> v \<in> set (pItems b) \<Longrightarrow> goInt v" by (simp add: pInv_def)
  show "pBuild b \<Longrightarrow> pInv b" by (simp add: pBuild_def)
  show "pBuild (NewBid p_ops)" "pItems (NewBid p_ops) = []"
    "pBuild (SetInitialSize p_ops n (NewBid p_ops))" "pItems (SetInitialSize p_ops n (NewBid p_ops)) = []"
    by (simp_all add: p_ops_def PNew_def PSetInitialSize_def pBuild_def pInv_def pItems_def zeros_def)
  show "\<exists>b'. AppendItem p_ops v b = Inr b' \<and> pBuild b' \<and> pItems b' = pItems b @ [v]"
    if "pBuild b" "goInt v" "\<And>x. x \<in> set (pItems b) \<Longrightarrow> x \<le> v"
    using PAppendItem_spec [OF that] by (simp add: p_ops_def)
qed simp_all

section \<open>Decoding\<close>

lemma card_pitems_Suc: "card (insert v (set (pitems bs v))) = Suc (card (set (pitems bs v) - {v}))"
  by (simp add: card.insert_remove)

lemma constructBit_simps:
  "constructBit False (bid, v, prev0) = (bid, v + 1, True)"
  "constructBit True (bid, v, False) = (bid\<lparr>numItems := numItems bid + 1\<rparr>, v, False)"
  "constructBit True (bid, v, True) =
     (bid\<lparr>numItems := numItems bid + 1, pb_uniqueCount := pb_uniqueCount bid + 1, pb_max := v\<rparr>, v, False)"
  by (simp_all add: constructBit_def Let_def)

lemma constructBit_fold:
  assumes "prev0 \<or> pb_max bid = v"
  shows "fst (fold constructBit bs (bid, v, prev0)) =
    bid\<lparr>numItems := numItems bid + int (length (pitems bs v)),
        pb_uniqueCount := pb_uniqueCount bid + int (card (set (pitems bs v) - (if prev0 then {} else {v}))),
        pb_max := (if pitems bs v = [] then pb_max bid else last (pitems bs v))\<rparr>"
  using assms
proof (induction bs arbitrary: bid v prev0)
  case (Cons one bs)
  show ?case
  proof (cases one)
    case True
    show ?thesis
    proof (cases prev0)
      case True
      show ?thesis using Cons.IH [of False "bid\<lparr>numItems := numItems bid + 1, pb_uniqueCount := pb_uniqueCount bid + 1, pb_max := v\<rparr>" v]
        by (simp add: True \<open>one\<close> constructBit_simps card_pitems_Suc)
    next
      case False
      show ?thesis using Cons.IH [of False "bid\<lparr>numItems := numItems bid + 1\<rparr>" v] Cons.prems
        by (simp add: False \<open>one\<close> constructBit_simps)
    qed
  next
    case False
    have "set (pitems bs (v + 1)) - {v} = set (pitems bs (v + 1))" using pitems_ge [of v bs "v + 1"] by auto
    with Cons.IH [of True bid "v + 1"] show ?thesis by (simp add: False constructBit_simps)
  qed
qed simp

lemma constructBit_min:
  "fold constructBit bs (bid\<lparr>pb_min := m\<rparr>, v, prev0) =
     (case fold constructBit bs (bid, v, prev0) of (bid', v', p') \<Rightarrow> (bid'\<lparr>pb_min := m\<rparr>, v', p'))"
proof (induction bs arbitrary: bid v prev0)
  case (Cons one bs)
  have "constructBit one (bid\<lparr>pb_min := m\<rparr>, v, prev0) =
     (case constructBit one (bid, v, prev0) of (bid', v', p') \<Rightarrow> (bid'\<lparr>pb_min := m\<rparr>, v', p'))"
    by (simp add: constructBit_def Let_def)
  then show ?case using Cons.IH by (simp split: prod.splits)
qed simp

lemma constructBit_val: "fst (snd (fold constructBit bs (bid, v, prev0))) = v + int (zeros bs)"
  by (induction bs arbitrary: bid v prev0) (simp_all add: constructBit_def Let_def zeros_def algebra_simps)

lemma fold_bits: "fold (\<lambda>i. constructBit ((b :: byte) AND 2 ^ i \<noteq> 0)) [0..<8] st = fold constructBit (map (bit b) [0..<8]) st"
proof -
  have "fold (\<lambda>i. constructBit (b AND 2 ^ i \<noteq> 0)) [0..<8] st = fold (\<lambda>i. constructBit (bit b i)) [0..<8] st"
  proof (rule fold_cong)
    fix i :: nat
    assume "i \<in> set [0..<8]"
    then have "(b AND 2 ^ i \<noteq> 0) = bit b i" using and_bit_iff [of i b] by simp
    then show "constructBit (b AND 2 ^ i \<noteq> 0) = constructBit (bit b i)" by simp
  qed simp_all
  then show ?thesis by (simp add: fold_map comp_def del: upt_Suc)
qed

lemma constructLoop_found: "constructLoop bs True (bid, v, prev0) = fst (fold constructBit (bits_of bs) (bid, v, prev0))"
proof (induction bs arbitrary: bid v prev0)
  case (Cons b bs)
  then show ?case
    by (cases "fold constructBit (map (bit b) [0..<8]) (bid, v, prev0)") (simp add: fold_bits del: upt_Suc)
qed simp

lemma hd_pitems: "pitems bs v \<noteq> [] \<Longrightarrow> hd (pitems bs v) = v + int (length (takeWhile Not bs))"
  by (induction bs arbitrary: v) (auto split: if_splits)

lemma pitems_takeWhile: "pitems bs v = [] \<longleftrightarrow> length (takeWhile Not bs) = length bs"
  by (induction bs arbitrary: v) auto

lemma constructLoop_spec:
  "constructLoop bs False (bid, v, prev0) =
     (fst (fold constructBit (bits_of bs) (bid, v, prev0)))\<lparr>pb_min := (if pitems (bits_of bs) v = [] then pb_min bid else hd (pitems (bits_of bs) v))\<rparr>"
proof (induction bs arbitrary: bid v prev0)
  case (Cons b bs)
  let ?bits = "map (bit b) [0..<8]"
  have z: "TrailingZeros8 b = length (takeWhile Not ?bits)" by (simp add: TrailingZeros8_def takeWhile_map comp_def del: upt_Suc)
  obtain bid1 v1 p1 where f: "fold constructBit ?bits (bid, v, prev0) = (bid1, v1, p1)" by (cases "fold constructBit ?bits (bid, v, prev0)")
  have v1: "v1 = v + int (zeros ?bits)" using constructBit_val [of ?bits bid v prev0] f by simp
  have m1: "pb_min bid1 = pb_min bid" using constructBit_min [of ?bits "pb_min bid" bid v prev0] f by (cases bid1) simp
  show ?case
  proof (cases "pitems ?bits v = []")
    case True
    then have "\<not> TrailingZeros8 b < 8" using z pitems_takeWhile [of ?bits v] by (simp del: upt_Suc)
    then show ?thesis using True Cons.IH [of bid1 v1 p1] f v1 m1 by (simp add: fold_bits pitems_append del: upt_Suc)
  next
    case False
    then have "TrailingZeros8 b < 8" using z pitems_takeWhile [of ?bits v] length_takeWhile_le [of Not ?bits] by (simp del: upt_Suc)
    then show ?thesis
      using False hd_pitems [OF False] constructBit_min [of ?bits "v + int (TrailingZeros8 b)" bid v prev0]
        constructBit_min [of "bits_of bs" "v + int (TrailingZeros8 b)" bid1 v1 p1] f v1 m1 z
      by (simp add: fold_bits pitems_append constructLoop_found del: upt_Suc split: prod.splits)
  qed
qed simp

lemma construct_spec:
  "construct bid = bid\<lparr>numItems := int (length (pItems bid)), pb_uniqueCount := pb_uniqueCount bid + int (card (set (pItems bid))),
     pb_max := (if pItems bid = [] then pb_max bid else last (pItems bid)),
     pb_min := (if pItems bid = [] then pb_min bid else hd (pItems bid))\<rparr>"
  by (simp add: construct_def constructLoop_spec constructBit_fold pItems_def)

lemma construct_inv: "pb_uniqueCount bid = 0 \<Longrightarrow> \<forall>v \<in> set (pItems bid). goInt v \<Longrightarrow> pInv (construct bid)"
  by (simp add: construct_spec pInv_def pItems_def)

section \<open>Theorems\<close>

lemma PAppendItem_panics: "v < pb_max bid \<Longrightarrow> PAppendItem v bid = Inl (Panic ''invalid order'')"
  by (simp add: PAppendItem_def)

lemma pAppendAll_spec:
  assumes "pBuild bid" "\<forall>v \<in> set l. v < 2 ^ 63"
  shows "if sorted (pItems bid @ l) \<and> (\<forall>v \<in> set l. 0 \<le> v)
    then \<exists>ret. pAppendAll l bid = Inr ret \<and> pBuild ret \<and> pItems ret = pItems bid @ l
    else panics (pAppendAll l bid)"
  using assms
proof (induction l arbitrary: bid)
  case Nil
  then show ?case using p_bid.items_sorted [of bid] by (simp add: pBuild_def)
next
  case (Cons v l)
  have s: "sorted (pItems bid)" using p_bid.items_sorted [of bid] Cons.prems by (simp add: pBuild_def)
  show ?case
  proof (cases "0 \<le> v \<and> (\<forall>x \<in> set (pItems bid). x \<le> v)")
    case True
    then have "goInt v" using Cons.prems by (simp add: goInt_def)
    then obtain bid' where b: "PAppendItem v bid = Inr bid'" "pBuild bid'" "pItems bid' = pItems bid @ [v]"
      using PAppendItem_spec [OF Cons.prems(1), of v] True by blast
    then show ?thesis using Cons.IH [OF b(2)] Cons.prems True by (auto split: if_splits)
  next
    case False
    have "v < pb_max bid"
    proof (cases "pItems bid" rule: rev_cases)
      case Nil
      then show ?thesis using False Cons.prems(1) by (auto simp: pBuild_def)
    next
      case (snoc xs x)
      then have "pb_max bid = x" "goInt x" using Cons.prems(1) by (simp_all add: pBuild_def pInv_def)
      then show ?thesis using False s snoc by (fastforce simp: goInt_def sorted_append)
    qed
    moreover have "\<not> (sorted (pItems bid @ v # l) \<and> 0 \<le> v)" using False by (auto simp: sorted_append)
    ultimately show ?thesis by (auto simp: PAppendItem_panics)
  qed
qed

lemma NewPbitidFromInts_cases:
  assumes "\<forall>v \<in> set l. v < 2 ^ 63"
  shows "if sorted l \<and> (\<forall>v \<in> set l. 0 \<le> v \<and> v < 2 ^ 32 - 1)
    then \<exists>ret. NewPbitidFromInts l = Inr ret \<and> pBuild ret \<and> pItems ret = l
    else panics (NewPbitidFromInts l)"
proof (cases "l = [] \<or> last l < 0 \<or> last l \<ge> 2 ^ 32 - 1")
  case True
  moreover have "\<not> (\<forall>v \<in> set l. 0 \<le> v \<and> v < 2 ^ 32 - 1)" if "l \<noteq> []" "last l < 0 \<or> last l \<ge> 2 ^ 32 - 1"
    using that last_in_set [of l] by (metis not_less)
  ultimately show ?thesis using p_bid.new_inv by (auto simp: NewPbitidFromInts_def p_ops_def)
next
  case False
  let ?b = "PNew\<lparr>pb_min := hd l\<rparr>"
  have b: "pBuild ?b" "pItems ?b = []" by (simp_all add: PNew_def pBuild_def pInv_def pItems_def zeros_def)
  have le: "v \<le> last l" if "sorted l" "v \<in> set l" for v
    using that by (cases l rule: rev_cases) (auto simp: sorted_append)
  show ?thesis
  proof (cases "sorted l \<and> (\<forall>v \<in> set l. 0 \<le> v)")
    case True
    then obtain ret where r: "pAppendAll l ?b = Inr ret" "pBuild ret" "pItems ret = l"
      using pAppendAll_spec [OF b(1) assms] b(2) by auto
    then have "numItems ret = int (length l)" "pb_max ret = last l" using False by (simp_all add: pBuild_def pInv_def)
    then have "NewPbitidFromInts l = Inr ret" using r(1) False by (simp add: NewPbitidFromInts_def)
    moreover have "\<forall>v \<in> set l. 0 \<le> v \<and> v < 2 ^ 32 - 1" using True False le by (meson le_less_trans not_less)
    ultimately show ?thesis using r True by simp
  next
    case no: False
    then have "panics (pAppendAll l ?b)" using pAppendAll_spec [OF b(1) assms] b(2) by auto
    then show ?thesis using no False by (auto simp: NewPbitidFromInts_def panics_def split: sum.splits)
  qed
qed

text \<open>
  \<^verbatim>\<open>NewPbitidFromInts\<close> succeeds exactly on the sorted slices of integers
  between \<open>0\<close> and \<open>2 ^ 32 - 2\<close>, and then holds those items; on any other slice it panics.
\<close>

lemma NewPbitidFromInts_spec:
  assumes "\<forall>v \<in> set l. v < 2 ^ 63"
  shows "if sorted l \<and> (\<forall>v \<in> set l. 0 \<le> v \<and> v < 2 ^ 32 - 1)
    then \<exists>ret. NewPbitidFromInts l = Inr ret \<and> pBuild ret \<and> pItems ret = l
    else panics (NewPbitidFromInts l)"
  using NewPbitidFromInts_cases [OF assms] .

lemma PDecode_roundtrip:
  assumes "pInv bid" "length (pb_buff bid) < 2 ^ 63"
  shows "\<exists>bid'. PDecode (PEncode bid @ rest) PNew = Inr (length (PEncode bid), bid', rest) \<and> pInv bid' \<and>
    pItems bid' = pItems bid \<and> (pItems bid \<noteq> [] \<longrightarrow> PGetBasicInfo bid' = PGetBasicInfo bid)"
proof -
  let ?b = "construct (PNew\<lparr>pb_buff := pb_buff bid\<rparr>)"
  have items: "pItems (PNew\<lparr>pb_buff := pb_buff bid\<rparr>) = pItems bid" "pItems ?b = pItems bid"
    by (simp_all add: pItems_def construct_spec)
  have "PDecode (PEncode bid @ rest) PNew = Inr (length (PEncode bid), ?b, rest)"
    using DecodeHelper_Encode [OF assms(2)] by (simp add: PDecode_def PEncode_def)
  moreover have "pInv ?b" using assms(1) by (intro construct_inv) (simp_all only: items pInv_def, simp add: PNew_def, blast)
  moreover have "pItems bid \<noteq> [] \<longrightarrow> PGetBasicInfo ?b = PGetBasicInfo bid"
    using assms(1) items by (simp add: construct_spec PGetBasicInfo_def pInv_def PNew_def)
  ultimately show ?thesis using items(2) by blast
qed

text \<open>
  \<^verbatim>\<open>Pbitid.Decode\<close> of an encoded bit identifier into a new one restores the items and, unless
  there is none, the minimum, the maximum and the two counts, and leaves the rest of the input unread.
\<close>

lemma PDecode_PEncode:
  assumes "pInv bid" "length (pb_buff bid) < 2 ^ 63"
  shows "\<exists>bid'. PDecode (PEncode bid @ rest) PNew = Inr (length (PEncode bid), bid', rest) \<and> pInv bid' \<and>
    pItems bid' = pItems bid \<and> (pItems bid \<noteq> [] \<longrightarrow> PGetBasicInfo bid' = PGetBasicInfo bid)"
  using PDecode_roundtrip [OF assms] .

text \<open>
  On any bit identifiers whose counters agree with the bits, decoded ones included,
  the helpers always return, with the multiset difference, the sorted union, the missing items and the intersection.
\<close>

lemma P_helpers:
  assumes "pInv b1" "pInv b2"
  shows "(\<exists>ret. SubHelper p_ops b1 b2 NotSafe = Some (Inr ret) \<and> pBuild ret \<and> mset (pItems ret) = mset (pItems b1) - mset (pItems b2)) \<and>
    (\<exists>ret. AddHelper p_ops b1 b2 True False = Some (Inr ret) \<and> pBuild ret \<and> mset (pItems ret) = mset (pItems b1) + mset (pItems b2)) \<and>
    (\<exists>ret. AddHelper p_ops b1 b2 False False = Some (Inr ret) \<and> pBuild ret \<and>
       pItems ret = sorted_list_of_set (set (pItems b1) \<union> set (pItems b2))) \<and>
    (\<exists>ret. GetNewItemsHelper p_ops b1 b2 = Some (Inr ret) \<and> pBuild ret \<and>
       pItems ret = sorted_list_of_set (set (pItems b2) - set (pItems b1))) \<and>
    CheckIntersectionHelper p_ops b1 b2 = Some (sorted_list_of_multiset (mset (pItems b1) \<inter># mset (pItems b2)))"
  using p_bid.SubHelper_spec(2) [OF assms, of NotSafe] p_bid.AddHelper_spec(1,2) [OF assms]
    p_bid.GetNewItemsHelper_spec [OF assms] p_bid.CheckIntersectionHelper_spec [OF assms]
  by (simp add: subFails_def)

text \<open>
  \<^verbatim>\<open>Decode\<close> does not restore \<open>lastIdx\<close>, so an item appended to a decoded bit identifier lands in the wrong place.
\<close>

theorem PAppendItem_after_PDecode:
  "bind_res (NewPbitidFromInts [1]) (\<lambda>b. bind_res (PDecode (PEncode b) PNew) (\<lambda>(_, b', _). bind_res (PAppendItem 5 b') (\<lambda>b'. Inr (pItems b')))) =
     Inr [1, 3]"
  by code_simp

text \<open>The string of a bit identifier is cached and not renewed by \<^verbatim>\<open>AppendItem\<close>.\<close>

theorem PGetStr_stale:
  "bind_res (NewPbitidFromInts [1]) (\<lambda>b. bind_res (PAppendItem 2 (snd (PGetStr b))) (\<lambda>b'. Inr (fst (PGetStr b'), pb_buff b'))) =
     Inr ([2], [10])"
  by code_simp

end
