(* ===== verification/UvarintBitID.thy ===== *)
theory UvarintBitID
  imports BitIDHelpers Uvarint
begin

text \<open>
  The bit identifier stored as runs, \<^verbatim>\<open>src/consensus/auth/bitid/uvarintbid.go\<close>: every distinct item is written
  as a varint followed by the varint of its number of further occurrences. The count of the largest item is only
  written when it is needed, by \<^verbatim>\<open>writeMaxSizeCount\<close>. The iterator object that a bit identifier keeps for reuse is
  not modelled: \<^verbatim>\<open>NewIterator\<close> resets the one it returns. A reader is the list of bytes not yet read.
\<close>

section \<open>Data and operations\<close>

record UvarintBitID =
  uv_min :: int
  uv_max :: int
  uv_size :: int
  uv_uniqueCount :: int
  hasIteration :: bool
  maxSizeIdx :: nat
  maxCount :: int
  uv_arr :: "byte list"

record uvarintBitIDIter =
  ui_buff :: "byte list"
  ui_previous :: int
  ui_count :: int

definition UvNew :: UvarintBitID where
  "UvNew = \<lparr>uv_min = 0, uv_max = 0, uv_size = 0, uv_uniqueCount = 0, hasIteration = False, maxSizeIdx = 0, maxCount = 0, uv_arr = []\<rparr>"

text \<open>\<^verbatim>\<open>writeValCount\<close> returns the sizes of the two varints; the bytes are appended to the writer.\<close>

definition writeValCount :: "int \<Rightarrow> int \<Rightarrow> byte list \<Rightarrow> nat \<times> nat \<times> byte list" where
  "writeValCount v cnt writer =
     (length (PutUvarint (of_int v)), length (PutUvarint (of_int cnt)),
      writer @ PutUvarint (of_int v) @ PutUvarint (of_int cnt))"

text \<open>The loop of \<^verbatim>\<open>NewUvarintBitIDFromInts\<close> over the items after the first; the state is \<^verbatim>\<open>prev\<close>,
  \<^verbatim>\<open>count\<close>, \<^verbatim>\<open>unique\<close>, \<^verbatim>\<open>n\<close> and the writer.\<close>

fun fromIntsLoop :: "int list \<Rightarrow> int \<Rightarrow> int \<Rightarrow> int \<Rightarrow> nat \<Rightarrow> byte list \<Rightarrow> int \<times> int \<times> int \<times> nat \<times> byte list" where
  "fromIntsLoop [] prev cnt unique n writer = (prev, cnt, unique, n, writer)"
| "fromIntsLoop (nxt # l) prev cnt unique n writer =
     (if nxt = prev then fromIntsLoop l prev (cnt + 1) unique n writer
      else (case writeValCount prev cnt writer of (n1, n2, writer1) \<Rightarrow>
              fromIntsLoop l nxt 0 (unique + 1) (n + n1 + n2) writer1))"

definition NewUvarintBitIDFromInts :: "int list \<Rightarrow> UvarintBitID" where
  "NewUvarintBitIDFromInts items =
     (case items of [] \<Rightarrow> UvNew
      | first # l \<Rightarrow>
          (case fromIntsLoop l first 0 1 0 [] of (prev, cnt, unique, n, writer) \<Rightarrow>
             (case writeValCount prev cnt writer of (n1, n2, writer1) \<Rightarrow>
                \<lparr>uv_min = first, uv_max = last items, uv_size = int (length items), uv_uniqueCount = unique,
                 hasIteration = False, maxSizeIdx = n + n1, maxCount = cnt, uv_arr = writer1\<rparr>)))"

definition UvNextID :: "uvarintBitIDIter \<Rightarrow> (int \<times> uvarintBitIDIter) option" where
  "UvNextID iter =
     (if ui_count iter > 0 then Some (ui_previous iter, iter\<lparr>ui_count := ui_count iter - 1\<rparr>)
      else (case ReadUvarint (ui_buff iter) of Inl _ \<Rightarrow> None
            | Inr (i, _, r1) \<Rightarrow>
                (case ReadUvarint r1 of Inl _ \<Rightarrow> None
                 | Inr (cnt, _, r2) \<Rightarrow> Some (sint i, iter\<lparr>ui_previous := sint i, ui_count := sint cnt, ui_buff := r2\<rparr>))))"

definition writeMaxSizeCount :: "UvarintBitID \<Rightarrow> UvarintBitID" where
  "writeMaxSizeCount bid =
     (if hasIteration bid then bid
      else
        (let bid1 = (if uv_size bid > 0
                     then bid\<lparr>uv_arr := snd (AppendUvarint (of_int (maxCount bid)) (take (maxSizeIdx bid) (uv_arr bid)))\<rparr> else bid)
         in bid1\<lparr>hasIteration := True\<rparr>))"

text \<open>The operations that need the last count complete their receiver first; the new receiver is part of the result.\<close>

definition UvDoMakeCopy :: "UvarintBitID \<Rightarrow> UvarintBitID \<times> UvarintBitID" where
  "UvDoMakeCopy bid = (let bid1 = writeMaxSizeCount bid in (bid1\<lparr>hasIteration := False\<rparr>, bid1))"

definition UvGetStr :: "UvarintBitID \<Rightarrow> byte list \<times> UvarintBitID" where
  "UvGetStr bid = (let bid1 = writeMaxSizeCount bid in (uv_arr bid1, bid1))"

definition UvNewIterator :: "UvarintBitID \<Rightarrow> uvarintBitIDIter \<times> UvarintBitID" where
  "UvNewIterator bid =
     (let bid1 = writeMaxSizeCount bid in (\<lparr>ui_buff = uv_arr bid1, ui_previous = 0, ui_count = 0\<rparr>, bid1))"

definition UvEncode :: "UvarintBitID \<Rightarrow> byte list \<times> UvarintBitID" where
  "UvEncode bid =
     (let bid1 = writeMaxSizeCount bid in (PutUvarint (of_nat (length (uv_arr bid1))) @ uv_arr bid1, bid1))"

definition UvDone :: "UvarintBitID \<Rightarrow> UvarintBitID" where
  "UvDone bid = bid\<lparr>uv_arr := [], uv_min := 0, uv_max := 0, uv_size := 0, uv_uniqueCount := 0, maxSizeIdx := 0, maxCount := 0,
     hasIteration := False\<rparr>"

definition UvGetBasicInfo :: "UvarintBitID \<Rightarrow> int \<times> int \<times> int \<times> int" where
  "UvGetBasicInfo bid = (uv_min bid, uv_max bid, uv_size bid, uv_uniqueCount bid)"

definition UvSetInitialSize :: "int \<Rightarrow> UvarintBitID \<Rightarrow> UvarintBitID" where
  "UvSetInitialSize v bid = bid"

definition UvAppendItem :: "int \<Rightarrow> UvarintBitID \<Rightarrow> UvarintBitID res" where
  "UvAppendItem v bid =
     (if v < uv_max bid then Inl (Panic ''can only allow larger items'')
      else if hasIteration bid then Inl (Panic ''cannot add to a bid being iterated'')
      else
        (let bid1 = bid\<lparr>uv_size := uv_size bid + 1\<rparr>;
             bid2 = (if uv_size bid1 = 1 then bid1\<lparr>uv_min := v\<rparr>
                     else if uv_max bid1 \<noteq> v then bid1\<lparr>uv_arr := snd (AppendUvarint (of_int (maxCount bid1)) (uv_arr bid1))\<rparr>
                     else bid1)
         in if uv_size bid2 = 1 \<or> uv_max bid2 \<noteq> v
            then
              (let arr1 = snd (AppendUvarint (of_int v) (uv_arr bid2))
               in Inr (bid2\<lparr>uv_arr := arr1, uv_max := v, maxCount := 0, uv_uniqueCount := uv_uniqueCount bid2 + 1,
                         maxSizeIdx := length arr1\<rparr>))
            else if v \<noteq> uv_max bid2 then Inl (Panic ''invalid order'')
            else Inr (bid2\<lparr>maxCount := maxCount bid2 + 1\<rparr>)))"

text \<open>The loop of \<^verbatim>\<open>construct\<close>; the state is the buffer, \<^verbatim>\<open>n\<close>, \<^verbatim>\<open>prev\<close> and the bit identifier.\<close>

function uvConstructLoop :: "byte list \<Rightarrow> nat \<Rightarrow> int \<Rightarrow> UvarintBitID \<Rightarrow> UvarintBitID res" where
  "uvConstructLoop buff n prev bid =
     (if n < length (uv_arr bid) then
        bind_res (ReadUvarint buff) (\<lambda>(nxt, n1, buff1).
          let n' = n + n1
          in if nxt > 4294967295 \<or> sint nxt \<le> prev then Inl ErrInvalidBitID
             else
               (let bid1 = (if prev \<noteq> sint nxt then bid\<lparr>uv_uniqueCount := uv_uniqueCount bid + 1\<rparr> else bid);
                    bid2 = (if uv_size bid1 = 0 then bid1\<lparr>uv_min := sint nxt\<rparr> else bid1);
                    bid3 = bid2\<lparr>uv_max := sint nxt, maxSizeIdx := n'\<rparr>
                in bind_res (ReadUvarint buff1) (\<lambda>(cnt, n2, buff2).
                     if cnt > 4294967295 then Inl ErrInvalidBitID
                     else uvConstructLoop buff2 (n' + n2) (sint nxt)
                            (bid3\<lparr>maxCount := sint cnt, uv_size := uv_size bid3 + sint cnt + 1\<rparr>))))
      else Inr bid)"
  by pat_completeness auto
termination
  by (relation "measure (\<lambda>(buff, _). length buff)") (auto dest!: ReadUvarint_consumes(2))

declare uvConstructLoop.simps [simp del]

definition uvConstruct :: "UvarintBitID \<Rightarrow> UvarintBitID res" where
  "uvConstruct bid = uvConstructLoop (uv_arr bid) 0 (-1) bid"

definition UvDecode :: "byte list \<Rightarrow> UvarintBitID \<Rightarrow> (nat \<times> UvarintBitID \<times> byte list) res" where
  "UvDecode r bid =
     bind_res (DecodeHelper r) (\<lambda>(n, arr, r1).
       bind_res (uvConstruct (bid\<lparr>uv_arr := arr\<rparr>)) (\<lambda>bid1. Inr (n, bid1, r1)))"

text \<open>
  The operations the helpers use. \<^verbatim>\<open>NewIterator\<close> also completes its receiver, which changes neither its items nor its
  counts (\<open>writeMaxSizeCount_items\<close> below); the helpers never append to a receiver that they iterate.
\<close>

definition uv_ops :: "(UvarintBitID, uvarintBitIDIter) bid_ops" where
  "uv_ops = \<lparr>NewBid = UvNew, SetInitialSize = UvSetInitialSize, AppendItem = UvAppendItem,
     NewIterator = \<lambda>bid. fst (UvNewIterator bid), NextID = UvNextID, GetBasicInfo = UvGetBasicInfo\<rparr>"

section \<open>Runs\<close>

definition encRuns :: "(int \<times> int) list \<Rightarrow> byte list" where
  "encRuns runs = concat (map (\<lambda>(v, c). PutUvarint (of_int v) @ PutUvarint (of_int c)) runs)"

definition runItems :: "(int \<times> int) list \<Rightarrow> int list" where
  "runItems runs = concat (map (\<lambda>(v, c). v # replicate (nat c) v) runs)"

definition runsOk :: "(int \<times> int) list \<Rightarrow> bool" where
  "runsOk runs \<longleftrightarrow> sorted_wrt (<) (map fst runs) \<and> (\<forall>(v, c) \<in> set runs. goInt v \<and> goInt c)"

lemma runs_simps [simp]:
  "encRuns [] = []" "encRuns ((v, c) # runs) = PutUvarint (of_int v) @ PutUvarint (of_int c) @ encRuns runs"
  "encRuns (r1 @ r2) = encRuns r1 @ encRuns r2"
  "runItems [] = []" "runItems ((v, c) # runs) = v # replicate (nat c) v @ runItems runs"
  "runItems (r1 @ r2) = runItems r1 @ runItems r2"
  "runsOk []" "runsOk ((v, c) # runs) \<longleftrightarrow> goInt v \<and> goInt c \<and> (\<forall>r \<in> set runs. v < fst r) \<and> runsOk runs"
  by (auto simp: encRuns_def runItems_def runsOk_def)

lemma runsOk_snoc: "runsOk (rs @ [(v, c)]) \<longleftrightarrow> runsOk rs \<and> goInt v \<and> goInt c \<and> (\<forall>r \<in> set rs. fst r < v)"
  by (auto simp: runsOk_def sorted_wrt_append)

lemma set_runItems [simp]: "set (runItems runs) = fst ` set runs"
  by (induction runs) (force simp: set_replicate_conv_if)+

lemma runItems_Nil_iff [simp]: "runItems runs = [] \<longleftrightarrow> runs = []"
  by (cases runs) auto

lemma sorted_runItems: "runsOk runs \<Longrightarrow> sorted (runItems runs)"
  by (induction runs) (force simp: sorted_append)+

lemma hd_last_runItems: "runs \<noteq> [] \<Longrightarrow> hd (runItems runs) = fst (hd runs)" "runs \<noteq> [] \<Longrightarrow> last (runItems runs) = fst (last runs)"
  by (cases runs, auto) (cases runs rule: rev_cases, auto)

lemma card_runItems: "runsOk runs \<Longrightarrow> card (set (runItems runs)) = length runs"
  by (induction runs) (force simp: card_insert_if)+

function uvItemsOf :: "byte list \<Rightarrow> int list" where
  "uvItemsOf buff =
     (case ReadUvarint buff of Inl _ \<Rightarrow> []
      | Inr (i, _, r1) \<Rightarrow>
          (case ReadUvarint r1 of Inl _ \<Rightarrow> []
           | Inr (cnt, _, r2) \<Rightarrow> sint i # replicate (nat (sint cnt)) (sint i) @ uvItemsOf r2))"
  by pat_completeness auto
termination
  by (relation "measure length") (auto dest!: ReadUvarint_consumes(2))

declare uvItemsOf.simps [simp del]

lemma uvItemsOf_encRuns: "runsOk runs \<Longrightarrow> uvItemsOf (encRuns runs) = runItems runs"
proof (induction runs)
  case Nil
  then show ?case by (subst uvItemsOf.simps) simp
next
  case (Cons r runs)
  then show ?case by (cases r, subst uvItemsOf.simps) (simp add: goInt_word)
qed

section \<open>Representation\<close>

definition uvRep :: "UvarintBitID \<Rightarrow> (int \<times> int) list \<Rightarrow> bool" where
  "uvRep bid runs \<longleftrightarrow> runsOk runs \<and> uv_size bid = int (length (runItems runs)) \<and> uv_uniqueCount bid = int (length runs) \<and>
     (length (runItems runs) < 2 ^ 63 \<or> distinct (runItems runs)) \<and>
     (if runs = [] then uv_arr bid = []
      else uv_min bid = fst (hd runs) \<and> uv_max bid = fst (last runs) \<and> maxCount bid = snd (last runs) \<and>
        maxSizeIdx bid = length (encRuns (butlast runs) @ PutUvarint (of_int (fst (last runs)))) \<and>
        take (maxSizeIdx bid) (uv_arr bid) = encRuns (butlast runs) @ PutUvarint (of_int (fst (last runs))) \<and>
        (hasIteration bid \<longrightarrow> uv_arr bid = encRuns runs))"

definition uvInv :: "UvarintBitID \<Rightarrow> bool" where
  "uvInv bid \<longleftrightarrow> (\<exists>runs. uvRep bid runs)"

definition uvBuild :: "UvarintBitID \<Rightarrow> bool" where
  "uvBuild bid \<longleftrightarrow> (\<exists>runs. uvRep bid runs \<and> \<not> hasIteration bid \<and>
     (if runs = [] then uv_max bid = 0 else length (uv_arr bid) = maxSizeIdx bid))"

definition uvItems :: "UvarintBitID \<Rightarrow> int list" where
  "uvItems bid = uvItemsOf (uv_arr (writeMaxSizeCount bid))"

definition uvRest :: "uvarintBitIDIter \<Rightarrow> int list" where
  "uvRest it = replicate (nat (ui_count it)) (ui_previous it) @ uvItemsOf (ui_buff it)"

lemma encRuns_last: "runs \<noteq> [] \<Longrightarrow> encRuns runs = encRuns (butlast runs) @ PutUvarint (of_int (fst (last runs))) @ PutUvarint (of_int (snd (last runs)))"
  by (cases runs rule: rev_cases) (auto simp: split_beta)

lemma writeMaxSizeCount_arr: "uvRep bid runs \<Longrightarrow> uv_arr (writeMaxSizeCount bid) = encRuns runs"
  by (auto simp: writeMaxSizeCount_def uvRep_def Let_def AppendUvarint_def encRuns_last split: if_splits)

lemma uvItems_rep: "uvRep bid runs \<Longrightarrow> uvItems bid = runItems runs"
  using uvItemsOf_encRuns [of runs] writeMaxSizeCount_arr [of bid runs] by (simp add: uvItems_def) (simp add: uvRep_def)

lemma writeMaxSizeCount_fields [simp]:
  "uv_size (writeMaxSizeCount bid) = uv_size bid" "uv_min (writeMaxSizeCount bid) = uv_min bid"
  "uv_max (writeMaxSizeCount bid) = uv_max bid" "uv_uniqueCount (writeMaxSizeCount bid) = uv_uniqueCount bid"
  "maxCount (writeMaxSizeCount bid) = maxCount bid" "maxSizeIdx (writeMaxSizeCount bid) = maxSizeIdx bid"
  "hasIteration (writeMaxSizeCount bid)"
  by (simp_all add: writeMaxSizeCount_def Let_def)

lemma writeMaxSizeCount_rep:
  assumes "uvRep bid runs"
  shows "uvRep (writeMaxSizeCount bid) runs"
  using assms writeMaxSizeCount_arr [OF assms] by (cases "runs = []") (simp_all add: uvRep_def encRuns_last)

text \<open>Completing the last run changes neither the items nor the counts.\<close>

lemma writeMaxSizeCount_items:
  "uvInv bid \<Longrightarrow> uvInv (writeMaxSizeCount bid) \<and> uvItems (writeMaxSizeCount bid) = uvItems bid \<and>
     UvGetBasicInfo (writeMaxSizeCount bid) = UvGetBasicInfo bid"
  using writeMaxSizeCount_rep uvItems_rep unfolding uvInv_def UvGetBasicInfo_def by fastforce

lemma UvNextID_spec:
  "case UvNextID it of None \<Rightarrow> uvRest it = [] | Some (v, it') \<Rightarrow> uvRest it = v # uvRest it'"
proof (cases "ui_count it > 0")
  case True
  then have "nat (ui_count it) = Suc (nat (ui_count it - 1))" by simp
  then show ?thesis using True by (simp add: UvNextID_def uvRest_def)
next
  case False
  then show ?thesis
    by (auto simp: UvNextID_def uvRest_def uvItemsOf.simps [of "ui_buff it"] split: sum.splits)
qed

text \<open>The three ways an item is appended.\<close>

lemma UvAppendItem_rep:
  assumes rep: "uvRep bid runs" "\<not> hasIteration bid" "if runs = [] then uv_max bid = 0 else length (uv_arr bid) = maxSizeIdx bid"
    and v: "goInt v" "\<And>x. x \<in> set (runItems runs) \<Longrightarrow> x \<le> v"
    and d: "length (runItems runs) + 1 < 2 ^ 63 \<or> v \<notin> set (runItems runs) \<and> distinct (runItems runs)"
  shows "\<exists>bid'. UvAppendItem v bid = Inr bid' \<and> uvBuild bid' \<and> uvItems bid' = runItems runs @ [v]"
proof -
  have fin: "\<exists>bid'. UvAppendItem v bid = Inr bid' \<and> uvBuild bid' \<and> uvItems bid' = runItems runs @ [v]"
    if "UvAppendItem v bid = Inr bid'" "uvRep bid' runs'" "runs' \<noteq> []" "\<not> hasIteration bid'" "length (uv_arr bid') = maxSizeIdx bid'"
      "runItems runs' = runItems runs @ [v]" for bid' runs'
    using that uvItems_rep [OF that(2)] by (auto simp: uvBuild_def)
  show ?thesis
  proof (cases runs rule: rev_cases)
    case Nil
    let ?b = "bid\<lparr>uv_size := uv_size bid + 1, uv_min := v, uv_arr := PutUvarint (of_int v), uv_max := v, maxCount := 0,
      uv_uniqueCount := uv_uniqueCount bid + 1, maxSizeIdx := length (PutUvarint (of_int v))\<rparr>"
    show ?thesis
      by (rule fin [of ?b "[(v, 0)]"]) (use rep v Nil in \<open>auto simp: UvAppendItem_def uvRep_def AppendUvarint_def Let_def goInt_def\<close>)
  next
    case (snoc rs r)
    obtain w c where r: "r = (w, c)" by (cases r)
    have w: "uv_max bid = w" "maxCount bid = c" "w \<le> v" "uv_size bid \<noteq> 0" "uv_size bid > 0"
      using rep(1) v(2) snoc r by (auto simp: uvRep_def)
    show ?thesis
    proof (cases "w = v")
      case True
      have "goInt (c + 1)"
        using d snoc r True rep(1) by (auto simp: uvRep_def goInt_def runsOk_def)
      then have "runsOk (rs @ [(v, c + 1)])" using rep(1) snoc r True by (auto simp: uvRep_def runsOk_def sorted_wrt_append)
      moreover have items: "runItems (rs @ [(v, c + 1)]) = runItems runs @ [v]"
        using rep(1) snoc r True by (auto simp: uvRep_def runsOk_def goInt_def nat_add_distrib replicate_append_same)
      ultimately show ?thesis
        by (intro fin [of "bid\<lparr>uv_size := uv_size bid + 1, maxCount := c + 1\<rparr>" "rs @ [(v, c + 1)]"])
          (use rep v d snoc r w True in \<open>auto simp: UvAppendItem_def uvRep_def Let_def hd_append\<close>)
    next
      case False
      let ?b = "bid\<lparr>uv_size := uv_size bid + 1, uv_arr := encRuns runs @ PutUvarint (of_int v), uv_max := v, maxCount := 0,
        uv_uniqueCount := uv_uniqueCount bid + 1, maxSizeIdx := length (encRuns runs @ PutUvarint (of_int v))\<rparr>"
      have arr: "uv_arr bid @ PutUvarint (of_int c) = encRuns runs"
        using rep snoc r by (auto simp: uvRep_def)
      have ok: "runsOk runs" using rep(1) by (simp add: uvRep_def)
      then have "fst x < v" if "x \<in> set runs" for x
        using that snoc r w(3) False runsOk_snoc [of rs w c] by (fastforce simp: order.strict_trans)
      then have "runsOk (runs @ [(v, 0)])" using ok v(1) unfolding runsOk_snoc by (simp add: goInt_def)
      moreover have "UvAppendItem v bid = Inr ?b"
        using rep(2) w False arr by (simp add: UvAppendItem_def Let_def AppendUvarint_def)
      moreover have "length (runItems (runs @ [(v, 0)])) < 2 ^ 63 \<or> distinct (runItems (runs @ [(v, 0)]))"
        using d by (auto simp: add.commute)
      moreover have "uv_size bid = int (length (runItems runs))" "uv_uniqueCount bid = int (length runs)" "uv_min bid = fst (hd runs)" "runs \<noteq> []"
        using rep(1) snoc by (simp_all add: uvRep_def)
      ultimately show ?thesis using rep(2)
        by (intro fin [of ?b "runs @ [(v, 0)]"]) (simp_all add: uvRep_def)
    qed
  qed
qed

section \<open>The runs implement the interface\<close>

lemma uvRep_facts:
  assumes "uvRep bid runs"
  shows "uvItems bid = runItems runs" "sorted (uvItems bid)" "\<forall>v \<in> set (uvItems bid). goInt v"
    "uv_size bid = int (length (uvItems bid))" "length (uvItems bid) < 2 ^ 63 \<or> distinct (uvItems bid)"
proof -
  show i: "uvItems bid = runItems runs" using assms by (rule uvItems_rep)
  show "sorted (uvItems bid)" using assms sorted_runItems unfolding i by (simp add: uvRep_def)
  show "uv_size bid = int (length (uvItems bid))" "length (uvItems bid) < 2 ^ 63 \<or> distinct (uvItems bid)"
    using assms unfolding i uvRep_def by blast+
  show "\<forall>v \<in> set (uvItems bid). goInt v" using assms unfolding i by (auto simp: uvRep_def runsOk_def)
qed

interpretation uv_bid: bid_builder uv_ops uvItems uvRest uvInv uvBuild "\<lambda>n. n < 2 ^ 63"
proof unfold_locales
  fix it v it' b n
  show "NextID uv_ops it = None \<Longrightarrow> uvRest it = []" "NextID uv_ops it = Some (v, it') \<Longrightarrow> uvRest it = v # uvRest it'"
    using UvNextID_spec [of it] by (simp_all add: uv_ops_def)
  show "uvRest (NewIterator uv_ops b) = uvItems b"
    by (simp add: uv_ops_def UvNewIterator_def uvRest_def uvItems_def Let_def)
  show "uvInv b \<Longrightarrow> bidCount uv_ops b = int (length (uvItems b))" "uvInv b \<Longrightarrow> sorted (uvItems b)"
    "uvInv b \<Longrightarrow> v \<in> set (uvItems b) \<Longrightarrow> goInt v" "uvInv b \<Longrightarrow> length (uvItems b) < 2 ^ 63 \<or> distinct (uvItems b)"
    using uvRep_facts(2-5) unfolding uvInv_def by (fastforce simp: uv_ops_def bidCount_def UvGetBasicInfo_def)+
  show "uvBuild b \<Longrightarrow> uvInv b" by (auto simp: uvBuild_def uvInv_def)
  have new: "uvRep UvNew []" by (simp add: uvRep_def UvNew_def)
  then have "uvBuild UvNew" by (auto simp: uvBuild_def UvNew_def intro: exI [of _ "[]"])
  then show "uvBuild (NewBid uv_ops)" "uvItems (NewBid uv_ops) = []"
    "uvBuild (SetInitialSize uv_ops n (NewBid uv_ops))" "uvItems (SetInitialSize uv_ops n (NewBid uv_ops)) = []"
    using uvItems_rep [OF new] by (simp_all add: uv_ops_def UvSetInitialSize_def)
  show "\<exists>b'. AppendItem uv_ops v b = Inr b' \<and> uvBuild b' \<and> uvItems b' = uvItems b @ [v]"
    if "uvBuild b" "goInt v" "\<And>x. x \<in> set (uvItems b) \<Longrightarrow> x \<le> v"
      "Suc (length (uvItems b)) < 2 ^ 63 \<or> v \<notin> set (uvItems b) \<and> distinct (uvItems b)"
  proof -
    obtain runs where r: "uvRep b runs" "\<not> hasIteration b" "if runs = [] then uv_max b = 0 else length (uv_arr b) = maxSizeIdx b"
      using \<open>uvBuild b\<close> by (auto simp: uvBuild_def)
    show ?thesis using UvAppendItem_rep [OF r that(2)] that(3,4) uvItems_rep [OF r(1)] by (simp add: uv_ops_def)
  qed
qed simp

section \<open>Construction and decoding\<close>

lemma fromIntsLoop_spec:
  assumes "sorted (prev # l)" "\<forall>v \<in> set (prev # l). goInt v" "0 \<le> cnt" "cnt + int (length l) < 2 ^ 63"
  shows "\<exists>runs c. fromIntsLoop l prev cnt unique n writer =
      (fst (last runs), c, unique + int (length runs) - 1, n + length (encRuns (butlast runs)), writer @ encRuns (butlast runs)) \<and>
    runs \<noteq> [] \<and> snd (last runs) = c \<and> runsOk runs \<and> fst (hd runs) = prev \<and> runItems runs = replicate (nat cnt) prev @ prev # l"
  using assms
proof (induction l arbitrary: prev cnt unique n writer)
  case Nil
  then show ?case by (intro exI [of _ "[(prev, cnt)]"] exI [of _ cnt]) (simp add: goInt_def replicate_append_same)
next
  case (Cons a l)
  show ?case
  proof (cases "a = prev")
    case True
    have "replicate (nat (cnt + 1)) prev = replicate (nat cnt) prev @ [prev]"
      using Cons.prems(3) by (simp add: nat_add_distrib replicate_append_same)
    then show ?thesis using Cons.IH [of prev "cnt + 1" unique n writer] Cons.prems True by auto
  next
    case False
    let ?w = "PutUvarint (of_int prev) @ PutUvarint (of_int cnt)"
    obtain runs c where r: "fromIntsLoop l a 0 (unique + 1) (n + length ?w) (writer @ ?w) =
        (fst (last runs), c, unique + 1 + int (length runs) - 1, n + length ?w + length (encRuns (butlast runs)), (writer @ ?w) @ encRuns (butlast runs))"
      "runs \<noteq> []" "snd (last runs) = c" "runsOk runs" "fst (hd runs) = a" "runItems runs = a # l"
      using Cons.IH [of a 0 "unique + 1" "n + length ?w" "writer @ ?w"] Cons.prems by auto
    have "x \<in> fst ` set runs \<Longrightarrow> prev < x" for x
    proof -
      assume "x \<in> fst ` set runs"
      then have "x = a \<or> x \<in> set l" using set_runItems [of runs] r(6) by auto
      then show "prev < x" using Cons.prems(1) False by fastforce
    qed
    then have "runsOk ((prev, cnt) # runs)" using r(4) Cons.prems by (simp add: goInt_def)
    moreover have "runItems ((prev, cnt) # runs) = replicate (nat cnt) prev @ prev # a # l"
      using r(6) by (simp add: replicate_app_Cons_same)
    ultimately show ?thesis using r False
      by (intro exI [of _ "(prev, cnt) # runs"] exI [of _ c]) (simp add: writeValCount_def add.assoc)
  qed
qed

lemma uvConstructLoop_spec:
  assumes "runsOk runs" "\<forall>(v, c) \<in> set runs. v < 2 ^ 32 \<and> c < 2 ^ 32 \<and> prev < v" "0 \<le> uv_size bid"
    "length (uv_arr bid) = n + length (encRuns runs)"
  shows "uvConstructLoop (encRuns runs) n prev bid = Inr (if runs = [] then bid else
    bid\<lparr>uv_uniqueCount := uv_uniqueCount bid + int (length runs), uv_size := uv_size bid + int (length (runItems runs)),
        uv_min := (if uv_size bid = 0 then fst (hd runs) else uv_min bid), uv_max := fst (last runs),
        maxSizeIdx := n + length (encRuns (butlast runs)) + length (PutUvarint (of_int (fst (last runs)))),
        maxCount := snd (last runs)\<rparr>)"
  using assms
proof (induction runs arbitrary: n prev bid)
  case Nil
  then show ?case by (subst uvConstructLoop.simps) simp
next
  case (Cons r runs)
  obtain v c where r: "r = (v, c)" by (cases r)
  let ?v = "PutUvarint (of_int v)" and ?c = "PutUvarint (of_int c)"
  have g: "goInt v" "goInt c" "v < 2 ^ 32" "c < 2 ^ 32" "prev < v" using Cons.prems r by auto
  have w: "\<not> (of_int x :: uint64) > 4294967295" "sint (of_int x :: uint64) = x" if "goInt x" "x < 2 ^ 32" for x
    using that goInt_word [OF that(1)] by (simp_all add: word_less_alt)
  let ?b = "bid\<lparr>uv_uniqueCount := uv_uniqueCount bid + 1, uv_min := (if uv_size bid = 0 then v else uv_min bid), uv_max := v,
    maxSizeIdx := n + length ?v, maxCount := c, uv_size := uv_size bid + c + 1\<rparr>"
  have step: "uvConstructLoop (encRuns (r # runs)) n prev bid = uvConstructLoop (encRuns runs) (n + length ?v + length ?c) v ?b"
    using g(5) Cons.prems(4)
    by (cases "uv_size bid = 0"; subst uvConstructLoop.simps) (simp_all add: r Let_def w(1) [OF g(1,3)] w(1) [OF g(2,4)] w(2) [OF g(1,3)] w(2) [OF g(2,4)])
  have nz: "uv_size bid + c + 1 \<noteq> 0" "0 \<le> uv_size bid + c + 1" "0 \<le> c" using g(2) Cons.prems(3) by (auto simp: goInt_def)
  have "uvConstructLoop (encRuns runs) (n + length ?v + length ?c) v ?b = Inr (if runs = [] then ?b else
    ?b\<lparr>uv_uniqueCount := uv_uniqueCount ?b + int (length runs), uv_size := uv_size ?b + int (length (runItems runs)),
        uv_min := (if uv_size ?b = 0 then fst (hd runs) else uv_min ?b), uv_max := fst (last runs),
        maxSizeIdx := n + length ?v + length ?c + length (encRuns (butlast runs)) + length (PutUvarint (of_int (fst (last runs)))),
        maxCount := snd (last runs)\<rparr>)"
    by (rule Cons.IH) (use Cons.prems r nz in auto)
  then show ?case unfolding step using nz r by (simp add: algebra_simps)
qed

lemma NewUvarintBitIDFromInts_rep:
  assumes "sorted l" "\<forall>v \<in> set l. goInt v" "length l < 2 ^ 63"
  shows "\<exists>runs. uvRep (NewUvarintBitIDFromInts l) runs \<and> runItems runs = l"
proof (cases l)
  case Nil
  then show ?thesis by (intro exI [of _ "[]"]) (simp add: NewUvarintBitIDFromInts_def UvNew_def uvRep_def)
next
  case (Cons a l')
  obtain runs where r: "fromIntsLoop l' a 0 1 0 [] =
      (fst (last runs), snd (last runs), int (length runs), length (encRuns (butlast runs)), encRuns (butlast runs))"
    "runs \<noteq> []" "runsOk runs" "fst (hd runs) = a" "runItems runs = l"
    using fromIntsLoop_spec [of a l' 0 1 0 "[]"] assms Cons by auto
  then have "last l = fst (last runs)" using hd_last_runItems(2) [of runs] by simp
  then have "uvRep (NewUvarintBitIDFromInts l) runs"
    using r assms(3) Cons by (simp add: NewUvarintBitIDFromInts_def uvRep_def writeValCount_def)
  with r(5) show ?thesis by blast
qed

section \<open>Theorems\<close>

text \<open>
  \<^verbatim>\<open>NewUvarintBitIDFromInts\<close> of a sorted slice holds the items of the slice, and
  reports its minimum, maximum, length and number of distinct items.
\<close>

lemma NewUvarintBitIDFromInts_spec:
  assumes "sorted l" "\<forall>v \<in> set l. goInt v" "length l < 2 ^ 63"
  shows "uvInv (NewUvarintBitIDFromInts l) \<and> uvItems (NewUvarintBitIDFromInts l) = l \<and>
    UvGetBasicInfo (NewUvarintBitIDFromInts l) = (if l = [] then (0, 0, 0, 0) else (hd l, last l, int (length l), int (card (set l))))"
proof -
  obtain runs where r: "uvRep (NewUvarintBitIDFromInts l) runs" "runItems runs = l" using NewUvarintBitIDFromInts_rep [OF assms] by blast
  have "UvGetBasicInfo (NewUvarintBitIDFromInts l) = (if l = [] then (0, 0, 0, 0) else (hd l, last l, int (length l), int (card (set l))))"
  proof (cases "l = []")
    case True
    then show ?thesis by (simp add: NewUvarintBitIDFromInts_def UvNew_def UvGetBasicInfo_def)
  next
    case False
    then have "runs \<noteq> []" using r(2) by auto
    then show ?thesis using r(1) False hd_last_runItems [of runs] card_runItems [of runs] unfolding r(2)
      by (simp add: uvRep_def UvGetBasicInfo_def r(2))
  qed
  then show ?thesis using r uvItems_rep by (auto simp: uvInv_def)
qed

lemma UvDecode_roundtrip:
  assumes "uvInv bid" "\<forall>v \<in> set (uvItems bid). v < 2 ^ 32" "length (uvItems bid) \<le> 2 ^ 32" "length (uv_arr (writeMaxSizeCount bid)) < 2 ^ 63"
  shows "\<exists>bid'. UvDecode (fst (UvEncode bid) @ rest) UvNew = Inr (length (fst (UvEncode bid)), bid', rest) \<and> uvInv bid' \<and>
    uvItems bid' = uvItems bid \<and> (uvItems bid \<noteq> [] \<longrightarrow> UvGetBasicInfo bid' = UvGetBasicInfo bid)"
proof -
  obtain runs where rep: "uvRep bid runs" using assms(1) by (auto simp: uvInv_def)
  have arr: "uv_arr (writeMaxSizeCount bid) = encRuns runs" and items: "uvItems bid = runItems runs" and ok: "runsOk runs"
    using writeMaxSizeCount_arr [OF rep] uvItems_rep [OF rep] rep by (simp_all add: uvRep_def)
  have "c < 2 ^ 32" if m: "(v, c) \<in> set runs" for v c
  proof -
    obtain rs rs' where "runs = rs @ (v, c) # rs'" using split_list [OF m] by blast
    then have "nat c < length (runItems runs)" by simp
    then show ?thesis using assms(3) items by simp
  qed
  moreover have "v < 2 ^ 32 \<and> -1 < v" if "(v, c) \<in> set runs" for v c
  proof -
    have "v \<in> set (uvItems bid)" using that items by force
    then show ?thesis using assms(2) uvRep_facts(3) [OF rep] by (fastforce simp: goInt_def)
  qed
  ultimately have "uvConstructLoop (encRuns runs) 0 (-1) (UvNew\<lparr>uv_arr := encRuns runs\<rparr>) =
      Inr (if runs = [] then UvNew\<lparr>uv_arr := encRuns runs\<rparr> else (writeMaxSizeCount bid)\<lparr>hasIteration := False\<rparr>)"
    using rep arr by (subst uvConstructLoop_spec [OF ok]) (auto simp: UvNew_def uvRep_def)
  then obtain bid' where c: "uvConstruct (UvNew\<lparr>uv_arr := encRuns runs\<rparr>) = Inr bid'"
    and b': "bid' = (if runs = [] then UvNew\<lparr>uv_arr := encRuns runs\<rparr> else (writeMaxSizeCount bid)\<lparr>hasIteration := False\<rparr>)"
    by (simp add: uvConstruct_def)
  have "UvDecode (fst (UvEncode bid) @ rest) UvNew = Inr (length (fst (UvEncode bid)), bid', rest)"
    using DecodeHelper_Encode [OF assms(4), of rest] c arr by (simp add: UvDecode_def UvEncode_def EncodeHelper_def Let_def)
  moreover have rep': "uvRep bid' runs"
    using writeMaxSizeCount_rep [OF rep] by (cases "runs = []") (simp_all add: b' uvRep_def UvNew_def encRuns_last)
  moreover have "uvItems bid \<noteq> [] \<longrightarrow> UvGetBasicInfo bid' = UvGetBasicInfo bid"
    unfolding items by (simp add: b' UvGetBasicInfo_def)
  ultimately show ?thesis using uvItems_rep [OF rep'] items by (auto simp: uvInv_def)
qed

text \<open>
  \<^verbatim>\<open>UvarintBitID.Decode\<close> of an encoded bit identifier restores its items and, unless there is
  none, the four values of \<^verbatim>\<open>GetBasicInfo\<close>, provided that the items and the numbers of their occurrences fit into 32 bits.
\<close>

lemma UvDecode_UvEncode:
  assumes "uvInv bid" "\<forall>v \<in> set (uvItems bid). v < 2 ^ 32" "length (uvItems bid) \<le> 2 ^ 32" "length (uv_arr (writeMaxSizeCount bid)) < 2 ^ 63"
  shows "\<exists>bid'. UvDecode (fst (UvEncode bid) @ rest) UvNew = Inr (length (fst (UvEncode bid)), bid', rest) \<and> uvInv bid' \<and>
    uvItems bid' = uvItems bid \<and> (uvItems bid \<noteq> [] \<longrightarrow> UvGetBasicInfo bid' = UvGetBasicInfo bid)"
  using UvDecode_roundtrip [OF assms] .

text \<open>
  \<^verbatim>\<open>NewUvarintBitIDFromInts\<close>, \<^verbatim>\<open>DoMakeCopy\<close> and \<^verbatim>\<open>Decode\<close> return a bit identifier whose last count
  is already written but that accepts further items: \<^verbatim>\<open>AppendItem\<close> of a larger item writes that count a second time.
\<close>

theorem UvAppendItem_corrupts:
  "bind_res (UvAppendItem 5 (NewUvarintBitIDFromInts [1])) (\<lambda>b. Inr (uvItems b)) = Inr [1, 0, 0, 0, 0, 0, 0]"
  by code_simp

end
