(* ===== verification/ChooseBid.thy ===== *)
theory ChooseBid
  imports SliceBitID Pbitid UvarintBitID
begin

text \<open>
  The bit identifier that chooses its encoding, \<^verbatim>\<open>src/consensus/auth/bitid/choosebid.go\<close>: items are collected in a
  slice, and the first \<^verbatim>\<open>Encode\<close> fixes the representation that is estimated to be shorter. The embedded interface
  value is \<open>None\<close> when it is nil.
\<close>

datatype chosen = ChosenP Pbitid | ChosenUv UvarintBitID

record ChooseBid =
  chosenBid :: "chosen option"
  ch_sli :: SliceBitID
  ch_str :: "byte list"

definition ChNew :: ChooseBid where
  "ChNew = \<lparr>chosenBid = None, ch_sli = SliceNew, ch_str = []\<rparr>"

definition NewChooseBIDFromInts :: "int list \<Rightarrow> ChooseBid" where
  "NewChooseBIDFromInts l = ChNew\<lparr>ch_sli := NewSliceBitIDFromInts l\<rparr>"

text \<open>
  \<^verbatim>\<open>DoMakeCopy\<close> calls the method of the embedded interface without a test for nil. Copying a run list completes the
  receiver, which is returned as well.
\<close>

definition ChDoMakeCopy :: "ChooseBid \<Rightarrow> (ChooseBid \<times> ChooseBid) res" where
  "ChDoMakeCopy bid =
     (case chosenBid bid of None \<Rightarrow> Inl (Panic ''nil pointer dereference'')
      | Some (ChosenP b) \<Rightarrow> Inr (ChNew\<lparr>chosenBid := Some (ChosenP (PDoMakeCopy b)), ch_sli := ch_sli bid\<rparr>, bid)
      | Some (ChosenUv b) \<Rightarrow>
          (case UvDoMakeCopy b of (c, b1) \<Rightarrow>
             Inr (ChNew\<lparr>chosenBid := Some (ChosenUv c), ch_sli := ch_sli bid\<rparr>, bid\<lparr>chosenBid := Some (ChosenUv b1)\<rparr>)))"

definition ChGetBasicInfo :: "ChooseBid \<Rightarrow> int \<times> int \<times> int \<times> int" where
  "ChGetBasicInfo bid =
     (case chosenBid bid of None \<Rightarrow> SliceGetBasicInfo (ch_sli bid)
      | Some (ChosenP b) \<Rightarrow> PGetBasicInfo b | Some (ChosenUv b) \<Rightarrow> UvGetBasicInfo b)"

definition ChSetInitialSize :: "int \<Rightarrow> ChooseBid \<Rightarrow> ChooseBid" where
  "ChSetInitialSize v bid = bid"

definition ChAppendItem :: "int \<Rightarrow> ChooseBid \<Rightarrow> ChooseBid" where
  "ChAppendItem v bid = bid\<lparr>ch_sli := SliceAppendItem v (ch_sli bid)\<rparr>"

definition ChDone :: "ChooseBid \<Rightarrow> ChooseBid" where
  "ChDone bid = bid\<lparr>ch_sli := SliceDone (ch_sli bid), chosenBid := None\<rparr>"

text \<open>The iterator of the representation in use.\<close>

datatype chooseIter = IterSli sliceBitIDIter | IterP pbitidIter | IterUv uvarintBitIDIter

definition ChNewIterator :: "ChooseBid \<Rightarrow> chooseIter" where
  "ChNewIterator bid =
     (case chosenBid bid of None \<Rightarrow> IterSli (SliceNewIterator (ch_sli bid))
      | Some (ChosenP b) \<Rightarrow> IterP (PNewIterator b) | Some (ChosenUv b) \<Rightarrow> IterUv (fst (UvNewIterator b)))"

definition ChNextID :: "chooseIter \<Rightarrow> (int \<times> chooseIter) option" where
  "ChNextID it =
     (case it of IterSli i \<Rightarrow> map_option (map_prod id IterSli) (SliceNextID i)
      | IterP i \<Rightarrow> map_option (map_prod id IterP) (PNextID i) | IterUv i \<Rightarrow> map_option (map_prod id IterUv) (UvNextID i))"

definition choose_ops :: "(ChooseBid, chooseIter) bid_ops" where
  "choose_ops = \<lparr>NewBid = ChNew, SetInitialSize = ChSetInitialSize, AppendItem = \<lambda>v b. Inr (ChAppendItem v b),
     NewIterator = ChNewIterator, NextID = ChNextID, GetBasicInfo = ChGetBasicInfo\<rparr>"

section \<open>Encoding\<close>

definition LeadingZeros64 :: "uint64 \<Rightarrow> nat" where
  "LeadingZeros64 x = length (takeWhile (\<lambda>i. \<not> bit x i) (rev [0..<64]))"

text \<open>Go's \<^verbatim>\<open>int\<close> has 64 bits, and sums wrap around.\<close>

definition wrap64 :: "int \<Rightarrow> int" where
  "wrap64 x = sint (of_int x :: uint64)"

text \<open>The two estimates of \<^verbatim>\<open>Encode\<close>.\<close>

definition pBidSize :: "int \<Rightarrow> int \<Rightarrow> int" where
  "pBidSize mx cnt = wrap64 (wrap64 (mx + cnt) div 8 + 1)"

definition uvarintSize :: "int \<Rightarrow> int \<Rightarrow> int" where
  "uvarintSize mx unique = wrap64 ((int ((64 - LeadingZeros64 (of_int mx)) div 8) + 1) * unique + unique)"

definition chooseBid :: "SliceBitID \<Rightarrow> chosen res" where
  "chooseBid sli =
     (case SliceGetBasicInfo sli of (_, mx, cnt, unique) \<Rightarrow>
        if pBidSize mx cnt \<le> uvarintSize mx unique
        then bind_res (NewPbitidFromInts (sli_items sli)) (\<lambda>b. Inr (ChosenP b))
        else Inr (ChosenUv (NewUvarintBitIDFromInts (sli_items sli))))"

abbreviation BitIDUvarint :: byte where "BitIDUvarint \<equiv> 0"
abbreviation BitIDP :: byte where "BitIDP \<equiv> 2"

definition encodeChosen :: "chosen \<Rightarrow> byte list \<times> chosen" where
  "encodeChosen b =
     (case b of ChosenP p \<Rightarrow> (BitIDP # PEncode p, ChosenP p)
      | ChosenUv u \<Rightarrow> (case UvEncode u of (e, u1) \<Rightarrow> (BitIDUvarint # e, ChosenUv u1)))"

definition ChEncode :: "ChooseBid \<Rightarrow> (byte list \<times> ChooseBid) res" where
  "ChEncode bid =
     bind_res (case chosenBid bid of Some b \<Rightarrow> Inr b | None \<Rightarrow> chooseBid (ch_sli bid)) (\<lambda>b.
       case encodeChosen b of (e, b1) \<Rightarrow> Inr (e, bid\<lparr>chosenBid := Some b1\<rparr>))"

definition ChDecode :: "byte list \<Rightarrow> ChooseBid \<Rightarrow> (nat \<times> ChooseBid \<times> byte list) res" where
  "ChDecode r bid =
     bind_res (ReadBytes 1 r) (\<lambda>(_, typ, r1).
       if hd typ = BitIDP then
         bind_res (NewPbitidFromInts []) (\<lambda>p0. bind_res (PDecode r1 p0) (\<lambda>(n, p, r2).
           Inr (n + 1, bid\<lparr>chosenBid := Some (ChosenP p)\<rparr>, r2)))
       else if hd typ = BitIDUvarint then
         bind_res (UvDecode r1 (NewUvarintBitIDFromInts [])) (\<lambda>(n, u, r2).
           Inr (n + 1, bid\<lparr>chosenBid := Some (ChosenUv u)\<rparr>, r2))
       else Inl ErrInvalidBitID)"

definition ChGetStr :: "ChooseBid \<Rightarrow> (byte list \<times> ChooseBid) res" where
  "ChGetStr bid =
     (if ch_str bid = [] then bind_res (ChEncode bid) (\<lambda>(e, bid1). Inr (e, bid1\<lparr>ch_str := e\<rparr>)) else Inr (ch_str bid, bid))"

section \<open>The choice implements the interface\<close>

definition chItems :: "ChooseBid \<Rightarrow> int list" where
  "chItems bid =
     (case chosenBid bid of None \<Rightarrow> sli_items (ch_sli bid) | Some (ChosenP b) \<Rightarrow> pItems b | Some (ChosenUv b) \<Rightarrow> uvItems b)"

definition chRest :: "chooseIter \<Rightarrow> int list" where
  "chRest it = (case it of IterSli i \<Rightarrow> iterRest i | IterP i \<Rightarrow> pRest i | IterUv i \<Rightarrow> uvRest i)"

definition chInv :: "ChooseBid \<Rightarrow> bool" where
  "chInv bid = (case chosenBid bid of None \<Rightarrow> sliceInv (ch_sli bid) | Some (ChosenP b) \<Rightarrow> pInv b | Some (ChosenUv b) \<Rightarrow> uvInv b)"

definition chBuild :: "ChooseBid \<Rightarrow> bool" where
  "chBuild bid \<longleftrightarrow> chosenBid bid = None \<and> sliceInv (ch_sli bid)"

lemmas part_ops = slice_ops_def p_ops_def uv_ops_def

lemma ChNextID_spec:
  "ChNextID it = None \<Longrightarrow> chRest it = []" "ChNextID it = Some (v, it') \<Longrightarrow> chRest it = v # chRest it'"
proof -
  show "ChNextID it = None \<Longrightarrow> chRest it = []"
    using slice_bid.next_None p_bid.next_None uv_bid.next_None by (cases it) (simp_all add: ChNextID_def chRest_def part_ops)
  show "ChNextID it = Some (v, it') \<Longrightarrow> chRest it = v # chRest it'"
    using slice_bid.next_Some p_bid.next_Some uv_bid.next_Some by (cases it) (auto simp: ChNextID_def chRest_def part_ops)
qed

interpretation choose_bid: bid_builder choose_ops chItems chRest chInv chBuild "\<lambda>_. True"
proof unfold_locales
  fix it v it' b n
  show "NextID choose_ops it = None \<Longrightarrow> chRest it = []" "NextID choose_ops it = Some (v, it') \<Longrightarrow> chRest it = v # chRest it'"
    using ChNextID_spec [of it] by (simp_all add: choose_ops_def)
  show "chInv b \<Longrightarrow> chRest (NewIterator choose_ops b) = chItems b"
    using slice_bid.iter_items p_bid.iter_items uv_bid.iter_items
    by (simp add: choose_ops_def ChNewIterator_def chRest_def chItems_def chInv_def part_ops split: option.splits chosen.splits)
  show "chInv b \<Longrightarrow> bidCount choose_ops b = int (length (chItems b))"
    using slice_bid.count_items p_bid.count_items uv_bid.count_items
    by (simp add: choose_ops_def ChGetBasicInfo_def bidCount_def chItems_def chInv_def part_ops split: option.splits chosen.splits)
  show "chInv b \<Longrightarrow> sorted (chItems b)"
    using slice_bid.items_sorted p_bid.items_sorted uv_bid.items_sorted
    by (simp add: chItems_def chInv_def split: option.splits chosen.splits)
  show "chInv b \<Longrightarrow> v \<in> set (chItems b) \<Longrightarrow> goInt v"
    using slice_bid.items_int p_bid.items_int uv_bid.items_int
    by (auto simp: chItems_def chInv_def split: option.splits chosen.splits)
  show "chBuild b \<Longrightarrow> chInv b" by (simp add: chBuild_def chInv_def)
  show "chBuild (NewBid choose_ops)" "chItems (NewBid choose_ops) = []"
    "chBuild (SetInitialSize choose_ops n (NewBid choose_ops))" "chItems (SetInitialSize choose_ops n (NewBid choose_ops)) = []"
    using slice_bid.new_inv by (simp_all add: choose_ops_def ChNew_def ChSetInitialSize_def chBuild_def chItems_def slice_ops_def)
  show "\<exists>b'. AppendItem choose_ops v b = Inr b' \<and> chBuild b' \<and> chItems b' = chItems b @ [v]"
    if "chBuild b" "goInt v" "\<And>x. x \<in> set (chItems b) \<Longrightarrow> x \<le> v"
    using SliceAppendItem_spec [of "ch_sli b" v] that by (auto simp: choose_ops_def ChAppendItem_def chBuild_def chItems_def)
qed simp_all

section \<open>Theorems\<close>

lemma encRuns_length: "length (encRuns runs) \<le> 20 * length runs"
proof (induction runs)
  case (Cons r runs)
  obtain v c where "r = (v, c)" by (cases r)
  then show ?case using Cons length_PutUvarint [of "of_int v"] length_PutUvarint [of "of_int c"] by simp
qed simp

text \<open>What the choice leads to: one of the two representations, with the items of the slice.\<close>

lemma chooseBid_spec:
  assumes "sliceInv sli" "\<forall>v \<in> set (sli_items sli). v < 2 ^ 32 - 1" "length (sli_items sli) \<le> 2 ^ 32"
  obtains (p) b where "chooseBid sli = Inr (ChosenP b)" "pInv b" "pItems b = sli_items sli"
    | (uv) b where "chooseBid sli = Inr (ChosenUv b)" "uvInv b" "uvItems b = sli_items sli" "length (uv_arr (writeMaxSizeCount b)) < 2 ^ 63"
proof (cases "case SliceGetBasicInfo sli of (_, mx, cnt, unique) \<Rightarrow> pBidSize mx cnt \<le> uvarintSize mx unique")
  case True
  have "sorted (sli_items sli)" "\<forall>v \<in> set (sli_items sli). 0 \<le> v \<and> v < 2 ^ 32 - 1" "\<forall>v \<in> set (sli_items sli). v < 2 ^ 63"
    using assms by (auto simp: sliceInv_def goInt_def)
  then obtain b where "NewPbitidFromInts (sli_items sli) = Inr b" "pBuild b" "pItems b = sli_items sli"
    using NewPbitidFromInts_cases [of "sli_items sli"] by auto
  then show thesis using p [of b] True by (auto simp: chooseBid_def pBuild_def split: prod.splits)
next
  case False
  obtain runs where r: "uvRep (NewUvarintBitIDFromInts (sli_items sli)) runs" "runItems runs = sli_items sli"
    using NewUvarintBitIDFromInts_rep [of "sli_items sli"] assms by (auto simp: sliceInv_def)
  have "length runs \<le> length (runItems runs)" by (induction runs) auto
  then have "length (uv_arr (writeMaxSizeCount (NewUvarintBitIDFromInts (sli_items sli)))) < 2 ^ 63"
    using writeMaxSizeCount_arr [OF r(1)] encRuns_length [of runs] r(2) assms(3) by simp
  then show thesis using uv [of "NewUvarintBitIDFromInts (sli_items sli)"] False r uvItems_rep [OF r(1)]
    by (auto simp: chooseBid_def uvInv_def split: prod.splits)
qed

lemma ReadBytes_one: "ReadBytes 1 (b # r) = Inr (1, [b], r)"
  by (simp add: ReadBytes_def)

text \<open>
  For items below \<open>2 ^ 32 - 1\<close> \<^verbatim>\<open>Encode\<close> of a bit identifier that was built by appending always
  succeeds, and \<^verbatim>\<open>Decode\<close> of its result, followed by any bytes, restores the items, whichever representation the size
  estimates select.
\<close>

lemma ChDecode_ChEncode:
  assumes "chBuild bid" "\<forall>v \<in> set (chItems bid). v < 2 ^ 32 - 1" "length (chItems bid) \<le> 2 ^ 32"
  shows "\<exists>e bid1. ChEncode bid = Inr (e, bid1) \<and> chItems bid1 = chItems bid \<and>
    (length e < 2 ^ 63 \<longrightarrow>
      (\<exists>bid2. ChDecode (e @ rest) ChNew = Inr (length e, bid2, rest) \<and> chInv bid2 \<and> chItems bid2 = chItems bid))"
proof -
  have b: "chosenBid bid = None" "sliceInv (ch_sli bid)" "chItems bid = sli_items (ch_sli bid)"
    using assms(1) by (simp_all add: chBuild_def chItems_def)
  have s: "\<forall>v \<in> set (sli_items (ch_sli bid)). v < 2 ^ 32 - 1" "length (sli_items (ch_sli bid)) \<le> 2 ^ 32" using assms b(3) by simp_all
  from b(2) s show ?thesis
  proof (cases rule: chooseBid_spec)
    case (p q)
    have "\<exists>bid2. ChDecode ((BitIDP # PEncode q) @ rest) ChNew = Inr (length (BitIDP # PEncode q), bid2, rest) \<and> chInv bid2 \<and> chItems bid2 = chItems bid"
      if "length (BitIDP # PEncode q) < 2 ^ 63"
    proof -
      have "length (pb_buff q) < 2 ^ 63" using that by (simp add: PEncode_def EncodeHelper_def)
      from PDecode_roundtrip [OF p(2) this, of rest] show ?thesis using p(3) b(3)
        by (auto simp: ChDecode_def ReadBytes_one NewPbitidFromInts_def chInv_def chItems_def)
    qed
    then show ?thesis using p b by (simp add: ChEncode_def encodeChosen_def chItems_def)
  next
    case (uv u)
    obtain e u1 where e: "UvEncode u = (e, u1)" by (cases "UvEncode u")
    then have "uvItems u1 = uvItems u" using uv(2) writeMaxSizeCount_items by (auto simp: UvEncode_def Let_def)
    moreover have "\<exists>bid2. ChDecode ((BitIDUvarint # e) @ rest) ChNew = Inr (length (BitIDUvarint # e), bid2, rest) \<and> chInv bid2 \<and> chItems bid2 = chItems bid"
    proof -
      have "\<forall>v \<in> set (uvItems u). v < 2 ^ 32" "length (uvItems u) \<le> 2 ^ 32" using assms(2,3) uv(3) b(3) by auto
      from UvDecode_roundtrip [OF uv(2) this uv(4), of rest] show ?thesis using uv(3) b(3) e
        by (auto simp: ChDecode_def ReadBytes_one NewUvarintBitIDFromInts_def chInv_def chItems_def)
    qed
    ultimately show ?thesis using uv b e by (simp add: ChEncode_def encodeChosen_def chItems_def)
  qed
qed

text \<open>Copying before the first encoding dereferences a nil interface, and items appended after it are lost.\<close>

theorem ChDoMakeCopy_panics: "panics (ChDoMakeCopy (NewChooseBIDFromInts l))"
  by (simp add: ChDoMakeCopy_def NewChooseBIDFromInts_def ChNew_def)

theorem ChAppendItem_lost:
  "bind_res (ChEncode (NewChooseBIDFromInts [1])) (\<lambda>(e, b). Inr (chItems (ChAppendItem 2 b))) = Inr [1]"
  by code_simp

end
