(* ===== verification/BitIDTypes.thy ===== *)
theory BitIDTypes
  imports MultiBitID ChooseBid
begin

text \<open>
  The functions that work on any bit identifier: \<^verbatim>\<open>bitidinterface.go\<close>, \<^verbatim>\<open>GetBitIDFuncs\<close> of
  \<^verbatim>\<open>utils.go\<close> and \<^verbatim>\<open>BitIDPool\<close> of \<^verbatim>\<open>bitidpool.go\<close>, all under
  \<^verbatim>\<open>src/consensus/auth/bitid\<close>. The flag \<^verbatim>\<open>config.AllowMultiMerge\<close> is the argument \<open>amm\<close>.
\<close>

section \<open>Dispatch on the implementation\<close>

datatype BitIDInterface = BitV BitID | MultiV MultiBitID

abbreviation badCast :: "'a res" where "badCast \<equiv> Inl (Panic ''interface conversion'')"

definition CreateBitIDTypeFromInts :: "bool \<Rightarrow> int list \<Rightarrow> BitIDInterface res" where
  "CreateBitIDTypeFromInts amm items =
     (if \<not> amm then bind_res (CreateBitIDFromInts items) (\<lambda>b. Inr (BitV b))
      else bind_res (CreateMultiBitIDFromInts items) (\<lambda>b. Inr (MultiV b)))"

definition DecodeBitIDType :: "bool \<Rightarrow> byte list \<Rightarrow> BitIDInterface res option" where
  "DecodeBitIDType amm buff =
     (case buff of [] \<Rightarrow> Some (Inl (Panic ''index out of range''))
      | t # _ \<Rightarrow>
          if (t = BitIDMulti \<or> t = BitIDP) \<and> \<not> amm then Some (Inl ErrInvalidBitIDEncoding)
          else if t = BitIDBasic \<or> t = BitIDSingle then Some (bind_res (DecodeBitID buff) (\<lambda>b. Inr (BitV b)))
          else if t = BitIDMulti then map_option (\<lambda>r. bind_res r (\<lambda>b. Inr (MultiV b))) (DecodeMultiBitID buff)
          else Some (Inl ErrInvalidBitIDEncoding))"

definition SubBitIDType :: "bool \<Rightarrow> BitIDInterface \<Rightarrow> BitIDInterface \<Rightarrow> BitIDInterface res" where
  "SubBitIDType amm b1 b2 =
     (case (b1, b2) of
        (BitV x, BitV y) \<Rightarrow> if \<not> amm then Inr (BitV (SubBitID x y)) else badCast
      | (MultiV x, MultiV y) \<Rightarrow> if amm then Inr (MultiV (SubMultiBitID x y)) else badCast
      | _ \<Rightarrow> badCast)"

definition MergeBitIDType :: "bool \<Rightarrow> BitIDInterface \<Rightarrow> BitIDInterface \<Rightarrow> bool \<Rightarrow> BitIDInterface res" where
  "MergeBitIDType amm b1 b2 allowDuplicates =
     (if \<not> amm \<and> allowDuplicates then Inl (Panic ''cant allow duplicates without multimerge enabled'')
      else (case (b1, b2) of
              (BitV x, BitV y) \<Rightarrow> if \<not> amm then Inr (BitV (MergeBitID x y)) else badCast
            | (MultiV x, MultiV y) \<Rightarrow>
                if \<not> amm then badCast
                else if allowDuplicates then Inr (MultiV (MergeMultiBitID x y))
                else Inr (MultiV (MergeMultiBitIDNoDup (Some x) (Some y)))
            | _ \<Rightarrow> badCast))"

definition ifGetItemList :: "BitIDInterface \<Rightarrow> int list" where
  "ifGetItemList b = (case b of BitV x \<Rightarrow> fst (GetItemList x) | MultiV x \<Rightarrow> mu_items x)"

definition isBitV :: "BitIDInterface \<Rightarrow> bool" where
  "isBitV b = (case b of BitV _ \<Rightarrow> True | MultiV _ \<Rightarrow> False)"

definition asBitV :: "BitIDInterface \<Rightarrow> BitID" where
  "asBitV b = (case b of BitV x \<Rightarrow> x | MultiV _ \<Rightarrow> emptyBitID)"

definition MergeBitIDListType :: "bool \<Rightarrow> bool \<Rightarrow> BitIDInterface list \<Rightarrow> BitIDInterface res" where
  "MergeBitIDListType amm allowDuplicates bList =
     (if \<not> amm then
        (if \<forall>b \<in> set bList. isBitV b then Inr (BitV (MergeBitIDList (map asBitV bList))) else badCast)
      else if allowDuplicates
      then Inr (MultiV (MuNew\<lparr>mu_items := SortSortedList (map ifGetItemList bList)\<rparr>))
      else Inl (Panic ''unsupported''))"

text \<open>\<^verbatim>\<open>NextID\<close> and \<^verbatim>\<open>AddBitID\<close> of the interface; the state of an iterator is its index.\<close>

definition ifNextID :: "BitIDInterface \<Rightarrow> nat \<Rightarrow> (int \<times> nat) option" where
  "ifNextID b idx = (case b of BitV x \<Rightarrow> BitNextLoop (Buff x) idx | MultiV x \<Rightarrow> MuNextID x idx)"

definition ifAddBitID :: "int \<Rightarrow> bool \<Rightarrow> nat \<Rightarrow> BitIDInterface \<Rightarrow> (bool \<times> nat \<times> BitIDInterface) res" where
  "ifAddBitID ID allowDup idx b =
     (case b of BitV x \<Rightarrow> bind_res (AddBitID ID allowDup x) (\<lambda>(r, x1). Inr (r, idx, BitV x1))
      | MultiV x \<Rightarrow> bind_res (MuAddBitID ID allowDup idx x) (\<lambda>(r, i, x1). Inr (r, i, MultiV x1)))"

text \<open>The loop of \<^verbatim>\<open>AddBitIDType\<close>, for two different objects.\<close>

partial_function (option) addTypeLoop ::
    "BitIDInterface \<Rightarrow> bool \<Rightarrow> nat \<Rightarrow> nat \<Rightarrow> BitIDInterface \<Rightarrow> BitIDInterface res option" where
  "addTypeLoop src allowDup iter internalIter dst =
     (case ifNextID src iter of None \<Rightarrow> Some (Inr dst)
      | Some (i, iter1) \<Rightarrow>
          (case ifAddBitID i allowDup internalIter dst of Inl e \<Rightarrow> Some (Inl e)
           | Inr (_, internalIter1, dst1) \<Rightarrow> addTypeLoop src allowDup iter1 internalIter1 dst1))"

declare addTypeLoop.simps [code]

definition AddBitIDType :: "BitIDInterface \<Rightarrow> BitIDInterface \<Rightarrow> bool \<Rightarrow> BitIDInterface res option" where
  "AddBitIDType dst src allowDup = addTypeLoop src allowDup 0 0 dst"

section \<open>Choosing an implementation\<close>

datatype BitIDType = TUvarint | TSlice | TP | TChoose | TMulti | TBasic | TSingle

datatype NewBitID = NBit BitID | NMulti MultiBitID | NSlice SliceBitID | NUvarint UvarintBitID | NP Pbitid | NChoose ChooseBid

text \<open>\<^verbatim>\<open>GetBitIDFuncs\<close> returns the constructor from integers and the constructor of an empty bit identifier.\<close>

definition GetBitIDFuncs :: "BitIDType \<Rightarrow> ((int list \<Rightarrow> NewBitID res) \<times> NewBitID) res" where
  "GetBitIDFuncs t =
     (case t of
        TBasic \<Rightarrow> Inr (\<lambda>l. case CreateBitIDFromInts l of Inl e \<Rightarrow> Inl (Panic ''PanicNonNil'') | Inr b \<Rightarrow> Inr (NBit b), NBit BitNew)
      | TMulti \<Rightarrow> Inr (\<lambda>l. case CreateMultiBitIDFromInts l of Inl e \<Rightarrow> Inl (Panic ''PanicNonNil'') | Inr b \<Rightarrow> Inr (NMulti b), NMulti MuNew)
      | TSlice \<Rightarrow> Inr (\<lambda>l. Inr (NSlice (NewSliceBitIDFromInts l)), NSlice SliceNew)
      | TUvarint \<Rightarrow> Inr (\<lambda>l. Inr (NUvarint (NewUvarintBitIDFromInts l)), NUvarint UvNew)
      | TP \<Rightarrow> Inr (\<lambda>l. bind_res (NewPbitidFromInts l) (\<lambda>b. Inr (NP b)), NP PNew)
      | TChoose \<Rightarrow> Inr (\<lambda>l. Inr (NChoose (NewChooseBIDFromInts l)), NChoose ChNew)
      | TSingle \<Rightarrow> Inl (Panic ''BitIDType''))"

definition newItems :: "NewBitID \<Rightarrow> int list" where
  "newItems b =
     (case b of NBit x \<Rightarrow> bitItems (Buff x) | NMulti x \<Rightarrow> mu_items x | NSlice x \<Rightarrow> sli_items x | NUvarint x \<Rightarrow> uvItems x
      | NP x \<Rightarrow> pItems x | NChoose x \<Rightarrow> chItems x)"

section \<open>The pool\<close>

record 'b BitIDPool =
  objs :: "'b list"
  allocated :: nat

definition poolDone :: "('b \<Rightarrow> 'b res) \<Rightarrow> 'b \<Rightarrow> 'b BitIDPool \<Rightarrow> 'b BitIDPool res" where
  "poolDone dn bid bp = bind_res (dn bid) (\<lambda>bid1. Inr (bp\<lparr>objs := objs bp @ [bid1]\<rparr>))"

definition poolGet :: "'b \<Rightarrow> 'b BitIDPool \<Rightarrow> 'b \<times> 'b BitIDPool" where
  "poolGet newBid bp =
     (let bp1 = (if objs bp = [] then bp\<lparr>objs := [newBid], allocated := allocated bp + 1\<rparr> else bp)
      in (hd (objs bp1), bp1\<lparr>objs := butlast ((objs bp1)[0 := last (objs bp1)])\<rparr>))"

text \<open>\<^verbatim>\<open>BitID.Done\<close> and \<^verbatim>\<open>MultiBitID.Done\<close> panic.\<close>

definition BitDone :: "BitID \<Rightarrow> BitID res" where
  "BitDone bid = Inl (Panic ''TODO'')"

definition MuDone :: "MultiBitID \<Rightarrow> MultiBitID res" where
  "MuDone bid = Inl (Panic ''TODO'')"

section \<open>Adding the items of one bit identifier to another\<close>

definition srcRest :: "BitIDInterface \<Rightarrow> nat \<Rightarrow> int list" where
  "srcRest src i = (case src of BitV x \<Rightarrow> bitRest \<lparr>bit_bid = x, bit_iterIdx = i\<rparr> | MultiV x \<Rightarrow> drop i (mu_items x))"

lemma ifNextID_spec:
  "ifNextID src i = None \<Longrightarrow> srcRest src i = []" "ifNextID src i = Some (v, i') \<Longrightarrow> srcRest src i = v # srcRest src i'"
proof -
  show "ifNextID src i = None \<Longrightarrow> srcRest src i = []"
    using bit_bid.next_None [of "\<lparr>bit_bid = asBitV src, bit_iterIdx = i\<rparr>"]
    by (cases src) (simp_all add: ifNextID_def srcRest_def bitid_ops_def BitNextID_def asBitV_def MuNextID_def split: if_splits)
  show "ifNextID src i = Some (v, i') \<Longrightarrow> srcRest src i = v # srcRest src i'"
    using bit_bid.next_Some [of "\<lparr>bit_bid = asBitV src, bit_iterIdx = i\<rparr>" v "\<lparr>bit_bid = asBitV src, bit_iterIdx = i'\<rparr>"]
    by (cases src) (auto simp: ifNextID_def srcRest_def bitid_ops_def BitNextID_def asBitV_def MuNextID_def Cons_nth_drop_Suc split: if_splits)
qed

text \<open>The loop as recursion over the items that the iterator returns.\<close>

fun addAll :: "int list \<Rightarrow> bool \<Rightarrow> nat \<Rightarrow> BitIDInterface \<Rightarrow> BitIDInterface res" where
  "addAll [] ad j dst = Inr dst"
| "addAll (v # l) ad j dst = bind_res (ifAddBitID v ad j dst) (\<lambda>(_, j1, dst1). addAll l ad j1 dst1)"

lemma addTypeLoop_eq: "addTypeLoop src ad i j dst = Some (addAll (srcRest src i) ad j dst)"
proof (induction "srcRest src i" arbitrary: i j dst)
  case Nil
  have "ifNextID src i = None" using ifNextID_spec(2) [of src i] Nil by (cases "ifNextID src i") auto
  then show ?case using Nil by (subst addTypeLoop.simps) simp
next
  case (Cons v l)
  then obtain i' where n: "ifNextID src i = Some (v, i')" "srcRest src i' = l"
    using ifNextID_spec [of src i] by (cases "ifNextID src i") auto
  then show ?case using Cons.hyps(1) [of i'] Cons.hyps(2) [symmetric]
    by (subst addTypeLoop.simps) (auto split: sum.splits)
qed

lemma addAll_BitV:
  assumes "bitBuild b" "\<forall>v \<in> set l. goInt v"
  shows "\<exists>b'. addAll l False j (BitV b) = Inr (BitV b') \<and> bitBuild b' \<and> set (bitItems (Buff b')) = set (bitItems (Buff b)) \<union> set l"
  using assms
proof (induction l arbitrary: b j)
  case (Cons v l)
  then obtain b1 where b1: "AddBitID v False b = Inr (v \<notin> set (bitItems (Buff b)), b1)" "bitBuild b1"
    "set (bitItems (Buff b1)) = insert v (set (bitItems (Buff b)))" using AddBitID_spec [of b v] by auto
  then show ?case using Cons.IH [of b1 j] Cons.prems(2) by (auto simp: ifAddBitID_def)
qed auto

text \<open>Where the next search of \<^verbatim>\<open>MuAddBitID\<close> starts: every item before it is smaller than the items to come.\<close>

definition startsAt :: "nat \<Rightarrow> int list \<Rightarrow> int list \<Rightarrow> bool" where
  "startsAt j arr l \<longleftrightarrow> j \<le> length arr \<and> (\<forall>x \<in> set (take j arr). \<forall>v \<in> set l. x < v)"

lemma search_start:
  assumes "sorted arr" "startsAt j arr (v # l)" "sorted (v # l)"
  defines "pos \<equiv> SearchInts (drop j arr) v + j"
  shows "startsAt pos arr (v # l)" "startsAt pos (insertAt pos v arr) l" "v \<in> set (drop j arr) \<longleftrightarrow> v \<in> set arr"
proof -
  have j: "j \<le> length arr" "\<forall>x \<in> set (take j arr). x < v" "\<forall>x \<in> set (take j arr). x \<le> v"
    using assms(2) by (auto simp: startsAt_def)
  have le: "pos \<le> length arr" using insertAt_search(1) [OF assms(1) j(1,3)] by (simp add: pos_def)
  have "x < v" if x: "x \<in> set (take pos arr)" for x
  proof -
    obtain k where k: "k < pos" "x = arr ! k" using x le by (auto simp: in_set_conv_nth)
    show "x < v"
    proof (cases "k < j")
      case True
      then show ?thesis using j(1,2) k nth_mem [of k "take j arr"] by simp
    next
      case False
      then have "k - j < SearchInts (drop j arr) v" using k(1) by (simp add: pos_def)
      then have "drop j arr ! (k - j) < v" using SearchInts_spec(2) [of "drop j arr" "k - j" v] assms(1) by (simp add: sorted_wrt_drop)
      then show ?thesis using False j(1) k(2) by simp
    qed
  qed
  then show "startsAt pos arr (v # l)" "startsAt pos (insertAt pos v arr) l"
    using assms(3) le by (auto simp: startsAt_def insertAt_eq) (meson le_less_trans less_le_trans)+
  show "v \<in> set (drop j arr) \<longleftrightarrow> v \<in> set arr"
    using j(2) append_take_drop_id [of j arr] by (metis Un_iff less_irrefl set_append)
qed

lemma addAll_MultiV_dup:
  assumes "sorted (mu_items b)" "sorted l" "startsAt j (mu_items b) l"
  shows "\<exists>b'. addAll l True j (MultiV b) = Inr (MultiV b') \<and> sorted (mu_items b') \<and> mset (mu_items b') = mset (mu_items b) + mset l"
  using assms
proof (induction l arbitrary: b j)
  case (Cons v l)
  let ?pos = "SearchInts (drop j (mu_items b)) v + j"
  have j: "j \<le> length (mu_items b)" "\<forall>x \<in> set (take j (mu_items b)). x \<le> v" using Cons.prems(3) by (auto simp: startsAt_def)
  let ?b = "b\<lparr>mu_items := insertAt ?pos v (mu_items b), mu_encode := None\<rparr>"
  have "\<exists>b'. addAll l True ?pos (MultiV ?b) = Inr (MultiV b') \<and> sorted (mu_items b') \<and> mset (mu_items b') = mset (mu_items ?b) + mset l"
    using insertAt_search(2) [OF Cons.prems(1) j] search_start(2) [OF Cons.prems(1,3,2)] Cons.prems(2) by (intro Cons.IH) simp_all
  then show ?case using Insert_eq(1) [OF Cons.prems(1) j] insertAt_search(3) [OF Cons.prems(1) j]
    by (simp add: ifAddBitID_def MuAddBitID_def)
qed simp

lemma addAll_MultiV:
  assumes "sorted (mu_items b)" "sorted l" "startsAt j (mu_items b) l"
  shows "\<exists>b'. addAll l False j (MultiV b) = Inr (MultiV b') \<and> sorted (mu_items b') \<and>
    mset (mu_items b') = mset (mu_items b) + mset_set (set l - set (mu_items b))"
  using assms
proof (induction l arbitrary: b j)
  case (Cons v l)
  let ?pos = "SearchInts (drop j (mu_items b)) v + j"
  have j: "j \<le> length (mu_items b)" "\<forall>x \<in> set (take j (mu_items b)). x \<le> v" using Cons.prems(3) by (auto simp: startsAt_def)
  note s = search_start [OF Cons.prems(1,3,2)]
  show ?case
  proof (cases "v \<in> set (mu_items b)")
    case True
    have "startsAt ?pos (mu_items b) l" using s(1) by (simp add: startsAt_def)
    moreover have "set (v # l) - set (mu_items b) = set l - set (mu_items b)" using True by auto
    ultimately show ?thesis using True Cons.IH [of b ?pos] Cons.prems Insert_eq(2) [OF Cons.prems(1) j] s(3)
      by (simp add: ifAddBitID_def MuAddBitID_def)
  next
    case False
    let ?b = "b\<lparr>mu_items := insertAt ?pos v (mu_items b), mu_encode := None\<rparr>"
    note i = insertAt_search(2,3) [OF Cons.prems(1) j]
    have IH: "\<exists>b'. addAll l False ?pos (MultiV ?b) = Inr (MultiV b') \<and> sorted (mu_items b') \<and>
        mset (mu_items b') = mset (mu_items ?b) + mset_set (set l - set (mu_items ?b))"
      using i(1) s(2) Cons.prems(2) by (intro Cons.IH) simp_all
    have "set (mu_items ?b) = insert v (set (mu_items b))" using arg_cong [OF i(2), of set_mset] by simp
    moreover have "set (v # l) - set (mu_items b) = insert v (set l - insert v (set (mu_items b)))" using False by auto
    then have "mset_set (set (v # l) - set (mu_items b)) = add_mset v (mset_set (set l - insert v (set (mu_items b))))"
      by (simp only:) (rule mset_set.insert, simp_all)
    ultimately show ?thesis using False IH i(2) Insert_eq(2) [OF Cons.prems(1) j] s(3)
      by (simp add: ifAddBitID_def MuAddBitID_def)
  qed
qed simp

definition ifItems :: "BitIDInterface \<Rightarrow> int list" where
  "ifItems b = (case b of BitV x \<Rightarrow> bitItems (Buff x) | MultiV x \<Rightarrow> mu_items x)"

definition ifInv :: "BitIDInterface \<Rightarrow> bool" where
  "ifInv b = (case b of BitV x \<Rightarrow> bitBuild x | MultiV x \<Rightarrow> muInv x)"

lemma srcRest_0: "ifInv src \<Longrightarrow> srcRest src 0 = ifItems src"
  using bit_bid.iter_items [of "asBitV src"]
  by (cases src) (simp_all add: srcRest_def ifItems_def ifInv_def asBitV_def bitBuild_def bitid_ops_def BitNewIterator_def)

lemma ifInv_items: "ifInv b \<Longrightarrow> sorted (ifItems b)" "ifInv b \<Longrightarrow> v \<in> set (ifItems b) \<Longrightarrow> goInt v"
  using bit_bid.items_sorted [of "asBitV b"] bit_bid.items_int [of "asBitV b"]
  by (cases b; simp add: ifInv_def ifItems_def muInv_def bitBuild_def asBitV_def)+

text \<open>
  \<^verbatim>\<open>AddBitIDType\<close> always returns. A bitmap receives the union; a slice
  with duplicates receives every item when duplicates are allowed, and otherwise each missing item once. Both kinds of source
  give the same result.
\<close>

lemma AddBitIDType_spec:
  assumes "ifInv dst" "ifInv src"
  shows "case dst of
      BitV d \<Rightarrow> \<exists>d'. AddBitIDType dst src False = Some (Inr (BitV d')) \<and> ifInv (BitV d') \<and>
        set (bitItems (Buff d')) = set (bitItems (Buff d)) \<union> set (ifItems src)
    | MultiV d \<Rightarrow>
        (\<exists>d'. AddBitIDType dst src True = Some (Inr (MultiV d')) \<and> sorted (mu_items d') \<and>
          mset (mu_items d') = mset (mu_items d) + mset (ifItems src)) \<and>
        (\<exists>d'. AddBitIDType dst src False = Some (Inr (MultiV d')) \<and> sorted (mu_items d') \<and>
          mset (mu_items d') = mset (mu_items d) + mset_set (set (ifItems src) - set (mu_items d)))"
proof (cases dst)
  case (BitV d)
  then show ?thesis using assms ifInv_items(2) [OF assms(2)] addAll_BitV [of d "ifItems src" 0]
    by (auto simp: AddBitIDType_def addTypeLoop_eq srcRest_0 ifInv_def)
next
  case (MultiV d)
  have "sorted (mu_items d)" "startsAt 0 (mu_items d) (ifItems src)" using assms(1) MultiV by (simp_all add: ifInv_def muInv_def startsAt_def)
  then show ?thesis using assms(2) MultiV ifInv_items(1) [OF assms(2)] addAll_MultiV [of d "ifItems src" 0] addAll_MultiV_dup [of d "ifItems src" 0]
    by (simp add: AddBitIDType_def addTypeLoop_eq srcRest_0)
qed

text \<open>
  C26 (every implementation holds the same items). For each type that \<^verbatim>\<open>GetBitIDFuncs\<close> accepts, the constructor
  applied to a sorted slice of member indices gives a bit identifier with exactly these items; the bitmap needs them distinct.
\<close>

theorem GetBitIDFuncs_items:
  assumes "t \<noteq> TSingle" "sorted l" "\<forall>v \<in> set l. 0 \<le> v \<and> v < 2 ^ 15 - 1" "length l < 2 ^ 63" "t = TBasic \<Longrightarrow> distinct l"
  shows "\<exists>fromInts e b. GetBitIDFuncs t = Inr (fromInts, e) \<and> newItems e = [] \<and> fromInts l = Inr b \<and> newItems b = l"
proof -
  have g: "\<forall>v \<in> set l. goInt v" "\<forall>v \<in> set l. 0 \<le> v \<and> v < 2 ^ 32 - 1" "\<forall>v \<in> set l. v < 2 ^ 63" using assms(3) by (auto simp: goInt_def)
  have e: "uvItems UvNew = []" "pItems PNew = []" "chItems ChNew = []" "bitItems (Buff BitNew) = []" "mu_items MuNew = []" "sli_items SliceNew = []"
    by code_simp+
  show ?thesis
  proof (cases t)
    case TBasic
    have "\<exists>b. CreateBitIDFromInts l = Inr b \<and> bitItems (Buff b) = l"
    proof (cases "l = []")
      case False
      have "sorted_wrt (<) l" using assms(2,5) TBasic by (simp add: strict_sorted_iff)
      then show ?thesis using CreateBitIDFromInts_built [OF _ False assms(3)] by metis
    qed (simp add: CreateBitIDFromInts_def fromInts_def emptyBitID_def bitItems_def)
    then show ?thesis using TBasic e by (auto simp: GetBitIDFuncs_def newItems_def)
  next
    case TUvarint
    obtain runs where "uvRep (NewUvarintBitIDFromInts l) runs" "runItems runs = l"
      using NewUvarintBitIDFromInts_rep [OF assms(2) g(1) assms(4)] by blast
    then show ?thesis using TUvarint e uvItems_rep by (auto simp: GetBitIDFuncs_def newItems_def)
  next
    case TP
    then show ?thesis using e NewPbitidFromInts_cases [OF g(3)] assms(2) g(2) by (auto simp: GetBitIDFuncs_def newItems_def)
  next
    case TMulti
    have "\<not> (l \<noteq> [] \<and> hd l < 0)" using assms(3) hd_in_set [of l] by (metis not_less)
    then show ?thesis using TMulti e assms(2) by (auto simp: GetBitIDFuncs_def newItems_def CreateMultiBitIDFromInts_def)
  qed (use assms(1) e in \<open>simp_all add: GetBitIDFuncs_def newItems_def NewSliceBitIDFromInts_def NewChooseBIDFromInts_def chItems_def ChNew_def\<close>)
qed

theorem GetBitIDFuncs_items_witness:
  "\<exists>fromInts e b. GetBitIDFuncs TUvarint = Inr (fromInts, e) \<and> newItems e = [] \<and> fromInts [2, 7, 7] = Inr b \<and> newItems b = [2, 7, 7]"
  using GetBitIDFuncs_items [of TUvarint "[2, 7, 7]"] by simp

section \<open>Pools of bit identifiers\<close>

text \<open>
  What a pool needs of the bit identifiers it holds: \<^verbatim>\<open>Done\<close> returns, and leaves one that is as good as new.
\<close>

locale bid_pool =
  fixes newBid :: 'b and dn :: "'b \<Rightarrow> 'b res" and fresh :: "'b \<Rightarrow> bool"
  assumes new_fresh: "fresh newBid"
    and done_fresh: "\<exists>b'. dn b = Inr b' \<and> fresh b'"
begin

definition poolInv :: "'b BitIDPool \<Rightarrow> bool" where
  "poolInv bp \<longleftrightarrow> (\<forall>b \<in> set (objs bp). fresh b)"

lemma poolDone_inv: "poolInv bp \<Longrightarrow> \<exists>bp'. poolDone dn b bp = Inr bp' \<and> poolInv bp' \<and> length (objs bp') = Suc (length (objs bp))"
  using done_fresh [of b] by (auto simp: poolDone_def poolInv_def)

lemma poolGet_spec:
  assumes "poolInv bp"
  shows "fresh (fst (poolGet newBid bp))" "poolInv (snd (poolGet newBid bp))"
    "objs bp \<noteq> [] \<Longrightarrow> mset (objs bp) = add_mset (fst (poolGet newBid bp)) (mset (objs (snd (poolGet newBid bp))))"
proof -
  show "fresh (fst (poolGet newBid bp))"
    using assms new_fresh by (cases "objs bp") (simp_all add: poolGet_def Let_def poolInv_def)
  have m: "mset (butlast ((x # xs)[0 := last (x # xs)])) = mset xs" for x and xs :: "'b list"
    by (cases xs rule: rev_cases) simp_all
  show c: "objs bp \<noteq> [] \<Longrightarrow> mset (objs bp) = add_mset (fst (poolGet newBid bp)) (mset (objs (snd (poolGet newBid bp))))"
    by (cases "objs bp") (simp_all add: poolGet_def Let_def m del: list_update.simps butlast.simps last.simps)
  show "poolInv (snd (poolGet newBid bp))"
  proof (cases "objs bp = []")
    case False
    then have "set (objs (snd (poolGet newBid bp))) \<subseteq> set (objs bp)" using arg_cong [OF c, of set_mset] by auto
    then show ?thesis using assms by (auto simp: poolInv_def)
  qed (simp add: poolGet_def poolInv_def Let_def)
qed

end

interpretation slice_pool: bid_pool SliceNew "\<lambda>b. Inr (SliceDone b)" "\<lambda>b. b = SliceNew"
  by unfold_locales (simp_all add: SliceDone_def SliceNew_def)

interpretation p_pool: bid_pool PNew "\<lambda>b. Inr (PDone b)" "\<lambda>b. b = PNew"
  by unfold_locales (simp_all add: PDone_def PNew_def)

interpretation uv_pool: bid_pool UvNew "\<lambda>b. Inr (UvDone b)" "\<lambda>b. b = UvNew"
  by unfold_locales (simp_all add: UvDone_def UvNew_def)

interpretation choose_pool: bid_pool ChNew "\<lambda>b. Inr (ChDone b)" "\<lambda>b. chBuild b \<and> chItems b = []"
  by unfold_locales (simp_all add: ChDone_def ChNew_def SliceDone_def SliceNew_def chBuild_def chItems_def sliceInv_def)

text \<open>The pools that \<^verbatim>\<open>Get\<close> and \<^verbatim>\<open>Done\<close> lead to from a new one.\<close>

inductive poolReach :: "'b \<Rightarrow> ('b \<Rightarrow> 'b res) \<Rightarrow> 'b BitIDPool \<Rightarrow> bool" for newBid dn where
  start: "poolReach newBid dn \<lparr>objs = [], allocated = 0\<rparr>"
| get: "poolReach newBid dn bp \<Longrightarrow> poolReach newBid dn (snd (poolGet newBid bp))"
| put: "poolReach newBid dn bp \<Longrightarrow> poolDone dn b bp = Inr bp' \<Longrightarrow> poolReach newBid dn bp'"

context bid_pool
begin

lemma reach_inv: "poolReach newBid dn bp \<Longrightarrow> poolInv bp"
proof (induction rule: poolReach.induct)
  case (put bp b bp')
  then show ?case using poolDone_inv [of bp b] by auto
qed (simp_all add: poolInv_def poolGet_spec(2)[unfolded poolInv_def])

lemmas get_fresh = poolGet_spec(1) [OF reach_inv]

end

text \<open>
  However a pool was used before, a bit identifier taken from it is as good as a new one: the slice, unary
  and run list implementations are equal to a new one, and the choosing one has no items and no fixed representation.
\<close>

lemma pool_recycles:
  "poolReach SliceNew (\<lambda>b. Inr (SliceDone b)) ps \<Longrightarrow> poolReach PNew (\<lambda>b. Inr (PDone b)) pp \<Longrightarrow>
   poolReach UvNew (\<lambda>b. Inr (UvDone b)) pu \<Longrightarrow> poolReach ChNew (\<lambda>b. Inr (ChDone b)) pc \<Longrightarrow>
   fst (poolGet SliceNew ps) = SliceNew \<and> fst (poolGet PNew pp) = PNew \<and> fst (poolGet UvNew pu) = UvNew \<and>
   chBuild (fst (poolGet ChNew pc)) \<and> chItems (fst (poolGet ChNew pc)) = []"
  by (simp add: slice_pool.get_fresh p_pool.get_fresh uv_pool.get_fresh choose_pool.get_fresh)

text \<open>
  The string of a recycled \<^verbatim>\<open>ChooseBid\<close> is not cleared: the string of the next items is the one of the items before. A
  pool of bitmaps or of slices with duplicates cannot take anything back.
\<close>

theorem ChDone_stale_str:
  "bind_res (ChGetStr (NewChooseBIDFromInts [1])) (\<lambda>(s, b). bind_res (ChGetStr (ChAppendItem 5 (ChDone b))) (\<lambda>(s', b').
     Inr (s = s', sli_items (ch_sli b')))) = Inr (True, [5])"
  by code_simp

theorem pool_Done_panics: "panics (poolDone BitDone b1 bp1) \<and> panics (poolDone MuDone b2 bp2)"
  by (simp add: poolDone_def BitDone_def MuDone_def)

end
