(* ===== verification/Spec2Isabelle.thy ===== *)
theory Spec2Isabelle
  imports Currency_Chain RbBcast2_System BinCons1_Client MvCons1_System MvCons1_Runs MvCons1_Results Asset_Results BinCons1_System BitIDTypes RbBcast1_System CopyWriteMap_Views
begin

text \<open>
  \<^bold>\<open>A verification library for \<^verbatim>\<open>tcrain/cons\<close>\<close>, Byzantine fault tolerant consensus in Go.

  \<^bold>\<open>The program.\<close> A node runs one consensus item per instance (\<^verbatim>\<open>src/consensus/cons\<close>). Messages come from the network
  and are deserialized; the message state of the instance (\<^verbatim>\<open>src/consensus/consinterface/messagestate\<close>) drops duplicate
  signatures, keeps those the member checker accepts and counts them; the item then acts on the counts, broadcasts signed messages and
  in the end decides. Multi-signatures name their signers by bit identifiers (\<^verbatim>\<open>src/consensus/auth/bitid\<close>), which several
  representations implement and which travel in messages in an encoded form. Encodings and slice operations are in
  \<^verbatim>\<open>src/consensus/utils/utils.go\<close>.

  \<^bold>\<open>Conventions.\<close> A Go function that returns an error or may call \<^verbatim>\<open>panic\<close> is a function into \<open>go_error + 'a\<close>, with
  \<open>Panic\<close> one of the errors (\<open>Prelude\<close>). State is passed explicitly: an operation returns the new record. Messages that an
  operation sends are a list of outputs. Where Go visits a map in no fixed order, the order of a list or an extra argument stands for it. Go's
  \<^verbatim>\<open>int\<close> is \<^typ>\<open>int\<close>, with its range as an explicit condition (\<open>goInt\<close>) where it matters; \<^verbatim>\<open>uint64\<close> and the other
  unsigned types are words of their width and wrap around. A loop whose end is not evident from its text is a
  \<^verbatim>\<open>partial_function\<close> into \<open>option\<close>, so that not returning is the value \<open>None\<close>, and the theorems about such loops show that they
  return. Only the recursion over a Merkle tree (\<open>recCompute\<close>) has fuel, one more than the number of items, which is proved to be enough. A
  panic inside a parameter is the error \<open>Panic\<close> of its result; where a theorem says that the code does not panic, the parameters that
  must not panic either are among its hypotheses. Parameters stand for code outside the repository: public keys, signatures and the hash function are of arbitrary types.

  \<^bold>\<open>Consensus.\<close>
  \<^item> \<open>Utils\<close>: \<open>GetOneThirdBottom\<close> and the maxima of \<^verbatim>\<open>utils.go\<close>. The locale \<open>fault_threshold\<close> is what the algorithms
    rely on: fewer than a third of the members are faulty, so two quorums share a correct member. It is interpreted on
    \<open>GetOneThirdBottom\<close>.
  \<^item> \<open>SignedMsgState\<close>: the message store \<^verbatim>\<open>signedMsgMap\<close> and \<^verbatim>\<open>SimpleMessageState.GotMsg\<close>. The counts it returns are
    numbers of different signers, and tracked key sets, which several hashes share, are the unions of the signers of their group.
  \<^item> \<open>BinCons1\<close>, \<open>BinCons1_Node\<close>, \<open>BinCons1_System\<close>, \<open>BinCons1_Client\<close>: the binary consensus \<^verbatim>\<open>bin_cons1.go\<close> with its message state. The first
    holds the operations, one definition for each function of the code, the second the invariant of a node, the third a system of
    nodes as a step relation in which faulty members sign what they like and messages are lost, repeated and reordered. Agreement, validity,
    integrity, and that every call returns without a panic. The invariants cover the use of the item on its own and under a
    multi-value reduction; the last theory says what a reduction may do with the item and what it
    gets (locale \<open>mv_reduction\<close>).
  \<^item> \<open>RbBcast1\<close>, \<open>RbBcast1_System\<close>: the reliable broadcast \<^verbatim>\<open>rbbcast1.go\<close>, with the recovery of proposals of
    \<^verbatim>\<open>absmvrecover.go\<close>, in the same form. Agreement on the delivered hash, validity, integrity, no panic, and that a
    process that delivered can prove it with \<open>n - t\<close> signatures.
  \<^item> \<open>RbBcast2\<close>, \<open>RbBcast2_System\<close>: the broadcast with a commit phase \<^verbatim>\<open>rbbcast2.go\<close>, on records that extend those of
    \<open>RbBcast1\<close>. Agreement, validity, the commit proof, totality (a hash that one correct process decided is decided by every
    correct process that received the commits of the correct members, once these have received them too, no step is left, and the random
    selection of members let them commit), and which messages can make the code panic.
  \<^item> \<open>MvCons1\<close>, \<open>MvCons1_System\<close>, \<open>MvCons1_Runs\<close>, \<open>MvCons1_Results\<close>: the multi-value consensus \<^verbatim>\<open>mv_cons1.go\<close>, a reduction to
    \<open>BinCons1\<close>. The first holds the operations, the second the runs, the invariant of a node and that every handler keeps it and
    uses the binary consensus only as it may (\<open>binMoves\<close>), the third the interpretation of \<open>mv_reduction\<close>, so that a run is a run of
    the binary consensus, and that the handlers return, the last agreement, validity, that the decision 1 names one proposal, and no panic.

  \<^bold>\<open>Bit identifiers.\<close>
  \<^item> \<open>BitIDHelpers\<close>: the interface \<^verbatim>\<open>NewBitIDInterface\<close> and the functions that merge, subtract and intersect bit identifiers through
    iterators. The locale \<open>bid_iterator\<close> states what an iterator promises, \<open>bid_builder\<close> adds construction from
    items; inside them every helper is shown to return and to compute the multiset operation it stands for.
  \<^item> \<open>SliceBitID\<close>, \<open>Pbitid\<close>, \<open>UvarintBitID\<close>, \<open>ChooseBid\<close>, \<open>MultiBitID\<close>, \<open>BitID\<close>: the representations, each with the
    interpretation of the two locales, and the round trip of its encoding. \<open>Bits\<close> holds bit strings.
  \<^item> \<open>BitIDTypes\<close>: the functions on any representation (\<^verbatim>\<open>bitidinterface.go\<close>, \<^verbatim>\<open>utils.go\<close>), and the pools of reused
    objects (\<^verbatim>\<open>bitidpool.go\<close>) under the locale \<open>bid_pool\<close>, interpreted on the four representations that are pooled.
  \<^item> This theory shows that all representations give the same results.

  \<^bold>\<open>Encodings and slices.\<close> \<open>Uvarint\<close> (varints and length prefixed bytes), \<open>Numbers\<close> (overflow, fixed width encodings, splitting),
  \<open>SortedSlices\<close> (search, merge, insertion and removal in sorted slices), all of \<^verbatim>\<open>utils.go\<close>.

  \<^bold>\<open>State machine tables.\<close> \<open>CopyWriteMap\<close> models \<^verbatim>\<open>src/consensus/copywritemap/copywritemap.go\<close>, the map in which state machines
  keep one version of their table per running instance; \<open>CopyWriteMap_Views\<close> shows that each map behaves as a map of its own, that copying,
  discarding and committing maps end, do not panic and do not disturb the others, committing under the condition that the other live maps
  descend from the committed one and that it deleted no committed key, and what goes wrong otherwise.

  \<^bold>\<open>The currency.\<close> \<open>Currency\<close> models the accounts and transactions of \<^verbatim>\<open>src/consensus/statemachine/currency\<close>: the check of a transaction's
  format, \<^verbatim>\<open>ValidateTx\<close>, \<^verbatim>\<open>ConsumeTx\<close>, \<^verbatim>\<open>GenerateTx\<close> and the encodings, over the interface of the keys (\<open>keyOps\<close>) and of the table (\<open>tableOps\<close>).
  \<open>Currency_Ledger\<close> abstracts the table to a ledger of counters and balances, states what it relies on of the map as the locale \<open>account_store\<close>,
  and proves the operations in it; \<open>Currency_Table\<close> interprets the locale on the versioned map and shows that valid transactions
  are consumed without panic, conserve money, cannot be replayed and spend only signed for accounts, as long as all balances sum up to less
  than \<open>2 ^ 64\<close>; without that bound consumption can panic. \<open>Merkle\<close> models \<^verbatim>\<open>src/consensus/merkle/merkle.go\<close> and shows that the root binds the
  items up to collisions it can exhibit. \<open>Currency_Codec\<close> has the blocks and the round trips. \<open>Currency_Chain\<close> models how an instance
  of the state machine validates proposals and applies decided blocks, and shows that the chain and the ledger are a function of the
  decisions. The transaction pool, the threads that propose and \<^verbatim>\<open>CheckDecisions\<close> are not modelled.

  \<^bold>\<open>Assets.\<close> \<open>Asset\<close> models \<^verbatim>\<open>src/consensus/statemachine/asset\<close>: accounts as slices of assets sorted by identifier, the account table, the check,
  the generation and the consumption of transfers, and the rules of value and direct assets, over the keys of \<open>keyOps\<close> and a hash function.
  \<open>Asset_Table\<close> shows that the binary searches and the merges on the sorted slices are set operations, and proves the operations of the
  table once for any rule that does not look at the account (locale \<open>transfer_rule\<close>, interpreted on both rules). \<open>Asset_Results\<close> shows that
  validated transfers, if the keys of their receivers have strings, are consumed without panic and move exactly their assets, that transfers without a common input commute, and that the value of
  all assets does not grow as long as the outputs of a transfer do not overflow; an example shows that the code does not check this. The
  identifiers of outputs are assumed to be new to their receivers, as those of a hash function without collisions are. The decoding of transfers,
  the initial block and the bookkeeping of \<^verbatim>\<open>AssetProposer\<close> are not modelled.

  \<^bold>\<open>Not modelled.\<close> Network, disk, timers, goroutines and mutexes (each operation here runs under its mutex); the cryptographic packages,
  for which the step relations assume that an accepted signature was made by its key; serialization of the message types; threshold signatures
  and coins, hence the randomized algorithms; the multi-value algorithms other than \<^verbatim>\<open>mvcons1\<close> over \<open>BinCons1\<close>; statistics, logging, tests, command line programs. Inside
  the modelled components: partial messages, and threshold keys in \<^verbatim>\<open>joinSigs\<close>.
\<close>

section \<open>All representations of bit identifiers agree\<close>

definition resultItems :: "('b \<Rightarrow> int list) \<Rightarrow> 'b res option \<Rightarrow> int list option" where
  "resultItems items r = (case r of Some (Inr b) \<Rightarrow> Some (items b) | _ \<Rightarrow> None)"

text \<open>What a client sees of two bit identifiers: difference, union, new items and intersection.\<close>

definition helperResults ::
    "('b, 'it) bid_ops \<Rightarrow> ('b \<Rightarrow> int list) \<Rightarrow> 'b \<Rightarrow> 'b \<Rightarrow> int list option \<times> int list option \<times> int list option \<times> int list option" where
  "helperResults ops items b1 b2 =
     (resultItems items (SubHelper ops b1 b2 NotSafe), resultItems items (AddHelper ops b1 b2 False False),
      resultItems items (GetNewItemsHelper ops b1 b2), CheckIntersectionHelper ops b1 b2)"

definition specResults :: "int list \<Rightarrow> int list \<Rightarrow> int list option \<times> int list option \<times> int list option \<times> int list option" where
  "specResults l1 l2 =
     (Some (sorted_list_of_multiset (mset l1 - mset l2)), Some (sorted_list_of_set (set l1 \<union> set l2)),
      Some (sorted_list_of_set (set l2 - set l1)), Some (sorted_list_of_multiset (mset l1 \<inter># mset l2)))"

context bid_builder
begin

lemma helperResults_spec:
  assumes "inv b1" "inv b2"
  shows "helperResults ops items b1 b2 = specResults (items b1) (items b2)"
proof -
  obtain d where d: "SubHelper ops b1 b2 NotSafe = Some (Inr d)" "build d" "mset (items d) = mset (items b1) - mset (items b2)"
    using SubHelper_spec(2) [OF assms, of NotSafe] by (auto simp: subFails_def)
  have "items d = sorted_list_of_multiset (mset (items b1) - mset (items b2))"
    using items_sorted [OF build_inv [OF d(2)]] d(3) by (metis sorted_list_of_multiset_mset sorted_sort_id)
  moreover obtain u where "AddHelper ops b1 b2 False False = Some (Inr u)" "items u = sorted_list_of_set (set (items b1) \<union> set (items b2))"
    using AddHelper_spec(2) [OF assms] by blast
  moreover obtain n where "GetNewItemsHelper ops b1 b2 = Some (Inr n)" "items n = sorted_list_of_set (set (items b2) - set (items b1))"
    using GetNewItemsHelper_spec [OF assms] by blast
  ultimately show ?thesis using d(1) CheckIntersectionHelper_spec [OF assms]
    by (simp add: helperResults_def specResults_def resultItems_def)
qed

end

text \<open>
  C24 (representation independence). The helpers compute the same items from the bitmap, the sorted slice, the slice with
  duplicates, the unary bit string, the run list and the choosing bit identifier, and these are the difference, the union, the
  new items and the intersection of the abstract multisets.
\<close>

theorem representation_independence:
  assumes "sliceInv s1" "sliceInv s2" "pInv p1" "pInv p2" "uvInv u1" "uvInv u2" "chInv c1" "chInv c2" "muInv m1" "muInv m2" "bitInv b1" "bitInv b2"
    and "sli_items s1 = l1" "pItems p1 = l1" "uvItems u1 = l1" "chItems c1 = l1" "mu_items m1 = l1" "bitItems (Buff b1) = l1"
    and "sli_items s2 = l2" "pItems p2 = l2" "uvItems u2 = l2" "chItems c2 = l2" "mu_items m2 = l2" "bitItems (Buff b2) = l2"
  shows "helperResults slice_ops sli_items s1 s2 = specResults l1 l2 \<and> helperResults p_ops pItems p1 p2 = specResults l1 l2 \<and>
    helperResults uv_ops uvItems u1 u2 = specResults l1 l2 \<and> helperResults choose_ops chItems c1 c2 = specResults l1 l2 \<and>
    helperResults multi_ops mu_items m1 m2 = specResults l1 l2 \<and>
    helperResults bitid_ops (\<lambda>b. bitItems (Buff b)) b1 b2 = specResults l1 l2"
  using slice_bid.helperResults_spec [OF assms(1,2)] p_bid.helperResults_spec [OF assms(3,4)] uv_bid.helperResults_spec [OF assms(5,6)]
    choose_bid.helperResults_spec [OF assms(7,8)] multi_bid.helperResults_spec [OF assms(9,10)] bit_bid.helperResults_spec [OF assms(11,12)]
    assms(13-24) by simp

theorem representation_independence_witness:
  "helperResults slice_ops sli_items (NewSliceBitIDFromInts [3]) SliceNew = specResults [3] [] \<and>
   helperResults uv_ops uvItems (NewUvarintBitIDFromInts [3]) UvNew = specResults [3] [] \<and>
   helperResults bitid_ops (\<lambda>b. bitItems (Buff b)) (newSingle [8]) BitNew = specResults [3] []"
proof -
  obtain p where p: "NewPbitidFromInts [3] = Inr p" "pInv p" "pItems p = [3]"
    using NewPbitidFromInts_cases [of "[3]"] by (auto simp: pBuild_def)
  have s: "sliceInv (NewSliceBitIDFromInts [3])" "sliceInv SliceNew" "sli_items (NewSliceBitIDFromInts [3]) = [3]" "sli_items SliceNew = []"
    using NewSliceBitIDFromInts_inv [of "[3]"] slice_bid.new_inv
    by (simp_all add: goInt_def slice_ops_def NewSliceBitIDFromInts_def)
  have u: "uvInv (NewUvarintBitIDFromInts [3])" "uvItems (NewUvarintBitIDFromInts [3]) = [3]" "uvInv UvNew" "uvItems UvNew = []"
    using NewUvarintBitIDFromInts_rep [of "[3]"] NewUvarintBitIDFromInts_rep [of "[]"] uvItems_rep
    by (auto simp: goInt_def uvInv_def NewUvarintBitIDFromInts_def)
  have b: "bitItems (Buff (newSingle [8])) = [3]" "bitItems (Buff BitNew) = []" by code_simp+
  then have "bitInv (newSingle [8])" "bitInv BitNew"
    using newSingle_spec by (auto simp: bitInv_def goInt_def BitNew_def emptyBitID_def)
  moreover have "pInv PNew" "pItems PNew = []" using p_bid.new_inv p_bid.build_inv by (auto simp: p_ops_def)
  moreover have "chInv (NewChooseBIDFromInts [3])" "chInv ChNew" "chItems (NewChooseBIDFromInts [3]) = [3]" "chItems ChNew = []"
    using s by (simp_all add: chInv_def chItems_def NewChooseBIDFromInts_def ChNew_def)
  moreover have "muInv (MuNew\<lparr>mu_items := [3]\<rparr>)" "muInv MuNew" "mu_items MuNew = []" by (simp_all add: muInv_def MuNew_def goInt_def)
  ultimately show ?thesis using s u b p
    representation_independence [of "NewSliceBitIDFromInts [3]" SliceNew p PNew "NewUvarintBitIDFromInts [3]" UvNew "NewChooseBIDFromInts [3]" ChNew
      "MuNew\<lparr>mu_items := [3]\<rparr>" MuNew "newSingle [8]" BitNew "[3]" "[]"] by simp
qed

end
